(* ===== verification/Prelude.thy ===== *)
theory Prelude
  imports Main "HOL-Library.Word" "HOL-Library.Monad_Syntax"
begin

unbundle bit_operations_syntax

text \<open>
  Shared vocabulary of the development.

  The C code is translated into the option monad: \<open>Some x\<close> is a run that produces \<open>x\<close>,
  \<open>None\<close> is a run the C standard gives no meaning to (an access outside an object, a
  null dereference, a division by zero, a failed assertion) or that does not end. A theorem
  of the form \<open>f x = Some y\<close> is therefore at once a safety, termination and value statement.

  The theory holds the C integer types, the checked loads, stores and block copies, the C
  \<open>while\<close> loop with its total-correctness rule, the byte-order functions of the network
  code, and list facts used by several components.
\<close>

section \<open>Machine types\<close>

type_synonym u8 = "8 word"
type_synonym u16 = "16 word"
type_synonym u32 = "32 word"
type_synonym u64 = "64 word"
type_synonym bytes = "8 word list"

named_theorems mem_simps \<open>evaluation of checked memory operations\<close>

section \<open>Checked memory\<close>

definition c_assert :: "bool \<Rightarrow> unit option" where
  "c_assert b = (if b then Some () else None)"

definition c_load :: "'a list \<Rightarrow> nat \<Rightarrow> 'a option" where
  "c_load xs i = (if i < length xs then Some (xs ! i) else None)"

definition c_store :: "'a list \<Rightarrow> nat \<Rightarrow> 'a \<Rightarrow> 'a list option" where
  "c_store xs i v = (if i < length xs then Some (xs[i := v]) else None)"

text \<open>The \<open>n\<close> cells from offset \<open>i\<close> (the source of a \<open>memcpy\<close>).\<close>

definition c_slice :: "'a list \<Rightarrow> nat \<Rightarrow> nat \<Rightarrow> 'a list option" where
  "c_slice xs i n = (if i + n \<le> length xs then Some (take n (drop i xs)) else None)"

text \<open>The cells \<open>ys\<close> copied to offset \<open>i\<close> (the destination of a \<open>memcpy\<close>).\<close>

definition c_blit :: "'a list \<Rightarrow> nat \<Rightarrow> 'a list \<Rightarrow> 'a list option" where
  "c_blit xs i ys =
     (if i + length ys \<le> length xs
      then Some (take i xs @ ys @ drop (i + length ys) xs) else None)"

text \<open>\<open>memmove\<close> inside one object: source and destination may overlap.\<close>

definition c_memmove :: "'a list \<Rightarrow> nat \<Rightarrow> nat \<Rightarrow> nat \<Rightarrow> 'a list option" where
  "c_memmove xs dst src n = do { ys \<leftarrow> c_slice xs src n; c_blit xs dst ys }"

lemma c_assert_True [simp]: "c_assert True = Some ()"
  and c_assert_False [simp]: "c_assert False = None"
  by (simp_all add: c_assert_def)

lemma c_assert_eq_Some [simp]: "c_assert b = Some u \<longleftrightarrow> b"
  by (simp add: c_assert_def)

lemma c_load_Some [mem_simps]: "i < length xs \<Longrightarrow> c_load xs i = Some (xs ! i)"
  by (simp add: c_load_def)

lemma c_store_Some [mem_simps]: "i < length xs \<Longrightarrow> c_store xs i v = Some (xs[i := v])"
  by (simp add: c_store_def)

lemma c_slice_Some [mem_simps]: "i + n \<le> length xs \<Longrightarrow> c_slice xs i n = Some (take n (drop i xs))"
  by (simp add: c_slice_def)

lemma c_blit_Some [mem_simps]:
  "i + length ys \<le> length xs \<Longrightarrow> c_blit xs i ys = Some (take i xs @ ys @ drop (i + length ys) xs)"
  by (simp add: c_blit_def)

lemma c_store_length: "c_store xs i v = Some ys \<Longrightarrow> length ys = length xs"
  by (auto simp: c_store_def split: if_splits)

lemma c_blit_length: "c_blit xs i ys = Some zs \<Longrightarrow> length zs = length xs"
  by (auto simp: c_blit_def split: if_splits)

lemma c_memmove_length: "c_memmove xs d s n = Some ys \<Longrightarrow> length ys = length xs"
  by (auto simp: c_memmove_def bind_eq_Some_conv dest: c_blit_length)

section \<open>The C while loop\<close>

partial_function (option) c_while :: "('s \<Rightarrow> bool) \<Rightarrow> ('s \<Rightarrow> 's option) \<Rightarrow> 's \<Rightarrow> 's option" where
  "c_while b c s = (if b s then Option.bind (c s) (c_while b c) else Some s)"

lemma c_while_False [simp]: "\<not> b s \<Longrightarrow> c_while b c s = Some s"
  by (simp add: c_while.simps)

lemma c_while_True: "b s \<Longrightarrow> c s = Some s' \<Longrightarrow> c_while b c s = c_while b c s'"
  by (simp add: c_while.simps)

text \<open>
  Total correctness: an invariant the body keeps without failing while a measure drops
  gives a result that satisfies the invariant and the negated guard.
\<close>

lemma c_while_rule:
  fixes m :: "'s \<Rightarrow> nat"
  assumes "I s"
    and step: "\<And>s. I s \<Longrightarrow> b s \<Longrightarrow> \<exists>s'. c s = Some s' \<and> I s' \<and> m s' < m s"
  shows "\<exists>t. c_while b c s = Some t \<and> I t \<and> \<not> b t"
  using \<open>I s\<close>
proof (induction "m s" arbitrary: s rule: less_induct)
  case less
  show ?case
  proof (cases "b s")
    case True
    with less.prems obtain s' where "c s = Some s'" "I s'" "m s' < m s"
      using step by blast
    with True less.hyps [of s'] show ?thesis
      by (auto simp: c_while_True)
  next
    case False
    with less.prems show ?thesis by auto
  qed
qed

text \<open>Partial correctness: a run that returned is a finite chain of iterations.\<close>

lemma c_while_induct [consumes 1, case_names stop step]:
  assumes "c_while b c s = Some t"
    and "\<And>s. \<not> b s \<Longrightarrow> P s s"
    and "\<And>s s' t. b s \<Longrightarrow> c s = Some s' \<Longrightarrow> P s' t \<Longrightarrow> P s t"
  shows "P s t"
proof -
  have "b' = b \<longrightarrow> c' = c \<longrightarrow> P s' t'" if "c_while b' c' s' = Some t'" for b' c' s' t'
  proof (rule c_while.raw_induct [where P = "\<lambda>b' c' s' t'. b' = b \<longrightarrow> c' = c \<longrightarrow> P s' t'", OF _ that])
    fix loop b' c' s' t'
    assume "\<And>c' s' b' y. loop c' s' b' = Some y \<Longrightarrow> c' = b \<longrightarrow> s' = c \<longrightarrow> P b' y"
      and "(if b' s' then Option.bind (c' s') (loop b' c') else Some s') = Some t'"
    then show "b' = b \<longrightarrow> c' = c \<longrightarrow> P s' t'"
      using assms(2,3) by (auto simp: bind_eq_Some_conv split: if_splits)
  qed
  from this [OF assms(1)] show ?thesis by simp
qed

section \<open>Arithmetic of ring indices\<close>

lemma unat_of_nat_small:
  "n < 2 ^ LENGTH('a) \<Longrightarrow> unat (word_of_nat n :: 'a::len word) = n"
  by (simp add: unsigned_of_nat take_bit_nat_eq_self)

text \<open>The bytes of an unsigned value as \<open>x & 0xFF\<close> takes them.\<close>

lemma ucast_and_FF: "(ucast ((x :: 32 word) AND 0xFF) :: 8 word) = ucast x"
proof -
  have eq: "(0xFF :: 32 word) = mask 8" by (simp add: mask_eq_exp_minus_1)
  show ?thesis unfolding eq by (rule bit_word_eqI) (simp add: bit_simps)
qed

text \<open>\<open>(i + 1) % n\<close> on unsigned words is the successor modulo \<open>n\<close>: it cannot wrap at the word size.\<close>

lemma unat_next_index:
  fixes i n :: u32
  assumes "unat i < unat n"
  shows "unat ((i + 1) mod n) = Suc (unat i) mod unat n"
proof -
  have "unat i + 1 < 2 ^ 32"
    using assms unsigned_less [of n, where ?'a = nat] by simp
  then have "unat (i + 1) = Suc (unat i)"
    by (simp add: unat_word_ariths)
  then show ?thesis by (simp add: unat_mod_distrib)
qed

lemma mod_add_left_inj:
  fixes i j r n :: nat
  assumes "i < n" "j < n" "(r + i) mod n = (r + j) mod n"
  shows "i = j"
proof -
  have "i mod n = j mod n"
    using assms(3) by (simp add: nat_mod_eq_iff)
  with assms show ?thesis by simp
qed

section \<open>Byte order\<close>

text \<open>
  The target (Xtensa) is little-endian: \<open>mem_bytes w\<close> is the object representation of a
  32-bit word, lowest address first. \<open>htonl\<close> swaps the bytes.
\<close>

definition mem_bytes :: "u32 \<Rightarrow> bytes" where
  "mem_bytes w = [ucast w, ucast (drop_bit 8 w), ucast (drop_bit 16 w), ucast (drop_bit 24 w)]"

definition htonl :: "u32 \<Rightarrow> u32" where
  "htonl w = (push_bit 24 (w AND 0xFF)) OR (push_bit 8 (w AND 0xFF00))
     OR (drop_bit 8 w AND 0xFF00) OR (drop_bit 24 w)"

definition htons :: "u16 \<Rightarrow> u16" where
  "htons w = push_bit 8 w OR drop_bit 8 w"

text \<open>Big-endian reading of four bytes, the receiver's view.\<close>

definition be32 :: "bytes \<Rightarrow> u32" where
  "be32 bs = (case bs of
      [a, b, c, d] \<Rightarrow> push_bit 24 (ucast a) OR push_bit 16 (ucast b) OR push_bit 8 (ucast c) OR ucast d
    | _ \<Rightarrow> 0)"

lemma length_mem_bytes [simp]: "length (mem_bytes w) = 4"
  by (simp add: mem_bytes_def)

text \<open>Words are equal when they agree on the list of their bit positions, which \<open>simp\<close> enumerates.\<close>

lemma word_eqI_bits:
  fixes a b :: "'a::len word"
  assumes "list_all (\<lambda>n. bit a n = bit b n) [0..<LENGTH('a)]"
  shows "a = b"
  using assms by (intro bit_word_eqI) (auto simp: list_all_iff)

lemma bit_positions:
  "[0..<8] = [0, 1, 2, 3, 4, 5, 6, 7]"
  "[0..<16] = [0, 1, 2, 3, 4, 5, 6, 7, 8, 9, 10, 11, 12, 13, 14, 15]"
  "[0..<32] = [0, 1, 2, 3, 4, 5, 6, 7, 8, 9, 10, 11, 12, 13, 14, 15, 16, 17, 18, 19, 20, 21, 22, 23,
      24, 25, 26, 27, 28, 29, 30, 31]"
  by code_simp+

lemma bit_u8_beyond [simp]: "8 \<le> k \<Longrightarrow> \<not> bit (w :: u8) k"
  by (auto dest: bit_imp_le_length)

lemma bit_u16_beyond [simp]: "16 \<le> k \<Longrightarrow> \<not> bit (w :: u16) k"
  by (auto dest: bit_imp_le_length)

lemma bit_u32_beyond [simp]: "32 \<le> k \<Longrightarrow> \<not> bit (w :: u32) k"
  by (auto dest: bit_imp_le_length)

lemma be32_htonl: "be32 (mem_bytes (htonl w)) = w"
  unfolding be32_def mem_bytes_def htonl_def list.case
  by (rule word_eqI_bits) (simp add: bit_positions bit_simps)

lemma htonl_htonl [simp]: "htonl (htonl w) = w"
  unfolding htonl_def by (rule word_eqI_bits) (simp add: bit_positions bit_simps)

end
