(* ===== verification/Fifo.thy ===== *)
theory Fifo
  imports Prelude
begin

text \<open>
  The interface between the ring buffer and the code that fills and drains it. A latched FIFO
  offers \<open>put\<close>, \<open>get\<close> and a flag; the contract says how each acts on the list of
  stored elements and on the flag. The client lemmas are about the two loops of the program:
  one \<open>put\<close> per timer tick until the flag rises, and
  \<open>while (is_full(b)) { ... read_from_buffer(b) ... }\<close>.
\<close>

section \<open>Iteration in the option monad\<close>

fun m_fold :: "('s \<Rightarrow> 'a \<Rightarrow> 's option) \<Rightarrow> 's \<Rightarrow> 'a list \<Rightarrow> 's option" where
  "m_fold f s [] = Some s"
| "m_fold f s (x # xs) = Option.bind (f s x) (\<lambda>s'. m_fold f s' xs)"

lemma m_fold_append: "m_fold f s (xs @ ys) = Option.bind (m_fold f s xs) (\<lambda>t. m_fold f t ys)"
  by (induction xs arbitrary: s) (auto split: bind_splits)

text \<open>\<open>arr[counter] = f(x); counter++;\<close>\<close>

definition store_next :: "('a \<Rightarrow> 'c) \<Rightarrow> 'c list \<times> nat \<Rightarrow> 'a \<Rightarrow> ('c list \<times> nat) option" where
  "store_next f = (\<lambda>(arr, counter) x. do {
     arr' \<leftarrow> c_store arr counter (f x);
     Some (arr', counter + 1)
   })"

lemma m_fold_store_next:
  assumes "c + length xs \<le> length arr"
  shows "m_fold (store_next f) (arr, c) xs =
    Some (take c arr @ map f xs @ drop (c + length xs) arr, c + length xs)"
  using assms
proof (induction xs arbitrary: arr c)
  case Nil
  then show ?case by simp
next
  case (Cons x xs)
  then have "c < length arr" by simp
  moreover have "take (Suc c) (arr[c := f x]) = take c arr @ [f x]"
    using \<open>c < length arr\<close> by (simp add: take_Suc_conv_app_nth)
  ultimately show ?case
    using Cons.IH [of "Suc c" "arr[c := f x]"] Cons.prems
    by (simp add: store_next_def mem_simps)
qed

section \<open>The drain loop\<close>

text \<open>
  \<open>while (is_full(b)) { x = read_from_buffer(b); ... }\<close>, with the rest of the body as
  the argument \<open>store\<close> that consumes one element.
\<close>

definition drain_loop ::
  "('b \<Rightarrow> bool) \<Rightarrow> ('b \<Rightarrow> ('a \<times> 'b) option) \<Rightarrow> ('s \<Rightarrow> 'a \<Rightarrow> 's option) \<Rightarrow> 'b \<times> 's \<Rightarrow> ('b \<times> 's) option" where
  "drain_loop latched get store =
     c_while (\<lambda>(b, s). latched b)
       (\<lambda>(b, s). do { (x, b') \<leftarrow> get b; s' \<leftarrow> store s x; Some (b', s') })"

lemma drain_loop_stop: "\<not> latched b \<Longrightarrow> drain_loop latched get store (b, s) = Some (b, s)"
  by (simp add: drain_loop_def)

lemma drain_loop_step:
  "latched b \<Longrightarrow> get b = Some (x, b') \<Longrightarrow> store s x = Some s' \<Longrightarrow>
   drain_loop latched get store (b, s) = drain_loop latched get store (b', s')"
  by (simp add: drain_loop_def c_while_True)

section \<open>The contract\<close>

locale latched_fifo =
  fixes put :: "'b \<Rightarrow> 'a \<Rightarrow> 'b option"
    and get :: "'b \<Rightarrow> ('a \<times> 'b) option"
    and latched :: "'b \<Rightarrow> bool"
    and contents :: "'b \<Rightarrow> 'a list"
    and cap :: "'b \<Rightarrow> nat"
    and inv :: "'b \<Rightarrow> bool"
  assumes put_spec: "inv b \<Longrightarrow> length (contents b) < cap b \<Longrightarrow>
      \<exists>b'. put b x = Some b' \<and> inv b' \<and> contents b' = contents b @ [x] \<and> cap b' = cap b \<and>
        (latched b' \<longleftrightarrow> latched b \<or> Suc (length (contents b)) = cap b)"
    and get_spec: "inv b \<Longrightarrow> contents b \<noteq> [] \<Longrightarrow>
      \<exists>b'. get b = Some (hd (contents b), b') \<and> inv b' \<and> contents b' = tl (contents b) \<and>
        cap b' = cap b \<and> (latched b' \<longleftrightarrow> latched b \<and> tl (contents b) \<noteq> [])"
begin

text \<open>Filling: the elements arrive in order, the latch rises with the last free cell.\<close>

lemma put_all:
  assumes "inv b" "length (contents b) + length xs \<le> cap b"
  shows "\<exists>b'. m_fold put b xs = Some b' \<and> inv b' \<and> contents b' = contents b @ xs \<and> cap b' = cap b \<and>
    (latched b' \<longleftrightarrow> latched b \<or> xs \<noteq> [] \<and> length (contents b) + length xs = cap b)"
  using assms
proof (induction xs arbitrary: b)
  case Nil
  then show ?case by simp
next
  case (Cons x xs)
  then obtain b1 where b1: "put b x = Some b1" "inv b1" "contents b1 = contents b @ [x]"
      "cap b1 = cap b" "latched b1 \<longleftrightarrow> latched b \<or> Suc (length (contents b)) = cap b"
    using put_spec [of b x] by auto
  from Cons.IH [of b1] b1 Cons.prems show ?case
    by (cases xs) auto
qed

text \<open>Draining: the loop ends, hands every element to the consumer in order and leaves the buffer empty and unlatched.\<close>

lemma drain_all_aux:
  "contents b = xs \<Longrightarrow> inv b \<Longrightarrow> latched b \<Longrightarrow> xs \<noteq> [] \<Longrightarrow> m_fold store s xs = Some s' \<Longrightarrow>
   \<exists>b'. drain_loop latched get store (b, s) = Some (b', s') \<and> inv b' \<and> contents b' = [] \<and>
    cap b' = cap b \<and> \<not> latched b'"
proof (induction xs arbitrary: b s)
  case Nil
  then show ?case by simp
next
  case (Cons x xs)
  obtain b1 where b1: "get b = Some (x, b1)" "inv b1" "contents b1 = xs" "cap b1 = cap b"
      "latched b1 \<longleftrightarrow> xs \<noteq> []"
    using get_spec [of b] Cons.prems by auto
  obtain s1 where s1: "store s x = Some s1" "m_fold store s1 xs = Some s'"
    using Cons.prems(5) by (auto simp: bind_eq_Some_conv)
  have step: "drain_loop latched get store (b, s) = drain_loop latched get store (b1, s1)"
    using Cons.prems(3) b1(1) s1(1) by (rule drain_loop_step)
  show ?case
  proof (cases "xs = []")
    case True
    with b1 s1 step show ?thesis by (simp add: drain_loop_stop)
  next
    case False
    with b1 have "latched b1" by simp
    from Cons.IH [OF b1(3,2) this False s1(2)] b1(4) step show ?thesis by simp
  qed
qed

lemma drain_all:
  assumes "inv b" "latched b" "contents b \<noteq> []" "m_fold store s (contents b) = Some s'"
  shows "\<exists>b'. drain_loop latched get store (b, s) = Some (b', s') \<and> inv b' \<and> contents b' = [] \<and>
    cap b' = cap b \<and> \<not> latched b'"
  by (rule drain_all_aux [OF refl assms])

text \<open>Draining into an array from index \<open>c\<close>.\<close>

lemma drain_into_array:
  assumes "inv b" "latched b" "contents b \<noteq> []" "c + length (contents b) \<le> length arr"
  shows "\<exists>b'. drain_loop latched get (store_next f) (b, (arr, c)) =
      Some (b', take c arr @ map f (contents b) @ drop (c + length (contents b)) arr,
        c + length (contents b)) \<and>
    inv b' \<and> contents b' = [] \<and> cap b' = cap b \<and> \<not> latched b'"
  by (rule drain_all [OF assms(1-3) m_fold_store_next [OF assms(4)]])

text \<open>Fill to capacity, then drain: the consumer sees exactly what was written, in order.\<close>

lemma fill_then_drain:
  assumes "inv b" "contents b = []" "length xs = cap b" "xs \<noteq> []"
  shows "\<exists>b1 b2. m_fold put b xs = Some b1 \<and> latched b1 \<and>
    drain_loop latched get (\<lambda>ys y. Some (ys @ [y])) (b1, []) = Some (b2, xs) \<and>
    inv b2 \<and> contents b2 = [] \<and> \<not> latched b2"
proof -
  obtain b1 where b1: "m_fold put b xs = Some b1" "inv b1" "contents b1 = xs" "latched b1"
    using put_all [of b xs] assms by auto
  have snoc: "m_fold (\<lambda>ys y. Some (ys @ [y])) zs xs = Some (zs @ xs)" for zs
    by (induction xs arbitrary: zs) auto
  show ?thesis
    using drain_all [of b1 "\<lambda>ys y. Some (ys @ [y])" "[]" xs] b1 assms(4) snoc [of "[]"] by auto
qed

end

end
