(* ===== verification/Ringbuffer.thy ===== *)
theory Ringbuffer
  imports Fifo
begin

text \<open>
  The ring buffer of \<open>src/main/ringbuffer.c\<close> and \<open>src/main/include/ringbuffer.h\<close>:
  the handle record, one definition per function, the invariant, the abstraction to the list
  of stored samples, and the contract \<open>latched_fifo\<close> that the sampler and the sender rely on.

  The buffer is a FIFO with a latch. \<open>write_to_buffer\<close> sets the flag \<open>full\<close> when the
  last free cell is filled, \<open>read_from_buffer\<close> clears it when the last sample is taken; in
  between the flag keeps its value, so a buffer is \<open>full\<close> from the moment it was filled
  until it has been drained.
\<close>

section \<open>Data (ringbuffer.h)\<close>

text \<open>\<open>struct timeval\<close>: a 64-bit \<open>time_t\<close> and a 32-bit \<open>suseconds_t\<close>, both signed.\<close>

record timeval =
  tv_sec :: u64
  tv_usec :: u32

text \<open>
  \<open>sensValue\<close> is the heap block the pointer of that name refers to. \<open>rb_size\<close> is the
  field \<open>size\<close>; it is an \<open>int\<close>, but the only expressions that use it are unsigned
  remainders, so its bits are kept.
\<close>

record ringbuffer_handle =
  writeIndex :: u32
  readIndex :: u32
  timestamp :: timeval
  sensValue :: "u32 list"
  rb_size :: u32
  full :: bool

section \<open>Operations (ringbuffer.c)\<close>

text \<open>
  \<open>malloc\<close>: \<open>handle_mem\<close> is the uninitialised struct the first call returns, or
  \<open>None\<close> for the null pointer; \<open>cells_ok n\<close> says whether the second call, for \<open>n\<close>
  bytes, succeeds, and \<open>junk\<close> is the indeterminate content of that block. The product
  \<open>sizeof(uint32_t) * size\<close> is taken in a 32-bit \<open>size_t\<close> and may wrap. The second
  component of the result is the number of blocks the call leaves allocated.
\<close>

definition malloc_cells :: "(nat \<Rightarrow> bool) \<Rightarrow> (nat \<Rightarrow> u32) \<Rightarrow> nat \<Rightarrow> u32 list option" where
  "malloc_cells cells_ok junk n = (if cells_ok n then Some (map junk [0..<n div 4]) else None)"

definition init_buffer ::
  "ringbuffer_handle option \<Rightarrow> (nat \<Rightarrow> bool) \<Rightarrow> (nat \<Rightarrow> u32) \<Rightarrow> u32 \<Rightarrow> ringbuffer_handle option \<times> nat" where
  "init_buffer handle_mem cells_ok junk sz =
     (case handle_mem of
        None \<Rightarrow> (None, 0)
      | Some buffer \<Rightarrow>
          (case malloc_cells cells_ok junk (unat (4 * sz)) of
             None \<Rightarrow> (None, 1 - 1)
           | Some cells \<Rightarrow>
               (Some (buffer\<lparr>sensValue := cells, writeIndex := 0, readIndex := 0,
                             rb_size := sz, full := False\<rparr>), 2)))"

definition write_timestamp_to_buffer :: "ringbuffer_handle \<Rightarrow> timeval \<Rightarrow> ringbuffer_handle" where
  "write_timestamp_to_buffer buffer time = buffer\<lparr>timestamp := time\<rparr>"

definition write_to_buffer :: "ringbuffer_handle \<Rightarrow> u32 \<Rightarrow> ringbuffer_handle option" where
  "write_to_buffer buffer data = do {
     c_assert (rb_size buffer \<noteq> 0);
     let b1 = (if (writeIndex buffer + 1) mod rb_size buffer = readIndex buffer
               then buffer\<lparr>full := True\<rparr> else buffer);
     cells \<leftarrow> c_store (sensValue b1) (unat (writeIndex b1)) data;
     Some (b1\<lparr>sensValue := cells, writeIndex := (writeIndex b1 + 1) mod rb_size b1\<rparr>)
   }"

definition read_from_buffer :: "ringbuffer_handle \<Rightarrow> (u32 \<times> ringbuffer_handle) option" where
  "read_from_buffer buffer = do {
     data \<leftarrow> c_load (sensValue buffer) (unat (readIndex buffer));
     c_assert (rb_size buffer \<noteq> 0);
     let b1 = buffer\<lparr>readIndex := (readIndex buffer + 1) mod rb_size buffer\<rparr>;
     let b2 = (if readIndex b1 = writeIndex b1 then b1\<lparr>full := False\<rparr> else b1);
     Some (data, b2)
   }"

definition is_full :: "ringbuffer_handle \<Rightarrow> bool" where
  "is_full buffer = full buffer"

text \<open>\<open>free_buffer\<close> releases both blocks: the count of live blocks drops by two.\<close>

definition free_buffer :: "ringbuffer_handle \<Rightarrow> nat \<Rightarrow> nat" where
  "free_buffer buffer live = live - 1 - 1"

section \<open>Invariant and abstraction\<close>

abbreviation rb_cap :: "ringbuffer_handle \<Rightarrow> nat" where
  "rb_cap b \<equiv> unat (rb_size b)"

definition rb_inv :: "ringbuffer_handle \<Rightarrow> bool" where
  "rb_inv b \<longleftrightarrow> 0 < rb_cap b \<and> length (sensValue b) = rb_cap b \<and>
     unat (writeIndex b) < rb_cap b \<and> unat (readIndex b) < rb_cap b"

text \<open>The number of stored samples; equal indices mean empty or full, told apart by the flag.\<close>

definition rb_count :: "ringbuffer_handle \<Rightarrow> nat" where
  "rb_count b =
     (if writeIndex b = readIndex b then (if full b then rb_cap b else 0)
      else (unat (writeIndex b) + rb_cap b - unat (readIndex b)) mod rb_cap b)"

definition rb_contents :: "ringbuffer_handle \<Rightarrow> u32 list" where
  "rb_contents b =
     map (\<lambda>i. sensValue b ! ((unat (readIndex b) + i) mod rb_cap b)) [0..<rb_count b]"

lemma length_rb_contents [simp]: "length (rb_contents b) = rb_count b"
  by (simp add: rb_contents_def)

lemma rb_contents_empty [simp]: "rb_contents b = [] \<longleftrightarrow> rb_count b = 0"
  by (simp add: rb_contents_def)

lemma rb_contents_nth:
  "i < rb_count b \<Longrightarrow> rb_contents b ! i = sensValue b ! ((unat (readIndex b) + i) mod rb_cap b)"
  by (simp add: rb_contents_def)

text \<open>The write position is \<open>rb_count\<close> cells after the read position.\<close>

lemma rb_count_spec:
  assumes "rb_inv b"
  shows "rb_count b \<le> rb_cap b"
    and "unat (writeIndex b) = (unat (readIndex b) + rb_count b) mod rb_cap b"
proof -
  let ?w = "unat (writeIndex b)" and ?r = "unat (readIndex b)" and ?n = "rb_cap b"
  have bounds: "0 < ?n" "?w < ?n" "?r < ?n"
    using assms by (auto simp: rb_inv_def)
  show "rb_count b \<le> ?n"
    using bounds by (auto simp: rb_count_def less_imp_le)
  have "(?r + (?w + ?n - ?r) mod ?n) mod ?n = ?w"
    using bounds by (simp add: mod_add_right_eq)
  then show "?w = (?r + rb_count b) mod ?n"
    using bounds by (auto simp: rb_count_def)
qed

text \<open>The count is the only number of stored samples that fits the indices and the flag.\<close>

lemma rb_count_eqI:
  assumes "rb_inv b" "c \<le> rb_cap b"
    and w: "unat (writeIndex b) = (unat (readIndex b) + c) mod rb_cap b"
    and "c = 0 \<Longrightarrow> \<not> full b" "c = rb_cap b \<Longrightarrow> full b"
  shows "rb_count b = c"
proof -
  have b: "0 < rb_cap b" "unat (readIndex b) < rb_cap b"
    using assms(1) by (auto simp: rb_inv_def)
  have eq: "(unat (readIndex b) + rb_count b) mod rb_cap b = (unat (readIndex b) + c) mod rb_cap b"
    using rb_count_spec(2) [OF assms(1)] w by simp
  consider "c < rb_cap b" "rb_count b < rb_cap b" | "c = rb_cap b" | "rb_count b = rb_cap b" "c < rb_cap b"
    using rb_count_spec(1) [OF assms(1)] assms(2) by linarith
  then show ?thesis
  proof cases
    case 1
    then show ?thesis using eq by (metis mod_add_left_inj)
  next
    case 2
    then have "writeIndex b = readIndex b"
      using w b by (simp add: word_unat_eq_iff)
    with 2 assms(5) show ?thesis by (simp add: rb_count_def)
  next
    case 3
    then have "c = 0"
      using eq b by (metis add.right_neutral mod_add_left_inj mod_add_self2)
    moreover have "\<not> full b \<Longrightarrow> rb_count b < rb_cap b"
      using b by (simp add: rb_count_def)
    ultimately show ?thesis using 3 assms(4) by auto
  qed
qed

lemma rb_contents_eqI:
  assumes "rb_count b = length xs"
    and "\<And>i. i < length xs \<Longrightarrow> sensValue b ! ((unat (readIndex b) + i) mod rb_cap b) = xs ! i"
  shows "rb_contents b = xs"
  using assms by (intro nth_equalityI) (auto simp: rb_contents_nth)

section \<open>Functional behaviour of the operations\<close>

lemma write_to_buffer_eq:
  assumes "rb_inv b"
  shows "write_to_buffer b x = Some (b\<lparr>
     sensValue := (sensValue b)[unat (writeIndex b) := x],
     writeIndex := (writeIndex b + 1) mod rb_size b,
     full := full b \<or> (writeIndex b + 1) mod rb_size b = readIndex b\<rparr>)"
  using assms
  by (auto simp: write_to_buffer_def rb_inv_def c_store_def Let_def c_assert_def)

lemma read_from_buffer_eq:
  assumes "rb_inv b"
  shows "read_from_buffer b = Some (sensValue b ! unat (readIndex b), b\<lparr>
     readIndex := (readIndex b + 1) mod rb_size b,
     full := full b \<and> (readIndex b + 1) mod rb_size b \<noteq> writeIndex b\<rparr>)"
  using assms
  by (auto simp: read_from_buffer_def rb_inv_def c_load_def Let_def c_assert_def)

text \<open>Writing appends, and latches exactly when the last free cell is used.\<close>

lemma write_to_buffer_spec:
  assumes inv: "rb_inv b" and room: "rb_count b < rb_cap b"
  obtains b' where "write_to_buffer b x = Some b'" "rb_inv b'" "rb_contents b' = rb_contents b @ [x]"
    "rb_size b' = rb_size b" "timestamp b' = timestamp b"
    "full b' \<longleftrightarrow> full b \<or> Suc (rb_count b) = rb_cap b"
proof -
  let ?b = "b\<lparr>sensValue := (sensValue b)[unat (writeIndex b) := x],
     writeIndex := (writeIndex b + 1) mod rb_size b,
     full := full b \<or> (writeIndex b + 1) mod rb_size b = readIndex b\<rparr>"
  let ?r = "unat (readIndex b)" and ?n = "rb_cap b" and ?c = "rb_count b"
  have bounds: "0 < ?n" "unat (writeIndex b) < ?n" "?r < ?n" "length (sensValue b) = ?n"
    using inv by (auto simp: rb_inv_def)
  have w: "unat (writeIndex b) = (?r + ?c) mod ?n"
    using rb_count_spec(2) [OF inv] .
  have w': "unat ((writeIndex b + 1) mod rb_size b) = (?r + Suc ?c) mod ?n"
    using unat_next_index [OF bounds(2)] w by (simp add: mod_Suc_eq)
  have wrap: "(writeIndex b + 1) mod rb_size b = readIndex b \<longleftrightarrow> Suc ?c = ?n"
  proof
    assume "(writeIndex b + 1) mod rb_size b = readIndex b"
    then have "(?r + Suc ?c) mod ?n = (?r + 0) mod ?n"
      using w' bounds by simp
    then show "Suc ?c = ?n"
      using mod_add_left_inj [of "Suc ?c" ?n 0 ?r] room by fastforce
  next
    assume "Suc ?c = ?n"
    then show "(writeIndex b + 1) mod rb_size b = readIndex b"
      using w' bounds by (simp add: word_unat_eq_iff)
  qed
  have inv': "rb_inv ?b"
    using bounds w' by (auto simp: rb_inv_def)
  have count': "rb_count ?b = Suc ?c"
  proof (rule rb_count_eqI [OF inv'])
    show "unat (writeIndex ?b) = (unat (readIndex ?b) + Suc ?c) mod rb_cap ?b"
      using w' by simp
  qed (use room wrap in simp_all)
  have "rb_contents ?b = rb_contents b @ [x]"
  proof (rule rb_contents_eqI)
    show "rb_count ?b = length (rb_contents b @ [x])" using count' by simp
    fix i assume i: "i < length (rb_contents b @ [x])"
    show "sensValue ?b ! ((unat (readIndex ?b) + i) mod rb_cap ?b) = (rb_contents b @ [x]) ! i"
    proof (cases "i = ?c")
      case True
      then show ?thesis using w bounds by (simp add: nth_append)
    next
      case False
      with i have "i < ?c" by simp
      moreover have "(?r + i) mod ?n \<noteq> unat (writeIndex b)"
        using mod_add_left_inj [of i ?n ?c ?r] False \<open>i < ?c\<close> room w by linarith
      ultimately show ?thesis by (simp add: nth_append rb_contents_nth)
    qed
  qed
  then show ?thesis
    using that [of ?b] write_to_buffer_eq [OF inv] inv' wrap by auto
qed

text \<open>Reading removes the oldest sample, and clears the latch exactly when it was the last one.\<close>

lemma read_from_buffer_spec:
  assumes inv: "rb_inv b" and some: "0 < rb_count b"
  obtains b' where "read_from_buffer b = Some (hd (rb_contents b), b')" "rb_inv b'"
    "rb_contents b' = tl (rb_contents b)" "rb_size b' = rb_size b" "timestamp b' = timestamp b"
    "full b' \<longleftrightarrow> full b \<and> 1 < rb_count b"
proof -
  let ?b = "b\<lparr>readIndex := (readIndex b + 1) mod rb_size b,
     full := full b \<and> (readIndex b + 1) mod rb_size b \<noteq> writeIndex b\<rparr>"
  let ?r = "unat (readIndex b)" and ?n = "rb_cap b" and ?c = "rb_count b"
  have bounds: "0 < ?n" "unat (writeIndex b) < ?n" "?r < ?n" "length (sensValue b) = ?n" "?c \<le> ?n"
    using inv rb_count_spec(1) [OF inv] by (auto simp: rb_inv_def)
  have w: "unat (writeIndex b) = (?r + ?c) mod ?n"
    using rb_count_spec(2) [OF inv] .
  have r': "unat ((readIndex b + 1) mod rb_size b) = Suc ?r mod ?n"
    using unat_next_index [OF bounds(3)] .
  have w': "unat (writeIndex b) = (Suc ?r mod ?n + (?c - 1)) mod ?n"
    using w some by (metis Suc_diff_1 add_Suc_shift mod_add_left_eq)
  have empty: "(readIndex b + 1) mod rb_size b = writeIndex b \<longleftrightarrow> ?c = 1"
  proof
    assume "(readIndex b + 1) mod rb_size b = writeIndex b"
    then have "(Suc ?r + 0) mod ?n = (Suc ?r + (?c - 1)) mod ?n"
      using w' r' by (simp add: mod_add_left_eq)
    then show "?c = 1"
      using mod_add_left_inj [of 0 ?n "?c - 1" "Suc ?r"] bounds some by fastforce
  next
    assume "?c = 1"
    then show "(readIndex b + 1) mod rb_size b = writeIndex b"
      using w r' by (simp add: word_unat_eq_iff)
  qed
  have inv': "rb_inv ?b"
    using bounds r' by (auto simp: rb_inv_def)
  have count': "rb_count ?b = ?c - 1"
  proof (rule rb_count_eqI [OF inv'])
    show "unat (writeIndex ?b) = (unat (readIndex ?b) + (?c - 1)) mod rb_cap ?b"
      using w' r' by simp
    assume "?c - 1 = rb_cap ?b" then show "full ?b" using bounds by simp
  qed (use bounds some empty in auto)
  have "rb_contents ?b = tl (rb_contents b)"
  proof (rule rb_contents_eqI)
    show "rb_count ?b = length (tl (rb_contents b))" using count' by simp
    fix i assume "i < length (tl (rb_contents b))"
    then show "sensValue ?b ! ((unat (readIndex ?b) + i) mod rb_cap ?b) = tl (rb_contents b) ! i"
      using r' by (simp add: nth_tl rb_contents_nth mod_add_left_eq)
  qed
  moreover have "sensValue b ! ?r = hd (rb_contents b)"
    using some bounds by (subst hd_conv_nth) (auto simp: rb_contents_nth)
  ultimately show ?thesis
    using that [of ?b] read_from_buffer_eq [OF inv] inv' empty some by auto
qed

section \<open>The ring buffer is a latched FIFO\<close>

interpretation rb: latched_fifo write_to_buffer read_from_buffer is_full rb_contents rb_cap rb_inv
proof unfold_locales
  fix b x
  assume "rb_inv b" "length (rb_contents b) < rb_cap b"
  then show "\<exists>b'. write_to_buffer b x = Some b' \<and> rb_inv b' \<and> rb_contents b' = rb_contents b @ [x] \<and>
      rb_cap b' = rb_cap b \<and> (is_full b' \<longleftrightarrow> is_full b \<or> Suc (length (rb_contents b)) = rb_cap b)"
    by (metis is_full_def length_rb_contents write_to_buffer_spec)
next
  fix b
  assume inv: "rb_inv b" and "rb_contents b \<noteq> []"
  then have "0 < rb_count b" by simp
  moreover have "tl (rb_contents b) \<noteq> [] \<longleftrightarrow> 1 < rb_count b"
    by (metis One_nat_def length_greater_0_conv length_rb_contents length_tl zero_less_diff)
  ultimately show "\<exists>b'. read_from_buffer b = Some (hd (rb_contents b), b') \<and> rb_inv b' \<and>
      rb_contents b' = tl (rb_contents b) \<and> rb_cap b' = rb_cap b \<and>
      (is_full b' \<longleftrightarrow> is_full b \<and> tl (rb_contents b) \<noteq> [])"
    using read_from_buffer_spec [OF inv] by (metis is_full_def)
qed

text \<open>A fresh buffer is empty and satisfies the invariant, unless the byte count of its cells wrapped.\<close>

lemma init_buffer_fresh:
  assumes "init_buffer mem ok junk sz = (Some b, live)" "sz \<noteq> 0" "unat sz < 2 ^ 30"
  shows "rb_inv b" "rb_contents b = []" "rb_size b = sz" "\<not> full b" "live = 2"
proof -
  have "unat (4 * sz) = 4 * unat sz"
    using assms(3) by (simp add: unat_word_ariths)
  then show "rb_inv b" "rb_contents b = []" "rb_size b = sz" "\<not> full b" "live = 2"
    using assms(1,2)
    by (auto simp: init_buffer_def malloc_cells_def rb_inv_def rb_count_def unat_gt_0
        split: option.splits if_splits)
qed

section \<open>Properties\<close>

text \<open>A write to a buffer that has room never fails, appends the sample to the stored ones,
  keeps the invariant, and raises the flag exactly when the last free cell was used.\<close>

theorem write_appends:
  assumes "rb_inv b" "rb_count b < rb_cap b"
  shows "\<exists>b'. write_to_buffer b x = Some b' \<and> rb_inv b' \<and> rb_contents b' = rb_contents b @ [x] \<and>
    rb_cap b' = rb_cap b \<and> (is_full b' \<longleftrightarrow> is_full b \<or> rb_count b' = rb_cap b')"
proof -
  obtain b' where b': "write_to_buffer b x = Some b'" "rb_inv b'" "rb_contents b' = rb_contents b @ [x]"
      "rb_cap b' = rb_cap b" "is_full b' \<longleftrightarrow> is_full b \<or> Suc (length (rb_contents b)) = rb_cap b"
    using rb.put_spec [of b x] assms by auto
  moreover have "rb_count b' = Suc (rb_count b)"
    using b'(3) by (metis length_append_singleton length_rb_contents)
  ultimately show ?thesis by auto
qed

definition sample_buffer :: ringbuffer_handle where
  "sample_buffer = \<lparr>writeIndex = 0, readIndex = 1, timestamp = \<lparr>tv_sec = 0, tv_usec = 0\<rparr>,
     sensValue = [7, 8, 9], rb_size = 3, full = False\<rparr>"

lemma sample_buffer_facts:
  "rb_inv sample_buffer" "rb_count sample_buffer = 2" "rb_cap sample_buffer = 3"
  "rb_contents sample_buffer = [8, 9]" "\<not> is_full sample_buffer"
  by (simp_all add: sample_buffer_def rb_inv_def rb_count_def rb_contents_def is_full_def upt_rec)

theorem write_appends_witness:
  "\<exists>b'. write_to_buffer sample_buffer 5 = Some b' \<and> rb_contents b' = [8, 9, 5] \<and> is_full b'"
proof -
  obtain b' where "write_to_buffer sample_buffer 5 = Some b'" "rb_contents b' = [8, 9, 5]"
      "rb_cap b' = 3" "is_full b' \<longleftrightarrow> rb_count b' = rb_cap b'"
    using write_appends [of sample_buffer 5] by (auto simp: sample_buffer_facts)
  moreover have "rb_count b' = 3"
    using calculation(2) by (metis length_Cons length_rb_contents list.size(3) numeral_3_eq_3)
  ultimately show ?thesis by simp
qed

text \<open>A read from a buffer that holds a sample never fails, returns the oldest one, removes
  it, and clears the flag exactly when the buffer becomes empty.\<close>

theorem read_removes_oldest:
  assumes "rb_inv b" "0 < rb_count b"
  shows "\<exists>b'. read_from_buffer b = Some (hd (rb_contents b), b') \<and> rb_inv b' \<and>
    rb_contents b' = tl (rb_contents b) \<and> rb_cap b' = rb_cap b \<and>
    (is_full b' \<longleftrightarrow> is_full b \<and> 0 < rb_count b')"
proof -
  obtain b' where b': "read_from_buffer b = Some (hd (rb_contents b), b')" "rb_inv b'"
      "rb_contents b' = tl (rb_contents b)" "rb_cap b' = rb_cap b"
      "is_full b' \<longleftrightarrow> is_full b \<and> tl (rb_contents b) \<noteq> []"
    using rb.get_spec [of b] assms by auto
  moreover have "tl (rb_contents b) \<noteq> [] \<longleftrightarrow> 0 < rb_count b'"
    using rb_contents_empty [of b'] b'(3) by simp
  ultimately show ?thesis by auto
qed

theorem read_removes_oldest_witness:
  "\<exists>b'. read_from_buffer sample_buffer = Some (8, b') \<and> rb_contents b' = [9]"
  using read_removes_oldest [of sample_buffer] by (auto simp: sample_buffer_facts)

text \<open>C5: a buffer made by \<open>init_buffer\<close> and filled to capacity is full, and the loop
  \<open>while (is_full(b)) read_from_buffer(b)\<close> ends, yields exactly the written samples in the
  order they were written, and leaves the buffer empty and not full.\<close>

theorem fill_drain_roundtrip:
  assumes "init_buffer mem ok junk sz = (Some b, live)" "sz \<noteq> 0" "unat sz < 2 ^ 30"
    "length xs = unat sz"
  shows "\<exists>b1 b2. m_fold write_to_buffer b xs = Some b1 \<and> is_full b1 \<and>
    drain_loop is_full read_from_buffer (\<lambda>ys y. Some (ys @ [y])) (b1, []) = Some (b2, xs) \<and>
    rb_contents b2 = [] \<and> \<not> is_full b2"
proof -
  note fresh = init_buffer_fresh [OF assms(1-3)]
  have "xs \<noteq> []" using assms(2,4) by (auto simp: unat_eq_0)
  with rb.fill_then_drain [of b xs] fresh assms(4) show ?thesis by auto
qed

theorem fill_drain_roundtrip_witness:
  "\<exists>b1 b2. m_fold write_to_buffer (the (fst (init_buffer (Some sample_buffer) (\<lambda>_. True) (\<lambda>_. 0) 3))) [4, 5, 6]
      = Some b1 \<and> is_full b1 \<and>
    drain_loop is_full read_from_buffer (\<lambda>ys y. Some (ys @ [y])) (b1, []) = Some (b2, [4, 5, 6]) \<and>
    rb_contents b2 = [] \<and> \<not> is_full b2"
  by (rule fill_drain_roundtrip [of "Some sample_buffer" "\<lambda>_. True" "\<lambda>_. 0" 3 _ 2])
    (simp_all add: init_buffer_def malloc_cells_def)

text \<open>A write to a full buffer is not rejected: it drops every stored sample but the new one,
  while the flag stays up although the buffer holds a single sample.\<close>

theorem overrun_loses_buffer:
  assumes "rb_inv b" "is_full b" "rb_count b = rb_cap b" "2 \<le> rb_cap b"
  shows "\<exists>b'. write_to_buffer b x = Some b' \<and> rb_inv b' \<and> rb_contents b' = [x] \<and> is_full b'"
proof -
  let ?b = "b\<lparr>sensValue := (sensValue b)[unat (writeIndex b) := x],
     writeIndex := (writeIndex b + 1) mod rb_size b,
     full := full b \<or> (writeIndex b + 1) mod rb_size b = readIndex b\<rparr>"
  have bounds: "unat (writeIndex b) < rb_cap b" "unat (readIndex b) < rb_cap b"
      "length (sensValue b) = rb_cap b"
    using assms(1) by (auto simp: rb_inv_def)
  have same: "writeIndex b = readIndex b"
    using rb_count_spec(2) [OF assms(1)] assms(3) bounds by (simp add: word_unat_eq_iff)
  have succ: "unat ((writeIndex b + 1) mod rb_size b) = Suc (unat (writeIndex b)) mod rb_cap b"
    using unat_next_index [OF bounds(1)] .
  have inv': "rb_inv ?b"
    using bounds succ by (auto simp: rb_inv_def)
  have ne: "Suc (unat (writeIndex b)) mod rb_cap b \<noteq> unat (writeIndex b)"
    using bounds assms(4) by (auto simp: mod_Suc)
  have "rb_count ?b = 1"
  proof (rule rb_count_eqI [OF inv'])
    show "unat (writeIndex ?b) = (unat (readIndex ?b) + 1) mod rb_cap ?b"
      using succ same by simp
  qed (use assms(4) in simp_all)
  then have "rb_contents ?b = [x]"
    using bounds same by (simp add: rb_contents_def)
  then show ?thesis
    using write_to_buffer_eq [OF assms(1)] inv' assms(2) by (auto simp: is_full_def)
qed

definition full_buffer :: ringbuffer_handle where
  "full_buffer = \<lparr>writeIndex = 1, readIndex = 1, timestamp = \<lparr>tv_sec = 0, tv_usec = 0\<rparr>,
     sensValue = [7, 8, 9], rb_size = 3, full = True\<rparr>"

theorem overrun_loses_buffer_witness:
  "\<exists>b'. write_to_buffer full_buffer 5 = Some b' \<and> rb_inv b' \<and> rb_contents b' = [5] \<and> is_full b'"
  by (rule overrun_loses_buffer)
    (simp_all add: full_buffer_def rb_inv_def rb_count_def is_full_def)

text \<open>\<open>init_buffer\<close> leaks nothing: it leaves two live blocks when it returns a handle,
  which \<open>free_buffer\<close> releases, and none when it returns null.\<close>

theorem init_buffer_no_leak:
  "case init_buffer mem ok junk sz of (handle, live) \<Rightarrow>
     (handle \<noteq> None) = (mem \<noteq> None \<and> ok (unat (4 * sz))) \<and>
     (case handle of
        Some b \<Rightarrow> live = 2 \<and> free_buffer b live = 0 \<and> \<not> is_full b
      | None \<Rightarrow> live = 0)"
  by (auto simp: init_buffer_def free_buffer_def malloc_cells_def is_full_def split: option.splits if_splits)

lemma write_beyond_cells:
  assumes "length (sensValue c) < 2 ^ 30" "2 ^ 30 \<le> rb_cap c" "k \<le> length (sensValue c)"
    "unat (writeIndex c) = k" "length (sensValue c) < k + length xs"
  shows "m_fold write_to_buffer c xs = None"
  using assms
proof (induction xs arbitrary: c k)
  case Nil
  then show ?case by simp
next
  case (Cons x xs)
  show ?case
  proof (cases "k = length (sensValue c)")
    case True
    then have "write_to_buffer c x = None"
      using Cons.prems by (auto simp: write_to_buffer_def c_store_def Let_def c_assert_def)
    then show ?thesis by simp
  next
    case False
    let ?c = "c\<lparr>sensValue := (sensValue c)[k := x],
      writeIndex := (writeIndex c + 1) mod rb_size c,
      full := full c \<or> (writeIndex c + 1) mod rb_size c = readIndex c\<rparr>"
    have "write_to_buffer c x = Some ?c"
      using Cons.prems False
      by (auto simp: write_to_buffer_def c_store_def Let_def c_assert_def unat_eq_0)
    moreover have "unat ((writeIndex c + 1) mod rb_size c) = Suc k"
      using unat_next_index [of "writeIndex c" "rb_size c"] Cons.prems False by simp
    then have "m_fold write_to_buffer ?c xs = None"
      using Cons.IH [of ?c "Suc k"] Cons.prems False by simp
    ultimately show ?thesis by simp
  qed
qed

text \<open>The size of the cells is computed in 32 bits. For a size of \<open>2 ^ 30\<close> or more the
  product wraps, \<open>init_buffer\<close> still returns a handle, but it has fewer cells than its size,
  and filling it to its size writes outside the allocated block.\<close>

theorem init_buffer_wrap:
  assumes "init_buffer mem ok junk sz = (Some b, live)" "2 ^ 30 \<le> unat sz" "length xs = unat sz"
  shows "length (sensValue b) < unat sz \<and> m_fold write_to_buffer b xs = None"
proof -
  have b: "length (sensValue b) = unat (4 * sz) div 4" "writeIndex b = 0" "rb_size b = sz"
    using assms(1) by (auto simp: init_buffer_def malloc_cells_def split: option.splits if_splits)
  moreover have "unat (4 * sz) < 2 ^ 32"
    using unsigned_less [of "4 * sz", where ?'a = nat] by simp
  ultimately have "length (sensValue b) < 2 ^ 30" by simp
  with b assms(2,3) show ?thesis
    by (auto intro: write_beyond_cells [of b 0])
qed

theorem init_buffer_wrap_witness:
  "m_fold write_to_buffer (the (fst (init_buffer (Some sample_buffer) (\<lambda>_. True) (\<lambda>_. 0) (2 ^ 30))))
     (replicate (2 ^ 30) 0) = None"
proof -
  have "init_buffer (Some sample_buffer) (\<lambda>_. True) (\<lambda>_. 0) (2 ^ 30) =
      (Some (the (fst (init_buffer (Some sample_buffer) (\<lambda>_. True) (\<lambda>_. 0) (2 ^ 30)))), 2)"
    by (simp add: init_buffer_def malloc_cells_def)
  from init_buffer_wrap [OF this, of "replicate (2 ^ 30) 0"] show ?thesis
    by simp
qed

end
