(* ===== verification/Timing.thy ===== *)
theory Timing
  imports Ringbuffer
begin

text \<open>
  \<open>get_timediff_us\<close> of \<open>src/main/main.c\<close>: the time between two \<open>struct timeval\<close>s
  in microseconds, computed in \<open>int64_t\<close> and returned as \<open>uint32_t\<close>.
\<close>

text \<open>
  \<open>startTime\<close> is a pointer that may be null (\<open>None\<close>). The subtraction of the seconds
  is 64 bits wide, that of the microseconds 32 bits, sign-extended by the cast; the result is
  truncated to 32 bits.
\<close>

definition get_timediff_us :: "timeval \<Rightarrow> timeval option \<Rightarrow> u32" where
  "get_timediff_us endTime startTime =
     (case startTime of
        None \<Rightarrow> 0
      | Some start \<Rightarrow>
          let timediff = (tv_sec endTime - tv_sec start) * 1000000
                + (scast (tv_usec endTime - tv_usec start) :: u64)
          in ucast timediff)"

text \<open>A timestamp as the clock delivers it, and its value in microseconds.\<close>

definition tv_ok :: "timeval \<Rightarrow> bool" where
  "tv_ok t \<longleftrightarrow> 0 \<le> sint (tv_usec t) \<and> sint (tv_usec t) < 1000000"

definition tv_us :: "timeval \<Rightarrow> int" where
  "tv_us t = sint (tv_sec t) * 1000000 + sint (tv_usec t)"

lemma ucast_word_of_int_32: "(ucast (word_of_int k :: u64) :: u32) = word_of_int k"
  by transfer (simp add: take_bit_take_bit)

text \<open>The returned value is the true difference modulo \<open>2 ^ 32\<close>, whatever the sign.\<close>

lemma get_timediff_us_mod:
  assumes "tv_ok e" "tv_ok s"
  shows "get_timediff_us e (Some s) = word_of_int (tv_us e - tv_us s)"
proof -
  let ?d = "tv_usec e - tv_usec s"
  have "sint ?d = sint (tv_usec e) - sint (tv_usec s)"
    using assms by (simp add: sint_word_ariths tv_ok_def signed_take_bit_int_eq_self)
  then have usec: "(scast ?d :: u64) = word_of_int (sint (tv_usec e) - sint (tv_usec s))"
    by (metis scast_eq)
  have sec: "tv_sec e - tv_sec s = word_of_int (sint (tv_sec e) - sint (tv_sec s))"
    by simp
  have "(tv_sec e - tv_sec s) * 1000000 + (scast ?d :: u64) = word_of_int (tv_us e - tv_us s)"
    unfolding usec sec tv_us_def by (simp add: algebra_simps)
  then show ?thesis
    by (simp only: get_timediff_us_def option.case Let_def ucast_word_of_int_32)
qed

text \<open>
  Within 71 minutes and in the right order the result is exact; with the arguments in the
  wrong order it is the two's complement of the elapsed time.
\<close>

lemma get_timediff_us_exact:
  assumes "tv_ok e" "tv_ok s" "tv_us s \<le> tv_us e" "tv_us e - tv_us s < 2 ^ 32"
  shows "uint (get_timediff_us e (Some s)) = tv_us e - tv_us s"
  using assms by (simp add: get_timediff_us_mod uint_word_of_int del: of_int_diff)

lemma get_timediff_us_reversed:
  assumes "tv_ok e" "tv_ok s" "tv_us e < tv_us s" "tv_us s - tv_us e < 2 ^ 32"
  shows "uint (get_timediff_us e (Some s)) = 2 ^ 32 - (tv_us s - tv_us e)"
proof -
  have "(tv_us e - tv_us s) mod 2 ^ 32 = (tv_us e - tv_us s + 2 ^ 32) mod 2 ^ 32"
    by simp
  also have "\<dots> = 2 ^ 32 - (tv_us s - tv_us e)"
    using assms(3,4) by (subst mod_pos_pos_trivial) auto
  finally show ?thesis
    using assms(1,2) by (simp add: get_timediff_us_mod uint_word_of_int del: of_int_diff)
qed

section \<open>Properties\<close>

text \<open>On normalised times less than \<open>2 ^ 32\<close> microseconds apart, in the right order,
  \<open>get_timediff_us\<close> returns exactly the elapsed microseconds.\<close>

theorem timediff_exact:
  assumes "tv_ok e" "tv_ok s" "tv_us s \<le> tv_us e" "tv_us e - tv_us s < 2 ^ 32"
  shows "get_timediff_us e (Some s) = word_of_int (tv_us e - tv_us s) \<and>
    uint (get_timediff_us e (Some s)) = tv_us e - tv_us s"
  using get_timediff_us_mod [OF assms(1,2)] get_timediff_us_exact [OF assms] by simp

theorem timediff_exact_witness:
  "uint (get_timediff_us \<lparr>tv_sec = 12, tv_usec = 250\<rparr> (Some \<lparr>tv_sec = 10, tv_usec = 999000\<rparr>)) = 1001250"
  using timediff_exact [of "\<lparr>tv_sec = 12, tv_usec = 250\<rparr>" "\<lparr>tv_sec = 10, tv_usec = 999000\<rparr>"]
  by (simp add: tv_ok_def tv_us_def)

end
