(* ===== verification/Rtos.thy ===== *)
theory Rtos
  imports Prelude
begin

text \<open>
  FreeRTOS mutexes as \<open>src/main/main.c\<close> uses them. The kernel is not part of the
  repository, so its four calls are parameters of the model, gathered in a record over an
  arbitrary type of mutex states. What the program relies on is the contract below, the
  documented behaviour of a binary mutex: it is taken by at most one party at a time, a take
  from a task waits while it is taken, a take from an interrupt fails while it is taken, and
  giving it makes it available.
\<close>

text \<open>The result of a call in which a task may wait.\<close>

datatype 'a task_result = Blocked | Next 'a

text \<open>
  \<open>xSemaphoreTake\<close> with \<open>portMAX_DELAY\<close>: \<open>None\<close> when the caller blocks.
  The \<open>FromISR\<close> calls return whether they set \<open>*pxHigherPriorityTaskWoken\<close>
  (they never clear it); the take also returns \<open>pdTRUE\<close> or \<open>pdFALSE\<close>.
\<close>

record 'm mutex_ops =
  xSemaphoreTake :: "'m \<Rightarrow> 'm option"
  xSemaphoreGive :: "'m \<Rightarrow> 'm"
  xSemaphoreTakeFromISR :: "'m \<Rightarrow> bool \<times> bool \<times> 'm"
  xSemaphoreGiveFromISR :: "'m \<Rightarrow> bool \<times> 'm"

locale mutex_contract =
  fixes os :: "'m mutex_ops"
    and available :: "'m \<Rightarrow> bool"
  assumes take_available: "available m \<Longrightarrow> \<exists>m'. xSemaphoreTake os m = Some m' \<and> \<not> available m'"
    and take_blocks: "\<not> available m \<Longrightarrow> xSemaphoreTake os m = None"
    and give_available: "\<not> available m \<Longrightarrow> available (xSemaphoreGive os m)"
    and take_isr_available: "available m \<Longrightarrow>
      \<exists>w m'. xSemaphoreTakeFromISR os m = (True, w, m') \<and> \<not> available m'"
    and take_isr_fails: "\<not> available m \<Longrightarrow>
      \<exists>w m'. xSemaphoreTakeFromISR os m = (False, w, m') \<and> \<not> available m'"
    and give_isr_available: "\<not> available m \<Longrightarrow>
      \<exists>w m'. xSemaphoreGiveFromISR os m = (w, m') \<and> available m'"
begin

lemma take_eq_Some: "xSemaphoreTake os m = Some m' \<Longrightarrow> available m \<and> \<not> available m'"
  using take_available take_blocks by (metis option.distinct(1) option.inject)

lemma take_eq_None: "xSemaphoreTake os m = None \<longleftrightarrow> \<not> available m"
  using take_available take_blocks by (metis option.distinct(1))

lemma take_isr_iff: "xSemaphoreTakeFromISR os m = (ok, w, m') \<Longrightarrow> (ok \<longleftrightarrow> available m) \<and> \<not> available m'"
  using take_isr_available [of m] take_isr_fails [of m] by (cases "available m") auto

lemma give_isr: "\<not> available m \<Longrightarrow> xSemaphoreGiveFromISR os m = (w, m') \<Longrightarrow> available m'"
  using give_isr_available [of m] by auto

end

text \<open>
  The contract can be met: a mutex that is one boolean, true when available. It is used as
  the concrete parameter of the witnesses.
\<close>

definition flag_mutex :: "bool mutex_ops" where
  "flag_mutex = \<lparr>
     xSemaphoreTake = (\<lambda>m. if m then Some False else None),
     xSemaphoreGive = (\<lambda>m. True),
     xSemaphoreTakeFromISR = (\<lambda>m. (m, False, False)),
     xSemaphoreGiveFromISR = (\<lambda>m. (False, True))\<rparr>"

interpretation flag_mutex: mutex_contract flag_mutex "\<lambda>m. m"
  by unfold_locales (auto simp: flag_mutex_def)

lemma flag_mutex_contract: "mutex_contract flag_mutex (\<lambda>m. m)"
  by unfold_locales

end
