(* ===== verification/Sampler.thy ===== *)
theory Sampler
  imports Timing Rtos
begin

text \<open>
  \<open>write_task\<close> of \<open>src/main/main.c\<close>: the alarm callback of the 1 MHz timer that takes
  one sample per tick and stores it in one of two ring buffers, holding that buffer's mutex from
  the first sample until the buffer is full.
\<close>

section \<open>State\<close>

text \<open>
  The globals come in pairs, one per buffer; a slot groups \<open>ringbuffer<i>\<close> (\<open>None\<close>
  is the null pointer a failed \<open>init_buffer\<close> leaves), \<open>ringbuffer<i>_mutex\<close> and
  \<open>MutexHolder<i>\<close>.
\<close>

record 'm slot =
  ringbuffer :: "ringbuffer_handle option"
  ringbuffer_mutex :: 'm
  MutexHolder :: bool

record 'm sampler =
  lastBufferWritten :: int
  testVar :: u32
  slot1 :: "'m slot"
  slot2 :: "'m slot"
  ISRMutex :: bool
  measuringPoint :: timeval

definition RINGBUFFER_SIZE :: u32 where
  "RINGBUFFER_SIZE = 1250"

definition SENSOR_RATE :: int where
  "SENSOR_RATE = 1000000 div 44000"

section \<open>The handler\<close>

text \<open>
  What the handler does to the buffer whose turn it is; the code has it once for each buffer.
  \<open>v\<close> is \<open>testVar\<close>, \<open>now\<close> what \<open>gettimeofday\<close> returns. The last component of the
  result says that the buffer was handed over, so that \<open>lastBufferWritten\<close> changes.
\<close>

definition write_slot ::
  "'m mutex_ops \<Rightarrow> timeval \<Rightarrow> u32 \<Rightarrow> 'm slot \<Rightarrow> bool \<Rightarrow> timeval \<Rightarrow>
    ('m slot \<times> bool \<times> timeval \<times> bool) option" where
  "write_slot os now v sl isr mp =
     (if \<not> MutexHolder sl then
        (case xSemaphoreTakeFromISR os (ringbuffer_mutex sl) of (ok, woken, m) \<Rightarrow>
           let isr1 = isr \<or> woken; sl1 = sl\<lparr>ringbuffer_mutex := m\<rparr> in
           if ok then do {
             let sl2 = sl1\<lparr>MutexHolder := True\<rparr>;
             rb \<leftarrow> ringbuffer sl2;
             if \<not> is_full rb then do {
               let rb1 = write_timestamp_to_buffer rb now;
               rb2 \<leftarrow> write_to_buffer rb1 v;
               Some (sl2\<lparr>ringbuffer := Some rb2\<rparr>, isr1, now, False)
             }
             else (case xSemaphoreGiveFromISR os (ringbuffer_mutex sl2) of (woken2, m2) \<Rightarrow>
               Some (sl2\<lparr>ringbuffer_mutex := m2, MutexHolder := False\<rparr>, isr1 \<or> woken2, mp, False))
           }
           else Some (sl1, isr1, mp, False))
      else do {
        rb \<leftarrow> ringbuffer sl;
        rb1 \<leftarrow> write_to_buffer rb v;
        let sl1 = sl\<lparr>ringbuffer := Some rb1\<rparr>;
        if is_full rb1 then
          (case xSemaphoreGiveFromISR os (ringbuffer_mutex sl1) of (woken, m) \<Rightarrow>
             Some (sl1\<lparr>ringbuffer_mutex := m, MutexHolder := False\<rparr>, isr \<or> woken, mp, True))
        else Some (sl1, isr, mp, False)
      })"

text \<open>The sample counter: \<open>testVar = testVar + 1; if (testVar == 50000) testVar = 0;\<close>\<close>

definition next_sample :: "u32 \<Rightarrow> u32" where
  "next_sample v = (let v1 = v + 1 in if v1 = 50000 then 0 else v1)"

definition write_task :: "'m mutex_ops \<Rightarrow> timeval \<Rightarrow> 'm sampler \<Rightarrow> (bool \<times> 'm sampler) option" where
  "write_task os now s0 = do {
     let s = s0\<lparr>ISRMutex := False, testVar := next_sample (testVar s0)\<rparr>;
     s' \<leftarrow> (if lastBufferWritten s = 2 then do {
              (sl, isr, mp, switched) \<leftarrow> write_slot os now (testVar s) (slot1 s) (ISRMutex s) (measuringPoint s);
              let t = s\<lparr>slot1 := sl, ISRMutex := isr, measuringPoint := mp\<rparr>;
              Some (if switched then t\<lparr>lastBufferWritten := 1\<rparr> else t)
            }
            else if lastBufferWritten s = 1 then do {
              (sl, isr, mp, switched) \<leftarrow> write_slot os now (testVar s) (slot2 s) (ISRMutex s) (measuringPoint s);
              let t = s\<lparr>slot2 := sl, ISRMutex := isr, measuringPoint := mp\<rparr>;
              Some (if switched then t\<lparr>lastBufferWritten := 2\<rparr> else t)
            }
            else Some s);
     Some (\<not> ISRMutex s', s')
   }"

text \<open>A run of ticks, at the times \<open>nows\<close>.\<close>

definition write_ticks :: "'m mutex_ops \<Rightarrow> 'm sampler \<Rightarrow> timeval list \<Rightarrow> 'm sampler option" where
  "write_ticks os = m_fold (\<lambda>s now. map_option snd (write_task os now s))"

section \<open>Consecutive samples\<close>

definition consecutive :: "u32 list \<Rightarrow> bool" where
  "consecutive = successively (\<lambda>a b. b = next_sample a)"

lemma consecutive_Nil [simp]: "consecutive []"
  and consecutive_single [simp]: "consecutive [x]"
  by (simp_all add: consecutive_def)

lemma consecutive_snoc: "consecutive xs \<Longrightarrow> xs \<noteq> [] \<Longrightarrow> x = next_sample (last xs) \<Longrightarrow> consecutive (xs @ [x])"
  by (simp add: consecutive_def successively_append_iff)

lemma consecutive_tl: "consecutive xs \<Longrightarrow> consecutive (tl xs)"
  by (cases xs) (auto simp: consecutive_def successively_Cons)

lemma next_sample_bound: "unat v < 50000 \<Longrightarrow> unat (next_sample v) < 50000"
  by (auto simp: next_sample_def Let_def unat_word_ariths word_unat_eq_iff)

lemma unat_next_sample: "unat v < 50000 \<Longrightarrow> unat (next_sample v) = Suc (unat v) mod 50000"
  by (auto simp: next_sample_def Let_def unat_word_ariths word_unat_eq_iff mod_if)

section \<open>Behaviour of one tick on one buffer\<close>

text \<open>
  A slot between two ticks, seen from the interrupt: held and partly filled, free and full or
  empty, or taken by the sending task. \<open>n\<close> is the capacity, \<open>v\<close> the last sample.
\<close>

definition slot_held :: "('m \<Rightarrow> bool) \<Rightarrow> nat \<Rightarrow> u32 \<Rightarrow> 'm slot \<Rightarrow> bool" where
  "slot_held available n v sl \<longleftrightarrow> MutexHolder sl \<and> \<not> available (ringbuffer_mutex sl) \<and>
     (\<exists>rb. ringbuffer sl = Some rb \<and> rb_inv rb \<and> rb_cap rb = n \<and> \<not> is_full rb \<and>
        0 < rb_count rb \<and> rb_count rb < n \<and> consecutive (rb_contents rb) \<and> last (rb_contents rb) = v)"

definition slot_free :: "('m \<Rightarrow> bool) \<Rightarrow> nat \<Rightarrow> 'm slot \<Rightarrow> bool" where
  "slot_free available n sl \<longleftrightarrow> \<not> MutexHolder sl \<and> available (ringbuffer_mutex sl) \<and>
     (\<exists>rb. ringbuffer sl = Some rb \<and> rb_inv rb \<and> rb_cap rb = n \<and> consecutive (rb_contents rb) \<and>
        (if is_full rb then rb_count rb = n else rb_count rb = 0))"

definition slot_taken :: "('m \<Rightarrow> bool) \<Rightarrow> nat \<Rightarrow> 'm slot \<Rightarrow> bool" where
  "slot_taken available n sl \<longleftrightarrow> \<not> MutexHolder sl \<and> \<not> available (ringbuffer_mutex sl) \<and>
     (\<exists>rb. ringbuffer sl = Some rb \<and> rb_inv rb \<and> rb_cap rb = n)"

definition slot_buffer :: "'m slot \<Rightarrow> ringbuffer_handle" where
  "slot_buffer sl = the (ringbuffer sl)"

lemmas slot_defs = slot_held_def slot_free_def slot_taken_def slot_buffer_def

lemma write_timestamp_simps [simp]:
  "rb_inv (write_timestamp_to_buffer rb t) = rb_inv rb"
  "rb_count (write_timestamp_to_buffer rb t) = rb_count rb"
  "rb_contents (write_timestamp_to_buffer rb t) = rb_contents rb"
  "rb_size (write_timestamp_to_buffer rb t) = rb_size rb"
  "full (write_timestamp_to_buffer rb t) = full rb"
  "timestamp (write_timestamp_to_buffer rb t) = t"
  by (simp_all add: write_timestamp_to_buffer_def rb_inv_def rb_count_def rb_contents_def cong: if_cong)

context mutex_contract
begin

text \<open>The buffer is being filled: the sample is appended; the last free cell hands the buffer over.\<close>

lemma write_slot_held:
  assumes "slot_held available n (last_sample) sl" and v: "v = next_sample last_sample"
  shows "\<exists>sl' isr'. write_slot os now v sl isr mp = Some (sl', isr', mp, Suc (rb_count (slot_buffer sl)) = n) \<and>
    rb_contents (slot_buffer sl') = rb_contents (slot_buffer sl) @ [v] \<and>
    timestamp (slot_buffer sl') = timestamp (slot_buffer sl) \<and>
    (if Suc (rb_count (slot_buffer sl)) = n then slot_free available n sl' \<and> is_full (slot_buffer sl')
     else slot_held available n v sl')"
proof -
  obtain rb where rb: "ringbuffer sl = Some rb" "rb_inv rb" "rb_cap rb = n" "\<not> full rb"
      "0 < rb_count rb" "rb_count rb < n" "consecutive (rb_contents rb)"
      "last (rb_contents rb) = last_sample" "MutexHolder sl" "\<not> available (ringbuffer_mutex sl)"
    using assms(1) by (auto simp: slot_held_def is_full_def)
  obtain rb' where rb': "write_to_buffer rb v = Some rb'" "rb_inv rb'"
      "rb_contents rb' = rb_contents rb @ [v]" "rb_size rb' = rb_size rb" "timestamp rb' = timestamp rb"
      "full rb' \<longleftrightarrow> full rb \<or> Suc (rb_count rb) = rb_cap rb"
    using write_to_buffer_spec [of rb v] rb by auto
  have count': "rb_count rb' = Suc (rb_count rb)"
    using rb'(3) by (metis length_append_singleton length_rb_contents)
  have consec': "consecutive (rb_contents rb')"
    using rb rb' v by (auto intro!: consecutive_snoc)
  obtain w m where give: "xSemaphoreGiveFromISR os (ringbuffer_mutex sl) = (w, m)" "available m"
    using give_isr_available [OF rb(10)] by auto
  show ?thesis
    using rb rb' count' consec' give
    by (auto simp: write_slot_def slot_defs is_full_def Let_def)
qed

text \<open>The buffer is empty and nobody has its mutex: it is taken, stamped and gets its first sample.\<close>

lemma write_slot_start:
  assumes "slot_free available n sl" "\<not> is_full (slot_buffer sl)" "2 \<le> n"
  shows "\<exists>sl' isr'. write_slot os now v sl isr mp = Some (sl', isr', now, False) \<and>
    rb_contents (slot_buffer sl') = [v] \<and> timestamp (slot_buffer sl') = now \<and>
    slot_held available n v sl'"
proof -
  obtain rb where rb: "ringbuffer sl = Some rb" "rb_inv rb" "rb_cap rb = n" "rb_count rb = 0"
      "\<not> full rb" "\<not> MutexHolder sl" "available (ringbuffer_mutex sl)"
    using assms(1,2) by (auto simp: slot_free_def slot_buffer_def is_full_def)
  obtain rb' where rb': "write_to_buffer (write_timestamp_to_buffer rb now) v = Some rb'" "rb_inv rb'"
      "rb_contents rb' = rb_contents rb @ [v]" "rb_size rb' = rb_size rb" "timestamp rb' = now"
      "full rb' \<longleftrightarrow> full rb \<or> Suc (rb_count rb) = rb_cap rb"
    using write_to_buffer_spec [of "write_timestamp_to_buffer rb now" v] rb assms(3) by auto
  have contents': "rb_contents rb' = [v]"
    using rb'(3) rb(4) by simp
  then have count': "rb_count rb' = 1"
    by (metis One_nat_def length_Cons length_rb_contents list.size(3))
  obtain w m where take: "xSemaphoreTakeFromISR os (ringbuffer_mutex sl) = (True, w, m)" "\<not> available m"
    using take_isr_available [OF rb(7)] by auto
  show ?thesis
    using rb rb' contents' count' take assms(3)
    by (auto simp: write_slot_def slot_defs is_full_def Let_def)
qed

text \<open>The buffer is full and not yet read: the mutex is given back at once and the sample is dropped.\<close>

lemma write_slot_full:
  assumes "slot_free available n sl" "is_full (slot_buffer sl)"
  shows "\<exists>sl' isr'. write_slot os now v sl isr mp = Some (sl', isr', mp, False) \<and>
    ringbuffer sl' = ringbuffer sl \<and> slot_free available n sl'"
proof -
  obtain rb where rb: "ringbuffer sl = Some rb" "full rb" "\<not> MutexHolder sl"
      "available (ringbuffer_mutex sl)"
    using assms by (auto simp: slot_free_def slot_buffer_def is_full_def)
  obtain w m where take: "xSemaphoreTakeFromISR os (ringbuffer_mutex sl) = (True, w, m)" "\<not> available m"
    using take_isr_available [OF rb(4)] by auto
  obtain w2 m2 where give: "xSemaphoreGiveFromISR os m = (w2, m2)" "available m2"
    using give_isr_available [OF take(2)] by auto
  show ?thesis
    using rb take give assms by (auto simp: write_slot_def slot_defs is_full_def Let_def)
qed

text \<open>The sending task has the mutex: the sample is dropped.\<close>

lemma write_slot_taken:
  assumes "slot_taken available n sl"
  shows "\<exists>sl' isr'. write_slot os now v sl isr mp = Some (sl', isr', mp, False) \<and>
    ringbuffer sl' = ringbuffer sl \<and> slot_taken available n sl'"
proof -
  have "\<not> available (ringbuffer_mutex sl)" "\<not> MutexHolder sl"
    using assms by (auto simp: slot_taken_def)
  moreover obtain w m where "xSemaphoreTakeFromISR os (ringbuffer_mutex sl) = (False, w, m)" "\<not> available m"
    using take_isr_fails calculation(1) by blast
  ultimately show ?thesis
    using assms by (auto simp: write_slot_def slot_taken_def Let_def)
qed

end

section \<open>Runs of ticks\<close>

lemma write_ticks_Nil [simp]: "write_ticks os s [] = Some s"
  by (simp add: write_ticks_def)

lemma write_ticks_Cons:
  "write_ticks os s (now # nows) =
    Option.bind (write_task os now s) (\<lambda>(y, s'). write_ticks os s' nows)"
  by (cases "write_task os now s") (auto simp: write_ticks_def)

text \<open>The samples of the next \<open>k\<close> ticks.\<close>

fun samples_from :: "u32 \<Rightarrow> nat \<Rightarrow> u32 list" where
  "samples_from v 0 = []"
| "samples_from v (Suc k) = next_sample v # samples_from (next_sample v) k"

lemma length_samples_from [simp]: "length (samples_from v k) = k"
  by (induction k arbitrary: v) auto

text \<open>The slot whose turn it is.\<close>

definition write_turn :: "'m sampler \<Rightarrow> 'm slot" where
  "write_turn g = (if lastBufferWritten g = 2 then slot1 g else slot2 g)"

definition other_turn :: "'m sampler \<Rightarrow> 'm slot" where
  "other_turn g = (if lastBufferWritten g = 2 then slot2 g else slot1 g)"

definition swap_turn :: "int \<Rightarrow> int" where
  "swap_turn i = (if i = 2 then 1 else 2)"

lemma write_task_slot:
  assumes "lastBufferWritten g \<in> {1, 2}"
    and "write_slot os now (next_sample (testVar g)) (write_turn g) False (measuringPoint g) =
      Some (sl, isr, mp, sw)"
  shows "\<exists>g'. write_task os now g = Some (\<not> isr, g') \<and> testVar g' = next_sample (testVar g) \<and>
    lastBufferWritten g' = (if sw then swap_turn (lastBufferWritten g) else lastBufferWritten g) \<and>
    (if lastBufferWritten g = 2 then slot1 g' = sl \<and> slot2 g' = slot2 g
     else slot1 g' = slot1 g \<and> slot2 g' = sl)"
  using assms by (auto simp: write_task_def write_turn_def swap_turn_def Let_def)

context mutex_contract
begin

lemma fill_held:
  assumes "lastBufferWritten g \<in> {1, 2}" "slot_held available n (testVar g) (write_turn g)"
    "rb_count (slot_buffer (write_turn g)) + length nows = n" "nows \<noteq> []"
  shows "\<exists>g'. write_ticks os g nows = Some g' \<and>
    lastBufferWritten g' = swap_turn (lastBufferWritten g) \<and>
    write_turn g' = other_turn g \<and>
    slot_free available n (other_turn g') \<and> is_full (slot_buffer (other_turn g')) \<and>
    timestamp (slot_buffer (other_turn g')) = timestamp (slot_buffer (write_turn g)) \<and>
    rb_contents (slot_buffer (other_turn g')) =
      rb_contents (slot_buffer (write_turn g)) @ samples_from (testVar g) (length nows)"
  using assms
proof (induction nows arbitrary: g)
  case Nil
  then show ?case by simp
next
  case (Cons now nows)
  let ?sl = "write_turn g" and ?v = "next_sample (testVar g)"
  obtain sl' isr' where
      w: "write_slot os now ?v ?sl False (measuringPoint g) =
        Some (sl', isr', measuringPoint g, Suc (rb_count (slot_buffer ?sl)) = n)"
      "rb_contents (slot_buffer sl') = rb_contents (slot_buffer ?sl) @ [?v]"
      "timestamp (slot_buffer sl') = timestamp (slot_buffer ?sl)"
      "if Suc (rb_count (slot_buffer ?sl)) = n then slot_free available n sl' \<and> is_full (slot_buffer sl')
       else slot_held available n ?v sl'"
    using write_slot_held [OF Cons.prems(2) refl, of now False "measuringPoint g"] by auto
  from write_task_slot [OF Cons.prems(1) w(1)] obtain g' where
      g': "write_task os now g = Some (\<not> isr', g')" "testVar g' = ?v"
      "lastBufferWritten g' = (if Suc (rb_count (slot_buffer ?sl)) = n
        then swap_turn (lastBufferWritten g) else lastBufferWritten g)"
      "if lastBufferWritten g = 2 then slot1 g' = sl' \<and> slot2 g' = slot2 g
       else slot1 g' = slot1 g \<and> slot2 g' = sl'"
    by auto
  have count': "rb_count (slot_buffer sl') = Suc (rb_count (slot_buffer ?sl))"
    using w(2) by (metis length_append_singleton length_rb_contents)
  show ?case
  proof (cases "nows = []")
    case True
    then have last: "Suc (rb_count (slot_buffer ?sl)) = n" using Cons.prems by simp
    have slots: "write_turn g' = other_turn g \<and> other_turn g' = sl'"
      using g' last Cons.prems(1)
      by (auto simp: write_turn_def other_turn_def swap_turn_def split: if_splits)
    have "lastBufferWritten g' = swap_turn (lastBufferWritten g)"
      using g'(3) last by simp
    moreover have "slot_free available n sl'" "is_full (slot_buffer sl')"
      using w(4) last by simp_all
    ultimately show ?thesis
      using True g'(1) w(2,3) slots by (simp add: write_ticks_Cons)
  next
    case False
    then have more: "Suc (rb_count (slot_buffer ?sl)) \<noteq> n"
      using Cons.prems(3) by (cases nows) auto
    have same: "write_turn g' = sl'" "other_turn g' = other_turn g"
        "lastBufferWritten g' = lastBufferWritten g"
      using g' more Cons.prems(1) by (auto simp: write_turn_def other_turn_def split: if_splits)
    with Cons.IH [of g'] Cons.prems w more g' count' False show ?thesis
      by (auto simp: write_ticks_Cons)
  qed
qed

lemma fill_free:
  assumes "lastBufferWritten g \<in> {1, 2}" "slot_free available n (write_turn g)"
    "\<not> is_full (slot_buffer (write_turn g))" "2 \<le> n" "length nows = n"
  shows "\<exists>g'. write_ticks os g nows = Some g' \<and>
    lastBufferWritten g' = swap_turn (lastBufferWritten g) \<and>
    write_turn g' = other_turn g \<and>
    slot_free available n (other_turn g') \<and> is_full (slot_buffer (other_turn g')) \<and>
    timestamp (slot_buffer (other_turn g')) = hd nows \<and>
    rb_contents (slot_buffer (other_turn g')) = samples_from (testVar g) n"
proof -
  obtain now nows' where nows: "nows = now # nows'" using assms(4,5) by (cases nows) auto
  let ?sl = "write_turn g" and ?v = "next_sample (testVar g)"
  obtain sl' isr' where
      w: "write_slot os now ?v ?sl False (measuringPoint g) = Some (sl', isr', now, False)"
      "rb_contents (slot_buffer sl') = [?v]" "timestamp (slot_buffer sl') = now"
      "slot_held available n ?v sl'"
    using write_slot_start [OF assms(2-4), of now ?v False "measuringPoint g"] by auto
  from write_task_slot [OF assms(1) w(1)] obtain g' where
      g': "write_task os now g = Some (\<not> isr', g')" "testVar g' = ?v"
      "lastBufferWritten g' = lastBufferWritten g"
      "if lastBufferWritten g = 2 then slot1 g' = sl' \<and> slot2 g' = slot2 g
       else slot1 g' = slot1 g \<and> slot2 g' = sl'"
    by auto
  have same: "write_turn g' = sl'" "other_turn g' = other_turn g"
    using g' assms(1) by (auto simp: write_turn_def other_turn_def split: if_splits)
  have count': "rb_count (slot_buffer sl') = 1"
    using w(2) by (metis One_nat_def length_Cons length_rb_contents list.size(3))
  have "nows' \<noteq> []" using assms(4,5) nows by auto
  obtain k where "n = Suc k" "length nows' = k" using assms(4,5) nows by auto
  then show ?thesis
    using fill_held [of g' n nows'] assms w g' same count' nows \<open>nows' \<noteq> []\<close>
    by (auto simp: write_ticks_Cons)
qed

end

section \<open>Properties\<close>

text \<open>C6: when the buffer whose turn it is is empty and its mutex free, the next \<open>n\<close> ticks fill
  it: it ends full with the \<open>n\<close> consecutive samples, stamped with the time of the first tick,
  its mutex is given back, and the turn passes to the other buffer, which was not touched.\<close>

theorem n_ticks_fill_buffer:
  assumes "mutex_contract os available" "lastBufferWritten g \<in> {1, 2}"
    "slot_free available n (write_turn g)" "\<not> is_full (slot_buffer (write_turn g))"
    "2 \<le> n" "length nows = n"
  shows "\<exists>g'. write_ticks os g nows = Some g' \<and>
    lastBufferWritten g' = swap_turn (lastBufferWritten g) \<and> write_turn g' = other_turn g \<and>
    available (ringbuffer_mutex (other_turn g')) \<and> is_full (slot_buffer (other_turn g')) \<and>
    timestamp (slot_buffer (other_turn g')) = hd nows \<and>
    rb_contents (slot_buffer (other_turn g')) = samples_from (testVar g) n"
  using mutex_contract.fill_free [OF assms] by (auto simp: slot_free_def)

definition two_cells :: ringbuffer_handle where
  "two_cells = \<lparr>writeIndex = 0, readIndex = 0, timestamp = \<lparr>tv_sec = 0, tv_usec = 0\<rparr>,
     sensValue = [0, 0], rb_size = 2, full = False\<rparr>"

definition two_cell_slot :: "bool slot" where
  "two_cell_slot = \<lparr>ringbuffer = Some two_cells, ringbuffer_mutex = True, MutexHolder = False\<rparr>"

definition small_sampler :: "bool sampler" where
  "small_sampler = \<lparr>lastBufferWritten = 2, testVar = 49998, slot1 = two_cell_slot, slot2 = two_cell_slot,
     ISRMutex = False, measuringPoint = \<lparr>tv_sec = 0, tv_usec = 0\<rparr>\<rparr>"

lemma two_cell_slot_facts:
  "slot_free (\<lambda>m. m) 2 two_cell_slot" "\<not> is_full (slot_buffer two_cell_slot)"
  "ringbuffer two_cell_slot = Some two_cells"
  "slot_taken (\<lambda>m. m) 2 (two_cell_slot\<lparr>ringbuffer_mutex := False\<rparr>)"
  by (simp_all add: two_cell_slot_def slot_defs two_cells_def rb_inv_def rb_count_def is_full_def
      rb_contents_def)

theorem n_ticks_fill_buffer_witness:
  "\<exists>g'. write_ticks flag_mutex small_sampler [\<lparr>tv_sec = 1, tv_usec = 0\<rparr>, \<lparr>tv_sec = 1, tv_usec = 22\<rparr>] = Some g' \<and>
    rb_contents (slot_buffer (other_turn g')) = [49999, 0]"
proof -
  have "lastBufferWritten small_sampler \<in> {1, 2}" "slot_free (\<lambda>m. m) 2 (write_turn small_sampler)"
      "\<not> is_full (slot_buffer (write_turn small_sampler))"
    by (simp_all add: small_sampler_def write_turn_def two_cell_slot_facts)
  moreover have "samples_from (testVar small_sampler) 2 = [49999, 0]"
    by (simp add: small_sampler_def numeral_2_eq_2 next_sample_def)
  ultimately show ?thesis
    using n_ticks_fill_buffer [OF flag_mutex_contract, of small_sampler 2
      "[\<lparr>tv_sec = 1, tv_usec = 0\<rparr>, \<lparr>tv_sec = 1, tv_usec = 22\<rparr>]"]
    by auto
qed

text \<open>When the buffer whose turn it is has not been drained yet, or the sending task holds its
  mutex, the tick stores nothing: both buffers keep their content and the sample is lost, although
  the sample counter goes on.\<close>

theorem sample_dropped:
  assumes "mutex_contract os available" "lastBufferWritten g \<in> {1, 2}"
    "slot_taken available n (write_turn g) \<or>
      slot_free available n (write_turn g) \<and> is_full (slot_buffer (write_turn g))"
  shows "\<exists>y g'. write_task os now g = Some (y, g') \<and> testVar g' = next_sample (testVar g) \<and>
    lastBufferWritten g' = lastBufferWritten g \<and>
    ringbuffer (slot1 g') = ringbuffer (slot1 g) \<and> ringbuffer (slot2 g') = ringbuffer (slot2 g)"
proof -
  let ?sl = "write_turn g" and ?v = "next_sample (testVar g)"
  obtain sl' isr' where
      w: "write_slot os now ?v ?sl False (measuringPoint g) = Some (sl', isr', measuringPoint g, False)"
      "ringbuffer sl' = ringbuffer ?sl"
    using mutex_contract.write_slot_taken [OF assms(1), of n ?sl now ?v False "measuringPoint g"]
      mutex_contract.write_slot_full [OF assms(1), of n ?sl now ?v False "measuringPoint g"] assms(3)
    by auto
  from write_task_slot [OF assms(2) w(1)] w(2) show ?thesis
    by (fastforce simp: write_turn_def split: if_splits)
qed

definition busy_sampler :: "bool sampler" where
  "busy_sampler = small_sampler\<lparr>slot1 := two_cell_slot\<lparr>ringbuffer_mutex := False\<rparr>\<rparr>"

theorem sample_dropped_witness:
  "\<exists>y g'. write_task flag_mutex \<lparr>tv_sec = 1, tv_usec = 0\<rparr> busy_sampler = Some (y, g') \<and>
    testVar g' = 49999 \<and> ringbuffer (slot1 g') = Some two_cells"
proof -
  have "lastBufferWritten busy_sampler \<in> {1, 2}" "slot_taken (\<lambda>m. m) 2 (write_turn busy_sampler)"
    by (simp_all add: busy_sampler_def small_sampler_def write_turn_def two_cell_slot_facts)
  then obtain y g' where "write_task flag_mutex \<lparr>tv_sec = 1, tv_usec = 0\<rparr> busy_sampler = Some (y, g')"
      "testVar g' = next_sample (testVar busy_sampler)"
      "ringbuffer (slot1 g') = ringbuffer (slot1 busy_sampler)"
    using sample_dropped [OF flag_mutex_contract] by metis
  then show ?thesis
    by (simp add: busy_sampler_def small_sampler_def two_cell_slot_facts next_sample_def)
qed

text \<open>The sample counter counts ticks modulo 50000 whatever happens to the buffers.\<close>

theorem sample_counter:
  assumes "unat (testVar g) < 50000" "write_ticks os g nows = Some g'"
  shows "unat (testVar g') = (unat (testVar g) + length nows) mod 50000"
  using assms
proof (induction nows arbitrary: g)
  case Nil
  then show ?case by simp
next
  case (Cons now nows)
  then obtain y g1 where g1: "write_task os now g = Some (y, g1)" "write_ticks os g1 nows = Some g'"
    by (auto simp: write_ticks_Cons bind_eq_Some_conv)
  then have "testVar g1 = next_sample (testVar g)"
    by (auto simp: write_task_def Let_def bind_eq_Some_conv split: if_splits)
  with Cons.IH [OF _ g1(2)] Cons.prems(1) show ?case
    by (simp add: unat_next_sample next_sample_bound mod_Suc_eq mod_add_left_eq)
qed

theorem sample_counter_witness:
  "\<exists>g'. write_ticks flag_mutex busy_sampler (replicate 3 \<lparr>tv_sec = 1, tv_usec = 0\<rparr>) = Some g' \<and>
    unat (testVar g') = 1"
proof -
  have "\<exists>g'. write_ticks flag_mutex busy_sampler (replicate 3 \<lparr>tv_sec = 1, tv_usec = 0\<rparr>) = Some g'"
    by (simp add: numeral_3_eq_3 write_ticks_Cons busy_sampler_def small_sampler_def two_cell_slot_def write_task_def
        write_slot_def flag_mutex_def)
  then obtain g' where
      g': "write_ticks flag_mutex busy_sampler (replicate 3 \<lparr>tv_sec = 1, tv_usec = 0\<rparr>) = Some g'" ..
  then have "unat (testVar g') = (unat (testVar busy_sampler) + 3) mod 50000"
    using sample_counter [OF _ g'] by (simp add: busy_sampler_def small_sampler_def)
  then have "unat (testVar g') = 1"
    by (simp add: busy_sampler_def small_sampler_def)
  with g' show ?thesis by auto
qed

end
