(* ===== verification/Sender.thy ===== *)
theory Sender
  imports Sampler
begin

text \<open>
  \<open>send_task_udp\<close> of \<open>src/main/main.c\<close>: the task that takes each ring buffer in turn,
  copies it to \<open>buffer_array\<close> in network byte order behind the sensor id and the time of
  its first sample, and sends the array to the server after the second buffer.

  The timer interrupt can strike between any two accesses of the task, so the task is modelled
  by its steps: each shared access (take, test of the flag, one read, give) is one step, and the
  local computation that follows it belongs to that step. \<open>send_pass\<close> composes the same
  statements without interruption, the way the body of the endless loop reads.
\<close>

section \<open>State\<close>

text \<open>
  The locals of the task and the globals only it uses. \<open>counter\<close> is an \<open>int\<close> that only
  grows from 0, kept as a \<open>nat\<close>. \<open>datagrams\<close> logs the arrays handed to \<open>sendto\<close>,
  \<open>sendto_err\<close> is the \<open>err\<close> it returned.
\<close>

record sender =
  lastBufferRead :: int
  buffer_array :: "u32 list"
  counter :: nat
  beginnSend :: timeval
  endSend :: timeval
  sensorID :: u8
  measuringStart :: timeval
  datagrams :: "u32 list list"
  sendto_err :: int
  time_elapsed :: u64

text \<open>Where the task is: before the take, at the first \<open>is_full\<close>, in the read loop, before the give, after both buffers.\<close>

datatype task_pc = At_take | At_check | At_drain | At_give | At_send

section \<open>Steps\<close>

definition put_word :: "u32 \<Rightarrow> sender \<Rightarrow> sender option" where
  "put_word x t = do {
     arr \<leftarrow> c_store (buffer_array t) (counter t) x;
     Some (t\<lparr>buffer_array := arr, counter := counter t + 1\<rparr>)
   }"

text \<open>\<open>buffer_array[counter] = htonl(sensorID)\<close> and the line after it.\<close>

definition put_header :: "ringbuffer_handle \<Rightarrow> sender \<Rightarrow> sender option" where
  "put_header rb t = do {
     t1 \<leftarrow> put_word (htonl (ucast (sensorID t))) t;
     put_word (htonl (get_timediff_us (timestamp rb) (Some (measuringStart t1)))) t1
   }"

fun slot_step :: "'m mutex_ops \<Rightarrow> task_pc \<Rightarrow> 'm slot \<Rightarrow> sender \<Rightarrow> ('m slot \<times> sender \<times> task_pc) task_result option" where
  "slot_step os At_take sl t =
     (case xSemaphoreTake os (ringbuffer_mutex sl) of
        None \<Rightarrow> Some Blocked
      | Some m \<Rightarrow> Some (Next (sl\<lparr>ringbuffer_mutex := m\<rparr>, t, At_check)))"
| "slot_step os At_check sl t = do {
     rb \<leftarrow> ringbuffer sl;
     if is_full rb then do {
       t' \<leftarrow> put_header rb t;
       Some (Next (sl, t', At_drain))
     }
     else Some (Next (sl, t, At_give))
   }"
| "slot_step os At_drain sl t = do {
     rb \<leftarrow> ringbuffer sl;
     if is_full rb then do {
       (x, rb') \<leftarrow> read_from_buffer rb;
       t' \<leftarrow> put_word (htonl x) t;
       Some (Next (sl\<lparr>ringbuffer := Some rb'\<rparr>, t', At_drain))
     }
     else Some (Next (sl, t, At_give))
   }"
| "slot_step os At_give sl t =
     Some (Next (sl\<lparr>ringbuffer_mutex := xSemaphoreGive os (ringbuffer_mutex sl)\<rparr>, t, At_take))"
| "slot_step os At_send sl t = Some Blocked"

text \<open>
  The tail of the pass: \<open>now1\<close> and \<open>now2\<close> are what the two calls of \<open>gettimeofday\<close>
  return, \<open>res\<close> the result of \<open>sendto\<close> and the stopwatch count that
  \<open>gptimer_get_raw_count\<close> stores in \<open>time_elapsed\<close>. (The stopwatch is reset after the
  send; nothing but the log reads it.)
\<close>

definition send_datagram :: "timeval \<Rightarrow> timeval \<Rightarrow> int \<times> u64 \<Rightarrow> sender \<Rightarrow> sender" where
  "send_datagram now1 now2 res t0 =
     (let t = t0\<lparr>beginnSend := now1\<rparr> in
      if 50000 < get_timediff_us (endSend t) (Some (beginnSend t))
      then t\<lparr>time_elapsed := snd res, datagrams := datagrams t @ [buffer_array t],
        sendto_err := fst res, endSend := now2\<rparr>
      else t)"

definition send_task_step ::
  "'m mutex_ops \<Rightarrow> timeval \<Rightarrow> timeval \<Rightarrow> int \<times> u64 \<Rightarrow> 'm sampler \<times> sender \<times> task_pc \<Rightarrow>
    ('m sampler \<times> sender \<times> task_pc) task_result option" where
  "send_task_step os now1 now2 res = (\<lambda>(g, t, pc).
     if pc = At_send then Some (Next (g, send_datagram now1 now2 res t, At_take))
     else if lastBufferRead t = 2 then do {
       r \<leftarrow> slot_step os pc (slot1 g) t;
       Some (case r of Blocked \<Rightarrow> Blocked
         | Next (sl, t', pc') \<Rightarrow> Next (g\<lparr>slot1 := sl\<rparr>,
             if pc = At_give then t'\<lparr>lastBufferRead := 1\<rparr> else t', pc'))
     }
     else if lastBufferRead t = 1 then do {
       r \<leftarrow> slot_step os pc (slot2 g) t;
       Some (case r of Blocked \<Rightarrow> Blocked
         | Next (sl, t', pc') \<Rightarrow> Next (g\<lparr>slot2 := sl\<rparr>,
             if pc = At_give then t'\<lparr>lastBufferRead := 2, counter := 0\<rparr> else t',
             if pc = At_give then At_send else pc'))
     }
     else Some (Next (g, t, pc)))"

text \<open>The locals at the start of the task.\<close>

definition send_task_init :: "u8 \<Rightarrow> timeval \<Rightarrow> timeval \<Rightarrow> timeval \<Rightarrow> sender" where
  "send_task_init sid start b0 e0 = \<lparr>
     lastBufferRead = 2,
     buffer_array = replicate (unat RINGBUFFER_SIZE * 2 + 4) 0,
     counter = 0, beginnSend = b0, endSend = e0,
     sensorID = sid, measuringStart = start,
     datagrams = [], sendto_err = 0, time_elapsed = 0\<rparr>"

section \<open>The same statements in one piece\<close>

text \<open>The critical section of one buffer.\<close>

definition read_slot :: "ringbuffer_handle \<Rightarrow> sender \<Rightarrow> (ringbuffer_handle \<times> sender) option" where
  "read_slot rb t =
     (if is_full rb then do {
        t1 \<leftarrow> put_header rb t;
        drain_loop is_full read_from_buffer (\<lambda>t x. put_word (htonl x) t) (rb, t1)
      }
      else Some (rb, t))"

definition send_pass :: "timeval \<Rightarrow> timeval \<Rightarrow> int \<times> u64 \<Rightarrow> ringbuffer_handle \<Rightarrow> ringbuffer_handle \<Rightarrow> sender \<Rightarrow>
    (ringbuffer_handle \<times> ringbuffer_handle \<times> sender) option" where
  "send_pass now1 now2 res rb1 rb2 t = do {
     (rb1', t1) \<leftarrow> read_slot rb1 t;
     (rb2', t2) \<leftarrow> read_slot rb2 (t1\<lparr>lastBufferRead := 1\<rparr>);
     Some (rb1', rb2', send_datagram now1 now2 res (t2\<lparr>lastBufferRead := 2, counter := 0\<rparr>))
   }"

text \<open>The words one full buffer contributes to the datagram.\<close>

definition block_words :: "ringbuffer_handle \<Rightarrow> sender \<Rightarrow> u32 list" where
  "block_words rb t =
     htonl (ucast (sensorID t)) # htonl (get_timediff_us (timestamp rb) (Some (measuringStart t)))
       # map htonl (rb_contents rb)"

text \<open>\<open>put_words\<close> writes a run of words at the counter.\<close>

definition put_words :: "u32 list \<Rightarrow> sender \<Rightarrow> sender" where
  "put_words ws t = t\<lparr>
     buffer_array := take (counter t) (buffer_array t) @ ws @ drop (counter t + length ws) (buffer_array t),
     counter := counter t + length ws\<rparr>"

lemma put_words_simps [simp]:
  "counter (put_words ws t) = counter t + length ws"
  "sensorID (put_words ws t) = sensorID t"
  "measuringStart (put_words ws t) = measuringStart t"
  "lastBufferRead (put_words ws t) = lastBufferRead t"
  "datagrams (put_words ws t) = datagrams t"
  "endSend (put_words ws t) = endSend t"
  by (simp_all add: put_words_def)

lemma length_buffer_put_words [simp]:
  "counter t + length ws \<le> length (buffer_array t) \<Longrightarrow>
   length (buffer_array (put_words ws t)) = length (buffer_array t)"
  by (simp add: put_words_def)

lemma put_word_eq:
  assumes "counter t < length (buffer_array t)"
  shows "put_word x t = Some (put_words [x] t)"
  using assms by (simp add: put_word_def put_words_def mem_simps upd_conv_take_nth_drop)

lemma put_words_Nil [simp]: "put_words [] t = t"
  by (simp add: put_words_def)

lemma put_words_append:
  assumes "counter t + length xs + length ys \<le> length (buffer_array t)"
  shows "put_words ys (put_words xs t) = put_words (xs @ ys) t"
  using assms by (simp add: put_words_def ac_simps)

lemma put_header_eq:
  assumes "counter t + 2 \<le> length (buffer_array t)"
  shows "put_header rb t = Some (put_words
    [htonl (ucast (sensorID t)), htonl (get_timediff_us (timestamp rb) (Some (measuringStart t)))] t)"
  using assms by (simp add: put_header_def put_word_eq put_words_append)

lemma m_fold_put_word:
  assumes "counter t + length xs \<le> length (buffer_array t)"
  shows "m_fold (\<lambda>t x. put_word (f x) t) t xs = Some (put_words (map f xs) t)"
  using assms
proof (induction xs arbitrary: t)
  case Nil
  then show ?case by simp
next
  case (Cons x xs)
  then show ?case
    using Cons.IH [of "put_words [f x] t"] by (simp add: put_word_eq put_words_append)
qed

text \<open>The critical section moves a full buffer to the array as one block and leaves it empty.\<close>

lemma read_slot_full:
  assumes "rb_inv rb" "is_full rb" "rb_count rb = rb_cap rb"
    "counter t + rb_cap rb + 2 \<le> length (buffer_array t)"
  shows "\<exists>rb'. read_slot rb t = Some (rb', put_words (block_words rb t) t) \<and> rb_inv rb' \<and>
    rb_contents rb' = [] \<and> rb_cap rb' = rb_cap rb \<and> \<not> is_full rb'"
proof -
  let ?hdr = "[htonl (ucast (sensorID t)), htonl (get_timediff_us (timestamp rb) (Some (measuringStart t)))]"
  let ?t1 = "put_words ?hdr t"
  have "0 < rb_cap rb" using assms(1) by (simp add: rb_inv_def)
  then have ne: "rb_contents rb \<noteq> []" using assms(3) by simp
  have "m_fold (\<lambda>t x. put_word (htonl x) t) ?t1 (rb_contents rb) =
      Some (put_words (map htonl (rb_contents rb)) ?t1)"
    using assms(3,4) by (intro m_fold_put_word) simp
  also have "put_words (map htonl (rb_contents rb)) ?t1 = put_words (block_words rb t) t"
    using assms(3,4) by (simp add: put_words_append block_words_def)
  finally show ?thesis
    using rb.drain_all [OF assms(1,2) ne, of "\<lambda>t x. put_word (htonl x) t" ?t1] assms(2,4)
    by (auto simp: read_slot_def put_header_eq)
qed

lemma read_slot_not_full: "\<not> is_full rb \<Longrightarrow> read_slot rb t = Some (rb, t)"
  by (simp add: read_slot_def)

section \<open>Properties\<close>

lemma put_words_lastBufferRead [simp]:
  "put_words ws (t\<lparr>lastBufferRead := i\<rparr>) = (put_words ws t)\<lparr>lastBufferRead := i\<rparr>"
  by (simp add: put_words_def)

lemma block_words_simps [simp]:
  "block_words rb (t\<lparr>lastBufferRead := i\<rparr>) = block_words rb t"
  "block_words rb (put_words ws t) = block_words rb t"
  "length (block_words rb t) = rb_count rb + 2"
  by (simp_all add: block_words_def)

text \<open>C7: one uninterrupted pass of the sending task over two full buffers never leaves the array:
  it fills the array with both blocks (id, time since the start, every sample in order, all in
  network byte order), empties both buffers, and starts the next pass at index 0.\<close>

theorem pass_two_full_buffers:
  assumes "rb_inv rb1" "is_full rb1" "rb_count rb1 = rb_cap rb1"
    and "rb_inv rb2" "is_full rb2" "rb_count rb2 = rb_cap rb2"
    and "counter t = 0" "length (buffer_array t) = rb_cap rb1 + 2 + (rb_cap rb2 + 2)"
  shows "\<exists>rb1' rb2' t'. send_pass now1 now2 res rb1 rb2 t = Some (rb1', rb2', t') \<and>
    buffer_array t' = block_words rb1 t @ block_words rb2 t \<and> counter t' = 0 \<and> lastBufferRead t' = 2 \<and>
    rb_contents rb1' = [] \<and> \<not> is_full rb1' \<and> rb_contents rb2' = [] \<and> \<not> is_full rb2'"
proof -
  obtain rb1' where rb1': "read_slot rb1 t = Some (rb1', put_words (block_words rb1 t) t)"
      "rb_contents rb1' = []" "\<not> is_full rb1'"
    using read_slot_full [OF assms(1-3), of t] assms(7,8) by auto
  let ?t1 = "(put_words (block_words rb1 t) t)\<lparr>lastBufferRead := 1\<rparr>"
  have "length (buffer_array ?t1) = length (buffer_array t)"
    using assms(3,7,8) by (simp add: put_words_def)
  then obtain rb2' where rb2': "read_slot rb2 ?t1 = Some (rb2', put_words (block_words rb2 ?t1) ?t1)"
      "rb_contents rb2' = []" "\<not> is_full rb2'"
    using read_slot_full [OF assms(4-6), of ?t1] assms(3,7,8) by auto
  have "buffer_array (put_words (block_words rb2 ?t1) ?t1) = block_words rb1 t @ block_words rb2 t"
    unfolding block_words_simps using assms by (simp add: put_words_def block_words_simps(3) del: block_words_simps(1,2))
  then show ?thesis
    using rb1' rb2' by (auto simp: send_pass_def send_datagram_def Let_def)
qed

definition clock :: "int \<Rightarrow> timeval" where
  "clock us = \<lparr>tv_sec = word_of_int (us div 1000000), tv_usec = word_of_int (us mod 1000000)\<rparr>"

definition small_sender :: sender where
  "small_sender = \<lparr>lastBufferRead = 2, buffer_array = replicate 10 0, counter = 0,
     beginnSend = clock 0, endSend = clock 0, sensorID = 3, measuringStart = clock 0,
     datagrams = [], sendto_err = 0, time_elapsed = 0\<rparr>"

theorem pass_two_full_buffers_witness:
  "\<exists>rb1' rb2' t'. send_pass (clock 5) (clock 6) (40, 7) full_buffer full_buffer small_sender = Some (rb1', rb2', t') \<and>
    buffer_array t' = block_words full_buffer small_sender @ block_words full_buffer small_sender"
  using pass_two_full_buffers [of full_buffer full_buffer small_sender "clock 5" "clock 6" "(40, 7)"]
  by (force simp: full_buffer_def small_sender_def rb_inv_def rb_count_def is_full_def)

text \<open>a buffer that is not full contributes nothing: when only the second buffer is full its
  block is written at the front of the array, and the words behind it are those of earlier passes.\<close>

theorem pass_one_full_buffer:
  assumes "\<not> is_full rb1" and "rb_inv rb2" "is_full rb2" "rb_count rb2 = rb_cap rb2"
    and "counter t = 0" "rb_cap rb2 + 2 \<le> length (buffer_array t)"
  shows "\<exists>rb2' t'. send_pass now1 now2 res rb1 rb2 t = Some (rb1, rb2', t') \<and>
    buffer_array t' = block_words rb2 t @ drop (rb_cap rb2 + 2) (buffer_array t) \<and> counter t' = 0 \<and>
    rb_contents rb2' = [] \<and> \<not> is_full rb2'"
proof -
  let ?t1 = "t\<lparr>lastBufferRead := 1\<rparr>"
  obtain rb2' where "read_slot rb2 ?t1 = Some (rb2', put_words (block_words rb2 ?t1) ?t1)"
      "rb_contents rb2' = []" "\<not> is_full rb2'"
    using read_slot_full [OF assms(2-4), of ?t1] assms(5,6) by auto
  then show ?thesis
    using assms
    by (auto simp: send_pass_def send_datagram_def Let_def read_slot_not_full put_words_def)
qed

theorem pass_one_full_buffer_witness:
  "\<exists>rb2' t'. send_pass (clock 5) (clock 6) (40, 7) sample_buffer full_buffer small_sender = Some (sample_buffer, rb2', t') \<and>
    buffer_array t' = block_words full_buffer small_sender @ replicate 5 0"
  using pass_one_full_buffer [of sample_buffer full_buffer small_sender "clock 5" "clock 6" "(40, 7)"]
  by (force simp: full_buffer_def sample_buffer_def small_sender_def rb_inv_def rb_count_def is_full_def)

text \<open>C8: the guard before \<open>sendto\<close> does not limit the rate. It passes the times to
  \<open>get_timediff_us\<close> in the wrong order, so the difference wraps, and the datagram is sent
  even when less than 50 ms (here any time from 1 us up) have passed since the last one.\<close>

theorem send_guard_does_not_limit:
  assumes "tv_ok now1" "tv_ok (endSend t)" "tv_us (endSend t) < tv_us now1"
    "tv_us now1 - tv_us (endSend t) < 2 ^ 32 - 50000"
  shows "datagrams (send_datagram now1 now2 res t) = datagrams t @ [buffer_array t]"
proof -
  have "uint (get_timediff_us (endSend t) (Some now1)) = 2 ^ 32 - (tv_us now1 - tv_us (endSend t))"
    using assms by (intro get_timediff_us_reversed) auto
  then have "50000 < get_timediff_us (endSend t) (Some now1)"
    using assms(4) by (simp add: word_less_def)
  then show ?thesis by (simp add: send_datagram_def)
qed

theorem send_guard_does_not_limit_witness:
  "datagrams (send_datagram (clock 10) (clock 12) (40, 7) small_sender) = [replicate 10 0]"
  using send_guard_does_not_limit [of "clock 10" small_sender "clock 12" "(40, 7)"]
  by (simp add: small_sender_def clock_def tv_ok_def tv_us_def)

end
