(* ===== verification/Pipeline.thy ===== *)
theory Pipeline
  imports Sender
begin

text \<open>
  The timer interrupt (\<open>Sampler\<close>) and the sending task (\<open>Sender\<close>) together: the two
  run on one shared state, and any interleaving of interrupt ticks and task steps is a run of
  the system. The theory states the invariant of the shared buffers and of the array that is
  sent, proves that every step keeps it and that no step fails, and derives that every datagram
  is made of complete blocks of consecutive samples.
\<close>

section \<open>The system\<close>

type_synonym 'm system = "'m sampler \<times> sender \<times> task_pc"

inductive sys_step :: "'m mutex_ops \<Rightarrow> 'm system \<Rightarrow> 'm system \<Rightarrow> bool" for os where
  tick: "write_task os now g = Some (y, g') \<Longrightarrow> sys_step os (g, t, pc) (g', t, pc)"
| task: "send_task_step os now1 now2 res (g, t, pc) = Some (Next st') \<Longrightarrow> sys_step os (g, t, pc) st'"

inductive reachable :: "'m mutex_ops \<Rightarrow> 'm system \<Rightarrow> 'm system \<Rightarrow> bool" for os st0 where
  start: "reachable os st0 st0"
| step: "reachable os st0 st \<Longrightarrow> sys_step os st st' \<Longrightarrow> reachable os st0 st'"

text \<open>Either party would run into undefined behaviour.\<close>

definition sys_fault :: "'m mutex_ops \<Rightarrow> 'm system \<Rightarrow> bool" where
  "sys_fault os st \<longleftrightarrow> (\<exists>now. write_task os now (fst st) = None) \<or>
     (\<exists>now1 now2 res. send_task_step os now1 now2 res st = None)"

text \<open>
  The state when \<open>app_main\<close> starts the timer and creates the task: two fresh buffers of
  capacity \<open>n\<close> with free mutexes, and the locals of the task.
\<close>

definition start_slot :: "'m \<Rightarrow> ringbuffer_handle \<Rightarrow> 'm slot" where
  "start_slot m rb = \<lparr>ringbuffer = Some rb, ringbuffer_mutex = m, MutexHolder = False\<rparr>"

definition start_sampler :: "'m \<Rightarrow> 'm \<Rightarrow> ringbuffer_handle \<Rightarrow> ringbuffer_handle \<Rightarrow> timeval \<Rightarrow> 'm sampler" where
  "start_sampler m1 m2 rb1 rb2 mp = \<lparr>
     lastBufferWritten = 2, testVar = 0,
     slot1 = start_slot m1 rb1, slot2 = start_slot m2 rb2,
     ISRMutex = False, measuringPoint = mp\<rparr>"

definition start_sender :: "nat \<Rightarrow> sender \<Rightarrow> bool" where
  "start_sender n t \<longleftrightarrow> lastBufferRead t = 2 \<and> counter t = 0 \<and> datagrams t = [] \<and>
     buffer_array t = replicate (n * 2 + 4) 0"

lemma start_sender_init: "start_sender (unat RINGBUFFER_SIZE) (send_task_init sid start b0 e0)"
  by (simp add: start_sender_def send_task_init_def)

section \<open>Blocks of the array\<close>

text \<open>
  A block is the part of the array one buffer fills: id, time, \<open>n\<close> samples. It is either
  as initialised or complete, with consecutive samples.
\<close>

definition block_ok :: "nat \<Rightarrow> u8 \<Rightarrow> u32 list \<Rightarrow> bool" where
  "block_ok n sid ws \<longleftrightarrow> ws = replicate (n + 2) 0 \<or>
     (\<exists>us xs. ws = htonl (ucast sid) # htonl us # map htonl xs \<and> length xs = n \<and> consecutive xs)"

definition block :: "nat \<Rightarrow> nat \<Rightarrow> u32 list \<Rightarrow> u32 list" where
  "block n base arr = take (n + 2) (drop base arr)"

definition datagram_ok :: "nat \<Rightarrow> u8 \<Rightarrow> u32 list \<Rightarrow> bool" where
  "datagram_ok n sid d \<longleftrightarrow> length d = 2 * (n + 2) \<and> block_ok n sid (block n 0 d) \<and> block_ok n sid (block n (n + 2) d)"

lemma take_drop_put_words:
  assumes "base \<le> counter t" "counter t + length ws \<le> length (buffer_array t)"
  shows "take (counter t + length ws - base) (drop base (buffer_array (put_words ws t))) =
    take (counter t - base) (drop base (buffer_array t)) @ ws"
  using assms by (simp add: put_words_def drop_take)

lemma block_put_words_other:
  assumes "base \<in> {0, n + 2}" "base \<le> counter t" "counter t + length ws \<le> base + n + 2"
    "length (buffer_array t) = 2 * (n + 2)"
  shows "block n (n + 2 - base) (buffer_array (put_words ws t)) = block n (n + 2 - base) (buffer_array t)"
  using assms by (auto simp: block_def put_words_def min_def)

section \<open>The invariant\<close>

text \<open>The task is inside the critical section of the first or of the second buffer.\<close>

definition inside :: "int \<Rightarrow> sender \<Rightarrow> task_pc \<Rightarrow> bool" where
  "inside turn t pc \<longleftrightarrow> lastBufferRead t = turn \<and> pc \<in> {At_check, At_drain, At_give}"

text \<open>
  A slot: taken by the task when the task is inside, otherwise held by the interrupt (only in
  its turn, \<open>mine\<close>) or free.
\<close>

definition slot_inv :: "('m \<Rightarrow> bool) \<Rightarrow> nat \<Rightarrow> u32 \<Rightarrow> bool \<Rightarrow> bool \<Rightarrow> 'm slot \<Rightarrow> bool" where
  "slot_inv available n v mine ins sl \<longleftrightarrow>
     (if ins then slot_taken available n sl
      else if MutexHolder sl then mine \<and> slot_held available n v sl
      else slot_free available n sl)"

text \<open>The block being copied: the words so far, followed by what is still in the buffer, make a complete block.\<close>

definition partial_block :: "nat \<Rightarrow> nat \<Rightarrow> ringbuffer_handle \<Rightarrow> sender \<Rightarrow> bool" where
  "partial_block n base rb t \<longleftrightarrow> rb_count rb \<le> n \<and> (is_full rb \<longleftrightarrow> 0 < rb_count rb) \<and>
     counter t = base + 2 + (n - rb_count rb) \<and>
     (\<exists>us ys. consecutive (ys @ rb_contents rb) \<and> length ys = n - rb_count rb \<and>
        take (counter t - base) (drop base (buffer_array t)) =
          htonl (ucast (sensorID t)) # htonl us # map htonl ys) \<and>
     block_ok n (sensorID t) (block n (n + 2 - base) (buffer_array t))"

definition flag_ok :: "nat \<Rightarrow> ringbuffer_handle \<Rightarrow> bool" where
  "flag_ok n rb \<longleftrightarrow> consecutive (rb_contents rb) \<and> (if is_full rb then rb_count rb = n else rb_count rb = 0)"

text \<open>Where a block may start: at 0 for the first buffer, after the first block or at 0 for the second.\<close>

definition bases :: "nat \<Rightarrow> sender \<Rightarrow> nat set" where
  "bases n t = (if lastBufferRead t = 2 then {0} else {0, n + 2})"

definition task_inv :: "nat \<Rightarrow> ringbuffer_handle \<Rightarrow> sender \<Rightarrow> task_pc \<Rightarrow> bool" where
  "task_inv n rb t pc \<longleftrightarrow> lastBufferRead t \<in> {1, 2} \<and> length (buffer_array t) = 2 * (n + 2) \<and>
     list_all (datagram_ok n (sensorID t)) (datagrams t) \<and>
     (case pc of
        At_take \<Rightarrow> counter t \<in> bases n t \<and> datagram_ok n (sensorID t) (buffer_array t)
      | At_check \<Rightarrow> counter t \<in> bases n t \<and> datagram_ok n (sensorID t) (buffer_array t) \<and> flag_ok n rb
      | At_drain \<Rightarrow> (\<exists>base \<in> bases n t. partial_block n base rb t)
      | At_give \<Rightarrow> (lastBufferRead t = 2 \<longrightarrow> counter t \<in> {0, n + 2}) \<and>
          datagram_ok n (sensorID t) (buffer_array t) \<and> rb_count rb = 0 \<and> \<not> is_full rb
      | At_send \<Rightarrow> lastBufferRead t = 2 \<and> counter t = 0 \<and> datagram_ok n (sensorID t) (buffer_array t))"

definition current_slot :: "'m sampler \<Rightarrow> sender \<Rightarrow> 'm slot" where
  "current_slot g t = (if lastBufferRead t = 2 then slot1 g else slot2 g)"

definition sys_inv :: "('m \<Rightarrow> bool) \<Rightarrow> nat \<Rightarrow> 'm system \<Rightarrow> bool" where
  "sys_inv available n = (\<lambda>(g, t, pc).
     lastBufferWritten g \<in> {1, 2} \<and> unat (testVar g) < 50000 \<and>
     slot_inv available n (testVar g) (lastBufferWritten g = 2) (inside 2 t pc) (slot1 g) \<and>
     slot_inv available n (testVar g) (lastBufferWritten g = 1) (inside 1 t pc) (slot2 g) \<and>
     task_inv n (slot_buffer (current_slot g t)) t pc)"

lemma slot_inv_other: "slot_inv available n v False ins sl \<Longrightarrow> slot_inv available n v' mine ins sl"
  by (auto simp: slot_inv_def split: if_splits)

section \<open>A tick keeps the invariant\<close>

context mutex_contract
begin

lemma write_slot_inv:
  assumes inv: "slot_inv available n v True ins sl" and n: "2 \<le> n"
  shows "\<exists>sl' isr' mp' sw. write_slot os now (next_sample v) sl isr mp = Some (sl', isr', mp', sw) \<and>
    slot_inv available n (next_sample v) (\<not> sw) ins sl' \<and> (ins \<longrightarrow> ringbuffer sl' = ringbuffer sl)"
proof -
  consider "ins" "slot_taken available n sl"
    | "\<not> ins" "slot_held available n v sl"
    | "\<not> ins" "slot_free available n sl" "is_full (slot_buffer sl)"
    | "\<not> ins" "slot_free available n sl" "\<not> is_full (slot_buffer sl)"
    using inv by (auto simp: slot_inv_def split: if_splits)
  then show ?thesis
  proof cases
    case 1
    from write_slot_taken [OF this(2), of now "next_sample v" isr mp] 1(1)
    show ?thesis by (auto simp: slot_inv_def)
  next
    case 2
    from write_slot_held [OF this(2) refl, of now isr mp] 2(1)
    show ?thesis by (fastforce simp: slot_inv_def slot_held_def slot_free_def split: if_splits)
  next
    case 3
    from write_slot_full [OF this(2,3), of now "next_sample v" isr mp] 3(1)
    show ?thesis by (fastforce simp: slot_inv_def slot_free_def)
  next
    case 4
    from write_slot_start [OF this(2,3) n, of now "next_sample v" isr mp] 4(1)
    show ?thesis by (fastforce simp: slot_inv_def slot_held_def)
  qed
qed

lemma tick_inv:
  assumes inv: "sys_inv available n (g, t, pc)" and n: "2 \<le> n"
  shows "\<exists>y g'. write_task os now g = Some (y, g') \<and> sys_inv available n (g', t, pc)"
proof -
  have i1: "slot_inv available n (testVar g) (lastBufferWritten g = 2) (inside 2 t pc) (slot1 g)"
    and i2: "slot_inv available n (testVar g) (lastBufferWritten g = 1) (inside 1 t pc) (slot2 g)"
    and v: "unat (next_sample (testVar g)) < 50000"
    and ti: "task_inv n (slot_buffer (current_slot g t)) t pc"
    using inv by (auto simp: sys_inv_def next_sample_bound)
  have frame: "task_inv n (slot_buffer (current_slot g' t)) t pc"
    if "inside 2 t pc \<longrightarrow> ringbuffer (slot1 g') = ringbuffer (slot1 g)"
      "inside 1 t pc \<longrightarrow> ringbuffer (slot2 g') = ringbuffer (slot2 g)" for g'
    using ti that
    by (auto simp: task_inv_def inside_def current_slot_def slot_buffer_def split: task_pc.splits)
  from inv consider "lastBufferWritten g = 2" | "lastBufferWritten g = 1"
    by (auto simp: sys_inv_def)
  then show ?thesis
  proof cases
    case 1
    obtain sl' isr' mp' sw where
        w: "write_slot os now (next_sample (testVar g)) (slot1 g) False (measuringPoint g) = Some (sl', isr', mp', sw)"
        "slot_inv available n (next_sample (testVar g)) (\<not> sw) (inside 2 t pc) sl'"
        "inside 2 t pc \<longrightarrow> ringbuffer sl' = ringbuffer (slot1 g)"
      using write_slot_inv [OF _ n] i1 1 by fastforce
    have o: "slot_inv available n (next_sample (testVar g)) m (inside 1 t pc) (slot2 g)" for m
      using i2 1 by (auto intro: slot_inv_other)
    show ?thesis
      using 1 w o v by (auto simp: write_task_def sys_inv_def Let_def intro!: frame)
  next
    case 2
    obtain sl' isr' mp' sw where
        w: "write_slot os now (next_sample (testVar g)) (slot2 g) False (measuringPoint g) = Some (sl', isr', mp', sw)"
        "slot_inv available n (next_sample (testVar g)) (\<not> sw) (inside 1 t pc) sl'"
        "inside 1 t pc \<longrightarrow> ringbuffer sl' = ringbuffer (slot2 g)"
      using write_slot_inv [OF _ n] i2 2 by fastforce
    have o: "slot_inv available n (next_sample (testVar g)) m (inside 2 t pc) (slot1 g)" for m
      using i1 2 by (auto intro: slot_inv_other)
    show ?thesis
      using 2 w o v by (auto simp: write_task_def sys_inv_def Let_def intro!: frame)
  qed
qed
end

section \<open>The task's side\<close>

lemma datagram_okI:
  assumes "length d = 2 * (n + 2)" "base \<in> {0, n + 2}"
    "block_ok n sid (block n base d)" "block_ok n sid (block n (n + 2 - base) d)"
  shows "datagram_ok n sid d"
  using assms by (auto simp: datagram_ok_def)

lemma datagram_ok_block: "datagram_ok n sid d \<Longrightarrow> base \<in> {0, n + 2} \<Longrightarrow> block_ok n sid (block n base d)"
  by (auto simp: datagram_ok_def)

lemma bases_subset: "base \<in> bases n t \<Longrightarrow> base \<in> {0, n + 2}"
  by (auto simp: bases_def split: if_splits)

lemma partial_block_start:
  assumes "flag_ok n rb" "is_full rb" "0 < n" "counter t \<in> {0, n + 2}"
    "length (buffer_array t) = 2 * (n + 2)" "datagram_ok n (sensorID t) (buffer_array t)"
  shows "\<exists>t'. put_header rb t = Some t' \<and> partial_block n (counter t) rb t' \<and>
    lastBufferRead t' = lastBufferRead t \<and> sensorID t' = sensorID t \<and> datagrams t' = datagrams t \<and>
    length (buffer_array t') = length (buffer_array t)"
proof -
  let ?us = "get_timediff_us (timestamp rb) (Some (measuringStart t))"
  let ?hdr = "[htonl (ucast (sensorID t)), htonl ?us]"
  let ?t' = "put_words ?hdr t"
  have room: "counter t + length ?hdr \<le> length (buffer_array t)"
    using assms by auto
  have other: "block n (n + 2 - counter t) (buffer_array ?t') = block n (n + 2 - counter t) (buffer_array t)"
    using assms by (intro block_put_words_other) auto
  have "take (counter t + length ?hdr - counter t) (drop (counter t) (buffer_array ?t')) =
      take (counter t - counter t) (drop (counter t) (buffer_array t)) @ ?hdr"
    using room by (intro take_drop_put_words) auto
  then have "partial_block n (counter t) rb ?t'"
    using assms other by (auto simp: partial_block_def flag_ok_def intro!: datagram_ok_block)
  then show ?thesis
    using room by (intro exI [of _ ?t']) (simp add: put_header_eq)
qed

lemma partial_block_step:
  assumes "rb_inv rb" "rb_cap rb = n" "partial_block n base rb t" "is_full rb" "base \<in> {0, n + 2}"
    "length (buffer_array t) = 2 * (n + 2)"
  shows "\<exists>x rb' t'. read_from_buffer rb = Some (x, rb') \<and> put_word (htonl x) t = Some t' \<and>
    rb_inv rb' \<and> rb_cap rb' = n \<and> partial_block n base rb' t' \<and>
    lastBufferRead t' = lastBufferRead t \<and> sensorID t' = sensorID t \<and> datagrams t' = datagrams t \<and>
    length (buffer_array t') = length (buffer_array t)"
proof -
  have count: "0 < rb_count rb" "rb_count rb \<le> n" "counter t = base + 2 + (n - rb_count rb)"
    using assms(3,4) by (auto simp: partial_block_def)
  obtain us ys where ys: "consecutive (ys @ rb_contents rb)" "length ys = n - rb_count rb"
      "take (counter t - base) (drop base (buffer_array t)) =
        htonl (ucast (sensorID t)) # htonl us # map htonl ys"
    using assms(3) by (auto simp: partial_block_def)
  obtain rb' where rb': "read_from_buffer rb = Some (hd (rb_contents rb), rb')" "rb_inv rb'"
      "rb_contents rb' = tl (rb_contents rb)" "rb_size rb' = rb_size rb"
      "full rb' \<longleftrightarrow> full rb \<and> 1 < rb_count rb"
    using read_from_buffer_spec [OF assms(1) count(1)] by metis
  let ?x = "hd (rb_contents rb)"
  let ?t' = "put_words [htonl ?x] t"
  have contents: "rb_contents rb = ?x # rb_contents rb'"
    using count(1) rb'(3) by (metis list.collapse rb_contents_empty not_gr_zero)
  then have count': "rb_count rb = Suc (rb_count rb')"
    by (metis length_Cons length_rb_contents)
  have room: "counter t < length (buffer_array t)"
    using assms(5,6) count by auto
  have "take (counter t + length [htonl ?x] - base) (drop base (buffer_array ?t')) =
      take (counter t - base) (drop base (buffer_array t)) @ [htonl ?x]"
    using room count by (intro take_drop_put_words) auto
  then have words: "take (counter ?t' - base) (drop base (buffer_array ?t')) =
      htonl (ucast (sensorID t)) # htonl us # map htonl (ys @ [?x])"
    using ys(3) by simp
  have other: "block n (n + 2 - base) (buffer_array ?t') = block n (n + 2 - base) (buffer_array t)"
    using assms(5,6) count by (intro block_put_words_other) auto
  have "partial_block n base rb' ?t'"
    unfolding partial_block_def
  proof (intro conjI exI)
    show "consecutive ((ys @ [?x]) @ rb_contents rb')"
      using ys(1) contents by simp
    show "take (counter ?t' - base) (drop base (buffer_array ?t')) =
        htonl (ucast (sensorID ?t')) # htonl us # map htonl (ys @ [?x])"
      using words by simp
    show "block_ok n (sensorID ?t') (block n (n + 2 - base) (buffer_array ?t'))"
      using assms(3) other by (simp add: partial_block_def)
  qed (use count count' ys rb' assms(4) in \<open>auto simp: is_full_def\<close>)
  then show ?thesis
    using rb' assms(2) room
    by (intro exI [of _ ?x] exI [of _ rb'] exI [of _ ?t'] conjI) (simp_all add: put_word_eq)
qed

lemma partial_block_done:
  assumes "partial_block n base rb t" "\<not> is_full rb" "base \<in> {0, n + 2}"
    "length (buffer_array t) = 2 * (n + 2)"
  shows "rb_count rb = 0" "counter t = base + n + 2" "datagram_ok n (sensorID t) (buffer_array t)"
proof -
  show c: "rb_count rb = 0" "counter t = base + n + 2"
    using assms(1,2) by (auto simp: partial_block_def)
  then have "rb_contents rb = []" by simp
  with assms(1) c obtain us ys where "consecutive ys" "length ys = n"
      "block n base (buffer_array t) = htonl (ucast (sensorID t)) # htonl us # map htonl ys"
    by (auto simp: partial_block_def block_def)
  then have "block_ok n (sensorID t) (block n base (buffer_array t))"
    by (auto simp: block_ok_def)
  moreover have "block_ok n (sensorID t) (block n (n + 2 - base) (buffer_array t))"
    using assms(1) by (simp add: partial_block_def)
  ultimately show "datagram_ok n (sensorID t) (buffer_array t)"
    using assms(3,4) by (intro datagram_okI)
qed

lemma consecutive_empty_buffer: "rb_count rb = 0 \<Longrightarrow> consecutive (rb_contents rb)"
  by (metis consecutive_Nil rb_contents_empty)

context mutex_contract
begin

lemma slot_take_inv:
  assumes "slot_inv available n v mine False sl" "task_inv n (slot_buffer sl) t At_take"
    "available (ringbuffer_mutex sl)"
  shows "\<exists>sl'. slot_step os At_take sl t = Some (Next (sl', t, At_check)) \<and>
    slot_inv available n v mine True sl' \<and> task_inv n (slot_buffer sl') t At_check"
proof -
  obtain m where "xSemaphoreTake os (ringbuffer_mutex sl) = Some m" "\<not> available m"
    using take_available [OF assms(3)] by auto
  with assms show ?thesis
    by (auto simp: slot_inv_def slot_defs task_inv_def flag_ok_def split: if_splits)
qed

lemma slot_check_inv:
  assumes "slot_inv available n v mine True sl" "task_inv n (slot_buffer sl) t At_check" "0 < n"
  shows "\<exists>t' pc'. slot_step os At_check sl t = Some (Next (sl, t', pc')) \<and> pc' \<in> {At_drain, At_give} \<and>
    task_inv n (slot_buffer sl) t' pc' \<and> lastBufferRead t' = lastBufferRead t \<and> sensorID t' = sensorID t"
proof -
  obtain rb where rb: "ringbuffer sl = Some rb" "slot_buffer sl = rb"
    using assms(1) by (auto simp: slot_inv_def slot_defs)
  have t: "counter t \<in> bases n t" "datagram_ok n (sensorID t) (buffer_array t)" "flag_ok n rb"
      "length (buffer_array t) = 2 * (n + 2)" "lastBufferRead t \<in> {1, 2}"
      "list_all (datagram_ok n (sensorID t)) (datagrams t)"
    using assms(2) rb by (auto simp: task_inv_def)
  show ?thesis
  proof (cases "is_full rb")
    case True
    from partial_block_start [OF t(3) this assms(3) bases_subset [OF t(1)] t(4,2)]
    obtain t' where "put_header rb t = Some t'" "partial_block n (counter t) rb t'"
      "lastBufferRead t' = lastBufferRead t" "sensorID t' = sensorID t" "datagrams t' = datagrams t"
      "length (buffer_array t') = length (buffer_array t)"
      by auto
    with True t rb show ?thesis
      by (auto simp: task_inv_def bases_def split: if_splits)
  next
    case False
    with t rb show ?thesis
      by (auto simp: task_inv_def flag_ok_def bases_def split: if_splits)
  qed
qed

lemma slot_drain_inv:
  assumes "slot_inv available n v mine True sl" "task_inv n (slot_buffer sl) t At_drain"
  shows "\<exists>sl' t' pc'. slot_step os At_drain sl t = Some (Next (sl', t', pc')) \<and> pc' \<in> {At_drain, At_give} \<and>
    slot_inv available n v mine True sl' \<and> task_inv n (slot_buffer sl') t' pc' \<and>
    lastBufferRead t' = lastBufferRead t \<and> sensorID t' = sensorID t"
proof -
  obtain rb where rb: "ringbuffer sl = Some rb" "slot_buffer sl = rb" "rb_inv rb" "rb_cap rb = n"
    using assms(1) by (auto simp: slot_inv_def slot_defs)
  obtain base where base: "base \<in> bases n t" "partial_block n base rb t"
    using assms(2) rb by (auto simp: task_inv_def)
  have t: "length (buffer_array t) = 2 * (n + 2)" "lastBufferRead t \<in> {1, 2}"
      "list_all (datagram_ok n (sensorID t)) (datagrams t)"
    using assms(2) by (auto simp: task_inv_def)
  show ?thesis
  proof (cases "is_full rb")
    case True
    from partial_block_step [OF rb(3,4) base(2) True bases_subset [OF base(1)] t(1)]
    obtain x rb' t' where "read_from_buffer rb = Some (x, rb')" "put_word (htonl x) t = Some t'"
      "rb_inv rb'" "rb_cap rb' = n" "partial_block n base rb' t'"
      "lastBufferRead t' = lastBufferRead t" "sensorID t' = sensorID t" "datagrams t' = datagrams t"
      "length (buffer_array t') = length (buffer_array t)"
      by auto
    with True t rb base(1) assms(1) show ?thesis
      by (auto simp: task_inv_def bases_def slot_inv_def slot_defs)
  next
    case False
    note finished = partial_block_done [OF base(2) False bases_subset [OF base(1)] t(1)]
    from finished False t rb base(1) assms(1) show ?thesis
      by (auto simp: task_inv_def bases_def)
  qed
qed

lemma slot_give_inv:
  assumes "slot_inv available n v mine True sl" "task_inv n (slot_buffer sl) t At_give"
  shows "\<exists>sl'. slot_step os At_give sl t = Some (Next (sl', t, At_take)) \<and> slot_inv available n v mine False sl'"
proof -
  obtain rb where rb: "ringbuffer sl = Some rb" "slot_buffer sl = rb" "rb_inv rb" "rb_cap rb = n"
      "\<not> MutexHolder sl" "\<not> available (ringbuffer_mutex sl)"
    using assms(1) by (auto simp: slot_inv_def slot_defs)
  then have "rb_count rb = 0" "\<not> is_full rb"
    using assms(2) by (auto simp: task_inv_def)
  moreover from this have "consecutive (rb_contents rb)"
    by (simp add: consecutive_empty_buffer)
  ultimately show ?thesis
    using rb give_available [OF rb(6)] by (simp add: slot_inv_def slot_free_def)
qed


lemma task_step_inv:
  assumes inv: "sys_inv available n (g, t, pc)" and n: "0 < n"
  shows "(pc = At_take \<and> \<not> available (ringbuffer_mutex (current_slot g t)) \<and>
       send_task_step os now1 now2 res (g, t, pc) = Some Blocked) \<or>
    (\<exists>st'. send_task_step os now1 now2 res (g, t, pc) = Some (Next st') \<and> sys_inv available n st' \<and>
       sensorID (fst (snd st')) = sensorID t)"
proof -
  let ?turn = "lastBufferRead t" and ?sl = "current_slot g t"
  let ?step = "send_task_step os now1 now2 res (g, t, pc)"
  define mine where "mine \<longleftrightarrow> lastBufferWritten g = ?turn"
  have turn: "?turn = 1 \<or> ?turn = 2" and ti: "task_inv n (slot_buffer ?sl) t pc"
    using inv by (auto simp: sys_inv_def task_inv_def)
  have si: "slot_inv available n (testVar g) mine (pc \<in> {At_check, At_drain, At_give}) ?sl"
    using inv turn by (auto simp: sys_inv_def current_slot_def inside_def mine_def)
  have upd: "sys_inv available n
      (if ?turn = 2 then g\<lparr>slot1 := sl'\<rparr> else g\<lparr>slot2 := sl'\<rparr>, t', pc')"
    if "slot_inv available n (testVar g) mine (pc' \<in> {At_check, At_drain, At_give}) sl'"
      "task_inv n (slot_buffer sl') t' pc'" "lastBufferRead t' = ?turn" for sl' t' pc'
    using inv that turn by (auto simp: sys_inv_def current_slot_def inside_def mine_def)
  show ?thesis
  proof (cases pc)
    case At_take
    show ?thesis
    proof (cases "available (ringbuffer_mutex ?sl)")
      case True
      with slot_take_inv [of n "testVar g" mine ?sl t] si ti At_take
      obtain sl' where "slot_step os At_take ?sl t = Some (Next (sl', t, At_check))"
        "slot_inv available n (testVar g) mine True sl'" "task_inv n (slot_buffer sl') t At_check"
        by (auto simp del: slot_step.simps)
      with At_take turn upd [of At_check sl' t] show ?thesis
        by (auto simp: send_task_step_def current_slot_def simp del: slot_step.simps)
    next
      case False
      with At_take turn take_blocks [OF False] show ?thesis
        by (auto simp: send_task_step_def current_slot_def)
    qed
  next
    case At_check
    with slot_check_inv [of n "testVar g" mine ?sl t] si ti n
    obtain t' pc' where "slot_step os At_check ?sl t = Some (Next (?sl, t', pc'))"
      "pc' \<in> {At_drain, At_give}" "task_inv n (slot_buffer ?sl) t' pc'" "lastBufferRead t' = ?turn"
      "sensorID t' = sensorID t"
      by (auto simp del: slot_step.simps)
    with At_check si turn upd [of pc' ?sl t'] show ?thesis
      by (auto simp: send_task_step_def current_slot_def simp del: slot_step.simps)
  next
    case At_drain
    with slot_drain_inv [of n "testVar g" mine ?sl t] si ti
    obtain sl' t' pc' where "slot_step os At_drain ?sl t = Some (Next (sl', t', pc'))"
      "pc' \<in> {At_drain, At_give}" "slot_inv available n (testVar g) mine True sl'"
      "task_inv n (slot_buffer sl') t' pc'" "lastBufferRead t' = ?turn" "sensorID t' = sensorID t"
      by (auto simp del: slot_step.simps)
    with At_drain turn upd [of pc' sl' t'] show ?thesis
      by (auto simp: send_task_step_def current_slot_def simp del: slot_step.simps)
  next
    case At_give
    with slot_give_inv [of n "testVar g" mine ?sl t] si ti
    obtain sl' where "slot_step os At_give ?sl t = Some (Next (sl', t, At_take))"
      "slot_inv available n (testVar g) mine False sl'"
      by (auto simp del: slot_step.simps)
    moreover from this inv At_give turn have
      "?turn = 2 \<Longrightarrow> sys_inv available n (g\<lparr>slot1 := sl'\<rparr>, t\<lparr>lastBufferRead := 1\<rparr>, At_take)"
      "?turn = 1 \<Longrightarrow> sys_inv available n (g\<lparr>slot2 := sl'\<rparr>, t\<lparr>lastBufferRead := 2, counter := 0\<rparr>, At_send)"
      by (auto simp: sys_inv_def inside_def mine_def task_inv_def bases_def)
    ultimately show ?thesis
      using At_give turn
      by (auto simp: send_task_step_def current_slot_def simp del: slot_step.simps)
  next
    case At_send
    with inv show ?thesis
      by (auto simp: send_task_step_def send_datagram_def sys_inv_def inside_def
          task_inv_def bases_def current_slot_def Let_def)
  qed
qed

lemma sys_inv_reachable:
  assumes "reachable os st0 st" "sys_inv available n st0" "2 \<le> n"
  shows "sys_inv available n st \<and> sensorID (fst (snd st)) = sensorID (fst (snd st0))"
  using assms(1)
proof induction
  case start
  with assms(2) show ?case by simp
next
  case (step st st')
  from step.hyps(2) step.IH show ?case
  proof cases
    case (tick now g y g' t pc)
    with step.IH tick_inv [of n g t pc now] assms(3) show ?thesis by auto
  next
    case (task now1 now2 res g t pc)
    with step.IH task_step_inv [of n g t pc now1 now2 res] assms(3) show ?thesis by auto
  qed
qed

lemma sys_inv_no_fault:
  assumes "sys_inv available n st" "2 \<le> n"
  shows "\<not> sys_fault os st"
proof -
  obtain g t pc where st: "st = (g, t, pc)" by (cases st)
  have "write_task os now g \<noteq> None" for now
    using tick_inv [of n g t pc now] assms st by auto
  moreover have "send_task_step os now1 now2 res st \<noteq> None" for now1 now2 res
    using task_step_inv [of n g t pc now1 now2 res] assms st by auto
  ultimately show ?thesis by (simp add: sys_fault_def st)
qed

end

lemma sys_inv_start:
  assumes "available m1" "available m2" "2 \<le> n"
    "rb_inv rb1" "rb_contents rb1 = []" "rb_cap rb1 = n" "\<not> full rb1"
    "rb_inv rb2" "rb_contents rb2 = []" "rb_cap rb2 = n" "\<not> full rb2"
    "start_sender n t"
  shows "sys_inv available n (start_sampler m1 m2 rb1 rb2 mp, t, At_take)"
proof -
  have "datagram_ok n (sensorID t) (replicate (n * 2 + 4) 0)"
    by (simp add: datagram_ok_def block_ok_def block_def min_def)
  then show ?thesis
    using assms
    by (auto simp: sys_inv_def start_sampler_def start_slot_def start_sender_def slot_inv_def slot_defs
        task_inv_def current_slot_def inside_def bases_def is_full_def consecutive_empty_buffer)
qed

section \<open>A pass is a run of steps\<close>

text \<open>The steps inside one critical section, up to the give.\<close>

definition section_step ::
  "'m mutex_ops \<Rightarrow> 'm slot \<times> sender \<times> task_pc \<Rightarrow> 'm slot \<times> sender \<times> task_pc \<Rightarrow> bool" where
  "section_step os x y \<longleftrightarrow> (case x of (sl, t, pc) \<Rightarrow>
     pc \<notin> {At_give, At_send} \<and> slot_step os pc sl t = Some (Next y))"

definition task_step ::
  "'m mutex_ops \<Rightarrow> timeval \<Rightarrow> timeval \<Rightarrow> int \<times> u64 \<Rightarrow> 'm system \<Rightarrow> 'm system \<Rightarrow> bool" where
  "task_step os now1 now2 res st st' \<longleftrightarrow> send_task_step os now1 now2 res st = Some (Next st')"

definition put_current :: "'m sampler \<Rightarrow> sender \<Rightarrow> 'm slot \<Rightarrow> 'm sampler" where
  "put_current g t sl = (if lastBufferRead t = 2 then g\<lparr>slot1 := sl\<rparr> else g\<lparr>slot2 := sl\<rparr>)"

lemma put_word_turn: "put_word x t = Some t' \<Longrightarrow> lastBufferRead t' = lastBufferRead t"
  by (auto simp: put_word_def bind_eq_Some_conv)

lemma put_header_turn: "put_header rb t = Some t' \<Longrightarrow> lastBufferRead t' = lastBufferRead t"
  by (auto simp: put_header_def bind_eq_Some_conv dest!: put_word_turn)

lemma section_step_turn:
  "section_step os (sl, t, pc) (sl', t', pc') \<Longrightarrow> lastBufferRead t' = lastBufferRead t"
  by (cases pc)
    (auto simp: section_step_def bind_eq_Some_conv split: option.splits if_splits
      dest!: put_word_turn put_header_turn)

lemma section_step_task_step:
  assumes "section_step os (sl, t, pc) (sl', t', pc')" "lastBufferRead t \<in> {1, 2}"
  shows "task_step os now1 now2 res (put_current g t sl, t, pc) (put_current g t sl', t', pc')"
  using assms
  by (auto simp: section_step_def task_step_def send_task_step_def put_current_def
      simp del: slot_step.simps)

lemma section_run_task_run:
  assumes "(section_step os)\<^sup>*\<^sup>* x y" "lastBufferRead (fst (snd x)) \<in> {1, 2}"
  shows "(task_step os now1 now2 res)\<^sup>*\<^sup>*
      (put_current g (fst (snd x)) (fst x), fst (snd x), snd (snd x))
      (put_current g (fst (snd x)) (fst y), fst (snd y), snd (snd y)) \<and>
    lastBufferRead (fst (snd y)) = lastBufferRead (fst (snd x))"
  using assms(1)
proof (induction rule: rtranclp_induct)
  case base
  then show ?case by simp
next
  case (step y z)
  obtain sl t pc sl' t' pc' where yz: "y = (sl, t, pc)" "z = (sl', t', pc')"
    by (metis prod_cases3)
  have "lastBufferRead t' = lastBufferRead t"
    using step.hyps(2) yz section_step_turn by blast
  moreover have "lastBufferRead t = lastBufferRead (fst (snd x))"
    using step.IH yz by simp
  ultimately have turn: "lastBufferRead t' = lastBufferRead t" "lastBufferRead t = lastBufferRead (fst (snd x))"
    by simp_all
  have "put_current g (fst (snd x)) s = put_current g t s" for s
    using turn by (simp add: put_current_def)
  moreover have "task_step os now1 now2 res (put_current g t sl, t, pc) (put_current g t sl', t', pc')"
    using step.hyps(2) yz turn assms(2) by (auto intro!: section_step_task_step)
  ultimately show ?case
    using step.IH yz turn by (auto intro: rtranclp.rtrancl_into_rtrancl)
qed

text \<open>The drain loop is a run of read steps.\<close>

lemma drain_loop_section_run:
  assumes "drain_loop is_full read_from_buffer (\<lambda>t x. put_word (htonl x) t) (rb, t) = Some (rb', t')"
  shows "(section_step os)\<^sup>*\<^sup>* (sl\<lparr>ringbuffer := Some rb\<rparr>, t, At_drain)
    (sl\<lparr>ringbuffer := Some rb'\<rparr>, t', At_give)"
proof -
  let ?c = "\<lambda>(b, s). do { (x, b') \<leftarrow> read_from_buffer b; s' \<leftarrow> put_word (htonl x) s; Some (b', s') }"
  let ?R = "\<lambda>p q. (section_step os)\<^sup>*\<^sup>* (sl\<lparr>ringbuffer := Some (fst p)\<rparr>, snd p, At_drain)
      (sl\<lparr>ringbuffer := Some (fst q)\<rparr>, snd q, At_give)"
  have "c_while (\<lambda>(b, s). is_full b) ?c (rb, t) = Some (rb', t')"
    using assms by (simp add: drain_loop_def)
  then have "?R (rb, t) (rb', t')"
  proof (induction rule: c_while_induct)
    case (stop s)
    then have "section_step os (sl\<lparr>ringbuffer := Some (fst s)\<rparr>, snd s, At_drain)
        (sl\<lparr>ringbuffer := Some (fst s)\<rparr>, snd s, At_give)"
      by (auto simp: section_step_def)
    then show ?case by blast
  next
    case (step s s' q)
    then have "section_step os (sl\<lparr>ringbuffer := Some (fst s)\<rparr>, snd s, At_drain)
        (sl\<lparr>ringbuffer := Some (fst s')\<rparr>, snd s', At_drain)"
      by (auto simp: section_step_def bind_eq_Some_conv)
    with step show ?case
      by (auto intro: converse_rtranclp_into_rtranclp)
  qed
  then show ?thesis by simp
qed

context mutex_contract
begin

lemma section_run:
  assumes "ringbuffer sl = Some rb" "available (ringbuffer_mutex sl)" "read_slot rb t = Some (rb', t')"
  shows "\<exists>m. \<not> available m \<and> (section_step os)\<^sup>*\<^sup>* (sl, t, At_take)
    (sl\<lparr>ringbuffer_mutex := m, ringbuffer := Some rb'\<rparr>, t', At_give)"
proof -
  obtain m where m: "xSemaphoreTake os (ringbuffer_mutex sl) = Some m" "\<not> available m"
    using take_available [OF assms(2)] by auto
  let ?sl = "sl\<lparr>ringbuffer_mutex := m, ringbuffer := Some rb\<rparr>"
  have take: "section_step os (sl, t, At_take) (?sl, t, At_check)"
    using m assms(1) by (simp add: section_step_def)
  have "(section_step os)\<^sup>*\<^sup>* (?sl, t, At_check) (sl\<lparr>ringbuffer_mutex := m, ringbuffer := Some rb'\<rparr>, t', At_give)"
  proof (cases "is_full rb")
    case True
    then obtain t1 where t1: "put_header rb t = Some t1"
        "drain_loop is_full read_from_buffer (\<lambda>t x. put_word (htonl x) t) (rb, t1) = Some (rb', t')"
      using assms(3) by (auto simp: read_slot_def bind_eq_Some_conv)
    have "section_step os (?sl, t, At_check) (?sl, t1, At_drain)"
      using True t1(1) by (simp add: section_step_def)
    with drain_loop_section_run [OF t1(2), of os "sl\<lparr>ringbuffer_mutex := m\<rparr>"] show ?thesis
      by (auto intro: converse_rtranclp_into_rtranclp)
  next
    case False
    with assms(3) show ?thesis
      by (auto simp: section_step_def read_slot_not_full)
  qed
  with take m(2) show ?thesis
    by (blast intro: converse_rtranclp_into_rtranclp)
qed

lemma slot_turn_run:
  assumes "lastBufferRead t = i" "i \<in> {1, 2}" "ringbuffer (current_slot g t) = Some rb"
    "available (ringbuffer_mutex (current_slot g t))" "read_slot rb t = Some (rb', t')"
  shows "\<exists>m. available m \<and> (task_step os now1 now2 res)\<^sup>*\<^sup>* (g, t, At_take)
    (put_current g t ((current_slot g t)\<lparr>ringbuffer_mutex := m, ringbuffer := Some rb'\<rparr>),
     if i = 2 then t'\<lparr>lastBufferRead := 1\<rparr> else t'\<lparr>lastBufferRead := 2, counter := 0\<rparr>,
     if i = 2 then At_take else At_send)"
proof -
  let ?sl = "current_slot g t"
  obtain m where m: "\<not> available m" "(section_step os)\<^sup>*\<^sup>* (?sl, t, At_take)
      (?sl\<lparr>ringbuffer_mutex := m, ringbuffer := Some rb'\<rparr>, t', At_give)"
    using section_run [OF assms(3-5)] by auto
  let ?sl' = "?sl\<lparr>ringbuffer_mutex := m, ringbuffer := Some rb'\<rparr>"
  let ?sl2 = "?sl\<lparr>ringbuffer_mutex := xSemaphoreGive os m, ringbuffer := Some rb'\<rparr>"
  have same: "put_current g t ?sl = g"
    by (simp add: put_current_def current_slot_def)
  have run: "(task_step os now1 now2 res)\<^sup>*\<^sup>* (g, t, At_take) (put_current g t ?sl', t', At_give)"
      "lastBufferRead t' = i"
    using section_run_task_run [OF m(2), of now1 now2 res g] assms(1,2) same by auto
  have "task_step os now1 now2 res (put_current g t ?sl', t', At_give)
     (put_current g t ?sl2,
      if i = 2 then t'\<lparr>lastBufferRead := 1\<rparr> else t'\<lparr>lastBufferRead := 2, counter := 0\<rparr>,
      if i = 2 then At_take else At_send)"
    using run(2) assms(1,2) by (auto simp: task_step_def send_task_step_def put_current_def)
  with run(1) give_available [OF m(1)] show ?thesis
    by (blast intro: rtranclp.rtrancl_into_rtrancl)
qed

lemma pass_run:
  assumes "ringbuffer (slot1 g) = Some rb1" "available (ringbuffer_mutex (slot1 g))"
    "ringbuffer (slot2 g) = Some rb2" "available (ringbuffer_mutex (slot2 g))"
    "lastBufferRead t = 2" "send_pass now1 now2 res rb1 rb2 t = Some (rb1', rb2', t')"
  shows "\<exists>g'. (task_step os now1 now2 res)\<^sup>*\<^sup>* (g, t, At_take) (g', t', At_take) \<and>
    ringbuffer (slot1 g') = Some rb1' \<and> available (ringbuffer_mutex (slot1 g')) \<and>
    ringbuffer (slot2 g') = Some rb2' \<and> available (ringbuffer_mutex (slot2 g'))"
proof -
  obtain t1 t2 where s: "read_slot rb1 t = Some (rb1', t1)"
      "read_slot rb2 (t1\<lparr>lastBufferRead := 1\<rparr>) = Some (rb2', t2)"
      "t' = send_datagram now1 now2 res (t2\<lparr>lastBufferRead := 2, counter := 0\<rparr>)"
    using assms(6) by (auto simp: send_pass_def bind_eq_Some_conv)
  obtain m1 where m1: "available m1" "(task_step os now1 now2 res)\<^sup>*\<^sup>* (g, t, At_take)
      (g\<lparr>slot1 := (slot1 g)\<lparr>ringbuffer_mutex := m1, ringbuffer := Some rb1'\<rparr>\<rparr>,
       t1\<lparr>lastBufferRead := 1\<rparr>, At_take)"
    using slot_turn_run [of t 2 g rb1 rb1' t1 now1 now2 res] assms s(1)
    by (auto simp: current_slot_def put_current_def)
  let ?g1 = "g\<lparr>slot1 := (slot1 g)\<lparr>ringbuffer_mutex := m1, ringbuffer := Some rb1'\<rparr>\<rparr>"
  let ?t1 = "t1\<lparr>lastBufferRead := 1\<rparr>"
  obtain m2 where m2: "available m2" "(task_step os now1 now2 res)\<^sup>*\<^sup>* (?g1, ?t1, At_take)
      (?g1\<lparr>slot2 := (slot2 g)\<lparr>ringbuffer_mutex := m2, ringbuffer := Some rb2'\<rparr>\<rparr>,
       t2\<lparr>lastBufferRead := 2, counter := 0\<rparr>, At_send)"
    using slot_turn_run [of ?t1 1 ?g1 rb2 rb2' t2 now1 now2 res] assms s(2)
    by (auto simp: current_slot_def put_current_def)
  have "task_step os now1 now2 res (x, t2\<lparr>lastBufferRead := 2, counter := 0\<rparr>, At_send) (x, t', At_take)" for x
    using s(3) by (simp add: task_step_def send_task_step_def)
  with m1 m2 show ?thesis
    by (intro exI conjI) (auto intro: rtranclp.rtrancl_into_rtrancl rtranclp_trans)
qed

end

context mutex_contract
begin

lemma blocked_unblocks:
  assumes inv: "sys_inv available n (g, t, pc)"
    and blocked: "send_task_step os now1 now2 res (g, t, pc) = Some Blocked"
    and n: "2 \<le> n" and nows: "length nows = n - rb_count (slot_buffer (current_slot g t))"
  shows "nows \<noteq> [] \<and> (\<exists>g' st'. write_ticks os g nows = Some g' \<and>
    send_task_step os now1 now2 res (g', t, pc) = Some (Next st'))"
proof -
  have pc: "pc = At_take" "\<not> available (ringbuffer_mutex (current_slot g t))"
    using task_step_inv [OF inv, of now1 now2 res] n blocked by auto
  have turn: "lastBufferRead t \<in> {1, 2}" and written: "lastBufferWritten g \<in> {1, 2}"
    using inv by (auto simp: sys_inv_def task_inv_def)
  have held: "slot_held available n (testVar g) (current_slot g t)" "lastBufferWritten g = lastBufferRead t"
    using inv pc turn
    by (auto simp: sys_inv_def slot_inv_def inside_def current_slot_def slot_free_def split: if_splits)
  have slot: "current_slot g t = write_turn g"
    using held(2) turn by (auto simp: current_slot_def write_turn_def)
  have count: "rb_count (slot_buffer (write_turn g)) < n"
    using held(1) slot by (auto simp: slot_defs)
  then have ne: "nows \<noteq> []" using nows slot by auto
  obtain g' where g': "write_ticks os g nows = Some g'"
      "lastBufferWritten g' = swap_turn (lastBufferWritten g)" "slot_free available n (other_turn g')"
    using fill_held [OF written _ _ ne, of n] held(1) slot count nows by auto
  have "other_turn g' = current_slot g' t"
    using g'(2) held(2) turn by (auto simp: other_turn_def current_slot_def swap_turn_def)
  then have "available (ringbuffer_mutex (current_slot g' t))"
    using g'(3) by (simp add: slot_free_def)
  then obtain m where "xSemaphoreTake os (ringbuffer_mutex (current_slot g' t)) = Some m"
    using take_available by blast
  then show ?thesis
    using ne g'(1) pc(1) turn by (auto simp: send_task_step_def current_slot_def)
qed

end

section \<open>Started systems\<close>

text \<open>The start of the system, from what \<open>init_buffer\<close> and the mutexes return in \<open>app_main\<close>.\<close>

definition started ::
  "('m \<Rightarrow> bool) \<Rightarrow> u32 \<Rightarrow> 'm sampler \<Rightarrow> sender \<Rightarrow> bool" where
  "started available sz g t \<longleftrightarrow> 2 \<le> unat sz \<and> unat sz < 2 ^ 30 \<and> start_sender (unat sz) t \<and>
     (\<exists>m1 m2 rb1 rb2 mp. available m1 \<and> available m2 \<and> g = start_sampler m1 m2 rb1 rb2 mp \<and>
        (\<exists>mem ok junk live. init_buffer mem ok junk sz = (Some rb1, live)) \<and>
        (\<exists>mem ok junk live. init_buffer mem ok junk sz = (Some rb2, live)))"

lemma started_sys_inv:
  assumes "started available sz g t"
  shows "sys_inv available (unat sz) (g, t, At_take)"
proof -
  obtain m1 m2 rb1 rb2 mp mem1 ok1 junk1 live1 mem2 ok2 junk2 live2 where
      s: "available m1" "available m2" "g = start_sampler m1 m2 rb1 rb2 mp"
      "init_buffer mem1 ok1 junk1 sz = (Some rb1, live1)" "init_buffer mem2 ok2 junk2 sz = (Some rb2, live2)"
      "2 \<le> unat sz" "unat sz < 2 ^ 30" "start_sender (unat sz) t"
    using assms by (auto simp: started_def)
  then have "sz \<noteq> 0" by auto
  with s show ?thesis
    by (auto intro!: sys_inv_start simp: init_buffer_fresh [OF s(4)] init_buffer_fresh [OF s(5)])
qed

lemma started_reachable_inv:
  assumes "mutex_contract os available" "started available sz g t" "reachable os (g, t, At_take) st"
  shows "sys_inv available (unat sz) st \<and> sensorID (fst (snd st)) = sensorID t"
  using mutex_contract.sys_inv_reachable [OF assms(1,3) started_sys_inv [OF assms(2)]] assms(2)
  by (simp add: started_def)

section \<open>Concrete runs\<close>

datatype sys_event = Tick timeval | Task timeval timeval "int \<times> u64"

fun sys_exec :: "'m mutex_ops \<Rightarrow> 'm system \<Rightarrow> sys_event \<Rightarrow> 'm system option" where
  "sys_exec os (g, t, pc) (Tick now) = map_option (\<lambda>(y, g'). (g', t, pc)) (write_task os now g)"
| "sys_exec os (g, t, pc) (Task now1 now2 res) =
    (case send_task_step os now1 now2 res (g, t, pc) of Some (Next st') \<Rightarrow> Some st' | _ \<Rightarrow> None)"

lemma sys_exec_step: "sys_exec os st e = Some st' \<Longrightarrow> sys_step os st st'"
  by (cases "(os, st, e)" rule: sys_exec.cases)
    (auto intro: sys_step.intros split: option.splits task_result.splits)

lemma sys_exec_reachable:
  "reachable os st0 st \<Longrightarrow> m_fold (sys_exec os) st evs = Some st' \<Longrightarrow> reachable os st0 st'"
proof (induction evs arbitrary: st)
  case Nil
  then show ?case by simp
next
  case (Cons e evs)
  then obtain st1 where "sys_exec os st e = Some st1" "m_fold (sys_exec os) st1 evs = Some st'"
    by (auto simp: bind_eq_Some_conv)
  with Cons.IH [of st1] Cons.prems(1) show ?case
    by (blast intro: reachable.step sys_exec_step)
qed

lemmas demo_defs = start_sampler_def start_slot_def two_cells_def small_sender_def clock_def

definition demo_sampler :: "bool sampler" where
  "demo_sampler = start_sampler True True two_cells two_cells (clock 0)"

definition demo_sender :: sender where
  "demo_sender = small_sender\<lparr>buffer_array := replicate 8 0\<rparr>"

lemma demo_started: "started (\<lambda>m. m) 2 demo_sampler demo_sender"
proof -
  have "init_buffer (Some two_cells) (\<lambda>_. True) (\<lambda>_. 0) 2 = (Some two_cells, 2)"
    by (simp add: init_buffer_def malloc_cells_def two_cells_def upt_rec)
  then show ?thesis
    unfolding started_def demo_sampler_def
    by (intro conjI exI) (auto simp: start_sender_def demo_sender_def small_sender_def)
qed

definition demo_run :: "sys_event list \<Rightarrow> bool system option" where
  "demo_run = m_fold (sys_exec flag_mutex) (demo_sampler, demo_sender, At_take)"

lemma demo_reachable: "demo_run evs = Some st \<Longrightarrow> reachable flag_mutex (demo_sampler, demo_sender, At_take) st"
  unfolding demo_run_def by (rule sys_exec_reachable [OF reachable.start])

text \<open>Four ticks fill both buffers; thirteen task steps copy and send them.\<close>

definition demo_ticks :: "nat \<Rightarrow> sys_event list" where
  "demo_ticks k = replicate k (Tick (clock 22))"

definition demo_task :: "nat \<Rightarrow> sys_event list" where
  "demo_task k = replicate k (Task (clock 50) (clock 60) (40, 7))"

lemma demo_sends:
  "case demo_run (demo_ticks 4 @ demo_task 13) of
     Some (g, t, pc) \<Rightarrow> map (map htonl) (datagrams t) = [[3, 22, 1, 2, 3, 22, 3, 4]] | None \<Rightarrow> False"
  by code_simp

lemma demo_inside:
  "case demo_run (demo_ticks 2 @ demo_task 2) of Some (g, t, pc) \<Rightarrow> pc = At_drain | None \<Rightarrow> False"
  by code_simp

lemma demo_blocked:
  "case demo_run (demo_ticks 1) of
     Some (g, t, pc) \<Rightarrow> send_task_step flag_mutex (clock 50) (clock 60) (40, 7) (g, t, pc) = Some Blocked \<and>
       rb_count (slot_buffer (current_slot g t)) = 1
   | None \<Rightarrow> False"
  by code_simp

section \<open>Properties\<close>

text \<open>C1: memory safety of the pipeline under every interleaving of the timer interrupt with the
  sending task. From the state \<open>app_main\<close> sets up, neither party can reach a null or
  out-of-bounds access (ring buffer cells, \<open>buffer_array[counter]\<close>).\<close>

theorem pipeline_memory_safe:
  assumes "mutex_contract os available" "started available sz g t" "reachable os (g, t, At_take) st"
  shows "\<not> sys_fault os st"
  using mutex_contract.sys_inv_no_fault [OF assms(1), of "unat sz" st] started_reachable_inv [OF assms] assms(2)
  by (simp add: started_def)

theorem pipeline_memory_safe_witness:
  "\<exists>st. demo_run (demo_ticks 4 @ demo_task 13) = Some st \<and> \<not> sys_fault flag_mutex st"
proof -
  obtain st where st: "demo_run (demo_ticks 4 @ demo_task 13) = Some st"
    using demo_sends by (auto split: option.splits)
  with pipeline_memory_safe [OF flag_mutex_contract demo_started demo_reachable [OF st]] show ?thesis
    by blast
qed

text \<open>C2: every array handed to \<open>sendto\<close>, under every interleaving, has the full length and
  consists of two blocks, each of them either still zero or the sensor id, a time and \<open>n\<close>
  consecutive samples in network byte order: no datagram mixes samples of different fills.\<close>

theorem datagrams_are_whole_blocks:
  assumes "mutex_contract os available" "started available sz g t"
    "reachable os (g, t, At_take) (g', t', pc')"
  shows "list_all (datagram_ok (unat sz) (sensorID t)) (datagrams t')"
  using started_reachable_inv [OF assms] by (auto simp: sys_inv_def task_inv_def)

theorem datagrams_are_whole_blocks_witness:
  "\<exists>g t pc. demo_run (demo_ticks 4 @ demo_task 13) = Some (g, t, pc) \<and>
    map (map htonl) (datagrams t) = [[3, 22, 1, 2, 3, 22, 3, 4]] \<and> list_all (datagram_ok 2 3) (datagrams t)"
proof -
  obtain g t pc where st: "demo_run (demo_ticks 4 @ demo_task 13) = Some (g, t, pc)"
      "map (map htonl) (datagrams t) = [[3, 22, 1, 2, 3, 22, 3, 4]]"
    using demo_sends by (auto split: option.splits)
  moreover have "sensorID demo_sender = 3"
    by (simp add: demo_sender_def small_sender_def)
  ultimately show ?thesis
    using datagrams_are_whole_blocks [OF flag_mutex_contract demo_started demo_reachable [OF st(1)]] by simp
qed

text \<open>C3: mutual exclusion. While the task is between taking a buffer's mutex and giving it back,
  the interrupt does not hold that buffer and a tick leaves the buffer unchanged.\<close>

theorem buffers_mutually_exclusive:
  assumes "mutex_contract os available" "started available sz g t"
    "reachable os (g, t, At_take) (g', t', pc')" "pc' \<in> {At_check, At_drain, At_give}"
  shows "\<not> MutexHolder (current_slot g' t') \<and>
    (\<exists>y g''. write_task os now g' = Some (y, g'') \<and>
       ringbuffer (current_slot g'' t') = ringbuffer (current_slot g' t'))"
proof -
  have inv: "sys_inv available (unat sz) (g', t', pc')"
    using started_reachable_inv [OF assms(1-3)] by simp
  then have turn: "lastBufferRead t' \<in> {1, 2}" and w: "lastBufferWritten g' \<in> {1, 2}"
    by (auto simp: sys_inv_def task_inv_def)
  have taken: "slot_taken available (unat sz) (current_slot g' t')"
    using inv turn assms(4) by (auto simp: sys_inv_def slot_inv_def inside_def current_slot_def)
  have n: "2 \<le> unat sz" using assms(2) by (simp add: started_def)
  have si: "slot_inv available (unat sz) (testVar g') True
      (lastBufferRead t' = lastBufferWritten g') (write_turn g')"
    using inv turn w assms(4)
    by (auto simp: sys_inv_def inside_def write_turn_def split: if_splits)
  obtain sl' isr' mp' sw where
      ws: "write_slot os now (next_sample (testVar g')) (write_turn g') False (measuringPoint g') =
        Some (sl', isr', mp', sw)"
      "lastBufferRead t' = lastBufferWritten g' \<longrightarrow> ringbuffer sl' = ringbuffer (write_turn g')"
    using mutex_contract.write_slot_inv [OF assms(1) si n, of now False "measuringPoint g'"] by auto
  from write_task_slot [OF w ws(1)] ws(2) turn w taken show ?thesis
    by (auto simp: current_slot_def write_turn_def slot_taken_def split: if_splits)
qed

theorem buffers_mutually_exclusive_witness:
  "\<exists>g t pc. demo_run (demo_ticks 2 @ demo_task 2) = Some (g, t, pc) \<and> pc = At_drain \<and>
    \<not> MutexHolder (current_slot g t)"
proof -
  obtain g t pc where st: "demo_run (demo_ticks 2 @ demo_task 2) = Some (g, t, pc)" "pc = At_drain"
    using demo_inside by (auto split: option.splits)
  then show ?thesis
    using buffers_mutually_exclusive [OF flag_mutex_contract demo_started demo_reachable [OF st(1)], of "clock 22"]
    by simp
qed

text \<open>C4: the task never waits for ever. Whenever it is blocked, the interrupt is filling that
  very buffer, and after as many ticks as the buffer has free cells the task can go on.\<close>

theorem task_wait_is_bounded:
  assumes "mutex_contract os available" "started available sz g t"
    "reachable os (g, t, At_take) (g', t', pc')"
    "send_task_step os now1 now2 res (g', t', pc') = Some Blocked"
    "length nows = unat sz - rb_count (slot_buffer (current_slot g' t'))"
  shows "nows \<noteq> [] \<and> (\<exists>g'' st''. write_ticks os g' nows = Some g'' \<and>
    send_task_step os now1 now2 res (g'', t', pc') = Some (Next st''))"
  using mutex_contract.blocked_unblocks [OF assms(1) _ assms(4) _ assms(5)]
    started_reachable_inv [OF assms(1-3)] assms(2)
  by (simp add: started_def)

theorem task_wait_is_bounded_witness:
  "\<exists>g t pc. demo_run (demo_ticks 1) = Some (g, t, pc) \<and>
    send_task_step flag_mutex (clock 50) (clock 60) (40, 7) (g, t, pc) = Some Blocked \<and>
    (\<exists>g' st'. write_ticks flag_mutex g [clock 44] = Some g' \<and>
       send_task_step flag_mutex (clock 50) (clock 60) (40, 7) (g', t, pc) = Some (Next st'))"
proof -
  obtain g t pc where st: "demo_run (demo_ticks 1) = Some (g, t, pc)"
      "send_task_step flag_mutex (clock 50) (clock 60) (40, 7) (g, t, pc) = Some Blocked"
      "rb_count (slot_buffer (current_slot g t)) = 1"
    using demo_blocked by (auto split: option.splits)
  then show ?thesis
    using task_wait_is_bounded [OF flag_mutex_contract demo_started demo_reachable [OF st(1)] st(2),
        of "[clock 44]"]
    by auto
qed

text \<open>the body of the endless loop of \<open>send_task_udp\<close>, read as one piece of sequential
  code, is a run of the task's atomic steps that ends before the next pass with both mutexes free.\<close>

theorem pass_refines_steps:
  assumes "mutex_contract os available"
    "ringbuffer (slot1 g) = Some rb1" "available (ringbuffer_mutex (slot1 g))"
    "ringbuffer (slot2 g) = Some rb2" "available (ringbuffer_mutex (slot2 g))"
    "lastBufferRead t = 2" "send_pass now1 now2 res rb1 rb2 t = Some (rb1', rb2', t')"
  shows "\<exists>g'. (task_step os now1 now2 res)\<^sup>*\<^sup>* (g, t, At_take) (g', t', At_take) \<and>
    ringbuffer (slot1 g') = Some rb1' \<and> available (ringbuffer_mutex (slot1 g')) \<and>
    ringbuffer (slot2 g') = Some rb2' \<and> available (ringbuffer_mutex (slot2 g'))"
  by (rule mutex_contract.pass_run [OF assms])

lemma demo_pass:
  "\<exists>rb1 t'. send_pass (clock 50) (clock 60) (40, 7) full_buffer sample_buffer small_sender =
     Some (rb1, sample_buffer, t')"
proof -
  have "rb_inv full_buffer" "is_full full_buffer" "rb_count full_buffer = rb_cap full_buffer"
      "counter small_sender + rb_cap full_buffer + 2 \<le> length (buffer_array small_sender)"
      "\<not> is_full sample_buffer"
    by (simp_all add: full_buffer_def rb_inv_def is_full_def rb_count_def small_sender_def sample_buffer_def)
  then show ?thesis
    using read_slot_full [of full_buffer small_sender] by (auto simp: send_pass_def read_slot_not_full)
qed

theorem pass_refines_steps_witness:
  "\<exists>g' t' rb1. (task_step flag_mutex (clock 50) (clock 60) (40, 7))\<^sup>*\<^sup>*
      (start_sampler True True full_buffer sample_buffer (clock 0), small_sender, At_take) (g', t', At_take) \<and>
    send_pass (clock 50) (clock 60) (40, 7) full_buffer sample_buffer small_sender = Some (rb1, sample_buffer, t') \<and>
    ringbuffer (slot1 g') = Some rb1"
proof -
  let ?g = "start_sampler True True full_buffer sample_buffer (clock 0)"
  obtain rb1 t' where p: "send_pass (clock 50) (clock 60) (40, 7) full_buffer sample_buffer small_sender =
      Some (rb1, sample_buffer, t')"
    using demo_pass by auto
  have "ringbuffer (slot1 ?g) = Some full_buffer" "ringbuffer_mutex (slot1 ?g)"
      "ringbuffer (slot2 ?g) = Some sample_buffer" "ringbuffer_mutex (slot2 ?g)" "lastBufferRead small_sender = 2"
    by (simp_all add: start_sampler_def start_slot_def small_sender_def)
  from pass_refines_steps [OF flag_mutex_contract this p] p show ?thesis by blast
qed

end
