(* ===== verification/Esp_Idf.thy ===== *)
theory Esp_Idf
  imports Rtos
begin

text \<open>
  The socket addresses and the ESP-IDF result codes that \<open>src/main/\<close> shares between its
  files. lwIP and the driver libraries are not part of the repository: what a call returns is
  a parameter of the definition that makes it.
\<close>

text \<open>\<open>struct sockaddr_in\<close>; port and address hold their bytes in network order.\<close>

record sockaddr_in =
  sin_family :: u8
  sin_port :: u16
  s_addr :: u32

definition AF_INET :: u8 where "AF_INET = 2"

definition INADDR_ANY :: u32 where "INADDR_ANY = 0"

section \<open>Configuration (configuration.h)\<close>

text \<open>The repository ships placeholders for the addresses and the access point.\<close>

definition ESP_WIFI_SSID :: string where "ESP_WIFI_SSID = ''XXXXX''"
definition ESP_WIFI_PASS :: string where "ESP_WIFI_PASS = ''XXXXX''"
definition COAP_SERVERADDRESS :: string where "COAP_SERVERADDRESS = ''XX.XX.XX.XX''"
definition COAP_PORT :: u16 where "COAP_PORT = 5683"
definition LOCALHOST_ADDRESS :: string where "LOCALHOST_ADDRESS = ''XX.XX.XX.XX''"
definition LOCALHOST_PORT :: u16 where "LOCALHOST_PORT = 50000"
definition SETTINGS_PORT :: u16 where "SETTINGS_PORT = 51234"

section \<open>Result codes\<close>

text \<open>
  \<open>esp_err_t\<close>: \<open>ESP_OK\<close> is 0. \<open>ESP_ERROR_CHECK\<close> of any other code prints it and
  aborts the program, which is the value \<open>None\<close> of a run.
\<close>

type_synonym esp_err = int

definition ESP_OK :: esp_err where "ESP_OK = 0"
definition ESP_ERR_NO_MEM :: esp_err where "ESP_ERR_NO_MEM = 0x101"
definition ESP_ERR_INVALID_ARG :: esp_err where "ESP_ERR_INVALID_ARG = 0x102"
definition ESP_ERR_INVALID_STATE :: esp_err where "ESP_ERR_INVALID_STATE = 0x103"
definition ESP_ERR_NOT_SUPPORTED :: esp_err where "ESP_ERR_NOT_SUPPORTED = 0x106"

lemmas esp_err_defs = ESP_OK_def ESP_ERR_NO_MEM_def ESP_ERR_INVALID_ARG_def ESP_ERR_INVALID_STATE_def
  ESP_ERR_NOT_SUPPORTED_def

definition ESP_ERROR_CHECK :: "esp_err \<Rightarrow> unit option" where
  "ESP_ERROR_CHECK err = c_assert (err = ESP_OK)"

lemma ESP_ERROR_CHECK_iff [simp]: "ESP_ERROR_CHECK err = Some u \<longleftrightarrow> err = ESP_OK"
  by (simp add: ESP_ERROR_CHECK_def)

lemma ESP_ERROR_CHECK_OK [simp]: "ESP_ERROR_CHECK ESP_OK = Some ()"
  by (simp add: ESP_ERROR_CHECK_def)

end
