(* ===== verification/Led_Encoder.thy ===== *)
theory Led_Encoder
  imports Esp_Idf
begin

unbundle bit_operations_syntax

text \<open>
  \<open>led_strip_rmt_encoder.c\<close> of the vendored \<open>led_strip\<close> component: the encoder that turns
  the pixel bytes into RMT symbols, a two-state machine on top of two encoders of ESP-IDF, its
  construction with the timing of the LED model, and its release.

  The ESP-IDF driver is a parameter: a record of its calls over an arbitrary driver state.
  Handles are numbers, \<open>None\<close> the null pointer.
\<close>

section \<open>Configuration\<close>

datatype led_model = LED_MODEL_WS2812 | LED_MODEL_SK6812 | LED_MODEL_INVALID

text \<open>The order of the enumerators, which the code compares with \<open><\<close>.\<close>

fun led_model_ord :: "led_model \<Rightarrow> nat" where
  "led_model_ord LED_MODEL_WS2812 = 0"
| "led_model_ord LED_MODEL_SK6812 = 1"
| "led_model_ord LED_MODEL_INVALID = 2"

lemma led_model_ord_inj: "led_model_ord a = led_model_ord b \<Longrightarrow> a = b"
  by (cases a; cases b) simp_all

instantiation led_model :: linorder
begin

definition less_eq_led_model :: "led_model \<Rightarrow> led_model \<Rightarrow> bool" where
  "less_eq_led_model a b \<longleftrightarrow> led_model_ord a \<le> led_model_ord b"

definition less_led_model :: "led_model \<Rightarrow> led_model \<Rightarrow> bool" where
  "less_led_model a b \<longleftrightarrow> led_model_ord a < led_model_ord b"

instance
  by standard (auto simp: less_eq_led_model_def less_led_model_def led_model_ord_inj)

end

lemma led_model_less_INVALID [simp]: "m < LED_MODEL_INVALID \<longleftrightarrow> m \<noteq> LED_MODEL_INVALID"
  by (cases m) (simp_all add: less_led_model_def)

text \<open>\<open>rmt_symbol_word_t\<close>: two levels with durations of 15 bits.\<close>

record rmt_symbol =
  duration0 :: nat
  level0 :: bool
  duration1 :: nat
  level1 :: bool

record rmt_bytes_encoder_config =
  bit0 :: rmt_symbol
  bit1 :: rmt_symbol
  msb_first :: bool

text \<open>
  The durations are computed in \<open>double\<close>: \<open>0.3 * resolution / 1000000\<close>. A positive double
  is \<open>m * 2 ^ k\<close> with a mantissa of 53 bits; \<open>round_ratio\<close> rounds \<open>n / d\<close> to one (ties to
  even) and \<open>tenths_times_resolution\<close> is the product, the quotient and the final truncation.
\<close>

fun bit_len :: "nat \<Rightarrow> nat" where
  "bit_len n = (if n = 0 then 0 else Suc (bit_len (n div 2)))"

declare bit_len.simps [simp del]

definition round_even :: "nat \<Rightarrow> nat \<Rightarrow> nat" where
  "round_even n d = (let q = n div d; r = n mod d in if 2 * r < d \<or> 2 * r = d \<and> even q then q else q + 1)"

definition round_ratio :: "nat \<Rightarrow> nat \<Rightarrow> nat \<times> int" where
  "round_ratio n d =
     (let s0 = int (bit_len n) - int (bit_len d) - 53;
          s = (if n * 2 ^ nat (- (s0 + 53)) \<ge> d * 2 ^ nat (s0 + 53) then s0 + 1 else s0)
      in (if n = 0 then (0, 0) else (round_even (n * 2 ^ nat (- s)) (d * 2 ^ nat s), s)))"

definition double_trunc :: "nat \<times> int \<Rightarrow> nat" where
  "double_trunc = (\<lambda>(m, k). m * 2 ^ nat k div 2 ^ nat (- k))"

definition ticks :: "nat \<Rightarrow> u32 \<Rightarrow> nat" where
  "ticks tenths resolution =
     (let (a, i) = round_ratio tenths 10;
          (b, j) = round_ratio (a * unat resolution) (2 ^ nat (- i));
          q = round_ratio (b * 2 ^ nat j) (1000000 * 2 ^ nat (- j))
      in double_trunc q)"

lemma bit_len_small [simp]: "bit_len 0 = 0" "bit_len (Suc 0) = 1"
  by (simp_all add: bit_len.simps)

lemma bit_len_numeral [simp]:
  "bit_len (numeral (Num.Bit0 k)) = Suc (bit_len (numeral k))"
  "bit_len (numeral (Num.Bit1 k)) = Suc (bit_len (numeral k))"
  by (simp_all add: bit_len.simps [of "numeral (Num.Bit0 k)"] bit_len.simps [of "numeral (Num.Bit1 k)"])

section \<open>The driver\<close>

text \<open>
  The calls of ESP-IDF and of the allocator, on a driver state \<open>'d\<close>. A constructor returns
  its error code and the handle it stored; an \<open>encode\<close> returns the number of symbols written
  and the session flags.
\<close>

record rmt_tx_channel_config =
  chan_clk_src :: nat
  chan_gpio_num :: int
  chan_mem_block_symbols :: nat
  chan_resolution_hz :: u32
  trans_queue_depth :: nat
  chan_with_dma :: bool
  chan_invert_out :: bool

record led_encoder =
  bytes_encoder :: "nat option"
  copy_encoder :: "nat option"
  enc_state :: int
  reset_code :: rmt_symbol

record 'd rmt_driver =
  calloc :: "nat \<Rightarrow> 'd \<Rightarrow> bool \<times> 'd"
  free_mem :: "'d \<Rightarrow> 'd"
  rmt_new_tx_channel :: "rmt_tx_channel_config \<Rightarrow> 'd \<Rightarrow> (esp_err \<times> nat option) \<times> 'd"
  rmt_enable :: "nat \<Rightarrow> 'd \<Rightarrow> esp_err \<times> 'd"
  rmt_transmit :: "nat \<Rightarrow> led_encoder \<Rightarrow> bytes \<Rightarrow> 'd \<Rightarrow> esp_err \<times> 'd"
  rmt_tx_wait_all_done :: "nat \<Rightarrow> 'd \<Rightarrow> esp_err \<times> 'd"
  rmt_disable :: "nat \<Rightarrow> 'd \<Rightarrow> esp_err \<times> 'd"
  rmt_del_channel :: "nat \<Rightarrow> 'd \<Rightarrow> esp_err \<times> 'd"
  rmt_new_bytes_encoder :: "rmt_bytes_encoder_config \<Rightarrow> 'd \<Rightarrow> (esp_err \<times> nat option) \<times> 'd"
  rmt_new_copy_encoder :: "'d \<Rightarrow> (esp_err \<times> nat option) \<times> 'd"
  rmt_del_encoder :: "nat \<Rightarrow> 'd \<Rightarrow> esp_err \<times> 'd"
  rmt_encoder_reset :: "nat \<Rightarrow> 'd \<Rightarrow> esp_err \<times> 'd"
  encode_bytes :: "nat \<Rightarrow> bytes \<Rightarrow> 'd \<Rightarrow> (nat \<times> u32) \<times> 'd"
  encode_copy :: "nat \<Rightarrow> rmt_symbol \<Rightarrow> 'd \<Rightarrow> (nat \<times> u32) \<times> 'd"

section \<open>Encoding\<close>

definition RMT_ENCODING_COMPLETE :: u32 where "RMT_ENCODING_COMPLETE = 1"
definition RMT_ENCODING_MEM_FULL :: u32 where "RMT_ENCODING_MEM_FULL = 2"

lemmas encoding_defs = RMT_ENCODING_COMPLETE_def RMT_ENCODING_MEM_FULL_def

text \<open>\<open>case 1\<close> of the switch: the reset code behind the pixels.\<close>

definition encode_reset ::
  "'d rmt_driver \<Rightarrow> led_encoder \<Rightarrow> nat \<Rightarrow> 'd \<Rightarrow> (nat \<times> u32 \<times> led_encoder \<times> 'd) option" where
  "encode_reset drv enc encoded_symbols d = do {
     h \<leftarrow> copy_encoder enc;
     let ((k, session_state), d) = encode_copy drv h (reset_code enc) d;
     let complete = (session_state AND RMT_ENCODING_COMPLETE \<noteq> 0);
     let state = (if complete then RMT_ENCODING_COMPLETE else 0);
     let state = (if session_state AND RMT_ENCODING_MEM_FULL \<noteq> 0 then state OR RMT_ENCODING_MEM_FULL else state);
     Some (encoded_symbols + k, state, (if complete then enc\<lparr>enc_state := 0\<rparr> else enc), d)
   }"

definition rmt_encode_led_strip ::
  "'d rmt_driver \<Rightarrow> led_encoder \<Rightarrow> bytes \<Rightarrow> 'd \<Rightarrow> (nat \<times> u32 \<times> led_encoder \<times> 'd) option" where
  "rmt_encode_led_strip drv enc data d =
     (if enc_state enc = 0 then do {
        h \<leftarrow> bytes_encoder enc;
        let ((k, session_state), d) = encode_bytes drv h data d;
        let enc = (if session_state AND RMT_ENCODING_COMPLETE \<noteq> 0 then enc\<lparr>enc_state := 1\<rparr> else enc);
        if session_state AND RMT_ENCODING_MEM_FULL \<noteq> 0 then Some (k, RMT_ENCODING_MEM_FULL, enc, d)
        else encode_reset drv enc k d
      }
      else if enc_state enc = 1 then encode_reset drv enc 0 d
      else Some (0, 0, enc, d))"

definition rmt_led_strip_encoder_reset :: "'d rmt_driver \<Rightarrow> led_encoder \<Rightarrow> 'd \<Rightarrow> (esp_err \<times> led_encoder \<times> 'd) option" where
  "rmt_led_strip_encoder_reset drv enc d = do {
     b \<leftarrow> bytes_encoder enc;
     c \<leftarrow> copy_encoder enc;
     let (_, d) = rmt_encoder_reset drv b d;
     let (_, d) = rmt_encoder_reset drv c d;
     Some (ESP_OK, enc\<lparr>enc_state := 0\<rparr>, d)
   }"

section \<open>Construction and release\<close>

definition rmt_del_led_strip_encoder :: "'d rmt_driver \<Rightarrow> led_encoder \<Rightarrow> 'd \<Rightarrow> (esp_err \<times> 'd) option" where
  "rmt_del_led_strip_encoder drv enc d = do {
     b \<leftarrow> bytes_encoder enc;
     c \<leftarrow> copy_encoder enc;
     let (_, d) = rmt_del_encoder drv b d;
     let (_, d) = rmt_del_encoder drv c d;
     Some (ESP_OK, free_mem drv d)
   }"

text \<open>A symbol that is high for \<open>high\<close> tenths of a microsecond and low for \<open>low\<close>.\<close>

definition pulse :: "u32 \<Rightarrow> nat \<Rightarrow> nat \<Rightarrow> rmt_symbol" where
  "pulse resolution high low = \<lparr>duration0 = ticks high resolution, level0 = True,
     duration1 = ticks low resolution, level1 = False\<rparr>"

text \<open>\<open>None\<close> is the failing \<open>assert(false)\<close>.\<close>

fun bytes_timing :: "u32 \<Rightarrow> led_model \<Rightarrow> rmt_bytes_encoder_config option" where
  "bytes_timing resolution LED_MODEL_SK6812 =
     Some \<lparr>bit0 = pulse resolution 3 9, bit1 = pulse resolution 6 6, msb_first = True\<rparr>"
| "bytes_timing resolution LED_MODEL_WS2812 =
     Some \<lparr>bit0 = pulse resolution 3 9, bit1 = pulse resolution 9 3, msb_first = True\<rparr>"
| "bytes_timing resolution LED_MODEL_INVALID = None"

record led_strip_encoder_config =
  resolution :: u32
  enc_led_model :: led_model

text \<open>The zeroed block of \<open>calloc\<close>, and the error exit.\<close>

definition zero_symbol :: rmt_symbol where
  "zero_symbol = \<lparr>duration0 = 0, level0 = False, duration1 = 0, level1 = False\<rparr>"

definition zero_encoder :: led_encoder where
  "zero_encoder = \<lparr>bytes_encoder = None, copy_encoder = None, enc_state = 0, reset_code = zero_symbol\<rparr>"

definition new_encoder_err :: "'d rmt_driver \<Rightarrow> led_encoder \<Rightarrow> 'd \<Rightarrow> 'd" where
  "new_encoder_err drv enc d =
     (let d = (case bytes_encoder enc of Some h \<Rightarrow> snd (rmt_del_encoder drv h d) | None \<Rightarrow> d);
          d = (case copy_encoder enc of Some h \<Rightarrow> snd (rmt_del_encoder drv h d) | None \<Rightarrow> d)
      in free_mem drv d)"

text \<open>The durations of the reset code are 15-bit fields.\<close>

definition reset_symbol :: "u32 \<Rightarrow> rmt_symbol" where
  "reset_symbol res =
     (let reset_ticks = res div 1000000 * 50 div 2
      in \<lparr>duration0 = unat (take_bit 15 reset_ticks), level0 = False,
          duration1 = unat (take_bit 15 reset_ticks), level1 = False\<rparr>)"

definition rmt_new_led_strip_encoder ::
  "'d rmt_driver \<Rightarrow> led_strip_encoder_config option \<Rightarrow> 'd \<Rightarrow> (esp_err \<times> led_encoder option \<times> 'd) option" where
  "rmt_new_led_strip_encoder drv config d =
     (case config of
        None \<Rightarrow> Some (ESP_ERR_INVALID_ARG, None, d)
      | Some config \<Rightarrow>
          if \<not> enc_led_model config < LED_MODEL_INVALID then Some (ESP_ERR_INVALID_ARG, None, d)
          else (let (ok, d) = calloc drv 28 d in
            if \<not> ok then Some (ESP_ERR_NO_MEM, None, d)
            else do {
              bytes_encoder_config \<leftarrow> bytes_timing (resolution config) (enc_led_model config);
              let ((ret, b), d) = rmt_new_bytes_encoder drv bytes_encoder_config d;
              let enc = zero_encoder\<lparr>bytes_encoder := b\<rparr>;
              if ret \<noteq> ESP_OK then Some (ret, None, new_encoder_err drv enc d)
              else do {
                let ((ret, c), d) = rmt_new_copy_encoder drv d;
                let enc = enc\<lparr>copy_encoder := c\<rparr>;
                if ret \<noteq> ESP_OK then Some (ret, None, new_encoder_err drv enc d)
                else Some (ESP_OK, Some (enc\<lparr>reset_code := reset_symbol (resolution config)\<rparr>), d)
              }
            }))"

section \<open>The symbols of a frame\<close>

text \<open>
  What ESP-IDF documents of its two encoders. The bytes encoder writes the symbols of the data in
  order, at every call as many as the channel memory takes, and remembers its place; \<open>out\<close> is
  what has been written, \<open>place\<close> how much of the current data. The copy encoder writes its one
  symbol or finds the memory full. A call that does not complete reports the memory as full.
\<close>

definition byte_symbols :: "rmt_bytes_encoder_config \<Rightarrow> u8 \<Rightarrow> rmt_symbol list" where
  "byte_symbols cfg b = map (\<lambda>i. if bit b (if msb_first cfg then 7 - i else i) then bit1 cfg else bit0 cfg) [0..<8]"

definition data_symbols :: "rmt_bytes_encoder_config \<Rightarrow> bytes \<Rightarrow> rmt_symbol list" where
  "data_symbols cfg data = concat (map (byte_symbols cfg) data)"

abbreviation completed :: "u32 \<Rightarrow> bool" where
  "completed st \<equiv> st AND RMT_ENCODING_COMPLETE \<noteq> 0"

abbreviation mem_full :: "u32 \<Rightarrow> bool" where
  "mem_full st \<equiv> st AND RMT_ENCODING_MEM_FULL \<noteq> 0"

locale idf_encoders =
  fixes drv :: "'d rmt_driver"
    and cfg :: rmt_bytes_encoder_config
    and out :: "'d \<Rightarrow> rmt_symbol list"
    and place :: "'d \<Rightarrow> nat"
  assumes bytes_law: "encode_bytes drv h data d = ((k, st), d') \<Longrightarrow> place d \<le> length (data_symbols cfg data) \<Longrightarrow>
      place d + k \<le> length (data_symbols cfg data) \<and>
      out d' = out d @ take k (drop (place d) (data_symbols cfg data)) \<and>
      (completed st \<longleftrightarrow> place d + k = length (data_symbols cfg data)) \<and>
      place d' = (if completed st then 0 else place d + k) \<and> (completed st \<or> mem_full st)"
    and copy_law: "encode_copy drv h s d = ((k, st), d') \<Longrightarrow>
      place d' = place d \<and> (completed st \<or> mem_full st) \<and>
      (if completed st then k = 1 \<and> out d' = out d @ [s] else k = 0 \<and> out d' = out d)"

text \<open>The calls the channel makes until one of them reports the frame as complete.\<close>

inductive encode_calls :: "'d rmt_driver \<Rightarrow> bytes \<Rightarrow> led_encoder \<times> 'd \<Rightarrow> led_encoder \<times> 'd \<Rightarrow> bool"
  for drv data st0 where
  start: "encode_calls drv data st0 st0"
| again: "encode_calls drv data st0 (enc, d) \<Longrightarrow>
    rmt_encode_led_strip drv enc data d = Some (n, st, enc', d') \<Longrightarrow> \<not> completed st \<Longrightarrow>
    encode_calls drv data st0 (enc', d')"

inductive_cases encode_callsE: "encode_calls drv data st0 (enc, d)"

text \<open>Between the calls: part of the pixels has been written, or all of them and not the reset code.\<close>

definition frame_inv :: "rmt_symbol list \<Rightarrow> rmt_symbol list \<Rightarrow> led_encoder \<Rightarrow> nat \<Rightarrow> rmt_symbol list \<Rightarrow> led_encoder \<Rightarrow> bool" where
  "frame_inv before syms enc0 pos written enc \<longleftrightarrow>
     bytes_encoder enc = bytes_encoder enc0 \<and> copy_encoder enc = copy_encoder enc0 \<and> reset_code enc = reset_code enc0 \<and>
     (enc_state enc = 0 \<and> pos \<le> length syms \<and> written = before @ take pos syms \<or>
      enc_state enc = 1 \<and> pos = 0 \<and> written = before @ syms)"

context idf_encoders
begin

lemma encode_reset_frame:
  assumes "enc_state enc = 1" "place d = 0" "out d = before @ syms" "copy_encoder enc = Some c"
  shows "\<exists>n st enc' d'. encode_reset drv enc k d = Some (n, st, enc', d') \<and>
    (if completed st then enc' = enc\<lparr>enc_state := 0\<rparr> \<and> place d' = 0 \<and> out d' = before @ syms @ [reset_code enc]
     else mem_full st \<and> enc' = enc \<and> place d' = 0 \<and> out d' = before @ syms)"
proof -
  obtain j ss d' where call: "encode_copy drv c (reset_code enc) d = ((j, ss), d')"
    by (metis surj_pair)
  from copy_law [OF call] show ?thesis
    using assms call by (cases "completed ss") (auto simp: encode_reset_def encoding_defs bit_simps)
qed

lemma encode_call_frame:
  assumes inv: "frame_inv before (data_symbols cfg data) enc0 (place d) (out d) enc"
    and h: "bytes_encoder enc0 = Some b" "copy_encoder enc0 = Some c"
  shows "\<exists>n st enc' d'. rmt_encode_led_strip drv enc data d = Some (n, st, enc', d') \<and>
    (if completed st then enc' = enc\<lparr>enc_state := 0\<rparr> \<and> place d' = 0 \<and>
        out d' = before @ data_symbols cfg data @ [reset_code enc0]
     else mem_full st \<and> frame_inv before (data_symbols cfg data) enc0 (place d') (out d') enc')"
proof (cases "enc_state enc = 1")
  case True
  then have "place d = 0" "out d = before @ data_symbols cfg data" "copy_encoder enc = Some c"
    and enc: "reset_code enc = reset_code enc0" "bytes_encoder enc = bytes_encoder enc0" "copy_encoder enc = copy_encoder enc0"
    using inv h by (auto simp: frame_inv_def)
  from encode_reset_frame [OF True this(1-3), of 0] obtain n st enc' d'
    where r: "encode_reset drv enc 0 d = Some (n, st, enc', d')"
      "if completed st then enc' = enc\<lparr>enc_state := 0\<rparr> \<and> place d' = 0 \<and> out d' = before @ data_symbols cfg data @ [reset_code enc]
       else mem_full st \<and> enc' = enc \<and> place d' = 0 \<and> out d' = before @ data_symbols cfg data"
    by blast
  then show ?thesis
    using True enc by (auto simp: rmt_encode_led_strip_def frame_inv_def split: if_splits)
next
  case False
  let ?syms = "data_symbols cfg data"
  have pos: "enc_state enc = 0" "place d \<le> length ?syms" "out d = before @ take (place d) ?syms"
    and enc: "reset_code enc = reset_code enc0" "bytes_encoder enc = Some b" "copy_encoder enc = Some c"
    using inv h False by (auto simp: frame_inv_def)
  obtain k ss d1 where call: "encode_bytes drv b data d = ((k, ss), d1)" by (metis surj_pair)
  note law = bytes_law [OF call pos(2)]
  have out1: "out d1 = before @ take (place d + k) ?syms"
    using law pos(3) by (simp add: take_add)
  let ?enc1 = "enc\<lparr>enc_state := 1\<rparr>"
  show ?thesis
  proof (cases "completed ss \<and> \<not> mem_full ss")
    case True
    then have "place d1 = 0" "out d1 = before @ ?syms" using law out1 by auto
    from encode_reset_frame [of ?enc1, OF _ this, of c k] enc obtain n st enc' d'
      where r: "encode_reset drv ?enc1 k d1 = Some (n, st, enc', d')"
        "if completed st then enc' = ?enc1\<lparr>enc_state := 0\<rparr> \<and> place d' = 0 \<and> out d' = before @ ?syms @ [reset_code ?enc1]
         else mem_full st \<and> enc' = ?enc1 \<and> place d' = 0 \<and> out d' = before @ ?syms"
      by auto
    have "rmt_encode_led_strip drv enc data d = Some (n, st, enc', d')"
      using True r(1) call enc pos(1) by (simp add: rmt_encode_led_strip_def)
    then show ?thesis
      using r(2) enc h by (auto simp: frame_inv_def split: if_splits)
  next
    case F: False
    then have full: "mem_full ss" using law by blast
    define enc' where "enc' = (if completed ss then ?enc1 else enc)"
    have "rmt_encode_led_strip drv enc data d = Some (k, RMT_ENCODING_MEM_FULL, enc', d1)"
      using full call enc pos(1) by (simp add: rmt_encode_led_strip_def enc'_def)
    moreover have "frame_inv before ?syms enc0 (place d1) (out d1) enc'"
      using law out1 enc h pos(1) by (auto simp: frame_inv_def enc'_def)
    moreover have "\<not> completed RMT_ENCODING_MEM_FULL" "mem_full RMT_ENCODING_MEM_FULL"
      by (simp_all add: encoding_defs)
    ultimately show ?thesis by auto
  qed
qed

lemma encode_calls_frame:
  assumes "encode_calls drv data (enc0, d0) st" "enc_state enc0 = 0" "place d0 = 0"
    and "bytes_encoder enc0 = Some b" "copy_encoder enc0 = Some c"
  shows "frame_inv (out d0) (data_symbols cfg data) enc0 (place (snd st)) (out (snd st)) (fst st)"
  using assms(1)
proof (induction rule: encode_calls.induct)
  case start
  then show ?case using assms(2,3) by (simp add: frame_inv_def)
next
  case (again enc d n st enc' d')
  then show ?case
    using encode_call_frame [OF _ assms(4,5), of "out d0" data d enc] by auto
qed

end

text \<open>A channel with room for \<open>w\<close> symbols between two calls meets the contract.\<close>

record window =
  win_pos :: nat
  win_out :: "rmt_symbol list"

definition encoder_stub :: "rmt_bytes_encoder_config \<Rightarrow> nat \<Rightarrow> window rmt_driver" where
  "encoder_stub cfg w = \<lparr>
     calloc = (\<lambda>n d. (True, d)), free_mem = (\<lambda>d. d),
     rmt_new_tx_channel = (\<lambda>c d. ((ESP_OK, Some 1), d)), rmt_enable = (\<lambda>h d. (ESP_OK, d)),
     rmt_transmit = (\<lambda>h e bs d. (ESP_OK, d)), rmt_tx_wait_all_done = (\<lambda>h d. (ESP_OK, d)),
     rmt_disable = (\<lambda>h d. (ESP_OK, d)), rmt_del_channel = (\<lambda>h d. (ESP_OK, d)),
     rmt_new_bytes_encoder = (\<lambda>c d. ((ESP_OK, Some 2), d)), rmt_new_copy_encoder = (\<lambda>d. ((ESP_OK, Some 3), d)),
     rmt_del_encoder = (\<lambda>h d. (ESP_OK, d)), rmt_encoder_reset = (\<lambda>h d. (ESP_OK, d)),
     encode_bytes = (\<lambda>h data d.
       let rest = drop (win_pos d) (data_symbols cfg data); k = min w (length rest) in
       if k = length rest then ((k, RMT_ENCODING_COMPLETE), d\<lparr>win_pos := 0, win_out := win_out d @ rest\<rparr>)
       else ((k, RMT_ENCODING_MEM_FULL), d\<lparr>win_pos := win_pos d + k, win_out := win_out d @ take k rest\<rparr>)),
     encode_copy = (\<lambda>h s d. ((1, RMT_ENCODING_COMPLETE), d\<lparr>win_out := win_out d @ [s]\<rparr>))\<rparr>"

interpretation stub: idf_encoders "encoder_stub cfg w" cfg win_out win_pos
  by unfold_locales (auto simp: encoder_stub_def encoding_defs Let_def split: if_splits)

lemma encoder_stub_contract: "idf_encoders (encoder_stub cfg w) cfg win_out win_pos"
  by unfold_locales

lemma length_data_symbols: "length (data_symbols cfg data) = 8 * length data"
  by (induction data) (simp_all add: data_symbols_def byte_symbols_def)

text \<open>C19: the encoder of the LED strip, called again whenever the channel memory was full, never reaches a
  state its switch has no case for, and when a call first reports the frame as complete, the symbols
  written since the start are those of all pixel bytes in order followed by the reset code once, and the
  encoder is back in its initial state; every other call reports the memory as full.\<close>

theorem led_frame:
  assumes "idf_encoders drv cfg out place" "encode_calls drv data (enc0, d0) (enc, d)"
    and "enc_state enc0 = 0" "place d0 = 0" "bytes_encoder enc0 = Some b" "copy_encoder enc0 = Some c"
  shows "\<exists>n st enc' d'. rmt_encode_led_strip drv enc data d = Some (n, st, enc', d') \<and> enc_state enc' \<in> {0, 1} \<and>
    (if completed st then enc_state enc' = 0 \<and> place d' = 0 \<and> out d' = out d0 @ data_symbols cfg data @ [reset_code enc0]
     else mem_full st)"
proof -
  have "frame_inv (out d0) (data_symbols cfg data) enc0 (place d) (out d) enc"
    using idf_encoders.encode_calls_frame [OF assms] by simp
  from idf_encoders.encode_call_frame [OF assms(1) this assms(5,6)] obtain n st enc' d'
    where call: "rmt_encode_led_strip drv enc data d = Some (n, st, enc', d')"
      "if completed st then enc' = enc\<lparr>enc_state := 0\<rparr> \<and> place d' = 0 \<and> out d' = out d0 @ data_symbols cfg data @ [reset_code enc0]
       else mem_full st \<and> frame_inv (out d0) (data_symbols cfg data) enc0 (place d') (out d') enc'"
    by blast
  have "enc_state enc' \<in> {0, 1}"
    using call(2) by (cases "completed st") (auto simp: frame_inv_def)
  then show ?thesis
    using call by (cases "completed st") auto
qed

definition ws2812_encoder :: led_encoder where
  "ws2812_encoder = \<lparr>bytes_encoder = Some 2, copy_encoder = Some 3, enc_state = 0, reset_code = reset_symbol 10000000\<rparr>"

definition demo_timing :: rmt_bytes_encoder_config where
  "demo_timing = \<lparr>bit0 = zero_symbol, bit1 = reset_symbol 10000000, msb_first = True\<rparr>"

lemma first_call:
  "encode_bytes (encoder_stub demo_timing 8) 2 [1, 2] \<lparr>win_pos = 0, win_out = []\<rparr> =
    ((8, RMT_ENCODING_MEM_FULL), \<lparr>win_pos = 8, win_out = take 8 (data_symbols demo_timing [1, 2])\<rparr>)"
  by (simp add: encoder_stub_def, simp only: Let_def length_drop length_data_symbols, simp)

text \<open>The first call writes 8 of the 16 symbols of two bytes, the second one the rest.\<close>

theorem led_frame_witness:
  "\<exists>enc d n st enc' d'. rmt_encode_led_strip (encoder_stub demo_timing 8) ws2812_encoder [1, 2] \<lparr>win_pos = 0, win_out = []\<rparr> =
      Some (8, RMT_ENCODING_MEM_FULL, enc, d) \<and>
    rmt_encode_led_strip (encoder_stub demo_timing 8) enc [1, 2] d = Some (n, st, enc', d') \<and> completed st \<and>
    win_out d' = data_symbols demo_timing [1, 2] @ [reset_symbol 10000000]"
proof -
  let ?drv = "encoder_stub demo_timing 8" and ?start = "\<lparr>win_pos = 0, win_out = []\<rparr> :: window"
  let ?next = "\<lparr>win_pos = 8, win_out = take 8 (data_symbols demo_timing [1, 2])\<rparr> :: window"
  have one: "rmt_encode_led_strip ?drv ws2812_encoder [1, 2] ?start = Some (8, RMT_ENCODING_MEM_FULL, ws2812_encoder, ?next)"
    using first_call by (simp add: rmt_encode_led_strip_def ws2812_encoder_def encoding_defs)
  then have "encode_calls ?drv [1, 2] (ws2812_encoder, ?start) (ws2812_encoder, ?next)"
    by (rule encode_calls.again [OF encode_calls.start]) (simp add: encoding_defs)
  from led_frame [OF encoder_stub_contract this, of 2 3] obtain n st enc' d'
    where two: "rmt_encode_led_strip ?drv ws2812_encoder [1, 2] ?next = Some (n, st, enc', d')"
      "if completed st then win_out d' = data_symbols demo_timing [1, 2] @ [reset_symbol 10000000] else mem_full st"
    by (auto simp: ws2812_encoder_def split: if_splits)
  moreover have "completed st"
    using two(1) by (auto simp: rmt_encode_led_strip_def encode_reset_def encoder_stub_def ws2812_encoder_def
        length_data_symbols encoding_defs Let_def)
  ultimately show ?thesis using one by auto
qed

lemma round_tenths:
  "round_ratio 3 10 = (5404319552844595, - 54)" "round_ratio 6 10 = (5404319552844595, - 53)" "round_ratio 9 10 = (8106479329266893, - 53)"
  by (simp_all add: round_ratio_def round_even_def Let_def)

lemma round_products:
  "round_ratio 54043195528445950000000 18014398509481984 = (6442450944000000, -31)"
  "round_ratio 54043195528445950000000 9007199254740992 = (6442450944000000, -30)"
  "round_ratio 81064793292668930000000 9007199254740992 = (4831838208000000, -29)"
  by (simp_all add: round_ratio_def round_even_def Let_def)

lemma round_quotients:
  "round_ratio 6442450944000000 2147483648000000 = (6755399441055744, -51)"
  "round_ratio 6442450944000000 1073741824000000 = (6755399441055744, -50)"
  "round_ratio 4831838208000000 536870912000000 = (5066549580791808, -49)"
  by (simp_all add: round_ratio_def round_even_def Let_def)

lemma ticks_10MHz: "ticks 3 10000000 = 3" "ticks 9 10000000 = 9" "ticks 6 10000000 = 6"
  by (simp_all add: ticks_def double_trunc_def round_tenths round_products round_quotients)

lemma reset_10MHz: "reset_symbol 10000000 = \<lparr>duration0 = 250, level0 = False, duration1 = 250, level1 = False\<rparr>"
  by (simp add: reset_symbol_def)

text \<open>At the resolution the program configures, 10 MHz, the timing of a WS2812 comes out exactly: a 0 is
  high for 3 ticks of 100 ns and low for 9, a 1 the other way round, and the reset code is low for
  500 ticks in all, 50 us, although the durations are computed in floating point and truncated.\<close>

theorem ws2812_timing:
  "bytes_timing 10000000 LED_MODEL_WS2812 = Some \<lparr>
     bit0 = \<lparr>duration0 = 3, level0 = True, duration1 = 9, level1 = False\<rparr>,
     bit1 = \<lparr>duration0 = 9, level0 = True, duration1 = 3, level1 = False\<rparr>, msb_first = True\<rparr> \<and>
   reset_symbol 10000000 = \<lparr>duration0 = 250, level0 = False, duration1 = 250, level1 = False\<rparr>"
  by (simp add: pulse_def ticks_10MHz reset_10MHz)

end
