(* ===== verification/Led_Strip.thy ===== *)
theory Led_Strip
  imports Led_Encoder Fifo
begin

unbundle bit_operations_syntax

text \<open>
  \<open>led_strip_api.c\<close> and \<open>led_strip_interface.h\<close> of the vendored \<open>led_strip\<close> component
  (the calls that dispatch through a table of five functions) and \<open>led_strip_rmt_dev.c\<close>, the
  back end over the RMT peripheral, and \<open>src/main/led_setting.c\<close>, which uses them.

  \<open>led_backend\<close> states what the API promises of a back end: a strip shows one colour per
  LED, and an operation changes exactly what its name says. The lemmas about sequences of calls
  are proved from this contract once.
\<close>

section \<open>The API (led_strip_api.c)\<close>

datatype led_pixel_format = LED_PIXEL_FORMAT_GRB | LED_PIXEL_FORMAT_GRBW | LED_PIXEL_FORMAT_INVALID

text \<open>\<open>struct led_strip_t\<close>: the functions of a back end, on the state \<open>'s\<close> of strip and driver.\<close>

record 's led_strip_ops =
  set_pixel :: "u32 \<Rightarrow> u32 \<Rightarrow> u32 \<Rightarrow> u32 \<Rightarrow> 's \<Rightarrow> (esp_err \<times> 's) option"
  set_pixel_rgbw :: "u32 \<Rightarrow> u32 \<Rightarrow> u32 \<Rightarrow> u32 \<Rightarrow> u32 \<Rightarrow> 's \<Rightarrow> (esp_err \<times> 's) option"
  refresh :: "'s \<Rightarrow> (esp_err \<times> 's) option"
  clear :: "'s \<Rightarrow> (esp_err \<times> 's) option"
  del_strip :: "'s \<Rightarrow> (esp_err \<times> 's) option"

definition led_strip_set_pixel ::
  "'s led_strip_ops option \<Rightarrow> u32 \<Rightarrow> u32 \<Rightarrow> u32 \<Rightarrow> u32 \<Rightarrow> 's \<Rightarrow> (esp_err \<times> 's) option" where
  "led_strip_set_pixel strip index red green blue s =
     (case strip of None \<Rightarrow> Some (ESP_ERR_INVALID_ARG, s) | Some ops \<Rightarrow> set_pixel ops index red green blue s)"

text \<open>
  \<open>rgb_max * (255 - saturation) / 255.0f\<close>: numerator and quotient are below 2 ^ 16, so the
  float division, truncated, is the integer quotient.
\<close>

definition hsv_rgb :: "u16 \<Rightarrow> u8 \<Rightarrow> u8 \<Rightarrow> u32 \<times> u32 \<times> u32" where
  "hsv_rgb hue saturation value =
     (let rgb_max = (ucast value :: u32);
          rgb_min = rgb_max * (255 - ucast saturation) div 255;
          i = (ucast hue :: u32) div 60;
          diff = ucast hue mod 60;
          rgb_adj = (rgb_max - rgb_min) * diff div 60
      in if i = 0 then (rgb_max, rgb_min + rgb_adj, rgb_min)
         else if i = 1 then (rgb_max - rgb_adj, rgb_max, rgb_min)
         else if i = 2 then (rgb_min, rgb_max, rgb_min + rgb_adj)
         else if i = 3 then (rgb_min, rgb_max - rgb_adj, rgb_max)
         else if i = 4 then (rgb_min + rgb_adj, rgb_min, rgb_max)
         else (rgb_max, rgb_min, rgb_max - rgb_adj))"

definition led_strip_set_pixel_hsv ::
  "'s led_strip_ops option \<Rightarrow> u32 \<Rightarrow> u16 \<Rightarrow> u8 \<Rightarrow> u8 \<Rightarrow> 's \<Rightarrow> (esp_err \<times> 's) option" where
  "led_strip_set_pixel_hsv strip index hue saturation value s =
     (case strip of None \<Rightarrow> Some (ESP_ERR_INVALID_ARG, s)
      | Some ops \<Rightarrow> let (red, green, blue) = hsv_rgb hue saturation value in set_pixel ops index red green blue s)"

definition led_strip_set_pixel_rgbw ::
  "'s led_strip_ops option \<Rightarrow> u32 \<Rightarrow> u32 \<Rightarrow> u32 \<Rightarrow> u32 \<Rightarrow> u32 \<Rightarrow> 's \<Rightarrow> (esp_err \<times> 's) option" where
  "led_strip_set_pixel_rgbw strip index red green blue white s =
     (case strip of None \<Rightarrow> Some (ESP_ERR_INVALID_ARG, s) | Some ops \<Rightarrow> set_pixel_rgbw ops index red green blue white s)"

definition led_strip_refresh :: "'s led_strip_ops option \<Rightarrow> 's \<Rightarrow> (esp_err \<times> 's) option" where
  "led_strip_refresh strip s = (case strip of None \<Rightarrow> Some (ESP_ERR_INVALID_ARG, s) | Some ops \<Rightarrow> refresh ops s)"

definition led_strip_clear :: "'s led_strip_ops option \<Rightarrow> 's \<Rightarrow> (esp_err \<times> 's) option" where
  "led_strip_clear strip s = (case strip of None \<Rightarrow> Some (ESP_ERR_INVALID_ARG, s) | Some ops \<Rightarrow> clear ops s)"

definition led_strip_del :: "'s led_strip_ops option \<Rightarrow> 's \<Rightarrow> (esp_err \<times> 's) option" where
  "led_strip_del strip s = (case strip of None \<Rightarrow> Some (ESP_ERR_INVALID_ARG, s) | Some ops \<Rightarrow> del_strip ops s)"

section \<open>The RMT back end (led_strip_rmt_dev.c)\<close>

text \<open>\<open>led_strip_rmt_obj\<close>; \<open>pixel_buf\<close> is the part of the block behind the struct.\<close>

record rmt_strip =
  rmt_chan :: "nat option"
  strip_encoder :: "led_encoder option"
  rmt_strip_len :: u32
  rmt_bytes_per_pixel :: u8
  rmt_pixel_buf :: bytes

type_synonym 'd rmt_state = "rmt_strip \<times> 'd"

definition led_strip_rmt_set_pixel :: "u32 \<Rightarrow> u32 \<Rightarrow> u32 \<Rightarrow> u32 \<Rightarrow> 'd rmt_state \<Rightarrow> (esp_err \<times> 'd rmt_state) option" where
  "led_strip_rmt_set_pixel index red green blue = (\<lambda>(s, d).
     if \<not> index < rmt_strip_len s then Some (ESP_ERR_INVALID_ARG, s, d)
     else do {
       let start = index * ucast (rmt_bytes_per_pixel s);
       buf \<leftarrow> c_store (rmt_pixel_buf s) (unat (start + 0)) (ucast (green AND 0xFF));
       buf \<leftarrow> c_store buf (unat (start + 1)) (ucast (red AND 0xFF));
       buf \<leftarrow> c_store buf (unat (start + 2)) (ucast (blue AND 0xFF));
       buf \<leftarrow> (if rmt_bytes_per_pixel s > 3 then c_store buf (unat (start + 3)) 0 else Some buf);
       Some (ESP_OK, s\<lparr>rmt_pixel_buf := buf\<rparr>, d)
     })"

definition led_strip_rmt_set_pixel_rgbw :: "u32 \<Rightarrow> u32 \<Rightarrow> u32 \<Rightarrow> u32 \<Rightarrow> u32 \<Rightarrow> 'd rmt_state \<Rightarrow> (esp_err \<times> 'd rmt_state) option" where
  "led_strip_rmt_set_pixel_rgbw index red green blue white = (\<lambda>(s, d).
     if \<not> index < rmt_strip_len s then Some (ESP_ERR_INVALID_ARG, s, d)
     else if rmt_bytes_per_pixel s \<noteq> 4 then Some (ESP_ERR_INVALID_ARG, s, d)
     else do {
       let buf_start = unat (index * 4);
       buf \<leftarrow> c_store (rmt_pixel_buf s) buf_start (ucast (green AND 0xFF));
       buf \<leftarrow> c_store buf (buf_start + 1) (ucast (red AND 0xFF));
       buf \<leftarrow> c_store buf (buf_start + 2) (ucast (blue AND 0xFF));
       buf \<leftarrow> c_store buf (buf_start + 3) (ucast (white AND 0xFF));
       Some (ESP_OK, s\<lparr>rmt_pixel_buf := buf\<rparr>, d)
     })"

text \<open>The number of bytes of the strip, as the code computes it.\<close>

definition rmt_size :: "rmt_strip \<Rightarrow> nat" where
  "rmt_size s = unat (rmt_strip_len s * ucast (rmt_bytes_per_pixel s))"

definition led_strip_rmt_refresh :: "'d rmt_driver \<Rightarrow> 'd rmt_state \<Rightarrow> (esp_err \<times> 'd rmt_state) option" where
  "led_strip_rmt_refresh drv = (\<lambda>(s, d). do {
     chan \<leftarrow> rmt_chan s;
     enc \<leftarrow> strip_encoder s;
     let (err, d) = rmt_enable drv chan d;
     if err \<noteq> ESP_OK then Some (err, s, d)
     else do {
       data \<leftarrow> c_slice (rmt_pixel_buf s) 0 (rmt_size s);
       let (err, d) = rmt_transmit drv chan enc data d;
       if err \<noteq> ESP_OK then Some (err, s, d)
       else do {
         let (err, d) = rmt_tx_wait_all_done drv chan d;
         if err \<noteq> ESP_OK then Some (err, s, d)
         else do {
           let (err, d) = rmt_disable drv chan d;
           if err \<noteq> ESP_OK then Some (err, s, d) else Some (ESP_OK, s, d)
         }
       }
     }
   })"

definition led_strip_rmt_clear :: "'d rmt_driver \<Rightarrow> 'd rmt_state \<Rightarrow> (esp_err \<times> 'd rmt_state) option" where
  "led_strip_rmt_clear drv = (\<lambda>(s, d). do {
     buf \<leftarrow> c_blit (rmt_pixel_buf s) 0 (replicate (rmt_size s) 0);
     led_strip_rmt_refresh drv (s\<lparr>rmt_pixel_buf := buf\<rparr>, d)
   })"

definition led_strip_rmt_del :: "'d rmt_driver \<Rightarrow> 'd rmt_state \<Rightarrow> (esp_err \<times> 'd rmt_state) option" where
  "led_strip_rmt_del drv = (\<lambda>(s, d). do {
     chan \<leftarrow> rmt_chan s;
     enc \<leftarrow> strip_encoder s;
     let (err, d) = rmt_del_channel drv chan d;
     if err \<noteq> ESP_OK then Some (err, s, d)
     else do {
       (err, d) \<leftarrow> rmt_del_led_strip_encoder drv enc d;
       if err \<noteq> ESP_OK then Some (err, s, d) else Some (ESP_OK, s, free_mem drv d)
     }
   })"

definition rmt_ops :: "'d rmt_driver \<Rightarrow> 'd rmt_state led_strip_ops" where
  "rmt_ops drv = \<lparr>set_pixel = led_strip_rmt_set_pixel, set_pixel_rgbw = led_strip_rmt_set_pixel_rgbw,
     refresh = led_strip_rmt_refresh drv, clear = led_strip_rmt_clear drv, del_strip = led_strip_rmt_del drv\<rparr>"

record led_strip_config =
  strip_gpio_num :: int
  max_leds :: u32
  led_pixel_format :: led_pixel_format
  led_model :: led_model
  invert_out :: bool

record led_strip_rmt_config =
  rmt_clk_src :: nat
  rmt_resolution_hz :: u32
  rmt_mem_block_symbols :: nat
  rmt_with_dma :: bool

text \<open>The error exit: what the half-built strip holds is released.\<close>

definition new_rmt_err :: "'d rmt_driver \<Rightarrow> rmt_strip \<Rightarrow> 'd \<Rightarrow> 'd option" where
  "new_rmt_err drv s d = do {
     let d = (case rmt_chan s of Some h \<Rightarrow> snd (rmt_del_channel drv h d) | None \<Rightarrow> d);
     d \<leftarrow> (case strip_encoder s of
            Some e \<Rightarrow> do { (_, d) \<leftarrow> rmt_del_led_strip_encoder drv e d; Some d }
          | None \<Rightarrow> Some d);
     Some (free_mem drv d)
   }"

text \<open>
  The settings the constructor derives: the defaults stand in for fields that are 0, and
  \<open>default_clk\<close> is \<open>RMT_CLK_SRC_DEFAULT\<close> of the chip.
\<close>

definition pixel_bytes :: "led_pixel_format \<Rightarrow> u8" where
  "pixel_bytes fmt = (if fmt = LED_PIXEL_FORMAT_GRBW then 4 else 3)"

definition rmt_resolution :: "led_strip_rmt_config \<Rightarrow> u32" where
  "rmt_resolution rmt_config = (if rmt_resolution_hz rmt_config \<noteq> 0 then rmt_resolution_hz rmt_config else 10000000)"

definition rmt_chan_config :: "nat \<Rightarrow> led_strip_config \<Rightarrow> led_strip_rmt_config \<Rightarrow> rmt_tx_channel_config" where
  "rmt_chan_config default_clk led_config rmt_config =
     \<lparr>chan_clk_src = (if rmt_clk_src rmt_config \<noteq> 0 then rmt_clk_src rmt_config else default_clk),
      chan_gpio_num = strip_gpio_num led_config,
      chan_mem_block_symbols = (if rmt_mem_block_symbols rmt_config \<noteq> 0 then rmt_mem_block_symbols rmt_config else 48),
      chan_resolution_hz = rmt_resolution rmt_config, trans_queue_depth = 4,
      chan_with_dma = rmt_with_dma rmt_config, chan_invert_out = invert_out led_config\<rparr>"

text \<open>
  The size of the block is a 32-bit product and sum; a block shorter than the struct (36 bytes)
  cannot hold the fields that are written next.
\<close>

definition led_strip_new_rmt_device ::
  "'d rmt_driver \<Rightarrow> nat \<Rightarrow> led_strip_config option \<Rightarrow> led_strip_rmt_config option \<Rightarrow> 'd \<Rightarrow>
    (esp_err \<times> rmt_strip option \<times> 'd) option" where
  "led_strip_new_rmt_device drv default_clk led_cfg rmt_cfg d =
     (case (led_cfg, rmt_cfg) of
        (Some led_config, Some rmt_config) \<Rightarrow>
          if led_pixel_format led_config = LED_PIXEL_FORMAT_INVALID then Some (ESP_ERR_INVALID_ARG, None, d)
          else do {
            let bpp = pixel_bytes (led_pixel_format led_config);
            let block = unat (36 + max_leds led_config * ucast bpp);
            let (ok, d) = calloc drv block d;
            if \<not> ok then Some (ESP_ERR_NO_MEM, None, d)
            else do {
              c_assert (36 \<le> block);
              let s = \<lparr>rmt_chan = None, strip_encoder = None, rmt_strip_len = 0, rmt_bytes_per_pixel = 0,
                       rmt_pixel_buf = replicate (block - 36) 0\<rparr>;
              let ((err, h), d) = rmt_new_tx_channel drv (rmt_chan_config default_clk led_config rmt_config) d;
              let s = s\<lparr>rmt_chan := h\<rparr>;
              if err \<noteq> ESP_OK then do { d \<leftarrow> new_rmt_err drv s d; Some (err, None, d) }
              else do {
                (err, e, d) \<leftarrow> rmt_new_led_strip_encoder drv
                  (Some \<lparr>resolution = rmt_resolution rmt_config, enc_led_model = led_model led_config\<rparr>) d;
                let s = s\<lparr>strip_encoder := e\<rparr>;
                if err \<noteq> ESP_OK then do { d \<leftarrow> new_rmt_err drv s d; Some (err, None, d) }
                else Some (ESP_OK, Some (s\<lparr>rmt_strip_len := max_leds led_config, rmt_bytes_per_pixel := bpp\<rparr>), d)
              }
            }
          }
      | _ \<Rightarrow> Some (ESP_ERR_INVALID_ARG, None, d))"

section \<open>The LED of the board (led_setting.c)\<close>

text \<open>
  \<open>config_led\<close>: one LED at GPIO 48; the fields that are not named are 0. A failed
  construction aborts, the result of \<open>led_strip_clear\<close> is not used. The new handle is the
  global \<open>led_light\<close>, which \<open>set_led\<close> uses; it ignores both results.
\<close>

definition config_led :: "'d rmt_driver \<Rightarrow> nat \<Rightarrow> 'd \<Rightarrow> 'd rmt_state option" where
  "config_led drv default_clk d = do {
     (err, light, d) \<leftarrow> led_strip_new_rmt_device drv default_clk
       (Some \<lparr>strip_gpio_num = 48, max_leds = 1, led_pixel_format = LED_PIXEL_FORMAT_GRB, led_model = LED_MODEL_WS2812,
          invert_out = False\<rparr>)
       (Some \<lparr>rmt_clk_src = 0, rmt_resolution_hz = 10 * 1000 * 1000, rmt_mem_block_symbols = 0, rmt_with_dma = False\<rparr>) d;
     ESP_ERROR_CHECK err;
     s \<leftarrow> light;
     (_, st) \<leftarrow> led_strip_clear (Some (rmt_ops drv)) (s, d);
     Some st
   }"

definition set_led :: "'d rmt_driver \<Rightarrow> u32 \<Rightarrow> u32 \<Rightarrow> u32 \<Rightarrow> 'd rmt_state \<Rightarrow> 'd rmt_state option" where
  "set_led drv r g b st = do {
     (_, st) \<leftarrow> led_strip_set_pixel (Some (rmt_ops drv)) 0 r g b st;
     (_, st) \<leftarrow> led_strip_refresh (Some (rmt_ops drv)) st;
     Some st
   }"

section \<open>The contract of a back end\<close>

type_synonym rgbw = "u8 \<times> u8 \<times> u8 \<times> u8"

definition led_off :: rgbw where "led_off = (0, 0, 0, 0)"

text \<open>The colour of each LED, as the next refresh transmits it; \<open>has_white\<close>: four bytes per LED.\<close>

locale led_backend =
  fixes ops :: "'s led_strip_ops"
    and inv :: "'s \<Rightarrow> bool"
    and leds :: "'s \<Rightarrow> nat"
    and has_white :: "'s \<Rightarrow> bool"
    and colour :: "'s \<Rightarrow> nat \<Rightarrow> rgbw"
  assumes set_pixel_in: "inv s \<Longrightarrow> unat i < leds s \<Longrightarrow> \<exists>s'. set_pixel ops i r g b s = Some (ESP_OK, s') \<and>
      inv s' \<and> leds s' = leds s \<and> has_white s' = has_white s \<and>
      (\<forall>j < leds s. colour s' j = (if j = unat i then (ucast r, ucast g, ucast b, 0) else colour s j))"
    and set_pixel_out: "inv s \<Longrightarrow> leds s \<le> unat i \<Longrightarrow> set_pixel ops i r g b s = Some (ESP_ERR_INVALID_ARG, s)"
    and set_rgbw_in: "inv s \<Longrightarrow> unat i < leds s \<Longrightarrow> has_white s \<Longrightarrow> \<exists>s'. set_pixel_rgbw ops i r g b w s = Some (ESP_OK, s') \<and>
      inv s' \<and> leds s' = leds s \<and> has_white s' = has_white s \<and>
      (\<forall>j < leds s. colour s' j = (if j = unat i then (ucast r, ucast g, ucast b, ucast w) else colour s j))"
    and set_rgbw_out: "inv s \<Longrightarrow> leds s \<le> unat i \<or> \<not> has_white s \<Longrightarrow>
      set_pixel_rgbw ops i r g b w s = Some (ESP_ERR_INVALID_ARG, s)"
    and refresh_keeps: "inv s \<Longrightarrow> \<exists>err s'. refresh ops s = Some (err, s') \<and> inv s' \<and> leds s' = leds s \<and>
      has_white s' = has_white s \<and> (\<forall>j < leds s. colour s' j = colour s j)"
    and clear_law: "inv s \<Longrightarrow> \<exists>err s'. clear ops s = Some (err, s') \<and> inv s' \<and> leds s' = leds s \<and>
      has_white s' = has_white s \<and> (\<forall>j < leds s. colour s' j = led_off)"

text \<open>A client's calls through the API, and what they mean for the colours.\<close>

datatype led_cmd = Paint u32 u32 u32 u32 | Paint_hsv u32 u16 u8 u8 | Paint_white u32 u32 u32 u32 u32 | Refresh | Clear

fun led_exec :: "'s led_strip_ops \<Rightarrow> 's \<Rightarrow> led_cmd \<Rightarrow> 's option" where
  "led_exec ops s (Paint i r g b) = map_option snd (led_strip_set_pixel (Some ops) i r g b s)"
| "led_exec ops s (Paint_hsv i hue sat val) = map_option snd (led_strip_set_pixel_hsv (Some ops) i hue sat val s)"
| "led_exec ops s (Paint_white i r g b w) = map_option snd (led_strip_set_pixel_rgbw (Some ops) i r g b w s)"
| "led_exec ops s Refresh = map_option snd (led_strip_refresh (Some ops) s)"
| "led_exec ops s Clear = map_option snd (led_strip_clear (Some ops) s)"

fun led_spec :: "bool \<Rightarrow> led_cmd \<Rightarrow> (nat \<Rightarrow> rgbw) \<Rightarrow> nat \<Rightarrow> rgbw" where
  "led_spec white (Paint i r g b) c = c(unat i := (ucast r, ucast g, ucast b, 0))"
| "led_spec white (Paint_hsv i hue sat val) c =
     (let (r, g, b) = hsv_rgb hue sat val in c(unat i := (ucast r, ucast g, ucast b, 0)))"
| "led_spec white (Paint_white i r g b w) c = (if white then c(unat i := (ucast r, ucast g, ucast b, ucast w)) else c)"
| "led_spec white Refresh c = c"
| "led_spec white Clear c = (\<lambda>_. led_off)"

lemma led_spec_local: "c j = c' j \<Longrightarrow> led_spec white cmd c j = led_spec white cmd c' j"
  by (cases cmd) (auto split: prod.split)

context led_backend
begin

lemma exec_spec:
  assumes "inv s"
  shows "\<exists>s'. led_exec ops s cmd = Some s' \<and> inv s' \<and> leds s' = leds s \<and> has_white s' = has_white s \<and>
    (\<forall>j < leds s. colour s' j = led_spec (has_white s) cmd (colour s) j)"
proof -
  have paint: "\<exists>e s'. set_pixel ops i r g b s = Some (e, s') \<and> inv s' \<and> leds s' = leds s \<and> has_white s' = has_white s \<and>
      (\<forall>j < leds s. colour s' j = (if j = unat i then (ucast r, ucast g, ucast b, 0) else colour s j))" for i r g b
    using set_pixel_in [OF assms, of i r g b] set_pixel_out [OF assms, of i r g b] assms
    by (cases "unat i < leds s") auto
  have white: "\<exists>e s'. set_pixel_rgbw ops i r g b w s = Some (e, s') \<and> inv s' \<and> leds s' = leds s \<and> has_white s' = has_white s \<and>
      (\<forall>j < leds s. colour s' j = (if j = unat i \<and> has_white s then (ucast r, ucast g, ucast b, ucast w) else colour s j))" for i r g b w
    using set_rgbw_in [OF assms, of i r g b w] set_rgbw_out [OF assms, of i r g b w] assms
    by (cases "unat i < leds s \<and> has_white s") auto
  show ?thesis
  proof (cases cmd)
    case (Paint i r g b)
    then show ?thesis using paint [of i r g b] by (auto simp: led_strip_set_pixel_def)
  next
    case (Paint_hsv i hue sat val)
    obtain r g b where "hsv_rgb hue sat val = (r, g, b)" by (metis surj_pair)
    then show ?thesis using Paint_hsv paint [of i r g b] by (auto simp: led_strip_set_pixel_hsv_def)
  next
    case (Paint_white i r g b w)
    then show ?thesis using white [of i r g b w] by (auto simp: led_strip_set_pixel_rgbw_def)
  next
    case Refresh
    then show ?thesis using refresh_keeps [OF assms] by (auto simp: led_strip_refresh_def)
  next
    case Clear
    then show ?thesis using clear_law [OF assms] by (auto simp: led_strip_clear_def)
  qed
qed

lemma exec_all_spec:
  assumes "inv s" "leds s = n" "has_white s = w" "\<forall>j < n. colour s j = c j"
  shows "\<exists>s'. m_fold (led_exec ops) s cmds = Some s' \<and> inv s' \<and> leds s' = n \<and>
    (\<forall>j < n. colour s' j = fold (led_spec w) cmds c j)"
  using assms
proof (induction cmds arbitrary: s c)
  case Nil
  then show ?case by simp
next
  case (Cons cmd cmds)
  from exec_spec [OF Cons.prems(1), of cmd] obtain s1 where s1: "led_exec ops s cmd = Some s1" "inv s1"
      "leds s1 = n" "has_white s1 = w" "\<forall>j < n. colour s1 j = led_spec w cmd (colour s) j"
    using Cons.prems by auto
  have "\<forall>j < n. colour s1 j = led_spec w cmd c j"
    using s1(5) Cons.prems(4) led_spec_local [of "colour s" _ c] by metis
  from Cons.IH [OF s1(2,3,4) this] s1(1) show ?case by simp
qed

end

section \<open>The RMT back end meets the contract\<close>

definition rmt_inv :: "'d rmt_state \<Rightarrow> bool" where
  "rmt_inv = (\<lambda>(s, d). rmt_bytes_per_pixel s \<in> {3, 4} \<and>
     unat (rmt_strip_len s) * unat (rmt_bytes_per_pixel s) < 2 ^ 32 \<and>
     length (rmt_pixel_buf s) = unat (rmt_strip_len s) * unat (rmt_bytes_per_pixel s) \<and>
     rmt_chan s \<noteq> None \<and> strip_encoder s \<noteq> None)"

definition rmt_colour :: "'d rmt_state \<Rightarrow> nat \<Rightarrow> rgbw" where
  "rmt_colour = (\<lambda>(s, d) j. let p = j * unat (rmt_bytes_per_pixel s); buf = rmt_pixel_buf s in
     (buf ! (p + 1), buf ! p, buf ! (p + 2), if rmt_bytes_per_pixel s = 4 then buf ! (p + 3) else 0))"

abbreviation rmt_leds :: "'d rmt_state \<Rightarrow> nat" where
  "rmt_leds st \<equiv> unat (rmt_strip_len (fst st))"

abbreviation rmt_white :: "'d rmt_state \<Rightarrow> bool" where
  "rmt_white st \<equiv> rmt_bytes_per_pixel (fst st) = 4"

lemma unat_pixel_start:
  assumes "unat i < unat n" "unat n * k < 2 ^ 32" "a < k" "k < 2 ^ 32"
  shows "unat ((i :: u32) * word_of_nat k + word_of_nat a) = unat i * k + a" "unat i * k + a < unat (n :: u32) * k"
proof -
  have "unat i * k + k \<le> unat n * k" using assms(1) by (metis Suc_leI mult.commute mult_Suc mult_le_mono2 add.commute)
  then show lt: "unat i * k + a < unat n * k" using assms(3) by linarith
  then have "unat i * k + a < 2 ^ 32" using assms(2) by linarith
  moreover have "i * word_of_nat k + word_of_nat a = word_of_nat (unat i * k + a)" by simp
  ultimately show "unat (i * word_of_nat k + word_of_nat a) = unat i * k + a"
    using unat_of_nat_small [of "unat i * k + a", where 'a = 32] by (simp del: of_nat_add of_nat_mult)
qed

lemma rmt_set_pixel_in:
  assumes "rmt_inv st" "unat i < rmt_leds st"
  shows "\<exists>st'. led_strip_rmt_set_pixel i r g b st = Some (ESP_OK, st') \<and> rmt_inv st' \<and>
    rmt_strip_len (fst st') = rmt_strip_len (fst st) \<and> rmt_bytes_per_pixel (fst st') = rmt_bytes_per_pixel (fst st) \<and>
    (\<forall>j < rmt_leds st. rmt_colour st' j = (if j = unat i then (ucast r, ucast g, ucast b, 0) else rmt_colour st j))"
proof -
  obtain s d where st: "st = (s, d)" by (cases st)
  have lt: "i < rmt_strip_len s" using assms(2) by (simp add: st word_less_nat_alt)
  consider (three) "rmt_bytes_per_pixel s = 3" | (four) "rmt_bytes_per_pixel s = 4"
    using assms(1) by (auto simp: rmt_inv_def st)
  then show ?thesis
  proof cases
    case three
    have len: "unat (rmt_strip_len s) * 3 < 2 ^ 32" "length (rmt_pixel_buf s) = unat (rmt_strip_len s) * 3"
      using assms(1) three by (auto simp: rmt_inv_def st)
    note at = unat_pixel_start [OF _ len(1), of i, simplified] 
    show ?thesis using at [of 0] at [of 1] at [of 2] assms three lt len
      by (auto simp: led_strip_rmt_set_pixel_def st c_store_def ucast_and_FF rmt_inv_def rmt_colour_def Let_def nth_list_update)
  next
    case four
    have len: "unat (rmt_strip_len s) * 4 < 2 ^ 32" "length (rmt_pixel_buf s) = unat (rmt_strip_len s) * 4"
      using assms(1) four by (auto simp: rmt_inv_def st)
    note at = unat_pixel_start [OF _ len(1), of i, simplified] 
    show ?thesis using at [of 0] at [of 1] at [of 2] at [of 3] assms four lt len
      by (auto simp: led_strip_rmt_set_pixel_def st c_store_def ucast_and_FF rmt_inv_def rmt_colour_def Let_def nth_list_update)
  qed
qed

lemma rmt_set_pixel_rgbw_in:
  assumes "rmt_inv st" "unat i < rmt_leds st" "rmt_white st"
  shows "\<exists>st'. led_strip_rmt_set_pixel_rgbw i r g b w st = Some (ESP_OK, st') \<and> rmt_inv st' \<and>
    rmt_strip_len (fst st') = rmt_strip_len (fst st) \<and> rmt_bytes_per_pixel (fst st') = rmt_bytes_per_pixel (fst st) \<and>
    (\<forall>j < rmt_leds st. rmt_colour st' j = (if j = unat i then (ucast r, ucast g, ucast b, ucast w) else rmt_colour st j))"
proof -
  obtain s d where st: "st = (s, d)" by (cases st)
  have lt: "i < rmt_strip_len s" using assms(2) by (simp add: st word_less_nat_alt)
  have len: "unat (rmt_strip_len s) * 4 < 2 ^ 32" "length (rmt_pixel_buf s) = unat (rmt_strip_len s) * 4"
    using assms by (auto simp: rmt_inv_def st)
  note at = unat_pixel_start [OF _ len(1), of i, simplified]
  show ?thesis using at [of 0] at [of 1] at [of 2] at [of 3] assms lt len
    by (auto simp: led_strip_rmt_set_pixel_rgbw_def st c_store_def ucast_and_FF rmt_inv_def rmt_colour_def Let_def nth_list_update)
qed

lemma rmt_size_eq:
  assumes "rmt_inv (s, d)"
  shows "rmt_size s = length (rmt_pixel_buf s)"
  using assms by (auto simp: rmt_inv_def rmt_size_def unat_word_ariths take_bit_nat_eq_self)

text \<open>A refresh changes the driver only.\<close>

lemma rmt_refresh_keeps:
  assumes "rmt_inv (s, d)"
  shows "\<exists>err d'. led_strip_rmt_refresh drv (s, d) = Some (err, s, d')"
proof -
  obtain chan enc where h: "rmt_chan s = Some chan" "strip_encoder s = Some enc"
    using assms by (auto simp: rmt_inv_def)
  obtain e1 d1 where 1: "rmt_enable drv chan d = (e1, d1)" by (metis surj_pair)
  obtain e2 d2 where 2: "rmt_transmit drv chan enc (rmt_pixel_buf s) d1 = (e2, d2)" by (metis surj_pair)
  obtain e3 d3 where 3: "rmt_tx_wait_all_done drv chan d2 = (e3, d3)" by (metis surj_pair)
  obtain e4 d4 where 4: "rmt_disable drv chan d3 = (e4, d4)" by (metis surj_pair)
  show ?thesis
    using h 1 2 3 4 rmt_size_eq [OF assms] by (simp add: led_strip_rmt_refresh_def c_slice_def)
qed

lemma rmt_clear_eq:
  assumes "rmt_inv (s, d)"
  shows "led_strip_rmt_clear drv (s, d) =
    led_strip_rmt_refresh drv (s\<lparr>rmt_pixel_buf := replicate (length (rmt_pixel_buf s)) 0\<rparr>, d)"
  using rmt_size_eq [OF assms] by (simp add: led_strip_rmt_clear_def c_blit_def)

lemma rmt_colour_zero:
  assumes "rmt_inv (s, d)" "j < unat (rmt_strip_len s)"
  shows "rmt_colour (s\<lparr>rmt_pixel_buf := replicate (length (rmt_pixel_buf s)) 0\<rparr>, d') j = led_off"
  using assms by (auto simp: rmt_inv_def rmt_colour_def led_off_def Let_def)

lemma rmt_inv_driver: "rmt_inv (s, d) \<Longrightarrow> rmt_inv (s, d')"
  by (simp add: rmt_inv_def)

interpretation rmt: led_backend "rmt_ops drv" rmt_inv rmt_leds rmt_white rmt_colour
proof (unfold_locales, goal_cases)
  case (1 s i r g b)
  then show ?case using rmt_set_pixel_in [of s i r g b] by (auto simp: rmt_ops_def)
next
  case (2 s i r g b)
  then show ?case by (auto simp: rmt_ops_def led_strip_rmt_set_pixel_def word_less_nat_alt split: prod.split)
next
  case (3 s i r g b w)
  then show ?case using rmt_set_pixel_rgbw_in [of s i r g b w] by (auto simp: rmt_ops_def)
next
  case (4 s i r g b w)
  then show ?case by (auto simp: rmt_ops_def led_strip_rmt_set_pixel_rgbw_def word_less_nat_alt split: prod.split)
next
  case (5 st)
  obtain s d where st: "st = (s, d)" by (cases st)
  obtain err d' where "led_strip_rmt_refresh drv (s, d) = Some (err, s, d')"
    using rmt_refresh_keeps [OF 5 [unfolded st], of drv] by blast
  then show ?case
    using rmt_inv_driver [OF 5 [unfolded st], of d'] by (simp add: st rmt_ops_def rmt_colour_def)
next
  case (6 st)
  obtain s d where st: "st = (s, d)" by (cases st)
  let ?s = "s\<lparr>rmt_pixel_buf := replicate (length (rmt_pixel_buf s)) 0\<rparr>"
  have "rmt_inv (?s, d)" using 6 by (simp add: st rmt_inv_def)
  from rmt_refresh_keeps [OF this, of drv] obtain err d' where "led_strip_rmt_refresh drv (?s, d) = Some (err, ?s, d')"
    by blast
  moreover have "rmt_inv (?s, d')" using 6 by (simp add: st rmt_inv_def)
  ultimately show ?case
    using 6 rmt_clear_eq [of s d drv] rmt_colour_zero [of s d _ d'] by (auto simp: st rmt_ops_def)
qed

end
