(* ===== verification/Led_Spi.thy ===== *)
theory Led_Spi
  imports Led_Strip
begin

unbundle bit_operations_syntax

text \<open>
  \<open>led_strip_spi_dev.c\<close> of the vendored \<open>led_strip\<close> component: the back end that sends the
  pixels over SPI, every bit of a colour as three bits on the wire. It meets the same contract
  \<open>led_backend\<close> as the RMT back end, so a program sees the same colours through either.
\<close>

section \<open>Data\<close>

text \<open>The calls of the SPI driver and the allocator, on a driver state \<open>'d\<close>.\<close>

record 'd spi_driver =
  heap_caps_calloc :: "nat \<Rightarrow> bool \<Rightarrow> 'd \<Rightarrow> bool \<times> 'd"
  spi_free_mem :: "'d \<Rightarrow> 'd"
  spi_bus_initialize :: "int \<Rightarrow> int \<Rightarrow> nat \<Rightarrow> bool \<Rightarrow> 'd \<Rightarrow> esp_err \<times> 'd"
  gpio_connect_inverted :: "int \<Rightarrow> int \<Rightarrow> 'd \<Rightarrow> 'd"
  spi_bus_add_device :: "int \<Rightarrow> nat \<Rightarrow> int \<Rightarrow> 'd \<Rightarrow> (esp_err \<times> nat option) \<times> 'd"
  spi_device_get_actual_freq :: "nat \<Rightarrow> 'd \<Rightarrow> int \<times> 'd"
  spi_device_transmit :: "nat \<Rightarrow> nat \<Rightarrow> bytes \<Rightarrow> 'd \<Rightarrow> esp_err \<times> 'd"
  spi_bus_remove_device :: "nat \<Rightarrow> 'd \<Rightarrow> esp_err \<times> 'd"
  spi_bus_free :: "int \<Rightarrow> 'd \<Rightarrow> esp_err \<times> 'd"

record spi_strip =
  spi_host :: int
  spi_device :: "nat option"
  spi_strip_len :: u32
  spi_bytes_per_pixel :: u8
  spi_pixel_buf :: bytes

type_synonym 'd spi_state = "spi_strip \<times> 'd"

section \<open>Operations\<close>

definition or_at :: "nat \<Rightarrow> u8 \<Rightarrow> bytes \<Rightarrow> bytes option" where
  "or_at i v buf = do { x \<leftarrow> c_load buf i; c_store buf i (x OR v) }"

text \<open>The eight updates of \<open>__led_strip_spi_bit\<close>, \<open>p\<close> the offset of \<open>buf\<close>.\<close>

definition led_strip_spi_bit :: "u8 \<Rightarrow> nat \<Rightarrow> bytes \<Rightarrow> bytes option" where
  "led_strip_spi_bit data p buf = do {
     buf \<leftarrow> or_at (p + 2) (if bit data 0 then 0x06 else 0x04) buf;
     buf \<leftarrow> or_at (p + 2) (if bit data 1 then 0x30 else 0x20) buf;
     buf \<leftarrow> or_at (p + 2) (if bit data 2 then 0x80 else 0x00) buf;
     buf \<leftarrow> or_at (p + 1) 0x01 buf;
     buf \<leftarrow> or_at (p + 1) (if bit data 3 then 0x0C else 0x08) buf;
     buf \<leftarrow> or_at (p + 1) (if bit data 4 then 0x60 else 0x40) buf;
     buf \<leftarrow> or_at (p + 0) (if bit data 5 then 0x03 else 0x02) buf;
     buf \<leftarrow> or_at (p + 0) (if bit data 6 then 0x18 else 0x10) buf;
     or_at (p + 0) (if bit data 7 then 0xC0 else 0x80) buf
   }"

definition led_strip_spi_set_pixel :: "u32 \<Rightarrow> u32 \<Rightarrow> u32 \<Rightarrow> u32 \<Rightarrow> 'd spi_state \<Rightarrow> (esp_err \<times> 'd spi_state) option" where
  "led_strip_spi_set_pixel index red green blue = (\<lambda>(s, d).
     if \<not> index < spi_strip_len s then Some (ESP_ERR_INVALID_ARG, s, d)
     else do {
       let start = index * ucast (spi_bytes_per_pixel s) * 3;
       buf \<leftarrow> c_blit (spi_pixel_buf s) (unat start) (replicate (unat (spi_bytes_per_pixel s) * 3) 0);
       buf \<leftarrow> led_strip_spi_bit (ucast green) (unat start) buf;
       buf \<leftarrow> led_strip_spi_bit (ucast red) (unat (start + 3)) buf;
       buf \<leftarrow> led_strip_spi_bit (ucast blue) (unat (start + 3 * 2)) buf;
       buf \<leftarrow> (if spi_bytes_per_pixel s > 3 then led_strip_spi_bit 0 (unat (start + 3 * 3)) buf else Some buf);
       Some (ESP_OK, s\<lparr>spi_pixel_buf := buf\<rparr>, d)
     })"

definition led_strip_spi_set_pixel_rgbw :: "u32 \<Rightarrow> u32 \<Rightarrow> u32 \<Rightarrow> u32 \<Rightarrow> u32 \<Rightarrow> 'd spi_state \<Rightarrow> (esp_err \<times> 'd spi_state) option" where
  "led_strip_spi_set_pixel_rgbw index red green blue white = (\<lambda>(s, d).
     if \<not> index < spi_strip_len s then Some (ESP_ERR_INVALID_ARG, s, d)
     else if spi_bytes_per_pixel s \<noteq> 4 then Some (ESP_ERR_INVALID_ARG, s, d)
     else do {
       let start = index * ucast (spi_bytes_per_pixel s) * 3;
       buf \<leftarrow> c_blit (spi_pixel_buf s) (unat start) (replicate (unat (spi_bytes_per_pixel s) * 3) 0);
       buf \<leftarrow> led_strip_spi_bit (ucast green) (unat start) buf;
       buf \<leftarrow> led_strip_spi_bit (ucast red) (unat (start + 3)) buf;
       buf \<leftarrow> led_strip_spi_bit (ucast blue) (unat (start + 3 * 2)) buf;
       buf \<leftarrow> led_strip_spi_bit (ucast white) (unat (start + 3 * 3)) buf;
       Some (ESP_OK, s\<lparr>spi_pixel_buf := buf\<rparr>, d)
     })"

text \<open>The transaction is \<open>length\<close> bits from the start of the buffer.\<close>

definition led_strip_spi_refresh :: "'d spi_driver \<Rightarrow> 'd spi_state \<Rightarrow> (esp_err \<times> 'd spi_state) option" where
  "led_strip_spi_refresh drv = (\<lambda>(s, d). do {
     dev \<leftarrow> spi_device s;
     let bits = unat (spi_strip_len s * ucast (spi_bytes_per_pixel s) * 24);
     data \<leftarrow> c_slice (spi_pixel_buf s) 0 (bits div 8);
     let (err, d) = spi_device_transmit drv dev bits data d;
     if err \<noteq> ESP_OK then Some (err, s, d) else Some (ESP_OK, s, d)
   })"

definition led_strip_spi_clear :: "'d spi_driver \<Rightarrow> 'd spi_state \<Rightarrow> (esp_err \<times> 'd spi_state) option" where
  "led_strip_spi_clear drv = (\<lambda>(s, d). do {
     buf \<leftarrow> c_blit (spi_pixel_buf s) 0 (replicate (unat (spi_strip_len s * ucast (spi_bytes_per_pixel s) * 3)) 0);
     buf \<leftarrow> m_fold (\<lambda>buf index. led_strip_spi_bit 0 (3 * index) buf) buf
       [0..<unat (spi_strip_len s * ucast (spi_bytes_per_pixel s))];
     led_strip_spi_refresh drv (s\<lparr>spi_pixel_buf := buf\<rparr>, d)
   })"

definition led_strip_spi_del :: "'d spi_driver \<Rightarrow> 'd spi_state \<Rightarrow> (esp_err \<times> 'd spi_state) option" where
  "led_strip_spi_del drv = (\<lambda>(s, d). do {
     dev \<leftarrow> spi_device s;
     let (err, d) = spi_bus_remove_device drv dev d;
     if err \<noteq> ESP_OK then Some (err, s, d)
     else do {
       let (err, d) = spi_bus_free drv (spi_host s) d;
       if err \<noteq> ESP_OK then Some (err, s, d) else Some (ESP_OK, s, spi_free_mem drv d)
     }
   })"

definition spi_ops :: "'d spi_driver \<Rightarrow> 'd spi_state led_strip_ops" where
  "spi_ops drv = \<lparr>set_pixel = led_strip_spi_set_pixel, set_pixel_rgbw = led_strip_spi_set_pixel_rgbw,
     refresh = led_strip_spi_refresh drv, clear = led_strip_spi_clear drv, del_strip = led_strip_spi_del drv\<rparr>"

record led_strip_spi_config =
  spi_clk_src :: nat
  spi_bus :: int
  spi_with_dma :: bool

text \<open>The error exit. Host 0 is not freed; any other host is, whether or not this call initialised it.\<close>

definition new_spi_err :: "'d spi_driver \<Rightarrow> spi_strip \<Rightarrow> 'd \<Rightarrow> 'd" where
  "new_spi_err drv s d =
     (let d = (case spi_device s of Some h \<Rightarrow> snd (spi_bus_remove_device drv h d) | None \<Rightarrow> d);
          d = (if spi_host s \<noteq> 0 then snd (spi_bus_free drv (spi_host s) d) else d)
      in spi_free_mem drv d)"

text \<open>
  \<open>default_clk\<close> is \<open>SPI_CLK_SRC_DEFAULT\<close>. The resolution the code insists on is
  \<open>2.5 * 1000 * 1000 / 1000\<close>, exactly 2500 kHz.
\<close>

definition led_strip_new_spi_device ::
  "'d spi_driver \<Rightarrow> nat \<Rightarrow> led_strip_config option \<Rightarrow> led_strip_spi_config option \<Rightarrow> 'd \<Rightarrow>
    (esp_err \<times> spi_strip option \<times> 'd) option" where
  "led_strip_new_spi_device drv default_clk led_cfg spi_cfg d =
     (case (led_cfg, spi_cfg) of
        (Some led_config, Some spi_config) \<Rightarrow>
          if led_pixel_format led_config = LED_PIXEL_FORMAT_INVALID then Some (ESP_ERR_INVALID_ARG, None, d)
          else do {
            let bpp = pixel_bytes (led_pixel_format led_config);
            let block = unat (36 + max_leds led_config * ucast bpp * 3);
            let (ok, d) = heap_caps_calloc drv block (spi_with_dma spi_config) d;
            if \<not> ok then Some (ESP_ERR_NO_MEM, None, d)
            else do {
              c_assert (36 \<le> block);
              let s = \<lparr>spi_host = spi_bus spi_config, spi_device = None, spi_strip_len = 0, spi_bytes_per_pixel = 0,
                       spi_pixel_buf = replicate (block - 36) 0\<rparr>;
              let (err, d) = spi_bus_initialize drv (spi_host s) (strip_gpio_num led_config)
                (unat (max_leds led_config * ucast bpp * 3)) (spi_with_dma spi_config) d;
              if err \<noteq> ESP_OK then Some (err, None, new_spi_err drv s d)
              else do {
                let d = (if invert_out led_config then gpio_connect_inverted drv (strip_gpio_num led_config) (spi_host s) d else d);
                let ((err, h), d) = spi_bus_add_device drv (spi_host s)
                  (if spi_clk_src spi_config \<noteq> 0 then spi_clk_src spi_config else default_clk) 2500000 d;
                let s = s\<lparr>spi_device := h\<rparr>;
                if err \<noteq> ESP_OK then Some (err, None, new_spi_err drv s d)
                else do {
                  dev \<leftarrow> spi_device s;
                  let (clock_resolution_khz, d) = spi_device_get_actual_freq drv dev d;
                  if clock_resolution_khz \<noteq> 2500 then Some (ESP_ERR_NOT_SUPPORTED, None, new_spi_err drv s d)
                  else Some (ESP_OK, Some (s\<lparr>spi_bytes_per_pixel := bpp, spi_strip_len := max_leds led_config\<rparr>), d)
                }
              }
            }
          }
      | _ \<Rightarrow> Some (ESP_ERR_INVALID_ARG, None, d))"

section \<open>The code on the wire\<close>

definition spi_code :: "u8 \<Rightarrow> bytes" where
  "spi_code data =
     [(if bit data 5 then 0x03 else 0x02) OR (if bit data 6 then 0x18 else 0x10) OR (if bit data 7 then 0xC0 else 0x80),
      0x01 OR (if bit data 3 then 0x0C else 0x08) OR (if bit data 4 then 0x60 else 0x40),
      (if bit data 0 then 0x06 else 0x04) OR (if bit data 1 then 0x30 else 0x20) OR (if bit data 2 then 0x80 else 0x00)]"

text \<open>The middle one of every three bits, and the bits of some bytes, the highest one first.\<close>

definition spi_decode :: "u8 \<Rightarrow> u8 \<Rightarrow> u8 \<Rightarrow> u8" where
  "spi_decode b0 b1 b2 =
     (if bit b2 1 then 0x01 else 0) OR (if bit b2 4 then 0x02 else 0) OR (if bit b2 7 then 0x04 else 0) OR
     (if bit b1 2 then 0x08 else 0) OR (if bit b1 5 then 0x10 else 0) OR (if bit b0 0 then 0x20 else 0) OR
     (if bit b0 3 then 0x40 else 0) OR (if bit b0 6 then 0x80 else 0)"

definition bits_msb :: "bytes \<Rightarrow> bool list" where
  "bits_msb bs = concat (map (\<lambda>b. map (\<lambda>i. bit b (7 - i)) [0..<8]) bs)"

lemma bit_if: "bit (if c then (a :: u8) else b) n \<longleftrightarrow> (if c then bit a n else bit b n)"
  by simp

lemma spi_decode_code: "spi_decode (spi_code v ! 0) (spi_code v ! 1) (spi_code v ! 2) = v"
  unfolding spi_code_def spi_decode_def
  by (rule word_eqI_bits) (simp add: bit_positions bit_or_iff bit_if)

text \<open>A bit of the colour becomes high, the bit, low.\<close>

lemma spi_waveform: "bits_msb (spi_code v) = concat (map (\<lambda>i. [True, bit v (7 - i), False]) [0..<8])"
  unfolding spi_code_def bits_msb_def by (simp add: upt_rec bit_or_iff bit_if)

lemma length_spi_code [simp]: "length (spi_code v) = 3"
  by (simp add: spi_code_def)

lemma led_strip_spi_bit_eq:
  assumes "length pre = p"
  shows "led_strip_spi_bit v p (pre @ [0, 0, 0] @ post) = Some (pre @ spi_code v @ post)"
  using assms
  by (simp add: led_strip_spi_bit_def or_at_def c_load_def c_store_def nth_append list_update_append spi_code_def or.assoc)

text \<open>The colour byte that the three bytes from \<open>3 * q\<close> on encode.\<close>

definition spi_byte :: "bytes \<Rightarrow> nat \<Rightarrow> u8" where
  "spi_byte buf q = spi_decode (buf ! (3 * q)) (buf ! (3 * q + 1)) (buf ! (3 * q + 2))"

definition spi_codes :: "bytes \<Rightarrow> bytes" where
  "spi_codes vs = concat (map spi_code vs)"

lemma spi_codes_simps [simp]: "spi_codes [] = []" "spi_codes (v # vs) = spi_code v @ spi_codes vs"
  "spi_codes (vs @ ws) = spi_codes vs @ spi_codes ws" "length (spi_codes vs) = 3 * length vs"
proof -
  show "length (spi_codes vs) = 3 * length vs" by (induction vs) (simp_all add: spi_codes_def)
qed (simp_all add: spi_codes_def)

lemma spi_byte_append:
  assumes "length pre = 3 * n"
  shows "spi_byte (pre @ xs) q = (if q < n then spi_byte pre q else spi_byte xs (q - n))"
proof (cases "q < n")
  case True
  then show ?thesis using assms by (simp add: spi_byte_def nth_append)
next
  case False
  then obtain r where "q = n + r" by (metis le_add_diff_inverse not_less)
  then show ?thesis using assms by (simp add: spi_byte_def nth_append add_mult_distrib2)
qed

lemma spi_byte_codes: "q < length vs \<Longrightarrow> spi_byte (spi_codes vs) q = vs ! q"
proof (induction vs arbitrary: q)
  case Nil
  then show ?case by simp
next
  case (Cons v vs)
  have "spi_byte (spi_code v) 0 = v" using spi_decode_code [of v] by (simp add: spi_byte_def numeral_2_eq_2)
  then show ?case
    using Cons by (simp add: spi_byte_append [of _ 1] nth_Cons split: nat.split)
qed

text \<open>Writing one more code into the zeroed cells behind the last one.\<close>

lemma spi_bit_next:
  assumes "p = length pre + 3 * length vs"
  shows "led_strip_spi_bit v p (pre @ spi_codes vs @ replicate (3 * Suc m) 0 @ post) =
    Some (pre @ spi_codes (vs @ [v]) @ replicate (3 * m) 0 @ post)"
  using led_strip_spi_bit_eq [of "pre @ spi_codes vs" p v "replicate (3 * m) 0 @ post"] assms
  by (simp add: numeral_3_eq_3)

lemma spi_clear_loop:
  "k \<le> n \<Longrightarrow> m_fold (\<lambda>buf index. led_strip_spi_bit 0 (3 * index) buf) (replicate (3 * n) 0) [0..<k] =
    Some (spi_codes (replicate k 0) @ replicate (3 * (n - k)) 0)"
proof (induction k)
  case 0
  then show ?case by simp
next
  case (Suc k)
  then obtain m where m: "n - k = Suc m" "n - Suc k = m" by (metis Suc_diff_Suc less_eq_Suc_le)
  then show ?case
    using Suc spi_bit_next [of "3 * k" "[]" "replicate k 0" 0 m "[]"]
    by (simp add: m_fold_append replicate_append_same)
qed
section \<open>The SPI back end meets the contract\<close>

definition spi_inv :: "'d spi_state \<Rightarrow> bool" where
  "spi_inv = (\<lambda>(s, d). spi_bytes_per_pixel s \<in> {3, 4} \<and>
     unat (spi_strip_len s) * (unat (spi_bytes_per_pixel s) * 3) < 2 ^ 32 \<and>
     length (spi_pixel_buf s) = unat (spi_strip_len s) * (unat (spi_bytes_per_pixel s) * 3) \<and> spi_device s \<noteq> None)"

definition spi_colour :: "'d spi_state \<Rightarrow> nat \<Rightarrow> rgbw" where
  "spi_colour = (\<lambda>(s, d) j. let p = j * unat (spi_bytes_per_pixel s); buf = spi_pixel_buf s in
     (spi_byte buf (p + 1), spi_byte buf p, spi_byte buf (p + 2),
      if spi_bytes_per_pixel s = 4 then spi_byte buf (p + 3) else 0))"

abbreviation spi_leds :: "'d spi_state \<Rightarrow> nat" where
  "spi_leds st \<equiv> unat (spi_strip_len (fst st))"

abbreviation spi_white :: "'d spi_state \<Rightarrow> bool" where
  "spi_white st \<equiv> spi_bytes_per_pixel (fst st) = 4"

text \<open>The buffer after one LED has been rewritten.\<close>

definition spi_put :: "bytes \<Rightarrow> nat \<Rightarrow> bytes \<Rightarrow> bytes" where
  "spi_put buf a vs = take (3 * a) buf @ spi_codes vs @ drop (3 * (a + length vs)) buf"

lemma length_spi_put: "3 * (a + length vs) \<le> length buf \<Longrightarrow> length (spi_put buf a vs) = length buf"
  by (simp add: spi_put_def)

lemma spi_byte_put:
  assumes "3 * (a + length vs) \<le> length buf"
  shows "spi_byte (spi_put buf a vs) q = (if q < a then spi_byte buf q else if q < a + length vs then vs ! (q - a) else spi_byte buf q)"
proof -
  have "spi_byte (take (3 * a) buf) q = spi_byte buf q" if "q < a"
    using that by (simp add: spi_byte_def)
  moreover have "spi_byte (drop (3 * (a + length vs)) buf) (q - a - length vs) = spi_byte buf q" if "a + length vs \<le> q"
  proof -
    have "3 * (a + length vs) + 3 * (q - a - length vs) = 3 * q" using that by simp
    then show ?thesis using assms by (simp add: spi_byte_def nth_drop add.assoc [symmetric] del: add_mult_distrib2)
  qed
  ultimately show ?thesis
    using assms spi_byte_append [of "take (3 * a) buf" a] spi_byte_append [of "spi_codes vs" "length vs"]
    by (auto simp: spi_put_def spi_byte_codes)
qed

text \<open>Zeroing the cells of an LED and writing its codes, as both setters do.\<close>

lemma spi_start:
  assumes "unat i < unat n" "unat n * (k * 3) < 2 ^ 32" "c < k" "k < 5"
  shows "unat ((i :: u32) * word_of_nat k * 3 + word_of_nat (3 * c)) = 3 * (unat i * k) + 3 * c"
    "3 * (unat i * k) + k * 3 \<le> unat (n :: u32) * (k * 3)"
proof -
  have "unat i * (k * 3) + k * 3 \<le> unat n * (k * 3)"
    using assms(1) by (metis Suc_leI mult.commute mult_Suc mult_le_mono2 add.commute)
  then show "3 * (unat i * k) + k * 3 \<le> unat n * (k * 3)" by (simp add: ac_simps)
  have "3 * c < k * 3" using assms(3) by simp
  then show "unat (i * word_of_nat k * 3 + word_of_nat (3 * c)) = 3 * (unat i * k) + 3 * c"
    using unat_pixel_start(1) [of i n "k * 3" "3 * c"] assms by (simp add: ac_simps)
qed

lemma spi_blit:
  assumes "3 * a + k * 3 \<le> length buf"
  shows "c_blit buf (3 * a) (replicate (k * 3) 0) = Some (take (3 * a) buf @ replicate (3 * k) 0 @ drop (3 * (a + k)) buf)"
  using assms by (simp add: c_blit_def ac_simps)

text \<open>A pixel of four bytes, step by step.\<close>

definition spi_four :: "bytes \<Rightarrow> nat \<Rightarrow> bytes \<Rightarrow> bytes option" where
  "spi_four buf p vs = do {
     buf \<leftarrow> c_blit buf p (replicate 12 0);
     buf \<leftarrow> led_strip_spi_bit (vs ! 0) p buf;
     buf \<leftarrow> led_strip_spi_bit (vs ! 1) (p + 3) buf;
     buf \<leftarrow> led_strip_spi_bit (vs ! 2) (p + 6) buf;
     led_strip_spi_bit (vs ! 3) (p + 9) buf
   }"

lemma spi_four_eq:
  assumes "3 * a + 12 \<le> length buf"
  shows "spi_four buf (3 * a) [v0, v1, v2, v3] = Some (spi_put buf a [v0, v1, v2, v3])"
proof -
  define pre where "pre = take (3 * a) buf"
  define post where "post = drop (3 * (a + 4)) buf"
  have pre: "length pre = 3 * a" using assms by (simp add: pre_def)
  have "c_blit buf (3 * a) (replicate 12 0) = Some (pre @ spi_codes [] @ replicate (3 * Suc 3) 0 @ post)"
    using spi_blit [of a 4 buf] assms by (simp add: pre_def post_def)
  then show ?thesis
    using pre spi_bit_next [of "3 * a" pre "[]" v0 3 post] spi_bit_next [of "3 * a + 3" pre "[v0]" v1 2 post]
      spi_bit_next [of "3 * a + 6" pre "[v0, v1]" v2 1 post] spi_bit_next [of "3 * a + 9" pre "[v0, v1, v2]" v3 0 post]
    by (simp add: spi_four_def spi_put_def pre_def [symmetric] post_def add.commute [of 12])
qed

lemma spi_set_pixel_in:
  assumes "spi_inv (s, d)" "unat i < unat (spi_strip_len s)"
  shows "led_strip_spi_set_pixel i r g b (s, d) = Some (ESP_OK, s\<lparr>spi_pixel_buf :=
    spi_put (spi_pixel_buf s) (unat i * unat (spi_bytes_per_pixel s))
      ([ucast g, ucast r, ucast b] @ (if spi_bytes_per_pixel s = 4 then [0] else []))\<rparr>, d)"
proof -
  have lt: "i < spi_strip_len s" using assms(2) by (simp add: word_less_nat_alt)
  consider (three) "spi_bytes_per_pixel s = 3" | (four) "spi_bytes_per_pixel s = 4"
    using assms(1) by (auto simp: spi_inv_def)
  then show ?thesis
  proof cases
    case three
    have len: "unat (spi_strip_len s) * (3 * 3) < 2 ^ 32" "length (spi_pixel_buf s) = unat (spi_strip_len s) * (3 * 3)"
      using assms(1) three by (auto simp: spi_inv_def)
    note at = spi_start [OF assms(2) len(1)]
    define pre where "pre = take (3 * (unat i * 3)) (spi_pixel_buf s)"
    define post where "post = drop (3 * (unat i * 3 + 3)) (spi_pixel_buf s)"
    have pre: "length pre = 3 * (unat i * 3)" using at(2) [of 0] len(2) by (simp add: pre_def)
    have blit: "c_blit (spi_pixel_buf s) (3 * (unat i * 3)) (replicate (3 * 3) 0) = Some (pre @ spi_codes [] @ replicate (3 * Suc 2) 0 @ post)"
      using spi_blit [of "unat i * 3" 3 "spi_pixel_buf s"] at(2) [of 0] len(2) by (simp add: pre_def post_def)
    show ?thesis
      using three lt at(1) [of 0] at(1) [of 1] at(1) [of 2] blit
        spi_bit_next [of "3 * (unat i * 3) + 3 * 0" pre "[]" "ucast g" 2 post]
        spi_bit_next [of "3 * (unat i * 3) + 3 * 1" pre "[ucast g]" "ucast r" 1 post]
        spi_bit_next [of "3 * (unat i * 3) + 3 * 2" pre "[ucast g, ucast r]" "ucast b" 0 post] pre
      by (simp add: led_strip_spi_set_pixel_def spi_put_def Let_def pre_def post_def add.commute [of 9])
  next
    case four
    have len: "unat (spi_strip_len s) * (4 * 3) < 2 ^ 32" "length (spi_pixel_buf s) = unat (spi_strip_len s) * (4 * 3)"
      using assms(1) four by (auto simp: spi_inv_def)
    note at = spi_start [OF assms(2) len(1)]
    have "3 * (unat i * 4) + 12 \<le> length (spi_pixel_buf s)" using at(2) [of 0] len(2) by simp
    from spi_four_eq [OF this, of "ucast g" "ucast r" "ucast b" 0] show ?thesis
      using four lt at(1) [of 0] at(1) [of 1] at(1) [of 2] at(1) [of 3]
      by (auto simp: led_strip_spi_set_pixel_def spi_four_def Let_def bind_eq_Some_conv)
  qed
qed

lemma spi_set_pixel_rgbw_in:
  assumes "spi_inv (s, d)" "unat i < unat (spi_strip_len s)" "spi_bytes_per_pixel s = 4"
  shows "led_strip_spi_set_pixel_rgbw i r g b w (s, d) = Some (ESP_OK, s\<lparr>spi_pixel_buf :=
    spi_put (spi_pixel_buf s) (unat i * 4) [ucast g, ucast r, ucast b, ucast w]\<rparr>, d)"
proof -
  have lt: "i < spi_strip_len s" using assms(2) by (simp add: word_less_nat_alt)
  have len: "unat (spi_strip_len s) * (4 * 3) < 2 ^ 32" "length (spi_pixel_buf s) = unat (spi_strip_len s) * (4 * 3)"
    using assms(1,3) by (auto simp: spi_inv_def)
  note at = spi_start [OF assms(2) len(1)]
  have "3 * (unat i * 4) + 12 \<le> length (spi_pixel_buf s)" using at(2) [of 0] len(2) by simp
  from spi_four_eq [OF this, of "ucast g" "ucast r" "ucast b" "ucast w"] show ?thesis
    using assms(3) lt at(1) [of 0] at(1) [of 1] at(1) [of 2] at(1) [of 3]
    by (auto simp: led_strip_spi_set_pixel_rgbw_def spi_four_def Let_def bind_eq_Some_conv)
qed

lemma spi_byte_put_block:
  assumes "3 * (i * k + k) \<le> length buf" "length vs = k" "c < k"
  shows "spi_byte (spi_put buf (i * k) vs) (j * k + c) = (if j = i then vs ! c else spi_byte buf (j * k + c))"
proof -
  have step: "m * k + k \<le> n * k" if "m < n" for m n :: nat
    using that by (metis Suc_leI mult.commute mult_Suc mult_le_mono2 add.commute)
  consider "j < i" | "j = i" | "i < j" by linarith
  then show ?thesis
    using step [of j i] step [of i j] assms by cases (auto simp: spi_byte_put)
qed

lemma spi_put_state:
  assumes "spi_inv (s, d)" "i < unat (spi_strip_len s)" "length vs = unat (spi_bytes_per_pixel s)"
  defines "s' \<equiv> s\<lparr>spi_pixel_buf := spi_put (spi_pixel_buf s) (i * unat (spi_bytes_per_pixel s)) vs\<rparr>"
  shows "spi_inv (s', d)"
    "j < unat (spi_strip_len s) \<Longrightarrow> spi_colour (s', d) j =
      (if j = i then (vs ! 1, vs ! 0, vs ! 2, if spi_bytes_per_pixel s = 4 then vs ! 3 else 0) else spi_colour (s, d) j)"
proof -
  have "i * (unat (spi_bytes_per_pixel s) * 3) + unat (spi_bytes_per_pixel s) * 3 \<le> unat (spi_strip_len s) * (unat (spi_bytes_per_pixel s) * 3)"
    using assms(2) by (metis Suc_leI mult.commute mult_Suc mult_le_mono2 add.commute)
  then have room: "3 * (i * unat (spi_bytes_per_pixel s) + length vs) \<le> length (spi_pixel_buf s)"
    using assms(1,3) by (auto simp: spi_inv_def)
  then show "spi_inv (s', d)"
    using assms(1) by (simp add: spi_inv_def s'_def length_spi_put)
  consider (three) "spi_bytes_per_pixel s = 3" | (four) "spi_bytes_per_pixel s = 4"
    using assms(1) by (auto simp: spi_inv_def)
  then show "spi_colour (s', d) j =
      (if j = i then (vs ! 1, vs ! 0, vs ! 2, if spi_bytes_per_pixel s = 4 then vs ! 3 else 0) else spi_colour (s, d) j)"
    if "j < unat (spi_strip_len s)"
  proof cases
    case three
    then show ?thesis
      using spi_byte_put_block [of i 3 "spi_pixel_buf s" vs 0] spi_byte_put_block [of i 3 "spi_pixel_buf s" vs 1]
        spi_byte_put_block [of i 3 "spi_pixel_buf s" vs 2] room assms(3) by (simp add: spi_colour_def s'_def Let_def)
  next
    case four
    then show ?thesis
      using spi_byte_put_block [of i 4 "spi_pixel_buf s" vs 0] spi_byte_put_block [of i 4 "spi_pixel_buf s" vs 1]
        spi_byte_put_block [of i 4 "spi_pixel_buf s" vs 2] spi_byte_put_block [of i 4 "spi_pixel_buf s" vs 3]
        room assms(3) by (simp add: spi_colour_def s'_def Let_def)
  qed
qed

lemma unat_mult_le: "unat (x * y) \<le> unat (x :: u32) * unat y"
  by (simp add: unat_word_ariths)

lemma unat_ucast_up: "unat (ucast (x :: u8) :: u32) = unat x"
proof -
  have "unat x < 2 ^ LENGTH(8)" by (rule unsigned_less)
  then show ?thesis by (simp add: unsigned_ucast_eq take_bit_nat_eq_self)
qed

lemma spi_refresh_keeps:
  assumes "spi_inv (s, d)"
  shows "\<exists>err d'. led_strip_spi_refresh drv (s, d) = Some (err, s, d')"
proof -
  obtain dev where dev: "spi_device s = Some dev" using assms by (auto simp: spi_inv_def)
  let ?bits = "unat (spi_strip_len s * ucast (spi_bytes_per_pixel s) * 24)"
  have "?bits \<le> unat (spi_strip_len s) * unat (spi_bytes_per_pixel s) * 24"
    using unat_mult_le [of "spi_strip_len s * ucast (spi_bytes_per_pixel s)" 24]
      unat_mult_le [of "spi_strip_len s" "ucast (spi_bytes_per_pixel s)"] by (simp add: unat_ucast_up)
  then have "?bits div 8 \<le> length (spi_pixel_buf s)"
    using assms by (auto simp: spi_inv_def)
  then obtain data where data: "c_slice (spi_pixel_buf s) 0 (?bits div 8) = Some data" by (simp add: c_slice_def)
  obtain err d' where "spi_device_transmit drv dev ?bits data d = (err, d')" by (metis surj_pair)
  then show ?thesis using dev data by (simp add: led_strip_spi_refresh_def)
qed

lemma spi_clear_eq:
  assumes "spi_inv (s, d)"
  shows "led_strip_spi_clear drv (s, d) = led_strip_spi_refresh drv
    (s\<lparr>spi_pixel_buf := spi_codes (replicate (unat (spi_strip_len s) * unat (spi_bytes_per_pixel s)) 0)\<rparr>, d)"
proof -
  let ?n = "unat (spi_strip_len s) * unat (spi_bytes_per_pixel s)"
  have n: "3 * ?n < 2 ^ 32" "length (spi_pixel_buf s) = 3 * ?n" using assms by (auto simp: spi_inv_def)
  then have "unat (spi_strip_len s * ucast (spi_bytes_per_pixel s)) = ?n"
    by (simp add: unat_word_ariths unat_ucast_up)
  moreover from n have "unat (spi_strip_len s * ucast (spi_bytes_per_pixel s) * 3) = 3 * ?n"
    by (simp add: unat_word_ariths unat_ucast_up)
  ultimately show ?thesis
    using n(2) spi_clear_loop [of ?n ?n] by (simp add: led_strip_spi_clear_def c_blit_def)
qed

interpretation spi: led_backend "spi_ops drv" spi_inv spi_leds spi_white spi_colour
proof (unfold_locales, goal_cases)
  case (1 st i r g b)
  obtain s d where st: "st = (s, d)" by (cases st)
  have "length ([ucast g, ucast r, ucast b] @ (if spi_bytes_per_pixel s = 4 then [0] else [])) = unat (spi_bytes_per_pixel s)"
    using 1 by (auto simp: st spi_inv_def)
  from spi_put_state [OF _ _ this, of d "unat i"] spi_set_pixel_in [of s d i r g b] 1 show ?case
    by (auto simp: st spi_ops_def)
next
  case (2 s i r g b)
  then show ?case by (auto simp: spi_ops_def led_strip_spi_set_pixel_def word_less_nat_alt split: prod.split)
next
  case (3 st i r g b w)
  obtain s d where st: "st = (s, d)" by (cases st)
  have "length [ucast g, ucast r, ucast b, ucast w] = unat (spi_bytes_per_pixel s)"
    using 3 by (simp add: st)
  from spi_put_state [OF _ _ this, of d "unat i"] spi_set_pixel_rgbw_in [of s d i r g b w] 3 show ?case
    by (auto simp: st spi_ops_def)
next
  case (4 s i r g b w)
  then show ?case by (auto simp: spi_ops_def led_strip_spi_set_pixel_rgbw_def word_less_nat_alt split: prod.split)
next
  case (5 st)
  obtain s d where st: "st = (s, d)" by (cases st)
  obtain err d' where "led_strip_spi_refresh drv (s, d) = Some (err, s, d')"
    using spi_refresh_keeps [OF 5 [unfolded st], of drv] by blast
  then show ?case
    using 5 by (simp add: st spi_ops_def spi_colour_def spi_inv_def)
next
  case (6 st)
  obtain s d where st: "st = (s, d)" by (cases st)
  let ?buf = "spi_codes (replicate (unat (spi_strip_len s) * unat (spi_bytes_per_pixel s)) 0)"
  let ?s = "s\<lparr>spi_pixel_buf := ?buf\<rparr>"
  have inv: "spi_inv (?s, d)" using 6 by (auto simp: st spi_inv_def)
  from spi_refresh_keeps [OF this, of drv] obtain err d' where "led_strip_spi_refresh drv (?s, d) = Some (err, ?s, d')"
    by blast
  moreover have "spi_inv (?s, d')" using inv by (simp add: spi_inv_def)
  moreover have "spi_colour (?s, d') j = led_off" if "j < unat (spi_strip_len s)" for j
  proof -
    have "j * unat (spi_bytes_per_pixel s) + unat (spi_bytes_per_pixel s) \<le> unat (spi_strip_len s) * unat (spi_bytes_per_pixel s)"
      using that by (metis Suc_leI mult.commute mult_Suc mult_le_mono2 add.commute)
    then show ?thesis
      using 6 by (auto simp: st spi_inv_def spi_colour_def led_off_def Let_def spi_byte_codes)
  qed
  ultimately show ?case
    using 6 spi_clear_eq [of s d drv] by (auto simp: st spi_ops_def)
qed

section \<open>Property\<close>

text \<open>C18: whatever sequence of calls a program makes through the API (pixels in and out of range, RGB, HSV,
  RGBW, refresh, clear), the RMT and the SPI back end accept it without leaving their buffers and hold
  the same colours afterwards, those of the abstract strip on which each call has its plain meaning.\<close>

theorem led_backends_agree:
  assumes "rmt_inv st" "spi_inv st'" "rmt_leds st = n" "spi_leds st' = n" "rmt_white st = spi_white st'"
    and "\<forall>j < n. rmt_colour st j = spi_colour st' j"
  shows "\<exists>r s. m_fold (led_exec (rmt_ops drv)) st cmds = Some r \<and> m_fold (led_exec (spi_ops drv')) st' cmds = Some s \<and>
    (\<forall>j < n. rmt_colour r j = fold (led_spec (rmt_white st)) cmds (rmt_colour st) j \<and> spi_colour s j = rmt_colour r j)"
  using rmt.exec_all_spec [OF assms(1,3) refl, of "rmt_colour st" drv cmds]
    spi.exec_all_spec [OF assms(2,4) refl, of "rmt_colour st" drv' cmds] assms(5,6) by auto

definition one_rmt_led :: "window rmt_state" where
  "one_rmt_led = (\<lparr>rmt_chan = Some 1, strip_encoder = Some ws2812_encoder, rmt_strip_len = 1, rmt_bytes_per_pixel = 3,
     rmt_pixel_buf = [0, 0, 0]\<rparr>, \<lparr>win_pos = 0, win_out = []\<rparr>)"

definition one_spi_led :: "unit spi_state" where
  "one_spi_led = (\<lparr>spi_host = 2, spi_device = Some 1, spi_strip_len = 1, spi_bytes_per_pixel = 3,
     spi_pixel_buf = spi_codes [0, 0, 0]\<rparr>, ())"

definition spi_stub :: "unit spi_driver" where
  "spi_stub = \<lparr>heap_caps_calloc = (\<lambda>n dma d. (True, d)), spi_free_mem = (\<lambda>d. d),
     spi_bus_initialize = (\<lambda>h g n dma d. (ESP_OK, d)), gpio_connect_inverted = (\<lambda>g h d. d),
     spi_bus_add_device = (\<lambda>h c f d. ((ESP_OK, Some 1), d)), spi_device_get_actual_freq = (\<lambda>h d. (2500, d)),
     spi_device_transmit = (\<lambda>h n bs d. (ESP_OK, d)), spi_bus_remove_device = (\<lambda>h d. (ESP_OK, d)),
     spi_bus_free = (\<lambda>h d. (ESP_OK, d))\<rparr>"

lemma one_led_facts:
  "rmt_inv one_rmt_led" "spi_inv one_spi_led" "rmt_leds one_rmt_led = 1" "spi_leds one_spi_led = 1"
  "rmt_white one_rmt_led = spi_white one_spi_led" "rmt_colour one_rmt_led 0 = led_off" "spi_colour one_spi_led 0 = led_off"
proof -
  have "spi_byte (spi_codes [0, 0, 0]) q = 0" if "q < 3" for q
    using that spi_byte_codes [of q "[0, 0, 0]"] by (auto simp: nth_Cons' less_Suc_eq numeral_3_eq_3)
  then show "spi_colour one_spi_led 0 = led_off"
    by (simp add: one_spi_led_def spi_colour_def led_off_def Let_def del: spi_codes_simps)
qed (simp_all add: one_rmt_led_def rmt_inv_def one_spi_led_def spi_inv_def rmt_colour_def led_off_def)

theorem led_backends_agree_witness:
  "\<exists>r s. m_fold (led_exec (rmt_ops (encoder_stub demo_timing 8))) one_rmt_led [Paint 0 1 2 3, Paint 5 9 9 9, Refresh] = Some r \<and>
    m_fold (led_exec (spi_ops spi_stub)) one_spi_led [Paint 0 1 2 3, Paint 5 9 9 9, Refresh] = Some s \<and>
    rmt_colour r 0 = (1, 2, 3, 0) \<and> spi_colour s 0 = (1, 2, 3, 0)"
  using led_backends_agree [OF one_led_facts(1-5), of "encoder_stub demo_timing 8" "[Paint 0 1 2 3, Paint 5 9 9 9, Refresh]" spi_stub]
    one_led_facts(6,7) by auto

text \<open>
  A failed \<open>spi_bus_initialize\<close> still ends in \<open>spi_bus_free\<close> of that host (other than host 0),
  so the bus of the driver that holds it is freed.
\<close>

lemma spi_new_frees_foreign_bus:
  assumes "led_pixel_format cfg \<noteq> LED_PIXEL_FORMAT_INVALID" "spi_bus scfg \<noteq> 0" "unat (max_leds cfg) < 2 ^ 24"
    and "\<And>n dma. heap_caps_calloc drv n dma d = (True, d1)"
    and "\<And>g n dma. spi_bus_initialize drv (spi_bus scfg) g n dma d1 = (err, d2)" "err \<noteq> ESP_OK"
  shows "led_strip_new_spi_device drv clk (Some cfg) (Some scfg) d =
    Some (err, None, spi_free_mem drv (snd (spi_bus_free drv (spi_bus scfg) d2)))"
proof -
  have "unat (36 + max_leds cfg * ucast k * 3 :: u32) = 36 + unat (max_leds cfg) * unat k * 3" if "k = 3 \<or> k = 4" for k :: u8
    using assms(3) that by (auto simp: unat_word_ariths)
  then show ?thesis
    using assms by (simp add: led_strip_new_spi_device_def new_spi_err_def pixel_bytes_def)
qed

end
