(* ===== verification/Led_Board.thy ===== *)
theory Led_Board
  imports Led_Spi
begin

text \<open>
  What the RMT back end does with the driver's resources, and what the board's LED shows: the
  contract \<open>rmt_contract\<close> collects what ESP-IDF documents of its RMT calls (which ones create
  and release an object, and that a channel must be disabled before it is enabled, and enabled
  before it transmits), and the theorems are about construction, refresh and \<open>set_led\<close>.
\<close>

section \<open>The driver's contract\<close>

text \<open>
  \<open>live\<close> counts the objects and heap blocks the driver has handed out, \<open>enabled\<close> is the
  state of the channel, \<open>sent\<close> the buffers whose transmission was accepted.
\<close>

locale rmt_contract =
  fixes drv :: "'d rmt_driver"
    and live :: "'d \<Rightarrow> nat"
    and enabled :: "'d \<Rightarrow> bool"
    and sent :: "'d \<Rightarrow> bytes list"
  assumes calloc_law: "calloc drv n d = (ok, d') \<Longrightarrow>
      live d' = live d + (if ok then 1 else 0) \<and> enabled d' = enabled d \<and> sent d' = sent d"
    and free_law: "live (free_mem drv d) = live d - 1 \<and> enabled (free_mem drv d) = enabled d \<and> sent (free_mem drv d) = sent d"
    and new_channel_law: "rmt_new_tx_channel drv c d = ((err, ho), d') \<Longrightarrow> (err = ESP_OK \<longleftrightarrow> ho \<noteq> None) \<and>
      live d' = live d + (if err = ESP_OK then 1 else 0) \<and> enabled d' = enabled d \<and> sent d' = sent d"
    and new_bytes_law: "rmt_new_bytes_encoder drv cfg d = ((err, ho), d') \<Longrightarrow> (err = ESP_OK \<longleftrightarrow> ho \<noteq> None) \<and>
      live d' = live d + (if err = ESP_OK then 1 else 0) \<and> enabled d' = enabled d \<and> sent d' = sent d"
    and new_copy_law: "rmt_new_copy_encoder drv d = ((err, ho), d') \<Longrightarrow> (err = ESP_OK \<longleftrightarrow> ho \<noteq> None) \<and>
      live d' = live d + (if err = ESP_OK then 1 else 0) \<and> enabled d' = enabled d \<and> sent d' = sent d"
    and del_channel_law: "\<not> enabled d \<Longrightarrow> rmt_del_channel drv h d = (err, d') \<Longrightarrow>
      err = ESP_OK \<and> live d' = live d - 1 \<and> \<not> enabled d' \<and> sent d' = sent d"
    and del_encoder_law: "rmt_del_encoder drv h d = (err, d') \<Longrightarrow>
      err = ESP_OK \<and> live d' = live d - 1 \<and> enabled d' = enabled d \<and> sent d' = sent d"
    and enable_law: "rmt_enable drv h d = (err, d') \<Longrightarrow> live d' = live d \<and> sent d' = sent d \<and>
      (if enabled d then err = ESP_ERR_INVALID_STATE \<and> enabled d' else enabled d' \<longleftrightarrow> err = ESP_OK)"
    and transmit_law: "rmt_transmit drv h e bs d = (err, d') \<Longrightarrow> live d' = live d \<and> enabled d' = enabled d \<and>
      sent d' = (if err = ESP_OK then sent d @ [bs] else sent d)"
    and wait_law: "rmt_tx_wait_all_done drv h d = (err, d') \<Longrightarrow> live d' = live d \<and> enabled d' = enabled d \<and> sent d' = sent d"
    and disable_law: "rmt_disable drv h d = (err, d') \<Longrightarrow> live d' = live d \<and> sent d' = sent d \<and>
      (if enabled d then enabled d' \<longleftrightarrow> err \<noteq> ESP_OK else \<not> enabled d')"
begin

text \<open>Making and releasing the encoder.\<close>

lemma del_encoder_live:
  assumes "bytes_encoder enc = Some b" "copy_encoder enc = Some c" "n + 3 = live d"
  shows "\<exists>d'. rmt_del_led_strip_encoder drv enc d = Some (ESP_OK, d') \<and> live d' = n \<and> enabled d' = enabled d \<and> sent d' = sent d"
proof -
  obtain e1 d1 where 1: "rmt_del_encoder drv b d = (e1, d1)" by (metis surj_pair)
  obtain e2 d2 where 2: "rmt_del_encoder drv c d1 = (e2, d2)" by (metis surj_pair)
  show ?thesis
    using assms 1 2 del_encoder_law [OF 1] del_encoder_law [OF 2] free_law [of d2]
    by (auto simp: rmt_del_led_strip_encoder_def)
qed

lemma new_encoder_live:
  shows "\<exists>err e d'. rmt_new_led_strip_encoder drv (Some cfg) d = Some (err, e, d') \<and> enabled d' = enabled d \<and> sent d' = sent d \<and>
    (if err = ESP_OK then live d' = live d + 3 \<and> (\<exists>enc b c. e = Some enc \<and> bytes_encoder enc = Some b \<and> copy_encoder enc = Some c)
     else live d' = live d \<and> e = None)"
proof (cases "enc_led_model cfg = LED_MODEL_INVALID")
  case True
  then show ?thesis by (simp add: rmt_new_led_strip_encoder_def esp_err_defs)
next
  case False
  then obtain timing where t: "bytes_timing (resolution cfg) (enc_led_model cfg) = Some timing"
    by (cases "enc_led_model cfg") auto
  obtain ok d1 where 1: "calloc drv 28 d = (ok, d1)" by (metis surj_pair)
  obtain e2 b d2 where 2: "rmt_new_bytes_encoder drv timing d1 = ((e2, b), d2)" by (metis surj_pair)
  obtain e3 c d3 where 3: "rmt_new_copy_encoder drv d2 = ((e3, c), d3)" by (metis surj_pair)
  note laws = calloc_law [OF 1] new_bytes_law [OF 2] new_copy_law [OF 3]
  consider (nomem) "\<not> ok" | (nobytes) "ok" "e2 \<noteq> ESP_OK" | (nocopy) "ok" "e2 = ESP_OK" "e3 \<noteq> ESP_OK"
    | (made) "ok" "e2 = ESP_OK" "e3 = ESP_OK" by blast
  then show ?thesis
  proof cases
    case nomem
    then show ?thesis using False 1 laws by (simp add: rmt_new_led_strip_encoder_def esp_err_defs)
  next
    case nobytes
    then show ?thesis using False 1 2 t laws free_law [of d2]
      by (simp add: rmt_new_led_strip_encoder_def new_encoder_err_def zero_encoder_def)
  next
    case nocopy
    then obtain h where b: "b = Some h" using laws by auto
    obtain e4 d4 where 4: "rmt_del_encoder drv h d3 = (e4, d4)" by (metis surj_pair)
    show ?thesis using nocopy False 1 2 3 4 b t laws del_encoder_law [OF 4] free_law [of d4]
      by (simp add: rmt_new_led_strip_encoder_def new_encoder_err_def zero_encoder_def)
  next
    case made
    then show ?thesis using False 1 2 3 t laws
      by (auto simp: rmt_new_led_strip_encoder_def zero_encoder_def)
  qed
qed

end

section \<open>Construction, refresh and release\<close>

lemma rmt_block_size:
  assumes "unat n * 4 + 36 < 2 ^ 32" "k = 3 \<or> k = 4"
  shows "unat (36 + (n :: u32) * ucast (k :: u8)) = 36 + unat n * unat k"
  using assms by (auto simp: unat_word_ariths)

context rmt_contract
begin

lemma new_device_live:
  assumes off: "\<not> enabled d" and size: "unat (max_leds lc) * 4 + 36 < 2 ^ 32"
  shows "\<exists>err so d'. led_strip_new_rmt_device drv clk (Some lc) (Some rc) d = Some (err, so, d') \<and> \<not> enabled d' \<and> sent d' = sent d \<and>
    (if err = ESP_OK
     then live d' = live d + 5 \<and> (\<exists>s enc b c. so = Some s \<and> rmt_inv (s, d') \<and> rmt_strip_len s = max_leds lc \<and>
       (rmt_bytes_per_pixel s = 4 \<longleftrightarrow> led_pixel_format lc = LED_PIXEL_FORMAT_GRBW) \<and> set (rmt_pixel_buf s) \<subseteq> {0} \<and>
       strip_encoder s = Some enc \<and> bytes_encoder enc = Some b \<and> copy_encoder enc = Some c)
     else live d' = live d \<and> so = None)"
proof (cases "led_pixel_format lc = LED_PIXEL_FORMAT_INVALID")
  case True
  then show ?thesis using off by (simp add: led_strip_new_rmt_device_def esp_err_defs)
next
  case False
  let ?bpp = "pixel_bytes (led_pixel_format lc)"
  define block where "block = 36 + unat (max_leds lc) * unat ?bpp"
  have bpp: "?bpp = 3 \<or> ?bpp = 4" "?bpp = 4 \<longleftrightarrow> led_pixel_format lc = LED_PIXEL_FORMAT_GRBW" by (simp_all add: pixel_bytes_def)
  then have block: "unat (36 + max_leds lc * ucast ?bpp) = block" "36 \<le> block" "block - 36 = unat (max_leds lc) * unat ?bpp"
    using rmt_block_size [OF size] by (simp_all add: block_def)
  obtain ok d1 where 1: "calloc drv block d = (ok, d1)" by (metis surj_pair)
  obtain e2 h d2 where 2: "rmt_new_tx_channel drv (rmt_chan_config clk lc rc) d1 = ((e2, h), d2)" by (metis surj_pair)
  obtain e3 e d3 where 3: "rmt_new_led_strip_encoder drv (Some \<lparr>resolution = rmt_resolution rc, enc_led_model = led_model lc\<rparr>) d2 = Some (e3, e, d3)"
      "enabled d3 = enabled d2" "sent d3 = sent d2"
      "if e3 = ESP_OK then live d3 = live d2 + 3 \<and> (\<exists>enc b c. e = Some enc \<and> bytes_encoder enc = Some b \<and> copy_encoder enc = Some c)
       else live d3 = live d2 \<and> e = None"
    using new_encoder_live by blast
  note laws = calloc_law [OF 1] new_channel_law [OF 2]
  note new_def = led_strip_new_rmt_device_def Let_def block(1)
  consider (nomem) "\<not> ok" | (nochan) "ok" "e2 \<noteq> ESP_OK" | (noenc) "ok" "e2 = ESP_OK" "e3 \<noteq> ESP_OK"
    | (made) "ok" "e2 = ESP_OK" "e3 = ESP_OK" by blast
  then show ?thesis
  proof cases
    case nomem
    then show ?thesis using False off laws 1 by (simp add: new_def esp_err_defs)
  next
    case nochan
    then show ?thesis using False off laws 1 2 block(2) free_law [of d2] by (simp add: new_def new_rmt_err_def)
  next
    case noenc
    then obtain hc where h: "h = Some hc" using laws by auto
    obtain e4 d4 where 4: "rmt_del_channel drv hc d3 = (e4, d4)" by (metis surj_pair)
    have "\<not> enabled d3" using off laws 3(2) by simp
    from del_channel_law [OF this 4] show ?thesis
      using noenc False off laws 1 2 3 4 h block(2) free_law [of d4] by (simp add: new_def new_rmt_err_def)
  next
    case made
    then obtain hc enc b c where h: "h = Some hc" "e = Some enc" "bytes_encoder enc = Some b" "copy_encoder enc = Some c"
      using laws 3 by auto
    have "unat (max_leds lc) * unat ?bpp < 2 ^ 32" using size bpp(1) by auto
    then show ?thesis
      using made False off laws 1 2 3 h block(2,3) bpp by (auto simp: new_def rmt_inv_def)
  qed
qed

end

context rmt_contract
begin

text \<open>A refresh of an idle channel sends the buffer and leaves the channel idle, or fails; of an enabled one it always fails.\<close>

lemma refresh_cases:
  assumes "rmt_inv (s, d)"
  shows "\<exists>err d'. led_strip_rmt_refresh drv (s, d) = Some (err, s, d') \<and> live d' = live d \<and>
    (if enabled d then err = ESP_ERR_INVALID_STATE \<and> enabled d' \<and> sent d' = sent d
     else err = ESP_OK \<longrightarrow> \<not> enabled d' \<and> sent d' = sent d @ [rmt_pixel_buf s])"
proof -
  obtain chan enc where h: "rmt_chan s = Some chan" "strip_encoder s = Some enc"
    using assms by (auto simp: rmt_inv_def)
  obtain e1 d1 where 1: "rmt_enable drv chan d = (e1, d1)" by (metis surj_pair)
  obtain e2 d2 where 2: "rmt_transmit drv chan enc (rmt_pixel_buf s) d1 = (e2, d2)" by (metis surj_pair)
  obtain e3 d3 where 3: "rmt_tx_wait_all_done drv chan d2 = (e3, d3)" by (metis surj_pair)
  obtain e4 d4 where 4: "rmt_disable drv chan d3 = (e4, d4)" by (metis surj_pair)
  have slice: "c_slice (rmt_pixel_buf s) 0 (rmt_size s) = Some (rmt_pixel_buf s)"
    using rmt_size_eq [OF assms] by (simp add: c_slice_def)
  show ?thesis
    using h slice 1 2 3 4 enable_law [OF 1] transmit_law [OF 2] wait_law [OF 3] disable_law [OF 4]
    by (auto simp: led_strip_rmt_refresh_def esp_err_defs)
qed

lemma refresh_stuck:
  assumes "rmt_inv (s, d)" "rmt_chan s = Some chan" "strip_encoder s = Some enc"
    and "rmt_enable drv chan d = (ESP_OK, d1)" "\<not> enabled d"
    and "rmt_transmit drv chan enc (rmt_pixel_buf s) d1 = (err, d2)" "err \<noteq> ESP_OK"
  shows "led_strip_rmt_refresh drv (s, d) = Some (err, s, d2)" "enabled d2" "sent d2 = sent d"
  using assms rmt_size_eq [OF assms(1)] enable_law [OF assms(4)] transmit_law [OF assms(6)]
  by (auto simp: led_strip_rmt_refresh_def c_slice_def)

text \<open>No call through the API transmits on a channel that was left enabled.\<close>

lemma stuck_exec:
  assumes "rmt_inv (s, d)" "enabled d"
  shows "\<exists>s' d'. led_exec (rmt_ops drv) (s, d) cmd = Some (s', d') \<and> rmt_inv (s', d') \<and> enabled d' \<and> sent d' = sent d"
proof -
  have refresh: "\<exists>e d'. led_strip_rmt_refresh drv (s', d) = Some (e, s', d') \<and> enabled d' \<and> sent d' = sent d" if "rmt_inv (s', d)" for s'
    using refresh_cases [OF that] assms(2) by auto
  have pixel: "snd r = d" if "led_strip_rmt_set_pixel i r' g b (s, d) = Some (e, r)" for i r' g b e r
    using that by (auto simp: led_strip_rmt_set_pixel_def Let_def bind_eq_Some_conv split: if_splits)
  have white: "snd r = d" if "led_strip_rmt_set_pixel_rgbw i r' g b w (s, d) = Some (e, r)" for i r' g b w e r
    using that by (auto simp: led_strip_rmt_set_pixel_rgbw_def Let_def bind_eq_Some_conv split: if_splits)
  obtain st' where st': "led_exec (rmt_ops drv) (s, d) cmd = Some st'" "rmt_inv st'"
    using rmt.exec_spec [OF assms(1), of drv cmd] by blast
  moreover have "enabled (snd st') \<and> sent (snd st') = sent d"
  proof (cases cmd)
    case (Paint i r g b)
    then show ?thesis using st'(1) assms(2) by (auto simp: rmt_ops_def led_strip_set_pixel_def dest!: pixel)
  next
    case (Paint_hsv i hue sat val)
    then show ?thesis using st'(1) assms(2) by (auto simp: rmt_ops_def led_strip_set_pixel_hsv_def split: prod.splits dest!: pixel)
  next
    case (Paint_white i r g b w)
    then show ?thesis using st'(1) assms(2) by (auto simp: rmt_ops_def led_strip_set_pixel_rgbw_def dest!: white)
  next
    case Refresh
    then show ?thesis using st'(1) refresh [OF assms(1)] by (auto simp: rmt_ops_def led_strip_refresh_def)
  next
    case Clear
    have "rmt_inv (s\<lparr>rmt_pixel_buf := replicate (length (rmt_pixel_buf s)) 0\<rparr>, d)"
      using assms(1) by (simp add: rmt_inv_def)
    from refresh [OF this] show ?thesis
      using Clear st'(1) rmt_clear_eq [OF assms(1), of drv] by (auto simp: rmt_ops_def led_strip_clear_def)
  qed
  ultimately show ?thesis by (cases st') auto
qed

lemma stuck_exec_all:
  "rmt_inv st \<Longrightarrow> enabled (snd st) \<Longrightarrow>
    \<exists>st'. m_fold (led_exec (rmt_ops drv)) st cmds = Some st' \<and> enabled (snd st') \<and> sent (snd st') = sent (snd st)"
proof (induction cmds arbitrary: st)
  case Nil
  then show ?case by simp
next
  case (Cons cmd cmds)
  obtain s d where st: "st = (s, d)" by (cases st)
  obtain s1 d1 where s1: "led_exec (rmt_ops drv) st cmd = Some (s1, d1)" "rmt_inv (s1, d1)" "enabled d1" "sent d1 = sent d"
    using stuck_exec [of s d cmd] Cons.prems by (auto simp: st)
  from Cons.IH [OF s1(2)] s1 show ?case by (simp add: st)
qed

lemma del_live:
  assumes "rmt_inv (s, d)" "strip_encoder s = Some enc" "bytes_encoder enc = Some b" "copy_encoder enc = Some c"
    and "\<not> enabled d" "live d = n + 5"
  shows "\<exists>d'. led_strip_rmt_del drv (s, d) = Some (ESP_OK, s, d') \<and> live d' = n \<and> \<not> enabled d'"
proof -
  obtain chan where chan: "rmt_chan s = Some chan" using assms(1) by (auto simp: rmt_inv_def)
  obtain e1 d1 where 1: "rmt_del_channel drv chan d = (e1, d1)" by (metis surj_pair)
  note law = del_channel_law [OF assms(5) 1]
  then have "(n + 1) + 3 = live d1" using assms(6) by simp
  from del_encoder_live [OF assms(3,4) this] obtain d2 where 2: "rmt_del_led_strip_encoder drv enc d1 = Some (ESP_OK, d2)"
    "live d2 = n + 1" "enabled d2 = enabled d1" by blast
  show ?thesis
    using chan assms(2) 1 2 law free_law [of d2] by (simp add: led_strip_rmt_del_def)
qed

end
section \<open>A driver that meets the contract\<close>

text \<open>It counts what is live, remembers whether the channel is enabled, logs, and may refuse to transmit or to make encoders.\<close>

record bench =
  n_live :: nat
  on :: bool
  log :: "bytes list"
  transmit_err :: esp_err
  copy_err :: esp_err

definition bench_driver :: "bench rmt_driver" where
  "bench_driver = \<lparr>
     calloc = (\<lambda>n d. (True, d\<lparr>n_live := n_live d + 1\<rparr>)), free_mem = (\<lambda>d. d\<lparr>n_live := n_live d - 1\<rparr>),
     rmt_new_tx_channel = (\<lambda>c d. ((ESP_OK, Some 1), d\<lparr>n_live := n_live d + 1\<rparr>)),
     rmt_enable = (\<lambda>h d. if on d then (ESP_ERR_INVALID_STATE, d) else (ESP_OK, d\<lparr>on := True\<rparr>)),
     rmt_transmit = (\<lambda>h e bs d. (transmit_err d, if transmit_err d = ESP_OK then d\<lparr>log := log d @ [bs]\<rparr> else d)),
     rmt_tx_wait_all_done = (\<lambda>h d. (ESP_OK, d)),
     rmt_disable = (\<lambda>h d. if on d then (ESP_OK, d\<lparr>on := False\<rparr>) else (ESP_ERR_INVALID_STATE, d)),
     rmt_del_channel = (\<lambda>h d. if on d then (ESP_ERR_INVALID_STATE, d) else (ESP_OK, d\<lparr>n_live := n_live d - 1\<rparr>)),
     rmt_new_bytes_encoder = (\<lambda>c d. ((ESP_OK, Some 2), d\<lparr>n_live := n_live d + 1\<rparr>)),
     rmt_new_copy_encoder = (\<lambda>d. if copy_err d = ESP_OK then ((ESP_OK, Some 3), d\<lparr>n_live := n_live d + 1\<rparr>) else ((copy_err d, None), d)),
     rmt_del_encoder = (\<lambda>h d. (ESP_OK, d\<lparr>n_live := n_live d - 1\<rparr>)), rmt_encoder_reset = (\<lambda>h d. (ESP_OK, d)),
     encode_bytes = (\<lambda>h bs d. ((0, RMT_ENCODING_MEM_FULL), d)), encode_copy = (\<lambda>h s d. ((0, RMT_ENCODING_MEM_FULL), d))\<rparr>"

interpretation bench: rmt_contract bench_driver n_live on log
  by unfold_locales (auto simp: bench_driver_def esp_err_defs split: if_splits)

lemma bench_contract: "rmt_contract bench_driver n_live on log"
  by unfold_locales

definition idle :: bench where
  "idle = \<lparr>n_live = 7, on = False, log = [], transmit_err = 0, copy_err = 0\<rparr>"

section \<open>Properties\<close>

text \<open>constructing an LED strip over RMT ends in every case: when any of its five allocations fails,
  whatever was already allocated has been released and no handle is returned, and when it succeeds the
  strip is in order, dark, and \<open>led_strip_del\<close> gives everything back.\<close>

theorem new_rmt_device_no_leak:
  assumes "rmt_contract drv live enabled sent" "\<not> enabled d" "unat (max_leds lc) * 4 + 36 < 2 ^ 32"
  shows "\<exists>err so d'. led_strip_new_rmt_device drv clk (Some lc) (Some rc) d = Some (err, so, d') \<and> \<not> enabled d' \<and>
    (case so of
       None \<Rightarrow> err \<noteq> ESP_OK \<and> live d' = live d
     | Some s \<Rightarrow> err = ESP_OK \<and> rmt_inv (s, d') \<and> rmt_leds (s, d') = unat (max_leds lc) \<and> set (rmt_pixel_buf s) \<subseteq> {0} \<and>
         live d' = live d + 5 \<and> (\<exists>d''. led_strip_del (Some (rmt_ops drv)) (s, d') = Some (ESP_OK, (s, d'')) \<and> live d'' = live d))"
proof -
  obtain err so d' where new: "led_strip_new_rmt_device drv clk (Some lc) (Some rc) d = Some (err, so, d')" "\<not> enabled d'"
    and live: "if err = ESP_OK
     then live d' = live d + 5 \<and> (\<exists>s enc b c. so = Some s \<and> rmt_inv (s, d') \<and> rmt_strip_len s = max_leds lc \<and>
       (rmt_bytes_per_pixel s = 4 \<longleftrightarrow> led_pixel_format lc = LED_PIXEL_FORMAT_GRBW) \<and> set (rmt_pixel_buf s) \<subseteq> {0} \<and>
       strip_encoder s = Some enc \<and> bytes_encoder enc = Some b \<and> copy_encoder enc = Some c)
     else live d' = live d \<and> so = None"
    using rmt_contract.new_device_live [OF assms, of clk rc] by blast
  show ?thesis
  proof (cases so)
    case None
    then show ?thesis using new live by (auto split: if_splits)
  next
    case (Some s)
    then obtain enc b c where s: "err = ESP_OK" "live d' = live d + 5" "rmt_inv (s, d')" "rmt_strip_len s = max_leds lc"
      "set (rmt_pixel_buf s) \<subseteq> {0}" "strip_encoder s = Some enc" "bytes_encoder enc = Some b" "copy_encoder enc = Some c"
      using live by (auto split: if_splits)
    from rmt_contract.del_live [OF assms(1) s(3,6,7,8) new(2) s(2)] show ?thesis
      using Some s new by (auto simp: led_strip_del_def rmt_ops_def)
  qed
qed

definition board_config :: led_strip_config where
  "board_config = \<lparr>strip_gpio_num = 48, max_leds = 1, led_pixel_format = LED_PIXEL_FORMAT_GRB,
     led_model = LED_MODEL_WS2812, invert_out = False\<rparr>"

definition board_rmt_config :: led_strip_rmt_config where
  "board_rmt_config = \<lparr>rmt_clk_src = 0, rmt_resolution_hz = 10000000, rmt_mem_block_symbols = 0, rmt_with_dma = False\<rparr>"

text \<open>The board's strip on a driver that has no room for the second encoder: all seven live objects remain, none is added.\<close>

theorem new_rmt_device_no_leak_witness:
  "\<exists>err d'. led_strip_new_rmt_device bench_driver 4 (Some board_config) (Some board_rmt_config) (idle\<lparr>copy_err := ESP_ERR_NO_MEM\<rparr>) =
      Some (err, None, d') \<and> err \<noteq> ESP_OK \<and> n_live d' = 7"
proof -
  let ?d = "idle\<lparr>copy_err := ESP_ERR_NO_MEM\<rparr>"
  have "\<not> on ?d" "unat (max_leds board_config) * 4 + 36 < 2 ^ 32" by (simp_all add: idle_def board_config_def)
  from new_rmt_device_no_leak [OF bench_contract this, of 4 board_rmt_config] obtain err so d'
    where r: "led_strip_new_rmt_device bench_driver 4 (Some board_config) (Some board_rmt_config) ?d = Some (err, so, d')"
      "case so of None \<Rightarrow> err \<noteq> ESP_OK \<and> n_live d' = n_live ?d | Some s \<Rightarrow> err = ESP_OK" 
    by (auto split: option.splits)
  moreover have "so = None"
    using r(1) by (auto simp: led_strip_new_rmt_device_def rmt_new_led_strip_encoder_def bench_driver_def idle_def board_config_def
        esp_err_defs pixel_bytes_def new_rmt_err_def new_encoder_err_def zero_encoder_def)
  ultimately show ?thesis by (auto simp: idle_def)
qed

text \<open>C20: once a transmission has been refused, the strip is dead: the refresh returns without disabling the
  channel, so every later refresh or clear fails at \<open>rmt_enable\<close> and no call through the API ever
  transmits again.\<close>

theorem led_refresh_sticks:
  assumes "rmt_contract drv live enabled sent" "rmt_inv (s, d)" "rmt_chan s = Some chan" "strip_encoder s = Some enc"
    and "\<not> enabled d" "rmt_enable drv chan d = (ESP_OK, d1)"
    and "rmt_transmit drv chan enc (rmt_pixel_buf s) d1 = (err, d2)" "err \<noteq> ESP_OK"
  shows "led_strip_refresh (Some (rmt_ops drv)) (s, d) = Some (err, (s, d2)) \<and>
    (\<exists>st. m_fold (led_exec (rmt_ops drv)) (s, d2) cmds = Some st \<and> enabled (snd st) \<and> sent (snd st) = sent d)"
proof -
  note stuck = rmt_contract.refresh_stuck [OF assms(1-4,6,5,7,8)]
  have "rmt_inv (s, d2)" using assms(2) by (rule rmt_inv_driver)
  from rmt_contract.stuck_exec_all [OF assms(1) this, of cmds] stuck show ?thesis
    by (auto simp: led_strip_refresh_def rmt_ops_def)
qed

theorem led_refresh_sticks_witness:
  "\<exists>st. m_fold (led_exec (rmt_ops bench_driver)) (fst one_rmt_led, idle\<lparr>transmit_err := ESP_ERR_INVALID_ARG, on := True\<rparr>)
      [Paint 0 1 2 3, Refresh, Clear] = Some st \<and> on (snd st) \<and> log (snd st) = []"
proof -
  let ?d = "idle\<lparr>transmit_err := ESP_ERR_INVALID_ARG\<rparr>"
  have "rmt_inv (fst one_rmt_led, ?d)" "rmt_chan (fst one_rmt_led) = Some 1"
    "strip_encoder (fst one_rmt_led) = Some ws2812_encoder" "\<not> on ?d"
    "rmt_enable bench_driver 1 ?d = (ESP_OK, ?d\<lparr>on := True\<rparr>)"
    "rmt_transmit bench_driver 1 ws2812_encoder (rmt_pixel_buf (fst one_rmt_led)) (?d\<lparr>on := True\<rparr>) = (ESP_ERR_INVALID_ARG, ?d\<lparr>on := True\<rparr>)"
    "ESP_ERR_INVALID_ARG \<noteq> ESP_OK"
    by (simp_all add: one_rmt_led_def rmt_inv_def bench_driver_def idle_def esp_err_defs)
  from led_refresh_sticks [OF bench_contract this, of "[Paint 0 1 2 3, Refresh, Clear]"] show ?thesis
    by (auto simp: idle_def)
qed

end
