(* ===== verification/Wifi.thy ===== *)
theory Wifi
  imports Led_Board
begin

unbundle bit_operations_syntax

text \<open>
  \<open>src/main/wifi_setting.c\<close>: the event handler of the WiFi station, a state machine with a
  retry counter and two bits of an event group, and \<open>wifi_init_sta\<close>, which sets the station
  up and waits for one of the bits. The LED the handler switches is the model of \<open>Led_Strip\<close>.
\<close>

section \<open>State\<close>

text \<open>
  \<open>s_retry_num\<close>, the bits of \<open>s_wifi_event_group\<close>, the number of calls of
  \<open>esp_wifi_connect\<close>, and the state of \<open>led_light\<close> with its driver.
\<close>

record 'd wifi =
  s_retry_num :: int
  event_bits :: u32
  connects :: nat
  light :: "'d rmt_state"

definition WIFI_CONNECTED_BIT :: u32 where "WIFI_CONNECTED_BIT = 1"
definition WIFI_FAIL_BIT :: u32 where "WIFI_FAIL_BIT = 2"
definition ESP_MAXIMUM_RETRY :: int where "ESP_MAXIMUM_RETRY = 5"

lemmas wifi_const_defs = WIFI_CONNECTED_BIT_def WIFI_FAIL_BIT_def ESP_MAXIMUM_RETRY_def

text \<open>Event base and id, as far as the handler tells them apart.\<close>

datatype wifi_event = WIFI_EVENT_STA_START | WIFI_EVENT_STA_DISCONNECTED | IP_EVENT_STA_GOT_IP u32 | OTHER_EVENT

section \<open>The event handler\<close>

definition esp_wifi_connect :: "'d wifi \<Rightarrow> 'd wifi" where
  "esp_wifi_connect w = w\<lparr>connects := connects w + 1\<rparr>"

definition xEventGroupSetBits :: "u32 \<Rightarrow> 'd wifi \<Rightarrow> 'd wifi" where
  "xEventGroupSetBits bits w = w\<lparr>event_bits := event_bits w OR bits\<rparr>"

definition wifi_led :: "'d rmt_driver \<Rightarrow> u32 \<Rightarrow> u32 \<Rightarrow> u32 \<Rightarrow> 'd wifi \<Rightarrow> 'd wifi option" where
  "wifi_led drv r g b w = do { st \<leftarrow> set_led drv r g b (light w); Some (w\<lparr>light := st\<rparr>) }"

fun event_handler :: "'d rmt_driver \<Rightarrow> 'd wifi \<Rightarrow> wifi_event \<Rightarrow> 'd wifi option" where
  "event_handler drv w WIFI_EVENT_STA_START = Some (esp_wifi_connect w)"
| "event_handler drv w WIFI_EVENT_STA_DISCONNECTED = do {
     let w = (if s_retry_num w < ESP_MAXIMUM_RETRY
              then (esp_wifi_connect w)\<lparr>s_retry_num := s_retry_num w + 1\<rparr>
              else xEventGroupSetBits WIFI_FAIL_BIT w);
     wifi_led drv 6 0 0 w
   }"
| "event_handler drv w (IP_EVENT_STA_GOT_IP ip) =
     Some (xEventGroupSetBits WIFI_CONNECTED_BIT (w\<lparr>s_retry_num := 0\<rparr>))"
| "event_handler drv w OTHER_EVENT = Some w"

section \<open>Setting the station up\<close>

text \<open>What the calls of the network stack return; each is checked.\<close>

record wifi_config =
  ssid :: string
  password :: string
  authmode_wpa2 :: bool
  sae_pwe_both :: bool
  sae_h2e_identifier :: string

definition sta_config :: wifi_config where
  "sta_config = \<lparr>ssid = ESP_WIFI_SSID, password = ESP_WIFI_PASS, authmode_wpa2 = True, sae_pwe_both = True,
     sae_h2e_identifier = ''''\<rparr>"

record wifi_calls =
  netif_init :: esp_err
  event_loop_create :: esp_err
  wifi_init :: esp_err
  register_any :: esp_err
  register_got_ip :: esp_err
  set_mode :: esp_err
  set_config :: "wifi_config \<Rightarrow> esp_err"
  wifi_start :: esp_err

text \<open>
  \<open>events\<close> are those dispatched from \<open>esp_wifi_start\<close> until the waiting call looks at the
  bits for the last time; with neither bit set it is still waiting. A failure of the connection is
  only logged: the function has no result.
\<close>

definition wifi_init_sta ::
  "'d rmt_driver \<Rightarrow> wifi_calls \<Rightarrow> wifi_event list \<Rightarrow> 'd wifi \<Rightarrow> 'd wifi task_result option" where
  "wifi_init_sta drv calls events w = do {
     let w = w\<lparr>event_bits := 0\<rparr>;
     ESP_ERROR_CHECK (netif_init calls);
     ESP_ERROR_CHECK (event_loop_create calls);
     ESP_ERROR_CHECK (wifi_init calls);
     ESP_ERROR_CHECK (register_any calls);
     ESP_ERROR_CHECK (register_got_ip calls);
     ESP_ERROR_CHECK (set_mode calls);
     ESP_ERROR_CHECK (set_config calls sta_config);
     ESP_ERROR_CHECK (wifi_start calls);
     w \<leftarrow> m_fold (event_handler drv) w events;
     if event_bits w AND (WIFI_CONNECTED_BIT OR WIFI_FAIL_BIT) = 0 then Some Blocked
     else if event_bits w AND WIFI_CONNECTED_BIT \<noteq> 0 then do {
       w \<leftarrow> wifi_led drv 0 6 0 w;
       Some (Next w)
     }
     else Some (Next w)
   }"

section \<open>The state machine\<close>

inductive wifi_reach :: "'d rmt_driver \<Rightarrow> 'd wifi \<Rightarrow> 'd wifi \<Rightarrow> bool" for drv w0 where
  wifi_start: "wifi_reach drv w0 w0"
| wifi_event: "wifi_reach drv w0 w \<Longrightarrow> event_handler drv w ev = Some w' \<Longrightarrow> wifi_reach drv w0 w'"

fun_cases event_handler_disconnected: "event_handler drv w WIFI_EVENT_STA_DISCONNECTED = Some w'"

abbreviation failed :: "'d wifi \<Rightarrow> bool" where
  "failed w \<equiv> event_bits w AND WIFI_FAIL_BIT \<noteq> 0"

abbreviation connected :: "'d wifi \<Rightarrow> bool" where
  "connected w \<equiv> event_bits w AND WIFI_CONNECTED_BIT \<noteq> 0"

lemma bits_set [simp]:
  "(x OR WIFI_FAIL_BIT) AND WIFI_FAIL_BIT \<noteq> 0" "(x OR WIFI_CONNECTED_BIT) AND WIFI_CONNECTED_BIT \<noteq> 0"
  "(x OR WIFI_FAIL_BIT) AND WIFI_CONNECTED_BIT = x AND WIFI_CONNECTED_BIT"
  "(x OR WIFI_CONNECTED_BIT) AND WIFI_FAIL_BIT = x AND WIFI_FAIL_BIT"
proof -
  have absorb: "(x OR c) AND c = c" for x c :: u32
    by (rule bit_word_eqI) (auto simp: bit_simps)
  then show "(x OR WIFI_FAIL_BIT) AND WIFI_FAIL_BIT \<noteq> 0" "(x OR WIFI_CONNECTED_BIT) AND WIFI_CONNECTED_BIT \<noteq> 0"
    by (simp_all add: wifi_const_defs)
  have skip: "(x OR c) AND e = x AND e" if "c AND e = 0" for x c e :: u32
    using that by (simp add: bit.conj_disj_distrib2)
  then show "(x OR WIFI_FAIL_BIT) AND WIFI_CONNECTED_BIT = x AND WIFI_CONNECTED_BIT"
    "(x OR WIFI_CONNECTED_BIT) AND WIFI_FAIL_BIT = x AND WIFI_FAIL_BIT"
    by (simp_all add: wifi_const_defs)
qed

text \<open>Switching the LED never fails on a strip in order, and changes nothing but the LED.\<close>

lemma set_led_ok:
  assumes "rmt_inv st" "0 < rmt_leds st"
  shows "\<exists>st'. set_led drv r g b st = Some st' \<and> rmt_inv st' \<and> rmt_leds st' = rmt_leds st \<and>
    rmt_colour st' 0 = (ucast r, ucast g, ucast b, 0)"
proof -
  obtain s1 where s1: "led_exec (rmt_ops drv) st (Paint 0 r g b) = Some s1" "rmt_inv s1" "rmt_leds s1 = rmt_leds st"
      "rmt_colour s1 0 = (ucast r, ucast g, ucast b, 0)"
    using rmt.exec_spec [OF assms(1), of drv "Paint 0 r g b"] assms(2) by auto
  obtain s2 where s2: "led_exec (rmt_ops drv) s1 Refresh = Some s2" "rmt_inv s2" "rmt_leds s2 = rmt_leds st" "rmt_colour s2 0 = rmt_colour s1 0"
    using rmt.exec_spec [OF s1(2), of drv Refresh] s1(3) assms(2) by auto
  show ?thesis
    using s1 s2 by (auto simp: set_led_def)
qed

definition wifi_ok :: "'d wifi \<Rightarrow> bool" where
  "wifi_ok w \<longleftrightarrow> 0 \<le> s_retry_num w \<and> s_retry_num w \<le> ESP_MAXIMUM_RETRY \<and> rmt_inv (light w) \<and> 0 < rmt_leds (light w)"

lemma wifi_led_ok:
  assumes "rmt_inv (light w)" "0 < rmt_leds (light w)"
  shows "\<exists>st. wifi_led drv r g b w = Some (w\<lparr>light := st\<rparr>) \<and> rmt_inv st \<and> rmt_leds st = rmt_leds (light w) \<and>
    rmt_colour st 0 = (ucast r, ucast g, ucast b, 0)"
proof -
  obtain st where "set_led drv r g b (light w) = Some st" "rmt_inv st" "rmt_leds st = rmt_leds (light w)"
    "rmt_colour st 0 = (ucast r, ucast g, ucast b, 0)"
    using set_led_ok [OF assms, of drv r g b] by blast
  then show ?thesis by (intro exI [of _ st]) (simp add: wifi_led_def)
qed

lemma handler_ok:
  assumes "wifi_ok w"
  shows "\<exists>w'. event_handler drv w ev = Some w' \<and> wifi_ok w'"
proof (cases ev)
  case WIFI_EVENT_STA_DISCONNECTED
  define w1 where "w1 = (if s_retry_num w < ESP_MAXIMUM_RETRY
      then (esp_wifi_connect w)\<lparr>s_retry_num := s_retry_num w + 1\<rparr> else xEventGroupSetBits WIFI_FAIL_BIT w)"
  have w1: "wifi_ok w1" using assms by (simp add: w1_def wifi_ok_def esp_wifi_connect_def xEventGroupSetBits_def)
  then obtain st where "wifi_led drv 6 0 0 w1 = Some (w1\<lparr>light := st\<rparr>)" "rmt_inv st" "rmt_leds st = rmt_leds (light w1)"
    using wifi_led_ok [of w1 drv 6 0 0] by (auto simp: wifi_ok_def)
  then show ?thesis
    using WIFI_EVENT_STA_DISCONNECTED w1 by (simp add: w1_def [symmetric] wifi_ok_def)
qed (use assms in \<open>auto simp: wifi_ok_def esp_wifi_connect_def xEventGroupSetBits_def ESP_MAXIMUM_RETRY_def\<close>)

lemma wifi_reach_ok: "wifi_reach drv w0 w \<Longrightarrow> wifi_ok w0 \<Longrightarrow> wifi_ok w"
proof (induction rule: wifi_reach.induct)
  case (wifi_event w ev w')
  then show ?case using handler_ok [of w drv ev] by auto
qed

text \<open>\<open>k\<close> lost connections in a row: five of them are answered by a new attempt.\<close>

lemma disconnect_step:
  assumes "wifi_ok w"
  shows "\<exists>w'. event_handler drv w WIFI_EVENT_STA_DISCONNECTED = Some w' \<and> wifi_ok w' \<and>
    s_retry_num w' = min 5 (s_retry_num w + 1) \<and>
    connects w' = connects w + (if s_retry_num w < 5 then 1 else 0) \<and>
    (failed w' \<longleftrightarrow> failed w \<or> s_retry_num w = 5) \<and> (connected w' \<longleftrightarrow> connected w) \<and> rmt_colour (light w') 0 = (6, 0, 0, 0)"
proof -
  define w1 where "w1 = (if s_retry_num w < ESP_MAXIMUM_RETRY
      then (esp_wifi_connect w)\<lparr>s_retry_num := s_retry_num w + 1\<rparr> else xEventGroupSetBits WIFI_FAIL_BIT w)"
  have r: "s_retry_num w \<le> 5" "0 \<le> s_retry_num w" using assms by (auto simp: wifi_ok_def ESP_MAXIMUM_RETRY_def)
  have w1: "wifi_ok w1" "s_retry_num w1 = min 5 (s_retry_num w + 1)" "connects w1 = connects w + (if s_retry_num w < 5 then 1 else 0)"
    "failed w1 \<longleftrightarrow> failed w \<or> s_retry_num w = 5" "connected w1 \<longleftrightarrow> connected w"
    using assms r by (auto simp: w1_def wifi_ok_def esp_wifi_connect_def xEventGroupSetBits_def wifi_const_defs bit.conj_disj_distrib2 min_def)
  have "rmt_inv (light w1)" "0 < rmt_leds (light w1)" using w1(1) by (simp_all add: wifi_ok_def)
  from wifi_led_ok [OF this, of drv 6 0 0] obtain st where st: "wifi_led drv 6 0 0 w1 = Some (w1\<lparr>light := st\<rparr>)" "rmt_inv st"
    "rmt_leds st = rmt_leds (light w1)" "rmt_colour st 0 = (6, 0, 0, 0)"
    by auto
  then have "event_handler drv w WIFI_EVENT_STA_DISCONNECTED = Some (w1\<lparr>light := st\<rparr>)"
    by (simp add: w1_def [symmetric])
  moreover have "wifi_ok (w1\<lparr>light := st\<rparr>)" using w1(1) st by (simp add: wifi_ok_def)
  ultimately show ?thesis using w1(2-5) st(4) by simp
qed

lemma wifi_retries:
  assumes "wifi_ok w" "s_retry_num w = 0" "\<not> failed w"
  shows "\<exists>w'. m_fold (event_handler drv) w (replicate k WIFI_EVENT_STA_DISCONNECTED) = Some w' \<and> wifi_ok w' \<and>
    s_retry_num w' = min 5 (int k) \<and> connects w' = connects w + min 5 k \<and> (failed w' \<longleftrightarrow> 5 < k) \<and>
    (connected w' \<longleftrightarrow> connected w) \<and> (0 < k \<longrightarrow> rmt_colour (light w') 0 = (6, 0, 0, 0))"
proof (induction k)
  case 0
  then show ?case using assms by simp
next
  case (Suc k)
  then obtain w1 where w1: "m_fold (event_handler drv) w (replicate k WIFI_EVENT_STA_DISCONNECTED) = Some w1" "wifi_ok w1"
    "s_retry_num w1 = min 5 (int k)" "connects w1 = connects w + min 5 k" "failed w1 \<longleftrightarrow> 5 < k" "connected w1 \<longleftrightarrow> connected w"
    by blast
  have rep: "replicate (Suc k) WIFI_EVENT_STA_DISCONNECTED = replicate k WIFI_EVENT_STA_DISCONNECTED @ [WIFI_EVENT_STA_DISCONNECTED]"
    by (simp add: replicate_append_same)
  consider "k < 5" | "k = 5" | "5 < k" by linarith
  then show ?case
    using disconnect_step [OF w1(2), of drv] w1 unfolding rep
    by cases (auto simp: m_fold_append simp del: event_handler.simps)
qed

section \<open>Properties\<close>

text \<open>C21: however the WiFi events arrive, the handler stays defined (the LED strip keeps its buffer) and the
  retry counter stays between 0 and 5. When the calls that set up the station succeed and the station starts fresh, then
  \<open>k\<close> lost connections and no address leave the handler in a state in which a connection has been asked for
  1 + min 5 k times and the counter is min 5 k; \<open>wifi_init_sta\<close> waits as long as \<open>k\<close> is at most 5; with the sixth loss
  it returns in this state, unconnected, with the failure bit set and a red LED, and no loss is answered any more.\<close>

theorem wifi_gives_up:
  assumes "wifi_ok w" "s_retry_num w = 0"
    and "netif_init calls = ESP_OK" "event_loop_create calls = ESP_OK" "wifi_init calls = ESP_OK" "register_any calls = ESP_OK"
    and "register_got_ip calls = ESP_OK" "set_mode calls = ESP_OK" "set_config calls sta_config = ESP_OK" "wifi_start calls = ESP_OK"
  shows "(\<forall>w'. wifi_reach drv w w' \<longrightarrow> wifi_ok w' \<and> (\<forall>ev. event_handler drv w' ev \<noteq> None)) \<and>
    (\<exists>w'. m_fold (event_handler drv) (w\<lparr>event_bits := 0\<rparr>)
        (WIFI_EVENT_STA_START # replicate k WIFI_EVENT_STA_DISCONNECTED) = Some w' \<and>
      wifi_init_sta drv calls (WIFI_EVENT_STA_START # replicate k WIFI_EVENT_STA_DISCONNECTED) w =
        Some (if k \<le> 5 then Blocked else Next w') \<and>
      connects w' = connects w + 1 + min 5 k \<and> s_retry_num w' = min 5 (int k) \<and> \<not> connected w' \<and> (failed w' \<longleftrightarrow> 5 < k) \<and>
      (0 < k \<longrightarrow> rmt_colour (light w') 0 = (6, 0, 0, 0)))"
proof -
  let ?w = "esp_wifi_connect (w\<lparr>event_bits := 0\<rparr>)"
  have "wifi_ok ?w" "s_retry_num ?w = 0" "\<not> failed ?w"
    using assms(1,2) by (simp_all add: wifi_ok_def esp_wifi_connect_def)
  from wifi_retries [OF this, of drv k] obtain w' where w': "m_fold (event_handler drv) ?w (replicate k WIFI_EVENT_STA_DISCONNECTED) = Some w'"
    "connects w' = connects ?w + min 5 k" "failed w' \<longleftrightarrow> 5 < k" "\<not> connected w'" "0 < k \<longrightarrow> rmt_colour (light w') 0 = (6, 0, 0, 0)"
    "s_retry_num w' = min 5 (int k)"
    by (auto simp: esp_wifi_connect_def)
  have bits: "event_bits w' AND (WIFI_CONNECTED_BIT OR WIFI_FAIL_BIT) = 0 \<longleftrightarrow> k \<le> 5"
    using w'(3,4) by (auto simp: bit.conj_disj_distrib)
  have "wifi_init_sta drv calls (WIFI_EVENT_STA_START # replicate k WIFI_EVENT_STA_DISCONNECTED) w =
      Some (if k \<le> 5 then Blocked else Next w')"
    using assms(3-10) w'(1,4) bits by (simp add: wifi_init_sta_def)
  moreover have "wifi_ok w' \<and> (\<forall>ev. event_handler drv w' ev \<noteq> None)" if "wifi_reach drv w w'" for w'
    using wifi_reach_ok [OF that assms(1)] handler_ok [of w' drv] by blast
  moreover have "m_fold (event_handler drv) (w\<lparr>event_bits := 0\<rparr>)
      (WIFI_EVENT_STA_START # replicate k WIFI_EVENT_STA_DISCONNECTED) = Some w'"
    using w'(1) by simp
  ultimately show ?thesis
    using w'(2-6) by (intro conjI exI [of _ w']) (simp_all add: esp_wifi_connect_def)
qed

definition bench_wifi :: "bench wifi" where
  "bench_wifi = \<lparr>s_retry_num = 0, event_bits = 0, connects = 0, light = (fst one_rmt_led, idle)\<rparr>"

definition good_calls :: wifi_calls where
  "good_calls = \<lparr>netif_init = 0, event_loop_create = 0, wifi_init = 0, register_any = 0, register_got_ip = 0,
     set_mode = 0, set_config = (\<lambda>c. 0), wifi_start = 0\<rparr>"

theorem wifi_gives_up_witness:
  "\<exists>w'. wifi_init_sta bench_driver good_calls (WIFI_EVENT_STA_START # replicate 8 WIFI_EVENT_STA_DISCONNECTED) bench_wifi = Some (Next w') \<and>
    connects w' = 6 \<and> s_retry_num w' = 5 \<and> rmt_colour (light w') 0 = (6, 0, 0, 0)"
proof -
  have "wifi_ok bench_wifi" "s_retry_num bench_wifi = 0"
    by (simp_all add: bench_wifi_def wifi_ok_def one_rmt_led_def rmt_inv_def ESP_MAXIMUM_RETRY_def)
  moreover have "netif_init good_calls = ESP_OK" "event_loop_create good_calls = ESP_OK" "wifi_init good_calls = ESP_OK"
    "register_any good_calls = ESP_OK" "register_got_ip good_calls = ESP_OK" "set_mode good_calls = ESP_OK"
    "set_config good_calls sta_config = ESP_OK" "wifi_start good_calls = ESP_OK"
    by (simp_all add: good_calls_def ESP_OK_def)
  ultimately show ?thesis
    using wifi_gives_up [of bench_wifi good_calls bench_driver 8] by (auto simp: bench_wifi_def)
qed

end
