(* ===== verification/App.thy ===== *)
theory App
  imports Pipeline Wifi
begin

unbundle bit_operations_syntax

text \<open>
  The start of the program in \<open>src/main/main.c\<close>: \<open>init_nvs\<close>, \<open>init_udp\<close>,
  \<open>obtain_time\<close> and \<open>app_main\<close>, which bring up the LED, the flash, the network, the
  registration at the server and the clock, and end in the state from which \<open>Pipeline\<close>
  reasons: both buffers fresh, the timer running and the sending task created.

  What the system calls return is gathered in records of parameters, in the order of the calls.
\<close>

section \<open>init_nvs\<close>

definition ESP_ERR_NVS_NO_FREE_PAGES :: esp_err where "ESP_ERR_NVS_NO_FREE_PAGES = 0x110D"
definition ESP_ERR_NVS_NEW_VERSION_FOUND :: esp_err where "ESP_ERR_NVS_NEW_VERSION_FOUND = 0x1110"

text \<open>\<open>init1\<close> and \<open>init2\<close> are the results of the first and the second \<open>nvs_flash_init\<close>; the result counts the erasures.\<close>

definition init_nvs :: "esp_err \<Rightarrow> esp_err \<Rightarrow> esp_err \<Rightarrow> nat option" where
  "init_nvs init1 erase init2 = do {
     (ret, n) \<leftarrow> (if init1 = ESP_ERR_NVS_NO_FREE_PAGES \<or> init1 = ESP_ERR_NVS_NEW_VERSION_FOUND
                  then do { ESP_ERROR_CHECK erase; Some (init2, 1) }
                  else Some (init1, 0));
     ESP_ERROR_CHECK ret;
     Some n
   }"

section \<open>init_udp\<close>

text \<open>
  The sockets and addresses are globals, 0 at the start. \<open>registrations\<close> logs the datagrams
  sent to the server.
\<close>

record udp =
  sock :: int
  init_sock :: int
  setting_sock :: int
  server_addr :: sockaddr_in
  init_addr :: sockaddr_in
  setting_addr :: sockaddr_in
  udp_sensorID :: u8
  registrations :: "(int \<times> bytes \<times> sockaddr_in) list"

text \<open>
  A \<open>recvfrom\<close> into \<open>n\<close> bytes: a negative result leaves the buffer and the address
  alone, otherwise at most \<open>n\<close> bytes of the datagram are stored and the sender's address.
\<close>

type_synonym received = "int \<times> bytes \<times> sockaddr_in"

definition recv_into :: "received \<Rightarrow> bytes \<Rightarrow> bytes" where
  "recv_into r old = (case r of (err, bs, _) \<Rightarrow>
     if err < 0 then old else take (length old) bs @ drop (length bs) old)"

definition recv_addr :: "received \<Rightarrow> sockaddr_in \<Rightarrow> sockaddr_in" where
  "recv_addr r old = (case r of (err, _, from) \<Rightarrow> if err < 0 then old else from)"

text \<open>What the network answers; the results may depend on the socket they are asked for.\<close>

record udp_calls =
  inet_addr :: "string \<Rightarrow> u32"
  socket1 :: int
  socket2 :: int
  socket3 :: int
  sendto_reg :: "int \<Rightarrow> int"
  recv_id :: "int \<Rightarrow> received"
  recv_port :: "int \<Rightarrow> received"

definition store16 :: "bytes \<Rightarrow> u16" where
  "store16 bs = ucast (bs ! 0) OR push_bit 8 (ucast (bs ! 1))"

text \<open>
  The guard behind the first \<open>socket\<close> tests \<open>sock\<close>, not \<open>init_sock\<close>. The port is
  received into an \<open>int\<close> of four bytes, which the assignment to \<open>sin_port\<close> cuts to the first
  two (the processor is little-endian).
\<close>

definition init_udp :: "udp_calls \<Rightarrow> udp \<Rightarrow> int \<times> udp" where
  "init_udp net u =
     (let u = u\<lparr>init_addr := \<lparr>sin_family = AF_INET, sin_port = htons LOCALHOST_PORT, s_addr = inet_addr net LOCALHOST_ADDRESS\<rparr>,
                init_sock := socket1 net\<rparr>
      in if sock u < 0 then (-1, u)
         else
           (let err = sendto_reg net (init_sock u);
                u = (if err < 0 then u else u\<lparr>registrations := registrations u @ [(init_sock u, [0, 0, 0, 0], init_addr u)]\<rparr>);
                r = recv_id net (init_sock u);
                u = u\<lparr>udp_sensorID := hd (recv_into r [udp_sensorID u]), server_addr := recv_addr r (server_addr u)\<rparr>;
                r = recv_port net (init_sock u);
                data_port = recv_into r [0, 0, 0, 0];
                u = u\<lparr>server_addr := recv_addr r (server_addr u)\<rparr>;
                u = u\<lparr>server_addr := (server_addr u)\<lparr>sin_family := AF_INET, sin_port := store16 data_port\<rparr>, sock := socket2 net\<rparr>
            in if sock u < 0 then (-1, u)
               else (1, u\<lparr>setting_addr := \<lparr>sin_family = AF_INET, sin_port = htons SETTINGS_PORT, s_addr = INADDR_ANY\<rparr>,
                          setting_sock := socket3 net\<rparr>)))"

section \<open>obtain_time\<close>

text \<open>
  \<open>years k\<close> is \<open>tm_year\<close> as read after the \<open>k\<close>-th wait of two seconds. The
  post-increment of \<open>retry\<close> belongs to the test of the loop. The result is \<open>timeinfo.tm_year\<close>
  and \<open>retry\<close> behind the loop.
\<close>

function obtain_loop :: "(nat \<Rightarrow> int) \<Rightarrow> nat \<Rightarrow> int \<Rightarrow> int \<Rightarrow> int \<times> int" where
  "obtain_loop years k tm_year retry =
     (if tm_year < 2016 - 1900
      then (if retry < 5 then obtain_loop years (k + 1) (years (k + 1)) (retry + 1) else (tm_year, retry + 1))
      else (tm_year, retry))"
  by pat_completeness auto
termination by (relation "measure (\<lambda>(years, k, tm_year, retry). nat (6 - retry))") auto

declare obtain_loop.simps [simp del]

text \<open>The result, \<open>timeinfo.tm_year\<close> (a global, zero before), and the LED.\<close>

definition obtain_time :: "'d rmt_driver \<Rightarrow> (nat \<Rightarrow> int) \<Rightarrow> int \<Rightarrow> 'd rmt_state \<Rightarrow> (int \<times> int \<times> 'd rmt_state) option" where
  "obtain_time drv years tm_year led = do {
     let (tm_year, retry) = obtain_loop years 0 tm_year 0;
     if retry < 5 then do { led \<leftarrow> set_led drv 0 0 6 led; Some (1, tm_year, led) }
     else do { led \<leftarrow> set_led drv 0 6 0 led; Some (-1, tm_year, led) }
   }"

section \<open>app_main\<close>

text \<open>
  The parameters: the LED driver and its clock source, the flash, the WiFi calls and the events
  until the wait is over, the three \<open>malloc\<close> results of each buffer, the two mutexes
  \<open>xSemaphoreCreateMutex\<close> returns (a null result is not modelled), the timer calls that are checked, the network, the clock,
  the datagrams that arrive at the settings port, and the time of the start.
\<close>

record ('d, 'm) app_env =
  led_driver :: "'d rmt_driver"
  led_clk :: nat
  led_state0 :: 'd
  nvs_init1 :: esp_err
  nvs_erase :: esp_err
  nvs_init2 :: esp_err
  wifi_setup :: wifi_calls
  wifi_events :: "wifi_event list"
  malloc1 :: "ringbuffer_handle option \<times> (nat \<Rightarrow> bool) \<times> (nat \<Rightarrow> u32)"
  malloc2 :: "ringbuffer_handle option \<times> (nat \<Rightarrow> bool) \<times> (nat \<Rightarrow> u32)"
  mutex1 :: 'm
  mutex2 :: 'm
  new_write_timer :: esp_err
  new_stopwatch :: esp_err
  register_callbacks :: esp_err
  set_alarm :: "int \<Rightarrow> esp_err"
  network :: udp_calls
  sntp_clock :: "nat \<Rightarrow> int"
  settings :: "received list"
  start_time :: timeval
  start_timer :: esp_err

definition zero_addr :: sockaddr_in where
  "zero_addr = \<lparr>sin_family = 0, sin_port = 0, s_addr = 0\<rparr>"

definition zero_time :: timeval where
  "zero_time = \<lparr>tv_sec = 0, tv_usec = 0\<rparr>"

definition zero_udp :: udp where
  "zero_udp = \<lparr>sock = 0, init_sock = 0, setting_sock = 0, server_addr = zero_addr, init_addr = zero_addr,
     setting_addr = zero_addr, udp_sensorID = 0, registrations = []\<rparr>"

text \<open>\<open>while (startMeasurement != 1) recvfrom(...)\<close>: whether the loop ends with these datagrams.\<close>

fun wait_start :: "u8 \<Rightarrow> received list \<Rightarrow> bool" where
  "wait_start startMeasurement [] \<longleftrightarrow> startMeasurement = 1"
| "wait_start startMeasurement (r # rs) \<longleftrightarrow>
     startMeasurement = 1 \<or> wait_start (hd (recv_into r [startMeasurement])) rs"

text \<open>
  How \<open>app_main\<close> ends: it waits forever (for WiFi or for the start signal), returns without
  measuring, or has started the timer and created the task after a delay of some milliseconds.
\<close>

datatype 'm app_outcome = App_waits | App_returns | App_runs "'m sampler" sender nat

definition app_slot :: "ringbuffer_handle option \<Rightarrow> 'm \<Rightarrow> 'm slot" where
  "app_slot rb m = \<lparr>ringbuffer = rb, ringbuffer_mutex = m, MutexHolder = False\<rparr>"

definition app_buffer :: "ringbuffer_handle option \<times> (nat \<Rightarrow> bool) \<times> (nat \<Rightarrow> u32) \<Rightarrow> ringbuffer_handle option" where
  "app_buffer = (\<lambda>(mem, ok, junk). fst (init_buffer mem ok junk RINGBUFFER_SIZE))"

text \<open>\<open>app_main\<close> from the registration at the server on.\<close>

definition app_register :: "('d, 'm) app_env \<Rightarrow> 'd rmt_state \<Rightarrow> 'm app_outcome option" where
  "app_register env led = do {
     let (registered, u) = init_udp (network env) zero_udp;
     if registered < 0 then Some App_returns
     else do {
       (synced, _, led) \<leftarrow> obtain_time (led_driver env) (sntp_clock env) 0 led;
       if \<not> synced > 0 then Some App_returns
       else if \<not> wait_start 0 (settings env) then Some App_waits
       else do {
         ESP_ERROR_CHECK (start_timer env);
         Some (App_runs
           \<lparr>lastBufferWritten = 2, testVar = 0, slot1 = app_slot (app_buffer (malloc1 env)) (mutex1 env),
            slot2 = app_slot (app_buffer (malloc2 env)) (mutex2 env), ISRMutex = False, measuringPoint = zero_time\<rparr>
           (send_task_init (udp_sensorID u) (start_time env) zero_time zero_time)
           (if udp_sensorID u \<noteq> 0 then unat (udp_sensorID u) * 10 else 0))
       }
     }
   }"

definition app_main :: "('d, 'm) app_env \<Rightarrow> 'm app_outcome option" where
  "app_main env = do {
     led \<leftarrow> config_led (led_driver env) (led_clk env) (led_state0 env);
     init_nvs (nvs_init1 env) (nvs_erase env) (nvs_init2 env);
     w \<leftarrow> wifi_init_sta (led_driver env) (wifi_setup env) (wifi_events env)
            \<lparr>s_retry_num = 0, event_bits = 0, connects = 0, light = led\<rparr>;
     case w of
       Blocked \<Rightarrow> Some App_waits
     | Next w \<Rightarrow> do {
         ESP_ERROR_CHECK (new_write_timer env);
         ESP_ERROR_CHECK (new_stopwatch env);
         ESP_ERROR_CHECK (register_callbacks env);
         ESP_ERROR_CHECK (set_alarm env SENSOR_RATE);
         app_register env (light w)
       }
   }"

section \<open>Properties of the start\<close>

text \<open>\<open>init_udp\<close> succeeds exactly when its last tested socket is valid: the guard behind the first
  \<open>socket\<close> looks at the wrong variable, so with no socket for the registration it still reports
  success, although nothing was sent or received, the sensor id is unchanged and the server's
  port is 0. With a good exchange the id and the port are those the server sent.\<close>

theorem init_udp_result:
  assumes "0 \<le> sock u"
    and "\<And>s. s < 0 \<Longrightarrow> sendto_reg net s < 0 \<and> fst (recv_id net s) < 0 \<and> fst (recv_port net s) < 0"
  shows "(fst (init_udp net u) = 1 \<longleftrightarrow> 0 \<le> socket2 net) \<and>
    (socket1 net < 0 \<longrightarrow> (let u' = snd (init_udp net u) in
      registrations u' = registrations u \<and> udp_sensorID u' = udp_sensorID u \<and> sin_port (server_addr u') = 0)) \<and>
    (recv_id net (socket1 net) = (1, [ident], from1) \<longrightarrow> recv_port net (socket1 net) = (2, [hi, lo], from2) \<longrightarrow>
      (let u' = snd (init_udp net u) in udp_sensorID u' = ident \<and>
        server_addr u' = \<lparr>sin_family = AF_INET, sin_port = ucast hi OR push_bit 8 (ucast lo), s_addr = s_addr from2\<rparr>))"
proof (intro conjI impI)
  show "fst (init_udp net u) = 1 \<longleftrightarrow> 0 \<le> socket2 net"
    using assms(1) by (simp add: init_udp_def Let_def)
  show "let u' = snd (init_udp net u) in registrations u' = registrations u \<and> udp_sensorID u' = udp_sensorID u \<and> sin_port (server_addr u') = 0"
    if "socket1 net < 0"
    using assms(1) assms(2) [OF that] by (auto simp: init_udp_def Let_def recv_into_def recv_addr_def store16_def split: prod.splits)
  show "let u' = snd (init_udp net u) in udp_sensorID u' = ident \<and>
        server_addr u' = \<lparr>sin_family = AF_INET, sin_port = ucast hi OR push_bit 8 (ucast lo), s_addr = s_addr from2\<rparr>"
    if "recv_id net (socket1 net) = (1, [ident], from1)" "recv_port net (socket1 net) = (2, [hi, lo], from2)"
    using assms(1) that by (auto simp: init_udp_def Let_def recv_into_def recv_addr_def store16_def)
qed

definition no_socket :: udp_calls where
  "no_socket = \<lparr>inet_addr = (\<lambda>_. 0), socket1 = -1, socket2 = 3, socket3 = 4, sendto_reg = (\<lambda>s. if s < 0 then -1 else 4),
     recv_id = (\<lambda>s. if s < 0 then (-1, [], zero_addr) else (1, [7], zero_addr)),
     recv_port = (\<lambda>s. if s < 0 then (-1, [], zero_addr) else (2, [0xC3, 0x50], zero_addr))\<rparr>"

theorem init_udp_result_witness:
  "fst (init_udp no_socket zero_udp) = 1 \<and> registrations (snd (init_udp no_socket zero_udp)) = [] \<and>
   udp_sensorID (snd (init_udp no_socket zero_udp)) = 0 \<and> sin_port (server_addr (snd (init_udp no_socket zero_udp))) = 0"
  using init_udp_result [of zero_udp no_socket] by (simp add: no_socket_def zero_udp_def Let_def)

lemma obtain_loop_eq:
  "obtain_loop years 0 0 0 =
    (if 116 \<le> years 1 then (years 1, 1) else if 116 \<le> years 2 then (years 2, 2) else if 116 \<le> years 3 then (years 3, 3)
     else if 116 \<le> years 4 then (years 4, 4) else if 116 \<le> years 5 then (years 5, 5) else (years 5, 6))"
proof -
  have s0: "obtain_loop years 0 0 0 = obtain_loop years 1 (years 1) 1"
    by (subst obtain_loop.simps) simp
  have s1: "obtain_loop years 1 (years 1) 1 = (if 116 \<le> years 1 then (years 1, 1) else obtain_loop years 2 (years 2) 2)"
    by (subst obtain_loop.simps) (simp del: One_nat_def)
  have s2: "obtain_loop years 2 (years 2) 2 = (if 116 \<le> years 2 then (years 2, 2) else obtain_loop years 3 (years 3) 3)"
    by (subst obtain_loop.simps) (simp del: One_nat_def)
  have s3: "obtain_loop years 3 (years 3) 3 = (if 116 \<le> years 3 then (years 3, 3) else obtain_loop years 4 (years 4) 4)"
    by (subst obtain_loop.simps) (simp del: One_nat_def)
  have s4: "obtain_loop years 4 (years 4) 4 = (if 116 \<le> years 4 then (years 4, 4) else obtain_loop years 5 (years 5) 5)"
    by (subst obtain_loop.simps) (simp del: One_nat_def)
  have s5: "obtain_loop years 5 (years 5) 5 = (if 116 \<le> years 5 then (years 5, 5) else (years 5, 6))"
    by (subst obtain_loop.simps) simp
  show ?thesis unfolding s0 s1 s2 s3 s4 s5 by (rule refl)
qed

text \<open>C22: \<open>obtain_time\<close> waits at most five times and always returns; it reports success, and shows blue,
  exactly when one of the first four waits brought the time. A time that arrives with the fifth and last
  wait is stored but reported as a failure.\<close>

theorem obtain_time_result:
  assumes "rmt_inv led" "0 < rmt_leds led"
  shows "\<exists>r tm_year led'. obtain_time drv years 0 led = Some (r, tm_year, led') \<and>
    (r = 1 \<or> r = -1) \<and> (r = 1 \<longleftrightarrow> 116 \<le> years 1 \<or> 116 \<le> years 2 \<or> 116 \<le> years 3 \<or> 116 \<le> years 4) \<and>
    (r = 1 \<longrightarrow> 116 \<le> tm_year) \<and> (r = -1 \<longrightarrow> tm_year = years 5) \<and>
    rmt_inv led' \<and> rmt_leds led' = rmt_leds led \<and> rmt_colour led' 0 = (if r = 1 then (0, 0, 6, 0) else (0, 6, 0, 0))"
proof -
  obtain blue where "set_led drv 0 0 6 led = Some blue" "rmt_inv blue" "rmt_leds blue = rmt_leds led" "rmt_colour blue 0 = (0, 0, 6, 0)"
    using set_led_ok [OF assms, of drv 0 0 6] by auto
  moreover obtain green where "set_led drv 0 6 0 led = Some green" "rmt_inv green" "rmt_leds green = rmt_leds led" "rmt_colour green 0 = (0, 6, 0, 0)"
    using set_led_ok [OF assms, of drv 0 6 0] by auto
  ultimately show ?thesis
    unfolding obtain_time_def obtain_loop_eq Let_def by (cases blue; cases green) (auto split: if_splits)
qed

theorem obtain_time_result_witness:
  "\<exists>tm_year led'. obtain_time bench_driver (\<lambda>k. if k = 5 then 124 else 70) 0 (fst one_rmt_led, idle) = Some (-1, tm_year, led') \<and> tm_year = 124"
proof -
  have "rmt_inv (fst one_rmt_led, idle)" "0 < rmt_leds (fst one_rmt_led, idle)"
    by (simp_all add: one_rmt_led_def rmt_inv_def)
  from obtain_time_result [OF this, of bench_driver "\<lambda>k. if k = 5 then 124 else 70"] show ?thesis by auto
qed
section \<open>From the start to the pipeline\<close>

lemma app_register_runs:
  assumes "app_register env led = Some (App_runs g t delay)"
  shows "\<exists>sid. g = \<lparr>lastBufferWritten = 2, testVar = 0, slot1 = app_slot (app_buffer (malloc1 env)) (mutex1 env),
      slot2 = app_slot (app_buffer (malloc2 env)) (mutex2 env), ISRMutex = False, measuringPoint = zero_time\<rparr> \<and>
    t = send_task_init sid (start_time env) zero_time zero_time"
proof -
  obtain r u where u: "init_udp (network env) zero_udp = (r, u)" by (metis surj_pair)
  show ?thesis
    using assms u by (auto simp: app_register_def bind_eq_Some_conv split: if_splits)
qed

lemma app_main_runs:
  fixes env :: "('d, 'm) app_env"
  assumes "app_main env = Some (App_runs g t delay)"
  shows "\<exists>sid. g = \<lparr>lastBufferWritten = 2, testVar = 0, slot1 = app_slot (app_buffer (malloc1 env)) (mutex1 env),
      slot2 = app_slot (app_buffer (malloc2 env)) (mutex2 env), ISRMutex = False, measuringPoint = zero_time\<rparr> \<and>
    t = send_task_init sid (start_time env) zero_time zero_time"
proof -
  obtain w :: "'d wifi task_result" where w: "(case w of Blocked \<Rightarrow> Some App_waits
     | Next w \<Rightarrow> do {
         ESP_ERROR_CHECK (new_write_timer env);
         ESP_ERROR_CHECK (new_stopwatch env);
         ESP_ERROR_CHECK (register_callbacks env);
         ESP_ERROR_CHECK (set_alarm env SENSOR_RATE);
         app_register env (light w)
       }) = Some (App_runs g t delay)"
    using assms unfolding app_main_def bind_eq_Some_conv [where f = "config_led a b c" for a b c]
      bind_eq_Some_conv [where f = "init_nvs a b c" for a b c] bind_eq_Some_conv [where f = "wifi_init_sta a b c d" for a b c d]
    by (elim exE conjE) (rule that, assumption)
  then show ?thesis
    by (cases w) (auto simp: bind_eq_Some_conv dest: app_register_runs)
qed

lemma app_started:
  assumes "app_main env = Some (App_runs g t delay)" "available (mutex1 env)" "available (mutex2 env)"
    and "ringbuffer (slot1 g) \<noteq> None" "ringbuffer (slot2 g) \<noteq> None"
  shows "started available RINGBUFFER_SIZE g t"
proof -
  obtain sid where g: "g = \<lparr>lastBufferWritten = 2, testVar = 0, slot1 = app_slot (app_buffer (malloc1 env)) (mutex1 env),
      slot2 = app_slot (app_buffer (malloc2 env)) (mutex2 env), ISRMutex = False, measuringPoint = zero_time\<rparr>"
    and t: "t = send_task_init sid (start_time env) zero_time zero_time"
    using app_main_runs [OF assms(1)] by blast
  obtain rb1 rb2 where rb: "app_buffer (malloc1 env) = Some rb1" "app_buffer (malloc2 env) = Some rb2"
    using assms(4,5) by (auto simp: g app_slot_def)
  have fresh: "\<exists>mem ok junk live. init_buffer mem ok junk RINGBUFFER_SIZE = (Some rb, live)" if "app_buffer m = Some rb" for m rb
  proof -
    obtain mem ok junk where m: "m = (mem, ok, junk)" by (cases m)
    obtain b live where "init_buffer mem ok junk RINGBUFFER_SIZE = (b, live)" by (metis surj_pair)
    then show ?thesis using that m by (auto simp: app_buffer_def)
  qed
  have "g = start_sampler (mutex1 env) (mutex2 env) rb1 rb2 zero_time"
    by (simp add: g rb app_slot_def start_sampler_def start_slot_def)
  moreover have "2 \<le> unat RINGBUFFER_SIZE" "unat RINGBUFFER_SIZE < 2 ^ 30" by (simp_all add: RINGBUFFER_SIZE_def)
  ultimately show ?thesis
    using fresh [OF rb(1)] fresh [OF rb(2)] assms(2,3) start_sender_init [of sid "start_time env"]
    unfolding started_def t by blast
qed

text \<open>A null first buffer faults at the first tick, a null second one as soon as the task looks at it.\<close>

lemma null_buffer_faults:
  assumes "mutex_contract os available" "available (ringbuffer_mutex (slot1 g))" "available (ringbuffer_mutex (slot2 g))"
    and "lastBufferWritten g = 2" "\<not> MutexHolder (slot1 g)" "lastBufferRead t = 2"
    and null: "ringbuffer (slot1 g) = None \<or> (\<exists>rb. ringbuffer (slot1 g) = Some rb \<and> \<not> is_full rb) \<and> ringbuffer (slot2 g) = None"
  shows "\<exists>st. reachable os (g, t, At_take) st \<and> sys_fault os st"
proof (cases "ringbuffer (slot1 g)")
  case None
  obtain w m where "xSemaphoreTakeFromISR os (ringbuffer_mutex (slot1 g)) = (True, w, m)"
    using mutex_contract.take_isr_available [OF assms(1,2)] by blast
  then have "write_task os now g = None" for now
    using None assms(4,5) by (simp add: write_task_def write_slot_def Let_def)
  then have "sys_fault os (g, t, At_take)" by (simp add: sys_fault_def)
  then show ?thesis using reachable.start by blast
next
  case (Some rb)
  then have rb: "\<not> is_full rb" "ringbuffer (slot2 g) = None" using null by auto
  obtain m1 where m1: "xSemaphoreTake os (ringbuffer_mutex (slot1 g)) = Some m1"
    using mutex_contract.take_available [OF assms(1,2)] by blast
  obtain m2 where m2: "xSemaphoreTake os (ringbuffer_mutex (slot2 g)) = Some m2"
    using mutex_contract.take_available [OF assms(1,3)] by blast
  define g1 where "g1 = g\<lparr>slot1 := (slot1 g)\<lparr>ringbuffer_mutex := m1\<rparr>\<rparr>"
  define g2 where "g2 = g1\<lparr>slot1 := (slot1 g1)\<lparr>ringbuffer_mutex := xSemaphoreGive os m1\<rparr>\<rparr>"
  define g3 where "g3 = g2\<lparr>slot2 := (slot2 g2)\<lparr>ringbuffer_mutex := m2\<rparr>\<rparr>"
  define t1 where "t1 = t\<lparr>lastBufferRead := 1\<rparr>"
  have "send_task_step os now1 now2 res (g, t, At_take) = Some (Next (g1, t, At_check))" for now1 now2 res
    using assms(6) m1 by (simp add: send_task_step_def g1_def)
  moreover have "send_task_step os now1 now2 res (g1, t, At_check) = Some (Next (g1, t, At_give))" for now1 now2 res
    using assms(6) Some rb(1) by (simp add: send_task_step_def g1_def)
  moreover have "send_task_step os now1 now2 res (g1, t, At_give) = Some (Next (g2, t1, At_take))" for now1 now2 res
    using assms(6) by (simp add: send_task_step_def g1_def g2_def t1_def)
  moreover have "send_task_step os now1 now2 res (g2, t1, At_take) = Some (Next (g3, t1, At_check))" for now1 now2 res
    using m2 by (simp add: send_task_step_def g1_def g2_def g3_def t1_def)
  ultimately have "reachable os (g, t, At_take) (g3, t1, At_check)"
    by (meson reachable.start reachable.step sys_step.task)
  moreover have "send_task_step os now1 now2 res (g3, t1, At_check) = None" for now1 now2 res
    using rb(2) by (simp add: send_task_step_def g1_def g2_def g3_def t1_def)
  then have "sys_fault os (g3, t1, At_check)" by (simp add: sys_fault_def)
  ultimately show ?thesis by blast
qed

text \<open>C9: suppose that both calls of \<open>xSemaphoreCreateMutex\<close> returned a mutex, which is free (the program
  does not check these results either, and a null mutex would fail an assertion of FreeRTOS at its first take). When \<open>app_main\<close> then
  gets as far as starting the timer and the task, no interleaving of interrupt and task ever faults
  exactly if both \<open>init_buffer\<close> calls returned a buffer: a null result is not acted upon, and leads to
  the use of a null pointer.\<close>

theorem app_main_safe:
  assumes "mutex_contract os available" "app_main env = Some (App_runs g t delay)"
    and "available (mutex1 env)" "available (mutex2 env)"
  shows "(\<forall>st. reachable os (g, t, At_take) st \<longrightarrow> \<not> sys_fault os st) \<longleftrightarrow>
    app_buffer (malloc1 env) \<noteq> None \<and> app_buffer (malloc2 env) \<noteq> None"
proof -
  obtain sid where g: "g = \<lparr>lastBufferWritten = 2, testVar = 0, slot1 = app_slot (app_buffer (malloc1 env)) (mutex1 env),
      slot2 = app_slot (app_buffer (malloc2 env)) (mutex2 env), ISRMutex = False, measuringPoint = zero_time\<rparr>"
    and t: "t = send_task_init sid (start_time env) zero_time zero_time"
    using app_main_runs [OF assms(2)] by blast
  have fresh: "\<not> is_full rb" if "app_buffer m = Some rb" for m rb
    using that by (auto simp: app_buffer_def init_buffer_def is_full_def malloc_cells_def split: prod.splits option.splits if_splits)
  show ?thesis
  proof (cases "app_buffer (malloc1 env) \<noteq> None \<and> app_buffer (malloc2 env) \<noteq> None")
    case True
    then have "started available RINGBUFFER_SIZE g t"
      by (intro app_started [OF assms(2-4)]) (auto simp: g app_slot_def)
    then have "\<not> sys_fault os st" if "reachable os (g, t, At_take) st" for st
      using mutex_contract.sys_inv_no_fault [OF assms(1), of "unat RINGBUFFER_SIZE" st]
        started_reachable_inv [OF assms(1) _ that] by (simp add: started_def)
    then show ?thesis using True by blast
  next
    case False
    have "\<exists>st. reachable os (g, t, At_take) st \<and> sys_fault os st"
      by (rule null_buffer_faults [OF assms(1)]) (use False assms(3,4) fresh [of "malloc1 env"] in \<open>auto simp: g t app_slot_def send_task_init_def\<close>)
    then show ?thesis using False by blast
  qed
qed

definition good_network :: udp_calls where
  "good_network = \<lparr>inet_addr = (\<lambda>_. 0), socket1 = 1, socket2 = 2, socket3 = 3, sendto_reg = (\<lambda>s. 4),
     recv_id = (\<lambda>s. (1, [7], zero_addr)), recv_port = (\<lambda>s. (2, [0xC3, 0x50], zero_addr))\<rparr>"

definition good_env :: "(bench, bool) app_env" where
  "good_env = \<lparr>led_driver = bench_driver, led_clk = 4, led_state0 = idle, nvs_init1 = 0, nvs_erase = 0, nvs_init2 = 0,
     wifi_setup = good_calls, wifi_events = [WIFI_EVENT_STA_START, IP_EVENT_STA_GOT_IP 1],
     malloc1 = (Some sample_buffer, \<lambda>_. True, \<lambda>_. 0), malloc2 = (Some sample_buffer, \<lambda>_. True, \<lambda>_. 0),
     mutex1 = True, mutex2 = True, new_write_timer = 0, new_stopwatch = 0, register_callbacks = 0, set_alarm = (\<lambda>_. 0),
     network = good_network, sntp_clock = (\<lambda>_. 124), settings = [(1, [1], zero_addr)], start_time = zero_time, start_timer = 0\<rparr>"

lemma good_config: "\<exists>s. config_led bench_driver 4 idle = Some s \<and> rmt_inv s \<and> 0 < rmt_leds s"
proof -
  let ?cfg = "\<lparr>strip_gpio_num = 48, max_leds = 1, led_pixel_format = LED_PIXEL_FORMAT_GRB, led_model = LED_MODEL_WS2812, invert_out = False\<rparr>"
  let ?rmt = "\<lparr>rmt_clk_src = 0, rmt_resolution_hz = 10000000, rmt_mem_block_symbols = 0, rmt_with_dma = False\<rparr>"
  have "\<not> on idle" "unat (max_leds ?cfg) * 4 + 36 < 2 ^ 32" by (simp_all add: idle_def)
  from bench.new_device_live [OF this, of 4 ?rmt] obtain err so d' where new: "led_strip_new_rmt_device bench_driver 4 (Some ?cfg) (Some ?rmt) idle = Some (err, so, d')"
    "err = ESP_OK \<longrightarrow> (\<exists>s. so = Some s \<and> rmt_inv (s, d') \<and> rmt_strip_len s = 1)"
    by (auto split: if_splits)
  have "err = ESP_OK"
    using new(1) by (auto simp: led_strip_new_rmt_device_def rmt_new_led_strip_encoder_def bench_driver_def idle_def
        esp_err_defs pixel_bytes_def)
  then obtain s where s: "so = Some s" "rmt_inv (s, d')" "rmt_strip_len s = 1" using new(2) by blast
  obtain e st where "clear (rmt_ops bench_driver) (s, d') = Some (e, st)" "rmt_inv st" "rmt_leds st = rmt_leds (s, d')"
    using rmt.clear_law [OF s(2), of bench_driver] by blast
  then show ?thesis
    using new(1) s \<open>err = ESP_OK\<close> by (simp add: config_led_def led_strip_clear_def)
qed

lemma good_run: "\<exists>g t delay. app_main good_env = Some (App_runs g t delay)"
proof -
  obtain s where s: "config_led bench_driver 4 idle = Some s" "rmt_inv s" "0 < rmt_leds s"
    using good_config by blast
  define w where "w = \<lparr>s_retry_num = 0, event_bits = 1, connects = 1, light = s\<rparr>"
  obtain st where st: "wifi_led bench_driver 0 6 0 w = Some (w\<lparr>light := st\<rparr>)" "rmt_inv st" "rmt_leds st = rmt_leds s"
    using wifi_led_ok [of w bench_driver 0 6 0] s by (auto simp: w_def)
  obtain y led' where time: "obtain_time bench_driver (\<lambda>_. 124) 0 st = Some (1, y, led')"
    using obtain_time_result [of st bench_driver "\<lambda>_. 124"] st s by auto
  have "init_nvs 0 0 0 = Some 0" by (simp add: init_nvs_def ESP_ERROR_CHECK_def ESP_OK_def ESP_ERR_NVS_NO_FREE_PAGES_def ESP_ERR_NVS_NEW_VERSION_FOUND_def)
  moreover have "wifi_init_sta bench_driver good_calls [WIFI_EVENT_STA_START, IP_EVENT_STA_GOT_IP 1]
      \<lparr>s_retry_num = 0, event_bits = 0, connects = 0, light = s\<rparr> = Some (Next (w\<lparr>light := st\<rparr>))"
    using st(1) by (simp add: wifi_init_sta_def good_calls_def ESP_ERROR_CHECK_def ESP_OK_def esp_wifi_connect_def xEventGroupSetBits_def
        wifi_const_defs w_def)
  moreover obtain u where "init_udp good_network zero_udp = (1, u)"
    by (simp add: init_udp_def good_network_def zero_udp_def Let_def)
  moreover have "wait_start 0 [(1, [1], zero_addr)]" by (simp add: recv_into_def)
  ultimately show ?thesis
    using s(1) time by (simp add: app_main_def app_register_def good_env_def ESP_ERROR_CHECK_def ESP_OK_def split: prod.split)
qed

theorem app_main_safe_witness:
  "\<exists>g t delay. app_main good_env = Some (App_runs g t delay) \<and>
    (\<forall>st. reachable flag_mutex (g, t, At_take) st \<longrightarrow> \<not> sys_fault flag_mutex st)"
proof -
  obtain g t delay where run: "app_main good_env = Some (App_runs g t delay)" using good_run by blast
  have "app_buffer (malloc1 good_env) \<noteq> None" "app_buffer (malloc2 good_env) \<noteq> None" "mutex1 good_env" "mutex2 good_env"
    by (simp_all add: good_env_def app_buffer_def init_buffer_def malloc_cells_def)
  then show ?thesis
    using app_main_safe [OF flag_mutex_contract run] run by auto
qed

end
