(* ===== verification/Coap_Encode.thy ===== *)
theory Coap_Encode
  imports Prelude
begin

unbundle bit_operations_syntax

text \<open>
  \<open>libcoap/src/coap_encode.c\<close>: position of the highest set bit and the variable-length
  big-endian integers of CoAP option values. A buffer is the byte list its pointer refers to;
  every access is checked. The encoders return the number of bytes used and the buffer as they
  leave it; a failed \<open>assert\<close> is \<open>None\<close>.
\<close>

section \<open>Loops over an index range\<close>

fun m_for :: "('i \<Rightarrow> 's \<Rightarrow> 's option) \<Rightarrow> 'i list \<Rightarrow> 's \<Rightarrow> 's option" where
  "m_for f [] s = Some s"
| "m_for f (i # is) s = Option.bind (f i s) (m_for f is)"

lemma m_for_append: "m_for f (is @ js) s = Option.bind (m_for f is s) (m_for f js)"
  by (induction "is" arbitrary: s) (auto split: bind_splits)

section \<open>Operations\<close>

function fls_loop :: "u64 \<Rightarrow> nat \<Rightarrow> nat" where
  "fls_loop i n = (if i = 0 then n else fls_loop (drop_bit 1 i) (n + 1))"
  by pat_completeness auto

lemma unat_drop_bit: "unat (drop_bit k (w :: 'a::len word)) = unat w div 2 ^ k"
  by (simp add: unat_drop_bit_eq drop_bit_eq_div [of k "unat w"])

termination fls_loop
  by (relation "measure (unat \<circ> fst)") (auto simp: unat_drop_bit unat_gt_0)

declare fls_loop.simps [simp del]

definition coap_flsll :: "u64 \<Rightarrow> nat" where
  "coap_flsll j = fls_loop j 0"

definition coap_fls :: "u32 \<Rightarrow> nat" where
  "coap_fls i = coap_flsll (ucast i)"

definition coap_decode_var_bytes :: "bytes \<Rightarrow> nat \<Rightarrow> u32 option" where
  "coap_decode_var_bytes buf len =
     m_for (\<lambda>i n. do { b \<leftarrow> c_load buf i; Some (push_bit 8 n + ucast b) }) [0..<len] 0"

text \<open>\<open>for (n = 0, i = val; i && n < sizeof(val); ++n) i >>= 8\<close>\<close>

function var_size :: "nat \<Rightarrow> 'a::len word \<Rightarrow> nat \<Rightarrow> nat" where
  "var_size lim i n = (if i \<noteq> 0 \<and> n < lim then var_size lim (drop_bit 8 i) (n + 1) else n)"
  by pat_completeness auto

termination var_size
  by (relation "measure (\<lambda>(lim, i, n). lim - n)") auto

declare var_size.simps [simp del]

text \<open>\<open>while (i--) { buf[i] = val & 0xff; val >>= 8; }\<close>\<close>

definition store_be :: "nat \<Rightarrow> bytes \<times> 'a::len word \<Rightarrow> (bytes \<times> 'a word) option" where
  "store_be n = m_for (\<lambda>i (buf, v). do {
     buf' \<leftarrow> c_store buf i (ucast (v AND 0xFF));
     Some (buf', drop_bit 8 v)
   }) (rev [0..<n])"

definition coap_encode_var_safe :: "bytes \<Rightarrow> nat \<Rightarrow> u32 \<Rightarrow> (nat \<times> bytes) option" where
  "coap_encode_var_safe buf len val = do {
     let n = var_size 4 val 0;
     if n > len then do { c_assert (n \<le> len); Some (0, buf) }
     else do {
       (buf', _) \<leftarrow> store_be n (buf, val);
       Some (n, buf')
     }
   }"

definition coap_decode_var_bytes8 :: "bytes \<Rightarrow> nat \<Rightarrow> u64 option" where
  "coap_decode_var_bytes8 buf len =
     m_for (\<lambda>i n. do { b \<leftarrow> c_load buf i; Some (push_bit 8 n + ucast b) }) [0..<min len 8] 0"

definition coap_encode_var_safe8 :: "bytes \<Rightarrow> nat \<Rightarrow> u64 \<Rightarrow> (nat \<times> bytes) option" where
  "coap_encode_var_safe8 buf len val = do {
     let n = var_size 8 val 0;
     if n > len then do { c_assert (n \<le> len); Some (0, buf) }
     else do {
       (buf', _) \<leftarrow> store_be n (buf, val);
       Some (n, buf')
     }
   }"

section \<open>The highest set bit\<close>

lemma fls_loop_spec:
  "\<exists>k. fls_loop i n = n + k \<and> unat i < 2 ^ k \<and> (k = 0 \<or> 2 ^ (k - 1) \<le> unat i)"
proof (induction i n rule: fls_loop.induct)
  case (1 i n)
  show ?case
  proof (cases "i = 0")
    case True
    then show ?thesis by (simp add: fls_loop.simps)
  next
    case False
    with 1 obtain k where k: "fls_loop (drop_bit 1 i) (n + 1) = n + 1 + k"
        "unat i div 2 < 2 ^ k" "k = 0 \<or> 2 ^ (k - 1) \<le> unat i div 2"
      by (auto simp: unat_drop_bit)
    have "2 ^ k \<le> unat i"
    proof (cases k)
      case 0
      then show ?thesis using False by (simp add: unat_gt_0 Suc_le_eq)
    next
      case (Suc m)
      then have "2 ^ m \<le> unat i div 2" using k(3) by simp
      then have "2 * 2 ^ m \<le> unat i" by linarith
      with Suc show ?thesis by simp
    qed
    moreover have "unat i < 2 ^ Suc k" using k(2) by simp
    ultimately show ?thesis
      using k(1) False by (intro exI [of _ "Suc k"]) (simp add: fls_loop.simps [of i n])
  qed
qed

lemma coap_flsll_spec:
  "unat j < 2 ^ coap_flsll j" "coap_flsll j = 0 \<or> 2 ^ (coap_flsll j - 1) \<le> unat j"
  using fls_loop_spec [of j 0] by (auto simp: coap_flsll_def)

lemma coap_flsll_eqI:
  assumes "unat j < 2 ^ k" "k = 0 \<or> 2 ^ (k - 1) \<le> unat j"
  shows "coap_flsll j = k"
proof -
  have less: "a \<le> b" if "a = 0 \<or> 2 ^ (a - 1) \<le> unat j" "unat j < 2 ^ b" for a b
  proof (cases a)
    case (Suc m)
    then have "(2::nat) ^ m \<le> unat j" using that(1) by simp
    then have "(2::nat) ^ m < 2 ^ b" using that(2) by (rule le_less_trans)
    then show ?thesis using Suc by simp
  qed simp
  show ?thesis
    using less [OF coap_flsll_spec(2) assms(1)] less [OF assms(2) coap_flsll_spec(1)] by simp
qed

section \<open>Big-endian integers of variable length\<close>

primrec be_bytes :: "nat \<Rightarrow> 'a::len word \<Rightarrow> bytes" where
  "be_bytes 0 v = []"
| "be_bytes (Suc n) v = be_bytes n (drop_bit 8 v) @ [ucast v]"

definition be_value :: "bytes \<Rightarrow> 'a::len word" where
  "be_value bs = foldl (\<lambda>n b. push_bit 8 n + ucast b) 0 bs"

lemma length_be_bytes [simp]: "length (be_bytes n v) = n"
  by (induction n arbitrary: v) auto

lemma push_drop_8:
  fixes v :: "'a::len word"
  assumes "8 \<le> LENGTH('a)"
  shows "push_bit 8 (drop_bit 8 v) + ucast (ucast v :: u8) = v"
proof -
  have low: "ucast (ucast v :: u8) = take_bit 8 v"
    using assms by (intro bit_word_eqI) (auto simp: bit_simps)
  have "push_bit 8 (drop_bit 8 v) AND take_bit 8 v = 0"
    by (rule bit_word_eqI) (auto simp: bit_simps)
  then have "push_bit 8 (drop_bit 8 v) + take_bit 8 v = push_bit 8 (drop_bit 8 v) OR take_bit 8 v"
    by (rule disjunctive_add_eq_or)
  then show ?thesis
    unfolding low by (simp add: bit_eq_iff bit_simps) auto
qed

lemma be_value_be_bytes:
  fixes v :: "'a::len word"
  assumes "8 \<le> LENGTH('a)" "unat v < 256 ^ n"
  shows "be_value (be_bytes n v) = v"
  using assms(2)
proof (induction n arbitrary: v)
  case 0
  then show ?case by (simp add: be_value_def unat_eq_0)
next
  case (Suc n)
  then have "unat (drop_bit 8 v) < 256 ^ n"
    by (simp add: unat_drop_bit less_mult_imp_div_less mult.commute)
  from Suc.IH [OF this] show ?case
    using push_drop_8 [OF assms(1), of v] by (simp add: be_value_def)
qed

lemma decode_loop:
  assumes "length bs \<le> length buf" "take (length bs) buf = bs"
  shows "m_for (\<lambda>i n. do { b \<leftarrow> c_load buf i; Some (push_bit 8 n + ucast b) }) [0..<length bs] 0 =
    Some (be_value bs :: 'a::len word)"
proof -
  have "m_for (\<lambda>i n. do { b \<leftarrow> c_load buf i; Some (push_bit 8 n + ucast b) }) [0..<k] 0 =
      Some (be_value (take k bs) :: 'a word)" if "k \<le> length bs" for k
    using that
  proof (induction k)
    case 0
    then show ?case by (simp add: be_value_def)
  next
    case (Suc k)
    then have "buf ! k = bs ! k" "k < length buf"
      using assms by (metis Suc_le_lessD nth_take, simp)
    with Suc show ?case
      by (simp add: m_for_append c_load_def be_value_def take_Suc_conv_app_nth)
  qed
  from this [of "length bs"] show ?thesis by simp
qed

lemma mask_255: "(0xFF :: 'a::len word) = mask 8"
  by (simp add: mask_eq_exp_minus_1)

lemma store_be_eq:
  "n \<le> length buf \<Longrightarrow> store_be n (buf, v) = Some (be_bytes n v @ drop n buf, drop_bit (8 * n) v)"
proof (induction n arbitrary: buf v)
  case 0
  then show ?case by (simp add: store_be_def)
next
  case (Suc n)
  have low: "(ucast (v AND 0xFF) :: u8) = ucast v"
    by (rule bit_word_eqI) (auto simp: bit_simps mask_255 dest: bit_imp_le_length)
  have "store_be (Suc n) (buf, v) = store_be n (buf[n := ucast v], drop_bit 8 v)"
    using Suc.prems by (simp add: store_be_def c_store_def low)
  also have "\<dots> = Some (be_bytes n (drop_bit 8 v) @ drop n (buf[n := ucast v]), drop_bit (8 * n) (drop_bit 8 v))"
    using Suc by simp
  also have "drop n (buf[n := ucast v]) = ucast v # drop (Suc n) buf"
    using Suc.prems by (simp add: drop_update_swap Cons_nth_drop_Suc [symmetric])
  finally show ?case by (simp add: drop_bit_drop_bit ac_simps)
qed

text \<open>The number of bytes is the least that holds the value.\<close>

lemma var_size_spec:
  fixes i :: "'a::len word"
  assumes "n \<le> lim" "unat i < 256 ^ (lim - n)"
  shows "\<exists>k. var_size lim i n = n + k \<and> n + k \<le> lim \<and> unat i < 256 ^ k \<and> (k = 0 \<or> 256 ^ (k - 1) \<le> unat i)"
  using assms
proof (induction lim i n rule: var_size.induct)
  case (1 lim i n)
  show ?case
  proof (cases "i = 0 \<or> n = lim")
    case True
    then show ?thesis
      using 1(2,3) by (auto simp: var_size.simps [of lim i n] unat_eq_0)
  next
    case False
    then have n: "n < lim" "i \<noteq> 0" using 1(2) by auto
    have "unat i < 256 * 256 ^ (lim - (n + 1))"
      using 1(3) n by (simp add: Suc_diff_Suc flip: power_Suc)
    then have "unat (drop_bit 8 i) < 256 ^ (lim - (n + 1))"
      by (simp add: unat_drop_bit less_mult_imp_div_less mult.commute)
    with 1(1) n obtain k where k: "var_size lim (drop_bit 8 i) (n + 1) = n + 1 + k" "n + 1 + k \<le> lim"
        "unat i div 256 < 256 ^ k" "k = 0 \<or> 256 ^ (k - 1) \<le> unat i div 256"
      by (auto simp: unat_drop_bit)
    have "256 ^ k \<le> unat i"
    proof (cases k)
      case 0
      then show ?thesis using n by (simp add: unat_gt_0 Suc_le_eq)
    next
      case (Suc m)
      then have "256 ^ m \<le> unat i div 256" using k(4) by simp
      then have "256 * 256 ^ m \<le> unat i" by linarith
      with Suc show ?thesis by simp
    qed
    moreover have "unat i < 256 ^ Suc k" using k(3) by simp
    ultimately show ?thesis
      using k(1,2) n by (intro exI [of _ "Suc k"]) (simp add: var_size.simps [of lim i n])
  qed
qed

lemma var_size_u32:
  fixes v :: u32
  obtains k where "var_size 4 v 0 = k" "k \<le> 4" "unat v < 256 ^ k" "k = 0 \<or> 256 ^ (k - 1) \<le> unat v"
  using var_size_spec [of 0 4 v] unsigned_less [of v, where ?'a = nat] by auto

lemma var_size_u64:
  fixes v :: u64
  obtains k where "var_size 8 v 0 = k" "k \<le> 8" "unat v < 256 ^ k" "k = 0 \<or> 256 ^ (k - 1) \<le> unat v"
  using var_size_spec [of 0 8 v] unsigned_less [of v, where ?'a = nat] by auto

text \<open>What the encoders do: exactly the needed bytes, or a failed assertion when the buffer is too short.\<close>

lemma encode_var_safe_eq:
  assumes "len \<le> length buf" "var_size 4 v 0 \<le> len"
  shows "coap_encode_var_safe buf len v = Some (var_size 4 v 0, be_bytes (var_size 4 v 0) v @ drop (var_size 4 v 0) buf)"
  using assms by (simp add: coap_encode_var_safe_def Let_def store_be_eq)

lemma encode_var_safe8_eq:
  assumes "len \<le> length buf" "var_size 8 v 0 \<le> len"
  shows "coap_encode_var_safe8 buf len v = Some (var_size 8 v 0, be_bytes (var_size 8 v 0) v @ drop (var_size 8 v 0) buf)"
  using assms by (simp add: coap_encode_var_safe8_def Let_def store_be_eq)

lemma decode_be_bytes:
  fixes v :: u32
  assumes "unat v < 256 ^ n"
  shows "coap_decode_var_bytes (be_bytes n v @ rest) n = Some v"
  using decode_loop [of "be_bytes n v" "be_bytes n v @ rest", where 'a = 32] assms
  by (simp add: coap_decode_var_bytes_def be_value_be_bytes)

lemma decode8_be_bytes:
  fixes v :: u64
  assumes "unat v < 256 ^ n" "n \<le> 8"
  shows "coap_decode_var_bytes8 (be_bytes n v @ rest) n = Some v"
  using decode_loop [of "be_bytes n v" "be_bytes n v @ rest", where 'a = 64] assms
  by (simp add: coap_decode_var_bytes8_def be_value_be_bytes min_def)

section \<open>Properties\<close>

text \<open>\<open>coap_encode_var_safe\<close> into four bytes or more never fails, writes the shortest
  big-endian form of the value (no byte for 0) and nothing behind it, and
  \<open>coap_decode_var_bytes\<close> reads the value back.\<close>

theorem var_bytes_roundtrip:
  assumes "4 \<le> len" "len \<le> length buf"
  shows "\<exists>n buf'. coap_encode_var_safe buf len v = Some (n, buf') \<and>
    coap_decode_var_bytes buf' n = Some v \<and> unat v < 256 ^ n \<and> (n = 0 \<or> 256 ^ (n - 1) \<le> unat v) \<and>
    length buf' = length buf \<and> drop n buf' = drop n buf"
proof -
  obtain k where k: "var_size 4 v 0 = k" "k \<le> 4" "unat v < 256 ^ k" "k = 0 \<or> 256 ^ (k - 1) \<le> unat v"
    by (rule var_size_u32)
  then show ?thesis
    using assms encode_var_safe_eq [of len buf v] by (auto simp: decode_be_bytes)
qed

theorem var_bytes_roundtrip_witness:
  "\<exists>n buf'. coap_encode_var_safe [9, 9, 9, 9, 9] 4 66051 = Some (n, buf') \<and>
    coap_decode_var_bytes buf' n = Some 66051"
  using var_bytes_roundtrip [of 4 "[9, 9, 9, 9, 9]" 66051] by auto

text \<open>The 64-bit encoder needs eight bytes at most and its decoder inverts it.\<close>

theorem var_bytes8_roundtrip:
  assumes "8 \<le> len" "len \<le> length buf"
  shows "\<exists>n buf'. coap_encode_var_safe8 buf len v = Some (n, buf') \<and> n \<le> 8 \<and>
    coap_decode_var_bytes8 buf' n = Some v \<and> drop n buf' = drop n buf"
proof -
  obtain k where k: "var_size 8 v 0 = k" "k \<le> 8" "unat v < 256 ^ k" "k = 0 \<or> 256 ^ (k - 1) \<le> unat v"
    by (rule var_size_u64)
  then show ?thesis
    using assms encode_var_safe8_eq [of len buf v] by (auto simp: decode8_be_bytes)
qed

theorem var_bytes8_roundtrip_witness:
  "\<exists>n buf'. coap_encode_var_safe8 (replicate 9 0) 8 66051 = Some (n, buf') \<and>
    coap_decode_var_bytes8 buf' n = Some 66051"
  using var_bytes8_roundtrip [of 8 "replicate 9 0" 66051] by auto

end
