(* ===== verification/Coap_Option.thy ===== *)
theory Coap_Option
  imports Coap_Encode
begin

unbundle bit_operations_syntax

text \<open>
  \<open>libcoap/src/coap_option.c\<close>: parsing and encoding of one CoAP option (RFC 7252, 3.1)
  inside a byte buffer, and the fixed-size set of option numbers the iterator filters by.

  A pointer into a buffer is an offset; \<open>mem\<close> is the object it points into. A function
  that returns 0 (or \<open>NULL\<close>) for malformed input has the result type \<open>attempt\<close>. As in
  \<open>coap_option.h\<close>, the fields of \<open>*result\<close> have a meaning only when the parser accepts.
\<close>

section \<open>Results\<close>

datatype 'a attempt = Rejected | Accepted 'a

text \<open>Continue, or \<open>return 0\<close>.\<close>

definition or_return0 :: "'a attempt \<Rightarrow> ('a \<Rightarrow> 'b attempt option) \<Rightarrow> 'b attempt option" where
  "or_return0 r f = (case r of Rejected \<Rightarrow> Some Rejected | Accepted x \<Rightarrow> f x)"

lemma or_return0_simps [simp]:
  "or_return0 Rejected f = Some Rejected" "or_return0 (Accepted x) f = f x"
  by (simp_all add: or_return0_def)

lemma or_return0_eq_Accepted:
  "or_return0 r f = Some (Accepted y) \<longleftrightarrow> (\<exists>x. r = Accepted x \<and> f x = Some (Accepted y))"
  by (cases r) simp_all

record coap_option =
  delta :: u16
  opt_len :: nat
  opt_val :: nat

section \<open>Parsing\<close>

text \<open>The macros \<open>ADVANCE_OPT\<close> and \<open>ADVANCE_OPT_CHECK\<close> on (pointer, remaining length).\<close>

definition advance_opt :: "nat \<Rightarrow> nat \<times> nat \<Rightarrow> (nat \<times> nat) attempt" where
  "advance_opt step = (\<lambda>(o1, e). if e < step then Rejected else Accepted (o1 + step, e - step))"

definition advance_opt_check :: "nat \<Rightarrow> nat \<times> nat \<Rightarrow> (nat \<times> nat) attempt" where
  "advance_opt_check step s = (case advance_opt step s of
     Rejected \<Rightarrow> Rejected
   | Accepted (o1, e) \<Rightarrow> if e < 1 then Rejected else Accepted (o1, e))"

text \<open>The first \<open>switch\<close>: the option delta, a 16-bit field.\<close>

definition delta_low :: "bytes \<Rightarrow> u16 \<Rightarrow> nat \<times> nat \<Rightarrow> (u16 \<times> nat \<times> nat) attempt option" where
  "delta_low mem d s = or_return0 (advance_opt_check 1 s) (\<lambda>(opt, len). do {
     lsb \<leftarrow> c_load mem opt;
     Some (Accepted (d + (ucast lsb AND 0xFF), opt, len))
   })"

definition opt_delta_field :: "bytes \<Rightarrow> u8 \<Rightarrow> nat \<times> nat \<Rightarrow> (u16 \<times> nat \<times> nat) attempt option" where
  "opt_delta_field mem first s =
     (let d = ucast (drop_bit 4 (first AND 0xF0)) in
      if d = 15 then Some Rejected
      else if d = 14 then
        or_return0 (advance_opt_check 1 s) (\<lambda>(opt, len). do {
          msb \<leftarrow> c_load mem opt;
          let d' = push_bit 8 (ucast msb AND 0xFF) + 269;
          if d' < 269 then Some Rejected else delta_low mem d' (opt, len)
        })
      else if d = 13 then delta_low mem d s
      else Some (Accepted (d, s)))"

text \<open>The second \<open>switch\<close>: the option length, a \<open>size_t\<close>.\<close>

definition length_low :: "bytes \<Rightarrow> nat \<Rightarrow> nat \<times> nat \<Rightarrow> (nat \<times> nat \<times> nat) attempt option" where
  "length_low mem n s = or_return0 (advance_opt_check 1 s) (\<lambda>(opt, len). do {
     lsb \<leftarrow> c_load mem opt;
     Some (Accepted (n + unat lsb, opt, len))
   })"

definition opt_length_field :: "bytes \<Rightarrow> u8 \<Rightarrow> nat \<times> nat \<Rightarrow> (nat \<times> nat \<times> nat) attempt option" where
  "opt_length_field mem first s =
     (let n = unat (first AND 0x0F) in
      if n = 15 then Some Rejected
      else if n = 14 then
        or_return0 (advance_opt_check 1 s) (\<lambda>(opt, len). do {
          msb \<leftarrow> c_load mem opt;
          length_low mem (unat msb * 256 + 269) (opt, len)
        })
      else if n = 13 then length_low mem n s
      else Some (Accepted (n, s)))"

definition coap_opt_parse :: "bytes \<Rightarrow> nat \<Rightarrow> nat \<Rightarrow> (nat \<times> coap_option) attempt option" where
  "coap_opt_parse mem opt len =
     (if len < 1 then Some Rejected
      else do {
        first \<leftarrow> c_load mem opt;
        r1 \<leftarrow> opt_delta_field mem first (opt, len);
        or_return0 r1 (\<lambda>(d, s1). do {
          r2 \<leftarrow> opt_length_field mem first s1;
          or_return0 r2 (\<lambda>(n, s2).
            or_return0 (advance_opt 1 s2) (\<lambda>(val, rest).
              Some (if rest < n then Rejected
                    else Accepted (val + n - opt, \<lparr>delta = d, opt_len = n, opt_val = val\<rparr>))))
        })
      })"

text \<open>The accessors that trust the encoding.\<close>

definition coap_opt_length :: "bytes \<Rightarrow> nat \<Rightarrow> nat option" where
  "coap_opt_length mem opt = do {
     first \<leftarrow> c_load mem opt;
     let n = unat (first AND 0x0F);
     let hi = first AND 0xF0;
     if hi = 0xF0 then Some 0
     else do {
       let o1 = (if hi = 0xE0 then opt + 3 else if hi = 0xD0 then opt + 2 else opt + 1);
       if n = 15 then Some 0
       else if n = 14 then do {
         msb \<leftarrow> c_load mem o1;
         lsb \<leftarrow> c_load mem (o1 + 1);
         Some (unat msb * 256 + 269 + unat lsb)
       }
       else if n = 13 then do {
         lsb \<leftarrow> c_load mem o1;
         Some (n + unat lsb)
       }
       else Some n
     }
   }"

definition coap_opt_value :: "bytes \<Rightarrow> nat \<Rightarrow> nat attempt option" where
  "coap_opt_value mem opt = do {
     first \<leftarrow> c_load mem opt;
     let hi = first AND 0xF0;
     if hi = 0xF0 then Some Rejected
     else do {
       let ofs1 = (if hi = 0xE0 then 3 else if hi = 0xD0 then 2 else 1 :: nat);
       let lo = first AND 0x0F;
       if lo = 0x0F then Some Rejected
       else Some (Accepted (opt + (if lo = 0x0E then ofs1 + 2 else if lo = 0x0D then ofs1 + 1 else ofs1)))
     }
   }"

definition coap_opt_size :: "bytes \<Rightarrow> nat \<Rightarrow> nat option" where
  "coap_opt_size mem opt = do {
     r \<leftarrow> coap_opt_parse mem opt (2 ^ 32 - 1);
     Some (case r of Rejected \<Rightarrow> 0 | Accepted (n, _) \<Rightarrow> n)
   }"

section \<open>Encoding\<close>

text \<open>
  \<open>coap_opt_setheader\<close> returns the number of header bytes, 0 when they do not fit, and the
  buffer as it leaves it (the delta is written before the space for the length is checked).
\<close>

definition set_delta :: "bytes \<Rightarrow> nat \<Rightarrow> nat \<Rightarrow> u16 \<Rightarrow> (nat attempt \<times> bytes) option" where
  "set_delta mem opt maxlen d =
     (if d < 13 then do {
        m \<leftarrow> c_store mem opt (push_bit 4 (ucast d));
        Some (Accepted 0, m)
      }
      else if d < 269 then
        (if maxlen < 2 then Some (Rejected, mem)
         else do {
           m \<leftarrow> c_store mem opt 0xD0;
           m \<leftarrow> c_store m (opt + 1) (ucast (d - 13));
           Some (Accepted 1, m)
         })
      else
        (if maxlen < 3 then Some (Rejected, mem)
         else do {
           m \<leftarrow> c_store mem opt 0xE0;
           m \<leftarrow> c_store m (opt + 1) (ucast (drop_bit 8 (d - 269) AND 0xFF));
           m \<leftarrow> c_store m (opt + 2) (ucast ((d - 269) AND 0xFF));
           Some (Accepted 2, m)
         }))"

definition or_first :: "bytes \<Rightarrow> nat \<Rightarrow> u8 \<Rightarrow> bytes option" where
  "or_first mem opt x = do { b \<leftarrow> c_load mem opt; c_store mem opt (b OR x) }"

definition coap_opt_setheader :: "bytes \<Rightarrow> nat \<Rightarrow> nat \<Rightarrow> u16 \<Rightarrow> nat \<Rightarrow> (nat \<times> bytes) option" where
  "coap_opt_setheader mem opt maxlen d n =
     (if maxlen = 0 then Some (0, mem)
      else do {
        (r, m) \<leftarrow> set_delta mem opt maxlen d;
        case r of
          Rejected \<Rightarrow> Some (0, m)
        | Accepted skip \<Rightarrow>
            if n < 13 then do {
              m \<leftarrow> or_first m opt (word_of_nat n AND 0x0F);
              Some (skip + 1, m)
            }
            else if n < 269 then
              (if maxlen < skip + 2 then Some (0, m)
               else do {
                 m \<leftarrow> or_first m opt 0x0D;
                 m \<leftarrow> c_store m (opt + skip + 1) (word_of_nat (n - 13));
                 Some (skip + 2, m)
               })
            else
              (if maxlen < skip + 3 then Some (0, m)
               else do {
                 m \<leftarrow> or_first m opt 0x0E;
                 m \<leftarrow> c_store m (opt + skip + 1) (word_of_nat ((n - 269) div 256));
                 m \<leftarrow> c_store m (opt + skip + 2) (word_of_nat (n - 269));
                 Some (skip + 3, m)
               })
      })"

definition coap_opt_encode_size :: "u16 \<Rightarrow> nat \<Rightarrow> nat" where
  "coap_opt_encode_size d n =
     1 + (if d \<ge> 13 then if d < 269 then 1 else 2 else 0) + (if n \<ge> 13 then if n < 269 then 1 else 2 else 0) + n"

text \<open>\<open>val\<close> is \<open>None\<close> for the null pointer.\<close>

definition coap_opt_encode :: "bytes \<Rightarrow> nat \<Rightarrow> nat \<Rightarrow> u16 \<Rightarrow> bytes option \<Rightarrow> nat \<Rightarrow> (nat \<times> bytes) option" where
  "coap_opt_encode mem opt maxlen d val n = do {
     (l, m) \<leftarrow> coap_opt_setheader mem opt maxlen d n;
     c_assert (l \<le> maxlen);
     if l = 0 then Some (0, m)
     else if maxlen - l < n then Some (0, m)
     else (case val of
        None \<Rightarrow> Some (l + n, m)
      | Some v \<Rightarrow> do {
          bs \<leftarrow> c_slice v 0 n;
          m \<leftarrow> c_blit m (opt + l) bs;
          Some (l + n, m)
        })
   }"

section \<open>Masks and small numerals\<close>

lemma and_low_nibble: "(b :: 'a::len word) AND 0x0F = take_bit 4 b"
  by (simp add: take_bit_eq_mask mask_eq_exp_minus_1)

lemma and_low_byte: "(b :: 'a::len word) AND 0xFF = take_bit 8 b"
  by (simp add: take_bit_eq_mask mask_eq_exp_minus_1)

lemma high_nibble: "drop_bit 4 ((b :: u8) AND 0xF0) = drop_bit 4 b"
  by (rule word_eqI_bits) (simp add: bit_positions bit_simps)

lemma unat_high_nibble: "unat (drop_bit 4 ((b :: u8) AND 0xF0)) = unat b div 16"
  unfolding high_nibble by (simp add: unat_drop_bit)

lemma unat_low_nibble: "unat ((b :: u8) AND 0x0F) = unat b mod 16"
  unfolding and_low_nibble by (simp add: unsigned_take_bit_eq take_bit_eq_mod [of 4 "unat b"])

lemma ucast_u8_low_byte: "(ucast (b :: u8) :: u16) AND 0xFF = ucast b"
  unfolding and_low_byte by (rule word_eqI_bits) (simp add: bit_positions bit_simps)

section \<open>The wire format of an option header\<close>

definition ext_nibble :: "nat \<Rightarrow> nat" where
  "ext_nibble x = (if x < 13 then x else if x < 269 then 13 else 14)"

definition ext_bytes :: "nat \<Rightarrow> bytes" where
  "ext_bytes x =
     (if x < 13 then [] else if x < 269 then [word_of_nat (x - 13)]
      else [word_of_nat ((x - 269) div 256), word_of_nat (x - 269)])"

definition opt_header :: "nat \<Rightarrow> nat \<Rightarrow> bytes" where
  "opt_header d n = word_of_nat (16 * ext_nibble d + ext_nibble n) # ext_bytes d @ ext_bytes n"

lemma length_ext_bytes: "length (ext_bytes x) = (if x < 13 then 0 else if x < 269 then 1 else 2)"
  by (simp add: ext_bytes_def)

lemma length_opt_header: "length (opt_header d n) = 1 + length (ext_bytes d) + length (ext_bytes n)"
  by (simp add: opt_header_def)

lemma ext_nibble_less: "ext_nibble x < 15"
  by (simp add: ext_nibble_def)

lemma coap_opt_encode_size_eq: "coap_opt_encode_size d n = length (opt_header (unat d) n) + n"
  by (simp add: coap_opt_encode_size_def length_opt_header length_ext_bytes word_less_nat_alt word_le_nat_alt)

lemma unat_header_byte:
  "unat (word_of_nat (16 * ext_nibble d + ext_nibble n) :: u8) = 16 * ext_nibble d + ext_nibble n"
  using ext_nibble_less [of d] ext_nibble_less [of n] by (intro unat_of_nat_small) simp

lemma header_byte_nibbles:
  assumes "b = word_of_nat (16 * ext_nibble d + ext_nibble n)"
  shows "unat (drop_bit 4 (b AND 0xF0) :: u8) = ext_nibble d" "unat (b AND 0x0F) = ext_nibble n"
  using ext_nibble_less [of n] unfolding assms unat_high_nibble unat_low_nibble unat_header_byte by simp_all

lemma c_load_append:
  "c_load (pre @ xs) (length pre + i) = c_load xs i"
  "c_load (pre @ xs) (length pre) = c_load xs 0"
  by (simp_all add: c_load_def nth_append)

lemma c_load_Cons [simp]:
  "c_load (x # xs) 0 = Some x" "c_load (x # xs) (Suc i) = c_load xs i"
  by (simp_all add: c_load_def)


text \<open>The two fields of a header are read back.\<close>

lemma opt_delta_header:
  assumes "d < 65536" and first: "unat (drop_bit 4 (first AND 0xF0) :: u8) = ext_nibble d"
    and room: "length (ext_bytes d) < len"
  shows "opt_delta_field (pre @ f # ext_bytes d @ rest) first (length pre, len) =
    Some (Accepted (word_of_nat d, length pre + length (ext_bytes d), len - length (ext_bytes d)))"
proof -
  have nib: "ucast (drop_bit 4 (first AND 0xF0)) = (word_of_nat (ext_nibble d) :: u16)"
    using first by (metis of_nat_unat)
  have load: "c_load (pre @ f # xs) (Suc (length pre + i)) = c_load xs i" for xs i
    using c_load_append(1) [of pre "f # xs" "Suc i"] by simp
  consider "d < 13" | "13 \<le> d" "d < 269" | "269 \<le> d" by linarith
  then show ?thesis
  proof cases
    case 1
    have "unat (word_of_nat d :: u16) = d" using 1 by (simp add: unat_of_nat_small)
    then have "(word_of_nat d :: u16) \<noteq> 15" "(word_of_nat d :: u16) \<noteq> 14" "(word_of_nat d :: u16) \<noteq> 13"
      using 1 by (auto simp: word_unat_eq_iff)
    then show ?thesis
      using 1 nib by (simp add: opt_delta_field_def ext_nibble_def ext_bytes_def Let_def)
  next
    case 2
    have "(13 :: u16) + ucast (word_of_nat (d - 13) :: u8) = word_of_nat d"
      using 2 by (simp add: word_unat_eq_iff unat_word_ariths unsigned_ucast_eq unat_of_nat_small
          take_bit_nat_eq_self del: of_nat_diff)
    then show ?thesis
      using 2 nib room load [of _ 0]
      by (simp add: opt_delta_field_def ext_nibble_def ext_bytes_def Let_def delta_low_def advance_opt_check_def
          advance_opt_def ucast_u8_low_byte del: of_nat_diff)
  next
    case 3
    let ?q = "(d - 269) div 256"
    have q: "?q < 256" "(d - 269) mod 256 + 256 * ?q = d - 269" "?q \<le> 254"
      using 3 assms(1) by auto
    have hi: "unat (push_bit 8 (ucast (word_of_nat ?q :: u8)) + 269 :: u16) = ?q * 256 + 269"
      using q by (simp add: unat_word_ariths push_bit_eq_mult unsigned_ucast_eq unat_of_nat_small
          take_bit_nat_eq_self)
    then have big: "\<not> (push_bit 8 (ucast (word_of_nat ?q :: u8)) + 269 :: u16) < 269"
      by (simp add: word_less_nat_alt)
    have lo: "unat (ucast (word_of_nat (d - 269) :: u8) :: u16) = (d - 269) mod 256"
      by (simp add: unsigned_ucast_eq unsigned_of_nat take_bit_eq_mod del: of_nat_diff)
    have "(push_bit 8 (ucast (word_of_nat ?q :: u8)) + 269 :: u16) + ucast (word_of_nat (d - 269) :: u8) =
        word_of_nat (?q * 256 + 269 + (d - 269) mod 256)"
      unfolding hi [symmetric] lo [symmetric] by simp
    also have "?q * 256 + 269 + (d - 269) mod 256 = d"
      using 3 by simp
    finally have sum: "(push_bit 8 (ucast (word_of_nat ?q :: u8)) + 269 :: u16) +
        ucast (word_of_nat (d - 269) :: u8) = word_of_nat d" .
    show ?thesis
      using 3 nib room load [of _ 0] load [of _ 1] big sum
      by (simp add: opt_delta_field_def ext_nibble_def ext_bytes_def Let_def delta_low_def advance_opt_check_def
          advance_opt_def ucast_u8_low_byte del: of_nat_diff)
  qed
qed

lemma opt_length_header:
  assumes "n < 65805" and first: "unat (first AND 0x0F) = ext_nibble n"
    and room: "length (ext_bytes n) < len"
  shows "opt_length_field (pre @ f # ext_bytes n @ rest) first (length pre, len) =
    Some (Accepted (n, length pre + length (ext_bytes n), len - length (ext_bytes n)))"
proof -
  have load: "c_load (pre @ f # xs) (Suc (length pre + i)) = c_load xs i" for xs i
    using c_load_append(1) [of pre "f # xs" "Suc i"] by simp
  consider "n < 13" | "13 \<le> n" "n < 269" | "269 \<le> n" by linarith
  then show ?thesis
  proof cases
    case 1
    then show ?thesis
      using first by (simp add: opt_length_field_def ext_nibble_def ext_bytes_def Let_def)
  next
    case 2
    then show ?thesis
      using first room load [of _ 0]
      by (simp add: opt_length_field_def ext_nibble_def ext_bytes_def Let_def length_low_def
          advance_opt_check_def advance_opt_def unat_of_nat_small del: of_nat_diff)
  next
    case 3
    let ?q = "(n - 269) div 256"
    have q: "?q < 256" "(n - 269) mod 256 + 256 * ?q = n - 269"
      using 3 assms(1) by auto
    have "unat (word_of_nat ?q :: u8) * 256 + 269 + unat (word_of_nat (n - 269) :: u8) = n"
      using q 3 by (simp add: unsigned_of_nat take_bit_eq_mod del: of_nat_diff)
    then show ?thesis
      using 3 first room load [of _ 0] load [of _ 1]
      by (simp add: opt_length_field_def ext_nibble_def ext_bytes_def Let_def length_low_def
          advance_opt_check_def advance_opt_def del: of_nat_diff)
  qed
qed

lemma coap_opt_parse_header:
  assumes "d < 65536" "n < 65805" "n \<le> length rest" "length (opt_header d n) + n \<le> len"
  shows "coap_opt_parse (pre @ opt_header d n @ rest) (length pre) len =
    Some (Accepted (length (opt_header d n) + n,
      \<lparr>delta = word_of_nat d, opt_len = n, opt_val = length pre + length (opt_header d n)\<rparr>))"
proof -
  define b :: u8 where b: "b = word_of_nat (16 * ext_nibble d + ext_nibble n)"
  let ?mem = "pre @ b # ext_bytes d @ ext_bytes n @ rest"
  let ?p = "length pre" and ?k = "length (ext_bytes d)" and ?m = "length (ext_bytes n)"
  have mem: "pre @ opt_header d n @ rest = ?mem"
    by (simp add: opt_header_def b)
  have len: "1 + ?k + ?m + n \<le> len"
    using assms(4) by (simp add: length_opt_header)
  have delta: "opt_delta_field ?mem b (?p, len) = Some (Accepted (word_of_nat d, ?p + ?k, len - ?k))"
    using opt_delta_header [OF assms(1) header_byte_nibbles(1) [OF b]] len by simp
  have length: "opt_length_field ?mem b (?p + ?k, len - ?k) =
      Some (Accepted (n, ?p + ?k + ?m, len - ?k - ?m))"
  proof -
    let ?pre = "pre @ butlast (b # ext_bytes d)" and ?f = "last (b # ext_bytes d)"
    have "?pre @ ?f # ext_bytes n @ rest = ?mem"
      using append_butlast_last_id [of "b # ext_bytes d"]
      by (metis append.assoc append_Cons append_Nil list.distinct(1))
    moreover have "length ?pre = ?p + ?k" by simp
    moreover have "?m < len - ?k" using len by simp
    ultimately show ?thesis
      using opt_length_header [OF assms(2) header_byte_nibbles(2) [OF b], of "len - ?k" ?pre ?f rest] by metis
  qed
  have first: "c_load ?mem ?p = Some b"
    by (simp add: c_load_append)
  show ?thesis
    unfolding mem using len
    by (simp add: coap_opt_parse_def first delta length advance_opt_def length_opt_header)
qed

section \<open>Encoding writes the wire format\<close>

lemma c_store_append:
  "c_store (pre @ xs) (length pre + i) v = map_option (\<lambda>ys. pre @ ys) (c_store xs i v)"
  "c_store (pre @ xs) (length pre) v = map_option (\<lambda>ys. pre @ ys) (c_store xs 0 v)"
  by (simp_all add: c_store_def list_update_append)

lemma c_store_Cons [simp]:
  "c_store (x # xs) 0 v = Some (v # xs)"
  "c_store (x # xs) (Suc i) v = map_option (\<lambda>ys. x # ys) (c_store xs i v)"
  by (simp_all add: c_store_def)

lemma of_nat_unat_ucast: "word_of_nat (unat w) = (ucast w :: 'b::len word)"
  by simp

lemma ucast_low_byte: "ucast ((w :: u16) AND 0xFF) = (ucast w :: u8)"
  unfolding and_low_byte by (rule word_eqI_bits) (simp add: bit_positions bit_simps)

definition delta_byte :: "nat \<Rightarrow> u8" where
  "delta_byte d = word_of_nat (16 * ext_nibble d)"

lemma delta_byte_or:
  "delta_byte d OR word_of_nat (ext_nibble n) = word_of_nat (16 * ext_nibble d + ext_nibble n)"
proof -
  have small: "unat (word_of_nat (ext_nibble n) :: u8) = ext_nibble n"
    using ext_nibble_less [of n] by (simp add: unat_of_nat_small)
  have "delta_byte d AND word_of_nat (ext_nibble n) = 0"
  proof (rule bit_word_eqI)
    fix k
    have "delta_byte d = push_bit 4 (word_of_nat (ext_nibble d))"
      by (simp add: delta_byte_def push_bit_eq_mult)
    moreover have "\<not> bit (word_of_nat (ext_nibble n) :: u8) k" if "4 \<le> k"
    proof -
      have "word_of_nat (ext_nibble n) = (take_bit 4 (word_of_nat (ext_nibble n)) :: u8)"
        using small ext_nibble_less [of n]
        by (simp add: word_unat_eq_iff unsigned_take_bit_eq take_bit_nat_eq_self)
      then show ?thesis using that by (metis bit_take_bit_iff linorder_not_le)
    qed
    ultimately show "bit (delta_byte d AND word_of_nat (ext_nibble n)) k = bit (0 :: u8) k"
      by (auto simp: bit_simps)
  qed
  then show ?thesis
    by (simp add: delta_byte_def flip: disjunctive_add_eq_or)
qed

lemma set_delta_eq:
  assumes "length old = 1 + length (ext_bytes (unat d))" "length old \<le> maxlen"
  shows "set_delta (pre @ old @ post) (length pre) maxlen d =
    Some (Accepted (length (ext_bytes (unat d))), pre @ (delta_byte (unat d) # ext_bytes (unat d)) @ post)"
proof -
  have store: "c_store (pre @ xs) (Suc (length pre + i)) v = map_option (\<lambda>ys. pre @ ys) (c_store xs (Suc i) v)" for xs i v
    using c_store_append(1) [of pre xs "Suc i"] by simp
  consider "unat d < 13" | "13 \<le> unat d" "unat d < 269" | "269 \<le> unat d" by linarith
  then show ?thesis
  proof cases
    case 1
    moreover have "d < 13" using 1 by (simp add: word_less_nat_alt)
    moreover have "push_bit 4 (ucast d) = (word_of_nat (16 * unat d) :: u8)"
      by (simp add: push_bit_eq_mult)
    ultimately show ?thesis
      using assms
      by (auto simp: set_delta_def c_store_append ext_bytes_def delta_byte_def ext_nibble_def
          length_Suc_conv)
  next
    case 2
    then have d: "\<not> d < 13" "d < 269" by (simp_all add: word_less_nat_alt)
    have "unat (d - 13) = unat d - 13"
      using 2 by (simp add: unat_sub_if_size)
    then have "ucast (d - 13) = (word_of_nat (unat d - 13) :: u8)"
      by (metis of_nat_unat_ucast)
    then show ?thesis
      using assms 2 d store [of _ 0]
      by (auto simp: set_delta_def c_store_append ext_bytes_def delta_byte_def ext_nibble_def
          length_Suc_conv simp del: of_nat_diff)
  next
    case 3
    then have d: "\<not> d < 13" "\<not> d < 269" by (simp_all add: word_less_nat_alt)
    have sub: "unat (d - 269) = unat d - 269"
      using 3 by (simp add: unat_sub_if_size)
    have low: "ucast ((d - 269) AND 0xFF) = (word_of_nat (unat d - 269) :: u8)"
      unfolding sub [symmetric] of_nat_unat_ucast ucast_low_byte ..
    have "unat (drop_bit 8 (d - 269)) = (unat d - 269) div 256"
      using sub by (simp add: unat_drop_bit)
    then have high: "ucast (drop_bit 8 (d - 269) AND 0xFF) = (word_of_nat ((unat d - 269) div 256) :: u8)"
      unfolding ucast_low_byte by (metis of_nat_unat_ucast)
    show ?thesis
      using low high assms 3 d store [of _ 0] store [of _ 1]
      by (auto simp: set_delta_def c_store_append ext_bytes_def delta_byte_def ext_nibble_def
          length_Suc_conv simp del: of_nat_diff)
  qed
qed

lemma coap_opt_setheader_eq:
  assumes "length old = length (opt_header (unat d) n)" "length old \<le> maxlen"
  shows "coap_opt_setheader (pre @ old @ post) (length pre) maxlen d n =
    Some (length old, pre @ opt_header (unat d) n @ post)"
proof -
  let ?k = "length (ext_bytes (unat d))" and ?e = "ext_bytes (unat d)"
  define old1 old2 where "old1 = take (1 + ?k) old" and "old2 = drop (1 + ?k) old"
  have old: "old = old1 @ old2" "length old1 = 1 + ?k" "length old2 = length (ext_bytes n)"
    using assms(1) by (simp_all add: old1_def old2_def length_opt_header)
  have delta: "set_delta (pre @ old @ post) (length pre) maxlen d =
      Some (Accepted ?k, pre @ (delta_byte (unat d) # ?e) @ old2 @ post)"
    using set_delta_eq [of old1 d maxlen pre "old2 @ post"] old assms(2) by simp
  define m where "m x = pre @ x # ?e @ old2 @ post" for x
  have first: "or_first (m x) (length pre) y = Some (m (x OR y))" for x y
    by (simp add: m_def or_first_def c_load_append c_store_append)
  have tail: "c_store (pre @ x # ?e @ xs) (length pre + ?k + 1 + i) v =
      map_option (\<lambda>ys. pre @ x # ?e @ ys) (c_store xs i v)" for x xs i v
    using c_store_append(1) [of "pre @ x # ?e" xs i v] by (simp add: ac_simps)
  have set: "coap_opt_setheader (pre @ old @ post) (length pre) maxlen d n =
      (if n < 13 then Some (?k + 1, m (delta_byte (unat d) OR (word_of_nat n AND 0x0F)))
       else if n < 269 then do {
         m' \<leftarrow> c_store (m (delta_byte (unat d) OR 0x0D)) (length pre + ?k + 1) (word_of_nat (n - 13));
         Some (?k + 2, m')
       }
       else do {
         m' \<leftarrow> c_store (m (delta_byte (unat d) OR 0x0E)) (length pre + ?k + 1) (word_of_nat ((n - 269) div 256));
         m' \<leftarrow> c_store m' (length pre + ?k + 2) (word_of_nat (n - 269));
         Some (?k + 3, m')
       })"
    using assms old delta first
    by (auto simp: coap_opt_setheader_def length_opt_header length_ext_bytes [of n] simp flip: m_def
        split: if_splits)
  consider "n < 13" | "13 \<le> n" "n < 269" | "269 \<le> n" by linarith
  then show ?thesis
  proof cases
    case 1
    have "unat (word_of_nat n AND 0x0F :: u8) = n"
      using 1 by (simp add: unat_low_nibble unat_of_nat_small)
    then have low: "word_of_nat n AND 0x0F = (word_of_nat n :: u8)"
      using 1 by (simp add: word_unat_eq_iff unat_of_nat_small)
    have "old2 = []"
      using 1 old by (simp add: ext_bytes_def)
    then show ?thesis
      using 1 set assms(1) delta_byte_or [of "unat d" n]
      by (simp add: low m_def opt_header_def ext_bytes_def [of n] ext_nibble_def [of n])
  next
    case 2
    then obtain y where "old2 = [y]"
      using old by (auto simp: ext_bytes_def length_Suc_conv)
    then show ?thesis
      using 2 set assms(1) delta_byte_or [of "unat d" n] tail [of _ _ 0]
      by (simp add: m_def opt_header_def ext_bytes_def [of n] ext_nibble_def [of n] del: of_nat_diff)
  next
    case 3
    then obtain y z where "old2 = [y, z]"
      using old by (auto simp: ext_bytes_def length_Suc_conv numeral_2_eq_2)
    then show ?thesis
      using 3 set assms(1) delta_byte_or [of "unat d" n] tail [of _ _ 0] tail [of _ _ 1]
      by (simp add: m_def opt_header_def ext_bytes_def [of n] ext_nibble_def [of n] del: of_nat_diff)
  qed
qed

lemma coap_opt_setheader_small:
  assumes "p + maxlen \<le> length mem" "maxlen < length (opt_header (unat d) n)"
  shows "\<exists>m. coap_opt_setheader mem p maxlen d n = Some (0, m) \<and> length m = length mem"
  using assms
  by (auto simp: coap_opt_setheader_def set_delta_def or_first_def c_store_def c_load_def length_opt_header
      length_ext_bytes word_less_nat_alt split: if_splits)

text \<open>The whole option: header, then the value; nothing else of the buffer changes.\<close>

lemma coap_opt_encode_eq:
  assumes "length old = length (opt_header (unat d) (length v)) + length v" "length old \<le> maxlen"
  shows "coap_opt_encode (pre @ old @ post) (length pre) maxlen d (Some v) (length v) =
    Some (length old, pre @ opt_header (unat d) (length v) @ v @ post)"
proof -
  let ?h = "opt_header (unat d) (length v)"
  define old1 old2 where "old1 = take (length ?h) old" and "old2 = drop (length ?h) old"
  have old: "old = old1 @ old2" "length old1 = length ?h" "length old2 = length v"
    using assms(1) by (simp_all add: old1_def old2_def)
  have hdr: "coap_opt_setheader (pre @ old @ post) (length pre) maxlen d (length v) =
      Some (length ?h, pre @ ?h @ old2 @ post)"
    using coap_opt_setheader_eq [of old1 d "length v" maxlen pre "old2 @ post"] old assms(2) by simp
  have "?h \<noteq> []" by (simp add: opt_header_def)
  moreover have "c_blit (pre @ ?h @ old2 @ post) (length pre + length ?h) v = Some (pre @ ?h @ v @ post)"
    using old(3) by (simp add: c_blit_def)
  ultimately show ?thesis
    using hdr assms old by (simp add: coap_opt_encode_def c_slice_def)
qed

lemma coap_opt_encode_small:
  assumes "p + maxlen \<le> length mem" "maxlen < length (opt_header (unat d) n) + n"
  shows "\<exists>m. coap_opt_encode mem p maxlen d v n = Some (0, m) \<and> length m = length mem"
proof (cases "maxlen < length (opt_header (unat d) n)")
  case True
  from coap_opt_setheader_small [OF assms(1) True] show ?thesis
    by (auto simp: coap_opt_encode_def)
next
  case False
  let ?h = "opt_header (unat d) n"
  define pre old post where "pre = take p mem" and "old = take (length ?h) (drop p mem)"
    and "post = drop (length ?h) (drop p mem)"
  have "mem = pre @ old @ post" "length pre = p" "length old = length ?h"
    using assms(1) False
    by (auto simp: pre_def old_def post_def simp del: drop_drop)
  with coap_opt_setheader_eq [of old d n maxlen pre post] False assms(2) show ?thesis
    by (auto simp: coap_opt_encode_def)
qed

section \<open>Parsing is safe and stays inside the input\<close>

lemma advance_opt_check_Accepted:
  "advance_opt_check s (p, len) = Accepted (q, rest) \<Longrightarrow> q = p + s \<and> rest + s = len \<and> 0 < rest"
  by (auto simp: advance_opt_check_def advance_opt_def split: if_splits)

lemma delta_low_safe:
  assumes "p + len \<le> length mem"
  shows "\<exists>r. delta_low mem d (p, len) = Some r \<and>
    (r = Rejected \<or> (\<exists>d' q rest. r = Accepted (d', q, rest) \<and> q + rest = p + len \<and> 0 < rest \<and> q = p + 1))"
proof (cases "advance_opt_check 1 (p, len)")
  case Rejected
  then show ?thesis by (simp add: delta_low_def)
next
  case (Accepted s)
  obtain q rest where s: "s = (q, rest)" by (cases s)
  with Accepted have "q = p + 1" "rest + 1 = len" "0 < rest"
    by (auto dest: advance_opt_check_Accepted)
  with assms Accepted s show ?thesis by (simp add: delta_low_def c_load_def)
qed

lemma length_low_safe:
  assumes "p + len \<le> length mem"
  shows "\<exists>r. length_low mem n (p, len) = Some r \<and>
    (r = Rejected \<or> (\<exists>n' q rest. r = Accepted (n', q, rest) \<and> q + rest = p + len \<and> 0 < rest \<and> q = p + 1))"
proof (cases "advance_opt_check 1 (p, len)")
  case Rejected
  then show ?thesis by (simp add: length_low_def)
next
  case (Accepted s)
  obtain q rest where s: "s = (q, rest)" by (cases s)
  with Accepted have "q = p + 1" "rest + 1 = len" "0 < rest"
    by (auto dest: advance_opt_check_Accepted)
  with assms Accepted s show ?thesis by (simp add: length_low_def c_load_def)
qed

lemma opt_delta_safe:
  assumes "p + len \<le> length mem" "0 < len"
  shows "\<exists>r. opt_delta_field mem b (p, len) = Some r \<and>
    (r = Rejected \<or> (\<exists>d q rest. r = Accepted (d, q, rest) \<and> q + rest = p + len \<and> 0 < rest \<and> p \<le> q \<and> q \<le> p + 2))"
proof (cases "advance_opt_check 1 (p, len)")
  case Rejected
  with assms delta_low_safe [OF assms(1)] show ?thesis
    by (fastforce simp: opt_delta_field_def Let_def)
next
  case (Accepted s)
  obtain q rest where s: "s = (q, rest)" by (cases s)
  with Accepted have q: "q = p + 1" "rest + 1 = len" "0 < rest"
    by (auto dest: advance_opt_check_Accepted)
  then have "q + rest \<le> length mem" using assms(1) by simp
  from delta_low_safe [OF this] delta_low_safe [OF assms(1)] Accepted s q assms show ?thesis
    by (fastforce simp: opt_delta_field_def Let_def c_load_def)
qed

lemma opt_length_field_safe:
  assumes "p + len \<le> length mem" "0 < len"
  shows "\<exists>r. opt_length_field mem b (p, len) = Some r \<and>
    (r = Rejected \<or> (\<exists>n q rest. r = Accepted (n, q, rest) \<and> q + rest = p + len \<and> 0 < rest \<and> p \<le> q \<and> q \<le> p + 2))"
proof (cases "advance_opt_check 1 (p, len)")
  case Rejected
  with assms length_low_safe [OF assms(1)] show ?thesis
    by (fastforce simp: opt_length_field_def Let_def)
next
  case (Accepted s)
  obtain q rest where s: "s = (q, rest)" by (cases s)
  with Accepted have q: "q = p + 1" "rest + 1 = len" "0 < rest"
    by (auto dest: advance_opt_check_Accepted)
  then have "q + rest \<le> length mem" using assms(1) by simp
  from length_low_safe [OF this] length_low_safe [OF assms(1)] Accepted s q assms show ?thesis
    by (fastforce simp: opt_length_field_def Let_def c_load_def)
qed

lemma coap_opt_parse_safe:
  assumes "p + len \<le> length mem"
  shows "\<exists>r. coap_opt_parse mem p len = Some r \<and>
    (r = Rejected \<or> (\<exists>n opt. r = Accepted (n, opt) \<and> 0 < n \<and> n \<le> len \<and> p < opt_val opt \<and>
       opt_val opt \<le> p + 5 \<and> opt_val opt + opt_len opt = p + n))"
proof (cases "len = 0")
  case True
  then show ?thesis by (simp add: coap_opt_parse_def)
next
  case False
  then have first: "c_load mem p = Some (mem ! p)" using assms by (simp add: c_load_def)
  let ?b = "mem ! p"
  from opt_delta_safe [OF assms, of ?b] False obtain r1 where
      r1: "opt_delta_field mem ?b (p, len) = Some r1"
      "r1 = Rejected \<or> (\<exists>d q rest. r1 = Accepted (d, q, rest) \<and> q + rest = p + len \<and> 0 < rest \<and> p \<le> q \<and> q \<le> p + 2)"
    by auto
  show ?thesis
  proof (cases r1)
    case Rejected
    then show ?thesis using r1 first False by (simp add: coap_opt_parse_def)
  next
    case (Accepted s)
    then obtain d q rest where s: "r1 = Accepted (d, q, rest)" "q + rest = p + len" "0 < rest" "p \<le> q" "q \<le> p + 2"
      using r1(2) by auto
    from opt_length_field_safe [of q rest mem ?b] s assms obtain r2 where
        r2: "opt_length_field mem ?b (q, rest) = Some r2"
        "r2 = Rejected \<or> (\<exists>n q' rest'. r2 = Accepted (n, q', rest') \<and> q' + rest' = q + rest \<and> 0 < rest' \<and> q \<le> q' \<and> q' \<le> q + 2)"
      by auto
    then show ?thesis
      using r1 first False s by (auto simp: coap_opt_parse_def advance_opt_def)
  qed
qed

section \<open>The accessors agree with the parser\<close>

lemma unat_high_part: "unat ((b :: u8) AND 0xF0) = 16 * (unat b div 16)"
proof -
  have "b AND 0xF0 = push_bit 4 (drop_bit 4 b)"
    by (rule word_eqI_bits) (simp add: bit_positions bit_simps)
  moreover have "unat b div 16 < 16"
    using unsigned_less [of b, where ?'a = nat] by simp
  ultimately show ?thesis
    by (simp add: push_bit_eq_mult unat_word_ariths unat_drop_bit)
qed

lemma nibble_tests:
  fixes b :: u8
  shows "b AND 0xF0 = 0xF0 \<longleftrightarrow> unat b div 16 = 15" "b AND 0xF0 = 0xE0 \<longleftrightarrow> unat b div 16 = 14"
    "b AND 0xF0 = 0xD0 \<longleftrightarrow> unat b div 16 = 13" "b AND 0x0F = 0x0F \<longleftrightarrow> unat b mod 16 = 15"
    "b AND 0x0F = 0x0E \<longleftrightarrow> unat b mod 16 = 14" "b AND 0x0F = 0x0D \<longleftrightarrow> unat b mod 16 = 13"
  by (simp_all add: word_unat_eq_iff unat_high_part unat_low_nibble)

lemma delta_nibble_tests:
  fixes b :: u8
  shows "ucast (drop_bit 4 b AND 0x0F) = (15 :: u16) \<longleftrightarrow> unat b div 16 = 15"
    "ucast (drop_bit 4 b AND 0x0F) = (14 :: u16) \<longleftrightarrow> unat b div 16 = 14"
    "ucast (drop_bit 4 b AND 0x0F) = (13 :: u16) \<longleftrightarrow> unat b div 16 = 13"
proof -
  have "unat (drop_bit 4 b AND 0x0F) = unat b div 16"
    using unsigned_less [of b, where ?'a = nat] unfolding unat_low_nibble by (simp add: unat_drop_bit)
  then have "unat (ucast (drop_bit 4 b AND 0x0F) :: u16) = unat b div 16"
    using unsigned_less [of b, where ?'a = nat] by (simp add: unsigned_ucast_eq take_bit_nat_eq_self)
  then show "ucast (drop_bit 4 b AND 0x0F) = (15 :: u16) \<longleftrightarrow> unat b div 16 = 15"
    "ucast (drop_bit 4 b AND 0x0F) = (14 :: u16) \<longleftrightarrow> unat b div 16 = 14"
    "ucast (drop_bit 4 b AND 0x0F) = (13 :: u16) \<longleftrightarrow> unat b div 16 = 13"
    by (simp_all add: word_unat_eq_iff)
qed

text \<open>Where the delta field ends and what the length field holds, in terms of the first byte.\<close>

lemma opt_delta_pos:
  assumes "opt_delta_field mem b (p, len) = Some (Accepted (d, q, rest))"
  shows "q = p + (if unat b div 16 = 14 then 2 else if unat b div 16 = 13 then 1 else 0) \<and> unat b div 16 \<noteq> 15"
  using assms
  by (auto simp: opt_delta_field_def delta_low_def or_return0_eq_Accepted delta_nibble_tests Let_def bind_eq_Some_conv
      split: if_splits dest!: advance_opt_check_Accepted)

lemma opt_length_field_pos:
  assumes "opt_length_field mem b (p, len) = Some (Accepted (n, q, rest))"
  shows "q = p + (if unat b mod 16 = 14 then 2 else if unat b mod 16 = 13 then 1 else 0) \<and> unat b mod 16 \<noteq> 15 \<and>
    (if unat b mod 16 = 14 then \<exists>x y. c_load mem (p + 1) = Some x \<and> c_load mem (p + 2) = Some y \<and>
        n = unat x * 256 + 269 + unat y
     else if unat b mod 16 = 13 then \<exists>y. c_load mem (p + 1) = Some y \<and> n = 13 + unat y
     else n = unat b mod 16)"
  using assms
  by (auto simp: opt_length_field_def length_low_def or_return0_eq_Accepted unat_low_nibble Let_def bind_eq_Some_conv
      split: if_splits dest!: advance_opt_check_Accepted)

lemma accessors_agree:
  assumes "coap_opt_parse mem p len = Some (Accepted (n, opt))"
  shows "coap_opt_length mem p = Some (opt_len opt)" "coap_opt_value mem p = Some (Accepted (opt_val opt))"
proof -
  obtain b d q rest m q' rest' where s: "c_load mem p = Some b"
      "opt_delta_field mem b (p, len) = Some (Accepted (d, q, rest))"
      "opt_length_field mem b (q, rest) = Some (Accepted (m, q', rest'))"
      "opt_val opt = q' + 1" "opt_len opt = m"
    using assms
    by (auto simp: coap_opt_parse_def bind_eq_Some_conv or_return0_eq_Accepted advance_opt_def
        split: if_splits)
  have offsets: "p + 3 = Suc (Suc (Suc p))" "p + 4 = Suc (Suc (Suc (Suc p)))"
    by simp_all
  note pos = opt_delta_pos [OF s(2)] opt_length_field_pos [OF s(3)]
  show "coap_opt_value mem p = Some (Accepted (opt_val opt))"
    using s pos by (auto simp: coap_opt_value_def nibble_tests Let_def split: if_splits)
  show "coap_opt_length mem p = Some (opt_len opt)"
    using s pos
    by (auto simp: coap_opt_length_def nibble_tests unat_low_nibble Let_def ac_simps offsets
        split: if_splits)
qed

section \<open>Properties of the option codec\<close>

text \<open>C16: \<open>coap_opt_parse\<close> never reads outside the \<open>len\<close> bytes it is given, for any
  input; when it accepts, the option (header of at most 5 bytes and value) lies inside them.\<close>

theorem opt_parse_safe:
  assumes "p + len \<le> length mem"
  shows "\<exists>r. coap_opt_parse mem p len = Some r \<and>
    (case r of Rejected \<Rightarrow> True
     | Accepted (n, opt) \<Rightarrow> 0 < n \<and> n \<le> len \<and> p < opt_val opt \<and> opt_val opt \<le> p + 5 \<and>
         opt_val opt + opt_len opt = p + n)"
  using coap_opt_parse_safe [OF assms] by force

theorem opt_parse_safe_witness:
  "\<exists>r. coap_opt_parse [0xE4, 1] 0 2 = Some r"
  using opt_parse_safe [of 0 2 "[0xE4, 1]"] by auto

text \<open>encoding an option and parsing the result gives back its delta, its length and its
  value, for every 16-bit delta and every value of up to 65804 bytes; the encoder uses exactly
  \<open>coap_opt_encode_size\<close> bytes and leaves the rest of the buffer alone.\<close>

theorem opt_encode_parse:
  assumes "p + maxlen \<le> length mem" "coap_opt_encode_size d (length v) \<le> maxlen" "length v < 65805"
  shows "\<exists>n mem'. coap_opt_encode mem p maxlen d (Some v) (length v) = Some (n, mem') \<and>
    n = coap_opt_encode_size d (length v) \<and> length mem' = length mem \<and>
    take p mem' = take p mem \<and> drop (p + n) mem' = drop (p + n) mem \<and>
    coap_opt_parse mem' p n = Some (Accepted (n, \<lparr>delta = d, opt_len = length v, opt_val = p + n - length v\<rparr>)) \<and>
    take (length v) (drop (p + n - length v) mem') = v"
proof -
  let ?h = "opt_header (unat d) (length v)" and ?n = "coap_opt_encode_size d (length v)"
  define pre old post where "pre = take p mem" and "old = take ?n (drop p mem)" and "post = drop ?n (drop p mem)"
  have n: "?n = length ?h + length v" by (rule coap_opt_encode_size_eq)
  have mem: "mem = pre @ old @ post" "length pre = p" "length old = ?n"
    using assms(1,2) by (auto simp: pre_def old_def post_def simp del: drop_drop)
  have enc: "coap_opt_encode mem p maxlen d (Some v) (length v) = Some (?n, pre @ ?h @ v @ post)"
    using coap_opt_encode_eq [of old d v maxlen pre post] mem assms(2) n by simp
  have parse: "coap_opt_parse (pre @ ?h @ v @ post) p ?n =
      Some (Accepted (?n, \<lparr>delta = d, opt_len = length v, opt_val = p + ?n - length v\<rparr>))"
    using coap_opt_parse_header [of "unat d" "length v" "v @ post" ?n pre] mem(2) n assms(3)
      unsigned_less [of d, where ?'a = nat] by simp
  show ?thesis
    using mem n by (intro exI [of _ ?n] exI [of _ "pre @ ?h @ v @ post"] conjI enc parse) auto
qed

theorem opt_encode_parse_witness:
  "\<exists>n mem'. coap_opt_encode (replicate 20 0) 3 17 300 (Some [7, 8]) 2 = Some (n, mem') \<and>
    coap_opt_parse mem' 3 n = Some (Accepted (n, \<lparr>delta = 300, opt_len = 2, opt_val = 3 + n - 2\<rparr>))"
proof -
  have "coap_opt_encode_size 300 (length [7, 8 :: u8]) \<le> 17" by code_simp
  moreover have "length [7, 8 :: u8] = 2" by simp
  moreover have "3 + 17 \<le> length (replicate 20 (0 :: u8))" "length [7, 8 :: u8] < 65805"
    by simp_all
  ultimately show ?thesis
    using opt_encode_parse [of 3 17 "replicate 20 0" 300 "[7, 8]"] by metis
qed

text \<open>An option that does not fit is refused without touching anything outside the space.\<close>

theorem opt_encode_refuses:
  assumes "p + maxlen \<le> length mem" "maxlen < coap_opt_encode_size d n"
  shows "\<exists>mem'. coap_opt_encode mem p maxlen d v n = Some (0, mem') \<and> length mem' = length mem"
  using coap_opt_encode_small [OF assms(1)] assms(2) by (simp add: coap_opt_encode_size_eq)

theorem opt_encode_refuses_witness:
  "\<exists>mem'. coap_opt_encode (replicate 4 0) 0 4 300 (Some [7, 8]) 2 = Some (0, mem')"
  using opt_encode_refuses [of 0 4 "replicate 4 0" 300 2 "Some [7, 8]"] by (auto simp: coap_opt_encode_size_def)

text \<open>On every option the parser accepts, \<open>coap_opt_length\<close> and \<open>coap_opt_value\<close>, which
  decode it again without bounds checks, read only bytes of it and give the parsed length and value.\<close>

theorem opt_accessors_agree:
  assumes "coap_opt_parse mem p len = Some (Accepted (n, opt))"
  shows "coap_opt_length mem p = Some (opt_len opt) \<and> coap_opt_value mem p = Some (Accepted (opt_val opt))"
  using accessors_agree [OF assms] by simp

theorem opt_accessors_agree_witness:
  "coap_opt_length [0xB2, 5, 6] 0 = Some 2 \<and> coap_opt_value [0xB2, 5, 6] 0 = Some (Accepted 1)"
proof -
  have "coap_opt_parse [0xB2, 5, 6] 0 3 = Some (Accepted (3, \<lparr>delta = 11, opt_len = 2, opt_val = 1\<rparr>))"
    by code_simp
  from opt_accessors_agree [OF this] show ?thesis by simp
qed

text \<open>The check for a too large delta looks at the high byte alone. With the high byte 0xFE
  the low byte still overflows the 16-bit field: the parser accepts the option with a delta
  reduced modulo \<open>2 ^ 16\<close> (here 65536 is read as 0) instead of refusing it.\<close>

theorem opt_parse_delta_wraps:
  "coap_opt_parse [0xE0, 0xFE, 0xF3] 0 3 = Some (Accepted (3, \<lparr>delta = 0, opt_len = 0, opt_val = 3\<rparr>)) \<and>
   coap_opt_parse [0xE0, 0xFF, 0xF3] 0 3 = Some Rejected"
  by code_simp

end
