(* ===== verification/Coap_Filter.thy ===== *)
theory Coap_Filter
  imports Coap_Option
begin

unbundle bit_operations_syntax

text \<open>
  The option filter of \<open>libcoap/src/coap_option.c\<close>: a set of option numbers in a fixed
  object, two slots for numbers above 255 and six for the others, with a bit mask of the slots
  in use. The contract \<open>bounded_set\<close> is what the option iterator relies on.
\<close>

section \<open>The contract\<close>

locale bounded_set =
  fixes ins :: "'f \<Rightarrow> 'k \<Rightarrow> (bool \<times> 'f) option"
    and del :: "'f \<Rightarrow> 'k \<Rightarrow> (bool \<times> 'f) option"
    and mem :: "'f \<Rightarrow> 'k \<Rightarrow> (bool \<times> 'f) option"
    and members :: "'f \<Rightarrow> 'k set"
    and room :: "'f \<Rightarrow> 'k \<Rightarrow> bool"
    and inv :: "'f \<Rightarrow> bool"
  assumes mem_spec: "inv f \<Longrightarrow> mem f k = Some (k \<in> members f, f)"
    and ins_spec: "inv f \<Longrightarrow> k \<in> members f \<or> room f k \<Longrightarrow>
      \<exists>f'. ins f k = Some (True, f') \<and> inv f' \<and> members f' = insert k (members f)"
    and ins_full: "inv f \<Longrightarrow> k \<notin> members f \<Longrightarrow> \<not> room f k \<Longrightarrow> ins f k = Some (False, f)"
    and del_spec: "inv f \<Longrightarrow>
      \<exists>f'. del f k = Some (k \<in> members f, f') \<and> inv f' \<and> members f' = members f - {k}"

locale cleared_set = bounded_set +
  fixes empty :: 'a
  assumes empty_inv: "inv empty"
    and empty_members: "members empty = {}"
    and empty_room: "room empty k"
begin

text \<open>The use the iterator makes of it: a cleared set with one number holds exactly that number.\<close>

lemma singleton:
  "\<exists>f. ins empty k = Some (True, f) \<and> inv f \<and> (\<forall>j. mem f j = Some (j = k, f))"
  using ins_spec [of empty k] empty_inv empty_room [of k] empty_members mem_spec by fastforce

text \<open>An element that was stored and removed is gone; the others stay.\<close>

lemma ins_del:
  assumes "inv f" "room f k"
  shows "\<exists>f1 f2. ins f k = Some (True, f1) \<and> del f1 k = Some (True, f2) \<and> inv f2 \<and>
    members f2 = members f - {k}"
proof -
  obtain f1 where f1: "ins f k = Some (True, f1)" "inv f1" "members f1 = insert k (members f)"
    using ins_spec [of f k] assms by auto
  with del_spec [of f1 k] show ?thesis by auto
qed

end

section \<open>The filter object\<close>

record coap_opt_filter =
  fmask :: u16
  long_opts :: "u16 list"
  short_opts :: "u8 list"

datatype filter_op_t = FILTER_SET | FILTER_CLEAR | FILTER_GET

definition COAP_OPT_FILTER_LONG :: nat where
  "COAP_OPT_FILTER_LONG = 2"

definition COAP_OPT_FILTER_SHORT :: nat where
  "COAP_OPT_FILTER_SHORT = 6"

definition LONG_MASK :: u16 where
  "LONG_MASK = push_bit COAP_OPT_FILTER_LONG 1 - 1"

definition SHORT_MASK :: u16 where
  "SHORT_MASK = NOT LONG_MASK AND (push_bit (COAP_OPT_FILTER_LONG + COAP_OPT_FILTER_SHORT) 1 - 1)"

definition is_long_option :: "u16 \<Rightarrow> bool" where
  "is_long_option number \<longleftrightarrow> number > 255"

text \<open>
  The search loops: the first slot of those listed whose bit (\<open>nr\<close>, shifted on from
  \<open>1 << off\<close>) is set and that holds \<open>x\<close>.
\<close>

fun find_slot :: "u16 \<Rightarrow> nat \<Rightarrow> 'a list \<Rightarrow> 'a \<Rightarrow> nat list \<Rightarrow> nat option option" where
  "find_slot msk off arr x [] = Some None"
| "find_slot msk off arr x (lindex # rest) =
     (if msk AND push_bit (off + lindex) 1 > 0
      then do {
        y \<leftarrow> c_load arr lindex;
        if y = x then Some (Some lindex) else find_slot msk off arr x rest
      }
      else find_slot msk off arr x rest)"

text \<open>The number was found in the slot of bit \<open>nr\<close>.\<close>

definition filter_hit :: "coap_opt_filter \<Rightarrow> filter_op_t \<Rightarrow> nat \<Rightarrow> bool \<times> coap_opt_filter" where
  "filter_hit f op i =
     (True, if op = FILTER_CLEAR then f\<lparr>fmask := fmask f AND NOT (push_bit i 1)\<rparr> else f)"

text \<open>The number was not found; \<open>msk\<close> is the mask of the slots it may use.\<close>

definition filter_miss :: "coap_opt_filter \<Rightarrow> u16 \<Rightarrow> filter_op_t \<Rightarrow> u16 \<Rightarrow> (bool \<times> coap_opt_filter) option" where
  "filter_miss f number op msk =
     (if op = FILTER_CLEAR \<or> op = FILTER_GET then Some (False, f)
      else do {
        let lindex = coap_fls (ucast (NOT (fmask f) AND msk));
        if lindex = 0 then Some (False, f)
        else do {
          f1 \<leftarrow> (if is_long_option number then do {
                   a \<leftarrow> c_store (long_opts f) (lindex - 1) number;
                   Some (f\<lparr>long_opts := a\<rparr>)
                 }
                 else do {
                   a \<leftarrow> c_store (short_opts f) (lindex - COAP_OPT_FILTER_LONG - 1) (ucast number);
                   Some (f\<lparr>short_opts := a\<rparr>)
                 });
          Some (True, f1\<lparr>fmask := fmask f1 OR push_bit (lindex - 1) 1\<rparr>)
        }
      })"

definition coap_option_filter_op :: "coap_opt_filter \<Rightarrow> u16 \<Rightarrow> filter_op_t \<Rightarrow> (bool \<times> coap_opt_filter) option" where
  "coap_option_filter_op f number op =
     (if is_long_option number then do {
        r \<leftarrow> find_slot (fmask f) 0 (long_opts f) number [0..<COAP_OPT_FILTER_LONG];
        case r of
          Some lindex \<Rightarrow> Some (filter_hit f op lindex)
        | None \<Rightarrow> filter_miss f number op LONG_MASK
      }
      else do {
        r \<leftarrow> find_slot (fmask f) COAP_OPT_FILTER_LONG (short_opts f) (ucast (number AND 0xFF)) [0..<COAP_OPT_FILTER_SHORT];
        case r of
          Some lindex \<Rightarrow> Some (filter_hit f op (COAP_OPT_FILTER_LONG + lindex))
        | None \<Rightarrow> filter_miss f number op SHORT_MASK
      })"

text \<open>\<open>memset(filter, 0, sizeof(coap_opt_filter_t))\<close>\<close>

definition coap_option_filter_clear :: coap_opt_filter where
  "coap_option_filter_clear =
     \<lparr>fmask = 0, long_opts = replicate COAP_OPT_FILTER_LONG 0, short_opts = replicate COAP_OPT_FILTER_SHORT 0\<rparr>"

definition coap_option_filter_set :: "coap_opt_filter \<Rightarrow> u16 \<Rightarrow> (bool \<times> coap_opt_filter) option" where
  "coap_option_filter_set f option = coap_option_filter_op f option FILTER_SET"

definition coap_option_filter_unset :: "coap_opt_filter \<Rightarrow> u16 \<Rightarrow> (bool \<times> coap_opt_filter) option" where
  "coap_option_filter_unset f option = coap_option_filter_op f option FILTER_CLEAR"

definition coap_option_filter_get :: "coap_opt_filter \<Rightarrow> u16 \<Rightarrow> (bool \<times> coap_opt_filter) option" where
  "coap_option_filter_get f option = coap_option_filter_op f option FILTER_GET"

lemmas filter_op_defs = coap_option_filter_set_def coap_option_filter_unset_def coap_option_filter_get_def

section \<open>Slots\<close>

text \<open>The values in the used slots of one array, whose bits start at \<open>off\<close>.\<close>

definition used :: "u16 \<Rightarrow> nat \<Rightarrow> 'a list \<Rightarrow> 'a set" where
  "used msk off arr = {arr ! i | i. i < length arr \<and> bit msk (off + i)}"

definition slots_distinct :: "u16 \<Rightarrow> nat \<Rightarrow> 'a list \<Rightarrow> bool" where
  "slots_distinct msk off arr \<longleftrightarrow> (\<forall>i j. i < length arr \<longrightarrow> j < length arr \<longrightarrow>
     bit msk (off + i) \<longrightarrow> bit msk (off + j) \<longrightarrow> arr ! i = arr ! j \<longrightarrow> i = j)"

lemma and_push_bit: "0 < msk AND 2 ^ k \<longleftrightarrow> k < 16 \<and> bit (msk :: u16) k"
proof -
  have "msk AND 2 ^ k \<noteq> 0 \<longleftrightarrow> (\<exists>j<16. j = k \<and> bit msk j)"
    by (subst bit_eq_iff) (auto simp: bit_simps)
  then show ?thesis by (auto simp: word_gt_0)
qed

lemma find_slot_spec:
  assumes "\<forall>i \<in> set is. i < length arr \<and> off + i < 16"
  shows "\<exists>r. find_slot msk off arr x is = Some r \<and>
    (case r of
       Some i \<Rightarrow> i \<in> set is \<and> bit msk (off + i) \<and> arr ! i = x
     | None \<Rightarrow> \<forall>i \<in> set is. bit msk (off + i) \<longrightarrow> arr ! i \<noteq> x)"
  using assms
proof (induction "is")
  case Nil
  then show ?case by simp
next
  case (Cons i "is")
  then obtain r where "find_slot msk off arr x is = Some r"
      "case r of
       Some i \<Rightarrow> i \<in> set is \<and> bit msk (off + i) \<and> arr ! i = x
     | None \<Rightarrow> \<forall>i \<in> set is. bit msk (off + i) \<longrightarrow> arr ! i \<noteq> x"
    by auto
  with Cons.prems show ?case
    by (auto simp: and_push_bit c_load_def split: option.splits)
qed

lemma find_slot_used:
  assumes "off + length arr \<le> 16"
  obtains i where "find_slot msk off arr x [0..<length arr] = Some (Some i)" "x \<in> used msk off arr"
      "i < length arr" "bit msk (off + i)" "arr ! i = x"
    | "find_slot msk off arr x [0..<length arr] = Some None" "x \<notin> used msk off arr"
proof -
  have "\<forall>i \<in> set [0..<length arr]. i < length arr \<and> off + i < 16"
    using assms by simp
  from find_slot_spec [OF this, of msk x] obtain r where
      "find_slot msk off arr x [0..<length arr] = Some r"
      "case r of
       Some i \<Rightarrow> i < length arr \<and> bit msk (off + i) \<and> arr ! i = x
     | None \<Rightarrow> \<forall>i < length arr. bit msk (off + i) \<longrightarrow> arr ! i \<noteq> x"
    by (auto split: option.splits)
  with that show ?thesis
    by (cases r) (auto simp: used_def)
qed

lemma used_insert:
  assumes "j < length arr" "\<not> bit msk (off + j)" "off + length arr \<le> 16"
  shows "used (msk OR push_bit (off + j) 1) off (arr[j := x]) = insert x (used msk off arr)"
  using assms by (auto simp: used_def bit_simps nth_list_update)

lemma used_remove:
  assumes "slots_distinct msk off arr" "j < length arr" "bit msk (off + j)" "off + length arr \<le> 16"
  shows "used (msk AND NOT (push_bit (off + j) 1)) off arr = used msk off arr - {arr ! j}"
  using assms by (auto simp: used_def slots_distinct_def bit_simps)

lemma used_other:
  assumes "\<And>i. i < length arr \<Longrightarrow> bit msk' (off + i) = bit msk (off + i)"
  shows "used msk' off arr = used msk off arr" "slots_distinct msk' off arr = slots_distinct msk off arr"
  using assms by (auto simp: used_def slots_distinct_def)

lemma slots_distinct_insert:
  assumes "slots_distinct msk off arr" "j < length arr" "x \<notin> used msk off arr" "off + length arr \<le> 16"
  shows "slots_distinct (msk OR push_bit (off + j) 1) off (arr[j := x])"
  using assms by (auto simp: slots_distinct_def used_def bit_simps nth_list_update)

lemma slots_distinct_remove:
  "slots_distinct msk off arr \<Longrightarrow> slots_distinct (msk AND NOT (push_bit k 1)) off arr"
  by (auto simp: slots_distinct_def bit_simps)

text \<open>\<open>coap_fls\<close> names the highest set bit, counted from 1.\<close>

lemma coap_fls_bit:
  fixes w :: u16
  shows "coap_fls (ucast w) = 0 \<longleftrightarrow> w = 0"
    and "w \<noteq> 0 \<Longrightarrow> bit w (coap_fls (ucast w) - 1)"
proof -
  have val: "unat (ucast (ucast w :: u32) :: u64) = unat w"
    using unsigned_less [of w, where ?'a = nat] by (simp add: unsigned_ucast_eq unsigned_take_bit_eq take_bit_nat_eq_self)
  let ?k = "coap_fls (ucast w)"
  have spec: "unat w < 2 ^ ?k" "?k = 0 \<or> 2 ^ (?k - 1) \<le> unat w"
    using coap_flsll_spec [of "ucast (ucast w :: u32)"] val by (simp_all add: coap_fls_def)
  show zero: "?k = 0 \<longleftrightarrow> w = 0"
    using spec by (auto simp: unat_eq_0)
  assume "w \<noteq> 0"
  then obtain m where m: "?k = Suc m" using zero by (cases ?k) auto
  then have "unat w div 2 ^ m = 1"
    using spec by (intro div_nat_eqI) auto
  then have "bit (unat w) m"
    by (simp add: bit_iff_odd)
  then show "bit w (?k - 1)"
    using m by (simp add: bit_unsigned_iff)
qed

section \<open>Invariant and members\<close>

definition filter_ok :: "coap_opt_filter \<Rightarrow> bool" where
  "filter_ok f \<longleftrightarrow> length (long_opts f) = 2 \<and> length (short_opts f) = 6 \<and>
     slots_distinct (fmask f) 0 (long_opts f) \<and> slots_distinct (fmask f) 2 (short_opts f) \<and>
     (\<forall>x \<in> used (fmask f) 0 (long_opts f). 255 < x)"

definition filter_members :: "coap_opt_filter \<Rightarrow> u16 set" where
  "filter_members f = used (fmask f) 0 (long_opts f) \<union> ucast ` used (fmask f) 2 (short_opts f)"

definition filter_room :: "coap_opt_filter \<Rightarrow> u16 \<Rightarrow> bool" where
  "filter_room f k \<longleftrightarrow>
     (if is_long_option k then \<not> (\<forall>i<2. bit (fmask f) i) else \<not> (\<forall>i<6. bit (fmask f) (2 + i)))"

lemma short_member:
  assumes "\<not> is_long_option k" "filter_ok f"
  shows "k \<in> filter_members f \<longleftrightarrow> ucast k \<in> used (fmask f) 2 (short_opts f)"
proof -
  have k: "ucast (ucast k :: u8) = k"
    using assms(1) by (simp add: is_long_option_def word_unat_eq_iff unsigned_ucast_eq word_le_nat_alt
        not_less unsigned_take_bit_eq take_bit_nat_eq_self)
  show ?thesis
  proof
    assume "k \<in> filter_members f"
    then obtain y where "y \<in> used (fmask f) 2 (short_opts f)" "k = ucast y"
      using assms by (auto simp: filter_members_def filter_ok_def is_long_option_def)
    moreover have "ucast (ucast y :: u16) = y"
      by (rule word_eqI_bits) (simp add: bit_positions bit_simps)
    ultimately show "ucast k \<in> used (fmask f) 2 (short_opts f)" by simp
  next
    assume "ucast k \<in> used (fmask f) 2 (short_opts f)"
    then show "k \<in> filter_members f"
      using k by (auto simp: filter_members_def intro: rev_image_eqI)
  qed
qed

lemma short_not_long: "\<not> is_long_option (ucast (x :: u8))"
proof -
  have "unat (ucast x :: u16) \<le> 255"
    using unsigned_less [of x, where ?'a = nat] by (simp add: unsigned_ucast_eq take_bit_nat_eq_self)
  then show ?thesis by (simp add: is_long_option_def word_less_nat_alt not_less)
qed

lemma long_member:
  assumes "is_long_option k"
  shows "k \<in> filter_members f \<longleftrightarrow> k \<in> used (fmask f) 0 (long_opts f)"
  using assms short_not_long by (auto simp: filter_members_def)
section \<open>The operations\<close>

lemma mask_bits:
  "bit LONG_MASK k \<longleftrightarrow> k < 2" "bit SHORT_MASK k \<longleftrightarrow> 2 \<le> k \<and> k < 8"
proof -
  have long: "LONG_MASK = mask 2" and eight: "push_bit 8 1 - 1 = (mask 8 :: u16)"
    by (simp_all add: LONG_MASK_def COAP_OPT_FILTER_LONG_def mask_eq_exp_minus_1)
  show "bit LONG_MASK k \<longleftrightarrow> k < 2"
    unfolding long by (auto simp: bit_simps)
  have short: "SHORT_MASK = NOT (mask 2) AND mask 8"
    using eight by (simp add: SHORT_MASK_def long COAP_OPT_FILTER_LONG_def COAP_OPT_FILTER_SHORT_def)
  show "bit SHORT_MASK k \<longleftrightarrow> 2 \<le> k \<and> k < 8"
    unfolding short by (auto simp: bit_simps)
qed

text \<open>A free slot: the highest unset bit of the class.\<close>

lemma free_slot:
  assumes "bit M k" "\<not> bit (m :: u16) k"
  obtains j where "coap_fls (ucast (NOT m AND M)) = Suc j" "bit M j" "\<not> bit m j"
proof -
  let ?w = "NOT m AND M"
  have "k < 16" using assms(1) bit_imp_le_length by fastforce
  then have "bit ?w k" using assms by (simp add: bit_simps)
  then have "?w \<noteq> 0" by auto
  then obtain j where "coap_fls (ucast ?w) = Suc j" "bit ?w j"
    using coap_fls_bit [of ?w] by (cases "coap_fls (ucast ?w)") auto
  with that show ?thesis by (auto simp: bit_simps)
qed

lemma no_free_slot:
  assumes "\<And>k. bit M k \<Longrightarrow> bit (m :: u16) k"
  shows "coap_fls (ucast (NOT m AND M)) = 0"
proof -
  have "NOT m AND M = 0"
    using assms by (intro bit_word_eqI) (auto simp: bit_simps)
  then show ?thesis using coap_fls_bit(1) [of 0] by simp
qed

lemma used_empty: "used 0 off arr = {}"
  by (simp add: used_def)

text \<open>Storing a number that is not there.\<close>

lemma filter_miss_set:
  assumes ok: "filter_ok f" and new: "k \<notin> filter_members f" and room: "filter_room f k"
  shows "\<exists>f'. filter_miss f k FILTER_SET (if is_long_option k then LONG_MASK else SHORT_MASK) = Some (True, f') \<and>
    filter_ok f' \<and> filter_members f' = insert k (filter_members f)"
proof (cases "is_long_option k")
  case True
  obtain i where "i < 2" "\<not> bit (fmask f) i" using room True by (auto simp: filter_room_def)
  then obtain j where j: "coap_fls (ucast (NOT (fmask f) AND LONG_MASK)) = Suc j" "j < 2" "\<not> bit (fmask f) j"
    using free_slot [of LONG_MASK i "fmask f"] by (auto simp: mask_bits)
  let ?m = "fmask f OR push_bit j 1" and ?a = "(long_opts f)[j := k]"
  have long: "used ?m 0 ?a = insert k (used (fmask f) 0 (long_opts f))" "slots_distinct ?m 0 ?a"
    using used_insert [of j "long_opts f" "fmask f" 0 k]
      slots_distinct_insert [of "fmask f" 0 "long_opts f" j k] ok j new True
    by (auto simp: filter_ok_def long_member)
  have short: "used ?m 2 (short_opts f) = used (fmask f) 2 (short_opts f)"
      "slots_distinct ?m 2 (short_opts f) = slots_distinct (fmask f) 2 (short_opts f)"
    using j(2) by (auto intro!: used_other simp: bit_simps)
  show ?thesis
    using True ok j long short
    by (auto simp: filter_miss_def Let_def c_store_def filter_ok_def filter_members_def is_long_option_def)
next
  case False
  obtain i where "i < 6" "\<not> bit (fmask f) (2 + i)" using room False by (auto simp: filter_room_def)
  then obtain j where j: "coap_fls (ucast (NOT (fmask f) AND SHORT_MASK)) = Suc j" "2 \<le> j" "j < 8" "\<not> bit (fmask f) j"
    using free_slot [of SHORT_MASK "2 + i" "fmask f"] by (auto simp: mask_bits)
  define i where "i = j - 2"
  have idx: "j - COAP_OPT_FILTER_LONG = i" by (simp add: i_def COAP_OPT_FILTER_LONG_def)
  have i: "j = 2 + i" "i < 6" using j(2,3) by (auto simp: i_def)
  let ?m = "fmask f OR push_bit j 1" and ?a = "(short_opts f)[i := ucast k]"
  have short: "used ?m 2 ?a = insert (ucast k) (used (fmask f) 2 (short_opts f))" "slots_distinct ?m 2 ?a"
    using used_insert [of i "short_opts f" "fmask f" 2 "ucast k", folded i(1)]
      slots_distinct_insert [of "fmask f" 2 "short_opts f" i "ucast k", folded i(1)] ok j new False i(2)
    by (auto simp: filter_ok_def short_member)
  have long: "used ?m 0 (long_opts f) = used (fmask f) 0 (long_opts f)"
      "slots_distinct ?m 0 (long_opts f)"
    using ok j(2) used_other [of "long_opts f" ?m 0 "fmask f"] by (auto simp: bit_simps filter_ok_def)
  have k: "ucast (ucast k :: u8) = k"
    using False by (simp add: is_long_option_def word_unat_eq_iff unsigned_ucast_eq word_le_nat_alt
        not_less unsigned_take_bit_eq take_bit_nat_eq_self)
  show ?thesis
    using False ok j(1) long short i(2) k idx
    by (auto simp: filter_miss_def Let_def c_store_def filter_ok_def filter_members_def)
qed

lemma filter_miss_full:
  assumes "filter_ok f" "\<not> filter_room f k"
  shows "filter_miss f k FILTER_SET (if is_long_option k then LONG_MASK else SHORT_MASK) = Some (False, f)"
proof -
  have "bit (fmask f) i" if "bit (if is_long_option k then LONG_MASK else SHORT_MASK) i" for i
  proof (cases "is_long_option k")
    case True
    then show ?thesis using that assms(2) by (auto simp: filter_room_def mask_bits)
  next
    case False
    then have "i = 2 + (i - 2)" "i - 2 < 6" using that by (auto simp: mask_bits)
    moreover have "\<forall>i<6. bit (fmask f) (2 + i)" using False assms(2) by (simp add: filter_room_def)
    ultimately show ?thesis by metis
  qed
  from no_free_slot [OF this] show ?thesis
    by (simp add: filter_miss_def)
qed

text \<open>Removing a number from the slot that holds it.\<close>

lemma filter_clear_long:
  assumes ok: "filter_ok f" and i: "i < 2" "bit (fmask f) i" "long_opts f ! i = k"
  shows "filter_ok (f\<lparr>fmask := fmask f AND NOT (push_bit i 1)\<rparr>)"
    "filter_members (f\<lparr>fmask := fmask f AND NOT (push_bit i 1)\<rparr>) = filter_members f - {k}"
proof -
  let ?m = "fmask f AND NOT (push_bit i 1)"
  have long: "used ?m 0 (long_opts f) = used (fmask f) 0 (long_opts f) - {k}"
    using used_remove [of "fmask f" 0 "long_opts f" i] ok i by (simp add: filter_ok_def)
  have short: "used ?m 2 (short_opts f) = used (fmask f) 2 (short_opts f)"
    using ok i by (auto intro!: used_other simp: bit_simps filter_ok_def)
  have "k \<in> used (fmask f) 0 (long_opts f)"
    using ok i by (auto simp: filter_ok_def used_def)
  then have "is_long_option k"
    using ok by (simp add: filter_ok_def is_long_option_def)
  then have "k \<notin> ucast ` used (fmask f) 2 (short_opts f)"
    using short_not_long by auto
  then show "filter_ok (f\<lparr>fmask := ?m\<rparr>)" "filter_members (f\<lparr>fmask := ?m\<rparr>) = filter_members f - {k}"
    using ok long short slots_distinct_remove [of "fmask f" 0 "long_opts f" i]
      slots_distinct_remove [of "fmask f" 2 "short_opts f" i]
    by (auto simp: filter_ok_def filter_members_def)
qed
lemma filter_clear_short:
  assumes ok: "filter_ok f" and i: "i < 6" "bit (fmask f) (2 + i)" "short_opts f ! i = ucast k"
    and k: "\<not> is_long_option k"
  shows "filter_ok (f\<lparr>fmask := fmask f AND NOT (push_bit (2 + i) 1)\<rparr>)"
    "filter_members (f\<lparr>fmask := fmask f AND NOT (push_bit (2 + i) 1)\<rparr>) = filter_members f - {k}"
proof -
  define j where "j = 2 + i"
  have j2: "2 \<le> j" by (simp add: j_def)
  let ?m = "fmask f AND NOT (push_bit j 1)"
  have short: "used ?m 2 (short_opts f) = used (fmask f) 2 (short_opts f) - {ucast k}"
    using used_remove [of "fmask f" 2 "short_opts f" i] ok i by (simp add: filter_ok_def j_def)
  have long: "used ?m 0 (long_opts f) = used (fmask f) 0 (long_opts f)"
    using ok j2 by (auto intro!: used_other simp: bit_simps filter_ok_def)
  have "k \<notin> used (fmask f) 0 (long_opts f)"
    using ok k by (auto simp: filter_ok_def is_long_option_def)
  moreover have "ucast ` (A - {ucast k}) = ucast ` A - {k :: u16}" for A :: "u8 set"
  proof -
    have recast: "ucast (ucast x :: u16) = x" for x :: u8
      by (rule word_eqI_bits) (simp add: bit_positions bit_simps)
    have inj: "(ucast x :: u16) = ucast y \<longleftrightarrow> x = y" for x y :: u8
      using recast by metis
    have "ucast (ucast k :: u8) = k"
      using k by (simp add: is_long_option_def word_unat_eq_iff unsigned_ucast_eq word_le_nat_alt
          not_less unsigned_take_bit_eq take_bit_nat_eq_self)
    then show ?thesis using inj by auto
  qed
  ultimately have "filter_members (f\<lparr>fmask := ?m\<rparr>) = filter_members f - {k}"
    using long short by (auto simp: filter_members_def)
  moreover have "filter_ok (f\<lparr>fmask := ?m\<rparr>)"
    using ok long short slots_distinct_remove [of "fmask f" 0 "long_opts f" j]
      slots_distinct_remove [of "fmask f" 2 "short_opts f" j]
    by (auto simp: filter_ok_def)
  ultimately show "filter_ok (f\<lparr>fmask := fmask f AND NOT (push_bit (2 + i) 1)\<rparr>)"
    "filter_members (f\<lparr>fmask := fmask f AND NOT (push_bit (2 + i) 1)\<rparr>) = filter_members f - {k}"
    by (simp_all only: j_def)
qed

lemma ucast_low_short: "ucast ((k :: u16) AND 0xFF) = (ucast k :: u8)"
  by (rule ucast_low_byte)

lemma filter_op_cases:
  assumes "filter_ok f"
  obtains "k \<in> filter_members f" "coap_option_filter_op f k FILTER_SET = Some (True, f)"
      "coap_option_filter_op f k FILTER_GET = Some (True, f)"
      "\<exists>f'. coap_option_filter_op f k FILTER_CLEAR = Some (True, f') \<and> filter_ok f' \<and>
        filter_members f' = filter_members f - {k}"
    | "k \<notin> filter_members f" "coap_option_filter_op f k FILTER_GET = Some (False, f)"
      "coap_option_filter_op f k FILTER_CLEAR = Some (False, f)"
      "coap_option_filter_op f k FILTER_SET =
        filter_miss f k FILTER_SET (if is_long_option k then LONG_MASK else SHORT_MASK)"
proof (cases "is_long_option k")
  case True
  have len: "length (long_opts f) = 2" using assms by (simp add: filter_ok_def)
  show ?thesis
  proof (rule find_slot_used [of 0 "long_opts f" "fmask f" k])
    show "0 + length (long_opts f) \<le> 16" using len by simp
  next
    fix i
    assume "find_slot (fmask f) 0 (long_opts f) k [0..<length (long_opts f)] = Some (Some i)"
      "k \<in> used (fmask f) 0 (long_opts f)" "i < length (long_opts f)" "bit (fmask f) (0 + i)" "long_opts f ! i = k"
    then show ?thesis
      using True len filter_clear_long [OF assms, of i k]
      by (intro that(1)) (auto simp: long_member coap_option_filter_op_def filter_hit_def COAP_OPT_FILTER_LONG_def)
  next
    assume "find_slot (fmask f) 0 (long_opts f) k [0..<length (long_opts f)] = Some None"
      "k \<notin> used (fmask f) 0 (long_opts f)"
    then show ?thesis
      using True len
      by (intro that(2)) (auto simp: long_member coap_option_filter_op_def filter_miss_def COAP_OPT_FILTER_LONG_def)
  qed
next
  case False
  have len: "length (short_opts f) = 6" using assms by (simp add: filter_ok_def)
  show ?thesis
  proof (rule find_slot_used [of 2 "short_opts f" "fmask f" "ucast k"])
    show "2 + length (short_opts f) \<le> 16" using len by simp
  next
    fix i
    assume "find_slot (fmask f) 2 (short_opts f) (ucast k) [0..<length (short_opts f)] = Some (Some i)"
      "ucast k \<in> used (fmask f) 2 (short_opts f)" "i < length (short_opts f)" "bit (fmask f) (2 + i)"
      "short_opts f ! i = ucast k"
    then show ?thesis
      using False len filter_clear_short [OF assms, of i k]
      by (intro that(1)) (auto simp: short_member [OF False assms] coap_option_filter_op_def filter_hit_def
          COAP_OPT_FILTER_LONG_def COAP_OPT_FILTER_SHORT_def ucast_low_short)
  next
    assume "find_slot (fmask f) 2 (short_opts f) (ucast k) [0..<length (short_opts f)] = Some None"
      "ucast k \<notin> used (fmask f) 2 (short_opts f)"
    then show ?thesis
      using False len
      by (intro that(2)) (auto simp: short_member [OF False assms] coap_option_filter_op_def filter_miss_def
          COAP_OPT_FILTER_LONG_def COAP_OPT_FILTER_SHORT_def ucast_low_short)
  qed
qed

section \<open>The filter meets its contract\<close>

interpretation filter: cleared_set coap_option_filter_set coap_option_filter_unset coap_option_filter_get
  filter_members filter_room filter_ok coap_option_filter_clear
proof unfold_locales
  fix f k
  assume ok: "filter_ok f"
  show "coap_option_filter_get f k = Some (k \<in> filter_members f, f)"
    by (rule filter_op_cases [OF ok, of k]) (simp_all add: filter_op_defs)
  show "\<exists>f'. coap_option_filter_unset f k = Some (k \<in> filter_members f, f') \<and> filter_ok f' \<and>
      filter_members f' = filter_members f - {k}"
    by (rule filter_op_cases [OF ok, of k]) (use ok in \<open>auto simp: filter_op_defs\<close>)
  show "\<exists>f'. coap_option_filter_set f k = Some (True, f') \<and> filter_ok f' \<and>
      filter_members f' = insert k (filter_members f)" if "k \<in> filter_members f \<or> filter_room f k"
    by (rule filter_op_cases [OF ok, of k])
      (use ok that filter_miss_set [OF ok, of k] in \<open>auto simp: filter_op_defs insert_absorb\<close>)
  show "coap_option_filter_set f k = Some (False, f)" if "k \<notin> filter_members f" "\<not> filter_room f k"
    by (rule filter_op_cases [OF ok, of k])
      (use that filter_miss_full [OF ok, of k] in \<open>auto simp: filter_op_defs\<close>)
next
  fix k
  show "filter_ok coap_option_filter_clear"
    by (simp add: filter_ok_def coap_option_filter_clear_def used_empty slots_distinct_def
        COAP_OPT_FILTER_LONG_def COAP_OPT_FILTER_SHORT_def)
  show "filter_members coap_option_filter_clear = {}"
    by (simp add: filter_members_def coap_option_filter_clear_def used_empty)
  show "filter_room coap_option_filter_clear k"
    by (auto simp: filter_room_def coap_option_filter_clear_def intro: exI [of _ 0])
qed

section \<open>Properties\<close>

text \<open>C17: the option filter is a bounded set. On every filter built by these functions,
  \<open>get\<close> tells membership and changes nothing, \<open>set\<close> adds a number (reporting failure,
  without change, exactly when the number is new and its class of slots is used up), and
  \<open>unset\<close> removes it; none of them accesses an array outside its bounds.\<close>

theorem filter_is_bounded_set:
  assumes "filter_ok f"
  shows "coap_option_filter_get f k = Some (k \<in> filter_members f, f) \<and>
    (\<exists>f'. coap_option_filter_set f k = Some (k \<in> filter_members f \<or> filter_room f k, f') \<and> filter_ok f' \<and>
       filter_members f' = (if filter_room f k then insert k (filter_members f) else filter_members f)) \<and>
    (\<exists>f'. coap_option_filter_unset f k = Some (k \<in> filter_members f, f') \<and> filter_ok f' \<and>
       filter_members f' = filter_members f - {k})"
proof (intro conjI)
  show "coap_option_filter_get f k = Some (k \<in> filter_members f, f)"
    by (rule filter.mem_spec [OF assms])
  show "\<exists>f'. coap_option_filter_unset f k = Some (k \<in> filter_members f, f') \<and> filter_ok f' \<and>
      filter_members f' = filter_members f - {k}"
    by (rule filter.del_spec [OF assms])
  show "\<exists>f'. coap_option_filter_set f k = Some (k \<in> filter_members f \<or> filter_room f k, f') \<and> filter_ok f' \<and>
      filter_members f' = (if filter_room f k then insert k (filter_members f) else filter_members f)"
    using filter.ins_spec [OF assms, of k] filter.ins_full [OF assms, of k] assms
    by (cases "filter_room f k"; cases "k \<in> filter_members f") (auto simp: insert_absorb)
qed

theorem filter_is_bounded_set_witness:
  "coap_option_filter_get coap_option_filter_clear 12 = Some (False, coap_option_filter_clear) \<and>
   (\<exists>f'. coap_option_filter_set coap_option_filter_clear 12 = Some (True, f') \<and> filter_members f' = {12})"
  using filter_is_bounded_set [OF filter.empty_inv, of 12] filter.empty_members filter.empty_room [of 12]
  by auto

end
