(* ===== verification/Coap_Pdu.thy ===== *)
theory Coap_Pdu
  imports Coap_Filter
begin

unbundle bit_operations_syntax

text \<open>
  The CoAP message object of \<open>libcoap/src/coap_pdu.c\<close> (structure in
  \<open>coap_pdu_internal.h\<close>): creation, growth of its buffer, the token, payload and the simple
  accessors. The buffer is one heap block: the space for the protocol header (\<open>hdr\<close>) and, from
  \<open>pdu->token\<close> on, \<open>mem\<close>; every other pointer into it is an offset from \<open>pdu->token\<close>. \<open>mem\<close>
  is the block as allocated, which may be longer than \<open>alloc_size\<close>.
\<close>

section \<open>Data\<close>

datatype coap_proto =
  COAP_PROTO_NONE | COAP_PROTO_UDP | COAP_PROTO_DTLS | COAP_PROTO_TCP | COAP_PROTO_TLS | COAP_PROTO_WS | COAP_PROTO_WSS

definition COAP_PROTO_NOT_RELIABLE :: "coap_proto \<Rightarrow> bool" where
  "COAP_PROTO_NOT_RELIABLE p \<longleftrightarrow> p = COAP_PROTO_UDP \<or> p = COAP_PROTO_DTLS"

definition COAP_PROTO_RELIABLE :: "coap_proto \<Rightarrow> bool" where
  "COAP_PROTO_RELIABLE p \<longleftrightarrow> p = COAP_PROTO_TCP \<or> p = COAP_PROTO_TLS \<or> p = COAP_PROTO_WS \<or> p = COAP_PROTO_WSS"

text \<open>
  \<open>actual_token\<close> is split into its length and the offset of its bytes. \<open>lg_xmit\<close> and
  \<open>session\<close> are opaque addresses that the functions here only store.
\<close>

record coap_pdu =
  pdu_type :: u8
  pdu_code :: u8
  pdu_mid :: u16
  max_hdr_size :: nat
  hdr_size :: nat
  crit_opt :: u8
  max_opt :: u16
  e_token_length :: nat
  token_length :: nat
  token_s :: nat
  alloc_size :: nat
  used_size :: nat
  max_size :: nat
  hdr :: bytes
  mem :: bytes
  data :: "nat option"
  body_data :: "bytes option"
  body_length :: nat
  body_offset :: nat
  body_total :: nat
  lg_xmit :: "nat option"
  session :: "nat option"

text \<open>
  The allocator: the uninitialised object a \<open>malloc\<close> of a \<open>coap_pdu_t\<close> returns (\<open>None\<close> for
  null), whether an allocation of \<open>n\<close> bytes succeeds, and the indeterminate content of new bytes.
\<close>

record heap =
  raw_pdu :: "coap_pdu option"
  grow_ok :: "nat \<Rightarrow> bool"
  junk :: "nat \<Rightarrow> u8"

definition COAP_TOKEN_EXT_1B_BIAS :: nat where "COAP_TOKEN_EXT_1B_BIAS = 13"
definition COAP_TOKEN_EXT_2B_BIAS :: nat where "COAP_TOKEN_EXT_2B_BIAS = 269"
definition COAP_TOKEN_EXT_MAX :: nat where "COAP_TOKEN_EXT_MAX = 65804"
definition COAP_PAYLOAD_START :: u8 where "COAP_PAYLOAD_START = 0xFF"
definition COAP_PDU_MAX_UDP_HEADER_SIZE :: nat where "COAP_PDU_MAX_UDP_HEADER_SIZE = 4"
definition COAP_PDU_MAX_TCP_HEADER_SIZE :: nat where "COAP_PDU_MAX_TCP_HEADER_SIZE = 6"

lemmas coap_const_defs = COAP_TOKEN_EXT_1B_BIAS_def COAP_TOKEN_EXT_2B_BIAS_def COAP_TOKEN_EXT_MAX_def
  COAP_PAYLOAD_START_def COAP_PDU_MAX_UDP_HEADER_SIZE_def COAP_PDU_MAX_TCP_HEADER_SIZE_def

section \<open>Creation\<close>

definition coap_pdu_clear :: "coap_pdu \<Rightarrow> nat \<Rightarrow> coap_pdu option" where
  "coap_pdu_clear pdu n = do {
     c_assert (max_hdr_size pdu \<ge> COAP_PDU_MAX_UDP_HEADER_SIZE);
     Some (pdu\<lparr>alloc_size := (if alloc_size pdu > n then n else alloc_size pdu),
       pdu_type := 0, pdu_code := 0, hdr_size := 0, token_length := 0, e_token_length := 0,
       crit_opt := 0, pdu_mid := 0, max_opt := 0, max_size := n, used_size := 0, data := None,
       body_data := None, body_length := 0, body_offset := 0, body_total := 0,
       lg_xmit := None, session := None\<rparr>)
   }"

text \<open>\<open>None\<close> as the result of the run is the null pointer.\<close>

definition coap_pdu_init :: "heap \<Rightarrow> u8 \<Rightarrow> u8 \<Rightarrow> u16 \<Rightarrow> nat \<Rightarrow> coap_pdu option option" where
  "coap_pdu_init h type code mid n = do {
     c_assert (type \<le> 3);
     case raw_pdu h of
       None \<Rightarrow> Some None
     | Some pdu0 \<Rightarrow> do {
         let pdu = pdu0\<lparr>max_hdr_size := COAP_PDU_MAX_TCP_HEADER_SIZE, alloc_size := min n 256\<rparr>;
         let total = alloc_size pdu + max_hdr_size pdu;
         if \<not> grow_ok h total then Some None
         else do {
           let block = map (junk h) [0..<total];
           let pdu = pdu\<lparr>hdr := take (max_hdr_size pdu) block, mem := drop (max_hdr_size pdu) block\<rparr>;
           pdu \<leftarrow> coap_pdu_clear pdu n;
           Some (Some (pdu\<lparr>pdu_mid := mid, pdu_type := type, pdu_code := code\<rparr>))
         }
       }
   }"

text \<open>What the message functions use of a session (\<open>coap_session.c\<close>).\<close>

record coap_session =
  proto :: coap_proto
  tx_mid :: u16
  mtu :: nat
  tls_overhead :: nat
  doing_first :: bool

definition coap_new_message_id :: "coap_session \<Rightarrow> u16 \<times> coap_session" where
  "coap_new_message_id s =
     (if COAP_PROTO_NOT_RELIABLE (proto s) then (tx_mid s + 1, s\<lparr>tx_mid := tx_mid s + 1\<rparr>) else (0, s))"

definition coap_session_max_pdu_size_internal :: "coap_session \<Rightarrow> nat \<Rightarrow> nat" where
  "coap_session_max_pdu_size_internal s max_with_header =
     (if COAP_PROTO_NOT_RELIABLE (proto s) then (if max_with_header > 4 then max_with_header - 4 else 0)
      else if max_with_header \<le> 2 then 0
      else if max_with_header \<le> 12 + 2 then max_with_header - 2
      else if max_with_header \<le> 268 + 3 then max_with_header - 3
      else if max_with_header \<le> 65804 + 4 then max_with_header - 4
      else max_with_header - 6)"

text \<open>
  \<open>coap_client_delay_first\<close> returns at once unless the session still waits for its first
  response, which \<open>delayed\<close>, the session after the wait, stands for.
\<close>

definition coap_session_max_pdu_size :: "(coap_session \<Rightarrow> coap_session) \<Rightarrow> coap_session \<Rightarrow> nat \<times> coap_session" where
  "coap_session_max_pdu_size delayed s =
     (let s = (if doing_first s then delayed s else s)
      in (coap_session_max_pdu_size_internal s (mtu s - tls_overhead s), s))"

definition coap_new_pdu ::
  "heap \<Rightarrow> (coap_session \<Rightarrow> coap_session) \<Rightarrow> u8 \<Rightarrow> u8 \<Rightarrow> coap_session \<Rightarrow> (coap_pdu option \<times> coap_session) option" where
  "coap_new_pdu h delayed type code s = do {
     let (mid, s) = coap_new_message_id s;
     let (n, s) = coap_session_max_pdu_size delayed s;
     pdu \<leftarrow> coap_pdu_init h type code mid n;
     Some (pdu, s)
   }"

text \<open>The number of heap blocks released.\<close>

definition coap_delete_pdu :: "coap_pdu option \<Rightarrow> nat" where
  "coap_delete_pdu pdu = (case pdu of None \<Rightarrow> 0 | Some _ \<Rightarrow> 2)"

section \<open>Growing the buffer\<close>

text \<open>How many bytes in front of the token hold its extended length.\<close>

definition token_bias :: "nat \<Rightarrow> nat attempt" where
  "token_bias len =
     (if len < COAP_TOKEN_EXT_1B_BIAS then Accepted 0
      else if len < COAP_TOKEN_EXT_2B_BIAS then Accepted 1
      else if len \<le> COAP_TOKEN_EXT_MAX then Accepted 2
      else Rejected)"

definition coap_pdu_resize :: "heap \<Rightarrow> coap_pdu \<Rightarrow> nat \<Rightarrow> (bool \<times> coap_pdu) option" where
  "coap_pdu_resize h pdu new_size =
     (if new_size > alloc_size pdu then
        (if max_size pdu \<noteq> 0 \<and> new_size > max_size pdu then Some (False, pdu)
         else do {
           offset \<leftarrow> (case data pdu of Some d \<Rightarrow> do { c_assert (d > 0); Some d } | None \<Rightarrow> Some 0);
           if \<not> grow_ok h (new_size + max_hdr_size pdu) then Some (False, pdu)
           else Some (True, pdu\<lparr>
             mem := take new_size (mem pdu @ map (junk h) [0..<new_size]),
             data := (if offset > 0 then Some offset else None),
             token_s := (if token_length pdu < COAP_TOKEN_EXT_1B_BIAS then 0
                         else if token_length pdu < COAP_TOKEN_EXT_2B_BIAS then 1 else 2),
             alloc_size := new_size\<rparr>)
         })
      else Some (True, pdu\<lparr>alloc_size := new_size\<rparr>))"

text \<open>\<open>while (size > new_size) new_size *= 2\<close>, in 32-bit arithmetic.\<close>

definition double_size :: "nat \<Rightarrow> nat \<Rightarrow> nat option" where
  "double_size n = c_while (\<lambda>new_size. n > new_size) (\<lambda>new_size. Some (new_size * 2 mod 2 ^ 32))"

definition coap_pdu_check_resize :: "heap \<Rightarrow> coap_pdu \<Rightarrow> nat \<Rightarrow> (bool \<times> coap_pdu) option" where
  "coap_pdu_check_resize h pdu n =
     (if n > alloc_size pdu then do {
        new_size \<leftarrow> double_size n (max 256 (alloc_size pdu * 2 mod 2 ^ 32));
        if max_size pdu \<noteq> 0 \<and> new_size > max_size pdu then
          (if max_size pdu < n then Some (False, pdu) else coap_pdu_resize h pdu (max_size pdu))
        else coap_pdu_resize h pdu new_size
      }
      else Some (True, pdu))"

section \<open>Token\<close>

text \<open>\<open>if (len) switch (bias) { ... }\<close>\<close>

definition write_token :: "bytes \<Rightarrow> nat \<Rightarrow> nat \<Rightarrow> bytes \<Rightarrow> bytes option" where
  "write_token m bias len token =
     (if len = 0 then Some m
      else do {
        m1 \<leftarrow> (if bias = 0 then Some m
               else if bias = 1 then c_store m 0 (word_of_nat (len - COAP_TOKEN_EXT_1B_BIAS))
               else do {
                 m \<leftarrow> c_store m 0 (word_of_nat ((len - COAP_TOKEN_EXT_2B_BIAS) div 256));
                 c_store m 1 (word_of_nat (len - COAP_TOKEN_EXT_2B_BIAS))
               });
        bs \<leftarrow> c_slice token 0 len;
        c_blit m1 bias bs
      })"

definition coap_add_token :: "heap \<Rightarrow> coap_pdu \<Rightarrow> nat \<Rightarrow> bytes \<Rightarrow> (bool \<times> coap_pdu) option" where
  "coap_add_token h pdu len token =
     (if used_size pdu \<noteq> 0 then Some (False, pdu)
      else
        let pdu = pdu\<lparr>token_length := len\<rparr> in
        case token_bias len of
          Rejected \<Rightarrow> Some (False, pdu)
        | Accepted bias \<Rightarrow> do {
            (ok, pdu) \<leftarrow> coap_pdu_check_resize h pdu (len + bias);
            if \<not> ok then Some (False, pdu)
            else do {
              let pdu = pdu\<lparr>token_length := len, token_s := bias, e_token_length := len + bias\<rparr>;
              m \<leftarrow> write_token (mem pdu) bias len token;
              Some (True, pdu\<lparr>mem := m, max_opt := 0, used_size := len + bias, data := None\<rparr>)
            }
          })"

text \<open>The new encoded length is cast to \<open>uint8_t\<close>, although the field has 32 bits.\<close>

definition coap_update_token :: "heap \<Rightarrow> coap_pdu \<Rightarrow> nat \<Rightarrow> bytes \<Rightarrow> (bool \<times> coap_pdu) option" where
  "coap_update_token h pdu len token =
     (if used_size pdu = 0 then coap_add_token h pdu len token
      else
        case token_bias len of
          Rejected \<Rightarrow> Some (False, pdu)
        | Accepted bias \<Rightarrow> do {
            let new = len + bias;
            let old = e_token_length pdu;
            (ok, pdu) \<leftarrow>
              (if new = old then Some (True, pdu)
               else if new > old then do {
                 (ok, pdu) \<leftarrow> coap_pdu_check_resize h pdu (used_size pdu + new - old);
                 if \<not> ok then Some (False, pdu)
                 else do {
                   m \<leftarrow> c_memmove (mem pdu) (new - old) 0 (used_size pdu);
                   Some (True, pdu\<lparr>mem := m, used_size := used_size pdu + new - old\<rparr>)
                 }
               }
               else do {
                 let pdu = pdu\<lparr>used_size := used_size pdu - (old - new)\<rparr>;
                 m \<leftarrow> c_memmove (mem pdu) 0 (old - new) (used_size pdu);
                 Some (True, pdu\<lparr>mem := m\<rparr>)
               });
            if \<not> ok then Some (False, pdu)
            else do {
              let pdu = pdu\<lparr>data := map_option (\<lambda>d. d + new - old) (data pdu),
                token_length := len, token_s := bias, e_token_length := new mod 256\<rparr>;
              m \<leftarrow> write_token (mem pdu) bias len token;
              Some (True, pdu\<lparr>mem := m\<rparr>)
            }
          })"

section \<open>Payload\<close>

text \<open>The result is the offset at which the caller stores the payload, \<open>None\<close> for null.\<close>

definition coap_add_data_after :: "heap \<Rightarrow> coap_pdu \<Rightarrow> nat \<Rightarrow> (nat option \<times> coap_pdu) option" where
  "coap_add_data_after h pdu len =
     (if data pdu \<noteq> None then Some (None, pdu)
      else if len = 0 then Some (None, pdu)
      else do {
        (ok, pdu) \<leftarrow> coap_pdu_resize h pdu (used_size pdu + len + 1);
        if \<not> ok then Some (None, pdu)
        else do {
          m \<leftarrow> c_store (mem pdu) (used_size pdu) COAP_PAYLOAD_START;
          let start = used_size pdu + 1;
          Some (Some start, pdu\<lparr>mem := m, data := Some start, used_size := start + len\<rparr>)
        }
      })"

definition coap_add_data :: "heap \<Rightarrow> coap_pdu \<Rightarrow> nat \<Rightarrow> bytes \<Rightarrow> (bool \<times> coap_pdu) option" where
  "coap_add_data h pdu len bs =
     (if len = 0 then Some (True, pdu)
      else do {
        (payload, pdu) \<leftarrow> coap_add_data_after h pdu len;
        case payload of
          None \<Rightarrow> Some (False, pdu)
        | Some p \<Rightarrow> do {
            src \<leftarrow> c_slice bs 0 len;
            m \<leftarrow> c_blit (mem pdu) p src;
            Some (True, pdu\<lparr>mem := m\<rparr>)
          }
      })"

text \<open>
  The payload as (return value, bytes, offset, total): the re-assembled body if there is one,
  otherwise the bytes behind the payload marker.
\<close>

definition coap_get_data_large :: "coap_pdu \<Rightarrow> (bool \<times> bytes \<times> nat \<times> nat) option" where
  "coap_get_data_large pdu =
     (case body_data pdu of
        Some body \<Rightarrow> do {
          bs \<leftarrow> c_slice body 0 (body_length pdu);
          Some (True, bs, body_offset pdu, body_total pdu)
        }
      | None \<Rightarrow>
          (case data pdu of
             None \<Rightarrow> Some (False, [], body_offset pdu, 0)
           | Some d \<Rightarrow> do {
               let len = used_size pdu - d;
               bs \<leftarrow> c_slice (mem pdu) d len;
               Some (True, bs, body_offset pdu, if body_total pdu = 0 then len else body_total pdu)
             }))"

definition coap_get_data :: "coap_pdu \<Rightarrow> (bool \<times> bytes) option" where
  "coap_get_data pdu = do {
     (ok, bs, offset, total) \<leftarrow> coap_get_data_large pdu;
     Some (ok, bs)
   }"

section \<open>Accessors\<close>

definition coap_pdu_get_code :: "coap_pdu \<Rightarrow> u8" where
  "coap_pdu_get_code pdu = pdu_code pdu"

definition coap_pdu_set_code :: "coap_pdu \<Rightarrow> u8 \<Rightarrow> coap_pdu" where
  "coap_pdu_set_code pdu code = pdu\<lparr>pdu_code := code\<rparr>"

definition coap_pdu_get_type :: "coap_pdu \<Rightarrow> u8" where
  "coap_pdu_get_type pdu = pdu_type pdu"

definition coap_pdu_set_type :: "coap_pdu \<Rightarrow> u8 \<Rightarrow> coap_pdu option" where
  "coap_pdu_set_type pdu type = do { c_assert (type \<le> 3); Some (pdu\<lparr>pdu_type := type\<rparr>) }"

definition coap_pdu_get_token :: "coap_pdu \<Rightarrow> bytes option" where
  "coap_pdu_get_token pdu = c_slice (mem pdu) (token_s pdu) (token_length pdu)"

definition coap_pdu_get_mid :: "coap_pdu \<Rightarrow> u16" where
  "coap_pdu_get_mid pdu = pdu_mid pdu"

definition coap_pdu_set_mid :: "coap_pdu \<Rightarrow> u16 \<Rightarrow> coap_pdu" where
  "coap_pdu_set_mid pdu mid = pdu\<lparr>pdu_mid := mid\<rparr>"

end
