(* ===== verification/Coap_Iterator.thy ===== *)
theory Coap_Iterator
  imports Coap_Pdu
begin

text \<open>
  The option iterator of \<open>libcoap/src/coap_option.c\<close>, which walks through the options of a
  message between its token and its payload.
\<close>

section \<open>State and operations\<close>

record coap_opt_iterator =
  it_length :: nat
  it_number :: u16
  it_bad :: bool
  it_filtered :: bool
  it_next :: nat
  it_filter :: coap_opt_filter

text \<open>Returns whether the result is not null, and the iterator as the call leaves it.\<close>

definition coap_option_iterator_init :: "coap_pdu \<Rightarrow> coap_opt_filter option \<Rightarrow> bool \<times> coap_opt_iterator" where
  "coap_option_iterator_init pdu flt =
     (let oi = \<lparr>it_length = 0, it_number = 0, it_bad = False, it_filtered = False,
                it_next = e_token_length pdu, it_filter = coap_option_filter_clear\<rparr> in
      if used_size pdu \<le> it_next oi then (False, oi\<lparr>it_bad := True\<rparr>)
      else
        let oi = oi\<lparr>it_length := used_size pdu - e_token_length pdu\<rparr> in
        (True, case flt of None \<Rightarrow> oi | Some f \<Rightarrow> oi\<lparr>it_filter := f, it_filtered := True\<rparr>))"

text \<open>The payload marker is read only when the earlier tests fail.\<close>

definition opt_finished :: "bytes \<Rightarrow> coap_opt_iterator \<Rightarrow> (bool \<times> coap_opt_iterator) option" where
  "opt_finished m oi = do {
     stop \<leftarrow> (if it_bad oi \<or> it_length oi = 0 then Some True
             else do { b \<leftarrow> c_load m (it_next oi); Some (b = COAP_PAYLOAD_START) });
     Some (if stop then (True, oi\<lparr>it_bad := True\<rparr>) else (it_bad oi, oi))
   }"

text \<open>The body of \<open>while (1)\<close>: deliver the next option or go on to the one after it.\<close>

partial_function (option) next_loop ::
  "bytes \<Rightarrow> coap_opt_iterator \<Rightarrow> (nat option \<times> coap_opt_iterator) option" where
  "next_loop m oi = do {
     let current = it_next oi;
     r \<leftarrow> coap_opt_parse m current (it_length oi);
     case r of
       Rejected \<Rightarrow> Some (None, oi\<lparr>it_bad := True\<rparr>)
     | Accepted (optsize, option) \<Rightarrow> do {
         c_assert (optsize \<le> it_length oi);
         let oi = oi\<lparr>it_next := it_next oi + optsize, it_length := it_length oi - optsize,
                     it_number := it_number oi + delta option\<rparr>;
         (hit, flt) \<leftarrow> (if it_filtered oi then coap_option_filter_get (it_filter oi) (it_number oi)
                       else Some (True, it_filter oi));
         let oi = oi\<lparr>it_filter := flt\<rparr>;
         if hit then Some (Some current, oi) else next_loop m oi
       }
   }"

definition coap_option_next :: "bytes \<Rightarrow> coap_opt_iterator \<Rightarrow> (nat option \<times> coap_opt_iterator) option" where
  "coap_option_next m oi = do {
     (stop, oi) \<leftarrow> opt_finished m oi;
     if stop then Some (None, oi) else next_loop m oi
   }"

definition coap_check_option :: "coap_pdu \<Rightarrow> u16 \<Rightarrow> (nat option \<times> coap_opt_iterator) option" where
  "coap_check_option pdu number = do {
     (_, f) \<leftarrow> coap_option_filter_set coap_option_filter_clear number;
     let (_, oi) = coap_option_iterator_init pdu (Some f);
     coap_option_next (mem pdu) oi
   }"

text \<open>
  The search loops of the editing functions,
  \<open>while ((option = coap_option_next(&opt_iter))) { if (P(opt_iter.number)) break; prev = opt_iter.number; }\<close>
\<close>

partial_function (option) find_option ::
  "bytes \<Rightarrow> (u16 \<Rightarrow> bool) \<Rightarrow> coap_opt_iterator \<Rightarrow> u16 \<Rightarrow> (nat option \<times> coap_opt_iterator \<times> u16) option" where
  "find_option m P oi prev = do {
     (opt, oi) \<leftarrow> coap_option_next m oi;
     case opt of
       None \<Rightarrow> Some (None, oi, prev)
     | Some p \<Rightarrow> if P (it_number oi) then Some (Some p, oi, prev) else find_option m P oi (it_number oi)
   }"

end
