(* ===== verification/Coap_Edit.thy ===== *)
theory Coap_Edit
  imports Coap_Iterator
begin

unbundle bit_operations_syntax

text \<open>
  Changing the options of a message (\<open>libcoap/src/coap_pdu.c\<close>): adding at the end, inserting
  in order with the header of the following option patched in place, removing, replacing,
  and copying a message.
\<close>

section \<open>Option numbers\<close>

definition COAP_OPTION_HOP_LIMIT :: u16 where "COAP_OPTION_HOP_LIMIT = 16"
definition COAP_OPTION_PROXY_URI :: u16 where "COAP_OPTION_PROXY_URI = 35"
definition COAP_OPTION_PROXY_SCHEME :: u16 where "COAP_OPTION_PROXY_SCHEME = 39"
definition COAP_OPTION_CONTENT_TYPE :: u16 where "COAP_OPTION_CONTENT_TYPE = 12"

text \<open>Uri-Host, If-None-Match, Observe, Uri-Port, OSCORE, Content-Format, Max-Age, Hop-Limit, Accept,
  Block2, Block1, Size2, Proxy-Uri, Proxy-Scheme, Size1, Echo, No-Response.\<close>

definition coap_option_check_repeatable :: "u16 \<Rightarrow> bool" where
  "coap_option_check_repeatable number \<longleftrightarrow>
     number \<notin> set [3, 5, 6, 7, 9, 12, 14, 16, 17, 23, 27, 28, 35, 39, 60, 252, 258]"

definition COAP_PDU_IS_REQUEST :: "coap_pdu \<Rightarrow> bool" where
  "COAP_PDU_IS_REQUEST pdu \<longleftrightarrow> pdu_code pdu \<noteq> 0 \<and> pdu_code pdu < 32"

section \<open>Insertion\<close>

text \<open>
  The new delta of the option behind the inserted one is written into its old header. The second
  component is by how many bytes that header shrinks.
\<close>

definition patch_delta :: "bytes \<Rightarrow> nat \<Rightarrow> u16 \<Rightarrow> nat \<Rightarrow> (bytes \<times> nat) option" where
  "patch_delta m opt old_delta opt_delta =
     (if old_delta < 13 then do {
        b \<leftarrow> c_load m opt;
        m \<leftarrow> c_store m opt ((b AND 0x0F) + word_of_nat (opt_delta * 16));
        Some (m, 0)
      }
      else if old_delta < 269 \<and> opt_delta < 13 then do {
        b \<leftarrow> c_load m opt;
        m \<leftarrow> c_store m (opt + 1) ((b AND 0x0F) + word_of_nat (opt_delta * 16));
        Some (m, 1)
      }
      else if old_delta < 269 \<and> opt_delta < 269 then do {
        m \<leftarrow> c_store m (opt + 1) (word_of_nat (opt_delta - 13));
        Some (m, 0)
      }
      else if opt_delta < 13 then do {
        b \<leftarrow> c_load m opt;
        m \<leftarrow> c_store m (opt + 2) ((b AND 0x0F) + word_of_nat (opt_delta * 16));
        Some (m, 2)
      }
      else if opt_delta < 269 then do {
        b \<leftarrow> c_load m opt;
        m \<leftarrow> c_store m (opt + 1) ((b AND 0x0F) + 0xD0);
        m \<leftarrow> c_store m (opt + 2) (word_of_nat (opt_delta - 13));
        Some (m, 1)
      }
      else do {
        m \<leftarrow> c_store m (opt + 1) (word_of_nat ((opt_delta - 269) div 256));
        m \<leftarrow> c_store m (opt + 2) (word_of_nat (opt_delta - 269));
        Some (m, 0)
      })"

text \<open>\<open>coap_insert_option\<close> from its search loop on, for a number below \<open>max_opt\<close>.\<close>

definition insert_before ::
  "heap \<Rightarrow> coap_pdu \<Rightarrow> u16 \<Rightarrow> nat \<Rightarrow> bytes option \<Rightarrow> (nat \<times> coap_pdu) option" where
  "insert_before h pdu number len val = do {
     (opt, oi, prev_number) \<leftarrow> find_option (mem pdu) (\<lambda>k. k > number) (snd (coap_option_iterator_init pdu None)) 0;
     c_assert (opt \<noteq> None);
     let option = the opt;
     let shift = coap_opt_encode_size (number - prev_number) len;
     r \<leftarrow> coap_opt_parse (mem pdu) option (used_size pdu - option);
     case r of
       Rejected \<Rightarrow> Some (0, pdu)
     | Accepted (_, decode) \<Rightarrow> do {
         let opt_delta = unat (it_number oi - number);
         if opt_delta = 0 \<and> \<not> coap_option_check_repeatable number then Some (0, pdu)
         else do {
           (ok, pdu) \<leftarrow> coap_pdu_check_resize h pdu (used_size pdu + shift);
           if \<not> ok then Some (0, pdu)
           else do {
             (opt, oi, _) \<leftarrow> find_option (mem pdu) (\<lambda>k. k > number) (snd (coap_option_iterator_init pdu None)) 0;
             c_assert (opt \<noteq> None);
             let option = the opt;
             (m, shrink) \<leftarrow> patch_delta (mem pdu) option (delta decode) opt_delta;
             m \<leftarrow> c_memmove m (option + shift) (option + shrink) (used_size pdu - option - shrink);
             (n, m) \<leftarrow> coap_opt_encode m option (alloc_size pdu - used_size pdu) (number - prev_number) val len;
             if n = 0 then Some (0, pdu\<lparr>mem := m\<rparr>)
             else Some (shift, pdu\<lparr>mem := m, used_size := used_size pdu + shift - shrink,
                                  data := map_option (\<lambda>d. d + shift - shrink) (data pdu)\<rparr>)
           }
         }
       }
   }"

section \<open>Adding at the end\<close>

text \<open>\<open>coap_add_option_internal\<close> from \<open>optsize = ...\<close> on.\<close>

definition append_option ::
  "heap \<Rightarrow> coap_pdu \<Rightarrow> u16 \<Rightarrow> nat \<Rightarrow> bytes option \<Rightarrow> (nat \<times> coap_pdu) option" where
  "append_option h pdu number len val = do {
     let optsize = coap_opt_encode_size (number - max_opt pdu) len;
     (ok, pdu) \<leftarrow> coap_pdu_check_resize h pdu (used_size pdu + optsize);
     if \<not> ok then Some (0, pdu)
     else do {
       (opt, pdu) \<leftarrow>
         (case data pdu of
            Some d \<Rightarrow> do {
              m \<leftarrow> c_memmove (mem pdu) (d + optsize - 1) (d - 1) (used_size pdu - d + 1);
              Some (d - 1, pdu\<lparr>mem := m, data := Some (d + optsize)\<rparr>)
            }
          | None \<Rightarrow> Some (used_size pdu, pdu));
       (optsize, m) \<leftarrow> coap_opt_encode (mem pdu) opt (alloc_size pdu - used_size pdu) (number - max_opt pdu) val len;
       let pdu = pdu\<lparr>mem := m\<rparr>;
       if optsize = 0 then Some (0, pdu)
       else Some (optsize, pdu\<lparr>max_opt := number, used_size := used_size pdu + optsize\<rparr>)
     }
   }"

text \<open>
  The default Hop-Limit option of a proxied request. \<open>coap_insert_option\<close> and
  \<open>coap_add_option_internal\<close> call each other; for this number, which is not one of the proxy
  options, the calls end as written out here. The value is the first byte of a variable
  that holds the option number.
\<close>

definition insert_hop_limit :: "heap \<Rightarrow> coap_pdu \<Rightarrow> (nat \<times> coap_pdu) option" where
  "insert_hop_limit h pdu =
     (let val = Some [ucast COAP_OPTION_HOP_LIMIT] in
      if COAP_OPTION_HOP_LIMIT \<ge> max_opt pdu then
        (if COAP_OPTION_HOP_LIMIT = max_opt pdu \<and> \<not> coap_option_check_repeatable COAP_OPTION_HOP_LIMIT
         then Some (0, pdu)
         else append_option h pdu COAP_OPTION_HOP_LIMIT 1 val)
      else insert_before h pdu COAP_OPTION_HOP_LIMIT 1 val)"

definition coap_add_option_internal ::
  "heap \<Rightarrow> coap_pdu \<Rightarrow> u16 \<Rightarrow> nat \<Rightarrow> bytes option \<Rightarrow> (nat \<times> coap_pdu) option" where
  "coap_add_option_internal h pdu number len val =
     (if number = max_opt pdu \<and> \<not> coap_option_check_repeatable number then Some (0, pdu)
      else do {
        pdu \<leftarrow>
          (if COAP_PDU_IS_REQUEST pdu \<and> (number = COAP_OPTION_PROXY_URI \<or> number = COAP_OPTION_PROXY_SCHEME) then do {
             (opt, _) \<leftarrow> coap_check_option pdu COAP_OPTION_HOP_LIMIT;
             if opt = None then do { (_, pdu) \<leftarrow> insert_hop_limit h pdu; Some pdu } else Some pdu
           }
           else Some pdu);
        if number < max_opt pdu then insert_before h pdu number len val
        else append_option h pdu number len val
      })"

definition coap_insert_option ::
  "heap \<Rightarrow> coap_pdu \<Rightarrow> u16 \<Rightarrow> nat \<Rightarrow> bytes option \<Rightarrow> (nat \<times> coap_pdu) option" where
  "coap_insert_option h pdu number len val =
     (if number \<ge> max_opt pdu then coap_add_option_internal h pdu number len val
      else insert_before h pdu number len val)"

definition coap_add_option ::
  "heap \<Rightarrow> coap_pdu \<Rightarrow> u16 \<Rightarrow> nat \<Rightarrow> bytes option \<Rightarrow> (nat \<times> coap_pdu) option" where
  "coap_add_option h pdu number len val =
     (if data pdu \<noteq> None then Some (0, pdu) else coap_add_option_internal h pdu number len val)"

section \<open>Replacement\<close>

definition coap_update_option ::
  "heap \<Rightarrow> coap_pdu \<Rightarrow> u16 \<Rightarrow> nat \<Rightarrow> bytes option \<Rightarrow> (nat \<times> coap_pdu) option" where
  "coap_update_option h pdu number len val = do {
     (opt, _) \<leftarrow> coap_check_option pdu number;
     case opt of
       None \<Rightarrow> coap_insert_option h pdu number len val
     | Some option \<Rightarrow> do {
         r \<leftarrow> coap_opt_parse (mem pdu) option (2 ^ 32 - 1);
         case r of
           Rejected \<Rightarrow> Some (0, pdu)
         | Accepted (old_length, decode) \<Rightarrow> do {
             let new_length = coap_opt_encode_size (delta decode) len;
             (ok, option, pdu) \<leftarrow>
               (if new_length > old_length then do {
                  (ok, pdu) \<leftarrow> coap_pdu_check_resize h pdu (used_size pdu + new_length - old_length);
                  if \<not> ok then Some (False, option, pdu)
                  else do {
                    (opt, _) \<leftarrow> coap_check_option pdu number;
                    option \<leftarrow> opt;
                    Some (True, option, pdu)
                  }
                }
                else Some (True, option, pdu));
             if \<not> ok then Some (0, pdu)
             else do {
               m \<leftarrow> (if new_length \<noteq> old_length
                    then c_memmove (mem pdu) (option + new_length) (option + old_length)
                           (used_size pdu - option - old_length)
                    else Some (mem pdu));
               (n, m) \<leftarrow> coap_opt_encode m option new_length (delta decode) val len;
               if n = 0 then Some (0, pdu\<lparr>mem := m\<rparr>)
               else Some (1, pdu\<lparr>mem := m, used_size := used_size pdu + new_length - old_length,
                               data := map_option (\<lambda>d. d + new_length - old_length) (data pdu)\<rparr>)
             }
           }
       }
   }"

section \<open>Removal\<close>

text \<open>
  The header of the option behind the removed one grows or stays, for the sum of both deltas. The
  result is its new start, the buffer, and whether everything from it on was first moved up a byte.
\<close>

definition merge_delta :: "bytes \<Rightarrow> nat \<Rightarrow> nat \<Rightarrow> u16 \<Rightarrow> (nat \<times> bytes) option" where
  "merge_delta m next_option opt_delta next_delta =
     (if opt_delta < 13 then do {
        b \<leftarrow> c_load m next_option;
        m \<leftarrow> c_store m next_option ((b AND 0x0F) + word_of_nat (opt_delta * 16));
        Some (next_option, m)
      }
      else if opt_delta < 269 \<and> next_delta < 13 then do {
        b \<leftarrow> c_load m next_option;
        m \<leftarrow> c_store m (next_option - 1) ((b AND 0x0F) + 0xD0);
        m \<leftarrow> c_store m next_option (word_of_nat (opt_delta - 13));
        Some (next_option - 1, m)
      }
      else if opt_delta < 269 then do {
        m \<leftarrow> c_store m (next_option + 1) (word_of_nat (opt_delta - 13));
        Some (next_option, m)
      }
      else if next_delta < 13 then do {
        b \<leftarrow> c_load m next_option;
        m \<leftarrow> c_store m (next_option - 2) ((b AND 0x0F) + 0xE0);
        m \<leftarrow> c_store m (next_option - 1) (word_of_nat ((opt_delta - 269) div 256));
        m \<leftarrow> c_store m next_option (word_of_nat (opt_delta - 269));
        Some (next_option - 2, m)
      }
      else if next_delta < 269 then do {
        b \<leftarrow> c_load m next_option;
        m \<leftarrow> c_store m (next_option - 1) ((b AND 0x0F) + 0xE0);
        m \<leftarrow> c_store m next_option (word_of_nat ((opt_delta - 269) div 256));
        m \<leftarrow> c_store m (next_option + 1) (word_of_nat (opt_delta - 269));
        Some (next_option - 1, m)
      }
      else do {
        m \<leftarrow> c_store m (next_option + 1) (word_of_nat ((opt_delta - 269) div 256));
        m \<leftarrow> c_store m (next_option + 2) (word_of_nat (opt_delta - 269));
        Some (next_option, m)
      })"

text \<open>The tail of the function: close the gap between \<open>option\<close> and \<open>next_option\<close>.\<close>

definition close_gap :: "coap_pdu \<Rightarrow> nat \<Rightarrow> nat \<Rightarrow> (bool \<times> coap_pdu) option" where
  "close_gap pdu option next_option = do {
     m \<leftarrow> (if used_size pdu - next_option > 0
          then c_memmove (mem pdu) option next_option (used_size pdu - next_option)
          else Some (mem pdu));
     Some (True, pdu\<lparr>mem := m, used_size := used_size pdu - (next_option - option),
                    data := map_option (\<lambda>d. d - (next_option - option)) (data pdu)\<rparr>)
   }"

definition coap_remove_option :: "heap \<Rightarrow> coap_pdu \<Rightarrow> u16 \<Rightarrow> (bool \<times> coap_pdu) option" where
  "coap_remove_option h pdu number = do {
     (opt, oi, _) \<leftarrow> find_option (mem pdu) (\<lambda>k. k = number) (snd (coap_option_iterator_init pdu None)) 0;
     case opt of
       None \<Rightarrow> Some (False, pdu)
     | Some option \<Rightarrow> do {
         r \<leftarrow> coap_opt_parse (mem pdu) option (used_size pdu - option);
         case r of
           Rejected \<Rightarrow> Some (False, pdu)
         | Accepted (_, decode_this) \<Rightarrow> do {
             (next, oi) \<leftarrow> coap_option_next (mem pdu) oi;
             case next of
               None \<Rightarrow> do {
                 len \<leftarrow> coap_opt_length (mem pdu) option;
                 close_gap (pdu\<lparr>max_opt := max_opt pdu - delta decode_this\<rparr>) option
                   (option + coap_opt_encode_size (delta decode_this) len)
               }
             | Some next_option \<Rightarrow> do {
                 r \<leftarrow> coap_opt_parse (mem pdu) next_option (used_size pdu - next_option);
                 case r of
                   Rejected \<Rightarrow> Some (False, pdu)
                 | Accepted (_, decode_next) \<Rightarrow> do {
                     let opt_delta = unat (delta decode_this) + unat (delta decode_next);
                     if opt_delta \<ge> 269 \<and> delta decode_next < 13 \<and> next_option - option < 2 then do {
                       (ok, pdu) \<leftarrow> coap_pdu_check_resize h pdu (used_size pdu + 1);
                       if \<not> ok then Some (False, pdu)
                       else do {
                         (opt, oi, _) \<leftarrow> find_option (mem pdu) (\<lambda>k. k = number) (snd (coap_option_iterator_init pdu None)) 0;
                         (next, oi) \<leftarrow> coap_option_next (mem pdu) oi;
                         c_assert (opt \<noteq> None);
                         c_assert (next \<noteq> None);
                         let next_option = the next;
                         m \<leftarrow> c_memmove (mem pdu) (next_option + 1) next_option (used_size pdu - next_option);
                         let pdu = pdu\<lparr>used_size := used_size pdu + 1, data := map_option (\<lambda>d. d + 1) (data pdu)\<rparr>;
                         (next_option, m) \<leftarrow> merge_delta m (next_option + 1) opt_delta (delta decode_next);
                         close_gap (pdu\<lparr>mem := m\<rparr>) (the opt) next_option
                       }
                     }
                     else do {
                       (next_option, m) \<leftarrow> merge_delta (mem pdu) next_option opt_delta (delta decode_next);
                       close_gap (pdu\<lparr>mem := m\<rparr>) option next_option
                     }
                   }
               }
           }
       }
   }"

section \<open>Copying a message\<close>

text \<open>Copy the options the filter does not contain, one by one.\<close>

partial_function (option) copy_options ::
  "heap \<Rightarrow> bytes \<Rightarrow> coap_opt_filter \<Rightarrow> coap_opt_iterator \<Rightarrow> coap_pdu \<Rightarrow> (bool \<times> coap_pdu) option" where
  "copy_options h m drop_options oi pdu = do {
     (opt, oi) \<leftarrow> coap_option_next m oi;
     case opt of
       None \<Rightarrow> Some (True, pdu)
     | Some p \<Rightarrow> do {
         (hit, _) \<leftarrow> coap_option_filter_get drop_options (it_number oi);
         if hit then copy_options h m drop_options oi pdu
         else do {
           len \<leftarrow> coap_opt_length m p;
           r \<leftarrow> coap_opt_value m p;
           val \<leftarrow> (case r of Rejected \<Rightarrow> Some None | Accepted v \<Rightarrow> Some (Some (drop v m)));
           (n, pdu) \<leftarrow> coap_add_option_internal h pdu (it_number oi) len val;
           if n = 0 then Some (False, pdu) else copy_options h m drop_options oi pdu
         }
       }
   }"

definition coap_pdu_duplicate ::
  "heap \<Rightarrow> (coap_session \<Rightarrow> coap_session) \<Rightarrow> coap_pdu \<Rightarrow> coap_session \<Rightarrow> nat \<Rightarrow> bytes \<Rightarrow> coap_opt_filter option \<Rightarrow>
    (coap_pdu option \<times> coap_session) option" where
  "coap_pdu_duplicate h delayed old_pdu s len token drop_options = do {
     let first = doing_first s;
     let s = s\<lparr>doing_first := False\<rparr>;
     let (mid, s) = coap_new_message_id s;
     let (n, s) = coap_session_max_pdu_size delayed s;
     r \<leftarrow> coap_pdu_init h (pdu_type old_pdu) (pdu_code old_pdu) mid (max (max_size old_pdu) n);
     let s = s\<lparr>doing_first := first\<rparr>;
     case r of
       None \<Rightarrow> Some (None, s)
     | Some pdu \<Rightarrow> do {
         (_, pdu) \<leftarrow> coap_add_token h pdu len token;
         let pdu = pdu\<lparr>lg_xmit := lg_xmit old_pdu\<rparr>;
         case drop_options of
           None \<Rightarrow> do {
             let n = used_size old_pdu - e_token_length old_pdu -
                     (case data old_pdu of Some d \<Rightarrow> used_size old_pdu - d + 1 | None \<Rightarrow> 0);
             (ok, pdu) \<leftarrow> coap_pdu_resize h pdu (n + e_token_length pdu);
             if \<not> ok then Some (None, s)
             else do {
               opts \<leftarrow> c_slice (mem old_pdu) (e_token_length old_pdu) n;
               m \<leftarrow> c_blit (mem pdu) (e_token_length pdu) opts;
               Some (Some (pdu\<lparr>mem := m, used_size := used_size pdu + n, max_opt := max_opt old_pdu\<rparr>), s)
             }
           }
         | Some f \<Rightarrow> do {
             (ok, pdu) \<leftarrow> copy_options h (mem old_pdu) f (snd (coap_option_iterator_init old_pdu None)) pdu;
             Some (if ok then Some pdu else None, s)
           }
       }
   }"

end
