(* ===== verification/Coap_Wire.thy ===== *)
theory Coap_Wire
  imports Coap_Edit
begin

unbundle bit_operations_syntax

text \<open>
  Messages on the wire (\<open>libcoap/src/coap_pdu.c\<close>): writing the protocol header in front of the
  token, and parsing a received message, with the checks of option numbers and lengths.
\<close>

section \<open>Writing the header\<close>

text \<open>\<open>pdu->token[-k] = v\<close>\<close>

definition hdr_store :: "coap_pdu \<Rightarrow> nat \<Rightarrow> u8 \<Rightarrow> coap_pdu option" where
  "hdr_store pdu k v = do {
     c_assert (k \<le> max_hdr_size pdu);
     b \<leftarrow> c_store (hdr pdu) (max_hdr_size pdu - k) v;
     Some (pdu\<lparr>hdr := b\<rparr>)
   }"

text \<open>The token length field; \<open>Rejected\<close> is \<open>return 0\<close>.\<close>

definition tkl_field :: "coap_pdu \<Rightarrow> u8 attempt" where
  "tkl_field pdu =
     (if token_length pdu < COAP_TOKEN_EXT_1B_BIAS then Accepted (word_of_nat (token_length pdu))
      else if token_length pdu < COAP_TOKEN_EXT_2B_BIAS then Accepted 13
      else if token_length pdu \<le> COAP_TOKEN_EXT_MAX then Accepted 14
      else Rejected)"

definition coap_pdu_encode_header :: "coap_pdu \<Rightarrow> coap_proto \<Rightarrow> (nat \<times> coap_pdu) option" where
  "coap_pdu_encode_header pdu prot =
     (case tkl_field pdu of
        Rejected \<Rightarrow> Some (0, pdu)
      | Accepted tkl \<Rightarrow>
          if COAP_PROTO_NOT_RELIABLE prot then do {
            c_assert (max_hdr_size pdu \<ge> 4);
            pdu \<leftarrow> hdr_store pdu 4 (push_bit 6 1 OR push_bit 4 (pdu_type pdu) OR tkl);
            pdu \<leftarrow> hdr_store pdu 3 (pdu_code pdu);
            pdu \<leftarrow> hdr_store pdu 2 (ucast (drop_bit 8 (pdu_mid pdu)));
            pdu \<leftarrow> hdr_store pdu 1 (ucast (pdu_mid pdu));
            Some (4, pdu\<lparr>hdr_size := 4\<rparr>)
          }
          else if COAP_PROTO_RELIABLE prot then do {
            c_assert (used_size pdu \<ge> e_token_length pdu);
            let len = (if prot = COAP_PROTO_WS \<or> prot = COAP_PROTO_WSS then 0
                       else used_size pdu - e_token_length pdu);
            if len \<le> 12 then do {
              c_assert (max_hdr_size pdu \<ge> 2);
              pdu \<leftarrow> hdr_store pdu 2 (push_bit 4 (word_of_nat len) OR tkl);
              pdu \<leftarrow> hdr_store pdu 1 (pdu_code pdu);
              Some (2, pdu\<lparr>hdr_size := 2\<rparr>)
            }
            else if len \<le> 268 then do {
              c_assert (max_hdr_size pdu \<ge> 3);
              pdu \<leftarrow> hdr_store pdu 3 (push_bit 4 13 OR tkl);
              pdu \<leftarrow> hdr_store pdu 2 (word_of_nat (len - 13));
              pdu \<leftarrow> hdr_store pdu 1 (pdu_code pdu);
              Some (3, pdu\<lparr>hdr_size := 3\<rparr>)
            }
            else if len \<le> 65804 then do {
              c_assert (max_hdr_size pdu \<ge> 4);
              pdu \<leftarrow> hdr_store pdu 4 (push_bit 4 14 OR tkl);
              pdu \<leftarrow> hdr_store pdu 3 (word_of_nat ((len - 269) div 256));
              pdu \<leftarrow> hdr_store pdu 2 (word_of_nat (len - 269));
              pdu \<leftarrow> hdr_store pdu 1 (pdu_code pdu);
              Some (4, pdu\<lparr>hdr_size := 4\<rparr>)
            }
            else do {
              c_assert (max_hdr_size pdu \<ge> 6);
              pdu \<leftarrow> hdr_store pdu 6 (push_bit 4 15 OR tkl);
              pdu \<leftarrow> hdr_store pdu 5 (word_of_nat ((len - 65805) div 2 ^ 24));
              pdu \<leftarrow> hdr_store pdu 4 (word_of_nat ((len - 65805) div 2 ^ 16));
              pdu \<leftarrow> hdr_store pdu 3 (word_of_nat ((len - 65805) div 2 ^ 8));
              pdu \<leftarrow> hdr_store pdu 2 (word_of_nat (len - 65805));
              pdu \<leftarrow> hdr_store pdu 1 (pdu_code pdu);
              Some (6, pdu\<lparr>hdr_size := 6\<rparr>)
            }
          }
          else Some (hdr_size pdu, pdu))"

section \<open>Reading the header\<close>

definition coap_pdu_parse_header_size :: "coap_proto \<Rightarrow> bytes \<Rightarrow> nat option" where
  "coap_pdu_parse_header_size prot d =
     (if prot = COAP_PROTO_TCP \<or> prot = COAP_PROTO_TLS then do {
        b \<leftarrow> c_load d 0;
        let len = unat (drop_bit 4 b);
        Some (if len < 13 then 2 else if len = 13 then 3 else if len = 14 then 4 else 6)
      }
      else if prot = COAP_PROTO_WS \<or> prot = COAP_PROTO_WSS then Some 2
      else if prot = COAP_PROTO_UDP \<or> prot = COAP_PROTO_DTLS then Some 4
      else Some 0)"

text \<open>The size of a message on a stream; \<open>start\<close> is \<open>token_start\<close>, which may stay null.\<close>

definition coap_pdu_parse_size :: "coap_proto \<Rightarrow> bytes \<Rightarrow> nat \<Rightarrow> nat option" where
  "coap_pdu_parse_size prot d len = do {
     c_assert (COAP_PROTO_RELIABLE prot);
     hs \<leftarrow> coap_pdu_parse_header_size prot d;
     c_assert (hs \<le> len);
     if (prot = COAP_PROTO_TCP \<or> prot = COAP_PROTO_TLS) \<and> len \<ge> 1 then do {
       b \<leftarrow> c_load d 0;
       let n = unat (drop_bit 4 b);
       let tkl = unat (b AND 0x0F);
       (total, start) \<leftarrow>
         (if n < 13 then Some (n, Some 2)
          else if len \<ge> 2 then
            (if n = 13 then do {
               x \<leftarrow> c_load d 1;
               Some (unat x + 13, Some 3)
             }
             else if len \<ge> 3 then
               (if n = 14 then do {
                  x \<leftarrow> c_load d 1;
                  y \<leftarrow> c_load d 2;
                  Some (unat x * 256 + unat y + 269, Some 4)
                }
                else if len \<ge> 5 then do {
                  w \<leftarrow> c_load d 1;
                  x \<leftarrow> c_load d 2;
                  y \<leftarrow> c_load d 3;
                  z \<leftarrow> c_load d 4;
                  Some ((unat w * 2 ^ 24 + unat x * 2 ^ 16 + unat y * 2 ^ 8 + unat z + 65805) mod 2 ^ 32, Some 6)
                }
                else Some (0, None))
             else Some (0, None))
          else Some (0, None));
       case start of
         None \<Rightarrow> Some total
       | Some s \<Rightarrow>
           if tkl < 13 then Some (total + tkl)
           else if tkl = 13 then do {
             x \<leftarrow> c_load d s;
             Some (total + unat x + COAP_TOKEN_EXT_1B_BIAS + 1)
           }
           else if tkl = 14 then do {
             x \<leftarrow> c_load d s;
             y \<leftarrow> c_load d (s + 1);
             Some (total + unat x * 256 + unat y + COAP_TOKEN_EXT_2B_BIAS + 2)
           }
           else Some total
     }
     else Some 0
   }"

text \<open>\<open>hdr[i]\<close>, with \<open>hdr = pdu->token - pdu->hdr_size\<close>.\<close>

definition hdr_load :: "coap_pdu \<Rightarrow> nat \<Rightarrow> u8 option" where
  "hdr_load pdu i = do {
     c_assert (hdr_size pdu \<le> max_hdr_size pdu);
     c_load (hdr pdu) (max_hdr_size pdu - hdr_size pdu + i)
   }"

text \<open>Type, code and message id; \<open>Rejected\<close> for a wrong version or protocol.\<close>

definition parse_header_fields :: "coap_pdu \<Rightarrow> coap_proto \<Rightarrow> coap_pdu attempt option" where
  "parse_header_fields pdu prot =
     (if prot = COAP_PROTO_UDP \<or> prot = COAP_PROTO_DTLS then do {
        c_assert (hdr_size pdu = 4);
        b0 \<leftarrow> hdr_load pdu 0;
        if drop_bit 6 b0 \<noteq> 1 then Some Rejected
        else do {
          b1 \<leftarrow> hdr_load pdu 1;
          b2 \<leftarrow> hdr_load pdu 2;
          b3 \<leftarrow> hdr_load pdu 3;
          Some (Accepted (pdu\<lparr>pdu_type := drop_bit 4 b0 AND 0x03, pdu_code := b1,
                               pdu_mid := push_bit 8 (ucast b2) OR ucast b3\<rparr>))
        }
      }
      else if prot = COAP_PROTO_TCP \<or> prot = COAP_PROTO_TLS then do {
        c_assert (2 \<le> hdr_size pdu \<and> hdr_size pdu \<le> 6);
        code \<leftarrow> hdr_load pdu (hdr_size pdu - 1);
        Some (Accepted (pdu\<lparr>pdu_type := 0, pdu_code := code, pdu_mid := 0\<rparr>))
      }
      else if prot = COAP_PROTO_WS \<or> prot = COAP_PROTO_WSS then do {
        c_assert (hdr_size pdu = 2);
        code \<leftarrow> hdr_load pdu (hdr_size pdu - 1);
        Some (Accepted (pdu\<lparr>pdu_type := 0, pdu_code := code, pdu_mid := 0\<rparr>))
      }
      else Some Rejected)"

definition coap_pdu_parse_header :: "coap_pdu \<Rightarrow> coap_proto \<Rightarrow> (bool \<times> coap_pdu) option" where
  "coap_pdu_parse_header pdu prot = do {
     r \<leftarrow> parse_header_fields pdu prot;
     case r of
       Rejected \<Rightarrow> Some (False, pdu)
     | Accepted pdu \<Rightarrow> do {
         b0 \<leftarrow> hdr_load pdu 0;
         let tkl = unat (b0 AND 0x0F);
         pdu \<leftarrow>
           (if tkl < 13 then Some (pdu\<lparr>e_token_length := tkl, token_length := tkl, token_s := 0\<rparr>)
            else if tkl = 13 then do {
              x \<leftarrow> c_load (mem pdu) 0;
              let n = unat x + COAP_TOKEN_EXT_1B_BIAS + 1;
              Some (pdu\<lparr>e_token_length := n, token_length := n - 1, token_s := 1\<rparr>)
            }
            else if tkl = 14 then do {
              x \<leftarrow> c_load (mem pdu) 0;
              y \<leftarrow> c_load (mem pdu) 1;
              let n = unat x * 256 + unat y + COAP_TOKEN_EXT_2B_BIAS + 2;
              Some (pdu\<lparr>e_token_length := n, token_length := n - 2, token_s := 2\<rparr>)
            }
            else Some pdu);
         if e_token_length pdu > alloc_size pdu \<or> tkl = 15
         then Some (False, pdu\<lparr>e_token_length := 0, token_length := 0\<rparr>)
         else Some (True, pdu)
       }
   }"

section \<open>Checking the options\<close>

definition COAP_MAX_OPT :: nat where "COAP_MAX_OPT = 65535"

text \<open>On acceptance: the size of the option, and pointer, remaining length and number behind it.\<close>

definition next_option_safe :: "bytes \<Rightarrow> nat \<Rightarrow> nat \<Rightarrow> u16 \<Rightarrow> (nat \<times> nat \<times> nat \<times> u16) attempt option" where
  "next_option_safe m opt len number = do {
     r \<leftarrow> coap_opt_parse m opt len;
     or_return0 r (\<lambda>(optsize, option). do {
       c_assert (optsize \<le> len);
       Some (if unat number + unat (delta option) > COAP_MAX_OPT then Rejected
             else Accepted (optsize, opt + optsize, len - optsize, number + delta option))
     })
   }"

text \<open>The bounds \<open>lo \<le> len \<and> len \<le> hi\<close> of the option numbers with a rule.\<close>

definition base_rules :: "(u16 \<times> nat \<times> nat) list" where
  "base_rules =
     [(1, 0, 8), (3, 1, 255), (4, 1, 8), (5, 0, 0), (6, 0, 3), (7, 0, 2), (8, 0, 255), (9, 0, 255),
      (11, 0, 255), (12, 0, 2), (14, 0, 4), (15, 1, 255), (16, 1, 1), (17, 0, 2), (20, 0, 255),
      (23, 0, 3), (27, 0, 3), (28, 0, 4), (35, 1, 1034), (39, 1, 255), (60, 0, 4), (252, 0, 40),
      (258, 0, 1), (292, 0, 8)]"

definition coap_pdu_parse_opt_base :: "u16 \<Rightarrow> nat \<Rightarrow> bool" where
  "coap_pdu_parse_opt_base number len =
     (case map_of base_rules number of None \<Rightarrow> True | Some (lo, hi) \<Rightarrow> lo \<le> len \<and> len \<le> hi)"

text \<open>Signalling messages: for each code the rules of its options; an odd (critical) number without a rule is bad.\<close>

definition csm_rules :: "(u8 \<times> (u16 \<times> nat \<times> nat) list) list" where
  "csm_rules =
     [(225, [(2, 0, 4), (4, 0, 0), (6, 0, 3)]), (226, [(2, 0, 0)]), (227, [(2, 0, 0)]),
      (228, [(2, 1, 255), (4, 0, 3)]), (229, [(2, 0, 2)])]"

definition coap_pdu_parse_opt_csm :: "u8 \<Rightarrow> u16 \<Rightarrow> nat \<Rightarrow> bool" where
  "coap_pdu_parse_opt_csm code number len =
     (case map_of csm_rules code of
        None \<Rightarrow> True
      | Some rules \<Rightarrow>
          (case map_of rules number of
             None \<Rightarrow> number AND 1 = 0
           | Some (lo, hi) \<Rightarrow> lo \<le> len \<and> len \<le> hi))"

definition COAP_PDU_IS_SIGNALING :: "u8 \<Rightarrow> bool" where
  "COAP_PDU_IS_SIGNALING code \<longleftrightarrow> code \<ge> 224"

text \<open>The length reaches both checks as a \<open>uint16_t\<close>.\<close>

definition length_ok :: "u8 \<Rightarrow> u16 \<Rightarrow> nat \<Rightarrow> bool" where
  "length_ok code number len =
     (if COAP_PDU_IS_SIGNALING code then coap_pdu_parse_opt_csm code number (len mod 65536)
      else coap_pdu_parse_opt_base number (len mod 65536))"

text \<open>The checking loop of \<open>coap_pdu_parse_opt\<close>; the result is (pointer, length, number, good).\<close>

partial_function (option) check_options ::
  "bytes \<Rightarrow> u8 \<Rightarrow> nat \<Rightarrow> nat \<Rightarrow> u16 \<Rightarrow> bool \<Rightarrow> (nat \<times> nat \<times> u16 \<times> bool) option" where
  "check_options m code opt len number good = do {
     go \<leftarrow> (if len > 0 then do { b \<leftarrow> c_load m opt; Some (b \<noteq> COAP_PAYLOAD_START) } else Some False);
     if \<not> go then Some (opt, len, number, good)
     else do {
       r \<leftarrow> next_option_safe m opt len number;
       case r of
         Rejected \<Rightarrow> Some (opt, len, number, False)
       | Accepted (optsize, opt', len', number') \<Rightarrow> do {
           n \<leftarrow> coap_opt_length m (opt' - optsize);
           check_options m code opt' len' number' (good \<and> length_ok code number' n)
         }
     }
   }"

section \<open>The dump of a bad message\<close>

text \<open>
  The output buffer of the dump: the characters written and the space left. Both writers
  leave room for the terminating null byte.
\<close>

definition COAP_DEBUG_BUF_SIZE :: nat where "COAP_DEBUG_BUF_SIZE = 8 + 1024 * 2"

definition write_prefix :: "bytes \<times> nat \<Rightarrow> bytes \<Rightarrow> bool \<times> bytes \<times> nat" where
  "write_prefix out prf = (case out of (ob, len) \<Rightarrow>
     if len < length prf + 1 then (False, ob, len) else (True, ob @ prf, len - length prf))"

definition hex_digit :: "u8 \<Rightarrow> u8" where
  "hex_digit c = (if c < 10 then 48 + c else 97 + (c - 10))"

definition write_char :: "bytes \<times> nat \<Rightarrow> u8 \<Rightarrow> bool \<Rightarrow> bool \<times> bytes \<times> nat" where
  "write_char out c printable = (case out of (ob, len) \<Rightarrow>
     if len < 2 + 1 then (False, ob, len)
     else (True, ob @ (if \<not> printable then [hex_digit (drop_bit 4 (c AND 0xF0)), hex_digit (c AND 0x0F)]
                       else [if 32 \<le> c \<and> c < 127 then c else 46, 32]), len - 2))"

text \<open>\<open>ok = ok && write(...)\<close>\<close>

definition write_if_ok :: "(bytes \<times> nat \<Rightarrow> bool \<times> bytes \<times> nat) \<Rightarrow> bool \<times> bytes \<times> nat \<Rightarrow> bool \<times> bytes \<times> nat" where
  "write_if_ok w = (\<lambda>(ok, out). if ok then w out else (False, out))"

definition dump_bytes :: "bytes \<Rightarrow> nat \<Rightarrow> nat \<Rightarrow> bool \<Rightarrow> bool \<times> bytes \<times> nat \<Rightarrow> (bool \<times> bytes \<times> nat) option" where
  "dump_bytes m from to printable =
     m_for (\<lambda>i st. do { c \<leftarrow> c_load m i; Some (write_if_ok (\<lambda>out. write_char out c printable) st) }) [from..<to]"

partial_function (option) dump_options ::
  "bytes \<Rightarrow> u8 \<Rightarrow> nat \<Rightarrow> bool \<Rightarrow> nat \<Rightarrow> nat \<Rightarrow> u16 \<Rightarrow> bool \<times> bytes \<times> nat \<Rightarrow>
    (nat \<times> nat \<times> u16 \<times> bool \<times> bytes \<times> nat) option" where
  "dump_options m code fin printable opt len number st = do {
     go \<leftarrow> (if len > 0 then do { b \<leftarrow> c_load m opt; Some (b \<noteq> COAP_PAYLOAD_START) } else Some False);
     if \<not> go then Some (opt, len, number, st)
     else do {
       r \<leftarrow> next_option_safe m opt len number;
       case r of
         Rejected \<Rightarrow> do {
           st \<leftarrow> dump_bytes m opt fin printable (write_if_ok (\<lambda>out. write_prefix out [42]) st);
           dump_options m code fin printable fin 0 number st
         }
       | Accepted (optsize, opt', len', number') \<Rightarrow> do {
           n \<leftarrow> coap_opt_length m (opt' - optsize);
           let sep = (if length_ok code number' n then 32 else 42);
           st \<leftarrow> dump_bytes m opt opt' printable (write_if_ok (\<lambda>out. write_prefix out [sep]) st);
           dump_options m code fin printable opt' len' number' st
         }
     }
   }"

text \<open>One row of the dump, with the terminating null: pointer, length and number after it, and the row.\<close>

definition dump_row :: "coap_pdu \<Rightarrow> bool \<Rightarrow> (nat \<times> nat \<times> u16 \<times> bytes) option" where
  "dump_row pdu printable = do {
     (opt, len, number, ok, out) \<leftarrow>
       dump_options (mem pdu) (pdu_code pdu) (used_size pdu) printable (e_token_length pdu)
         (used_size pdu - e_token_length pdu) 0 (write_prefix ([], COAP_DEBUG_BUF_SIZE) [79, 58, 32]);
     mark \<leftarrow> (if len \<noteq> 0 then do { b \<leftarrow> c_load (mem pdu) opt; Some (b = COAP_PAYLOAD_START) } else Some False);
     let (ok, ob, left) = (if mark then write_if_ok (\<lambda>out. write_char out COAP_PAYLOAD_START printable) (ok, out)
                           else (ok, out));
     c_assert (left > 0);
     Some (opt, len, number, ob @ [0])
   }"

section \<open>Parsing a message\<close>

text \<open>From \<open>if (length > 0)\<close> on: the payload marker must be followed by a payload.\<close>

definition parse_payload :: "coap_pdu \<Rightarrow> nat \<Rightarrow> nat \<Rightarrow> bool \<Rightarrow> (bool \<times> coap_pdu) option" where
  "parse_payload pdu opt len good =
     (if len > 0 then do {
        b \<leftarrow> c_load (mem pdu) opt;
        c_assert (b = COAP_PAYLOAD_START);
        if len - 1 = 0 then Some (False, pdu) else Some (good, pdu\<lparr>data := Some (opt + 1)\<rparr>)
      }
      else Some (good, pdu\<lparr>data := None\<rparr>))"

definition coap_pdu_parse_opt :: "coap_pdu \<Rightarrow> (bool \<times> coap_pdu) option" where
  "coap_pdu_parse_opt pdu =
     (if pdu_code pdu = 0 \<and> (used_size pdu \<noteq> 0 \<or> e_token_length pdu \<noteq> 0) then Some (False, pdu)
      else if e_token_length pdu > used_size pdu then Some (False, pdu)
      else
        let pdu = pdu\<lparr>max_opt := 0\<rparr> in
        if pdu_code pdu = 0 then Some (True, pdu\<lparr>used_size := 0, data := None\<rparr>)
        else do {
          (opt, len, number, good) \<leftarrow>
            check_options (mem pdu) (pdu_code pdu) (e_token_length pdu) (used_size pdu - e_token_length pdu) 0 True;
          (opt, len, number) \<leftarrow>
            (if good then Some (opt, len, number)
             else do {
               _ \<leftarrow> dump_row pdu False;
               (opt, len, number, _) \<leftarrow> dump_row pdu True;
               Some (opt, len, number)
             });
          parse_payload (pdu\<lparr>max_opt := number\<rparr>) opt len good
        })"

definition coap_pdu_parse :: "heap \<Rightarrow> coap_proto \<Rightarrow> bytes \<Rightarrow> nat \<Rightarrow> coap_pdu \<Rightarrow> (bool \<times> coap_pdu) option" where
  "coap_pdu_parse h prot d len pdu =
     (if len = 0 then Some (False, pdu)
      else do {
        hs \<leftarrow> coap_pdu_parse_header_size prot d;
        if hs = 0 \<or> hs > len then Some (False, pdu)
        else if hs > max_hdr_size pdu then Some (False, pdu)
        else do {
          (ok, pdu) \<leftarrow> coap_pdu_resize h pdu (len - hs);
          if \<not> ok then Some (False, pdu)
          else do {
            front \<leftarrow> c_slice d 0 hs;
            rest \<leftarrow> c_slice d hs (len - hs);
            b \<leftarrow> c_blit (hdr pdu) (max_hdr_size pdu - hs) front;
            m \<leftarrow> c_blit (mem pdu) 0 rest;
            let pdu = pdu\<lparr>hdr := b, mem := m, hdr_size := hs, used_size := len - hs\<rparr>;
            (ok, pdu) \<leftarrow> coap_pdu_parse_header pdu prot;
            if \<not> ok then Some (False, pdu) else coap_pdu_parse_opt pdu
          }
        }
      })"

section \<open>Response phrases\<close>

definition COAP_RESPONSE_CODE :: "nat \<Rightarrow> u8" where
  "COAP_RESPONSE_CODE n = push_bit 5 (word_of_nat (n div 100)) OR word_of_nat (n mod 100)"

definition coap_error :: "(u8 \<times> string) list" where
  "coap_error = map (\<lambda>(n, s). (COAP_RESPONSE_CODE n, s))
     [(201, ''Created''), (202, ''Deleted''), (203, ''Valid''), (204, ''Changed''), (205, ''Content''),
      (231, ''Continue''), (400, ''Bad Request''), (401, ''Unauthorized''), (402, ''Bad Option''),
      (403, ''Forbidden''), (404, ''Not Found''), (405, ''Method Not Allowed''), (406, ''Not Acceptable''),
      (408, ''Request Entity Incomplete''), (409, ''Conflict''), (412, ''Precondition Failed''),
      (413, ''Request Entity Too Large''), (415, ''Unsupported Content-Format''), (422, ''Unprocessable''),
      (429, ''Too Many Requests''), (500, ''Internal Server Error''), (501, ''Not Implemented''),
      (502, ''Bad Gateway''), (503, ''Service Unavailable''), (504, ''Gateway Timeout''),
      (505, ''Proxying Not Supported''), (508, ''Hop Limit Reached'')]"

definition coap_response_phrase :: "u8 \<Rightarrow> string option" where
  "coap_response_phrase code = map_of coap_error code"

end
