(* ===== verification/Coap_Message.thy ===== *)
theory Coap_Message
  imports Coap_Wire
begin

unbundle bit_operations_syntax

text \<open>
  What a message object means: a token, a list of options (number and value) in increasing order
  of their numbers, and a payload. \<open>represents\<close> relates a \<open>coap_pdu\<close> to this abstract message;
  the lemmas show what each operation of \<open>coap_pdu.c\<close> and of the option iterator does to it.
\<close>

section \<open>The abstract message\<close>

type_synonym options = "(nat \<times> bytes) list"

fun encode_opts :: "nat \<Rightarrow> options \<Rightarrow> bytes" where
  "encode_opts prev [] = []"
| "encode_opts prev ((k, v) # os) = opt_header (k - prev) (length v) @ v @ encode_opts k os"

fun options_ok :: "nat \<Rightarrow> options \<Rightarrow> bool" where
  "options_ok prev [] = True"
| "options_ok prev ((k, v) # os) \<longleftrightarrow> prev \<le> k \<and> k < 65536 \<and> length v < 65805 \<and> options_ok k os"

definition last_number :: "nat \<Rightarrow> options \<Rightarrow> nat" where
  "last_number prev os = (if os = [] then prev else fst (last os))"

definition payload_bytes :: "bytes \<Rightarrow> bytes" where
  "payload_bytes pay = (if pay = [] then [] else COAP_PAYLOAD_START # pay)"

definition token_bytes :: "bytes \<Rightarrow> bytes" where
  "token_bytes tok = ext_bytes (length tok) @ tok"

definition msg_bytes :: "bytes \<Rightarrow> options \<Rightarrow> bytes \<Rightarrow> bytes" where
  "msg_bytes tok os pay = token_bytes tok @ encode_opts 0 os @ payload_bytes pay"

lemma last_number_simps [simp]:
  "last_number prev [] = prev" "last_number prev ((k, v) # os) = last_number k os"
  "last_number prev (os @ (k, v) # os') = last_number k os'"
  by (auto simp: last_number_def)

lemma encode_opts_append:
  "encode_opts prev (os @ os') = encode_opts prev os @ encode_opts (last_number prev os) os'"
  by (induction prev os rule: encode_opts.induct) auto

lemma options_ok_append:
  "options_ok prev (os @ os') \<longleftrightarrow> options_ok prev os \<and> options_ok (last_number prev os) os'"
  by (induction prev os rule: options_ok.induct) auto

lemma options_ok_last: "options_ok prev os \<Longrightarrow> prev < 65536 \<Longrightarrow> prev \<le> last_number prev os \<and> last_number prev os < 65536"
  by (induction prev os rule: options_ok.induct) auto

lemma options_ok_bounds:
  "options_ok prev os \<Longrightarrow> (k, v) \<in> set os \<Longrightarrow> prev \<le> k \<and> k \<le> last_number prev os"
proof (induction prev os arbitrary: k v rule: options_ok.induct)
  case (2 prev k' v' os)
  have "k' \<le> last_number k' os" using 2 options_ok_last [of k' os] by auto
  with 2 show ?case by fastforce
qed simp

text \<open>The first byte of an option is never the payload marker.\<close>

lemma opt_header_first:
  "\<exists>b bs. opt_header d n = b # bs \<and> b \<noteq> COAP_PAYLOAD_START"
proof -
  have "word_of_nat (16 * ext_nibble d + ext_nibble n) \<noteq> COAP_PAYLOAD_START"
    using ext_nibble_less [of d] ext_nibble_less [of n] unat_header_byte [of d n]
    by (auto simp: COAP_PAYLOAD_START_def)
  then show ?thesis by (simp add: opt_header_def)
qed

section \<open>Representation\<close>

definition represents :: "coap_pdu \<Rightarrow> bytes \<Rightarrow> options \<Rightarrow> bytes \<Rightarrow> bool" where
  "represents pdu tok os pay \<longleftrightarrow>
     length tok \<le> COAP_TOKEN_EXT_MAX \<and> options_ok 0 os \<and>
     (\<exists>slack. mem pdu = msg_bytes tok os pay @ slack) \<and>
     used_size pdu = length (msg_bytes tok os pay) \<and>
     used_size pdu \<le> alloc_size pdu \<and> alloc_size pdu \<le> length (mem pdu) \<and>
     token_length pdu = length tok \<and> token_s pdu = length (ext_bytes (length tok)) \<and>
     e_token_length pdu = length (token_bytes tok) \<and>
     max_opt pdu = word_of_nat (last_number 0 os) \<and>
     data pdu = (if pay = [] then None else Some (length (token_bytes tok @ encode_opts 0 os) + 1))"

text \<open>The buffer may grow to \<open>n\<close> bytes: within the session's limit, and memory is available.\<close>

definition can_grow :: "heap \<Rightarrow> coap_pdu \<Rightarrow> nat \<Rightarrow> bool" where
  "can_grow h pdu n \<longleftrightarrow> (max_size pdu = 0 \<or> n \<le> max_size pdu) \<and> (\<forall>k. grow_ok h k)"

definition sizes_ok :: "coap_pdu \<Rightarrow> bool" where
  "sizes_ok pdu \<longleftrightarrow> used_size pdu \<le> alloc_size pdu \<and> alloc_size pdu \<le> length (mem pdu) \<and> data pdu \<noteq> Some 0"

lemma represents_sizes_ok: "represents pdu tok os pay \<Longrightarrow> sizes_ok pdu"
  by (auto simp: represents_def sizes_ok_def)

text \<open>A step that changes only the size of the buffer (and recomputes \<open>token_s\<close>).\<close>

definition regrown :: "coap_pdu \<Rightarrow> coap_pdu \<Rightarrow> bool" where
  "regrown pdu pdu' \<longleftrightarrow>
     pdu' = pdu\<lparr>mem := mem pdu', alloc_size := alloc_size pdu', token_s := token_s pdu'\<rparr> \<and>
     (token_s pdu' = token_s pdu \<or> token_s pdu' = length (ext_bytes (token_length pdu))) \<and>
     take (used_size pdu) (mem pdu') = take (used_size pdu) (mem pdu) \<and>
     used_size pdu \<le> alloc_size pdu' \<and> alloc_size pdu' \<le> length (mem pdu')"

lemma regrownE:
  assumes "regrown pdu pdu'"
  obtains m a t where "pdu' = pdu\<lparr>mem := m, alloc_size := a, token_s := t\<rparr>"
    "t = token_s pdu \<or> t = length (ext_bytes (token_length pdu))"
    "take (used_size pdu) m = take (used_size pdu) (mem pdu)" "used_size pdu \<le> a" "a \<le> length m"
  using assms that [where m = "mem pdu'" and a = "alloc_size pdu'" and t = "token_s pdu'"] unfolding regrown_def by blast

lemma regrown_same:
  assumes "regrown pdu pdu'"
  shows "used_size pdu' = used_size pdu" "data pdu' = data pdu" "max_opt pdu' = max_opt pdu"
    "e_token_length pdu' = e_token_length pdu" "max_size pdu' = max_size pdu" "pdu_code pdu' = pdu_code pdu"
    "pdu_type pdu' = pdu_type pdu" "pdu_mid pdu' = pdu_mid pdu" "hdr pdu' = hdr pdu"
    "max_hdr_size pdu' = max_hdr_size pdu"
  by (rule regrownE [OF assms], simp)+

lemma regrown_refl: "sizes_ok pdu \<Longrightarrow> regrown pdu pdu"
  by (simp add: regrown_def sizes_ok_def)

lemma regrown_represents:
  assumes "represents pdu tok os pay" "regrown pdu pdu'"
  shows "represents pdu' tok os pay"
proof -
  obtain m a t where pdu': "pdu' = pdu\<lparr>mem := m, alloc_size := a, token_s := t\<rparr>"
    and "t = token_s pdu \<or> t = length (ext_bytes (token_length pdu))"
    and m: "take (used_size pdu) m = take (used_size pdu) (mem pdu)" "used_size pdu \<le> a" "a \<le> length m"
    using regrownE [OF assms(2)] .
  then have t: "t = length (ext_bytes (length tok))"
    using assms(1) by (auto simp: represents_def)
  have "take (used_size pdu) m = msg_bytes tok os pay"
    using m assms(1) by (auto simp: represents_def)
  then have "m = msg_bytes tok os pay @ drop (used_size pdu) m"
    by (metis append_take_drop_id)
  then show ?thesis
    using assms(1) m t unfolding represents_def pdu' by auto
qed

lemma represents_mem:
  assumes "represents pdu tok os pay"
  obtains slack where "mem pdu = token_bytes tok @ encode_opts 0 os @ payload_bytes pay @ slack"
    "used_size pdu = length (token_bytes tok) + length (encode_opts 0 os) + length (payload_bytes pay)"
    "alloc_size pdu \<le> length (mem pdu)"
  using assms that by (auto simp: represents_def msg_bytes_def)

section \<open>Growth\<close>

text \<open>The doubling loop ends for every size up to 2^31: below it the 32-bit product does not wrap.\<close>

lemma double_size_ends:
  fixes s n :: nat
  assumes "0 < s" "s < 2 ^ 32" "n \<le> 2 ^ 31"
  shows "\<exists>r. c_while (\<lambda>k. n > k) (\<lambda>k. Some (k * 2 mod 2 ^ 32)) s = Some r \<and> n \<le> r"
proof -
  have "\<exists>r. c_while (\<lambda>k. n > k) (\<lambda>k. Some (k * 2 mod 2 ^ 32)) s = Some r \<and> 0 < r \<and> \<not> n > r"
  proof (rule c_while_rule [where I = "\<lambda>k. 0 < k" and m = "\<lambda>k. n - k"])
    fix k assume "0 < k" "n > k"
    then show "\<exists>k'. Some (k * 2 mod 2 ^ 32) = Some k' \<and> 0 < k' \<and> n - k' < n - k"
      using assms(3) by simp
  qed (rule assms(1))
  then show ?thesis by (auto simp: not_less)
qed

lemma coap_pdu_resize_eq:
  assumes "sizes_ok pdu" "used_size pdu \<le> n"
  shows "\<exists>pdu'. coap_pdu_resize h pdu n = Some (n \<le> alloc_size pdu \<or>
      (max_size pdu = 0 \<or> n \<le> max_size pdu) \<and> grow_ok h (n + max_hdr_size pdu), pdu') \<and>
    (if n \<le> alloc_size pdu \<or> (max_size pdu = 0 \<or> n \<le> max_size pdu) \<and> grow_ok h (n + max_hdr_size pdu)
     then regrown pdu pdu' \<and> alloc_size pdu' = n else pdu' = pdu)"
proof (cases "alloc_size pdu < n")
  case True
  let ?ok = "(max_size pdu = 0 \<or> n \<le> max_size pdu) \<and> grow_ok h (n + max_hdr_size pdu)"
  let ?new = "pdu\<lparr>mem := take n (mem pdu @ map (junk h) [0..<n]),
    token_s := length (ext_bytes (token_length pdu)), alloc_size := n\<rparr>"
  have eq: "pdu\<lparr>mem := m, data := data pdu, token_s := (if token_length pdu < COAP_TOKEN_EXT_1B_BIAS then 0
       else if token_length pdu < COAP_TOKEN_EXT_2B_BIAS then 1 else 2), alloc_size := n\<rparr> =
     pdu\<lparr>mem := m, token_s := length (ext_bytes (token_length pdu)), alloc_size := n\<rparr>" for m
    by (simp add: length_ext_bytes coap_const_defs)
  have "data pdu = None \<or> (\<exists>p. data pdu = Some p \<and> p > 0)"
    using assms(1) by (cases "data pdu") (auto simp: sizes_ok_def)
  then have "coap_pdu_resize h pdu n = Some (if ?ok then (True, ?new) else (False, pdu))"
  proof
    assume none: "data pdu = None"
    show ?thesis using True eq unfolding coap_pdu_resize_def none by (simp add: not_less)
  next
    assume "\<exists>p. data pdu = Some p \<and> p > 0"
    then obtain p where some: "data pdu = Some p" "p > 0" by blast
    show ?thesis using True eq some unfolding coap_pdu_resize_def some(1) by (simp add: not_less)
  qed
  moreover have "regrown pdu ?new"
    using assms True by (simp add: regrown_def min_def sizes_ok_def)
  ultimately show ?thesis using True by (cases ?ok) auto
next
  case False
  then have "coap_pdu_resize h pdu n = Some (True, pdu\<lparr>alloc_size := n\<rparr>)"
    by (simp add: coap_pdu_resize_def)
  with False assms show ?thesis by (auto simp: regrown_def sizes_ok_def)
qed

lemma coap_pdu_check_resize_regrown:
  assumes "sizes_ok pdu" "n \<le> 2 ^ 31"
  shows "\<exists>ok pdu'. coap_pdu_check_resize h pdu n = Some (ok, pdu') \<and> regrown pdu pdu' \<and>
    (ok \<longrightarrow> n \<le> alloc_size pdu') \<and> (can_grow h pdu n \<longrightarrow> ok)"
proof (cases "n > alloc_size pdu")
  case True
  have sizes: "used_size pdu \<le> alloc_size pdu" "regrown pdu pdu"
    using assms(1) regrown_refl by (auto simp: sizes_ok_def)
  have "max 256 (alloc_size pdu * 2 mod 2 ^ 32) < 2 ^ 32" by simp
  then obtain r where r: "double_size n (max 256 (alloc_size pdu * 2 mod 2 ^ 32)) = Some r" "n \<le> r"
    using double_size_ends [OF _ _ assms(2)] unfolding double_size_def by (metis less_max_iff_disj zero_less_numeral)
  consider (limit) "max_size pdu \<noteq> 0" "r > max_size pdu" "max_size pdu < n"
    | (max) "max_size pdu \<noteq> 0" "r > max_size pdu" "n \<le> max_size pdu"
    | (double) "max_size pdu = 0 \<or> r \<le> max_size pdu" by linarith
  then show ?thesis
  proof cases
    case limit
    have "regrown pdu pdu" using regrown_refl [OF assms(1)] .
    moreover have "coap_pdu_check_resize h pdu n = Some (False, pdu)"
      using limit True r by (simp add: coap_pdu_check_resize_def)
    ultimately show ?thesis using limit by (simp add: can_grow_def ex_bool_eq)
  next
    case max
    have "alloc_size pdu < max_size pdu" using True max by simp
    moreover have "coap_pdu_check_resize h pdu n = coap_pdu_resize h pdu (max_size pdu)"
      using max True r by (simp add: coap_pdu_check_resize_def)
    ultimately show ?thesis
      using coap_pdu_resize_eq [OF assms(1), of "max_size pdu" h] sizes max by (auto simp: can_grow_def ex_bool_eq split: if_splits)
  next
    case double
    have "alloc_size pdu < r" using True r by simp
    moreover have "coap_pdu_check_resize h pdu n = coap_pdu_resize h pdu r"
      using double True r by (auto simp: coap_pdu_check_resize_def)
    ultimately show ?thesis
      using coap_pdu_resize_eq [OF assms(1), of r h] sizes double r(2) by (auto simp: can_grow_def ex_bool_eq split: if_splits)
  qed
next
  case False
  have "regrown pdu pdu" using regrown_refl [OF assms(1)] .
  with False show ?thesis by (auto simp: coap_pdu_check_resize_def)
qed

section \<open>Token and payload\<close>

lemma split_list_at:
  assumes "n \<le> length m"
  obtains xs ys where "m = xs @ ys" "length xs = n"
  using assms that [of "take n m" "drop n m"] by simp

lemma write_token_eq:
  assumes "length old = length (token_bytes tok)" "length tok \<le> COAP_TOKEN_EXT_MAX"
  shows "write_token (old @ rest) (length (ext_bytes (length tok))) (length tok) tok = Some (token_bytes tok @ rest)"
proof (cases "tok = []")
  case True
  then show ?thesis using assms by (simp add: write_token_def token_bytes_def ext_bytes_def)
next
  case False
  have "length (ext_bytes (length tok)) \<le> length old" using assms(1) by (simp add: token_bytes_def)
  then obtain e t where old: "old = e @ t" "length e = length (ext_bytes (length tok))" by (rule split_list_at)
  then have "length t = length tok" using assms(1) by (simp add: token_bytes_def)
  note old = old this
  have "(if length (ext_bytes (length tok)) = 0 then Some (old @ rest)
      else if length (ext_bytes (length tok)) = 1
           then c_store (old @ rest) 0 (word_of_nat (length tok - COAP_TOKEN_EXT_1B_BIAS))
           else do { m \<leftarrow> c_store (old @ rest) 0 (word_of_nat ((length tok - COAP_TOKEN_EXT_2B_BIAS) div 256));
                     c_store m 1 (word_of_nat (length tok - COAP_TOKEN_EXT_2B_BIAS)) })
      = Some (ext_bytes (length tok) @ t @ rest)"
    using old
    by (auto simp: ext_bytes_def coap_const_defs length_Suc_conv numeral_2_eq_2 split: if_splits)
  moreover have "c_blit (ext_bytes (length tok) @ t @ rest) (length (ext_bytes (length tok))) tok =
      Some (token_bytes tok @ rest)"
    using old by (simp add: c_blit_def token_bytes_def)
  ultimately show ?thesis
    using False by (simp add: write_token_def c_slice_def)
qed

lemma coap_add_token_represents:
  assumes "represents pdu [] [] []" "length tok \<le> COAP_TOKEN_EXT_MAX"
  shows "\<exists>ok pdu'. coap_add_token h pdu (length tok) tok = Some (ok, pdu') \<and>
    (ok \<longrightarrow> represents pdu' tok [] [] \<and>
       pdu' = pdu\<lparr>mem := mem pdu', alloc_size := alloc_size pdu', token_s := token_s pdu', token_length := length tok,
         e_token_length := length (token_bytes tok), used_size := length (token_bytes tok)\<rparr>) \<and>
    (can_grow h pdu (length (token_bytes tok)) \<longrightarrow> ok)"
proof -
  let ?n = "length (token_bytes tok)" and ?b = "length (ext_bytes (length tok))"
  let ?pdu = "pdu\<lparr>token_length := length tok\<rparr>"
  have pdu: "used_size pdu = 0" "data pdu = None" "max_opt pdu = 0" "sizes_ok ?pdu"
    using assms(1) represents_sizes_ok [OF assms(1)]
    by (simp_all add: represents_def msg_bytes_def token_bytes_def payload_bytes_def ext_bytes_def sizes_ok_def)
  have bias: "token_bias (length tok) = Accepted ?b" and n: "length tok + ?b = ?n"
    using assms(2) by (auto simp: token_bias_def length_ext_bytes token_bytes_def coap_const_defs)
  have "?n \<le> 2 ^ 31"
    using assms(2) by (simp add: token_bytes_def length_ext_bytes coap_const_defs)
  then obtain ok pdu1 where r: "coap_pdu_check_resize h ?pdu ?n = Some (ok, pdu1)" "regrown ?pdu pdu1"
    "ok \<longrightarrow> ?n \<le> alloc_size pdu1" "can_grow h ?pdu ?n \<longrightarrow> ok"
    using coap_pdu_check_resize_regrown [OF pdu(4)] by blast
  show ?thesis
  proof (cases ok)
    case False
    then show ?thesis using r bias n pdu by (simp add: coap_add_token_def can_grow_def ex_bool_eq)
  next
    case True
    obtain m a s where pdu1: "pdu1 = ?pdu\<lparr>mem := m, alloc_size := a, token_s := s\<rparr>" "a \<le> length m"
      using regrownE [OF r(2)] .
    moreover have a: "?n \<le> a" using r(3) True pdu1 by simp
    ultimately have "?n \<le> length m" by simp
    then obtain old rest where m: "m = old @ rest" "length old = ?n"
      by (rule split_list_at)
    have "represents (pdu1\<lparr>token_length := length tok, token_s := ?b, e_token_length := ?n,
        mem := token_bytes tok @ rest, max_opt := 0, used_size := ?n, data := None\<rparr>) tok [] []"
      using pdu1 m a assms(2)
      by (auto simp: represents_def msg_bytes_def payload_bytes_def)
    then show ?thesis
      using r(1) True bias n pdu write_token_eq [OF m(2) assms(2), of rest] m(1) pdu1(1)
      by (simp add: coap_add_token_def ex_bool_eq)
  qed
qed

lemma coap_add_data_represents:
  assumes "represents pdu tok os []" "pay \<noteq> []"
  shows "\<exists>ok pdu'. coap_add_data h pdu (length pay) pay = Some (ok, pdu') \<and>
    (ok \<longrightarrow> represents pdu' tok os pay \<and>
       pdu' = pdu\<lparr>mem := mem pdu', alloc_size := alloc_size pdu', token_s := token_s pdu',
         used_size := used_size pdu', data := data pdu'\<rparr>) \<and>
    (\<not> ok \<longrightarrow> pdu' = pdu) \<and>
    (ok \<longleftrightarrow> used_size pdu + length pay + 1 \<le> alloc_size pdu \<or>
        (max_size pdu = 0 \<or> used_size pdu + length pay + 1 \<le> max_size pdu) \<and>
        grow_ok h (used_size pdu + length pay + 1 + max_hdr_size pdu))"
proof -
  let ?n = "used_size pdu + length pay + 1"
  define ok where "ok \<longleftrightarrow> ?n \<le> alloc_size pdu \<or> (max_size pdu = 0 \<or> ?n \<le> max_size pdu) \<and> grow_ok h (?n + max_hdr_size pdu)"
  have "used_size pdu \<le> ?n" by simp
  then obtain pdu1 where r: "coap_pdu_resize h pdu ?n = Some (ok, pdu1)"
    and s: "if ok then regrown pdu pdu1 \<and> alloc_size pdu1 = ?n else pdu1 = pdu"
    using coap_pdu_resize_eq [OF represents_sizes_ok [OF assms(1)], of ?n h] unfolding ok_def by blast
  have d: "data pdu = None" using assms(1) by (simp add: represents_def)
  show ?thesis
  proof (cases ok)
    case False
    then have "coap_add_data h pdu (length pay) pay = Some (False, pdu)"
      using r s d assms(2) by (simp add: coap_add_data_def coap_add_data_after_def)
    with False show ?thesis unfolding ok_def [symmetric] by (simp add: ex_bool_eq)
  next
    case True
    have "regrown pdu pdu1" using s True by simp
    then obtain m1 a t where pdu1: "pdu1 = pdu\<lparr>mem := m1, alloc_size := a, token_s := t\<rparr>" "a \<le> length m1"
      by (rule regrownE)
    have rep: "represents pdu1 tok os []"
      using regrown_represents [OF assms(1)] s True by simp
    have u: "used_size pdu1 = used_size pdu" "data pdu1 = None" "alloc_size pdu1 = ?n" "?n \<le> length (mem pdu1)"
      using s True d pdu1 by simp_all
    let ?c = "msg_bytes tok os []"
    from rep obtain slack where "mem pdu1 = ?c @ slack" and c: "used_size pdu = length ?c"
      using u(1) by (auto simp: represents_def)
    then have "Suc (length pay) \<le> length slack" using u(4) by simp
    then obtain xs zs where "slack = xs @ zs" "length xs = Suc (length pay)"
      by (rule split_list_at)
    then obtain x ys where m: "mem pdu1 = ?c @ x # ys @ zs" "length ys = length pay"
      using \<open>mem pdu1 = ?c @ slack\<close> by (auto simp: length_Suc_conv)
    define m2 where "m2 = ?c @ COAP_PAYLOAD_START # pay @ zs"
    let ?pdu = "pdu1\<lparr>mem := m2, data := Some (length ?c + 1), used_size := length ?c + 1 + length pay\<rparr>"
    have "coap_add_data h pdu (length pay) pay = Some (True, ?pdu)"
      using r True d assms(2) u m c
      by (simp add: coap_add_data_def coap_add_data_after_def c_store_def c_blit_def c_slice_def list_update_append m2_def)
    moreover have "represents ?pdu tok os pay"
      using rep u m c assms(2)
      by (auto simp: represents_def m2_def msg_bytes_def payload_bytes_def)
    moreover have "?pdu = pdu\<lparr>mem := mem ?pdu, alloc_size := alloc_size ?pdu, token_s := token_s ?pdu,
         used_size := used_size ?pdu, data := data ?pdu\<rparr>"
      using pdu1 by simp
    ultimately show ?thesis using True unfolding ok_def [symmetric] by blast
  qed
qed
section \<open>Walking through the options\<close>

text \<open>
  The iterator stands in front of the options \<open>os\<close>, the last one before them having the number \<open>prev\<close>.
\<close>

definition iter_at :: "bytes \<Rightarrow> coap_opt_iterator \<Rightarrow> nat \<Rightarrow> nat \<Rightarrow> options \<Rightarrow> bytes \<Rightarrow> bool" where
  "iter_at m oi p prev os tail \<longleftrightarrow>
     options_ok prev os \<and> prev < 65536 \<and> (tail = [] \<or> hd tail = COAP_PAYLOAD_START) \<and>
     (\<exists>pre slack. m = pre @ encode_opts prev os @ tail @ slack \<and> length pre = p) \<and>
     it_next oi = p \<and> it_length oi = length (encode_opts prev os) + length tail \<and>
     it_number oi = word_of_nat prev \<and> \<not> it_bad oi"

definition opt_size :: "nat \<Rightarrow> nat \<times> bytes \<Rightarrow> nat" where
  "opt_size prev = (\<lambda>(k, v). length (opt_header (k - prev) (length v)) + length v)"

text \<open>The iterator after one option.\<close>

definition step_iter :: "coap_opt_iterator \<Rightarrow> nat \<Rightarrow> nat \<times> bytes \<Rightarrow> coap_opt_iterator" where
  "step_iter oi prev o1 = oi\<lparr>it_next := it_next oi + opt_size prev o1, it_length := it_length oi - opt_size prev o1,
     it_number := word_of_nat (fst o1)\<rparr>"

lemma iter_at_parse:
  assumes "iter_at m oi p prev ((k, v) # os) tail"
  shows "coap_opt_parse m p (it_length oi) = Some (Accepted (opt_size prev (k, v),
      \<lparr>delta = word_of_nat (k - prev), opt_len = length v, opt_val = p + length (opt_header (k - prev) (length v))\<rparr>))"
    and "opt_size prev (k, v) \<le> it_length oi"
    and "\<exists>b. c_load m p = Some b \<and> b \<noteq> COAP_PAYLOAD_START"
    and "take (length v) (drop (p + length (opt_header (k - prev) (length v))) m) = v"
    and "p + opt_size prev (k, v) \<le> length m"
proof -
  obtain pre slack where m: "m = pre @ opt_header (k - prev) (length v) @ (v @ encode_opts k os @ tail @ slack)"
    and p: "p = length pre" and l: "it_length oi = opt_size prev (k, v) + length (encode_opts k os) + length tail"
    using assms by (auto simp: iter_at_def opt_size_def)
  have ok: "prev \<le> k" "k < 65536" "length v < 65805" using assms by (auto simp: iter_at_def)
  show "coap_opt_parse m p (it_length oi) = Some (Accepted (opt_size prev (k, v),
      \<lparr>delta = word_of_nat (k - prev), opt_len = length v, opt_val = p + length (opt_header (k - prev) (length v))\<rparr>))"
    unfolding m p l using ok coap_opt_parse_header
      [of "k - prev" "length v" "v @ encode_opts k os @ tail @ slack" "opt_size prev (k, v) + length (encode_opts k os) + length tail" pre]
    by (simp add: opt_size_def)
  show "opt_size prev (k, v) \<le> it_length oi" by (simp add: l)
  show "\<exists>b. c_load m p = Some b \<and> b \<noteq> COAP_PAYLOAD_START"
    using opt_header_first [of "k - prev" "length v"] unfolding m p by (auto simp: c_load_append)
  show "take (length v) (drop (p + length (opt_header (k - prev) (length v))) m) = v"
    unfolding m p by simp
  show "p + opt_size prev (k, v) \<le> length m" unfolding m p by (simp add: opt_size_def)
qed

lemma iter_at_step:
  assumes "iter_at m oi p prev ((k, v) # os) tail"
  shows "iter_at m (step_iter oi prev (k, v)) (p + opt_size prev (k, v)) k os tail"
proof -
  obtain pre slack where m: "m = (pre @ opt_header (k - prev) (length v) @ v) @ encode_opts k os @ tail @ slack"
    and p: "p = length pre"
    using assms by (auto simp: iter_at_def)
  have "\<exists>pre slack. m = pre @ encode_opts k os @ tail @ slack \<and> length pre = p + opt_size prev (k, v)"
    using m p by (intro exI conjI) (assumption, simp add: opt_size_def)
  moreover have "it_next oi = p" "it_length oi = opt_size prev (k, v) + length (encode_opts k os) + length tail"
    "options_ok k os" "k < 65536" "tail = [] \<or> hd tail = COAP_PAYLOAD_START" "\<not> it_bad oi"
    using assms by (simp_all add: iter_at_def opt_size_def)
  ultimately show ?thesis by (simp add: iter_at_def step_iter_def)
qed

lemma iter_at_not_finished:
  assumes "iter_at m oi p prev ((k, v) # os) tail"
  shows "opt_finished m oi = Some (False, oi)"
proof -
  have "it_length oi \<noteq> 0" using assms by (auto simp: iter_at_def length_opt_header)
  moreover have "it_next oi = p" "\<not> it_bad oi" using assms by (auto simp: iter_at_def)
  ultimately show ?thesis using iter_at_parse(3) [OF assms] by (auto simp: opt_finished_def)
qed

lemma iter_at_finished:
  assumes "iter_at m oi p prev [] tail"
  shows "coap_option_next m oi = Some (None, oi\<lparr>it_bad := True\<rparr>)"
proof (cases tail)
  case Nil
  then show ?thesis using assms by (simp add: iter_at_def coap_option_next_def opt_finished_def)
next
  case (Cons b bs)
  then have "c_load m (it_next oi) = Some COAP_PAYLOAD_START" "it_length oi \<noteq> 0" "\<not> it_bad oi"
    using assms by (auto simp: iter_at_def c_load_def nth_append)
  then show ?thesis by (simp add: coap_option_next_def opt_finished_def)
qed

lemma next_number:
  assumes "prev \<le> k" "k < 65536"
  shows "word_of_nat prev + word_of_nat (k - prev) = (word_of_nat k :: u16)"
  using assms by (metis of_nat_add le_add_diff_inverse)

lemma iter_at_next:
  assumes "iter_at m oi p prev ((k, v) # os) tail" "\<not> it_filtered oi"
  shows "coap_option_next m oi = Some (Some p, step_iter oi prev (k, v))"
proof -
  have "it_next oi = p" "it_number oi = word_of_nat prev" "prev \<le> k" "k < 65536"
    using assms by (auto simp: iter_at_def)
  then show ?thesis
    using iter_at_parse(1,2) [OF assms(1)] iter_at_not_finished [OF assms(1)] assms(2) next_number [of prev k]
    by (subst coap_option_next_def, subst next_loop.simps) (simp add: Let_def step_iter_def)
qed

text \<open>The iterator set up for a message stands in front of all its options.\<close>

lemma iterator_init_at:
  assumes "represents pdu tok os pay" "os \<noteq> [] \<or> pay \<noteq> []"
  shows "fst (coap_option_iterator_init pdu flt)"
    and "iter_at (mem pdu) (snd (coap_option_iterator_init pdu flt)) (length (token_bytes tok)) 0 os (payload_bytes pay)"
    and "it_filtered (snd (coap_option_iterator_init pdu flt)) \<longleftrightarrow> flt \<noteq> None"
    and "flt = Some f \<Longrightarrow> it_filter (snd (coap_option_iterator_init pdu flt)) = f"
proof -
  have "encode_opts 0 os \<noteq> [] \<or> payload_bytes pay \<noteq> []"
    using assms(2) by (cases os) (auto simp: opt_header_def payload_bytes_def)
  then have used: "\<not> used_size pdu \<le> e_token_length pdu"
    using assms(1) by (auto simp: represents_def msg_bytes_def)
  obtain slack where "mem pdu = token_bytes tok @ encode_opts 0 os @ payload_bytes pay @ slack"
    using assms(1) by (auto simp: represents_def msg_bytes_def)
  then show "iter_at (mem pdu) (snd (coap_option_iterator_init pdu flt)) (length (token_bytes tok)) 0 os (payload_bytes pay)"
    using assms(1) used
    by (auto simp: iter_at_def coap_option_iterator_init_def Let_def represents_def msg_bytes_def payload_bytes_def
        split: option.splits)
  show "fst (coap_option_iterator_init pdu flt)"
    "it_filtered (snd (coap_option_iterator_init pdu flt)) \<longleftrightarrow> flt \<noteq> None"
    "flt = Some f \<Longrightarrow> it_filter (snd (coap_option_iterator_init pdu flt)) = f"
    using used by (auto simp: coap_option_iterator_init_def Let_def split: option.splits)
qed

lemma iterator_init_bad:
  assumes "represents pdu tok [] []"
  shows "coap_option_next m (snd (coap_option_iterator_init pdu flt)) =
    Some (None, snd (coap_option_iterator_init pdu flt))"
proof -
  have "used_size pdu \<le> e_token_length pdu"
    using assms by (simp add: represents_def msg_bytes_def payload_bytes_def)
  then show ?thesis
    by (simp add: coap_option_iterator_init_def coap_option_next_def opt_finished_def)
qed

text \<open>The search loop stops at the first option whose number satisfies \<open>P\<close>.\<close>

lemma find_option_hit:
  assumes "iter_at m oi p prev (ys @ (k, v) # zs) tail" "\<not> it_filtered oi"
    "\<forall>(j, u) \<in> set ys. \<not> P (word_of_nat j)" "P (word_of_nat k)"
  shows "\<exists>oi'. find_option m P oi (word_of_nat prev) =
      Some (Some (p + length (encode_opts prev ys)), oi', word_of_nat (last_number prev ys)) \<and>
    iter_at m oi' (p + length (encode_opts prev ys) + opt_size (last_number prev ys) (k, v)) k zs tail \<and>
    \<not> it_filtered oi' \<and> it_number oi' = word_of_nat k"
  using assms
proof (induction ys arbitrary: oi p prev)
  case Nil
  then have "find_option m P oi (word_of_nat prev) = Some (Some p, step_iter oi prev (k, v), word_of_nat prev)"
    using iter_at_next [of m oi p prev k v zs tail]
    by (subst find_option.simps) (simp add: step_iter_def)
  moreover have "iter_at m (step_iter oi prev (k, v)) (p + opt_size prev (k, v)) k zs tail"
    using iter_at_step [of m oi p prev k v zs tail] Nil by simp
  ultimately show ?case using Nil by (simp add: step_iter_def)
next
  case (Cons y ys)
  obtain j u where y: "y = (j, u)" by (cases y)
  have at: "iter_at m oi p prev ((j, u) # ys @ (k, v) # zs) tail" using Cons.prems(1) y by simp
  have "find_option m P oi (word_of_nat prev) = find_option m P (step_iter oi prev (j, u)) (word_of_nat j)"
    using iter_at_next [OF at Cons.prems(2)] Cons.prems(3) y
    by (subst find_option.simps) (simp add: step_iter_def)
  moreover have "\<not> it_filtered (step_iter oi prev (j, u))" using Cons.prems(2) by (simp add: step_iter_def)
  ultimately show ?case
    using Cons.IH [OF iter_at_step [OF at]] Cons.prems(3,4) y
    by (simp add: opt_size_def add.assoc)
qed

lemma find_option_none:
  assumes "iter_at m oi p prev os tail" "\<not> it_filtered oi" "\<forall>(j, u) \<in> set os. \<not> P (word_of_nat j)"
  shows "\<exists>oi'. find_option m P oi (word_of_nat prev) = Some (None, oi', word_of_nat (last_number prev os))"
  using assms
proof (induction os arbitrary: oi p prev)
  case Nil
  then show ?case using iter_at_finished [of m oi p prev tail] by (subst find_option.simps) simp
next
  case (Cons y os)
  obtain j u where y: "y = (j, u)" by (cases y)
  have at: "iter_at m oi p prev ((j, u) # os) tail" using Cons.prems(1) y by simp
  have "find_option m P oi (word_of_nat prev) = find_option m P (step_iter oi prev (j, u)) (word_of_nat j)"
    using iter_at_next [OF at Cons.prems(2)] Cons.prems(3) y
    by (subst find_option.simps) (simp add: step_iter_def)
  moreover have "\<not> it_filtered (step_iter oi prev (j, u))" using Cons.prems(2) by (simp add: step_iter_def)
  ultimately show ?case
    using Cons.IH [OF iter_at_step [OF at]] Cons.prems(3) y by simp
qed

lemma unat_number [simp]: "k < 65536 \<Longrightarrow> unat (word_of_nat k :: u16) = k"
  by (intro unat_of_nat_small) simp

lemma number_eq_iff: "j < 65536 \<Longrightarrow> k < 65536 \<Longrightarrow> (word_of_nat j = (word_of_nat k :: u16)) = (j = k)"
  by (metis unat_number)

text \<open>A lookup through a filter that holds one number delivers the first option with that number.\<close>

lemma coap_opt_parse_marker:
  "c_load m p = Some COAP_PAYLOAD_START \<Longrightarrow> coap_opt_parse m p len = Some Rejected"
  by (auto simp: coap_opt_parse_def opt_delta_field_def COAP_PAYLOAD_START_def or_return0_def)

lemma next_loop_filtered:
  assumes "iter_at m oi p prev os tail" "it_filtered oi" "key < 65536"
    "\<And>j. coap_option_filter_get (it_filter oi) j = Some (j = word_of_nat key, it_filter oi)"
  shows "\<exists>oi'. next_loop m oi = Some (if key \<in> fst ` set os
    then Some (p + length (encode_opts prev (takeWhile (\<lambda>o1. fst o1 \<noteq> key) os))) else None, oi')"
  using assms
proof (induction os arbitrary: oi p prev)
  case Nil
  have "coap_opt_parse m p (it_length oi) = Some Rejected"
  proof (cases tail)
    case Nil
    with Nil.prems(1) show ?thesis by (simp add: iter_at_def coap_opt_parse_def)
  next
    case (Cons b bs)
    then have "c_load m p = Some COAP_PAYLOAD_START"
      using Nil.prems(1) by (auto simp: iter_at_def c_load_def nth_append)
    then show ?thesis by (rule coap_opt_parse_marker)
  qed
  then show ?case using Nil.prems(1) by (subst next_loop.simps) (simp add: iter_at_def)
next
  case (Cons y os)
  obtain j u where y: "y = (j, u)" by (cases y)
  have at: "iter_at m oi p prev ((j, u) # os) tail" using Cons.prems(1) y by simp
  then have j: "it_next oi = p" "it_number oi = word_of_nat prev" "prev \<le> j" "j < 65536"
    by (auto simp: iter_at_def)
  have same: "word_of_nat j = (word_of_nat key :: u16) \<longleftrightarrow> j = key"
    using number_eq_iff [OF j(4) assms(3)] .
  have eq: "next_loop m oi = (if j = key then Some (Some p, step_iter oi prev (j, u))
      else next_loop m (step_iter oi prev (j, u)))"
    using iter_at_parse(1,2) [OF at] j Cons.prems(2,4) next_number [of prev j] same
    by (subst next_loop.simps) (simp add: Let_def step_iter_def)
  show ?case
  proof (cases "j = key")
    case True
    then show ?thesis using eq y by simp
  next
    case False
    have "\<exists>oi'. next_loop m (step_iter oi prev (j, u)) = Some (if key \<in> fst ` set os
      then Some (p + opt_size prev (j, u) + length (encode_opts j (takeWhile (\<lambda>o1. fst o1 \<noteq> key) os))) else None, oi')"
      by (rule Cons.IH [OF iter_at_step [OF at]]) (use Cons.prems in \<open>simp_all add: step_iter_def\<close>)
    then obtain oi' where "next_loop m (step_iter oi prev (j, u)) = Some (if key \<in> fst ` set os
      then Some (p + opt_size prev (j, u) + length (encode_opts j (takeWhile (\<lambda>o1. fst o1 \<noteq> key) os))) else None, oi')"
      by blast
    then show ?thesis using eq y False False [symmetric] by (intro exI [of _ oi']) (simp add: opt_size_def add.assoc)
  qed
qed

lemma coap_check_option_finds:
  assumes "represents pdu tok os pay" "key < 65536"
  shows "\<exists>oi. coap_check_option pdu (word_of_nat key) = Some (if key \<in> fst ` set os
    then Some (length (token_bytes tok) + length (encode_opts 0 (takeWhile (\<lambda>o1. fst o1 \<noteq> key) os))) else None, oi)"
proof -
  obtain f where f: "coap_option_filter_set coap_option_filter_clear (word_of_nat key) = Some (True, f)"
    "\<forall>j. coap_option_filter_get f j = Some (j = word_of_nat key, f)"
    using filter.singleton by blast
  let ?oi = "snd (coap_option_iterator_init pdu (Some f))"
  have check: "coap_check_option pdu (word_of_nat key) = coap_option_next (mem pdu) ?oi"
    using f(1) by (simp add: coap_check_option_def case_prod_unfold)
  show ?thesis
  proof (cases "os = []")
    case True
    show ?thesis
    proof (cases "pay = []")
      case True
      with \<open>os = []\<close> check iterator_init_bad assms(1) show ?thesis by auto
    next
      case False
      then have "iter_at (mem pdu) ?oi (length (token_bytes tok)) 0 [] (payload_bytes pay)"
        using iterator_init_at(2) [OF assms(1)] True by simp
      from iter_at_finished [OF this] check True show ?thesis by simp
    qed
  next
    case False
    then obtain k v os' where os: "os = (k, v) # os'" by (cases os) auto
    note init = iterator_init_at [OF assms(1), of "Some f"]
    have "iter_at (mem pdu) ?oi (length (token_bytes tok)) 0 os (payload_bytes pay)" using init(2) False by simp
    moreover from this have "opt_finished (mem pdu) ?oi = Some (False, ?oi)"
      unfolding os by (rule iter_at_not_finished)
    ultimately show ?thesis
      using next_loop_filtered [of "mem pdu" ?oi _ 0 os _ key] init(3,4) False f(2) assms(2)
      by (simp add: check coap_option_next_def)
  qed
qed

text \<open>The same searches, started at the first option of a message.\<close>

lemma find_option_represents:
  assumes "represents pdu tok (ys @ (k, v) # zs) pay" "\<forall>(j, u) \<in> set ys. \<not> P (word_of_nat j)" "P (word_of_nat k)"
  obtains oi where "find_option (mem pdu) P (snd (coap_option_iterator_init pdu None)) 0 =
      Some (Some (length (token_bytes tok @ encode_opts 0 ys)), oi, word_of_nat (last_number 0 ys))"
    "it_number oi = word_of_nat k" "\<not> it_filtered oi"
    "iter_at (mem pdu) oi (length (token_bytes tok @ encode_opts 0 ys) + opt_size (last_number 0 ys) (k, v)) k zs (payload_bytes pay)"
proof -
  let ?oi = "snd (coap_option_iterator_init pdu None)"
  have ne: "ys @ (k, v) # zs \<noteq> [] \<or> pay \<noteq> []" by simp
  have "\<not> it_filtered ?oi" using iterator_init_at(3) [OF assms(1) ne, of None] by simp
  from find_option_hit [OF iterator_init_at(2) [OF assms(1) ne] this, of P] assms(2,3)
  show thesis using that by auto
qed

lemma find_option_absent:
  assumes "represents pdu tok os pay" "\<forall>(j, u) \<in> set os. \<not> P (word_of_nat j)"
  shows "\<exists>oi p. find_option (mem pdu) P (snd (coap_option_iterator_init pdu None)) 0 = Some (None, oi, p)"
proof (cases "os \<noteq> [] \<or> pay \<noteq> []")
  case True
  let ?oi = "snd (coap_option_iterator_init pdu None)"
  have "\<not> it_filtered ?oi" using iterator_init_at(3) [OF assms(1) True, of None] by simp
  from find_option_none [OF iterator_init_at(2) [OF assms(1) True] this, of P] assms(2)
  show ?thesis by auto
next
  case False
  then show ?thesis
    using assms(1) iterator_init_bad [of pdu tok "mem pdu" None] by (subst find_option.simps) simp
qed

end
