(* ===== verification/Coap_Build.thy ===== *)
theory Coap_Build
  imports Coap_Message
begin

unbundle bit_operations_syntax

text \<open>
  Building a message: what adding an option at the end and inserting one in order does to the
  represented message, at the level of the bytes these functions move and patch in place.
\<close>

section \<open>Moving bytes\<close>

lemma memmove_up:
  "c_memmove (C @ P @ S @ R) (length C + length S) (length C) (length P) =
     Some (C @ take (length S) (P @ S) @ P @ R)"
  by (simp add: c_memmove_def c_slice_def c_blit_def)

lemma memmove_down:
  "c_memmove (C @ G @ P @ R) (length C) (length C + length G) (length P) =
     Some (C @ P @ drop (length P) (G @ P) @ R)"
  by (simp add: c_memmove_def c_slice_def c_blit_def)

section \<open>Adding at the end\<close>

lemma append_option_represents:
  assumes rep: "represents pdu tok os pay" and k: "last_number 0 os \<le> k" "k < 65536" and v: "length v < 65805"
    and fits: "used_size pdu + opt_size (last_number 0 os) (k, v) \<le> 2 ^ 31"
  shows "\<exists>n pdu'. append_option h pdu (word_of_nat k) (length v) (Some v) = Some (n, pdu') \<and>
    (if n = 0 then represents pdu' tok os pay
     else n = opt_size (last_number 0 os) (k, v) \<and> represents pdu' tok (os @ [(k, v)]) pay) \<and>
    (can_grow h pdu (used_size pdu + opt_size (last_number 0 os) (k, v)) \<longrightarrow> n \<noteq> 0)"
proof -
  let ?p = "last_number 0 os" and ?size = "opt_size (last_number 0 os) (k, v)"
  have p: "?p < 65536" using rep options_ok_last [of 0 os] by (simp add: represents_def)
  have max: "max_opt pdu = word_of_nat ?p" using rep by (simp add: represents_def)
  have delta: "word_of_nat k - word_of_nat ?p = (word_of_nat (k - ?p) :: u16)" using k by (simp add: of_nat_diff)
  then have size: "coap_opt_encode_size (word_of_nat k - max_opt pdu) (length v) = ?size"
    using k p unfolding coap_opt_encode_size_eq max delta by (simp add: opt_size_def del: of_nat_diff)
  obtain ok pdu1 where r: "coap_pdu_check_resize h pdu (used_size pdu + ?size) = Some (ok, pdu1)" "regrown pdu pdu1"
    "ok \<longrightarrow> used_size pdu + ?size \<le> alloc_size pdu1" "can_grow h pdu (used_size pdu + ?size) \<longrightarrow> ok"
    using coap_pdu_check_resize_regrown [OF represents_sizes_ok [OF rep] fits] by blast
  have rep1: "represents pdu1 tok os pay" using regrown_represents [OF rep r(2)] .
  show ?thesis
  proof (cases ok)
    case False
    then show ?thesis using r(1,4) size rep1 by (simp add: append_option_def)
  next
    case True
    let ?C = "token_bytes tok @ encode_opts 0 os" and ?P = "payload_bytes pay"
    obtain slack where m: "mem pdu1 = ?C @ ?P @ slack" and len: "used_size pdu1 = length ?C + length ?P"
      and alloc: "alloc_size pdu1 \<le> length (mem pdu1)"
      using represents_mem [OF rep1] by (metis append.assoc length_append)
    note same = regrown_same [OF r(2)]
    have "?size \<le> length slack" using r(3) True m len alloc same by simp
    then obtain S R where S: "slack = S @ R" "length S = ?size" by (rule split_list_at)
    define old where "old = (if pay = [] then S else take ?size (?P @ S))"
    have old: "length old = ?size" using S by (simp add: old_def) arith
    have moved: "(case data pdu1 of
        Some d \<Rightarrow> do { m \<leftarrow> c_memmove (mem pdu1) (d + ?size - 1) (d - 1) (used_size pdu1 - d + 1);
                       Some (d - 1, pdu1\<lparr>mem := m, data := Some (d + ?size)\<rparr>) }
      | None \<Rightarrow> Some (used_size pdu1, pdu1)) =
      Some (length ?C, pdu1\<lparr>mem := ?C @ old @ ?P @ R, data := map_option (\<lambda>d. d + ?size) (data pdu1)\<rparr>)"
    proof (cases "pay = []")
      case True
      then show ?thesis using rep1 m len S by (simp add: represents_def payload_bytes_def old_def)
    next
      case False
      then have d: "data pdu1 = Some (length ?C + 1)" and "used_size pdu1 - (length ?C + 1) + 1 = length ?P"
        using rep1 len unfolding len by (simp_all add: represents_def payload_bytes_def)
      then show ?thesis
        using memmove_up [of ?C ?P S R] S m False by (simp add: old_def)
    qed
    define pdu2 where "pdu2 = pdu1\<lparr>mem := ?C @ old @ ?P @ R, data := map_option (\<lambda>d. d + ?size) (data pdu1)\<rparr>"
    have enc: "coap_opt_encode (mem pdu2) (length ?C) (alloc_size pdu2 - used_size pdu2) (word_of_nat k - max_opt pdu) (Some v) (length v) =
      Some (?size, ?C @ opt_header (k - ?p) (length v) @ v @ ?P @ R)"
      using coap_opt_encode_eq [of old "word_of_nat k - max_opt pdu" v "alloc_size pdu2 - used_size pdu2" ?C "?P @ R"]
        old r(3) True same k p unfolding max delta pdu2_def by (simp add: opt_size_def del: of_nat_diff)
    have pos: "0 < ?size" by (simp add: opt_size_def length_opt_header)
    define pdu3 where "pdu3 = pdu2\<lparr>mem := ?C @ opt_header (k - ?p) (length v) @ v @ ?P @ R, max_opt := word_of_nat k,
      used_size := used_size pdu1 + ?size\<rparr>"
    have "append_option h pdu (word_of_nat k) (length v) (Some v) = Some (?size, pdu3)"
      using r(1) True size moved enc same(1,3) pos unfolding append_option_def pdu3_def pdu2_def
      by (simp add: Let_def)
    moreover have "represents pdu3 tok (os @ [(k, v)]) pay"
      using rep1 S len r(3) same m alloc True k v
      unfolding pdu3_def pdu2_def represents_def msg_bytes_def encode_opts_append options_ok_append
      by (auto simp: opt_size_def)
    ultimately show ?thesis using pos by auto
  qed
qed

section \<open>Inserting in order\<close>

text \<open>The delta nibble of a header byte is replaced; the length nibble stays.\<close>

lemma header_low_nibble:
  "(word_of_nat (16 * ext_nibble d + ext_nibble n) :: u8) AND 0x0F = word_of_nat (ext_nibble n)"
proof -
  have "unat ((word_of_nat (16 * ext_nibble d + ext_nibble n) :: u8) AND 0x0F) = ext_nibble n"
    by (rule header_byte_nibbles) simp
  from arg_cong [OF this, of "word_of_nat :: nat \<Rightarrow> u8"] show ?thesis by (simp del: of_nat_add of_nat_mult)
qed

lemma header_byte_swap:
  "((word_of_nat (16 * ext_nibble d + ext_nibble n) :: u8) AND 0x0F) + word_of_nat (e * 16) =
     word_of_nat (16 * e + ext_nibble n)"
  unfolding header_low_nibble by (simp add: mult.commute add.commute)

lemma store_behind:
  "c_load (C @ x # R) (length C) = Some x"
  "c_store (C @ x # R) (length C) w = Some (C @ w # R)"
  "c_store (C @ x # y # R) (length C + 1) w = Some (C @ x # w # R)"
  "c_store (C @ x # y # z # R) (length C + 2) w = Some (C @ x # y # w # R)"
  by (simp_all add: c_load_def c_store_def nth_append list_update_append)

lemma patch_delta_eq:
  assumes "0 < e" "e \<le> d" "d < 65536"
  shows "\<exists>J. patch_delta (C @ opt_header d n @ R) (length C) (word_of_nat d) e =
      Some (C @ J @ opt_header e n @ R, length J) \<and> length (opt_header d n) = length J + length (opt_header e n)"
proof -
  define N where "N = ext_bytes n @ R"
  define b :: u8 where "b = word_of_nat (16 * ext_nibble d + ext_nibble n)"
  have H: "opt_header d n @ R = b # ext_bytes d @ N" "opt_header e n @ R = word_of_nat (16 * ext_nibble e + ext_nibble n) # ext_bytes e @ N"
    by (simp_all add: opt_header_def N_def b_def)
  have len: "length (opt_header d n) = length J + length (opt_header e n) \<longleftrightarrow> length (ext_bytes d) = length J + length (ext_bytes e)" for J :: bytes
    by (simp add: length_opt_header)
  have d: "(word_of_nat d :: u16) < 13 \<longleftrightarrow> d < 13" "(word_of_nat d :: u16) < 269 \<longleftrightarrow> d < 269"
    using assms(3) by (simp_all add: word_less_nat_alt)
  have swap: "(b AND 0x0F) + word_of_nat (e * 16) = word_of_nat (16 * e + ext_nibble n)"
    "(b AND 0x0F) + 0xD0 = word_of_nat (16 * 13 + ext_nibble n)"
    using header_byte_swap [of d n e] header_byte_swap [of d n 13] unfolding b_def by simp_all
  consider "d < 13" | "d < 269" "\<not> d < 13" "e < 13" | "d < 269" "\<not> d < 13" "\<not> e < 13"
    | "\<not> d < 269" "e < 13" | "\<not> d < 269" "\<not> e < 13" "e < 269" | "\<not> d < 269" "\<not> e < 269" by linarith
  then have "\<exists>J. patch_delta (C @ b # ext_bytes d @ N) (length C) (word_of_nat d) e =
      Some (C @ J @ word_of_nat (16 * ext_nibble e + ext_nibble n) # ext_bytes e @ N, length J) \<and>
    length (ext_bytes d) = length J + length (ext_bytes e)"
  proof cases
    case 1
    then have "ext_bytes d = []" "ext_bytes e = []" "ext_nibble e = e" using assms by (simp_all add: ext_bytes_def ext_nibble_def)
    then show ?thesis
      using 1 by (intro exI [of _ "[]"]) (simp add: patch_delta_def d swap store_behind del: of_nat_add of_nat_mult)
  next
    case 2
    then have "ext_bytes d = [word_of_nat (d - 13)]" "ext_bytes e = []" "ext_nibble e = e"
      using assms by (simp_all add: ext_bytes_def ext_nibble_def del: of_nat_diff)
    then show ?thesis
      using 2 by (intro exI [of _ "[b]"]) (simp add: patch_delta_def d swap store_behind [simplified] del: of_nat_add of_nat_mult of_nat_diff)
  next
    case 3
    then have "ext_bytes d = [word_of_nat (d - 13)]" "ext_bytes e = [word_of_nat (e - 13)]" "ext_nibble e = 13" "ext_nibble d = 13" "e < 269"
      using assms by (simp_all add: ext_bytes_def ext_nibble_def del: of_nat_diff)
    then show ?thesis
      using 3 by (intro exI [of _ "[]"]) (simp add: patch_delta_def d store_behind [simplified] b_def del: of_nat_add of_nat_mult of_nat_diff)
  next
    case 4
    then have "ext_bytes d = [word_of_nat ((d - 269) div 256), word_of_nat (d - 269)]" "ext_bytes e = []" "ext_nibble e = e"
      using assms by (simp_all add: ext_bytes_def ext_nibble_def del: of_nat_diff)
    then show ?thesis
      using 4 by (intro exI [of _ "[b, word_of_nat ((d - 269) div 256)]"])
        (simp add: patch_delta_def d swap store_behind [simplified] del: of_nat_add of_nat_mult of_nat_diff)
  next
    case 5
    then have "ext_bytes d = [word_of_nat ((d - 269) div 256), word_of_nat (d - 269)]" "ext_bytes e = [word_of_nat (e - 13)]" "ext_nibble e = 13"
      using assms by (simp_all add: ext_bytes_def ext_nibble_def del: of_nat_diff)
    then show ?thesis
      using 5 by (intro exI [of _ "[b]"])
        (simp add: patch_delta_def d swap store_behind [simplified] del: of_nat_add of_nat_mult of_nat_diff)
  next
    case 6
    then have "ext_bytes d = [word_of_nat ((d - 269) div 256), word_of_nat (d - 269)]"
      "ext_bytes e = [word_of_nat ((e - 269) div 256), word_of_nat (e - 269)]" "ext_nibble e = 14" "ext_nibble d = 14"
      using assms by (simp_all add: ext_bytes_def ext_nibble_def del: of_nat_diff)
    then show ?thesis
      using 6 by (intro exI [of _ "[]"])
        (simp add: patch_delta_def d store_behind [simplified] b_def del: of_nat_add of_nat_mult of_nat_diff)
  qed
  then show ?thesis unfolding H len .
qed

text \<open>The place of an inserted option: behind those with a number up to its own.\<close>

definition insert_opt :: "nat \<Rightarrow> bytes \<Rightarrow> options \<Rightarrow> options" where
  "insert_opt k v os = takeWhile (\<lambda>o1. fst o1 \<le> k) os @ (k, v) # dropWhile (\<lambda>o1. fst o1 \<le> k) os"

lemma memmove_gap:
  assumes "s \<le> length J + length slack"
  shows "\<exists>X R. c_memmove (C @ J @ P @ slack) (length C + s) (length C + length J) (length P) = Some (C @ X @ P @ R) \<and>
    length X = s \<and> s + length R = length J + length slack"
proof -
  let ?m = "C @ J @ P @ slack"
  have "c_memmove ?m (length C + s) (length C + length J) (length P) =
      Some (take (length C + s) ?m @ P @ drop (length C + s + length P) ?m)"
    using assms by (simp add: c_memmove_def c_slice_def c_blit_def)
  moreover have "take (length C + s) ?m = C @ take s (J @ P @ slack)" by simp
  ultimately show ?thesis
    using assms by (intro exI [of _ "take s (J @ P @ slack)"] exI [of _ "drop (length C + s + length P) ?m"]) auto
qed

text \<open>The buffer of a message around one of its options.\<close>

lemma represents_mem_at:
  assumes "represents pdu tok (ys @ (k', v') # zs) pay"
  obtains slack where "mem pdu = (token_bytes tok @ encode_opts 0 ys) @ opt_header (k' - last_number 0 ys) (length v') @ v' @
      (encode_opts k' zs @ payload_bytes pay) @ slack"
    "used_size pdu = length (token_bytes tok @ encode_opts 0 ys) + length (opt_header (k' - last_number 0 ys) (length v')) +
      length v' + length (encode_opts k' zs @ payload_bytes pay)"
    "alloc_size pdu \<le> length (mem pdu)"
proof -
  obtain slack where "mem pdu = token_bytes tok @ encode_opts 0 (ys @ (k', v') # zs) @ payload_bytes pay @ slack"
    "used_size pdu = length (token_bytes tok) + length (encode_opts 0 (ys @ (k', v') # zs)) + length (payload_bytes pay)"
    "alloc_size pdu \<le> length (mem pdu)"
    using represents_mem [OF assms] .
  with that show thesis by (simp add: encode_opts_append)
qed

lemma insert_before_represents:
  assumes rep: "represents pdu tok (ys @ (k', v') # zs) pay" and v: "length v < 65805"
    and ys: "\<forall>(j, u) \<in> set ys. j \<le> k" and k: "k < k'"
    and fits: "used_size pdu + opt_size (last_number 0 ys) (k, v) \<le> 2 ^ 31"
  shows "\<exists>n pdu'. insert_before h pdu (word_of_nat k) (length v) (Some v) = Some (n, pdu') \<and>
    (if n = 0 then represents pdu' tok (ys @ (k', v') # zs) pay
     else n = opt_size (last_number 0 ys) (k, v) \<and> represents pdu' tok (ys @ (k, v) # (k', v') # zs) pay) \<and>
    (can_grow h pdu (used_size pdu + opt_size (last_number 0 ys) (k, v)) \<longrightarrow> n \<noteq> 0)"
proof -
  let ?os = "ys @ (k', v') # zs" and ?p = "last_number 0 ys" and ?size = "opt_size (last_number 0 ys) (k, v)"
  let ?C = "token_bytes tok @ encode_opts 0 ys"
  let ?T = "encode_opts k' zs @ payload_bytes pay"
  have ok: "options_ok 0 ?os" using rep by (simp add: represents_def)
  then have ok': "options_ok 0 ys" "?p \<le> k'" "k' < 65536" "length v' < 65805" "options_ok k' zs"
    by (simp_all add: options_ok_append)
  have p: "?p \<le> k" using ys last_in_set [of ys] by (fastforce simp: last_number_def)
  have num: "word_of_nat j > (word_of_nat k :: u16) \<longleftrightarrow> j > k" if "j < 65536" for j
    using that k ok'(3) by (simp add: word_less_nat_alt)
  have ysn: "\<forall>(j, u) \<in> set ys. \<not> word_of_nat j > (word_of_nat k :: u16)"
    using ys k ok'(3) num by fastforce
  have delta: "word_of_nat k - word_of_nat ?p = (word_of_nat (k - ?p) :: u16)"
    "word_of_nat k' - word_of_nat k = (word_of_nat (k' - k) :: u16)" using k p by (simp_all add: of_nat_diff)
  have size: "coap_opt_encode_size (word_of_nat k - word_of_nat ?p) (length v) = ?size"
    using k p ok'(3) unfolding coap_opt_encode_size_eq delta by (simp add: opt_size_def del: of_nat_diff)
  text \<open>The search finds the option behind the new one, also after the buffer moved.\<close>
  have search: "\<exists>oi. find_option (mem pdu) (\<lambda>j. j > word_of_nat k) (snd (coap_option_iterator_init pdu None)) 0 =
      Some (Some (length ?C), oi, word_of_nat ?p) \<and> it_number oi = word_of_nat k'"
    if "represents pdu tok ?os pay" for pdu
    using find_option_represents [OF that ysn] num [OF ok'(3)] k by blast
  obtain oi where oi: "find_option (mem pdu) (\<lambda>j. j > word_of_nat k) (snd (coap_option_iterator_init pdu None)) 0 =
      Some (Some (length ?C), oi, word_of_nat ?p)" "it_number oi = word_of_nat k'"
    using search [OF rep] by blast
  let ?H = "opt_header (k' - ?p) (length v')"
  obtain slack where m: "mem pdu = ?C @ ?H @ v' @ ?T @ slack"
    and used: "used_size pdu = length ?C + length ?H + length v' + length ?T"
    using represents_mem_at [OF rep] .
  have parse: "coap_opt_parse (mem pdu) (length ?C) (used_size pdu - length ?C) = Some (Accepted
      (length ?H + length v', \<lparr>delta = word_of_nat (k' - ?p), opt_len = length v', opt_val = length ?C + length ?H\<rparr>))"
    unfolding m used using ok'(3,4) by (intro coap_opt_parse_header) simp_all
  obtain ok pdu1 where r: "coap_pdu_check_resize h pdu (used_size pdu + ?size) = Some (ok, pdu1)" "regrown pdu pdu1"
    "ok \<longrightarrow> used_size pdu + ?size \<le> alloc_size pdu1" "can_grow h pdu (used_size pdu + ?size) \<longrightarrow> ok"
    using coap_pdu_check_resize_regrown [OF represents_sizes_ok [OF rep] fits] by blast
  have rep1: "represents pdu1 tok ?os pay" using regrown_represents [OF rep r(2)] .
  have opt_delta: "unat (word_of_nat k' - word_of_nat k :: u16) = k' - k"
    using ok'(3) unfolding delta by (simp del: of_nat_diff)
  define rest where "rest = (\<lambda>pdu. do {
    (opt, oi, _) \<leftarrow> find_option (mem pdu) (\<lambda>j. j > word_of_nat k) (snd (coap_option_iterator_init pdu None)) 0;
    c_assert (opt \<noteq> None);
    let option = the opt;
    (m, shrink) \<leftarrow> patch_delta (mem pdu) option (word_of_nat (k' - ?p)) (k' - k);
    m \<leftarrow> c_memmove m (option + ?size) (option + shrink) (used_size pdu - option - shrink);
    (n, m) \<leftarrow> coap_opt_encode m option (alloc_size pdu - used_size pdu) (word_of_nat (k - ?p)) (Some v) (length v);
    if n = 0 then Some (0, pdu\<lparr>mem := m\<rparr>)
    else Some (?size, pdu\<lparr>mem := m, used_size := used_size pdu + ?size - shrink,
                        data := map_option (\<lambda>d. d + ?size - shrink) (data pdu)\<rparr>)
  })"
  have run: "insert_before h pdu (word_of_nat k) (length v) (Some v) = (if ok then rest pdu1 else Some (0, pdu1))"
    using oi parse opt_delta k r(1) unfolding insert_before_def rest_def delta(1) [symmetric] size [symmetric]
    by (simp add: Let_def)
  show ?thesis
  proof (cases ok)
    case False
    then show ?thesis using run rep1 r(4) by simp
  next
    case True
    obtain oi1 where oi1: "find_option (mem pdu1) (\<lambda>j. j > word_of_nat k) (snd (coap_option_iterator_init pdu1 None)) 0 =
        Some (Some (length ?C), oi1, word_of_nat ?p)"
      using search [OF rep1] by blast
    obtain slack where m: "mem pdu1 = ?C @ ?H @ v' @ ?T @ slack"
      and used: "used_size pdu1 = length ?C + length ?H + length v' + length ?T"
      and alloc: "alloc_size pdu1 \<le> length (mem pdu1)"
      using represents_mem_at [OF rep1] .
    let ?H' = "opt_header (k' - k) (length v')"
    have pre: "0 < k' - k" "k' - k \<le> k' - ?p" "k' - ?p < 65536" using k p ok'(3) by simp_all
    obtain J where J: "patch_delta (mem pdu1) (length ?C) (word_of_nat (k' - ?p)) (k' - k) =
        Some (?C @ J @ ?H' @ v' @ ?T @ slack, length J)" "length ?H = length J + length ?H'"
      using patch_delta_eq [OF pre, of ?C "length v'" "v' @ ?T @ slack"] unfolding m by blast
    have "?size \<le> length J + length slack"
      using r(3) True alloc m used regrown_same(1) [OF r(2)] by simp
    then obtain X R where X: "c_memmove (?C @ J @ (?H' @ v' @ ?T) @ slack) (length ?C + ?size) (length ?C + length J)
        (length (?H' @ v' @ ?T)) = Some (?C @ X @ (?H' @ v' @ ?T) @ R)"
      "length X = ?size" "?size + length R = length J + length slack"
      using memmove_gap by blast
    have len: "used_size pdu1 - length ?C - length J = length (?H' @ v' @ ?T)"
      unfolding used using J(2) by simp
    have enc: "coap_opt_encode (?C @ X @ ?H' @ v' @ ?T @ R) (length ?C) (alloc_size pdu1 - used_size pdu1)
        (word_of_nat (k - ?p)) (Some v) (length v) =
      Some (?size, ?C @ opt_header (k - ?p) (length v) @ v @ ?H' @ v' @ ?T @ R)"
      using coap_opt_encode_eq [of X "word_of_nat (k - ?p)" v "alloc_size pdu1 - used_size pdu1" ?C "?H' @ v' @ ?T @ R"]
        X(2) r(3) True regrown_same(1) [OF r(2)] k p ok'(3) by (simp add: opt_size_def del: of_nat_diff)
    define pdu2 where "pdu2 = pdu1\<lparr>mem := ?C @ opt_header (k - ?p) (length v) @ v @ ?H' @ v' @ ?T @ R,
      used_size := used_size pdu1 + ?size - length J, data := map_option (\<lambda>d. d + ?size - length J) (data pdu1)\<rparr>"
    have pos: "0 < ?size" by (simp add: opt_size_def length_opt_header)
    have "rest pdu1 = Some (?size, pdu2)"
      using oi1 J(1) X(1) len enc pos unfolding rest_def pdu2_def by (simp add: Let_def)
    moreover have "represents pdu2 tok (ys @ (k, v) # (k', v') # zs) pay"
    proof -
      let ?new = "ys @ (k, v) # (k', v') # zs"
      have J': "length J + length ?H' = length ?H" "?size = length (opt_header (k - ?p) (length v)) + length v"
        using J(2) by (simp_all add: opt_size_def)
      have len: "length (msg_bytes tok ?new pay) = used_size pdu1 + ?size - length J"
        "length (token_bytes tok @ encode_opts 0 ?new) = length (token_bytes tok @ encode_opts 0 ?os) + ?size - length J"
        using J' unfolding used msg_bytes_def encode_opts_append by simp_all
      have "mem pdu2 = msg_bytes tok ?new pay @ R" "used_size pdu2 = length (msg_bytes tok ?new pay)"
        unfolding len by (simp_all add: pdu2_def msg_bytes_def encode_opts_append)
      moreover have "data pdu2 = (if pay = [] then None else Some (length (token_bytes tok @ encode_opts 0 ?new) + 1))"
        using rep1 J' unfolding len by (auto simp: represents_def pdu2_def encode_opts_append)
      moreover have "used_size pdu2 \<le> alloc_size pdu2" "alloc_size pdu2 \<le> length (mem pdu2)"
        using r(3) True regrown_same(1) [OF r(2)] alloc J' X(3) by (simp_all add: pdu2_def m)
      moreover have "options_ok 0 ?new" using ok' p k v by (simp add: options_ok_append)
      moreover have "length tok \<le> COAP_TOKEN_EXT_MAX" "token_length pdu2 = length tok"
        "token_s pdu2 = length (ext_bytes (length tok))" "e_token_length pdu2 = length (token_bytes tok)"
        "max_opt pdu2 = word_of_nat (last_number 0 ?new)"
        using rep1 by (simp_all add: represents_def pdu2_def)
      ultimately show ?thesis unfolding represents_def by blast
    qed
    ultimately show ?thesis using run True pos by auto
  qed
qed

lemma takeWhile_all: "options_ok p os \<Longrightarrow> last_number p os \<le> k \<Longrightarrow> \<forall>o1 \<in> set os. fst o1 \<le> k"
  using options_ok_bounds by fastforce

lemma insert_opt_append:
  assumes "options_ok p os" "last_number p os \<le> k"
  shows "insert_opt k v os = os @ [(k, v)]"
proof -
  have "\<And>o1. o1 \<in> set os \<Longrightarrow> fst o1 \<le> k" using takeWhile_all [OF assms] by blast
  then have "takeWhile (\<lambda>o1. fst o1 \<le> k) os = os" "dropWhile (\<lambda>o1. fst o1 \<le> k) os = []"
    by (auto simp: takeWhile_eq_all_conv dropWhile_eq_Nil_conv)
  then show ?thesis by (simp add: insert_opt_def)
qed

lemma insert_opt_split:
  assumes "options_ok p os" "k < last_number p os" "p \<le> k"
  obtains ys k' v' zs where "os = ys @ (k', v') # zs" "\<forall>(j, u) \<in> set ys. j \<le> k" "k < k'"
    "insert_opt k v os = ys @ (k, v) # (k', v') # zs"
proof -
  let ?ys = "takeWhile (\<lambda>o1. fst o1 \<le> k) os" and ?zs = "dropWhile (\<lambda>o1. fst o1 \<le> k) os"
  have "os \<noteq> []" using assms(2,3) by auto
  then have "last os \<in> set os" "\<not> fst (last os) \<le> k" using assms(2) by (auto simp: last_number_def)
  then have "?zs \<noteq> []" by (auto simp: dropWhile_eq_Nil_conv)
  then obtain k' v' zs where zs: "?zs = (k', v') # zs" by (cases ?zs) auto
  have "k < k'" using hd_dropWhile [of "\<lambda>o1. fst o1 \<le> k" os] zs by simp
  moreover have "os = ?ys @ (k', v') # zs" using takeWhile_dropWhile_id [of "\<lambda>o1. fst o1 \<le> k" os] zs by simp
  moreover have "\<forall>(j, u) \<in> set ?ys. j \<le> k" by (auto dest: set_takeWhileD)
  moreover have "insert_opt k v os = ?ys @ (k, v) # (k', v') # zs" by (simp add: insert_opt_def zs)
  ultimately show thesis using that by blast
qed

text \<open>A request gets a Hop-Limit option together with a proxy option.\<close>

definition adds_hop_limit :: "coap_pdu \<Rightarrow> nat \<Rightarrow> bool" where
  "adds_hop_limit pdu k \<longleftrightarrow> COAP_PDU_IS_REQUEST pdu \<and> k \<in> {35, 39}"

lemma can_grow_mono: "can_grow h pdu n \<Longrightarrow> m \<le> n \<Longrightarrow> can_grow h pdu m"
  by (auto simp: can_grow_def)

lemma opt_size_bound: "opt_size p (k, v) \<le> length v + 5"
  by (simp add: opt_size_def length_opt_header length_ext_bytes)

lemma can_grow_opt:
  "can_grow h pdu (n + length v + 5) \<Longrightarrow> can_grow h pdu (n + opt_size p (k, v))"
  using opt_size_bound [of p k v] by (auto intro: can_grow_mono)

lemma max_opt_number:
  assumes "represents pdu tok os pay" "k < 65536"
  shows "word_of_nat k \<ge> max_opt pdu \<longleftrightarrow> last_number 0 os \<le> k" "word_of_nat k = max_opt pdu \<longleftrightarrow> k = last_number 0 os"
    "last_number 0 os < 65536"
proof -
  show "last_number 0 os < 65536" using assms(1) options_ok_last [of 0 os] by (simp add: represents_def)
  then show "word_of_nat k \<ge> max_opt pdu \<longleftrightarrow> last_number 0 os \<le> k" "word_of_nat k = max_opt pdu \<longleftrightarrow> k = last_number 0 os"
    using assms number_eq_iff by (auto simp: represents_def word_le_nat_alt)
qed

lemma adds_hop_limit_word:
  assumes "k < 65536"
  shows "COAP_PDU_IS_REQUEST pdu \<and> (word_of_nat k = COAP_OPTION_PROXY_URI \<or> word_of_nat k = COAP_OPTION_PROXY_SCHEME)
    \<longleftrightarrow> adds_hop_limit pdu k"
  using number_eq_iff [OF assms, of 35] number_eq_iff [OF assms, of 39]
  by (auto simp: adds_hop_limit_def COAP_OPTION_PROXY_URI_def COAP_OPTION_PROXY_SCHEME_def)

end
