(* ===== verification/Coap_Add.thy ===== *)
theory Coap_Add
  imports Coap_Build
begin

unbundle bit_operations_syntax

text \<open>
  Adding an option in order, \<open>coap_insert_option\<close> and \<open>coap_add_option_internal\<close>, as
  operations on lists of options: with the Hop-Limit option that a request gets together with a
  proxy option (RFC 8768), and with what the functions leave alone.
\<close>

section \<open>What stays of a message\<close>

lemma resize_keeps:
  "coap_pdu_resize h pdu n = Some (ok, pdu') \<Longrightarrow> max_size pdu' = max_size pdu \<and> pdu_code pdu' = pdu_code pdu"
  unfolding coap_pdu_resize_def by (cases "data pdu") (auto simp: bind_eq_Some_conv split: if_splits)

lemma check_resize_keeps:
  "coap_pdu_check_resize h pdu n = Some (ok, pdu') \<Longrightarrow> max_size pdu' = max_size pdu \<and> pdu_code pdu' = pdu_code pdu"
  unfolding coap_pdu_check_resize_def by (auto simp: bind_eq_Some_conv dest: resize_keeps split: if_split_asm)

lemma append_option_keeps:
  assumes "append_option h pdu number len val = Some (n, pdu')"
  shows "max_size pdu' = max_size pdu \<and> pdu_code pdu' = pdu_code pdu"
proof -
  obtain ok pdu1 where r: "coap_pdu_check_resize h pdu (used_size pdu + coap_opt_encode_size (number - max_opt pdu) len) = Some (ok, pdu1)"
    using assms by (auto simp: append_option_def bind_eq_Some_conv Let_def)
  note keeps = check_resize_keeps [OF r]
  show ?thesis
  proof (cases "data pdu1")
    case None
    then show ?thesis
      using assms r keeps by (cases ok) (auto simp: append_option_def bind_eq_Some_conv Let_def split: if_splits)
  next
    case (Some d)
    then show ?thesis
      using assms r keeps by (cases ok) (auto simp: append_option_def bind_eq_Some_conv Let_def split: if_splits)
  qed
qed

lemma insert_before_keeps:
  assumes "insert_before h pdu number len val = Some (n, pdu')"
  shows "max_size pdu' = max_size pdu \<and> pdu_code pdu' = pdu_code pdu"
proof -
  obtain y oi prev_number r where run: "find_option (mem pdu) (\<lambda>k. k > number) (snd (coap_option_iterator_init pdu None)) 0 = Some (Some y, oi, prev_number)"
    "coap_opt_parse (mem pdu) y (used_size pdu - y) = Some r"
    using assms by (auto simp: insert_before_def bind_eq_Some_conv Let_def)
  show ?thesis
  proof (cases r)
    case Rejected
    then show ?thesis using assms run by (simp add: insert_before_def)
  next
    case (Accepted a)
    then show ?thesis
      using assms run by (cases a) (auto simp: insert_before_def bind_eq_Some_conv Let_def split: if_splits dest!: check_resize_keeps)
  qed
qed

lemma insert_opt_size:
  "options_ok p os \<Longrightarrow> p \<le> k \<Longrightarrow> length (encode_opts p (insert_opt k v os)) \<le> length (encode_opts p os) + length v + 5"
proof (induction os arbitrary: p)
  case Nil
  then show ?case by (simp add: insert_opt_def length_opt_header length_ext_bytes)
next
  case (Cons o1 os)
  obtain k' v' where o1: "o1 = (k', v')" by (cases o1)
  show ?case
  proof (cases "k' \<le> k")
    case True
    have "options_ok k' os" using Cons.prems(1) o1 by simp
    from Cons.IH [OF this True] show ?thesis using True o1 by (simp add: insert_opt_def)
  next
    case False
    then have "length (ext_bytes (k' - k)) \<le> length (ext_bytes (k' - p))"
      using Cons.prems(2) by (auto simp: length_ext_bytes)
    then show ?thesis using False o1 by (simp add: insert_opt_def length_opt_header length_ext_bytes)
  qed
qed

section \<open>Behind the Hop-Limit option\<close>

text \<open>The end of \<open>coap_add_option_internal\<close>, where the option itself finds its place.\<close>

definition place_option :: "heap \<Rightarrow> coap_pdu \<Rightarrow> u16 \<Rightarrow> nat \<Rightarrow> bytes option \<Rightarrow> (nat \<times> coap_pdu) option" where
  "place_option h pdu number len val =
     (if number < max_opt pdu then insert_before h pdu number len val else append_option h pdu number len val)"

lemma place_option_keeps:
  "place_option h pdu number len val = Some (n, pdu') \<Longrightarrow> max_size pdu' = max_size pdu \<and> pdu_code pdu' = pdu_code pdu"
  unfolding place_option_def using append_option_keeps insert_before_keeps by (metis (full_types))

lemma place_option_represents:
  assumes rep: "represents pdu tok os pay" and k: "k < 65536" and v: "length v < 65805"
    and fits: "used_size pdu + length v + 5 \<le> 2 ^ 31"
  shows "\<exists>n pdu'. place_option h pdu (word_of_nat k) (length v) (Some v) = Some (n, pdu') \<and>
    represents pdu' tok (if n = 0 then os else insert_opt k v os) pay \<and>
    (can_grow h pdu (used_size pdu + length v + 5) \<longrightarrow> n \<noteq> 0)"
proof -
  note max = max_opt_number [OF rep k]
  have ok: "options_ok 0 os" using rep by (simp add: represents_def)
  show ?thesis
  proof (cases "last_number 0 os \<le> k")
    case True
    have "used_size pdu + opt_size (last_number 0 os) (k, v) \<le> 2 ^ 31"
      using fits opt_size_bound [of "last_number 0 os" k v] by linarith
    from append_option_represents [OF rep True k v this] obtain n pdu' where
      a: "append_option h pdu (word_of_nat k) (length v) (Some v) = Some (n, pdu')"
        "if n = 0 then represents pdu' tok os pay else
          n = opt_size (last_number 0 os) (k, v) \<and> represents pdu' tok (os @ [(k, v)]) pay"
        "can_grow h pdu (used_size pdu + opt_size (last_number 0 os) (k, v)) \<longrightarrow> n \<noteq> 0"
      by blast
    then have rep': "represents pdu' tok (if n = 0 then os else insert_opt k v os) pay"
      by (cases "n = 0") (simp_all add: insert_opt_append [OF ok True])
    have "(word_of_nat k < max_opt pdu) = False" using max(1) True by (simp add: not_less)
    then show ?thesis
      using a(1,3) rep' can_grow_opt [of h pdu "used_size pdu" v "last_number 0 os" k] by (auto simp: place_option_def)
  next
    case False
    then have "k < last_number 0 os" by simp
    then obtain ys k' v' zs where s: "os = ys @ (k', v') # zs" "\<forall>(j, u) \<in> set ys. j \<le> k" "k < k'"
      "insert_opt k v os = ys @ (k, v) # (k', v') # zs"
      using insert_opt_split [OF ok] by blast
    have "used_size pdu + opt_size (last_number 0 ys) (k, v) \<le> 2 ^ 31"
      using fits opt_size_bound [of "last_number 0 ys" k v] by linarith
    from insert_before_represents [OF rep [unfolded s(1)] v s(2,3) this] obtain n pdu' where
      a: "insert_before h pdu (word_of_nat k) (length v) (Some v) = Some (n, pdu')"
        "if n = 0 then represents pdu' tok (ys @ (k', v') # zs) pay else
          n = opt_size (last_number 0 ys) (k, v) \<and> represents pdu' tok (ys @ (k, v) # (k', v') # zs) pay"
        "can_grow h pdu (used_size pdu + opt_size (last_number 0 ys) (k, v)) \<longrightarrow> n \<noteq> 0"
      by blast
    then have rep': "represents pdu' tok (if n = 0 then os else insert_opt k v os) pay"
      by (cases "n = 0") (simp_all add: s(1,4) [symmetric])
    have "word_of_nat k < max_opt pdu" using max(1) False by (simp add: not_le)
    then show ?thesis
      using a(1,3) rep' can_grow_opt [of h pdu "used_size pdu" v "last_number 0 ys" k] by (auto simp: place_option_def)
  qed
qed

section \<open>With the Hop-Limit option\<close>

text \<open>A proxy option brings a Hop-Limit option (number 16, value 16) into a request that has none.\<close>

definition takes_hop_limit :: "bool \<Rightarrow> nat \<Rightarrow> options \<Rightarrow> bool" where
  "takes_hop_limit request k os \<longleftrightarrow> request \<and> k \<in> {35, 39} \<and> k \<noteq> last_number 0 os \<and> 16 \<notin> fst ` set os"

text \<open>The bytes an option may need, with the Hop-Limit option where it may come.\<close>

definition opt_room :: "bool \<Rightarrow> nat \<times> bytes \<Rightarrow> nat" where
  "opt_room request = (\<lambda>(k, v). length v + (if request \<and> k \<in> {35, 39} then 11 else 5))"

lemma insert_opt_used:
  assumes "represents pdu tok os pay" "represents pdu' tok (if n = 0 then os else insert_opt k v os) pay"
  shows "used_size pdu' \<le> used_size pdu + length v + 5"
proof -
  have "options_ok 0 os" "used_size pdu = length (msg_bytes tok os pay)" using assms(1) unfolding represents_def by blast+
  moreover have "used_size pdu' = length (msg_bytes tok (if n = 0 then os else insert_opt k v os) pay)"
    using assms(2) unfolding represents_def by blast
  ultimately show ?thesis using insert_opt_size [of 0 os k v] by (auto simp: msg_bytes_def)
qed

lemma last_number_in: "0 < last_number 0 os \<Longrightarrow> last_number 0 os \<in> fst ` set os"
  by (cases "os = []") (auto simp: last_number_def)

lemma hop_limit_represents:
  assumes rep: "represents pdu tok os pay" and none: "16 \<notin> fst ` set os" and fits: "used_size pdu + 6 \<le> 2 ^ 31"
  obtains n pdu' where "insert_hop_limit h pdu = Some (n, pdu')"
    "represents pdu' tok (if n = 0 then os else insert_opt 16 [16] os) pay"
    "can_grow h pdu (used_size pdu + 6) \<longrightarrow> n \<noteq> 0" "max_size pdu' = max_size pdu" "pdu_code pdu' = pdu_code pdu"
    "used_size pdu' \<le> used_size pdu + 6"
proof -
  have "16 \<noteq> last_number 0 os"
  proof
    assume "16 = last_number 0 os"
    with last_number_in [of os] none show False by simp
  qed
  then have "word_of_nat 16 \<noteq> max_opt pdu" using max_opt_number(2) [OF rep, of 16] by simp
  then have hop: "insert_hop_limit h pdu = place_option h pdu (word_of_nat 16) (length [16 :: u8]) (Some [16])"
    by (cases "max_opt pdu \<le> 16") (auto simp: insert_hop_limit_def place_option_def COAP_OPTION_HOP_LIMIT_def Let_def)
  have size: "used_size pdu + length [16 :: u8] + 5 = used_size pdu + 6" by simp
  have "used_size pdu + length [16 :: u8] + 5 \<le> 2 ^ 31" using fits by simp
  have small: "(16 :: nat) < 65536" "length [16 :: u8] < 65805" by simp_all
  from place_option_represents [OF rep small \<open>used_size pdu + length [16 :: u8] + 5 \<le> 2 ^ 31\<close>, of h, unfolded size] obtain n pdu' where
    "insert_hop_limit h pdu = Some (n, pdu')" "represents pdu' tok (if n = 0 then os else insert_opt 16 [16] os) pay"
    "can_grow h pdu (used_size pdu + 6) \<longrightarrow> n \<noteq> 0"
    unfolding hop by blast
  moreover from this have "max_size pdu' = max_size pdu \<and> pdu_code pdu' = pdu_code pdu"
    unfolding hop by (blast dest: place_option_keeps)
  moreover have "used_size pdu' \<le> used_size pdu + 6" using insert_opt_used [OF rep calculation(2)] by simp
  ultimately show thesis using that by blast
qed

lemma proxy_once: "k \<in> {35, 39} \<Longrightarrow> \<not> coap_option_check_repeatable (word_of_nat k)"
  by (auto simp: coap_option_check_repeatable_def)

lemma add_option_run:
  assumes rep: "represents pdu tok os pay" and k: "k < 65536"
  shows "coap_add_option_internal h pdu (word_of_nat k) len val =
    (if k = last_number 0 os \<and> \<not> coap_option_check_repeatable (word_of_nat k) then Some (0, pdu)
     else if takes_hop_limit (COAP_PDU_IS_REQUEST pdu) k os
     then do { (_, pdu) \<leftarrow> insert_hop_limit h pdu; place_option h pdu (word_of_nat k) len val }
     else place_option h pdu (word_of_nat k) len val)"
proof -
  obtain oi where check: "coap_check_option pdu COAP_OPTION_HOP_LIMIT = Some (if 16 \<in> fst ` set os
    then Some (length (token_bytes tok) + length (encode_opts 0 (takeWhile (\<lambda>o1. fst o1 \<noteq> 16) os))) else None, oi)"
    using coap_check_option_finds [OF rep, of 16] by (auto simp: COAP_OPTION_HOP_LIMIT_def)
  have proxy: "COAP_PDU_IS_REQUEST pdu \<and> (word_of_nat k = COAP_OPTION_PROXY_URI \<or> word_of_nat k = COAP_OPTION_PROXY_SCHEME)
      \<longleftrightarrow> adds_hop_limit pdu k"
    by (rule adds_hop_limit_word [OF k])
  have hop: "takes_hop_limit (COAP_PDU_IS_REQUEST pdu) k os \<longleftrightarrow> adds_hop_limit pdu k \<and> 16 \<notin> fst ` set os"
    if "\<not> (k = last_number 0 os \<and> \<not> coap_option_check_repeatable (word_of_nat k))"
    using that proxy_once [of k] by (auto simp: takes_hop_limit_def adds_hop_limit_def)
  have early: "word_of_nat k = max_opt pdu \<longleftrightarrow> k = last_number 0 os" by (rule max_opt_number(2) [OF rep k])
  show ?thesis
  proof (cases "k = last_number 0 os \<and> \<not> coap_option_check_repeatable (word_of_nat k)")
    case True
    then have "coap_add_option_internal h pdu (word_of_nat k) len val = Some (0, pdu)"
      unfolding coap_add_option_internal_def early by (rule if_P)
    then show ?thesis unfolding if_P [OF True] .
  next
    case False
    then show ?thesis
      unfolding coap_add_option_internal_def early proxy hop [OF False] place_option_def [symmetric] check
      by (cases "insert_hop_limit h pdu") auto
  qed
qed

lemma add_option_eq:
  assumes rep: "represents pdu tok os pay" and k: "k < 65536" and v: "length v < 65805"
    and fits: "used_size pdu + opt_room (COAP_PDU_IS_REQUEST pdu) (k, v) \<le> 2 ^ 31"
  shows "\<exists>n pdu' os0. coap_add_option_internal h pdu (word_of_nat k) (length v) (Some v) = Some (n, pdu') \<and>
    represents pdu' tok (if n = 0 then os0 else insert_opt k v os0) pay \<and>
    (os0 = os \<or> takes_hop_limit (COAP_PDU_IS_REQUEST pdu) k os \<and> os0 = insert_opt 16 [16] os) \<and>
    (can_grow h pdu (used_size pdu + opt_room (COAP_PDU_IS_REQUEST pdu) (k, v)) \<longrightarrow>
       (n = 0 \<longleftrightarrow> k = last_number 0 os \<and> \<not> coap_option_check_repeatable (word_of_nat k)) \<and>
       (takes_hop_limit (COAP_PDU_IS_REQUEST pdu) k os \<longrightarrow> os0 = insert_opt 16 [16] os)) \<and>
    used_size pdu' \<le> used_size pdu + opt_room (COAP_PDU_IS_REQUEST pdu) (k, v) \<and>
    max_size pdu' = max_size pdu \<and> pdu_code pdu' = pdu_code pdu"
proof -
  let ?req = "COAP_PDU_IS_REQUEST pdu"
  note run = add_option_run [OF rep k, of h "length v" "Some v"]
  have room: "length v + 5 \<le> opt_room ?req (k, v)" by (simp add: opt_room_def)
  consider "k = last_number 0 os \<and> \<not> coap_option_check_repeatable (word_of_nat k)"
    | "\<not> (k = last_number 0 os \<and> \<not> coap_option_check_repeatable (word_of_nat k))" "\<not> takes_hop_limit ?req k os"
    | "\<not> (k = last_number 0 os \<and> \<not> coap_option_check_repeatable (word_of_nat k))" "takes_hop_limit ?req k os"
    by blast
  then show ?thesis
  proof cases
    case 1
    then show ?thesis using rep run by (intro exI [of _ 0] exI [of _ pdu] exI [of _ os]) (auto simp: takes_hop_limit_def)
  next
    case 2
    have "used_size pdu + length v + 5 \<le> 2 ^ 31" using fits room by simp
    from place_option_represents [OF rep k v this] obtain n pdu' where
      p: "place_option h pdu (word_of_nat k) (length v) (Some v) = Some (n, pdu')"
        "represents pdu' tok (if n = 0 then os else insert_opt k v os) pay"
        "can_grow h pdu (used_size pdu + length v + 5) \<longrightarrow> n \<noteq> 0" by blast
    have grow: "can_grow h pdu (used_size pdu + opt_room ?req (k, v)) \<Longrightarrow> can_grow h pdu (used_size pdu + length v + 5)"
      using room by (auto intro: can_grow_mono)
    have keeps: "max_size pdu' = max_size pdu" "pdu_code pdu' = pdu_code pdu" using place_option_keeps [OF p(1)] by simp_all
    have "used_size pdu' \<le> used_size pdu + opt_room ?req (k, v)" using insert_opt_used [OF rep p(2)] room by simp
    then show ?thesis
      using run p grow keeps 2 by (intro exI [of _ n] exI [of _ pdu'] exI [of _ os]) auto
  next
    case 3
    then have none: "16 \<notin> fst ` set os" and big: "opt_room ?req (k, v) = length v + 11"
      by (auto simp: takes_hop_limit_def opt_room_def)
    have "used_size pdu + 6 \<le> 2 ^ 31" using fits big by simp
    then obtain m pdu1 where hop: "insert_hop_limit h pdu = Some (m, pdu1)"
        "represents pdu1 tok (if m = 0 then os else insert_opt 16 [16] os) pay"
        "can_grow h pdu (used_size pdu + 6) \<longrightarrow> m \<noteq> 0" "max_size pdu1 = max_size pdu" "pdu_code pdu1 = pdu_code pdu"
        "used_size pdu1 \<le> used_size pdu + 6"
      by (rule hop_limit_represents [OF rep none])
    define os0 where "os0 = (if m = 0 then os else insert_opt 16 [16] os)"
    have rep1: "represents pdu1 tok os0 pay" using hop(2) by (simp add: os0_def)
    have "used_size pdu1 + length v + 5 \<le> 2 ^ 31" using fits big hop(6) by simp
    from place_option_represents [OF rep1 k v this] obtain n pdu' where
      p: "place_option h pdu1 (word_of_nat k) (length v) (Some v) = Some (n, pdu')"
        "represents pdu' tok (if n = 0 then os0 else insert_opt k v os0) pay"
        "can_grow h pdu1 (used_size pdu1 + length v + 5) \<longrightarrow> n \<noteq> 0" by blast
    have grow: "m \<noteq> 0 \<and> n \<noteq> 0" if g: "can_grow h pdu (used_size pdu + opt_room ?req (k, v))"
    proof -
      have "can_grow h pdu (used_size pdu + 6)" using g big by (auto intro: can_grow_mono)
      moreover have "can_grow h pdu1 (used_size pdu1 + length v + 5)" using g big hop(4,6) by (auto simp: can_grow_def)
      ultimately show ?thesis using hop(3) p(3) by blast
    qed
    have keeps: "max_size pdu' = max_size pdu" "pdu_code pdu' = pdu_code pdu" using place_option_keeps [OF p(1)] hop(4,5) by simp_all
    have "used_size pdu' \<le> used_size pdu + opt_room ?req (k, v)" using insert_opt_used [OF rep1 p(2)] hop(6) big by simp
    then show ?thesis
      using run 3 hop(1) p(1,2) grow keeps by (intro exI [of _ n] exI [of _ pdu'] exI [of _ os0]) (auto simp: os0_def)
  qed
qed

lemma insert_option_eq:
  assumes rep: "represents pdu tok os pay" and k: "k < 65536" and v: "length v < 65805"
    and fits: "used_size pdu + opt_room (COAP_PDU_IS_REQUEST pdu) (k, v) \<le> 2 ^ 31"
  shows "\<exists>n pdu' os0. coap_insert_option h pdu (word_of_nat k) (length v) (Some v) = Some (n, pdu') \<and>
    represents pdu' tok (if n = 0 then os0 else insert_opt k v os0) pay \<and>
    (os0 = os \<or> last_number 0 os < k \<and> takes_hop_limit (COAP_PDU_IS_REQUEST pdu) k os \<and> os0 = insert_opt 16 [16] os) \<and>
    (can_grow h pdu (used_size pdu + opt_room (COAP_PDU_IS_REQUEST pdu) (k, v)) \<longrightarrow>
       (n = 0 \<longleftrightarrow> k = last_number 0 os \<and> \<not> coap_option_check_repeatable (word_of_nat k)) \<and>
       (last_number 0 os < k \<and> takes_hop_limit (COAP_PDU_IS_REQUEST pdu) k os \<longrightarrow> os0 = insert_opt 16 [16] os))"
proof (cases "last_number 0 os \<le> k")
  case True
  then have "coap_insert_option h pdu (word_of_nat k) (length v) (Some v) =
      coap_add_option_internal h pdu (word_of_nat k) (length v) (Some v)"
    using max_opt_number(1) [OF rep k] by (simp add: coap_insert_option_def)
  moreover have "takes_hop_limit r k os \<longleftrightarrow> last_number 0 os < k \<and> takes_hop_limit r k os" for r
    using True by (auto simp: takes_hop_limit_def)
  ultimately show ?thesis using add_option_eq [OF rep k v fits, of h] by metis
next
  case False
  then have up: "\<not> word_of_nat k \<ge> max_opt pdu" using max_opt_number(1) [OF rep k] by simp
  then have run: "coap_insert_option h pdu (word_of_nat k) (length v) (Some v) = place_option h pdu (word_of_nat k) (length v) (Some v)"
    using up not_le unfolding coap_insert_option_def place_option_def by (metis (full_types))
  have room: "length v + 5 \<le> opt_room (COAP_PDU_IS_REQUEST pdu) (k, v)" by (simp add: opt_room_def)
  have "used_size pdu + length v + 5 \<le> 2 ^ 31" using fits room by simp
  from place_option_represents [OF rep k v this] obtain n pdu' where
    p: "place_option h pdu (word_of_nat k) (length v) (Some v) = Some (n, pdu')"
      "represents pdu' tok (if n = 0 then os else insert_opt k v os) pay"
      "can_grow h pdu (used_size pdu + length v + 5) \<longrightarrow> n \<noteq> 0" by blast
  have "can_grow h pdu (used_size pdu + opt_room (COAP_PDU_IS_REQUEST pdu) (k, v)) \<Longrightarrow> can_grow h pdu (used_size pdu + length v + 5)"
    using room by (auto intro: can_grow_mono)
  then show ?thesis using run p False by (intro exI [of _ n] exI [of _ pdu'] exI [of _ os]) auto
qed

end
