(* ===== verification/Coap_Revise.thy ===== *)
theory Coap_Revise
  imports Coap_Add
begin

unbundle bit_operations_syntax

text \<open>
  Changing a finished message: removing an option, replacing its value, replacing the token, and
  the editing functions as operations on lists of options.
\<close>

section \<open>Removing\<close>

text \<open>The header of the following option grows into the removed one.\<close>

lemma merge_delta_eq:
  assumes d: "d2 \<le> e" "e < 65536" and G: "length (ext_bytes (e - d2)) < length G"
  shows "\<exists>J. merge_delta (C @ G @ opt_header d2 n @ R) (length C + length G) e (word_of_nat d2) =
      Some (length C + length J, C @ J @ opt_header e n @ R) \<and>
    length J + length (opt_header e n) = length G + length (opt_header d2 n)"
proof -
  define N where "N = ext_bytes n @ R"
  define b :: u8 where "b = word_of_nat (16 * ext_nibble d2 + ext_nibble n)"
  have H: "opt_header d2 n @ R = b # ext_bytes d2 @ N"
    "opt_header e n @ R = word_of_nat (16 * ext_nibble e + ext_nibble n) # ext_bytes e @ N"
    by (simp_all add: opt_header_def N_def b_def)
  have len: "length J + length (opt_header e n) = length G + length (opt_header d2 n) \<longleftrightarrow>
    length J + length (ext_bytes e) = length G + length (ext_bytes d2)" for J :: bytes
    by (simp add: length_opt_header)
  have w: "(word_of_nat d2 :: u16) < 13 \<longleftrightarrow> d2 < 13" "(word_of_nat d2 :: u16) < 269 \<longleftrightarrow> d2 < 269"
    using d by (simp_all add: word_less_nat_alt)
  have swap: "(b AND 0x0F) + word_of_nat (e * 16) = word_of_nat (16 * e + ext_nibble n)"
    "(b AND 0x0F) + 0xD0 = word_of_nat (16 * 13 + ext_nibble n)"
    "(b AND 0x0F) + 0xE0 = word_of_nat (16 * 14 + ext_nibble n)"
    using header_byte_swap [of d2 n e] header_byte_swap [of d2 n 13] header_byte_swap [of d2 n 14] unfolding b_def by simp_all
  note del = of_nat_add of_nat_mult of_nat_diff
  obtain G' x where G': "G = G' @ [x]" using G by (cases G rule: rev_cases) auto
  have load: "c_load (C @ G @ b # Y) (length C + length G) = Some b"
    "c_store (C @ G @ b # Y) (length C + length G) v = Some (C @ G @ v # Y)" for Y v
    by (simp_all add: c_load_def c_store_def nth_append list_update_append)
  have st1: "c_store (C @ G' @ y # b # Y) (length C + length G') v = Some (C @ G' @ v # b # Y)"
    "c_store (C @ G' @ y # b # Y) (Suc (length C + length G')) v = Some (C @ G' @ y # v # Y)"
    "c_load (C @ G' @ y # b # Y) (Suc (length C + length G')) = Some b"
    "c_store (C @ G' @ y # z # u # Y) (Suc (Suc (length C + length G'))) v = Some (C @ G' @ y # z # v # Y)"
    "c_store (C @ G' @ y # z # Y) (Suc (length C + length G')) v = Some (C @ G' @ y # v # Y)"
    "c_store (C @ G' @ y # z # u # t # Y) (Suc (Suc (Suc (length C + length G')))) v = Some (C @ G' @ y # z # u # v # Y)"
    for Y v y z u t
    by (simp_all add: c_store_def c_load_def list_update_append nth_append)
  consider "e < 13" | "e < 269" "\<not> e < 13" "d2 < 13" | "e < 269" "\<not> d2 < 13"
    | "\<not> e < 269" "d2 < 13" | "\<not> e < 269" "\<not> d2 < 13" "d2 < 269" | "\<not> e < 269" "\<not> d2 < 269" by linarith
  then have "\<exists>J. merge_delta (C @ G @ b # ext_bytes d2 @ N) (length C + length G) e (word_of_nat d2) =
      Some (length C + length J, C @ J @ word_of_nat (16 * ext_nibble e + ext_nibble n) # ext_bytes e @ N) \<and>
    length J + length (ext_bytes e) = length G + length (ext_bytes d2)"
  proof cases
    case 1
    then have "ext_bytes d2 = []" "ext_bytes e = []" "ext_nibble e = e" using d by (simp_all add: ext_bytes_def ext_nibble_def)
    then show ?thesis
      using 1 by (intro exI [of _ G]) (simp add: merge_delta_def w swap load del: del)
  next
    case 2
    then have "ext_bytes d2 = []" "ext_bytes e = [word_of_nat (e - 13)]" "ext_nibble e = 13"
      by (simp_all add: ext_bytes_def ext_nibble_def del: del)
    then show ?thesis
      using 2 G' by (intro exI [of _ G']) (simp add: merge_delta_def w swap st1 del: del)
  next
    case 3
    then have "ext_bytes d2 = [word_of_nat (d2 - 13)]" "ext_bytes e = [word_of_nat (e - 13)]" "ext_nibble e = 13" "ext_nibble d2 = 13" "\<not> e < 13"
      using d by (simp_all add: ext_bytes_def ext_nibble_def del: del)
    moreover from this have "word_of_nat (208 + ext_nibble n) = b" by (simp add: b_def del: del)
    ultimately show ?thesis
      using 3 G' by (intro exI [of _ G]) (simp add: merge_delta_def w st1 del: del)
  next
    case 4
    then have "2 \<le> length G" using G by (auto simp: ext_bytes_def split: if_splits)
    then obtain G'' y where G'': "G' = G'' @ [y]" using G' by (cases G' rule: rev_cases) auto
    from 4 have "ext_bytes d2 = []" "ext_bytes e = [word_of_nat ((e - 269) div 256), word_of_nat (e - 269)]" "ext_nibble e = 14"
      using d by (simp_all add: ext_bytes_def ext_nibble_def del: del)
    then show ?thesis
      using 4 G' G'' by (intro exI [of _ G'']) (simp add: merge_delta_def w swap c_load_def c_store_def nth_append list_update_append del: del)
  next
    case 5
    then have "ext_bytes d2 = [word_of_nat (d2 - 13)]" "ext_nibble e = 14"
      "ext_bytes e = [word_of_nat ((e - 269) div 256), word_of_nat (e - 269)]"
      using d by (simp_all add: ext_bytes_def ext_nibble_def del: del)
    then show ?thesis
      using 5 G' by (intro exI [of _ G']) (simp add: merge_delta_def w swap st1 del: del)
  next
    case 6
    then have "ext_bytes d2 = [word_of_nat ((d2 - 269) div 256), word_of_nat (d2 - 269)]" "ext_nibble e = 14" "ext_nibble d2 = 14"
      "\<not> e < 269" "ext_bytes e = [word_of_nat ((e - 269) div 256), word_of_nat (e - 269)]"
      using d by (simp_all add: ext_bytes_def ext_nibble_def del: del)
    moreover from this have "word_of_nat (224 + ext_nibble n) = b" by (simp add: b_def del: del)
    ultimately show ?thesis
      using 6 G' by (intro exI [of _ G]) (simp add: merge_delta_def w st1 del: del)
  qed
  then show ?thesis unfolding H len .
qed

lemma close_gap_eq:
  assumes "mem pdu = C @ G @ P @ R" "used_size pdu = length C + length G + length P"
  shows "\<exists>R'. close_gap pdu (length C) (length C + length G) =
      Some (True, pdu\<lparr>mem := C @ P @ R', used_size := length C + length P,
                        data := map_option (\<lambda>d. d - length G) (data pdu)\<rparr>) \<and> length R' = length G + length R"
proof (cases "P = []")
  case True
  then show ?thesis using assms by (intro exI [of _ "G @ R"]) (simp add: close_gap_def)
next
  case False
  then have "length P > 0" by simp
  then show ?thesis
    using assms memmove_down [of C G P R]
    by (intro exI [of _ "drop (length P) (G @ P) @ R"]) (simp add: close_gap_def)
qed

text \<open>A buffer with one option cut out represents the message without it.\<close>

lemma represents_cut:
  assumes rep: "represents pdu tok (ys @ (k, v) # zs) pay"
    and m: "m = msg_bytes tok (ys @ zs) pay @ R"
    and g: "length (msg_bytes tok (ys @ zs) pay) + g = used_size pdu" "length m = length (mem pdu)"
  shows "represents (pdu\<lparr>max_opt := word_of_nat (last_number 0 (ys @ zs)), mem := m,
      used_size := length (msg_bytes tok (ys @ zs) pay), data := map_option (\<lambda>d. d - g) (data pdu)\<rparr>) tok (ys @ zs) pay"
    (is "represents ?pdu _ _ _")
proof -
  have "options_ok 0 (ys @ (k, v) # zs)" using rep by (simp add: represents_def)
  then have ordered: "options_ok 0 (ys @ zs)"
    by (cases zs) (auto simp: options_ok_append)
  have "length (token_bytes tok @ encode_opts 0 (ys @ zs)) + g = length (token_bytes tok @ encode_opts 0 (ys @ (k, v) # zs))"
    using g(1) rep by (simp add: represents_def msg_bytes_def)
  then have "data ?pdu = (if pay = [] then None else Some (length (token_bytes tok @ encode_opts 0 (ys @ zs)) + 1))"
    using rep by (auto simp: represents_def)
  moreover have "used_size ?pdu \<le> alloc_size ?pdu" "alloc_size ?pdu \<le> length (mem ?pdu)"
    "used_size ?pdu = length (msg_bytes tok (ys @ zs) pay)"
    using g rep by (simp_all add: represents_def)
  moreover have "mem ?pdu = msg_bytes tok (ys @ zs) pay @ R" using m by simp
  moreover have "length tok \<le> COAP_TOKEN_EXT_MAX" "token_length ?pdu = length tok"
    "token_s ?pdu = length (ext_bytes (length tok))" "e_token_length ?pdu = length (token_bytes tok)"
    "max_opt ?pdu = word_of_nat (last_number 0 (ys @ zs))"
    using rep by (simp_all add: represents_def)
  ultimately show ?thesis using ordered unfolding represents_def by blast
qed

lemma remove_option_represents:
  assumes rep: "represents pdu tok (ys @ (k, v) # zs) pay" and ys: "\<forall>(j, u) \<in> set ys. j \<noteq> k"
  shows "\<exists>pdu'. coap_remove_option h pdu (word_of_nat k) = Some (True, pdu') \<and> represents pdu' tok (ys @ zs) pay"
proof -
  let ?C = "token_bytes tok @ encode_opts 0 ys" and ?p = "last_number 0 ys"
  let ?H = "opt_header (k - ?p) (length v)" and ?T = "encode_opts k zs @ payload_bytes pay"
  have ok: "options_ok 0 (ys @ (k, v) # zs)" using rep by (simp add: represents_def)
  then have ok': "options_ok 0 ys" "?p \<le> k" "k < 65536" "length v < 65805" "options_ok k zs"
    by (simp_all add: options_ok_append)
  have lt: "j < 65536" if "(j, u) \<in> set ys" for j u
    using options_ok_bounds [OF ok'(1) that] ok'(2,3) by simp
  have other: "\<forall>(j, u) \<in> set ys. word_of_nat j \<noteq> (word_of_nat k :: u16)"
    using ys lt number_eq_iff [OF _ ok'(3)] by fastforce
  obtain oi where oi: "find_option (mem pdu) (\<lambda>j. j = word_of_nat k) (snd (coap_option_iterator_init pdu None)) 0 =
      Some (Some (length ?C), oi, word_of_nat ?p)" "\<not> it_filtered oi"
    "iter_at (mem pdu) oi (length ?C + opt_size ?p (k, v)) k zs (payload_bytes pay)"
    by (rule find_option_represents [OF rep, where P = "\<lambda>j. j = word_of_nat k"]) (use other in auto)
  obtain slack where m: "mem pdu = ?C @ ?H @ v @ ?T @ slack"
    and used: "used_size pdu = length ?C + length ?H + length v + length ?T"
    using represents_mem_at [OF rep] .
  have parse: "coap_opt_parse (mem pdu) (length ?C) (used_size pdu - length ?C) = Some (Accepted
      (length ?H + length v, \<lparr>delta = word_of_nat (k - ?p), opt_len = length v, opt_val = length ?C + length ?H\<rparr>))"
    unfolding m used using ok'(3,4) by (intro coap_opt_parse_header) simp_all
  show ?thesis
  proof (cases zs)
    case Nil
    have len: "coap_opt_length (mem pdu) (length ?C) = Some (length v)"
      using accessors_agree(1) [OF parse] by simp
    have size: "coap_opt_encode_size (word_of_nat (k - ?p)) (length v) = length (?H @ v)"
      using ok'(3) unfolding coap_opt_encode_size_eq by (simp del: of_nat_diff)
    have max: "max_opt pdu - word_of_nat (k - ?p) = word_of_nat ?p"
      using rep Nil ok'(2) by (simp add: represents_def of_nat_diff)
    let ?pdu = "pdu\<lparr>max_opt := word_of_nat ?p\<rparr>"
    obtain R where R: "close_gap ?pdu (length ?C) (length ?C + length (?H @ v)) =
        Some (True, ?pdu\<lparr>mem := ?C @ payload_bytes pay @ R, used_size := length ?C + length (payload_bytes pay),
                        data := map_option (\<lambda>d. d - length (?H @ v)) (data ?pdu)\<rparr>)"
        "length R = length (?H @ v) + length slack"
      using close_gap_eq [of ?pdu ?C "?H @ v" "payload_bytes pay" slack] m used Nil by auto
    have "coap_remove_option h pdu (word_of_nat k) = close_gap ?pdu (length ?C) (length ?C + length (?H @ v))"
      using oi(1) parse iter_at_finished [OF oi(3) [unfolded Nil]] len size max
      by (simp add: coap_remove_option_def)
    moreover have "represents (pdu\<lparr>max_opt := word_of_nat (last_number 0 (ys @ zs)), mem := ?C @ payload_bytes pay @ R,
        used_size := length (msg_bytes tok (ys @ zs) pay), data := map_option (\<lambda>d. d - length (?H @ v)) (data pdu)\<rparr>) tok (ys @ zs) pay"
      by (rule represents_cut [OF rep, where R = R]) (use Nil used m R(2) in \<open>simp_all add: msg_bytes_def\<close>)
    ultimately show ?thesis using R(1) Nil by (simp add: msg_bytes_def add.assoc)
  next
    case (Cons z zs')
    then obtain k2 v2 where z: "zs = (k2, v2) # zs'" by (cases z) auto
    let ?H2 = "opt_header (k2 - k) (length v2)" and ?H' = "opt_header (k2 - ?p) (length v2)"
    let ?T2 = "encode_opts k2 zs' @ payload_bytes pay" and ?p2 = "length ?C + length (?H @ v)"
    have ok2: "k \<le> k2" "k2 < 65536" "length v2 < 65805" using ok'(5) z by simp_all
    have m2: "mem pdu = (?C @ ?H @ v) @ ?H2 @ (v2 @ ?T2 @ slack)" using m z by simp
    have used2: "used_size pdu = length (?C @ ?H @ v) + length ?H2 + length v2 + length ?T2" using used z by simp
    obtain oi2 where step: "coap_option_next (mem pdu) oi = Some (Some ?p2, oi2)"
      using iter_at_next [OF oi(3) [unfolded z] oi(2)] by (simp add: opt_size_def)
    have parse2: "coap_opt_parse (mem pdu) ?p2 (used_size pdu - ?p2) = Some (Accepted
        (length ?H2 + length v2, \<lparr>delta = word_of_nat (k2 - k), opt_len = length v2, opt_val = ?p2 + length ?H2\<rparr>))"
    proof -
      have "coap_opt_parse ((?C @ ?H @ v) @ ?H2 @ (v2 @ ?T2 @ slack)) (length (?C @ ?H @ v)) (used_size pdu - ?p2) = Some (Accepted
        (length ?H2 + length v2, \<lparr>delta = word_of_nat (k2 - k), opt_len = length v2, opt_val = length (?C @ ?H @ v) + length ?H2\<rparr>))"
        using ok2 used2 by (intro coap_opt_parse_header) simp_all
      then show ?thesis unfolding m2 by (simp add: add.assoc)
    qed
    have sum: "unat (word_of_nat (k - ?p) :: u16) + unat (word_of_nat (k2 - k) :: u16) = k2 - ?p"
      using ok'(2,3) ok2 by (simp del: of_nat_diff)
    have small: "(word_of_nat (k2 - k) :: u16) < 13 \<longleftrightarrow> k2 - k < 13"
      using ok2 by (simp add: word_less_nat_alt del: of_nat_diff)
    have room: "\<not> (k2 - ?p \<ge> 269 \<and> word_of_nat (k2 - k) < (13 :: u16) \<and> ?p2 - length ?C < 2)"
      using ok'(2) ok2 unfolding small by (auto simp: length_opt_header length_ext_bytes)
    obtain J where J: "merge_delta (mem pdu) ?p2 (k2 - ?p) (word_of_nat (k2 - k)) =
        Some (length ?C + length J, ?C @ J @ ?H' @ v2 @ ?T2 @ slack)"
      "length J + length ?H' = length (?H @ v) + length ?H2"
    proof -
      have "k2 - k \<le> k2 - ?p" "k2 - ?p < 65536" "length (ext_bytes (k2 - ?p - (k2 - k))) < length (?H @ v)"
        using ok'(2) ok2 by (simp_all add: length_opt_header)
      from merge_delta_eq [OF this, of ?C "length v2" "v2 @ ?T2 @ slack"]
      show thesis using that m2 by auto
    qed
    let ?P = "?H' @ v2 @ ?T2"
    have "length ?C + length J + length ?P = used_size pdu" using J(2) used2 by simp
    then obtain R where R: "close_gap (pdu\<lparr>mem := ?C @ J @ ?H' @ v2 @ ?T2 @ slack\<rparr>) (length ?C) (length ?C + length J) =
        Some (True, pdu\<lparr>mem := ?C @ ?P @ R, used_size := length ?C + length ?P, data := map_option (\<lambda>d. d - length J) (data pdu)\<rparr>)"
        "length R = length J + length slack"
      using close_gap_eq [of "pdu\<lparr>mem := ?C @ J @ ?H' @ v2 @ ?T2 @ slack\<rparr>" ?C J ?P slack] by auto
    have "coap_remove_option h pdu (word_of_nat k) =
        close_gap (pdu\<lparr>mem := ?C @ J @ ?H' @ v2 @ ?T2 @ slack\<rparr>) (length ?C) (length ?C + length J)"
      using room oi(1) parse step parse2 J(1) unfolding coap_remove_option_def
      by (auto simp: Let_def sum simp del: of_nat_diff unat_number)
    moreover have "represents (pdu\<lparr>max_opt := word_of_nat (last_number 0 (ys @ zs)), mem := ?C @ ?P @ R,
        used_size := length (msg_bytes tok (ys @ zs) pay), data := map_option (\<lambda>d. d - length J) (data pdu)\<rparr>) tok (ys @ zs) pay"
      by (rule represents_cut [OF rep, where R = R]) (use z used2 m2 R(2) J(2) in \<open>simp_all add: msg_bytes_def encode_opts_append\<close>)
    moreover have "word_of_nat (last_number 0 (ys @ zs)) = max_opt pdu" using rep z by (simp add: represents_def)
    ultimately show ?thesis using R(1) z by (simp add: msg_bytes_def encode_opts_append add.assoc)
  qed
qed

section \<open>Replacing a value\<close>

lemma update_option_represents:
  assumes rep: "represents pdu tok (ys @ (k, u) # zs) pay" and ys: "\<forall>(j, w) \<in> set ys. j \<noteq> k" and v: "length v < 65805"
    and fits: "used_size pdu + length v + 5 \<le> 2 ^ 31"
  shows "\<exists>n pdu'. coap_update_option h pdu (word_of_nat k) (length v) (Some v) = Some (n, pdu') \<and>
    represents pdu' tok (ys @ (k, if n = 0 then u else v) # zs) pay \<and>
    (can_grow h pdu (used_size pdu + length v + 5) \<longrightarrow> n \<noteq> 0)"
proof -
  let ?os = "ys @ (k, u) # zs" and ?C = "token_bytes tok @ encode_opts 0 ys" and ?p = "last_number 0 ys"
  let ?H = "opt_header (k - ?p) (length u)" and ?H' = "opt_header (k - ?p) (length v)"
  let ?T = "encode_opts k zs @ payload_bytes pay"
  let ?old = "length (?H @ u)" and ?new = "length (?H' @ v)"
  have ok: "options_ok 0 ?os" using rep by (simp add: represents_def)
  then have ok': "options_ok 0 ys" "?p \<le> k" "k < 65536" "length u < 65805" "options_ok k zs"
    by (simp_all add: options_ok_append)
  have before: "takeWhile (\<lambda>o1. fst o1 \<noteq> k) ?os = ys"
    using ys by (induction ys) auto
  have check: "\<exists>oi. coap_check_option pdu (word_of_nat k) = Some (Some (length ?C), oi)"
    if "represents pdu tok ?os pay" for pdu
    using coap_check_option_finds [OF that ok'(3)] unfolding before by simp
  obtain oi where oi: "coap_check_option pdu (word_of_nat k) = Some (Some (length ?C), oi)"
    using check [OF rep] by blast
  obtain slack where m: "mem pdu = ?C @ ?H @ u @ ?T @ slack"
    using represents_mem_at [OF rep] .
  have parse: "coap_opt_parse (mem pdu) (length ?C) (2 ^ 32 - 1) = Some (Accepted
      (?old, \<lparr>delta = word_of_nat (k - ?p), opt_len = length u, opt_val = length ?C + length ?H\<rparr>))"
    unfolding m length_append [of ?H u] using ok'(3,4)
    by (intro coap_opt_parse_header) (simp_all add: length_opt_header length_ext_bytes)
  have size: "coap_opt_encode_size (word_of_nat (k - ?p)) (length v) = ?new"
    using ok'(3) unfolding coap_opt_encode_size_eq by (simp del: of_nat_diff)
  have bound: "?new \<le> length v + 5" by (simp add: length_opt_header length_ext_bytes)
  obtain ok pdu1 where r: "(if ?new > ?old then coap_pdu_check_resize h pdu (used_size pdu + ?new - ?old) else Some (True, pdu)) = Some (ok, pdu1)"
    "regrown pdu pdu1" "ok \<longrightarrow> ?new > ?old \<longrightarrow> used_size pdu + ?new - ?old \<le> alloc_size pdu1"
    "can_grow h pdu (used_size pdu + length v + 5) \<longrightarrow> ok"
  proof (cases "?new > ?old")
    case True
    have "used_size pdu + ?new - ?old \<le> 2 ^ 31" using fits bound by linarith
    moreover have "can_grow h pdu (used_size pdu + length v + 5) \<Longrightarrow> can_grow h pdu (used_size pdu + ?new - ?old)"
      using bound by (auto intro: can_grow_mono)
    ultimately show thesis
      using coap_pdu_check_resize_regrown [OF represents_sizes_ok [OF rep], of "used_size pdu + ?new - ?old" h] True that
      by fastforce
  next
    case False
    then show thesis using that regrown_refl [OF represents_sizes_ok [OF rep]] by simp
  qed
  have rep1: "represents pdu1 tok ?os pay" using regrown_represents [OF rep r(2)] .
  obtain oi1 where oi1: "coap_check_option pdu1 (word_of_nat k) = Some (Some (length ?C), oi1)"
    using check [OF rep1] by blast
  define rest where "rest = (\<lambda>pdu :: coap_pdu. do {
     m \<leftarrow> (if ?new \<noteq> ?old then c_memmove (mem pdu) (length ?C + ?new) (length ?C + ?old) (used_size pdu - length ?C - ?old)
          else Some (mem pdu));
     (n, m) \<leftarrow> coap_opt_encode m (length ?C) ?new (word_of_nat (k - ?p)) (Some v) (length v);
     if n = 0 then Some (0, pdu\<lparr>mem := m\<rparr>)
     else Some (1 :: nat, pdu\<lparr>mem := m, used_size := used_size pdu + ?new - ?old,
                        data := map_option (\<lambda>d. d + ?new - ?old) (data pdu)\<rparr>)
   })"
  have run: "coap_update_option h pdu (word_of_nat k) (length v) (Some v) = (if ok then rest pdu1 else Some (0, pdu1))"
  proof (cases "?new > ?old")
    case True
    then have "coap_pdu_check_resize h pdu (used_size pdu + ?new - ?old) = Some (ok, pdu1)" using r(1) by simp
    then show ?thesis
      using True oi parse oi1 size unfolding coap_update_option_def rest_def by (simp add: Let_def del: length_append cong del: if_weak_cong)
  next
    case False
    then have "ok" "pdu1 = pdu" using r(1) by simp_all
    then show ?thesis
      using False oi parse size unfolding coap_update_option_def rest_def by (simp add: Let_def del: length_append cong del: if_weak_cong)
  qed
  show ?thesis
  proof (cases ok)
    case False
    then show ?thesis using run rep1 r(4) by simp
  next
    case True
    obtain slack where m: "mem pdu1 = ?C @ ?H @ u @ ?T @ slack"
      and used: "used_size pdu1 = length ?C + length ?H + length u + length ?T"
      and alloc: "alloc_size pdu1 \<le> length (mem pdu1)"
      using represents_mem_at [OF rep1] .
    have room: "?new \<le> ?old + length slack"
      using r(3) True alloc m used regrown_same(1) [OF r(2)] by (cases "?new > ?old") simp_all
    obtain X R where X: "(if ?new \<noteq> ?old then c_memmove (mem pdu1) (length ?C + ?new) (length ?C + ?old) (used_size pdu1 - length ?C - ?old)
          else Some (mem pdu1)) = Some (?C @ X @ ?T @ R)" "length X = ?new" "?new + length R = ?old + length slack"
    proof (cases "?new = ?old")
      case True
      then show thesis using that [of "?H @ u" slack] m by simp
    next
      case False
      have "used_size pdu1 - length ?C - ?old = length ?T" using used by simp
      then show thesis
        using memmove_gap [OF room, of ?C ?T] False m that by auto
    qed
    have enc: "coap_opt_encode (?C @ X @ ?T @ R) (length ?C) ?new (word_of_nat (k - ?p)) (Some v) (length v) =
      Some (?new, ?C @ ?H' @ v @ ?T @ R)"
      using coap_opt_encode_eq [of X "word_of_nat (k - ?p)" v ?new ?C "?T @ R"] X(2) ok'(3)
      by (simp del: of_nat_diff)
    define pdu2 where "pdu2 = pdu1\<lparr>mem := ?C @ ?H' @ v @ ?T @ R, used_size := used_size pdu1 + ?new - ?old,
      data := map_option (\<lambda>d. d + ?new - ?old) (data pdu1)\<rparr>"
    have pos: "0 < ?new" by (simp add: length_opt_header)
    have "rest pdu1 = Some (1, pdu2)"
      using X(1) enc pos unfolding rest_def pdu2_def by (simp del: length_append)
    moreover have "represents pdu2 tok (ys @ (k, v) # zs) pay"
    proof -
      let ?os' = "ys @ (k, v) # zs"
      have len: "length (msg_bytes tok ?os' pay) = used_size pdu1 + ?new - ?old"
        "length (token_bytes tok @ encode_opts 0 ?os') = length (token_bytes tok @ encode_opts 0 ?os) + ?new - ?old"
        unfolding used msg_bytes_def encode_opts_append by simp_all
      have "mem pdu2 = msg_bytes tok ?os' pay @ R" "used_size pdu2 = length (msg_bytes tok ?os' pay)"
        unfolding len by (simp_all add: pdu2_def msg_bytes_def encode_opts_append)
      moreover have "data pdu2 = (if pay = [] then None else Some (length (token_bytes tok @ encode_opts 0 ?os') + 1))"
        using rep1 unfolding len by (auto simp: represents_def pdu2_def encode_opts_append)
      moreover have "used_size pdu2 \<le> alloc_size pdu2"
      proof (cases "?new > ?old")
        case True
        then show ?thesis using r(3) \<open>ok\<close> regrown_same(1) [OF r(2)] by (simp add: pdu2_def)
      next
        case False
        have "used_size pdu1 \<le> alloc_size pdu1" using rep1 by (simp add: represents_def)
        then show ?thesis using False unfolding pdu2_def by simp
      qed
      moreover have "alloc_size pdu2 \<le> length (mem pdu2)"
        using alloc X(3) by (simp add: pdu2_def m)
      moreover have "options_ok 0 ?os'" using ok' v by (simp add: options_ok_append)
      moreover have "length tok \<le> COAP_TOKEN_EXT_MAX" "token_length pdu2 = length tok"
        "token_s pdu2 = length (ext_bytes (length tok))" "e_token_length pdu2 = length (token_bytes tok)"
        "max_opt pdu2 = word_of_nat (last_number 0 ?os')"
        using rep1 by (simp_all add: represents_def pdu2_def)
      ultimately show ?thesis unfolding represents_def by blast
    qed
    ultimately show ?thesis using run True by auto
  qed
qed

section \<open>The editing functions as operations on lists of options\<close>

definition delete_opt :: "nat \<Rightarrow> options \<Rightarrow> options" where
  "delete_opt k os = takeWhile (\<lambda>o1. fst o1 \<noteq> k) os @ drop 1 (dropWhile (\<lambda>o1. fst o1 \<noteq> k) os)"

definition replace_opt :: "nat \<Rightarrow> bytes \<Rightarrow> options \<Rightarrow> options" where
  "replace_opt k v os = takeWhile (\<lambda>o1. fst o1 \<noteq> k) os @ (k, v) # drop 1 (dropWhile (\<lambda>o1. fst o1 \<noteq> k) os)"

lemma first_option_split:
  assumes "k \<in> fst ` set os"
  obtains ys u zs where "os = ys @ (k, u) # zs" "\<forall>(j, w) \<in> set ys. j \<noteq> k"
    "delete_opt k os = ys @ zs" "\<And>v. replace_opt k v os = ys @ (k, v) # zs"
proof -
  let ?ys = "takeWhile (\<lambda>o1. fst o1 \<noteq> k) os"
  have "dropWhile (\<lambda>o1. fst o1 \<noteq> k) os \<noteq> []" using assms by (auto simp: dropWhile_eq_Nil_conv)
  then obtain j u zs where zs: "dropWhile (\<lambda>o1. fst o1 \<noteq> k) os = (j, u) # zs" by (metis list.exhaust surj_pair)
  then have "j = k" using hd_dropWhile [of "\<lambda>o1. fst o1 \<noteq> k" os] by simp
  then have "os = ?ys @ (k, u) # zs" using takeWhile_dropWhile_id [of "\<lambda>o1. fst o1 \<noteq> k" os] zs by simp
  moreover have "\<forall>(j, w) \<in> set ?ys. j \<noteq> k" by (auto dest: set_takeWhileD)
  moreover have "delete_opt k os = ?ys @ zs" "\<And>v. replace_opt k v os = ?ys @ (k, v) # zs"
    using zs by (simp_all add: delete_opt_def replace_opt_def)
  ultimately show thesis using that by blast
qed

lemma delete_opt_absent: "k \<notin> fst ` set os \<Longrightarrow> delete_opt k os = os"
  unfolding delete_opt_def by (induction os) auto

text \<open>A message object that holds exactly a given message.\<close>

definition pdu_of :: "bytes \<Rightarrow> options \<Rightarrow> bytes \<Rightarrow> coap_pdu" where
  "pdu_of tok os pay = \<lparr>pdu_type = 0, pdu_code = 69, pdu_mid = 0x1234, max_hdr_size = 6, hdr_size = 0, crit_opt = 0,
     max_opt = word_of_nat (last_number 0 os), e_token_length = length (token_bytes tok), token_length = length tok,
     token_s = length (ext_bytes (length tok)), alloc_size = length (msg_bytes tok os pay),
     used_size = length (msg_bytes tok os pay), max_size = 0, hdr = replicate 6 0, mem = msg_bytes tok os pay,
     data = (if pay = [] then None else Some (length (token_bytes tok @ encode_opts 0 os) + 1)),
     body_data = None, body_length = 0, body_offset = 0, body_total = 0, lg_xmit = None, session = None\<rparr>"

definition full_heap :: heap where
  "full_heap = \<lparr>raw_pdu = None, grow_ok = (\<lambda>n. True), junk = (\<lambda>n. 0)\<rparr>"

lemma represents_pdu_of:
  "length tok \<le> COAP_TOKEN_EXT_MAX \<Longrightarrow> options_ok 0 os \<Longrightarrow> represents (pdu_of tok os pay) tok os pay"
  by (simp add: represents_def pdu_of_def)

lemma can_grow_full: "can_grow full_heap (pdu_of tok os pay) n"
  by (simp add: can_grow_def full_heap_def pdu_of_def)

text \<open>The code 69 (2.05) is that of a response.\<close>

lemma no_request_pdu_of [simp]: "\<not> COAP_PDU_IS_REQUEST (pdu_of tok os pay)"
  by (simp add: COAP_PDU_IS_REQUEST_def pdu_of_def)

lemma opt_room_plain [simp]: "opt_room False o1 = length (snd o1) + 5"
  by (simp add: opt_room_def split: prod.splits)

lemmas message_eval = opt_header_def ext_bytes_def ext_nibble_def msg_bytes_def token_bytes_def payload_bytes_def
  COAP_TOKEN_EXT_MAX_def

text \<open>C13: \<open>coap_insert_option\<close> (with \<open>coap_add_option_internal\<close>, which it calls for an option behind all
  others) keeps the options ordered: the new one goes behind all options with a number up to its own, the token
  and the payload stay, the header of the following option is patched to the right delta. A proxy
  option (35 or 39) that goes to the end of a request without a Hop-Limit option (16) is preceded by one with the value 16,
  which is inserted first. On failure the new option is not there, and nothing but such a Hop-Limit option has been added. When memory
  suffices the Hop-Limit option is there and the call fails only for a non-repeatable option whose number is the highest in the message.\<close>

theorem insert_keeps_order:
  assumes "represents pdu tok os pay" "k < 65536" "length v < 65805"
    and "used_size pdu + opt_room (COAP_PDU_IS_REQUEST pdu) (k, v) \<le> 2 ^ 31"
  shows "\<exists>n pdu' os0. coap_insert_option h pdu (word_of_nat k) (length v) (Some v) = Some (n, pdu') \<and>
    represents pdu' tok (if n = 0 then os0 else insert_opt k v os0) pay \<and>
    (os0 = os \<or> last_number 0 os < k \<and> takes_hop_limit (COAP_PDU_IS_REQUEST pdu) k os \<and> os0 = insert_opt 16 [16] os) \<and>
    (can_grow h pdu (used_size pdu + opt_room (COAP_PDU_IS_REQUEST pdu) (k, v)) \<longrightarrow>
       (n = 0 \<longleftrightarrow> k = last_number 0 os \<and> \<not> coap_option_check_repeatable (word_of_nat k)) \<and>
       (last_number 0 os < k \<and> takes_hop_limit (COAP_PDU_IS_REQUEST pdu) k os \<longrightarrow> os0 = insert_opt 16 [16] os))"
  using insert_option_eq [OF assms] .

text \<open>A Proxy-Uri option in a GET request with a Uri-Query option.\<close>

definition get_of :: "bytes \<Rightarrow> options \<Rightarrow> bytes \<Rightarrow> coap_pdu" where
  "get_of tok os pay = (pdu_of tok os pay)\<lparr>pdu_code := 1\<rparr>"

lemma represents_get_of:
  "length tok \<le> COAP_TOKEN_EXT_MAX \<Longrightarrow> options_ok 0 os \<Longrightarrow> represents (get_of tok os pay) tok os pay"
  by (simp add: represents_def get_of_def pdu_of_def)

theorem insert_keeps_order_witness:
  "\<exists>n pdu'. coap_insert_option full_heap (get_of [1] [(15, [97])] [5]) 35 1 (Some [50]) = Some (n, pdu') \<and>
    n \<noteq> 0 \<and> represents pdu' [1] [(15, [97]), (16, [16]), (35, [50])] [5]"
proof -
  let ?pdu = "get_of [1] [(15, [97])] [5]"
  have "represents ?pdu [1] [(15, [97])] [5]"
    by (rule represents_get_of) (simp_all add: COAP_TOKEN_EXT_MAX_def)
  moreover have "used_size ?pdu + opt_room (COAP_PDU_IS_REQUEST ?pdu) (35, [50]) \<le> 2 ^ 31"
    by (simp add: get_of_def pdu_of_def message_eval opt_room_def)
  moreover have "takes_hop_limit (COAP_PDU_IS_REQUEST ?pdu) 35 [(15, [97])]"
    by (simp add: takes_hop_limit_def get_of_def pdu_of_def COAP_PDU_IS_REQUEST_def)
  moreover have "can_grow full_heap ?pdu m" for m by (simp add: can_grow_def full_heap_def get_of_def pdu_of_def)
  ultimately show ?thesis
    using insert_keeps_order [of ?pdu "[1]" "[(15, [97])]" "[5]" 35 "[50]" full_heap]
    by (auto simp: insert_opt_def split: if_splits)
qed

text \<open>C14: \<open>coap_remove_option\<close> removes the first option with the given number and nothing else, and
  reports whether there was one; the delta of the option behind it grows in place, into the bytes
  of the removed one. It needs no memory and never fails.\<close>

theorem remove_first_option:
  assumes "represents pdu tok os pay" "k < 65536"
  shows "\<exists>pdu'. coap_remove_option h pdu (word_of_nat k) = Some (k \<in> fst ` set os, pdu') \<and>
    represents pdu' tok (delete_opt k os) pay"
proof (cases "k \<in> fst ` set os")
  case True
  then obtain ys u zs where s: "os = ys @ (k, u) # zs" "\<forall>(j, w) \<in> set ys. j \<noteq> k" "delete_opt k os = ys @ zs"
    using first_option_split by metis
  have "represents pdu tok (ys @ (k, u) # zs) pay" using assms(1) s(1) by simp
  from remove_option_represents [OF this s(2)] True s(3) show ?thesis by simp
next
  case False
  have ok: "options_ok 0 os" using assms(1) by (simp add: represents_def)
  have "j < 65536" if "(j, w) \<in> set os" for j w
    using options_ok_bounds [OF ok that] options_ok_last [OF ok] by simp
  then have "\<forall>(j, w) \<in> set os. word_of_nat j \<noteq> (word_of_nat k :: u16)"
    using False number_eq_iff [OF _ assms(2)] by force
  from find_option_absent [OF assms(1), of "\<lambda>j. j = word_of_nat k"] this
  have "coap_remove_option h pdu (word_of_nat k) = Some (False, pdu)"
    unfolding coap_remove_option_def by fastforce
  moreover have "delete_opt k os = os" using False by (rule delete_opt_absent)
  ultimately show ?thesis using assms(1) False by simp
qed

theorem remove_first_option_witness:
  "\<exists>pdu'. coap_remove_option full_heap (pdu_of [1] [(8, []), (265, [7]), (277, [9])] []) 265 = Some (True, pdu') \<and>
    represents pdu' [1] [(8, []), (277, [9])] []"
proof -
  let ?os = "[(8, []), (265, [7]), (277, [9])]"
  have "represents (pdu_of [1] ?os []) [1] ?os []"
    by (rule represents_pdu_of) (simp_all add: COAP_TOKEN_EXT_MAX_def)
  from remove_first_option [OF this, of 265 full_heap] show ?thesis by (simp add: delete_opt_def)
qed

text \<open>C15: \<open>coap_update_option\<close> gives the first option with the number its new value, of any length, or
  inserts the option in order when there is none (behind a Hop-Limit option, where \<open>coap_insert_option\<close> adds one).
  When memory suffices it never fails.\<close>

theorem update_replaces_first:
  assumes "represents pdu tok os pay" "k < 65536" "length v < 65805"
    and "used_size pdu + opt_room (COAP_PDU_IS_REQUEST pdu) (k, v) \<le> 2 ^ 31"
  shows "\<exists>n pdu' os0. coap_update_option h pdu (word_of_nat k) (length v) (Some v) = Some (n, pdu') \<and>
    represents pdu' tok (if n = 0 then os0 else if k \<in> fst ` set os then replace_opt k v os else insert_opt k v os0) pay \<and>
    (os0 = os \<or> k \<notin> fst ` set os \<and> last_number 0 os < k \<and> takes_hop_limit (COAP_PDU_IS_REQUEST pdu) k os \<and>
       os0 = insert_opt 16 [16] os) \<and>
    (can_grow h pdu (used_size pdu + opt_room (COAP_PDU_IS_REQUEST pdu) (k, v)) \<longrightarrow>
       n \<noteq> 0 \<and>
       (k \<notin> fst ` set os \<and> last_number 0 os < k \<and> takes_hop_limit (COAP_PDU_IS_REQUEST pdu) k os \<longrightarrow> os0 = insert_opt 16 [16] os))"
proof (cases "k \<in> fst ` set os")
  case True
  then obtain ys u zs where s: "os = ys @ (k, u) # zs" "\<forall>(j, w) \<in> set ys. j \<noteq> k" "\<And>v. replace_opt k v os = ys @ (k, v) # zs"
    using first_option_split by metis
  have room: "length v + 5 \<le> opt_room (COAP_PDU_IS_REQUEST pdu) (k, v)" by (simp add: opt_room_def)
  then have fits: "used_size pdu + length v + 5 \<le> 2 ^ 31" using assms(4) by simp
  have "represents pdu tok (ys @ (k, u) # zs) pay" using assms(1) s(1) by simp
  from update_option_represents [OF this s(2) assms(3) fits, of h] obtain n pdu' where
    r: "coap_update_option h pdu (word_of_nat k) (length v) (Some v) = Some (n, pdu')"
      "represents pdu' tok (ys @ (k, if n = 0 then u else v) # zs) pay"
      "can_grow h pdu (used_size pdu + length v + 5) \<longrightarrow> n \<noteq> 0" by blast
  have "ys @ (k, if n = 0 then u else v) # zs = (if n = 0 then os else replace_opt k v os)"
    using s(1) s(3) [of v] by simp
  moreover have "can_grow h pdu (used_size pdu + opt_room (COAP_PDU_IS_REQUEST pdu) (k, v)) \<Longrightarrow> n \<noteq> 0"
    using r(3) room can_grow_mono [of h pdu] by (metis add.assoc nat_add_left_cancel_le)
  ultimately show ?thesis using r(1,2) True by (intro exI [of _ n] exI [of _ pdu'] exI [of _ os]) auto
next
  case False
  obtain oi where "coap_check_option pdu (word_of_nat k) = Some (None, oi)"
    using coap_check_option_finds [OF assms(1,2)] False by auto
  then have "coap_update_option h pdu (word_of_nat k) (length v) (Some v) =
      coap_insert_option h pdu (word_of_nat k) (length v) (Some v)"
    by (simp add: coap_update_option_def)
  moreover have "\<not> (k = last_number 0 os \<and> \<not> coap_option_check_repeatable (word_of_nat k))"
    using False last_number_in [of os] by (cases "os = []") (auto simp: last_number_def coap_option_check_repeatable_def)
  moreover obtain n pdu' os0 where "coap_insert_option h pdu (word_of_nat k) (length v) (Some v) = Some (n, pdu')"
    "represents pdu' tok (if n = 0 then os0 else insert_opt k v os0) pay"
    "os0 = os \<or> last_number 0 os < k \<and> takes_hop_limit (COAP_PDU_IS_REQUEST pdu) k os \<and> os0 = insert_opt 16 [16] os"
    "can_grow h pdu (used_size pdu + opt_room (COAP_PDU_IS_REQUEST pdu) (k, v)) \<longrightarrow>
       (n = 0 \<longleftrightarrow> k = last_number 0 os \<and> \<not> coap_option_check_repeatable (word_of_nat k)) \<and>
       (last_number 0 os < k \<and> takes_hop_limit (COAP_PDU_IS_REQUEST pdu) k os \<longrightarrow> os0 = insert_opt 16 [16] os)"
    using insert_option_eq [OF assms, of h] by blast
  ultimately show ?thesis using False by (intro exI [of _ n] exI [of _ pdu'] exI [of _ os0]) (simp cong: if_cong)
qed

text \<open>A value replaced by a longer one, and an option added that was not there.\<close>

theorem update_replaces_first_witness:
  "(\<exists>n pdu'. coap_update_option full_heap (pdu_of [] [(3, [1]), (11, [2, 3]), (11, [4])] [5]) 11 3 (Some [6, 7, 8]) = Some (n, pdu') \<and>
      n \<noteq> 0 \<and> represents pdu' [] [(3, [1]), (11, [6, 7, 8]), (11, [4])] [5]) \<and>
   (\<exists>n pdu'. coap_update_option full_heap (pdu_of [] [(3, [1]), (11, [2, 3]), (11, [4])] [5]) 7 3 (Some [6, 7, 8]) = Some (n, pdu') \<and>
      n \<noteq> 0 \<and> represents pdu' [] [(3, [1]), (7, [6, 7, 8]), (11, [2, 3]), (11, [4])] [5])"
proof -
  let ?os = "[(3, [1]), (11, [2, 3]), (11, [4])]"
  let ?pdu = "pdu_of [] ?os [5]"
  have "represents ?pdu [] ?os [5]"
    by (rule represents_pdu_of) simp_all
  moreover have "used_size ?pdu + opt_room (COAP_PDU_IS_REQUEST ?pdu) (k, [6 :: u8, 7, 8]) \<le> 2 ^ 31" for k
    by (simp add: pdu_of_def message_eval opt_room_def)
  ultimately show ?thesis
    using update_replaces_first [of ?pdu "[]" ?os "[5]" 11 "[6, 7, 8]" full_heap]
      update_replaces_first [of ?pdu "[]" ?os "[5]" 7 "[6, 7, 8]" full_heap] can_grow_full [of "[]" ?os "[5]"]
    by (auto simp: replace_opt_def insert_opt_def takes_hop_limit_def numeral_3_eq_3 split: if_splits)
qed

text \<open>\<open>coap_check_option\<close>, which searches through a filter that holds one number, delivers the
  position of the first option with that number, and null exactly when there is none.\<close>

theorem check_option_finds_first:
  assumes "represents pdu tok os pay" "k < 65536"
  shows "\<exists>oi. coap_check_option pdu (word_of_nat k) = Some (if k \<in> fst ` set os
    then Some (length (token_bytes tok) + length (encode_opts 0 (takeWhile (\<lambda>o1. fst o1 \<noteq> k) os))) else None, oi)"
  using coap_check_option_finds [OF assms] .

theorem check_option_finds_first_witness:
  "\<exists>oi. coap_check_option (pdu_of [1] [(3, [1]), (11, [2, 3])] [5]) 11 = Some (Some 3, oi)"
proof -
  have "represents (pdu_of [1] [(3, [1]), (11, [2, 3])] [5]) [1] [(3, [1]), (11, [2, 3])] [5]"
    by (rule represents_pdu_of) (simp_all add: COAP_TOKEN_EXT_MAX_def)
  from check_option_finds_first [OF this, of 11] show ?thesis by (simp add: message_eval numeral_3_eq_3)
qed

section \<open>Replacing the token\<close>

lemma update_token_represents:
  assumes rep: "represents pdu tok os pay" and used: "used_size pdu \<noteq> 0" and new: "length tok' \<le> COAP_TOKEN_EXT_MAX"
    and fits: "used_size pdu + length (token_bytes tok') \<le> 2 ^ 31"
  shows "\<exists>ok pdu'. coap_update_token h pdu (length tok') tok' = Some (ok, pdu') \<and>
    (if ok then e_token_length pdu' = length (token_bytes tok') mod 256 \<and>
        represents (pdu'\<lparr>e_token_length := length (token_bytes tok')\<rparr>) tok' os pay
     else represents pdu' tok os pay) \<and>
    (can_grow h pdu (used_size pdu + length (token_bytes tok')) \<longrightarrow> ok)"
proof -
  let ?new = "length (token_bytes tok')" and ?old = "length (token_bytes tok)" and ?b = "length (ext_bytes (length tok'))"
  let ?B = "encode_opts 0 os @ payload_bytes pay"
  have bias: "token_bias (length tok') = Accepted ?b" and n: "length tok' + ?b = ?new"
    using new by (auto simp: token_bias_def length_ext_bytes token_bytes_def coap_const_defs)
  have e: "e_token_length pdu = ?old" using rep by (simp add: represents_def)
  obtain ok pdu1 where r: "(if ?new > ?old then coap_pdu_check_resize h pdu (used_size pdu + ?new - ?old) else Some (True, pdu)) = Some (ok, pdu1)"
    "regrown pdu pdu1" "ok \<longrightarrow> ?new > ?old \<longrightarrow> used_size pdu + ?new - ?old \<le> alloc_size pdu1"
    "can_grow h pdu (used_size pdu + ?new) \<longrightarrow> ok"
  proof (cases "?new > ?old")
    case True
    have "used_size pdu + ?new - ?old \<le> 2 ^ 31" using fits by linarith
    moreover have "can_grow h pdu (used_size pdu + ?new) \<Longrightarrow> can_grow h pdu (used_size pdu + ?new - ?old)"
      by (auto intro: can_grow_mono)
    ultimately show thesis
      using coap_pdu_check_resize_regrown [OF represents_sizes_ok [OF rep], of "used_size pdu + ?new - ?old" h] True that
      by fastforce
  next
    case False
    then show thesis using that regrown_refl [OF represents_sizes_ok [OF rep]] by simp
  qed
  have rep1: "represents pdu1 tok os pay" using regrown_represents [OF rep r(2)] .
  obtain slack where m: "mem pdu1 = token_bytes tok @ ?B @ slack" and u: "used_size pdu1 = ?old + length ?B"
    and alloc: "alloc_size pdu1 \<le> length (mem pdu1)"
    using represents_mem [OF rep1] by (metis append.assoc length_append add.assoc)
  define shifted where "shifted = (\<lambda>pdu :: coap_pdu. if ?new = ?old then Some (True, pdu)
    else if ?new > ?old then do {
      m \<leftarrow> c_memmove (mem pdu) (?new - ?old) 0 (used_size pdu);
      Some (True, pdu\<lparr>mem := m, used_size := used_size pdu + ?new - ?old\<rparr>)
    }
    else do {
      let pdu = pdu\<lparr>used_size := used_size pdu - (?old - ?new)\<rparr>;
      m \<leftarrow> c_memmove (mem pdu) 0 (?old - ?new) (used_size pdu);
      Some (True, pdu\<lparr>mem := m\<rparr>)
    })"
  define finish where "finish = (\<lambda>pdu :: coap_pdu. do {
    let pdu = pdu\<lparr>data := map_option (\<lambda>d. d + ?new - ?old) (data pdu),
      token_length := length tok', token_s := ?b, e_token_length := ?new mod 256\<rparr>;
    m \<leftarrow> write_token (mem pdu) ?b (length tok') tok';
    Some (True, pdu\<lparr>mem := m\<rparr>)
  })"
  have run: "coap_update_token h pdu (length tok') tok' =
    (if ok then do { (ok, pdu) \<leftarrow> shifted pdu1; if \<not> ok then Some (False, pdu) else finish pdu } else Some (False, pdu1))"
  proof (cases "?new > ?old")
    case True
    then have "coap_pdu_check_resize h pdu (used_size pdu + ?new - ?old) = Some (ok, pdu1)" using r(1) by simp
    then show ?thesis
      using True used bias unfolding coap_update_token_def shifted_def finish_def e
      by (simp add: Let_def n cong del: if_weak_cong)
  next
    case False
    then have "ok" "pdu1 = pdu" using r(1) by simp_all
    then show ?thesis
      using False used bias unfolding coap_update_token_def shifted_def finish_def e
      by (simp add: Let_def n cong del: if_weak_cong)
  qed
  show ?thesis
  proof (cases ok)
    case False
    then show ?thesis using run rep1 r(4) by (simp add: ex_bool_eq)
  next
    case True
    obtain X R where X: "shifted pdu1 = Some (True, pdu1\<lparr>mem := X @ ?B @ R, used_size := ?new + length ?B\<rparr>)"
      "length X = ?new" "?new + length ?B + length R = length (mem pdu1)"
    proof -
      consider "?new = ?old" | "?new > ?old" | "?new < ?old" by linarith
      then show thesis
      proof cases
        case 1
        have same: "pdu1 = pdu1\<lparr>mem := token_bytes tok @ ?B @ slack, used_size := ?new + length ?B\<rparr>"
          unfolding m [symmetric] 1 u [symmetric] by simp
        have "shifted pdu1 = Some (True, pdu1)" using 1 by (simp add: shifted_def)
        then have "shifted pdu1 = Some (True, pdu1\<lparr>mem := token_bytes tok @ ?B @ slack, used_size := ?new + length ?B\<rparr>)"
          unfolding same [symmetric] .
        moreover have "?new + length ?B + length slack = length (mem pdu1)" using m 1 by simp
        ultimately show thesis using 1 by (intro that [of "token_bytes tok" slack]) simp_all
      next
        case 2
        let ?s = "?new - ?old"
        have "?s \<le> length ([] :: bytes) + length slack" using r(3) True 2 alloc m u regrown_same(1) [OF r(2)] by simp
        from memmove_gap [OF this, of "[]" "token_bytes tok @ ?B"]
        obtain Y R where Y: "c_memmove (token_bytes tok @ ?B @ slack) ?s 0 (?old + length ?B) =
          Some (Y @ (token_bytes tok @ ?B) @ R)" "length Y = ?s" "?s + length R = length slack"
          unfolding append_Nil append.assoc length_append list.size(3) add_0_left by blast
        show thesis
          using that [of "Y @ token_bytes tok" R] Y 2 m u by (simp add: shifted_def)
      next
        case 3
        let ?s = "?old - ?new"
        have "?s \<le> ?old" by simp
        then obtain G D where G: "token_bytes tok = G @ D" "length G = ?s" by (rule split_list_at)
        have "?old = length G + length D" unfolding G(1) by simp
        then have D: "length D = ?new" "length G + ?new = ?old" using 3 G(2) by linarith+
        define R where "R = drop (length (D @ ?B)) (G @ D @ ?B) @ slack"
        have mv: "c_memmove (mem pdu1) 0 (length G) (length D + length ?B) = Some (D @ ?B @ R)"
          using memmove_down [of "[]" G "D @ ?B" slack] unfolding m G(1) R_def by simp
        have left: "used_size pdu1 - length G = length D + length ?B" unfolding u D(2) [symmetric] D(1) by simp
        have "shifted pdu1 = (if ?new = ?old then Some (True, pdu1) else if ?new > ?old then Some (True, pdu1) else do {
            m \<leftarrow> c_memmove (mem pdu1) 0 (length G) (used_size pdu1 - length G);
            Some (True, pdu1\<lparr>used_size := used_size pdu1 - length G, mem := m\<rparr>) })"
          using 3 unfolding shifted_def G(2) [symmetric] Let_def by simp
        then have "shifted pdu1 = Some (True, pdu1\<lparr>mem := D @ ?B @ R, used_size := length D + length ?B\<rparr>)"
          using 3 mv unfolding left by (simp add: coap_pdu.splits)
        moreover have "length D + length ?B + length R = length (mem pdu1)"
          unfolding m G(1) R_def by simp
        ultimately show thesis using D(1) by (intro that [of D R]) simp_all
      qed
    qed
    let ?p = "pdu1\<lparr>mem := token_bytes tok' @ ?B @ R, used_size := ?new + length ?B,
      data := map_option (\<lambda>d. d + ?new - ?old) (data pdu1), token_length := length tok', token_s := ?b,
      e_token_length := ?new mod 256\<rparr>"
    have "coap_update_token h pdu (length tok') tok' = Some (True, ?p)"
      using True X(1) write_token_eq [OF X(2) new, of "?B @ R"] by (simp add: run finish_def Let_def)
    moreover have "represents (?p\<lparr>e_token_length := ?new\<rparr>) tok' os pay"
    proof -
      have "?new + length ?B \<le> alloc_size pdu1"
      proof (cases "?new > ?old")
        case True
        then show ?thesis using r(3) \<open>ok\<close> u regrown_same(1) [OF r(2)] by simp
      next
        case False
        have "used_size pdu1 \<le> alloc_size pdu1" using rep1 by (simp add: represents_def)
        then show ?thesis using False u by simp
      qed
      then show ?thesis
        using rep1 new X(3) alloc by (auto simp: represents_def msg_bytes_def)
    qed
    ultimately show ?thesis by (simp add: ex_bool_eq)
  qed
qed

text \<open>\<open>coap_update_token\<close> replaces the token, of any length, and moves the options and the payload to
  fit; but it stores the length of the encoded token modulo 256, so from 256 bytes on the
  object is right in all fields but \<open>e_token_length\<close>, from which the other functions compute where
  the options start.\<close>

theorem update_token_cuts_length:
  assumes "represents pdu tok os pay" "used_size pdu \<noteq> 0" "length tok' \<le> COAP_TOKEN_EXT_MAX"
    "used_size pdu + length (token_bytes tok') \<le> 2 ^ 31"
  shows "\<exists>ok pdu'. coap_update_token h pdu (length tok') tok' = Some (ok, pdu') \<and>
    (if ok then e_token_length pdu' = length (token_bytes tok') mod 256 \<and>
        represents (pdu'\<lparr>e_token_length := length (token_bytes tok')\<rparr>) tok' os pay
     else represents pdu' tok os pay) \<and>
    (can_grow h pdu (used_size pdu + length (token_bytes tok')) \<longrightarrow> ok)"
  using update_token_represents [OF assms] .

text \<open>A token of 300 bytes, 302 when encoded, is recorded with 46.\<close>

theorem update_token_cuts_length_witness:
  "\<exists>pdu'. coap_update_token full_heap (pdu_of [1] [(11, [2])] [3]) 300 (replicate 300 7) = Some (True, pdu') \<and>
    e_token_length pdu' = 46 \<and> token_length pdu' = 300"
proof -
  let ?pdu = "pdu_of [1] [(11, [2])] [3]" and ?tok = "replicate 300 (7 :: u8)"
  have rep: "represents ?pdu [1] [(11, [2])] [3]" by (rule represents_pdu_of) (simp_all add: COAP_TOKEN_EXT_MAX_def)
  have len: "length (token_bytes ?tok) = 302" "length ?tok = 300" by (simp_all add: token_bytes_def length_ext_bytes)
  have used: "used_size ?pdu = 5" by (simp add: pdu_of_def message_eval)
  have "length ?tok \<le> COAP_TOKEN_EXT_MAX" by (simp add: COAP_TOKEN_EXT_MAX_def)
  from update_token_cuts_length [OF rep _ this, of full_heap] used can_grow_full obtain pdu' where
    "coap_update_token full_heap ?pdu 300 ?tok = Some (True, pdu')" "e_token_length pdu' = 46"
    "represents (pdu'\<lparr>e_token_length := 302\<rparr>) ?tok [(11, [2])] [3]"
    unfolding len by auto
  then show ?thesis by (auto simp: represents_def)
qed

end
