(* ===== verification/Coap_Roundtrip.thy ===== *)
theory Coap_Roundtrip
  imports Coap_Revise
begin

unbundle bit_operations_syntax

text \<open>
  From the sender's message to the receiver's: the header encoder and the parser are inverse on
  every represented message, and the parser touches no byte outside its buffers whatever
  datagram it is given.
\<close>

section \<open>Accepting the options\<close>

definition lengths_ok :: "u8 \<Rightarrow> options \<Rightarrow> bool" where
  "lengths_ok code os \<longleftrightarrow> (\<forall>(k, v) \<in> set os. length_ok code (word_of_nat k) (length v))"

lemma next_option_safe_at:
  assumes "iter_at m oi p prev ((k, v) # os) tail"
  shows "next_option_safe m p (it_length oi) (word_of_nat prev) =
    Some (Accepted (opt_size prev (k, v), p + opt_size prev (k, v), it_length oi - opt_size prev (k, v), word_of_nat k))"
proof -
  have k: "prev \<le> k" "k < 65536" "prev < 65536" using assms by (auto simp: iter_at_def)
  then have "unat (word_of_nat prev :: u16) + unat (word_of_nat (k - prev) :: u16) = k"
    by (simp del: of_nat_diff)
  with k show ?thesis
    using iter_at_parse(1,2) [OF assms] next_number [OF k(1,2)]
    by (simp add: next_option_safe_def COAP_MAX_OPT_def del: of_nat_diff)
qed

lemma check_options_at:
  assumes "iter_at m oi p prev os tail" "lengths_ok code os"
  shows "check_options m code p (it_length oi) (word_of_nat prev) good =
    Some (p + length (encode_opts prev os), length tail, word_of_nat (last_number prev os), good)"
  using assms
proof (induction os arbitrary: oi p prev)
  case Nil
  then show ?case
    by (subst check_options.simps) (cases tail, auto simp: iter_at_def c_load_def nth_append)
next
  case (Cons y os)
  obtain k v where y: "y = (k, v)" by (cases y)
  have at: "iter_at m oi p prev ((k, v) # os) tail" using Cons.prems(1) y by simp
  have len: "coap_opt_length m p = Some (length v)"
    using accessors_agree(1) [OF iter_at_parse(1) [OF at]] by simp
  have go: "it_length oi > 0" using at by (auto simp: iter_at_def length_opt_header)
  obtain b where b: "c_load m p = Some b" "b \<noteq> COAP_PAYLOAD_START" using iter_at_parse(3) [OF at] by blast
  have ok: "length_ok code (word_of_nat k) (length v)" "lengths_ok code os"
    using Cons.prems(2) y by (auto simp: lengths_ok_def)
  have "check_options m code p (it_length oi) (word_of_nat prev) good =
      check_options m code (p + opt_size prev (k, v)) (it_length oi - opt_size prev (k, v)) (word_of_nat k) good"
    using go b len ok(1) next_option_safe_at [OF at] by (subst check_options.simps) simp
  also have "\<dots> = check_options m code (p + opt_size prev (k, v)) (it_length (step_iter oi prev (k, v))) (word_of_nat k) good"
    by (simp add: step_iter_def)
  finally show ?case
    using Cons.IH [OF iter_at_step [OF at] ok(2)] y by (simp add: opt_size_def)
qed

text \<open>The option checks accept a represented message and find its number range and payload again.\<close>

lemma coap_pdu_parse_opt_represents:
  assumes rep: "represents pdu tok os pay" and code: "pdu_code pdu \<noteq> 0" and ok: "lengths_ok (pdu_code pdu) os"
    and same: "pdu0 = pdu\<lparr>max_opt := x, data := d\<rparr>"
  shows "coap_pdu_parse_opt pdu0 = Some (True, pdu)"
proof -
  let ?oi = "\<lparr>it_length = length (encode_opts 0 os) + length (payload_bytes pay), it_number = 0, it_bad = False,
    it_filtered = False, it_next = length (token_bytes tok), it_filter = coap_option_filter_clear\<rparr>"
  obtain slack where m: "mem pdu = token_bytes tok @ encode_opts 0 os @ payload_bytes pay @ slack"
    and used: "used_size pdu = length (token_bytes tok) + length (encode_opts 0 os) + length (payload_bytes pay)"
    using represents_mem [OF rep] .
  have e: "e_token_length pdu = length (token_bytes tok)" "max_opt pdu = word_of_nat (last_number 0 os)"
    "data pdu = (if pay = [] then None else Some (length (token_bytes tok @ encode_opts 0 os) + 1))"
    using rep by (simp_all add: represents_def)
  have "iter_at (mem pdu) ?oi (length (token_bytes tok)) 0 os (payload_bytes pay)"
    using rep m by (auto simp: iter_at_def represents_def payload_bytes_def)
  from check_options_at [OF this ok, of True]
  have check: "check_options (mem pdu) (pdu_code pdu) (length (token_bytes tok)) (used_size pdu - length (token_bytes tok)) 0 True =
    Some (length (token_bytes tok) + length (encode_opts 0 os), length (payload_bytes pay), max_opt pdu, True)"
    using used e(2) by simp
  have "parse_payload (pdu\<lparr>data := d, max_opt := max_opt pdu\<rparr>) (length (token_bytes tok) + length (encode_opts 0 os)) (length (payload_bytes pay)) True =
    Some (True, pdu)"
  proof (cases "pay = []")
    case True
    then have "data pdu = None" using e(3) by simp
    then show ?thesis using True by (auto simp: parse_payload_def payload_bytes_def)
  next
    case False
    have "c_load (mem pdu) (length (token_bytes tok) + length (encode_opts 0 os)) = Some COAP_PAYLOAD_START"
      using False unfolding m by (simp add: c_load_def nth_append payload_bytes_def)
    then show ?thesis using False e(3) by (auto simp: parse_payload_def payload_bytes_def)
  qed
  then show ?thesis
    using code used e(1) check unfolding same coap_pdu_parse_opt_def
    by (simp add: Let_def)
qed

text \<open>A message with the code 0 has to be empty.\<close>

lemma msg_bytes_empty: "msg_bytes tok os pay = [] \<longleftrightarrow> tok = [] \<and> os = [] \<and> pay = []"
  by (cases os) (auto simp: msg_bytes_def token_bytes_def payload_bytes_def opt_header_def ext_bytes_def)

lemma coap_pdu_parse_opt_empty:
  assumes rep: "represents pdu tok os pay" and code: "pdu_code pdu = 0"
    and same: "pdu0 = pdu\<lparr>max_opt := x, data := d\<rparr>"
  shows "coap_pdu_parse_opt pdu0 = Some (if tok = [] \<and> os = [] \<and> pay = [] then (True, pdu) else (False, pdu0))"
proof (cases "tok = [] \<and> os = [] \<and> pay = []")
  case True
  then have "used_size pdu = 0" "e_token_length pdu = 0" "max_opt pdu = 0" "data pdu = None"
    using rep by (simp_all add: represents_def msg_bytes_def token_bytes_def payload_bytes_def ext_bytes_def)
  then show ?thesis using True code unfolding same coap_pdu_parse_opt_def by (simp add: Let_def)
next
  case False
  then have "used_size pdu \<noteq> 0" using rep msg_bytes_empty by (auto simp: represents_def)
  then show ?thesis using False code unfolding same coap_pdu_parse_opt_def by auto
qed

section \<open>The header\<close>

lemma first_byte_bits:
  fixes t x :: u8
  shows "drop_bit 6 (push_bit 6 1 OR push_bit 4 (t AND 3) OR (x AND 15)) = (1 :: u8)"
    "drop_bit 4 (push_bit 6 1 OR push_bit 4 (t AND 3) OR (x AND 15)) AND 3 = (t AND 3 :: u8)"
    "(push_bit 6 1 OR push_bit 4 (t AND 3) OR (x AND 15)) AND 15 = (x AND 15 :: u8)"
proof -
  have 3: "bit (3 :: u8) n \<longleftrightarrow> n < 2" "bit (15 :: u8) n \<longleftrightarrow> n < 4" for n
    using bit_mask_iff [of 2 n, where 'a = "8 word"] bit_mask_iff [of 4 n, where 'a = "8 word"]
    by (auto simp: mask_eq_exp_minus_1)
  have 6: "push_bit 6 1 = (64 :: u8)" by simp
  show "drop_bit 6 (push_bit 6 1 OR push_bit 4 (t AND 3) OR (x AND 15)) = (1 :: u8)"
    "drop_bit 4 (push_bit 6 1 OR push_bit 4 (t AND 3) OR (x AND 15)) AND 3 = (t AND 3 :: u8)"
    "(push_bit 6 1 OR push_bit 4 (t AND 3) OR (x AND 15)) AND 15 = (x AND 15 :: u8)"
    by (rule word_eqI_bits, simp add: bit_positions bit_simps 3)+
qed

lemma mid_bytes: "push_bit 8 (ucast (ucast (drop_bit 8 mid) :: u8)) OR ucast (ucast mid :: u8) = (mid :: u16)"
  by (rule word_eqI_bits) (simp add: bit_positions bit_simps)

lemma small_type: "t \<le> 3 \<Longrightarrow> t AND 3 = (t :: u8)"
proof -
  assume "t \<le> 3"
  then have "unat t < 4" by (simp add: word_le_nat_alt)
  then have "take_bit 2 t = t" by (simp add: word_unat_eq_iff unsigned_take_bit_eq take_bit_nat_eq_self)
  then show ?thesis by (simp add: take_bit_eq_mask mask_eq_exp_minus_1)
qed

definition first_byte :: "coap_pdu \<Rightarrow> u8" where
  "first_byte pdu = push_bit 6 1 OR push_bit 4 (pdu_type pdu) OR word_of_nat (ext_nibble (token_length pdu))"

lemma first_byte_fields:
  assumes "pdu_type pdu \<le> 3"
  shows "drop_bit 6 (first_byte pdu) = 1" "drop_bit 4 (first_byte pdu) AND 3 = pdu_type pdu"
    "unat (first_byte pdu AND 15) = ext_nibble (token_length pdu)"
proof -
  let ?x = "word_of_nat (ext_nibble (token_length pdu)) :: u8"
  have x: "unat ?x = ext_nibble (token_length pdu)"
    using ext_nibble_less [of "token_length pdu"] by (intro unat_of_nat_small) simp
  then have "unat ?x < 16" using ext_nibble_less [of "token_length pdu"] by simp
  then have "take_bit 4 ?x = ?x" by (simp add: word_unat_eq_iff unsigned_take_bit_eq take_bit_nat_eq_self del: unsigned_of_nat)
  then have "?x AND 15 = ?x" by (simp add: take_bit_eq_mask mask_eq_exp_minus_1 del: unsigned_of_nat)
  then have b: "first_byte pdu = push_bit 6 1 OR push_bit 4 (pdu_type pdu AND 3) OR (?x AND 15)"
    using small_type [OF assms] by (simp add: first_byte_def)
  show "drop_bit 6 (first_byte pdu) = 1" unfolding b by (rule first_byte_bits)
  show "drop_bit 4 (first_byte pdu) AND 3 = pdu_type pdu"
    unfolding b by (rule trans [OF first_byte_bits(2) small_type [OF assms]])
  show "unat (first_byte pdu AND 15) = ext_nibble (token_length pdu)"
    unfolding b first_byte_bits(3) using x \<open>?x AND 15 = ?x\<close> by simp
qed

text \<open>What \<open>coap_send\<close> hands to the socket: the header and everything from the token on.\<close>

definition wire :: "coap_pdu \<Rightarrow> bytes" where
  "wire pdu = drop (max_hdr_size pdu - hdr_size pdu) (hdr pdu) @ take (used_size pdu) (mem pdu)"

lemma encode_header_udp:
  assumes rep: "represents pdu tok os pay" and h: "length (hdr pdu) = 6" "max_hdr_size pdu = 6"
  shows "\<exists>pdu'. coap_pdu_encode_header pdu COAP_PROTO_UDP = Some (4, pdu') \<and> represents pdu' tok os pay \<and>
    wire pdu' = [first_byte pdu, pdu_code pdu, ucast (drop_bit 8 (pdu_mid pdu)), ucast (pdu_mid pdu)] @ msg_bytes tok os pay"
proof -
  obtain a b c d e f where hdr: "hdr pdu = [a, b, c, d, e, f]"
    using h(1) by (auto simp: length_Suc_conv numeral_eq_Suc)
  have "token_length pdu = length tok" "length tok \<le> COAP_TOKEN_EXT_MAX" using rep by (simp_all add: represents_def)
  then have tkl: "tkl_field pdu = Accepted (word_of_nat (ext_nibble (token_length pdu)))"
    by (simp add: tkl_field_def ext_nibble_def coap_const_defs)
  let ?hdr = "[a, b, first_byte pdu, pdu_code pdu, ucast (drop_bit 8 (pdu_mid pdu)), ucast (pdu_mid pdu)]"
  let ?pdu = "pdu\<lparr>hdr := ?hdr, hdr_size := 4\<rparr>"
  have "coap_pdu_encode_header pdu COAP_PROTO_UDP = Some (4, ?pdu)"
    using tkl h(2) hdr
    by (simp add: coap_pdu_encode_header_def COAP_PROTO_NOT_RELIABLE_def hdr_store_def c_store_def first_byte_def)
  moreover have "represents ?pdu tok os pay" using rep by (simp add: represents_def)
  moreover have "take (used_size pdu) (mem pdu) = msg_bytes tok os pay" using rep by (auto simp: represents_def)
  ultimately show ?thesis using h(2) by (simp add: wire_def)
qed

lemma parse_header_udp:
  assumes h: "hdr pdu = pre @ [b0, b1, b2, b3]" "hdr_size pdu = 4" "max_hdr_size pdu = length pre + 4"
    and version: "drop_bit 6 b0 = 1"
    and tkl: "unat (b0 AND 0x0F) = ext_nibble (length tok)" "length tok \<le> COAP_TOKEN_EXT_MAX"
    and m: "mem pdu = token_bytes tok @ rest" "length (token_bytes tok) \<le> alloc_size pdu"
  shows "coap_pdu_parse_header pdu COAP_PROTO_UDP = Some (True,
    pdu\<lparr>pdu_type := drop_bit 4 b0 AND 3, pdu_code := b1, pdu_mid := push_bit 8 (ucast b2) OR ucast b3,
      e_token_length := length (token_bytes tok), token_length := length tok,
      token_s := length (ext_bytes (length tok))\<rparr>)"
proof -
  have load: "hdr_load pdu 0 = Some b0" "hdr_load pdu (Suc 0) = Some b1" "hdr_load pdu 2 = Some b2" "hdr_load pdu 3 = Some b3"
    using h by (simp_all add: hdr_load_def c_load_def nth_append)
  let ?p = "pdu\<lparr>pdu_type := drop_bit 4 b0 AND 3, pdu_code := b1, pdu_mid := push_bit 8 (ucast b2) OR ucast b3\<rparr>"
  have fields: "parse_header_fields pdu COAP_PROTO_UDP = Some (Accepted ?p)"
    using load version h(2) by (simp add: parse_header_fields_def)
  have again: "hdr_load ?p 0 = Some b0" using load(1) by (simp add: hdr_load_def)
  consider "length tok < 13" | "\<not> length tok < 13" "length tok < 269" | "\<not> length tok < 269" by linarith
  then show ?thesis
  proof cases
    case 1
    then show ?thesis
      using fields again tkl m by (simp add: Let_def coap_pdu_parse_header_def ext_nibble_def token_bytes_def ext_bytes_def)
  next
    case 2
    then have x: "unat (word_of_nat (length tok - 13) :: u8) = length tok - 13"
      by (intro unat_of_nat_small) simp
    from 2 have "ext_nibble (length tok) = 13" "ext_bytes (length tok) = [word_of_nat (length tok - 13)]"
      by (simp_all add: ext_nibble_def ext_bytes_def del: of_nat_diff)
    then show ?thesis
      using 2 fields again tkl m x by (simp add: Let_def coap_pdu_parse_header_def token_bytes_def coap_const_defs del: of_nat_diff)
  next
    case 3
    let ?n = "length tok - 269"
    have n: "?n < 65536" using tkl(2) by (simp add: coap_const_defs)
    then have x: "unat (word_of_nat (?n div 256) :: u8) = ?n div 256"
      by (intro unat_of_nat_small) (simp add: less_mult_imp_div_less)
    have y: "unat (word_of_nat ?n :: u8) = ?n mod 256" by (simp add: unsigned_of_nat take_bit_eq_mod del: of_nat_diff)
    from 3 have e: "ext_nibble (length tok) = 14" "ext_bytes (length tok) = [word_of_nat (?n div 256), word_of_nat ?n]"
      by (simp_all add: ext_nibble_def ext_bytes_def del: of_nat_diff)
    have "?n div 256 * 256 + ?n mod 256 = ?n" by simp
    then have "?n div 256 * 256 + ?n mod 256 + 269 = length tok" using 3 by simp
    then show ?thesis
      using 3 fields again tkl m x y e by (simp add: Let_def coap_pdu_parse_header_def token_bytes_def coap_const_defs del: of_nat_diff)
  qed
qed

section \<open>Receiving what was sent\<close>

definition fresh_pdu :: "coap_pdu \<Rightarrow> bool" where
  "fresh_pdu p \<longleftrightarrow> used_size p = 0 \<and> data p = None \<and> max_hdr_size p = 6 \<and> length (hdr p) = 6 \<and>
     alloc_size p = length (mem p)"

lemma coap_pdu_init_fresh:
  assumes "type \<le> 3"
  shows "coap_pdu_init h type code mid n = Some (if raw_pdu h \<noteq> None \<and> grow_ok h (min n 256 + 6)
    then Some (the (raw_pdu h)\<lparr>pdu_type := type, pdu_code := code, pdu_mid := mid, max_hdr_size := 6, hdr_size := 0, crit_opt := 0,
      max_opt := 0, e_token_length := 0, token_length := 0, alloc_size := min n 256, used_size := 0, max_size := n,
      hdr := map (junk h) [0..<6], mem := map (junk h) [6..<min n 256 + 6], data := None, body_data := None, body_length := 0,
      body_offset := 0, body_total := 0, lg_xmit := None, session := None\<rparr>)
    else None)"
proof (cases "raw_pdu h")
  case None
  then show ?thesis using assms by (simp add: coap_pdu_init_def)
next
  case (Some raw)
  have "take 6 (map (junk h) [0..<min n 256 + 6]) = map (junk h) [0..<6]"
    "drop 6 (map (junk h) [0..<min n 256 + 6]) = map (junk h) [6..<min n 256 + 6]"
    by (simp_all add: take_map drop_map del: upt_Suc)
  then show ?thesis
    using Some assms
    by (simp add: coap_pdu_init_def coap_pdu_clear_def coap_const_defs Let_def del: upt_Suc)
qed

text \<open>The parser copies the datagram into the object; it fails only when there is no room.\<close>

lemma parse_copies:
  assumes fresh: "fresh_pdu p" and hs: "coap_pdu_parse_header_size prot d = Some hs" "0 < hs" "hs \<le> 6"
    and len: "hs \<le> len" "len \<le> length d"
  obtains (full) "coap_pdu_parse h prot d len p = Some (False, p)"
      "\<not> can_grow h p (len - hs)"
    | (copied) pdu slack where
      "coap_pdu_parse h prot d len p = do {
         (ok, pdu) \<leftarrow> coap_pdu_parse_header pdu prot;
         if \<not> ok then Some (False, pdu) else coap_pdu_parse_opt pdu }"
      "pdu = p\<lparr>mem := take (len - hs) (drop hs d) @ slack, alloc_size := len - hs, token_s := token_s pdu,
         hdr := take (6 - hs) (hdr p) @ take hs d, hdr_size := hs, used_size := len - hs\<rparr>"
      "length (mem p) \<le> length (mem pdu)"
proof -
  let ?n = "len - hs"
  have f: "used_size p = 0" "data p = None" "max_hdr_size p = 6" "length (hdr p) = 6" "alloc_size p = length (mem p)" "sizes_ok p"
    using fresh by (auto simp: fresh_pdu_def sizes_ok_def)
  define ok where "ok \<longleftrightarrow> ?n \<le> alloc_size p \<or> (max_size p = 0 \<or> ?n \<le> max_size p) \<and> grow_ok h (?n + max_hdr_size p)"
  have "used_size p \<le> ?n" using f(1) by simp
  then obtain p1 where r: "coap_pdu_resize h p ?n = Some (ok, p1)"
    and s: "if ok then regrown p p1 \<and> alloc_size p1 = ?n else p1 = p"
    using coap_pdu_resize_eq [OF f(6), of ?n h] unfolding ok_def by blast
  show thesis
  proof (cases ok)
    case False
    have "coap_pdu_parse h prot d len p = Some (False, p)"
      using r s False hs len f by (simp add: coap_pdu_parse_def)
    moreover have "\<not> can_grow h p ?n" using False by (auto simp: ok_def can_grow_def)
    ultimately show thesis using full by simp
  next
    case True
    have "regrown p p1" using s True by simp
    then obtain m a t where p1: "p1 = p\<lparr>mem := m, alloc_size := a, token_s := t\<rparr>" "a \<le> length m"
      by (rule regrownE)
    have n: "a = ?n" "?n \<le> length m" using s True p1 by simp_all
    have grown: "length (mem p) \<le> length m"
    proof (cases "?n \<le> alloc_size p")
      case True
      then have "p1 = p\<lparr>alloc_size := ?n\<rparr>" using r ok_def by (simp add: coap_pdu_resize_def)
      from arg_cong [OF this, of mem] show ?thesis using p1 by simp
    next
      case False
      then show ?thesis using n f(5) by simp
    qed
    have front: "c_slice d 0 hs = Some (take hs d)" and rest: "c_slice d hs ?n = Some (take ?n (drop hs d))"
      using len by (simp_all add: c_slice_def)
    have hdr: "c_blit (hdr p1) (6 - hs) (take hs d) = Some (take (6 - hs) (hdr p) @ take hs d)"
      using f(4) hs(3) len p1 by (simp add: c_blit_def)
    have blit: "c_blit (mem p1) 0 (take ?n (drop hs d)) = Some (take ?n (drop hs d) @ drop ?n m)"
    proof -
      have "length (take ?n (drop hs d)) = ?n" using len by simp
      then show ?thesis using n(2) p1 unfolding c_blit_def by simp
    qed
    define pdu where "pdu = p1\<lparr>hdr := take (6 - hs) (hdr p) @ take hs d, mem := take ?n (drop hs d) @ drop ?n m,
      hdr_size := hs, used_size := ?n\<rparr>"
    have "coap_pdu_parse h prot d len p = do {
         (ok, pdu) \<leftarrow> coap_pdu_parse_header pdu prot;
         if \<not> ok then Some (False, pdu) else coap_pdu_parse_opt pdu }"
      using r True hs len f(3) front rest hdr blit p1 unfolding pdu_def coap_pdu_parse_def
      by (simp add: Let_def)
    moreover have "pdu = p\<lparr>mem := take ?n (drop hs d) @ drop ?n m, alloc_size := ?n, token_s := token_s pdu,
         hdr := take (6 - hs) (hdr p) @ take hs d, hdr_size := hs, used_size := ?n\<rparr>"
      unfolding pdu_def p1(1) n(1) by simp
    moreover have "length (mem p) \<le> length (mem pdu)"
      using grown n(2) len by (simp add: pdu_def)
    ultimately show thesis using copied by blast
  qed
qed

lemma pdu_of_fields:
  "pdu_type (pdu_of tok os pay) = 0" "pdu_code (pdu_of tok os pay) = 69" "pdu_mid (pdu_of tok os pay) = 0x1234"
  "max_hdr_size (pdu_of tok os pay) = 6" "length (hdr (pdu_of tok os pay)) = 6"
  by (simp_all add: pdu_of_def)

text \<open>C11: what one side sends the other receives: for every message with options of legal lengths, the
  bytes in front of which \<open>coap_pdu_encode_header\<close> put the UDP header are parsed, by a receiver that has the memory for them and
  takes messages of this size, into a message with the same type, code, message id, token, options and payload. The
  only exception are messages with the code 0 that are not empty, though they can be sent: these are rejected, empty ones are not.\<close>

theorem send_receive_roundtrip:
  assumes "represents pdu tok os pay" "length (hdr pdu) = 6" "max_hdr_size pdu = 6" "pdu_type pdu \<le> 3"
    "lengths_ok (pdu_code pdu) os" "fresh_pdu p" "can_grow h p (used_size pdu)"
  shows "\<exists>sent accepted received. coap_pdu_encode_header pdu COAP_PROTO_UDP = Some (4, sent) \<and>
    coap_pdu_parse h COAP_PROTO_UDP (wire sent) (length (wire sent)) p = Some (accepted, received) \<and>
    (accepted \<longleftrightarrow> pdu_code pdu \<noteq> 0 \<or> tok = [] \<and> os = [] \<and> pay = []) \<and>
    (accepted \<longrightarrow> represents received tok os pay \<and> pdu_type received = pdu_type pdu \<and> pdu_code received = pdu_code pdu \<and>
       pdu_mid received = pdu_mid pdu)"
proof -
  let ?b = "msg_bytes tok os pay"
  obtain sent where sent: "coap_pdu_encode_header pdu COAP_PROTO_UDP = Some (4, sent)"
    "wire sent = [first_byte pdu, pdu_code pdu, ucast (drop_bit 8 (pdu_mid pdu)), ucast (pdu_mid pdu)] @ ?b"
    using encode_header_udp [OF assms(1-3)] by blast
  have used: "used_size pdu = length ?b" "token_length pdu = length tok" "length tok \<le> COAP_TOKEN_EXT_MAX" "options_ok 0 os"
    using assms(1) by (simp_all add: represents_def)
  have hs: "coap_pdu_parse_header_size COAP_PROTO_UDP (wire sent) = Some 4"
    by (simp add: coap_pdu_parse_header_size_def)
  have len: "length (wire sent) - 4 = length ?b" "4 \<le> length (wire sent)" unfolding sent(2) by simp_all
  have four: "0 < (4 :: nat)" "(4 :: nat) \<le> 6" by simp_all
  show ?thesis
  proof (rule parse_copies [OF assms(6) hs four len(2) order_refl, of h], goal_cases)
    case full: 1
    then show ?case using assms(7) used(1) len(1) by simp
  next
    case copied: (2 q slack)
    have "take (length ?b) (drop 4 (wire sent)) = ?b" "take 4 (wire sent) = [first_byte pdu, pdu_code pdu, ucast (drop_bit 8 (pdu_mid pdu)), ucast (pdu_mid pdu)]"
      unfolding sent(2) by simp_all
    note q = copied(2) [unfolded len this]
    note fields = first_byte_fields [OF assms(4)]
    have f: "max_hdr_size p = 6" "length (hdr p) = 6" "used_size p = 0" using assms(6) by (simp_all add: fresh_pdu_def)
    have field: "hdr q = take 2 (hdr p) @ [first_byte pdu, pdu_code pdu, ucast (drop_bit 8 (pdu_mid pdu)), ucast (pdu_mid pdu)]"
      "hdr_size q = 4" "max_hdr_size q = 6" "alloc_size q = length ?b" "used_size q = length ?b" "mem q = ?b @ slack" "data q = data p"
      using arg_cong [OF q, of hdr] arg_cong [OF q, of hdr_size] arg_cong [OF q, of max_hdr_size]
        arg_cong [OF q, of alloc_size] arg_cong [OF q, of used_size] arg_cong [OF q, of mem] arg_cong [OF q, of data] f by simp_all
    let ?q = "q\<lparr>pdu_type := pdu_type pdu, pdu_code := pdu_code pdu, pdu_mid := pdu_mid pdu,
      e_token_length := length (token_bytes tok), token_length := length tok, token_s := length (ext_bytes (length tok))\<rparr>"
    have head: "coap_pdu_parse_header q COAP_PROTO_UDP = Some (True, ?q)"
      using parse_header_udp [OF field(1,2), of tok "encode_opts 0 os @ payload_bytes pay @ slack"] fields used f(2) field
      by (simp add: mid_bytes msg_bytes_def)
    let ?r = "?q\<lparr>max_opt := word_of_nat (last_number 0 os),
      data := (if pay = [] then None else Some (length (token_bytes tok @ encode_opts 0 os) + 1))\<rparr>"
    have rep: "represents ?r tok os pay"
      using used(3,4) field by (simp add: represents_def)
    have parse: "coap_pdu_parse h COAP_PROTO_UDP (wire sent) (length (wire sent)) p = coap_pdu_parse_opt ?q"
      using copied(1) head by simp
    show ?thesis
    proof (cases "pdu_code pdu = 0")
      case False
      have opt: "coap_pdu_parse_opt ?q = Some (True, ?r)"
        by (rule coap_pdu_parse_opt_represents [OF rep, where x = "max_opt q" and d = "data q"])
          (use assms(5) False in simp_all)
      show ?thesis
        by (rule exI [of _ sent], rule exI [of _ True], rule exI [of _ ?r]) (use opt rep sent(1) parse False in simp)
    next
      case True
      have opt: "coap_pdu_parse_opt ?q = Some (if tok = [] \<and> os = [] \<and> pay = [] then (True, ?r) else (False, ?q))"
        by (rule coap_pdu_parse_opt_empty [OF rep, where x = "max_opt q" and d = "data q"]) (use True in simp_all)
      show ?thesis
        by (rule exI [of _ sent], rule exI [of _ "tok = [] \<and> os = [] \<and> pay = []"])
          (use opt rep sent(1) parse True in auto)
    qed
  qed
qed

theorem send_receive_roundtrip_witness:
  "\<exists>sent received. coap_pdu_encode_header (pdu_of [1, 2] [(11, [115]), (11, [116]), (12, [])] [7, 8]) COAP_PROTO_UDP = Some (4, sent) \<and>
    coap_pdu_parse full_heap COAP_PROTO_UDP (wire sent) (length (wire sent)) (pdu_of [] [] []) = Some (True, received) \<and>
    represents received [1, 2] [(11, [115]), (11, [116]), (12, [])] [7, 8] \<and> pdu_mid received = 0x1234"
proof -
  let ?os = "[(11, [115]), (11, [116]), (12, [])]"
  let ?pdu = "pdu_of [1, 2] ?os [7, 8]"
  have "represents ?pdu [1, 2] ?os [7, 8]" by (rule represents_pdu_of) (simp_all add: COAP_TOKEN_EXT_MAX_def)
  moreover have "lengths_ok (pdu_code ?pdu) ?os"
    by (simp add: lengths_ok_def length_ok_def pdu_of_fields COAP_PDU_IS_SIGNALING_def coap_pdu_parse_opt_base_def base_rules_def)
  moreover have "fresh_pdu (pdu_of [] [] [])" by (simp add: fresh_pdu_def pdu_of_def message_eval)
  ultimately show ?thesis
    using send_receive_roundtrip [of ?pdu "[1, 2]" ?os "[7, 8]" "pdu_of [] [] []" full_heap] can_grow_full
    by (auto simp: pdu_of_fields)
qed

section \<open>Any datagram\<close>

lemma next_option_safe_total:
  assumes "p + len \<le> length m"
  obtains "next_option_safe m p len number = Some Rejected"
    | sz number' n where "next_option_safe m p len number = Some (Accepted (sz, p + sz, len - sz, number'))"
      "0 < sz" "sz \<le> len" "coap_opt_length m p = Some n"
proof -
  obtain r where r: "coap_opt_parse m p len = Some r" "r = Rejected \<or> (\<exists>n opt. r = Accepted (n, opt) \<and> 0 < n \<and> n \<le> len)"
    using coap_opt_parse_safe [OF assms] by blast
  show thesis
  proof (cases r)
    case Rejected
    then show thesis using r(1) that(1) by (simp add: next_option_safe_def)
  next
    case (Accepted x)
    then obtain n opt where n: "r = Accepted (n, opt)" "0 < n" "n \<le> len" using r(2) by auto
    then have "coap_opt_length m p = Some (opt_len opt)" using r(1) accessors_agree(1) by simp
    then show thesis using n r(1) that
      by (cases "COAP_MAX_OPT < unat number + unat (delta opt)") (simp_all add: next_option_safe_def)
  qed
qed

text \<open>Where the option loops stop: at the end, or at the payload marker.\<close>

definition at_end :: "bytes \<Rightarrow> nat \<Rightarrow> nat \<Rightarrow> bool" where
  "at_end m p len \<longleftrightarrow> len = 0 \<or> c_load m p = Some COAP_PAYLOAD_START"

lemma go_on:
  assumes "p + len \<le> length m"
  shows "(if len > 0 then do { b \<leftarrow> c_load m p; Some (b \<noteq> COAP_PAYLOAD_START) } else Some False) = Some (\<not> at_end m p len)"
  using assms by (auto simp: at_end_def c_load_def)

lemma check_options_total:
  assumes "p + len \<le> length m"
  shows "\<exists>p' len' number' good'. check_options m code p len number good = Some (p', len', number', good') \<and>
    p' + len' = p + len \<and> (good' \<longrightarrow> at_end m p' len')"
  using assms
proof (induction len arbitrary: p number good rule: less_induct)
  case (less len)
  show ?case
  proof (cases "at_end m p len")
    case True
    then show ?thesis using go_on [OF less.prems] by (subst check_options.simps) simp
  next
    case False
    from less.prems show ?thesis
    proof (cases rule: next_option_safe_total [of p len m number])
      case 1
      then show ?thesis using False go_on [OF less.prems] by (subst check_options.simps) (simp add: ex_bool_eq)
    next
      case (2 sz number' n)
      have "p + sz + (len - sz) \<le> length m" using less.prems 2 by simp
      from less.IH [OF _ this] 2 False go_on [OF less.prems] show ?thesis
        by (subst check_options.simps) fastforce
    qed
  qed
qed

text \<open>The writers of the dump keep a byte free.\<close>

definition room_left :: "bool \<times> bytes \<times> nat \<Rightarrow> bool" where
  "room_left = (\<lambda>(ok, ob, left). 0 < left)"

lemma write_room:
  "room_left st \<Longrightarrow> room_left (write_if_ok (\<lambda>out. write_prefix out prf) st)"
  "room_left st \<Longrightarrow> room_left (write_if_ok (\<lambda>out. write_char out c printable) st)"
  by (auto simp: room_left_def write_if_ok_def write_prefix_def write_char_def split: prod.splits)

lemma dump_bytes_total:
  assumes "to \<le> length m" "room_left st"
  shows "\<exists>st'. dump_bytes m from to printable st = Some st' \<and> room_left st'"
proof -
  have "\<exists>st'. m_for (\<lambda>i st. do { c \<leftarrow> c_load m i; Some (write_if_ok (\<lambda>out. write_char out c printable) st) }) is st = Some st' \<and> room_left st'"
    if "\<forall>i \<in> set is. i < length m" "room_left st" for "is" st
    using that
  proof (induction "is" arbitrary: st)
    case (Cons i "is")
    then have "c_load m i = Some (m ! i)" by (simp add: c_load_def)
    with Cons write_room(2) show ?case by simp
  qed simp
  with assms show ?thesis unfolding dump_bytes_def by simp
qed

lemma dump_options_total:
  assumes "p + len = fin" "fin \<le> length m" "room_left st"
  shows "\<exists>p' len' number' st'. dump_options m code fin printable p len number st = Some (p', len', number', st') \<and>
    p' + len' = fin \<and> at_end m p' len' \<and> room_left st'"
  using assms
proof (induction len arbitrary: p number st rule: less_induct)
  case (less len)
  have bound: "p + len \<le> length m" using less.prems by simp
  show ?case
  proof (cases "at_end m p len")
    case True
    then show ?thesis using go_on [OF bound] less.prems by (subst dump_options.simps) simp
  next
    case False
    from bound show ?thesis
    proof (cases rule: next_option_safe_total [of p len m number])
      case 1
      obtain st' where st': "dump_bytes m p fin printable (write_if_ok (\<lambda>out. write_prefix out [42]) st) = Some st'" "room_left st'"
        using dump_bytes_total [OF less.prems(2) write_room(1) [OF less.prems(3)]] by blast
      have "dump_options m code fin printable fin 0 number st' = Some (fin, 0, number, st')"
        by (subst dump_options.simps) simp
      then show ?thesis using 1 st' False go_on [OF bound] by (subst dump_options.simps) (simp add: at_end_def)
    next
      case (2 sz number' n)
      let ?sep = "if length_ok code number' n then 32 else 42"
      obtain st' where st': "dump_bytes m p (p + sz) printable (write_if_ok (\<lambda>out. write_prefix out [?sep]) st) = Some st'" "room_left st'"
        using dump_bytes_total [of "p + sz" m] write_room(1) [OF less.prems(3)] bound 2 by fastforce
      have "\<exists>p' len' number'' st''. dump_options m code fin printable (p + sz) (len - sz) number' st' = Some (p', len', number'', st'') \<and>
        p' + len' = fin \<and> at_end m p' len' \<and> room_left st''"
        by (rule less.IH) (use less.prems 2 st' in simp_all)
      then show ?thesis using 2 st' False go_on [OF bound] by (subst dump_options.simps) (simp add: Let_def)
    qed
  qed
qed

lemma dump_row_total:
  assumes "e_token_length pdu \<le> used_size pdu" "used_size pdu \<le> length (mem pdu)"
  shows "\<exists>p len number row. dump_row pdu printable = Some (p, len, number, row) \<and>
    p + len = used_size pdu \<and> at_end (mem pdu) p len"
proof -
  have start: "room_left (write_prefix ([], COAP_DEBUG_BUF_SIZE) [79, 58, 32])"
    by (simp add: room_left_def write_prefix_def COAP_DEBUG_BUF_SIZE_def)
  have "e_token_length pdu + (used_size pdu - e_token_length pdu) = used_size pdu" using assms(1) by simp
  then obtain p len number st where r: "dump_options (mem pdu) (pdu_code pdu) (used_size pdu) printable (e_token_length pdu)
      (used_size pdu - e_token_length pdu) 0 (write_prefix ([], COAP_DEBUG_BUF_SIZE) [79, 58, 32]) = Some (p, len, number, st)"
    "p + len = used_size pdu" "at_end (mem pdu) p len" "room_left st"
    using dump_options_total [OF _ assms(2) start] by blast
  have mark: "(if len \<noteq> 0 then do { b \<leftarrow> c_load (mem pdu) p; Some (b = COAP_PAYLOAD_START) } else Some False) = Some (len \<noteq> 0)"
    using r(3) by (auto simp: at_end_def)
  obtain ok ob left where st: "st = (ok, ob, left)" by (cases st)
  let ?st' = "if len \<noteq> 0 then write_if_ok (\<lambda>out. write_char out COAP_PAYLOAD_START printable) (ok, ob, left) else (ok, ob, left)"
  have "room_left ?st'" using r(4) write_room(2) st by simp
  moreover obtain ok' ob' left' where st': "?st' = (ok', ob', left')" by (cases ?st')
  ultimately have "0 < left'" by (simp add: room_left_def)
  then show ?thesis
    using r mark st st' unfolding dump_row_def by (auto simp: Let_def)
qed

lemma parse_payload_total:
  "at_end (mem pdu) p len \<Longrightarrow> \<exists>ok pdu'. parse_payload pdu p len good = Some (ok, pdu')"
  by (auto simp: parse_payload_def at_end_def)

lemma coap_pdu_parse_opt_total:
  assumes "used_size pdu \<le> length (mem pdu)"
  shows "\<exists>ok pdu'. coap_pdu_parse_opt pdu = Some (ok, pdu')"
proof (cases "pdu_code pdu = 0 \<or> e_token_length pdu > used_size pdu")
  case True
  then show ?thesis by (auto simp: coap_pdu_parse_opt_def Let_def)
next
  case False
  let ?pdu = "pdu\<lparr>max_opt := 0\<rparr>"
  have "e_token_length pdu + (used_size pdu - e_token_length pdu) \<le> length (mem pdu)" using assms False by simp
  from check_options_total [OF this, of "pdu_code pdu" 0 True] obtain p len number good where
    c: "check_options (mem pdu) (pdu_code pdu) (e_token_length pdu) (used_size pdu - e_token_length pdu) 0 True = Some (p, len, number, good)"
      "good \<longrightarrow> at_end (mem pdu) p len" by blast
  obtain p' len' number' where rest: "(if good then Some (p, len, number) else do {
         _ \<leftarrow> dump_row ?pdu False;
         (opt, len, number, _) \<leftarrow> dump_row ?pdu True;
         Some (opt, len, number) }) = Some (p', len', number')" "at_end (mem pdu) p' len'"
  proof (cases good)
    case True
    then show thesis using c that by simp
  next
    case False
    obtain x where "dump_row ?pdu False = Some x"
      using dump_row_total [of ?pdu False] \<open>\<not> (pdu_code pdu = 0 \<or> _)\<close> assms by auto
    moreover obtain p2 len2 number2 row where "dump_row ?pdu True = Some (p2, len2, number2, row)" "at_end (mem pdu) p2 len2"
      using dump_row_total [of ?pdu True] \<open>\<not> (pdu_code pdu = 0 \<or> _)\<close> assms by auto
    ultimately show thesis using that False by simp
  qed
  obtain ok pdu' where "parse_payload (?pdu\<lparr>max_opt := number'\<rparr>) p' len' good = Some (ok, pdu')"
    using parse_payload_total [of "?pdu\<lparr>max_opt := number'\<rparr>" p' len' good] rest(2) by auto
  then show ?thesis using False c(1) rest(1) by (simp add: coap_pdu_parse_opt_def Let_def)
qed

lemma coap_pdu_parse_header_total:
  assumes "max_hdr_size pdu = 6" "length (hdr pdu) = 6" "0 < hdr_size pdu" "hdr_size pdu \<le> 6" "2 \<le> length (mem pdu)"
    and fits: "prot = COAP_PROTO_UDP \<or> prot = COAP_PROTO_DTLS \<Longrightarrow> hdr_size pdu = 4"
      "prot = COAP_PROTO_TCP \<or> prot = COAP_PROTO_TLS \<Longrightarrow> 2 \<le> hdr_size pdu"
      "prot = COAP_PROTO_WS \<or> prot = COAP_PROTO_WSS \<Longrightarrow> hdr_size pdu = 2"
  shows "\<exists>ok pdu'. coap_pdu_parse_header pdu prot = Some (ok, pdu') \<and> mem pdu' = mem pdu \<and> used_size pdu' = used_size pdu"
proof -
  have load: "hdr_load pdu i = Some (hdr pdu ! (6 - hdr_size pdu + i))" if "i < hdr_size pdu" for i
    using assms(1,2,4) that by (simp add: hdr_load_def c_load_def)
  obtain r where r: "parse_header_fields pdu prot = Some r"
    "r = Rejected \<or> (\<exists>t c i. r = Accepted (pdu\<lparr>pdu_type := t, pdu_code := c, pdu_mid := i\<rparr>))"
  proof (cases prot)
    case COAP_PROTO_NONE
    then show thesis using that by (simp add: parse_header_fields_def)
  next
    case COAP_PROTO_UDP
    then show thesis using that fits(1) load by (cases "drop_bit 6 (hdr pdu ! 2) = 1") (auto simp: parse_header_fields_def)
  next
    case COAP_PROTO_DTLS
    then show thesis using that fits(1) load by (cases "drop_bit 6 (hdr pdu ! 2) = 1") (auto simp: parse_header_fields_def)
  next
    case COAP_PROTO_TCP
    then show thesis using that fits(2) load assms(3,4) by (auto simp: parse_header_fields_def)
  next
    case COAP_PROTO_TLS
    then show thesis using that fits(2) load assms(3,4) by (auto simp: parse_header_fields_def)
  next
    case COAP_PROTO_WS
    then show thesis using that fits(3) load by (auto simp: parse_header_fields_def)
  next
    case COAP_PROTO_WSS
    then show thesis using that fits(3) load by (auto simp: parse_header_fields_def)
  qed
  from r(2) show ?thesis
  proof
    assume "r = Rejected"
    then show ?thesis using r(1) by (simp add: coap_pdu_parse_header_def ex_bool_eq)
  next
    assume "\<exists>t c i. r = Accepted (pdu\<lparr>pdu_type := t, pdu_code := c, pdu_mid := i\<rparr>)"
    then obtain q where q: "r = Accepted q" "mem q = mem pdu" "used_size q = used_size pdu"
      "hdr q = hdr pdu" "hdr_size q = hdr_size pdu" "max_hdr_size q = max_hdr_size pdu" by auto
    have "hdr_load q 0 = Some (hdr pdu ! (6 - hdr_size pdu))"
      using load [of 0] assms(3) q by (simp add: hdr_load_def)
    moreover have "c_load (mem q) 0 = Some (mem pdu ! 0)" "c_load (mem q) 1 = Some (mem pdu ! 1)"
      using assms(5) unfolding q(2) c_load_def by auto
    ultimately show ?thesis
      using r(1) q by (simp add: coap_pdu_parse_header_def Let_def ex_bool_eq)
  qed
qed

text \<open>C12: the receiver is memory safe and terminates for every datagram: whatever bytes arrive, over
  any protocol, \<open>coap_pdu_parse\<close> into a freshly allocated message returns, without a read or
  write outside a buffer and without a failed assertion, also when it prints the dump of a
  malformed message. The message object must have room for two bytes, which the receive path's
  \<open>coap_pdu_init\<close> with the session's maximum size gives.\<close>

theorem parse_any_datagram:
  assumes "fresh_pdu p" "2 \<le> length (mem p)" "len \<le> length d"
  shows "\<exists>ok p'. coap_pdu_parse h prot d len p = Some (ok, p')"
proof (cases "len = 0")
  case True
  then show ?thesis by (simp add: coap_pdu_parse_def ex_bool_eq)
next
  case False
  then have "0 < length d" using assms(3) by linarith
  then obtain hs where hs: "coap_pdu_parse_header_size prot d = Some hs" "hs \<le> 6"
    and proto: "prot = COAP_PROTO_UDP \<or> prot = COAP_PROTO_DTLS \<Longrightarrow> hs = 4"
      "prot = COAP_PROTO_TCP \<or> prot = COAP_PROTO_TLS \<Longrightarrow> 2 \<le> hs"
      "prot = COAP_PROTO_WS \<or> prot = COAP_PROTO_WSS \<Longrightarrow> hs = 2"
    unfolding coap_pdu_parse_header_size_def by (cases prot) (auto simp: c_load_def Let_def)
  have "max_hdr_size p = 6" using assms(1) by (simp add: fresh_pdu_def)
  show ?thesis
  proof (cases "hs = 0 \<or> hs > len")
    case True
    then show ?thesis using False hs by (auto simp: coap_pdu_parse_def ex_bool_eq)
  next
    case size: False
    then have "0 < hs" "hs \<le> len" by simp_all
    show ?thesis
    proof (rule parse_copies [OF assms(1) hs(1) \<open>0 < hs\<close> hs(2) \<open>hs \<le> len\<close> assms(3), of h], goal_cases)
      case 1
      then show ?case by (simp add: ex_bool_eq)
    next
      case (2 q slack)
      note q = 2(2)
      have f: "max_hdr_size p = 6" "length (hdr p) = 6" using assms(1) by (simp_all add: fresh_pdu_def)
      have "hdr q = take (6 - hs) (hdr p) @ take hs d" "hdr_size q = hs" "max_hdr_size q = 6" "used_size q = len - hs"
        "mem q = take (len - hs) (drop hs d) @ slack"
        using arg_cong [OF q, of hdr] arg_cong [OF q, of hdr_size] arg_cong [OF q, of max_hdr_size]
          arg_cong [OF q, of used_size] arg_cong [OF q, of mem] f by simp_all
      then have field: "length (hdr q) = 6" "hdr_size q = hs" "max_hdr_size q = 6" "used_size q \<le> length (mem q)" "2 \<le> length (mem q)"
        using f hs(2) \<open>hs \<le> len\<close> assms(2,3) 2(3) by simp_all
      obtain ok q' where head: "coap_pdu_parse_header q prot = Some (ok, q')" "mem q' = mem q" "used_size q' = used_size q"
        using coap_pdu_parse_header_total [of q prot] field \<open>0 < hs\<close> hs(2) proto by auto
      obtain ok' q'' where "coap_pdu_parse_opt q' = Some (ok', q'')"
        using coap_pdu_parse_opt_total [of q'] head(2,3) field(4) by auto
      then show ?case using 2(1) head(1) by (cases ok) (simp_all add: ex_bool_eq)
    qed
  qed
qed

theorem parse_any_datagram_witness:
  "\<exists>ok p'. coap_pdu_parse full_heap COAP_PROTO_UDP [0x4E, 1, 2, 3, 0xFF, 0xFF, 0xFF] 7
     ((pdu_of [] [] [])\<lparr>mem := [0, 0], alloc_size := 2\<rparr>) = Some (ok, p')"
proof -
  have "fresh_pdu ((pdu_of [] [] [])\<lparr>mem := [0, 0], alloc_size := 2\<rparr>)"
    by (simp add: fresh_pdu_def pdu_of_def message_eval)
  from parse_any_datagram [OF this] show ?thesis by simp
qed

end
