(* ===== verification/Coap_Sender.thy ===== *)
theory Coap_Sender
  imports Coap_Roundtrip Sender Esp_Idf
begin

text \<open>
  \<open>init_coap\<close> and \<open>send_task_coap\<close> of \<open>src/main/main.c\<close>: the alternative sending task
  that posts the samples to a CoAP server. It runs on the models of the ring buffers and of
  libcoap's messages.

  A pass of its loop has three parts: it builds a message with a Content-Format option, takes
  the samples of the buffer whose turn it is, and adds them as the payload and sends. The task
  can only wait between the first two, at the take of the mutex; the critical section runs under
  the mutex and is one step.
\<close>

section \<open>Connecting\<close>

text \<open>
  \<open>inet_addr\<close> is lwIP's, \<open>context\<close> the result of
  \<open>coap_new_context\<close>, and \<open>new_client_session\<close> libcoap's session set-up, whose result
  may be the null pointer. A null session is only logged.
\<close>

definition init_coap ::
  "(string \<Rightarrow> u32) \<Rightarrow> 'c option \<Rightarrow> ('c option \<Rightarrow> sockaddr_in \<Rightarrow> coap_session option) \<Rightarrow>
    sockaddr_in \<times> coap_session option" where
  "init_coap inet_addr context new_client_session =
     (let coap_address = \<lparr>sin_family = AF_INET, sin_port = htons COAP_PORT, s_addr = inet_addr COAP_SERVERADDRESS\<rparr>
      in (coap_address, new_client_session context coap_address))"

section \<open>State\<close>

text \<open>
  The locals of the task and the globals \<open>coap_session\<close> and \<open>coap_message\<close>
  (\<open>None\<close>: the null pointer). \<open>posted\<close> logs the messages handed to \<open>coap_send\<close>, which
  releases them.
\<close>

record coap_task =
  coap_last :: int
  coap_array :: "u32 list"
  coap_payload :: bytes
  content_type_buffer :: bytes
  content_type_length :: nat
  cur_session :: "coap_session option"
  coap_message :: "coap_pdu option"
  posted :: "coap_pdu list"

definition COAP_MESSAGE_NON :: u8 where "COAP_MESSAGE_NON = 1"
definition COAP_REQUEST_CODE_POST :: u8 where "COAP_REQUEST_CODE_POST = 2"
definition COAP_MEDIATYPE_APPLICATION_OCTET_STREAM :: u32 where "COAP_MEDIATYPE_APPLICATION_OCTET_STREAM = 42"

lemmas coap_request_defs = COAP_MESSAGE_NON_def COAP_REQUEST_CODE_POST_def
  COAP_MEDIATYPE_APPLICATION_OCTET_STREAM_def COAP_OPTION_CONTENT_TYPE_def

text \<open>The task before its loop; \<open>payload0\<close> and \<open>ct0\<close> are the two uninitialised arrays.\<close>

definition coap_task_init :: "bytes \<Rightarrow> bytes \<Rightarrow> coap_session option \<Rightarrow> coap_task option" where
  "coap_task_init payload0 ct0 s = do {
     (n, ct) \<leftarrow> coap_encode_var_safe ct0 2 COAP_MEDIATYPE_APPLICATION_OCTET_STREAM;
     Some \<lparr>coap_last = 1, coap_array = replicate (unat RINGBUFFER_SIZE) 0, coap_payload = payload0,
       content_type_buffer = ct, content_type_length = n, cur_session = s, coap_message = None, posted = []\<rparr>
   }"

section \<open>One pass\<close>

text \<open>
  The new message. Neither the session nor the result of \<open>coap_new_pdu\<close> is tested: with a
  null pointer the next call dereferences it.
\<close>

definition coap_build :: "heap \<Rightarrow> (coap_session \<Rightarrow> coap_session) \<Rightarrow> coap_task \<Rightarrow> coap_task option" where
  "coap_build h delayed t = do {
     s \<leftarrow> cur_session t;
     (m, s) \<leftarrow> coap_new_pdu h delayed COAP_MESSAGE_NON COAP_REQUEST_CODE_POST s;
     pdu \<leftarrow> m;
     val \<leftarrow> c_slice (content_type_buffer t) 0 (content_type_length t);
     (_, pdu) \<leftarrow> coap_add_option h pdu COAP_OPTION_CONTENT_TYPE (content_type_length t) (Some val);
     Some (t\<lparr>cur_session := Some s, coap_message := Some pdu\<rparr>)
   }"

text \<open>The critical section; \<open>counter\<close> starts at 0 and indexes the local array.\<close>

definition coap_read_slot ::
  "'m mutex_ops \<Rightarrow> 'm slot \<Rightarrow> coap_task \<Rightarrow> ('m slot \<times> coap_task) task_result option" where
  "coap_read_slot os sl t =
     (case xSemaphoreTake os (ringbuffer_mutex sl) of
        None \<Rightarrow> Some Blocked
      | Some m \<Rightarrow> do {
          rb \<leftarrow> ringbuffer sl;
          (rb, arr, _) \<leftarrow>
            (if is_full rb then drain_loop is_full read_from_buffer (store_next (\<lambda>x. x)) (rb, (coap_array t, 0))
             else Some (rb, coap_array t, 0));
          Some (Next (sl\<lparr>ringbuffer := Some rb, ringbuffer_mutex := xSemaphoreGive os m\<rparr>, t\<lparr>coap_array := arr\<rparr>))
        })"

text \<open>
  \<open>memcpy\<close> of the whole array, \<open>coap_add_data\<close>, whose result is not used, and
  \<open>coap_send\<close>; \<open>send\<close> is the session after it. What it returns is only logged.
\<close>

definition coap_post :: "heap \<Rightarrow> (coap_session \<Rightarrow> coap_pdu \<Rightarrow> coap_session) \<Rightarrow> coap_task \<Rightarrow> coap_task option" where
  "coap_post h send t = do {
     payload \<leftarrow> c_blit (coap_payload t) 0 (concat (map mem_bytes (coap_array t)));
     pdu \<leftarrow> coap_message t;
     (_, pdu) \<leftarrow> coap_add_data h pdu (length payload) payload;
     s \<leftarrow> cur_session t;
     Some (t\<lparr>coap_payload := payload, cur_session := Some (send s pdu), coap_message := Some pdu, posted := posted t @ [pdu]\<rparr>)
   }"

datatype coap_pc = Coap_build | Coap_read | Coap_post

definition coap_task_step ::
  "heap \<Rightarrow> (coap_session \<Rightarrow> coap_session) \<Rightarrow> (coap_session \<Rightarrow> coap_pdu \<Rightarrow> coap_session) \<Rightarrow> 'm mutex_ops \<Rightarrow>
    'm sampler \<times> coap_task \<times> coap_pc \<Rightarrow> ('m sampler \<times> coap_task \<times> coap_pc) task_result option" where
  "coap_task_step h delayed send os = (\<lambda>(g, t, pc).
     case pc of
       Coap_build \<Rightarrow> do { t \<leftarrow> coap_build h delayed t; Some (Next (g, t, Coap_read)) }
     | Coap_read \<Rightarrow>
         if coap_last t = 2 then do {
           r \<leftarrow> coap_read_slot os (slot1 g) t;
           Some (case r of Blocked \<Rightarrow> Blocked
             | Next (sl, t) \<Rightarrow> Next (g\<lparr>slot1 := sl\<rparr>, t\<lparr>coap_last := 1\<rparr>, Coap_post))
         }
         else if coap_last t = 1 then do {
           r \<leftarrow> coap_read_slot os (slot2 g) t;
           Some (case r of Blocked \<Rightarrow> Blocked
             | Next (sl, t) \<Rightarrow> Next (g\<lparr>slot2 := sl\<rparr>, t\<lparr>coap_last := 2\<rparr>, Coap_post))
         }
         else Some (Next (g, t, Coap_post))
     | Coap_post \<Rightarrow> do { t \<leftarrow> coap_post h send t; Some (Next (g, t, Coap_build)) })"

section \<open>What a message carries\<close>

text \<open>The first option of an empty message: two bytes, stored in place.\<close>

lemma add_content_format:
  assumes "used_size p = 0" "data p = None" "max_opt p = 0" "2 \<le> alloc_size p" "alloc_size p \<le> length (mem p)"
  shows "coap_add_option h p COAP_OPTION_CONTENT_TYPE 1 (Some [b]) =
    Some (2, p\<lparr>mem := 0xC1 # b # drop 2 (mem p), max_opt := 12, used_size := 2\<rparr>)"
proof -
  have hdr: "opt_header 12 (Suc 0) = [0xC1]" by (simp add: opt_header_def ext_nibble_def ext_bytes_def)
  have size: "coap_opt_encode_size 12 1 = 2" by (simp add: coap_opt_encode_size_eq hdr)
  have "length (take 2 (mem p)) = 2" using assms by simp
  then have enc: "coap_opt_encode (mem p) 0 (alloc_size p) 12 (Some [b]) 1 = Some (2, 0xC1 # b # drop 2 (mem p))"
    using coap_opt_encode_eq [of "take 2 (mem p)" 12 "[b]" "alloc_size p" "[]" "drop 2 (mem p)"] assms(4) hdr by simp
  have resize: "coap_pdu_check_resize h p 2 = Some (True, p)"
    using assms by (simp add: coap_pdu_check_resize_def)
  have resize': "coap_pdu_check_resize h p (Suc (Suc 0)) = Some (True, p)"
    using resize by (simp add: numeral_2_eq_2)
  have "append_option h p 12 1 (Some [b]) = Some (2, p\<lparr>mem := 0xC1 # b # drop 2 (mem p), max_opt := 12, used_size := 2\<rparr>)"
    using assms enc size resize' unfolding append_option_def Let_def by simp
  then show ?thesis
    using assms by (simp add: coap_add_option_def coap_add_option_internal_def COAP_OPTION_CONTENT_TYPE_def
        COAP_OPTION_PROXY_URI_def COAP_OPTION_PROXY_SCHEME_def COAP_PDU_IS_REQUEST_def)
qed

text \<open>Adding a payload appends the marker and the bytes, or fails and changes nothing.\<close>

lemma add_data_bytes:
  assumes "sizes_ok p" "data p = None" "pay \<noteq> []"
  shows "\<exists>ok p'. coap_add_data h p (length pay) pay = Some (ok, p') \<and>
    take (used_size p') (mem p') = take (used_size p) (mem p) @ (if ok then payload_bytes pay else []) \<and>
    (ok \<longleftrightarrow> used_size p + length pay + 1 \<le> alloc_size p \<or>
        (max_size p = 0 \<or> used_size p + length pay + 1 \<le> max_size p) \<and>
        grow_ok h (used_size p + length pay + 1 + max_hdr_size p))"
proof -
  let ?n = "used_size p + length pay + 1"
  define ok where "ok \<longleftrightarrow> ?n \<le> alloc_size p \<or> (max_size p = 0 \<or> ?n \<le> max_size p) \<and> grow_ok h (?n + max_hdr_size p)"
  have "used_size p \<le> ?n" by simp
  then obtain p1 where r: "coap_pdu_resize h p ?n = Some (ok, p1)"
    and s: "if ok then regrown p p1 \<and> alloc_size p1 = ?n else p1 = p"
    using coap_pdu_resize_eq [OF assms(1), of ?n h] unfolding ok_def by blast
  show ?thesis
  proof (cases ok)
    case False
    then have "coap_add_data h p (length pay) pay = Some (False, p)"
      using r s assms by (simp add: coap_add_data_def coap_add_data_after_def)
    with False show ?thesis unfolding ok_def [symmetric] by (simp add: ex_bool_eq)
  next
    case True
    have g: "regrown p p1" "alloc_size p1 = ?n" using s True by simp_all
    have u: "used_size p1 = used_size p" "data p1 = None" "?n \<le> length (mem p1)"
      "take (used_size p) (mem p1) = take (used_size p) (mem p)"
      using regrown_same [OF g(1)] g assms(2) by (auto simp: regrown_def)
    have u': "used_size p + length pay \<le> length (mem p1) - Suc 0" using u(3) by simp
    define m2 where "m2 = take (used_size p) (mem p1) @ COAP_PAYLOAD_START # pay @ drop ?n (mem p1)"
    have "coap_add_data h p (length pay) pay =
        Some (True, p1\<lparr>data := Some (used_size p + 1), used_size := used_size p + 1 + length pay, mem := m2\<rparr>)"
      using r True assms u u' by (simp add: coap_add_data_def coap_add_data_after_def c_store_def c_blit_def c_slice_def
          m2_def take_Suc_conv_app_nth drop_update_cancel upd_conv_take_nth_drop sizes_ok_def add.commute)
    moreover have "take (used_size p + 1 + length pay) m2 = take (used_size p) (mem p) @ payload_bytes pay"
      using u assms by (simp add: m2_def payload_bytes_def sizes_ok_def)
    ultimately show ?thesis using True unfolding ok_def [symmetric] by (simp add: ex_bool_eq)
  qed
qed
section \<open>The task\<close>

text \<open>What holds of the task's locals from its start on.\<close>

definition coap_task_ok :: "coap_task \<Rightarrow> bool" where
  "coap_task_ok t \<longleftrightarrow> coap_last t \<in> {1, 2} \<and> length (coap_array t) = unat RINGBUFFER_SIZE \<and>
     length (coap_payload t) = 4 * unat RINGBUFFER_SIZE \<and>
     content_type_length t = 1 \<and> c_slice (content_type_buffer t) 0 1 = Some [42]"

lemma RINGBUFFER_SIZE_nat [simp]: "unat RINGBUFFER_SIZE = 1250"
  by (simp add: RINGBUFFER_SIZE_def)

lemma coap_task_init_ok:
  assumes "length ct0 = 2" "length payload0 = 5000"
  shows "\<exists>t. coap_task_init payload0 ct0 s = Some t \<and> coap_task_ok t \<and> cur_session t = s \<and> posted t = []"
proof -
  obtain a b where "ct0 = [a, b]" using assms(1) by (auto simp: numeral_2_eq_2 length_Suc_conv)
  moreover have "coap_encode_var_safe [a, b] 2 42 = Some (1, [42, b])"
    by (simp add: coap_encode_var_safe_def store_be_def c_store_def var_size.simps)
  ultimately show ?thesis
    using assms(2) by (simp add: coap_task_init_def coap_request_defs coap_task_ok_def c_slice_def)
qed

lemma length_samples [simp]: "length (concat (map mem_bytes ws)) = 4 * length ws"
  by (induction ws) simp_all

text \<open>The three parts of a pass.\<close>

lemma coap_build_eq:
  assumes "coap_task_ok t" "cur_session t = Some s" "raw_pdu h \<noteq> None" "\<And>k. grow_ok h k"
    and "coap_session_max_pdu_size delayed (snd (coap_new_message_id s)) = (n, s1)" "2 \<le> n"
  shows "\<exists>p. coap_build h delayed t = Some (t\<lparr>cur_session := Some s1, coap_message := Some p\<rparr>) \<and>
    sizes_ok p \<and> data p = None \<and> used_size p = 2 \<and> take 2 (mem p) = [0xC1, 42] \<and> max_size p = n \<and> alloc_size p = min n 256"
proof -
  obtain mid s0 where s0: "coap_new_message_id s = (mid, s0)" by (cases "coap_new_message_id s")
  obtain p0 where p0: "coap_pdu_init h 1 2 mid n = Some (Some p0)" "used_size p0 = 0" "data p0 = None" "max_opt p0 = 0"
    "max_size p0 = n" "alloc_size p0 = min n 256" "length (mem p0) = min n 256"
    using assms(3,4) by (simp add: coap_pdu_init_fresh)
  have new: "coap_new_pdu h delayed 1 2 s = Some (Some p0, s1)"
    using assms(5) s0 p0(1) by (simp add: coap_new_pdu_def)
  have "coap_add_option h p0 COAP_OPTION_CONTENT_TYPE 1 (Some [42]) =
      Some (2, p0\<lparr>mem := 0xC1 # 42 # drop 2 (mem p0), max_opt := 12, used_size := 2\<rparr>)"
    using p0 assms(6) by (intro add_content_format) simp_all
  moreover define p where "p = p0\<lparr>mem := 0xC1 # 42 # drop 2 (mem p0), max_opt := 12, used_size := 2\<rparr>"
  ultimately have "coap_build h delayed t = Some (t\<lparr>cur_session := Some s1, coap_message := Some p\<rparr>)"
    using assms(1,2) new by (simp add: coap_build_def COAP_MESSAGE_NON_def COAP_REQUEST_CODE_POST_def coap_task_ok_def)
  moreover have "sizes_ok p" "take 2 (mem p) = [0xC1, 42]"
    using p0 assms(6) by (simp_all add: p_def sizes_ok_def)
  moreover have "data p = None \<and> used_size p = 2 \<and> max_size p = n \<and> alloc_size p = min n 256"
    using p0 by (simp add: p_def)
  ultimately show ?thesis by blast
qed

lemma coap_post_eq:
  assumes "coap_task_ok t" "cur_session t = Some s" "coap_message t = Some p" "sizes_ok p" "data p = None"
  shows "\<exists>ok p' t'. coap_post h send t = Some t' \<and> posted t' = posted t @ [p'] \<and> coap_task_ok t' \<and>
    cur_session t' = Some (send s p') \<and>
    take (used_size p') (mem p') = take (used_size p) (mem p) @
      (if ok then payload_bytes (concat (map mem_bytes (coap_array t))) else []) \<and>
    (ok \<longleftrightarrow> used_size p + 5001 \<le> alloc_size p \<or>
        (max_size p = 0 \<or> used_size p + 5001 \<le> max_size p) \<and> grow_ok h (used_size p + 5001 + max_hdr_size p))"
proof -
  define pay where "pay = concat (map mem_bytes (coap_array t))"
  have len: "length pay = 5000" using assms(1) by (simp add: coap_task_ok_def pay_def)
  then have ne: "pay \<noteq> []" by auto
  have eq: "used_size p + 5000 + 1 = used_size p + 5001" by simp
  obtain ok p' where add: "coap_add_data h p 5000 pay = Some (ok, p')"
    and p': "take (used_size p') (mem p') = take (used_size p) (mem p) @ (if ok then payload_bytes pay else [])"
      "ok \<longleftrightarrow> used_size p + 5001 \<le> alloc_size p \<or>
        (max_size p = 0 \<or> used_size p + 5001 \<le> max_size p) \<and> grow_ok h (used_size p + 5001 + max_hdr_size p)"
    using add_data_bytes [OF assms(4,5) ne, of h] unfolding len eq by blast
  have "c_blit (coap_payload t) 0 pay = Some pay"
    using assms(1) len by (simp add: c_blit_def coap_task_ok_def)
  moreover define t' where "t' = t\<lparr>coap_payload := pay, cur_session := Some (send s p'), coap_message := Some p', posted := posted t @ [p']\<rparr>"
  ultimately have "coap_post h send t = Some t'"
    using add assms(2,3) len unfolding coap_post_def pay_def [symmetric] by simp
  moreover have "posted t' = posted t @ [p']" "coap_task_ok t'" "cur_session t' = Some (send s p')"
    using len assms(1) by (simp_all add: t'_def coap_task_ok_def)
  ultimately show ?thesis using p' unfolding pay_def by blast
qed

lemma coap_read_slot_full:
  assumes "mutex_contract os available" "available (ringbuffer_mutex sl)" "ringbuffer sl = Some rb"
    and "rb_inv rb" "is_full rb" "rb_count rb = rb_cap rb" "rb_cap rb = length (coap_array t)"
  shows "\<exists>sl' rb'. coap_read_slot os sl t = Some (Next (sl', t\<lparr>coap_array := rb_contents rb\<rparr>)) \<and>
    available (ringbuffer_mutex sl') \<and> ringbuffer sl' = Some rb' \<and> rb_inv rb' \<and> rb_contents rb' = [] \<and> \<not> is_full rb'"
proof -
  obtain m where m: "xSemaphoreTake os (ringbuffer_mutex sl) = Some m" "\<not> available m"
    using mutex_contract.take_available [OF assms(1,2)] by blast
  have give: "available (xSemaphoreGive os m)"
    using mutex_contract.give_available [OF assms(1) m(2)] .
  have "0 < rb_cap rb" using assms(4) by (simp add: rb_inv_def)
  then have ne: "rb_contents rb \<noteq> []" using assms(6) by simp
  obtain rb' where "drain_loop is_full read_from_buffer (store_next (\<lambda>x. x)) (rb, (coap_array t, 0)) =
      Some (rb', rb_contents rb, rb_cap rb)" "rb_inv rb'" "rb_contents rb' = []" "\<not> is_full rb'"
    using rb.drain_into_array [OF assms(4,5) ne, of 0 "coap_array t" "\<lambda>x. x"] assms(6,7) by auto
  then show ?thesis
    using m give assms(3,5) by (simp add: coap_read_slot_def)
qed

section \<open>Property\<close>

definition coap_turn :: "'m sampler \<Rightarrow> coap_task \<Rightarrow> 'm slot" where
  "coap_turn g t = (if coap_last t = 2 then slot1 g else slot2 g)"

text \<open>C10: one pass of \<open>send_task_coap\<close> over a full buffer, given that allocations succeed and the largest message of the
  session has room for the option (\<open>n\<close> is at least 2): the message it hands to \<open>coap_send\<close> has the
  Content-Format option (bytes C1 2A) and, exactly when the session's largest message of \<open>n\<close> bytes has
  room for them, the 5000 bytes of the samples as they lie in memory; when it has not, as with the default
  of 1152 bytes per datagram, the result of \<open>coap_add_data\<close> is ignored and the message goes out without
  a payload. The samples are taken from the buffer in both cases.\<close>

theorem coap_post_limit:
  assumes "mutex_contract os available" "coap_task_ok t" "cur_session t = Some s"
    and "coap_session_max_pdu_size delayed (snd (coap_new_message_id s)) = (n, s1)" "2 \<le> n"
    and "raw_pdu h \<noteq> None" "\<And>k. grow_ok h k"
    and "available (ringbuffer_mutex (coap_turn g t))" "ringbuffer (coap_turn g t) = Some rb"
    and "rb_inv rb" "is_full rb" "rb_count rb = rb_cap rb" "rb_size rb = RINGBUFFER_SIZE"
  shows "\<exists>st1 st2 g' t' m rb'. coap_task_step h delayed send os (g, t, Coap_build) = Some (Next st1) \<and>
    coap_task_step h delayed send os st1 = Some (Next st2) \<and>
    coap_task_step h delayed send os st2 = Some (Next (g', t', Coap_build)) \<and>
    posted t' = posted t @ [m] \<and> coap_task_ok t' \<and> coap_last t' = swap_turn (coap_last t) \<and>
    take (used_size m) (mem m) = [0xC1, 42] @ (if 5003 \<le> n then payload_bytes (concat (map mem_bytes (rb_contents rb))) else []) \<and>
    ringbuffer (coap_turn g' t) = Some rb' \<and> rb_contents rb' = [] \<and> \<not> is_full rb'"
proof -
  obtain p where build: "coap_build h delayed t = Some (t\<lparr>cur_session := Some s1, coap_message := Some p\<rparr>)"
    and p: "sizes_ok p" "data p = None" "used_size p = 2" "take 2 (mem p) = [0xC1, 42]" "max_size p = n" "alloc_size p = min n 256"
    using coap_build_eq [OF assms(2,3,6,7,4,5)] by blast
  define t1 where "t1 = t\<lparr>cur_session := Some s1, coap_message := Some p\<rparr>"
  have len: "rb_cap rb = length (coap_array t1)"
    using assms(2,13) by (simp add: t1_def coap_task_ok_def)
  obtain sl' rb' where read: "coap_read_slot os (coap_turn g t) t1 = Some (Next (sl', t1\<lparr>coap_array := rb_contents rb\<rparr>))"
    and rb': "ringbuffer sl' = Some rb'" "rb_contents rb' = []" "\<not> is_full rb'"
    using coap_read_slot_full [OF assms(1,8,9,10,11,12) len] by blast
  define t2 where "t2 = t1\<lparr>coap_array := rb_contents rb, coap_last := swap_turn (coap_last t)\<rparr>"
  define g2 where "g2 = (if coap_last t = 2 then g\<lparr>slot1 := sl'\<rparr> else g\<lparr>slot2 := sl'\<rparr>)"
  have turn: "coap_last t1 = coap_last t" "coap_last t = 1 \<or> coap_last t = 2"
    using assms(2) by (auto simp: t1_def coap_task_ok_def)
  have step2: "coap_task_step h delayed send os (g, t1, Coap_read) = Some (Next (g2, t2, Coap_post))"
    using turn read by (auto simp: coap_task_step_def coap_turn_def t2_def g2_def swap_turn_def)
  have ok: "coap_task_ok t2" "cur_session t2 = Some s1" "coap_message t2 = Some p" "coap_array t2 = rb_contents rb"
      "posted t2 = posted t" "coap_last t2 = swap_turn (coap_last t)"
    using assms(2,12) len turn by (auto simp: coap_task_ok_def t1_def t2_def swap_turn_def)
  obtain b p' t' where post: "coap_post h send t2 = Some t'" "posted t' = posted t2 @ [p']" "coap_task_ok t'"
    and bytes: "take (used_size p') (mem p') = take (used_size p) (mem p) @
        (if b then payload_bytes (concat (map mem_bytes (coap_array t2))) else [])"
      "b \<longleftrightarrow> used_size p + 5001 \<le> alloc_size p \<or>
        (max_size p = 0 \<or> used_size p + 5001 \<le> max_size p) \<and> grow_ok h (used_size p + 5001 + max_hdr_size p)"
    using coap_post_eq [OF ok(1,2,3) p(1,2), of h send] by blast
  have b: "b \<longleftrightarrow> 5003 \<le> n" using bytes(2) p assms(5,7) by auto
  have bytes': "take (used_size p') (mem p') = [0xC1, 42] @ (if 5003 \<le> n then payload_bytes (concat (map mem_bytes (rb_contents rb))) else [])"
    using bytes(1) unfolding b ok(4) p(3,4) .
  have last: "coap_last t' = swap_turn (coap_last t)"
    using post(1) ok(6) by (auto simp: coap_post_def bind_eq_Some_conv)
  have "coap_task_step h delayed send os (g, t, Coap_build) = Some (Next (g, t1, Coap_read))"
    using build by (simp add: coap_task_step_def t1_def)
  moreover have "coap_task_step h delayed send os (g2, t2, Coap_post) = Some (Next (g2, t', Coap_build))"
    using post(1) by (simp add: coap_task_step_def)
  moreover have "ringbuffer (coap_turn g2 t) = Some rb'"
    using rb'(1) by (simp add: coap_turn_def g2_def)
  ultimately show ?thesis
    using step2 post(2,3) last rb' bytes' unfolding ok(5) by blast
qed

text \<open>A session over UDP with libcoap's default MTU, and the two buffers of the program, the second one full.\<close>

definition udp_session :: coap_session where
  "udp_session = \<lparr>proto = COAP_PROTO_UDP, tx_mid = 0, mtu = 1152, tls_overhead = 0, doing_first = False\<rparr>"

definition full_ringbuffer :: ringbuffer_handle where
  "full_ringbuffer = \<lparr>writeIndex = 0, readIndex = 0, timestamp = clock 0, sensValue = replicate 1250 7,
     rb_size = 1250, full = True\<rparr>"

definition full_slot :: "bool slot" where
  "full_slot = \<lparr>ringbuffer = Some full_ringbuffer, ringbuffer_mutex = True, MutexHolder = False\<rparr>"

definition ready_task :: coap_task where
  "ready_task = \<lparr>coap_last = 1, coap_array = replicate 1250 0, coap_payload = replicate 5000 0,
     content_type_buffer = [42, 0], content_type_length = 1, cur_session = Some udp_session,
     coap_message = None, posted = []\<rparr>"

definition any_heap :: heap where
  "any_heap = \<lparr>raw_pdu = Some (pdu_of [] [] []), grow_ok = (\<lambda>n. True), junk = (\<lambda>n. 0)\<rparr>"

lemma ready_facts:
  "coap_task_ok ready_task" "cur_session ready_task = Some udp_session" "coap_last ready_task = 1" "posted ready_task = []"
  "coap_session_max_pdu_size id (snd (coap_new_message_id udp_session)) = (1148, udp_session\<lparr>tx_mid := 1\<rparr>)"
  "coap_turn (small_sampler\<lparr>slot2 := full_slot\<rparr>) ready_task = full_slot"
  "raw_pdu any_heap \<noteq> None" "grow_ok any_heap k"
  "rb_inv full_ringbuffer" "is_full full_ringbuffer" "rb_count full_ringbuffer = rb_cap full_ringbuffer"
  "rb_size full_ringbuffer = RINGBUFFER_SIZE" "ringbuffer full_slot = Some full_ringbuffer" "ringbuffer_mutex full_slot"
  by (simp_all add: ready_task_def coap_task_ok_def c_slice_def coap_session_max_pdu_size_def udp_session_def
      coap_new_message_id_def COAP_PROTO_NOT_RELIABLE_def coap_session_max_pdu_size_internal_def coap_turn_def any_heap_def
      full_ringbuffer_def rb_inv_def is_full_def rb_count_def RINGBUFFER_SIZE_def full_slot_def)

theorem coap_post_limit_witness:
  "\<exists>st1 st2 g' t' m. coap_task_step any_heap id (\<lambda>s p. s) flag_mutex (small_sampler\<lparr>slot2 := full_slot\<rparr>, ready_task, Coap_build) = Some (Next st1) \<and>
    coap_task_step any_heap id (\<lambda>s p. s) flag_mutex st1 = Some (Next st2) \<and>
    coap_task_step any_heap id (\<lambda>s p. s) flag_mutex st2 = Some (Next (g', t', Coap_build)) \<and>
    posted t' = [m] \<and> take (used_size m) (mem m) = [0xC1, 42]"
proof -
  have "2 \<le> (1148::nat)" "\<not> 5003 \<le> (1148::nat)" by simp_all
  then show ?thesis
    using coap_post_limit [OF flag_mutex_contract ready_facts(1,2,5) _ ready_facts(7,8), of "small_sampler\<lparr>slot2 := full_slot\<rparr>" full_ringbuffer "\<lambda>s p. s"]
    unfolding ready_facts(4,6) using ready_facts(9-14) by fastforce
qed

end
