(* ===== verification/Http_Client.thy ===== *)
theory Http_Client
  imports Ringbuffer Esp_Idf
begin

text \<open>
  \<open>src/main/http_client.c\<close>: the event handler, the request that announces the table, and
  \<open>http_task\<close>, which posts one sample of a ring buffer as text. The program does not call
  them at present (\<open>main.c\<close> has the include commented out), but they are compiled.

  The HTTP client library is not part of the repository. What it returns is only logged, so the
  model keeps what the code hands to it: the bodies, and how many clients are open.
\<close>

section \<open>Text\<close>

text \<open>\<open>%u\<close>, \<open>%lu\<close> and \<open>%03u\<close> of \<open>sprintf\<close>.\<close>

fun dec :: "nat \<Rightarrow> string" where
  "dec n = (if n < 10 then [char_of (48 + n)] else dec (n div 10) @ [char_of (48 + n mod 10)])"

declare dec.simps [simp del]

definition pad_zero :: "nat \<Rightarrow> string \<Rightarrow> string" where
  "pad_zero w s = replicate (w - length s) (CHR ''0'') @ s"

text \<open>\<open>sprintf\<close> into an array of \<open>n\<close> characters: the text and its terminating 0 have to fit.\<close>

definition sprintf_into :: "nat \<Rightarrow> string \<Rightarrow> string option" where
  "sprintf_into n text = do { c_assert (length text + 1 \<le> n); Some text }"

section \<open>State and operations\<close>

text \<open>
  \<open>sendCounter\<close> is the global. \<open>bodies\<close> are the texts handed to
  \<open>esp_http_client_set_post_field\<close>, each followed by one \<open>esp_http_client_perform\<close>.
\<close>

record http_state =
  sendCounter :: u32
  bodies :: "string list"
  open_clients :: nat

datatype http_event =
    HTTP_EVENT_ERROR | HTTP_EVENT_ON_CONNECTED | HTTP_EVENT_HEADER_SENT | HTTP_EVENT_ON_HEADER string string
  | HTTP_EVENT_ON_DATA int | HTTP_EVENT_ON_FINISH | HTTP_EVENT_DISCONNECTED | HTTP_EVENT_REDIRECT

text \<open>The message the handler logs, and its result.\<close>

fun http_event_handler :: "http_event \<Rightarrow> string \<times> esp_err" where
  "http_event_handler HTTP_EVENT_ERROR = (''HTTP_EVENT_ERROR'', ESP_OK)"
| "http_event_handler HTTP_EVENT_ON_CONNECTED = (''HTTP_EVENT_ON_CONNECTED'', ESP_OK)"
| "http_event_handler HTTP_EVENT_HEADER_SENT = (''HTTP_EVENT_HEADER_SENT'', ESP_OK)"
| "http_event_handler (HTTP_EVENT_ON_HEADER key val) =
     (''HTTP_EVENT_ON_HEADER, key='' @ key @ '', value='' @ val, ESP_OK)"
| "http_event_handler (HTTP_EVENT_ON_DATA len) =
     (''HTTP_EVENT_ON_DATA, len='' @ (if len < 0 then ''-'' else '''') @ dec (nat \<bar>len\<bar>), ESP_OK)"
| "http_event_handler HTTP_EVENT_ON_FINISH = (''HTTP_EVENT_ON_FINISH'', ESP_OK)"
| "http_event_handler HTTP_EVENT_DISCONNECTED = (''HTTP_EVENT_DISCONNECTED'', ESP_OK)"
| "http_event_handler HTTP_EVENT_REDIRECT = (''HTTP_EVENT_REDIRECT'', ESP_OK)"

definition post_body :: "string \<Rightarrow> http_state \<Rightarrow> http_state" where
  "post_body text st = st\<lparr>bodies := bodies st @ [text]\<rparr>"

text \<open>\<open>http_setup\<close> opens a client and does not clean it up.\<close>

definition http_setup :: "http_state \<Rightarrow> http_state option" where
  "http_setup st = do {
     let st = st\<lparr>open_clients := open_clients st + 1\<rparr>;
     text \<leftarrow> sprintf_into 50 ''ID:; sensorwert:; index:'';
     Some (post_body text st)
   }"

definition http_task :: "ringbuffer_handle \<Rightarrow> http_state \<Rightarrow> (ringbuffer_handle \<times> http_state) option" where
  "http_task buffer st = do {
     let st = st\<lparr>open_clients := open_clients st + 1\<rparr>;
     (readData, buffer) \<leftarrow> read_from_buffer buffer;
     let sensorId = 1;
     text \<leftarrow> sprintf_into 20
       (pad_zero 3 (dec sensorId) @ ''; '' @ dec (unat readData) @ ''; '' @ dec (unat (sendCounter st)));
     let st = post_body text (st\<lparr>sendCounter := sendCounter st + 1\<rparr>);
     let st = (if \<not> is_full buffer then st\<lparr>sendCounter := 0\<rparr> else st);
     Some (buffer, st\<lparr>open_clients := open_clients st - 1\<rparr>)
   }"

section \<open>The length of the text\<close>

definition digits :: "nat \<Rightarrow> nat" where
  "digits n = length (dec n)"

lemma digits_step: "digits n = (if n < 10 then 1 else digits (n div 10) + 1)"
  by (simp add: digits_def dec.simps [of n])

lemma digits_pos: "0 < digits n"
  by (simp add: digits_step [of n])

lemma digits_le: "0 < k \<Longrightarrow> digits n \<le> k \<longleftrightarrow> n < 10 ^ k"
proof (induction k arbitrary: n)
  case 0
  then show ?case by simp
next
  case (Suc k)
  show ?case
  proof (cases "k = 0")
    case True
    then show ?thesis using digits_pos [of "n div 10"] by (auto simp: digits_step [of n])
  next
    case False
    moreover have "n div 10 < 10 ^ k \<longleftrightarrow> n < 10 ^ Suc k" by (auto simp: div_less_iff_less_mult ac_simps)
    moreover have "(10 :: nat) \<le> 10 ^ Suc k" by simp
    ultimately show ?thesis using Suc.IH [of "n div 10"] by (auto simp: digits_step [of n])
  qed
qed

text \<open>one run of \<open>http_task\<close> on a buffer that holds samples: if the decimal digits of the sample and of
  the running index are at most twelve together, it posts the sensor id 001, the oldest sample and the
  index, removes that sample, and counts on while the buffer is still full, otherwise restarts at 0; if
  they are more, \<open>sprintf\<close> writes past the 20 characters of \<open>post_struct\<close>.\<close>

theorem http_task_posts:
  assumes "rb_inv b" "rb_contents b = x # xs"
  shows "\<exists>b'. rb_inv b' \<and> rb_contents b' = xs \<and> (is_full b' \<longleftrightarrow> is_full b \<and> xs \<noteq> []) \<and>
    http_task b st =
      (if digits (unat x) + digits (unat (sendCounter st)) \<le> 12
       then Some (b', st\<lparr>sendCounter := (if is_full b' then sendCounter st + 1 else 0),
              bodies := bodies st @ [''001; '' @ dec (unat x) @ ''; '' @ dec (unat (sendCounter st))]\<rparr>)
       else None)"
proof -
  obtain b' where b': "read_from_buffer b = Some (x, b')" "rb_inv b'" "rb_contents b' = xs" "is_full b' \<longleftrightarrow> is_full b \<and> xs \<noteq> []"
    using rb.get_spec [OF assms(1)] assms(2) by auto
  have id: "pad_zero 3 (dec 1) = ''001''"
    by code_simp
  have "length (''001'' @ ''; '' @ dec (unat x) @ ''; '' @ dec (unat (sendCounter st))) + 1 \<le> 20 \<longleftrightarrow>
      digits (unat x) + digits (unat (sendCounter st)) \<le> 12"
    by (auto simp: digits_def)
  then show ?thesis
    using b' id by (intro exI [of _ b']) (auto simp: http_task_def sprintf_into_def post_body_def)
qed

text \<open>A buffer with the samples 7 and 9, and with a sample of ten digits behind a four-digit index.\<close>

definition two_samples :: "u32 \<Rightarrow> ringbuffer_handle" where
  "two_samples x = \<lparr>writeIndex = 0, readIndex = 0, timestamp = \<lparr>tv_sec = 0, tv_usec = 0\<rparr>, sensValue = [x, 9], rb_size = 2, full = True\<rparr>"

lemma two_samples_facts: "rb_inv (two_samples x)" "rb_contents (two_samples x) = [x, 9]"
  by (simp_all add: two_samples_def rb_inv_def rb_contents_def rb_count_def upt_rec)

theorem http_task_posts_witness:
  "(\<exists>b'. http_task (two_samples 7) \<lparr>sendCounter = 12, bodies = [], open_clients = 0\<rparr> =
      Some (b', \<lparr>sendCounter = 13, bodies = [''001; 7; 12''], open_clients = 0\<rparr>)) \<and>
   http_task (two_samples 4000000000) \<lparr>sendCounter = 1000, bodies = [], open_clients = 0\<rparr> = None"
proof -
  have "dec 7 = ''7''" "dec 12 = ''12''" by code_simp+
  moreover have "digits 7 = 1" "digits 12 = 2" "digits 4000000000 = 10" "digits 1000 = 4" by (simp_all add: digits_step)
  ultimately show ?thesis
    using http_task_posts [OF two_samples_facts, of 7 "\<lparr>sendCounter = 12, bodies = [], open_clients = 0\<rparr>"]
      http_task_posts [OF two_samples_facts, of 4000000000 "\<lparr>sendCounter = 1000, bodies = [], open_clients = 0\<rparr>"]
    by (auto simp: two_samples_def is_full_def)
qed

text \<open>\<open>http_setup\<close> leaves the client it opened behind; \<open>http_task\<close> does not.\<close>

lemma http_setup_leaks: "http_setup st = Some st' \<Longrightarrow> open_clients st' = open_clients st + 1"
  by (auto simp: http_setup_def post_body_def sprintf_into_def bind_eq_Some_conv)

end
