(* ===== verification/Coap_Optlist.thy ===== *)
theory Coap_Optlist
  imports Coap_Revise "HOL-Library.Multiset" "HOL-Library.Sublist"
begin

text \<open>
  The option lists of \<open>libcoap/src/coap_option.c\<close>, singly linked lists of options that an
  application builds in any order, and the macros of \<open>coap_utlist_internal.h\<close> they use: the
  bottom-up merge sort \<open>LL_SORT\<close>, \<open>LL_APPEND\<close> and the loops over a list.

  The nodes live in an explicit store from addresses to nodes, because the sort relinks them in
  place. Reading through a null pointer or at an address that was freed has no result. The lemmas
  show that the sort is a stable sort of the chain, that it only changes links, and what
  \<open>coap_add_optlist_pdu\<close> makes of the options of a message.
\<close>

section \<open>Nodes\<close>

type_synonym pointer = "nat option"

record coap_optlist =
  next_opt :: pointer
  opt_number :: u16
  opt_length :: nat
  opt_data :: bytes

type_synonym optlist_store = "nat \<rightharpoonup> coap_optlist"

definition next_of :: "optlist_store \<Rightarrow> pointer \<Rightarrow> pointer option" where
  "next_of s p = do { a \<leftarrow> p; n \<leftarrow> s a; Some (next_opt n) }"

definition set_next :: "optlist_store \<Rightarrow> pointer \<Rightarrow> pointer \<Rightarrow> optlist_store option" where
  "set_next s p q = do { a \<leftarrow> p; n \<leftarrow> s a; Some (s(a \<mapsto> n\<lparr>next_opt := q\<rparr>)) }"

text \<open>\<open>block\<close> is what \<open>coap_malloc_type\<close> returns; the \<open>length\<close> bytes of the value are copied.\<close>

definition coap_new_optlist :: "pointer \<Rightarrow> u16 \<Rightarrow> nat \<Rightarrow> bytes \<Rightarrow> optlist_store \<Rightarrow> (pointer \<times> optlist_store) option" where
  "coap_new_optlist block number len val s =
     (case block of
        None \<Rightarrow> Some (None, s)
      | Some a \<Rightarrow> do {
          v \<leftarrow> c_slice val 0 len;
          Some (Some a, s(a \<mapsto> \<lparr>next_opt = None, opt_number = number, opt_length = len, opt_data = v\<rparr>))
        })"

text \<open>Of two nodes the numbers are compared as \<open>int\<close>; null pointers are compared as addresses.\<close>

definition address :: "pointer \<Rightarrow> nat" where
  "address p = (case p of None \<Rightarrow> 0 | Some a \<Rightarrow> a)"

definition order_opts :: "optlist_store \<Rightarrow> pointer \<Rightarrow> pointer \<Rightarrow> int option" where
  "order_opts s a b =
     (if a = None \<or> b = None then Some (if address a < address b then -1 else 1)
      else do {
        o1 \<leftarrow> Option.bind a s;
        o2 \<leftarrow> Option.bind b s;
        Some (int (unat (opt_number o1)) - int (unat (opt_number o2)))
      })"

section \<open>LL_SORT\<close>

text \<open>
  The variables of the macro: \<open>ls_head\<close> is the macro's argument. The \<open>for\<close> loop
  that finds the second run counts in \<open>_ls_psize\<close> and stops at the end of the list.
\<close>

record ls =
  ls_head :: pointer
  ls_tail :: pointer
  ls_p :: pointer
  ls_q :: pointer
  ls_psize :: nat
  ls_qsize :: nat
  ls_store :: optlist_store

fun ls_split :: "optlist_store \<Rightarrow> nat \<Rightarrow> nat \<Rightarrow> pointer \<Rightarrow> (nat \<times> pointer) option" where
  "ls_split s 0 psize q = Some (psize, q)"
| "ls_split s (Suc i) psize q = do {
     q \<leftarrow> next_of s q;
     if q = None then Some (psize + 1, q) else ls_split s i (psize + 1) q
   }"

text \<open>The node \<open>e\<close> goes behind the tail, or becomes the head of a new list.\<close>

definition ls_put :: "pointer \<Rightarrow> ls \<Rightarrow> ls option" where
  "ls_put e st = do {
     st \<leftarrow>
       (if ls_tail st \<noteq> None then do {
          s \<leftarrow> set_next (ls_store st) (ls_tail st) e;
          Some (st\<lparr>ls_store := s\<rparr>)
        }
        else Some (st\<lparr>ls_head := e\<rparr>));
     Some (st\<lparr>ls_tail := e\<rparr>)
   }"

text \<open>One round of the merge: the next node is taken from one of the runs.\<close>

definition ls_merge_step ::
  "(optlist_store \<Rightarrow> pointer \<Rightarrow> pointer \<Rightarrow> int option) \<Rightarrow> ls \<Rightarrow> ls option" where
  "ls_merge_step cmp st = do {
     from_p \<leftarrow>
       (if ls_psize st = 0 then Some False
        else if ls_qsize st = 0 \<or> ls_q st = None then Some True
        else do { c \<leftarrow> cmp (ls_store st) (ls_p st) (ls_q st); Some (c \<le> 0) });
     (e, st) \<leftarrow>
       (if from_p then do {
          p \<leftarrow> next_of (ls_store st) (ls_p st);
          Some (ls_p st, st\<lparr>ls_p := p, ls_psize := ls_psize st - 1\<rparr>)
        }
        else do {
          q \<leftarrow> next_of (ls_store st) (ls_q st);
          Some (ls_q st, st\<lparr>ls_q := q, ls_qsize := ls_qsize st - 1\<rparr>)
        });
     ls_put e st
   }"

definition ls_merge ::
  "(optlist_store \<Rightarrow> pointer \<Rightarrow> pointer \<Rightarrow> int option) \<Rightarrow> ls \<Rightarrow> ls option" where
  "ls_merge cmp = c_while (\<lambda>st. 0 < ls_psize st \<or> (0 < ls_qsize st \<and> ls_q st \<noteq> None)) (ls_merge_step cmp)"

text \<open>The merges of one pass, counted by \<open>_ls_nmerges\<close>.\<close>

definition ls_pass ::
  "(optlist_store \<Rightarrow> pointer \<Rightarrow> pointer \<Rightarrow> int option) \<Rightarrow> nat \<Rightarrow> ls \<times> nat \<Rightarrow> (ls \<times> nat) option" where
  "ls_pass cmp insize = c_while (\<lambda>(st, nmerges). ls_p st \<noteq> None) (\<lambda>(st, nmerges). do {
     (psize, q) \<leftarrow> ls_split (ls_store st) insize 0 (ls_p st);
     st \<leftarrow> ls_merge cmp (st\<lparr>ls_q := q, ls_psize := psize, ls_qsize := insize\<rparr>);
     Some (st\<lparr>ls_p := ls_q st\<rparr>, nmerges + 1)
   })"

text \<open>\<open>_ls_insize\<close> is an \<open>int\<close>; doubling it must not overflow.\<close>

definition ll_sort ::
  "(optlist_store \<Rightarrow> pointer \<Rightarrow> pointer \<Rightarrow> int option) \<Rightarrow> pointer \<Rightarrow> optlist_store \<Rightarrow> (pointer \<times> optlist_store) option" where
  "ll_sort cmp list s =
     (if list = None then Some (list, s)
      else do {
        (list, s, _, _) \<leftarrow> c_while (\<lambda>(list, s, insize, looping). looping) (\<lambda>(list, s, insize, looping). do {
          (st, nmerges) \<leftarrow> ls_pass cmp insize
            (\<lparr>ls_head = None, ls_tail = None, ls_p = list, ls_q = None, ls_psize = 0, ls_qsize = 0, ls_store = s\<rparr>, 0);
          s \<leftarrow> (if ls_tail st \<noteq> None then set_next (ls_store st) (ls_tail st) None else Some (ls_store st));
          c_assert (insize * 2 < 2 ^ 31);
          Some (ls_head st, s, insize * 2, 1 < nmerges)
        }) (list, s, 1, True);
        Some (list, s)
      })"

section \<open>Operations\<close>

text \<open>
  \<open>options\<close> is the parameter of type \<open>coap_optlist_t **\<close>: \<open>None\<close> for a null
  pointer, else what it points to. What \<open>coap_add_option_internal\<close> returns is not used.
\<close>

definition add_optlist :: "heap \<Rightarrow> optlist_store \<Rightarrow> pointer \<times> coap_pdu \<Rightarrow> (pointer \<times> coap_pdu) option" where
  "add_optlist h s = c_while (\<lambda>(opt, pdu). opt \<noteq> None) (\<lambda>(opt, pdu). do {
     o1 \<leftarrow> Option.bind opt s;
     (_, pdu) \<leftarrow> coap_add_option_internal h pdu (opt_number o1) (opt_length o1) (Some (opt_data o1));
     Some (next_opt o1, pdu)
   })"

definition coap_add_optlist_pdu ::
  "heap \<Rightarrow> coap_pdu \<Rightarrow> pointer option \<Rightarrow> optlist_store \<Rightarrow> (bool \<times> coap_pdu \<times> pointer option \<times> optlist_store) option" where
  "coap_add_optlist_pdu h pdu options s =
     (case options of
        Some (Some a) \<Rightarrow>
          if data pdu \<noteq> None then Some (False, pdu, options, s)
          else do {
            (list, s) \<leftarrow> ll_sort order_opts (Some a) s;
            (_, pdu) \<leftarrow> add_optlist h s (list, pdu);
            Some (True, pdu, Some list, s)
          }
      | _ \<Rightarrow> Some (False, pdu, options, s))"

definition last_node :: "optlist_store \<Rightarrow> pointer \<Rightarrow> pointer option" where
  "last_node s p = c_while (\<lambda>p. next_of s p \<noteq> Some None) (\<lambda>p. next_of s p) p"

definition coap_insert_optlist :: "pointer \<Rightarrow> pointer \<Rightarrow> optlist_store \<Rightarrow> (bool \<times> pointer \<times> optlist_store) option" where
  "coap_insert_optlist head node s =
     (if node = None then Some (False, head, s)
      else do {
        s \<leftarrow> set_next s node None;
        if head \<noteq> None then do {
          tmp \<leftarrow> last_node s head;
          s \<leftarrow> set_next s tmp node;
          Some (True, head, s)
        }
        else Some (True, node, s)
      })"

definition coap_internal_delete :: "pointer \<Rightarrow> optlist_store \<Rightarrow> optlist_store option" where
  "coap_internal_delete node s =
     (case node of None \<Rightarrow> Some s | Some a \<Rightarrow> do { c_assert (s a \<noteq> None); Some (s(a := None)) })"

definition coap_delete_optlist :: "pointer \<Rightarrow> optlist_store \<Rightarrow> optlist_store option" where
  "coap_delete_optlist queue s = do {
     (_, s) \<leftarrow> c_while (\<lambda>(elt, s). elt \<noteq> None) (\<lambda>(elt, s). do {
       tmp \<leftarrow> next_of s elt;
       s \<leftarrow> coap_internal_delete elt s;
       Some (tmp, s)
     }) (queue, s);
     Some s
   }"

section \<open>Merge sort on lists\<close>

text \<open>The passes of the sort on the sequence of the nodes; \<open>f\<close> is the key.\<close>

fun merge_runs :: "('a \<Rightarrow> 'k::linorder) \<Rightarrow> 'a list \<Rightarrow> 'a list \<Rightarrow> 'a list" where
  "merge_runs f [] ys = ys"
| "merge_runs f (x # xs) [] = x # xs"
| "merge_runs f (x # xs) (y # ys) =
     (if f x \<le> f y then x # merge_runs f xs (y # ys) else y # merge_runs f (x # xs) ys)"

function merge_pass :: "('a \<Rightarrow> 'k::linorder) \<Rightarrow> nat \<Rightarrow> 'a list \<Rightarrow> 'a list" where
  "merge_pass f k xs =
     (if xs = [] \<or> k = 0 then xs
      else merge_runs f (take k xs) (take k (drop k xs)) @ merge_pass f k (drop (2 * k) xs))"
  by pat_completeness auto
termination by (relation "measure (\<lambda>(f, k, xs). length xs)") auto

declare merge_pass.simps [simp del]

lemma set_merge_runs [simp]: "set (merge_runs f xs ys) = set xs \<union> set ys"
  by (induction f xs ys rule: merge_runs.induct) auto

lemma length_merge_runs [simp]: "length (merge_runs f xs ys) = length xs + length ys"
  by (induction f xs ys rule: merge_runs.induct) auto

lemma mset_merge_runs: "mset (merge_runs f xs ys) = mset xs + mset ys"
  by (induction f xs ys rule: merge_runs.induct) auto

lemma sorted_merge_runs:
  "sorted (map f xs) \<Longrightarrow> sorted (map f ys) \<Longrightarrow> sorted (map f (merge_runs f xs ys))"
  by (induction f xs ys rule: merge_runs.induct) force+

text \<open>Nodes with the same key keep their order, those of the first run in front.\<close>

lemma filter_merge_runs:
  "sorted (map f xs) \<Longrightarrow> sorted (map f ys) \<Longrightarrow>
    filter (\<lambda>x. f x = k) (merge_runs f xs ys) = filter (\<lambda>x. f x = k) xs @ filter (\<lambda>x. f x = k) ys"
proof (induction f xs ys rule: merge_runs.induct)
  case (3 f x xs y ys)
  have "filter (\<lambda>z. f z = k) (x # xs) = []" if "k < f x"
    using 3(3) that by (auto simp: filter_empty_conv)
  then show ?case using 3 by auto
qed auto

text \<open>Every aligned block of \<open>k\<close> elements is sorted.\<close>

definition runs_sorted :: "('a \<Rightarrow> 'k::linorder) \<Rightarrow> nat \<Rightarrow> 'a list \<Rightarrow> bool" where
  "runs_sorted f k xs \<longleftrightarrow> (\<forall>i. sorted (map f (take k (drop (i * k) xs))))"

lemma runs_sorted_one: "runs_sorted f 1 xs"
proof -
  have "sorted (map f (take 1 ys))" for ys :: "'a list" by (cases ys) auto
  then show ?thesis by (simp add: runs_sorted_def)
qed

lemma runs_sorted_drop:
  assumes "runs_sorted f k xs"
  shows "runs_sorted f k (drop (j * k) xs)"
proof -
  have "sorted (map f (take k (drop (i * k) (drop (j * k) xs))))" for i
  proof -
    have "drop (i * k) (drop (j * k) xs) = drop ((i + j) * k) xs"
      by (simp add: add_mult_distrib)
    then show ?thesis using assms by (simp only: runs_sorted_def)
  qed
  then show ?thesis by (simp add: runs_sorted_def)
qed

lemma runs_sorted_blocks:
  assumes "runs_sorted f k xs"
  shows "sorted (map f (take k xs))" "sorted (map f (take k (drop k xs)))" "runs_sorted f k (drop (2 * k) xs)"
  using assms [unfolded runs_sorted_def, rule_format, of 0] assms [unfolded runs_sorted_def, rule_format, of 1]
    runs_sorted_drop [OF assms, of 2] by simp_all

lemma runs_sorted_append:
  assumes "sorted (map f as)" "length as = k \<or> length as \<le> k \<and> bs = []" "runs_sorted f k bs"
  shows "runs_sorted f k (as @ bs)"
proof -
  have "sorted (map f (take k (drop (i * k) (as @ bs))))" for i
  proof (cases i)
    case 0
    then show ?thesis using assms(1,2) by auto
  next
    case (Suc j)
    have "drop (i * k) (as @ bs) = drop (j * k) bs"
      using assms(2) Suc by auto
    then show ?thesis using assms(3) by (simp add: runs_sorted_def)
  qed
  then show ?thesis by (simp add: runs_sorted_def)
qed

lemma merge_pass_Nil [simp]: "merge_pass f k [] = []"
  by (simp add: merge_pass.simps)

lemma merge_pass_step:
  "0 < k \<Longrightarrow> xs \<noteq> [] \<Longrightarrow>
    merge_pass f k xs = merge_runs f (take k xs) (take k (drop k xs)) @ merge_pass f k (drop (2 * k) xs)"
  by (subst merge_pass.simps) simp

lemma two_blocks: "take k xs @ take k (drop k xs) @ drop (2 * k) xs = xs"
  by (metis append_take_drop_id drop_drop mult_2)

lemma merge_pass_props:
  assumes "0 < k" "runs_sorted f k xs"
  shows "mset (merge_pass f k xs) = mset xs" "runs_sorted f (2 * k) (merge_pass f k xs)"
    "filter (\<lambda>x. f x = c) (merge_pass f k xs) = filter (\<lambda>x. f x = c) xs"
proof -
  have "mset (merge_pass f k xs) = mset xs \<and> runs_sorted f (2 * k) (merge_pass f k xs) \<and>
    filter (\<lambda>x. f x = c) (merge_pass f k xs) = filter (\<lambda>x. f x = c) xs"
    using assms
  proof (induction f k xs rule: merge_pass.induct)
    case (1 f k xs)
    show ?case
    proof (cases "xs = []")
      case True
      then show ?thesis by (simp add: runs_sorted_def)
    next
      case False
      let ?A = "take k xs" and ?B = "take k (drop k xs)" and ?R = "drop (2 * k) xs"
      note b = runs_sorted_blocks [OF 1(3)]
      have IH: "mset (merge_pass f k ?R) = mset ?R" "runs_sorted f (2 * k) (merge_pass f k ?R)"
        "filter (\<lambda>x. f x = c) (merge_pass f k ?R) = filter (\<lambda>x. f x = c) ?R"
        using 1 False b(3) by auto
      have "length (merge_runs f ?A ?B) = 2 * k \<or> length (merge_runs f ?A ?B) \<le> 2 * k \<and> merge_pass f k ?R = []"
        by auto
      then have "runs_sorted f (2 * k) (merge_pass f k xs)"
        using runs_sorted_append [OF sorted_merge_runs [OF b(1,2)] _ IH(2)] merge_pass_step [OF 1(2) False, of f] by metis
      moreover have "mset (merge_pass f k xs) = mset (?A @ ?B @ ?R)"
        using IH(1) by (simp add: merge_pass_step [OF 1(2) False] mset_merge_runs)
      moreover have "filter (\<lambda>x. f x = c) (merge_pass f k xs) = filter (\<lambda>x. f x = c) (?A @ ?B @ ?R)"
        using IH(3) by (simp add: merge_pass_step [OF 1(2) False] filter_merge_runs [OF b(1,2)])
      ultimately show ?thesis by (simp add: two_blocks)
    qed
  qed
  then show "mset (merge_pass f k xs) = mset xs" "runs_sorted f (2 * k) (merge_pass f k xs)"
    "filter (\<lambda>x. f x = c) (merge_pass f k xs) = filter (\<lambda>x. f x = c) xs" by auto
qed

text \<open>A list that is sorted, and equal to another one key by key, is that list sorted.\<close>

lemma sort_key_eqI:
  assumes "mset ys = mset xs" "\<And>c. filter (\<lambda>x. f x = c) ys = filter (\<lambda>x. f x = c) xs" "sorted (map f ys)"
  shows "sort_key f xs = ys"
  by (rule properties_for_sort_key) (use assms in \<open>auto simp: eq_commute\<close>)

section \<open>Chains in the store\<close>

fun path :: "optlist_store \<Rightarrow> pointer \<Rightarrow> nat list \<Rightarrow> pointer \<Rightarrow> bool" where
  "path s p [] q \<longleftrightarrow> p = q"
| "path s p (x # xs) q \<longleftrightarrow> p = Some x \<and> (\<exists>n. s x = Some n \<and> path s (next_opt n) xs q)"

definition number_at :: "optlist_store \<Rightarrow> nat \<Rightarrow> nat" where
  "number_at s x = unat (opt_number (the (s x)))"

text \<open>The stores agree on the nodes, links apart.\<close>

definition same_nodes :: "optlist_store \<Rightarrow> optlist_store \<Rightarrow> bool" where
  "same_nodes s s' \<longleftrightarrow> (\<forall>x. map_option (next_opt_update (\<lambda>_. None)) (s' x) = map_option (next_opt_update (\<lambda>_. None)) (s x))"

lemma same_nodes_refl [simp]: "same_nodes s s"
  by (simp add: same_nodes_def)

lemma same_nodes_trans: "same_nodes s s' \<Longrightarrow> same_nodes s' s'' \<Longrightarrow> same_nodes s s''"
  by (simp add: same_nodes_def)

lemma same_nodes_fields:
  assumes "same_nodes s s'"
  shows "s' x = None \<longleftrightarrow> s x = None" "number_at s' x = number_at s x"
    "s' x = Some n' \<Longrightarrow> \<exists>n. s x = Some n \<and> opt_number n' = opt_number n \<and> opt_length n' = opt_length n \<and> opt_data n' = opt_data n"
proof -
  have *: "map_option (next_opt_update (\<lambda>_. None)) (s' x) = map_option (next_opt_update (\<lambda>_. None)) (s x)"
    using assms by (simp add: same_nodes_def)
  then show "s' x = None \<longleftrightarrow> s x = None" by (metis option.map_disc_iff)
  have t: "\<exists>n. s x = Some n \<and> opt_number n' = opt_number n \<and> opt_length n' = opt_length n \<and> opt_data n' = opt_data n"
    if node: "s' x = Some n'" for n'
  proof -
    obtain n where n: "s x = Some n" "n'\<lparr>next_opt := None\<rparr> = n\<lparr>next_opt := None\<rparr>"
      using * node by (cases "s x") auto
    then show ?thesis by (cases n; cases n') auto
  qed
  then show "s' x = Some n' \<Longrightarrow> \<exists>n. s x = Some n \<and> opt_number n' = opt_number n \<and> opt_length n' = opt_length n \<and> opt_data n' = opt_data n" .
  show "number_at s' x = number_at s x"
    using t \<open>s' x = None \<longleftrightarrow> s x = None\<close> by (cases "s' x") (auto simp: number_at_def)
qed

lemma same_nodes_link: "s x = Some n \<Longrightarrow> same_nodes s (s(x \<mapsto> n\<lparr>next_opt := q\<rparr>))"
  by (auto simp: same_nodes_def)

lemma path_append: "path s p (xs @ ys) q \<longleftrightarrow> (\<exists>r. path s p xs r \<and> path s r ys q)"
  by (induction xs arbitrary: p) auto

lemma path_upd [simp]: "x \<notin> set xs \<Longrightarrow> path (s(x := v)) p xs q \<longleftrightarrow> path s p xs q"
  by (induction xs arbitrary: p) auto

lemma path_start: "path s p xs None \<Longrightarrow> p = (case xs of [] \<Rightarrow> None | x # _ \<Rightarrow> Some x)"
  by (cases xs) auto

lemma path_live: "path s p xs q \<Longrightarrow> x \<in> set xs \<Longrightarrow> s x \<noteq> None"
  by (induction xs arbitrary: p) auto

lemma path_Cons_next: "path s p (x # xs) q \<longleftrightarrow> p = Some x \<and> (\<exists>r. next_of s p = Some r \<and> path s r xs q)"
  by (auto simp: next_of_def bind_eq_Some_conv)

lemma path_distinct: "path s p xs None \<Longrightarrow> distinct xs"
proof (induction xs arbitrary: p)
  case (Cons x xs)
  have "x \<notin> set xs"
  proof
    assume "x \<in> set xs"
    then obtain ys zs where xs: "xs = ys @ x # zs" by (meson split_list)
    have det: "path s p' us None \<Longrightarrow> path s p' vs None \<Longrightarrow> us = vs" for p' us vs
    proof (induction us arbitrary: p' vs)
      case Nil
      then show ?case by (cases vs) auto
    next
      case (Cons u us)
      then show ?case by (cases vs) auto
    qed
    have "path s (Some x) (x # xs) None" "path s (Some x) (x # zs) None"
      using Cons.prems xs by (auto simp: path_append)
    then have "xs = zs" using det by blast
    then show False using xs by simp
  qed
  then show ?case using Cons by auto
qed simp

section \<open>The merge in the store\<close>

text \<open>What has been put out so far; the link of its last node is not yet set.\<close>

definition linked :: "optlist_store \<Rightarrow> pointer \<Rightarrow> pointer \<Rightarrow> nat list \<Rightarrow> bool" where
  "linked s head tail outs \<longleftrightarrow>
     (if outs = [] then tail = None
      else tail = Some (last outs) \<and> path s head (butlast outs) tail \<and> s (last outs) \<noteq> None)"

lemma linked_upd: "linked s head tail outs \<Longrightarrow> x \<notin> set outs \<Longrightarrow> linked (s(x := v)) head tail outs"
  proof -
  assume "linked s head tail outs" "x \<notin> set outs"
  moreover have "x \<notin> set (butlast outs)" using \<open>x \<notin> set outs\<close> by (auto dest: in_set_butlastD)
  ultimately show ?thesis by (auto simp: linked_def)
qed

definition merge_inv :: "optlist_store \<Rightarrow> ls \<Rightarrow> nat list \<Rightarrow> nat list \<Rightarrow> nat list \<Rightarrow> nat list \<Rightarrow> bool" where
  "merge_inv s0 st outs ps qs rs \<longleftrightarrow>
     linked (ls_store st) (ls_head st) (ls_tail st) outs \<and>
     (\<exists>r. path (ls_store st) (ls_p st) ps r) \<and> path (ls_store st) (ls_q st) (qs @ rs) None \<and>
     ls_psize st = length ps \<and> (ls_qsize st = length qs \<or> rs = [] \<and> length qs \<le> ls_qsize st) \<and>
     distinct (outs @ ps @ qs @ rs) \<and> same_nodes s0 (ls_store st)"

lemma ls_put_linked:
  assumes "linked (ls_store st) (ls_head st) (ls_tail st) outs" "e \<notin> set outs" "ls_store st e \<noteq> None" "distinct outs"
  shows "\<exists>st'. ls_put (Some e) st = Some st' \<and> linked (ls_store st') (ls_head st') (ls_tail st') (outs @ [e]) \<and>
    same_nodes (ls_store st) (ls_store st') \<and>
    (\<forall>p xs q. set xs \<inter> set outs = {} \<longrightarrow> path (ls_store st') p xs q = path (ls_store st) p xs q) \<and>
    ls_p st' = ls_p st \<and> ls_q st' = ls_q st \<and> ls_psize st' = ls_psize st \<and> ls_qsize st' = ls_qsize st"
proof (cases "outs = []")
  case True
  then show ?thesis using assms by (auto simp: linked_def ls_put_def)
next
  case False
  define l where "l = last outs"
  obtain n where tail: "ls_tail st = Some l" and l: "ls_store st l = Some n"
    and head: "path (ls_store st) (ls_head st) (butlast outs) (Some l)"
    using assms(1) False by (auto simp: linked_def l_def)
  let ?s = "(ls_store st)(l \<mapsto> n\<lparr>next_opt := Some e\<rparr>)"
  have put: "ls_put (Some e) st = Some (st\<lparr>ls_store := ?s, ls_tail := Some e\<rparr>)"
    using tail l by (simp add: ls_put_def set_next_def)
  have outs: "outs = butlast outs @ [l]" using False by (simp add: l_def)
  have notin: "l \<notin> set (butlast outs)" using assms(4) outs by (metis distinct_append not_distinct_conv_prefix)
  have "l \<noteq> e" using last_in_set [OF False] assms(2) by (auto simp: l_def)
  have "path ?s (ls_head st) (butlast outs) (Some l)" using head notin by simp
  then have "path ?s (ls_head st) outs (Some e)"
    by (subst outs) (simp add: path_append)
  then have "linked ?s (ls_head st) (Some e) (outs @ [e])"
    using assms(3) \<open>l \<noteq> e\<close> by (simp add: linked_def)
  moreover have "path ?s p xs q = path (ls_store st) p xs q" if "set xs \<inter> set outs = {}" for p xs q
    using that False by (intro path_upd) (auto simp: l_def)
  ultimately show ?thesis
    using put same_nodes_link [of "ls_store st" l n "Some e"] l by auto
qed

lemma order_opts_le:
  "s a \<noteq> None \<Longrightarrow> s b \<noteq> None \<Longrightarrow>
    \<exists>c. order_opts s (Some a) (Some b) = Some c \<and> (c \<le> 0 \<longleftrightarrow> number_at s a \<le> number_at s b)"
  by (auto simp: order_opts_def number_at_def simp flip: word_le_def word_le_nat_alt)

lemma merge_take_p:
  assumes inv: "merge_inv s0 st outs (x # ps) qs rs" and first: "qs = [] \<or> number_at s0 x \<le> number_at s0 (hd qs)"
  shows "\<exists>st'. ls_merge_step order_opts st = Some st' \<and> merge_inv s0 st' (outs @ [x]) ps qs rs"
proof -
  let ?s = "ls_store st"
  obtain r r' where p: "ls_p st = Some x" "next_of ?s (ls_p st) = Some r" "path ?s r ps r'" "?s x \<noteq> None"
    using inv unfolding merge_inv_def path_Cons_next by (auto simp: next_of_def bind_eq_Some_conv)
  have q: "path ?s (ls_q st) (qs @ rs) None" "same_nodes s0 ?s" "ls_psize st = Suc (length ps)"
    "ls_qsize st = length qs \<or> rs = [] \<and> length qs \<le> ls_qsize st" "distinct (outs @ x # ps @ qs @ rs)"
    "linked ?s (ls_head st) (ls_tail st) outs"
    using inv by (simp_all add: merge_inv_def)
  have "(if ls_psize st = 0 then Some False
        else if ls_qsize st = 0 \<or> ls_q st = None then Some True
        else do { c \<leftarrow> order_opts ?s (ls_p st) (ls_q st); Some (c \<le> 0) }) = Some True"
  proof (cases qs)
    case Nil
    then show ?thesis using q(1,3,4) path_start by fastforce
  next
    case (Cons y qs')
    then have "ls_q st = Some y" "?s y \<noteq> None" using q(1) by auto
    then show ?thesis
      using order_opts_le [of ?s x y] p(1,4) q(3,4) Cons first same_nodes_fields(2) [OF q(2)] by auto
  qed
  then have step: "ls_merge_step order_opts st = ls_put (Some x) (st\<lparr>ls_p := r, ls_psize := ls_psize st - 1\<rparr>)"
    using p(1,2) by (simp add: ls_merge_step_def)
  obtain st' where st': "ls_put (Some x) (st\<lparr>ls_p := r, ls_psize := ls_psize st - 1\<rparr>) = Some st'"
    "linked (ls_store st') (ls_head st') (ls_tail st') (outs @ [x])" "same_nodes ?s (ls_store st')"
    "\<forall>p xs q. set xs \<inter> set outs = {} \<longrightarrow> path (ls_store st') p xs q = path ?s p xs q"
    "ls_p st' = r" "ls_q st' = ls_q st" "ls_psize st' = ls_psize st - 1" "ls_qsize st' = ls_qsize st"
    using ls_put_linked [of "st\<lparr>ls_p := r, ls_psize := ls_psize st - 1\<rparr>" outs x] q(5,6) p(4) by auto
  have "set ps \<inter> set outs = {}" "set (qs @ rs) \<inter> set outs = {}" using q(5) by auto
  then have "merge_inv s0 st' (outs @ [x]) ps qs rs"
    using st' p(3) q same_nodes_trans [OF q(2) st'(3)] by (auto simp: merge_inv_def)
  then show ?thesis using step st'(1) by auto
qed

lemma merge_take_q:
  assumes inv: "merge_inv s0 st outs ps (y # qs) rs" and first: "ps = [] \<or> number_at s0 y < number_at s0 (hd ps)"
  shows "\<exists>st'. ls_merge_step order_opts st = Some st' \<and> merge_inv s0 st' (outs @ [y]) ps qs rs"
proof -
  let ?s = "ls_store st"
  have q: "same_nodes s0 ?s" "ls_psize st = length ps" "distinct (outs @ ps @ y # qs @ rs)"
    "ls_qsize st = Suc (length qs) \<or> rs = [] \<and> Suc (length qs) \<le> ls_qsize st"
    "linked ?s (ls_head st) (ls_tail st) outs" "\<exists>r. path ?s (ls_p st) ps r" "path ?s (ls_q st) (y # qs @ rs) None"
    using inv by (simp_all add: merge_inv_def)
  obtain r where r: "ls_q st = Some y" "next_of ?s (ls_q st) = Some r" "path ?s r (qs @ rs) None" "?s y \<noteq> None"
    using q(7) unfolding path_Cons_next by (auto simp: next_of_def bind_eq_Some_conv)
  have "(if ls_psize st = 0 then Some False
        else if ls_qsize st = 0 \<or> ls_q st = None then Some True
        else do { c \<leftarrow> order_opts ?s (ls_p st) (ls_q st); Some (c \<le> 0) }) = Some False"
  proof (cases ps)
    case Nil
    then show ?thesis using q(2) by simp
  next
    case (Cons x ps')
    then have "ls_p st = Some x" "?s x \<noteq> None" using q(6) by auto
    then show ?thesis
      using order_opts_le [of ?s x y] r(1,4) q(2,4) Cons first same_nodes_fields(2) [OF q(1)] by auto
  qed
  then have step: "ls_merge_step order_opts st = ls_put (Some y) (st\<lparr>ls_q := r, ls_qsize := ls_qsize st - 1\<rparr>)"
    using r(1,2) by (simp add: ls_merge_step_def)
  obtain st' where st': "ls_put (Some y) (st\<lparr>ls_q := r, ls_qsize := ls_qsize st - 1\<rparr>) = Some st'"
    "linked (ls_store st') (ls_head st') (ls_tail st') (outs @ [y])" "same_nodes ?s (ls_store st')"
    "\<forall>p xs q. set xs \<inter> set outs = {} \<longrightarrow> path (ls_store st') p xs q = path ?s p xs q"
    "ls_p st' = ls_p st" "ls_q st' = r" "ls_psize st' = ls_psize st" "ls_qsize st' = ls_qsize st - 1"
    using ls_put_linked [of "st\<lparr>ls_q := r, ls_qsize := ls_qsize st - 1\<rparr>" outs y] q(3,5) r(4) by auto
  have "set ps \<inter> set outs = {}" "set (qs @ rs) \<inter> set outs = {}" using q(3) by auto
  then have "merge_inv s0 st' (outs @ [y]) ps qs rs"
    using st' r(3) q same_nodes_trans [OF q(1) st'(3)] by (auto simp: merge_inv_def)
  then show ?thesis using step st'(1) by auto
qed

lemma ls_merge_runs:
  "merge_inv s0 st outs ps qs rs \<Longrightarrow>
    \<exists>st'. ls_merge order_opts st = Some st' \<and> merge_inv s0 st' (outs @ merge_runs (number_at s0) ps qs) [] [] rs"
proof (induction "number_at s0" ps qs arbitrary: st outs rule: merge_runs.induct)
  case (1 ys)
  then show ?case
  proof (induction ys arbitrary: st outs)
    case Nil
    then have "ls_psize st = 0" "ls_qsize st = 0 \<or> ls_q st = None"
      by (auto simp: merge_inv_def)
    then show ?case using Nil by (auto simp: ls_merge_def)
  next
    case (Cons y ys)
    obtain st1 where s: "ls_merge_step order_opts st = Some st1" "merge_inv s0 st1 (outs @ [y]) [] ys rs"
      using merge_take_q [OF Cons.prems] by auto
    have "0 < ls_qsize st" "ls_q st \<noteq> None" using Cons.prems by (auto simp: merge_inv_def)
    then show ?case
      using Cons.IH [OF s(2)] s(1) by (simp add: ls_merge_def c_while_True)
  qed
next
  case (2 x xs)
  then show ?case
  proof (induction xs arbitrary: x st outs)
    case Nil
    obtain st1 where s: "ls_merge_step order_opts st = Some st1" "merge_inv s0 st1 (outs @ [x]) [] [] rs"
      using merge_take_p [OF Nil] by auto
    have "0 < ls_psize st" "ls_psize st1 = 0" "ls_qsize st1 = 0 \<or> ls_q st1 = None"
      using Nil s(2) by (auto simp: merge_inv_def)
    then show ?case using s by (auto simp: ls_merge_def c_while_True)
  next
    case (Cons x' xs)
    obtain st1 where s: "ls_merge_step order_opts st = Some st1" "merge_inv s0 st1 (outs @ [x]) (x' # xs) [] rs"
      using merge_take_p [OF Cons.prems] by auto
    have "0 < ls_psize st" using Cons.prems by (simp add: merge_inv_def)
    then show ?case using Cons.IH [OF s(2)] s(1) by (simp add: ls_merge_def c_while_True)
  qed
next
  case (3 x xs y ys)
  have more: "0 < ls_psize st" using 3(3) by (simp add: merge_inv_def)
  show ?case
  proof (cases "number_at s0 x \<le> number_at s0 y")
    case True
    obtain st1 where s: "ls_merge_step order_opts st = Some st1" "merge_inv s0 st1 (outs @ [x]) xs (y # ys) rs"
      using merge_take_p [OF 3(3)] True by auto
    then show ?thesis using 3(1) [OF True s(2)] more True by (simp add: ls_merge_def c_while_True)
  next
    case False
    obtain st1 where s: "ls_merge_step order_opts st = Some st1" "merge_inv s0 st1 (outs @ [y]) (x # xs) ys rs"
      using merge_take_q [OF 3(3)] False by auto
    then show ?thesis using 3(2) [OF False s(2)] more False by (simp add: ls_merge_def c_while_True)
  qed
qed
section \<open>Passes and the whole sort\<close>

lemma ls_split_path:
  "path s q xs None \<Longrightarrow> xs \<noteq> [] \<Longrightarrow>
    \<exists>r. ls_split s k psize q = Some (psize + length (take k xs), r) \<and> path s q (take k xs) r \<and> path s r (drop k xs) None"
proof (induction k arbitrary: xs psize q)
  case 0
  then show ?case by simp
next
  case (Suc k)
  then obtain x xs' r where xs: "xs = x # xs'" "q = Some x" "next_of s q = Some r" "path s r xs' None"
    by (cases xs) (auto simp: next_of_def)
  show ?case
  proof (cases xs')
    case Nil
    then show ?thesis using xs by (auto simp: next_of_def bind_eq_Some_conv)
  next
    case (Cons y ys)
    then have "r \<noteq> None" using xs(4) by auto
    obtain r' where "ls_split s k (psize + 1) r = Some (psize + 1 + length (take k xs'), r')"
      "path s r (take k xs') r'" "path s r' (drop k xs') None"
      using Suc.IH [OF xs(4), of "psize + 1"] Cons by auto
    moreover have "path s q (x # take k xs') r'"
      using xs(2,3) calculation(2) by (auto simp: next_of_def bind_eq_Some_conv)
    ultimately show ?thesis
      using xs(1,2,3) \<open>r \<noteq> None\<close> by (intro exI [of _ r']) (cases r, simp_all)
  qed
qed

text \<open>The number of merges in a pass over \<open>n\<close> nodes with runs of length \<open>k\<close>.\<close>

definition n_merges :: "nat \<Rightarrow> nat \<Rightarrow> nat" where
  "n_merges k n = (n + 2 * k - 1) div (2 * k)"

lemma n_merges_step:
  assumes "0 < k" "0 < n"
  shows "n_merges k n = n_merges k (n - 2 * k) + 1"
proof (cases "2 * k \<le> n")
  case True
  have "n + 2 * k - 1 = (n - 2 * k + 2 * k - 1) + 2 * k" using True assms by simp
  then show ?thesis using assms unfolding n_merges_def by (metis add_diff_cancel_right' div_add_self2 mult_eq_0_iff not_gr0 zero_neq_numeral)
next
  case False
  then have eq: "n + 2 * k - 1 = (n - 1) + 2 * k" and "n - 1 < 2 * k" using assms by auto
  then have "(n - 1 + 2 * k) div (2 * k) = 1" using assms div_add_self2 [of "2 * k" "n - 1"] by simp
  then show ?thesis using False assms unfolding n_merges_def eq by simp
qed

lemma n_merges_le: "0 < k \<Longrightarrow> n_merges k n \<le> 1 \<longleftrightarrow> n \<le> 2 * k"
  by (auto simp: n_merges_def less_Suc_eq_le [symmetric] div_less_iff_less_mult)

definition pass_inv :: "optlist_store \<Rightarrow> ls \<Rightarrow> nat list \<Rightarrow> nat list \<Rightarrow> bool" where
  "pass_inv s0 st outs xs \<longleftrightarrow> linked (ls_store st) (ls_head st) (ls_tail st) outs \<and>
     path (ls_store st) (ls_p st) xs None \<and> distinct (outs @ xs) \<and> same_nodes s0 (ls_store st)"

lemma ls_pass_runs:
  assumes "0 < k"
  shows "pass_inv s0 st outs xs \<Longrightarrow>
    \<exists>st' m. ls_pass order_opts k (st, n) = Some (st', m) \<and> pass_inv s0 st' (outs @ merge_pass (number_at s0) k xs) [] \<and>
      m = n + n_merges k (length xs)"
proof (induction "length xs" arbitrary: st outs xs n rule: less_induct)
  case less
  show ?case
  proof (cases "xs = []")
    case True
    then have "ls_p st = None" using less.prems by (simp add: pass_inv_def)
    then show ?thesis using less.prems True assms by (simp add: ls_pass_def n_merges_def)
  next
    case False
    let ?ps = "take k xs" and ?qs = "take k (drop k xs)" and ?rs = "drop (2 * k) xs"
    have inv: "linked (ls_store st) (ls_head st) (ls_tail st) outs" "path (ls_store st) (ls_p st) xs None"
      "distinct (outs @ xs)" "same_nodes s0 (ls_store st)"
      using less.prems by (simp_all add: pass_inv_def)
    obtain r where r: "ls_split (ls_store st) k 0 (ls_p st) = Some (length ?ps, r)"
      "path (ls_store st) (ls_p st) ?ps r" "path (ls_store st) r (drop k xs) None"
      using ls_split_path [OF inv(2) False, of k 0] by auto
    let ?st = "st\<lparr>ls_q := r, ls_psize := length ?ps, ls_qsize := k\<rparr>"
    have "drop k xs = ?qs @ ?rs" by (metis append_take_drop_id drop_drop mult_2)
    moreover have "distinct (outs @ ?ps @ ?qs @ ?rs)" using inv(3) by (simp only: two_blocks)
    moreover have "k = length ?qs \<or> ?rs = [] \<and> length ?qs \<le> k" by auto
    ultimately have "merge_inv s0 ?st outs ?ps ?qs ?rs"
      using inv r(2,3) by (auto simp: merge_inv_def)
    from ls_merge_runs [OF this] obtain st1 where st1: "ls_merge order_opts ?st = Some st1"
      "merge_inv s0 st1 (outs @ merge_runs (number_at s0) ?ps ?qs) [] [] ?rs" by blast
    let ?st1 = "st1\<lparr>ls_p := ls_q st1\<rparr>" and ?outs = "outs @ merge_runs (number_at s0) ?ps ?qs"
    have "pass_inv s0 ?st1 ?outs ?rs"
      using st1(2) by (simp add: pass_inv_def merge_inv_def)
    moreover have "length ?rs < length xs" using False assms by simp
    ultimately obtain st' m where IH: "ls_pass order_opts k (?st1, n + 1) = Some (st', m)"
      "pass_inv s0 st' (?outs @ merge_pass (number_at s0) k ?rs) []"
      "m = n + 1 + n_merges k (length ?rs)"
      using less.hyps [of ?rs ?st1 ?outs "n + 1"] by blast
    have "ls_p st \<noteq> None" using inv(2) False by (cases xs) auto
    then have run: "ls_pass order_opts k (st, n) = Some (st', m)"
      using IH(1) r(1) st1(1) unfolding ls_pass_def by (simp add: c_while_True)
    have "m = n + n_merges k (length xs)"
      using IH(3) n_merges_step [OF assms, of "length xs"] False by simp
    then show ?thesis
      using run IH(2) merge_pass_step [OF assms False, of "number_at s0"] by auto
  qed
qed

lemma linked_close:
  assumes "linked s head tail outs" "outs \<noteq> []" "distinct outs"
  shows "\<exists>s'. set_next s tail None = Some s' \<and> path s' head outs None \<and> same_nodes s s'"
proof -
  define l where "l = last outs"
  obtain n where l: "tail = Some l" "s l = Some n" "path s head (butlast outs) (Some l)"
    using assms(1,2) by (auto simp: linked_def l_def)
  have outs: "outs = butlast outs @ [l]" using assms(2) by (simp add: l_def)
  then have "l \<notin> set (butlast outs)" using assms(3) by (metis distinct_append not_distinct_conv_prefix)
  then have "path (s(l \<mapsto> n\<lparr>next_opt := None\<rparr>)) head outs None"
    using l(3) by (subst outs) (simp add: path_append)
  then show ?thesis using l same_nodes_link [of s l n None] by (simp add: set_next_def)
qed

text \<open>The sort: it ends, only relinks, and the chain is the stably sorted one.\<close>

lemma ll_sort_path:
  assumes "path s p xs None" "xs \<noteq> []" "length xs < 2 ^ 30"
  shows "\<exists>p' s'. ll_sort order_opts p s = Some (p', s') \<and> path s' p' (sort_key (number_at s) xs) None \<and> same_nodes s s'"
proof -
  let ?f = "number_at s"
  define I where "I = (\<lambda>(p, s', k :: nat, more). \<exists>ys. path s' p ys None \<and> same_nodes s s' \<and> mset ys = mset xs \<and>
    (\<forall>c. filter (\<lambda>x. ?f x = c) ys = filter (\<lambda>x. ?f x = c) xs) \<and> runs_sorted ?f k ys \<and> 0 < k \<and>
    (if more then k \<le> length xs else length xs \<le> k))"
  define m where "m = (\<lambda>(p :: pointer, s' :: optlist_store, k :: nat, more). if more then Suc (length xs - k) else 0)"
  let ?body = "\<lambda>(list, s, insize, looping :: bool). do {
     (st, nmerges) \<leftarrow> ls_pass order_opts insize
       (\<lparr>ls_head = None, ls_tail = None, ls_p = list, ls_q = None, ls_psize = 0, ls_qsize = 0, ls_store = s\<rparr>, 0);
     s \<leftarrow> (if ls_tail st \<noteq> None then set_next (ls_store st) (ls_tail st) None else Some (ls_store st));
     c_assert (insize * 2 < 2 ^ 31);
     Some (ls_head st, s, insize * 2, 1 < nmerges)
   }"
  have "\<exists>t. c_while (\<lambda>(list, s, insize, looping). looping) ?body (p, s, 1, True) = Some t \<and> I t \<and>
      \<not> (\<lambda>(list, s, insize, looping). looping) t"
  proof (rule c_while_rule [where m = m])
    show "I (p, s, 1, True)"
      using assms(1,2) runs_sorted_one [of ?f xs] by (auto simp: I_def Suc_le_eq intro!: exI [of _ xs])
    fix st assume st: "I st" "(\<lambda>(list, s, insize, looping). looping) st"
    then obtain q s1 k where split: "st = (q, s1, k, True)" by (cases st) auto
    obtain ys where ys: "path s1 q ys None" "same_nodes s s1" "mset ys = mset xs"
      "\<And>c. filter (\<lambda>x. ?f x = c) ys = filter (\<lambda>x. ?f x = c) xs" "runs_sorted ?f k ys" "0 < k" "k \<le> length xs"
      using st(1) by (auto simp: I_def split)
    have len: "length ys = length xs" using ys(3) by (metis size_mset)
    let ?st = "\<lparr>ls_head = None, ls_tail = None, ls_p = q, ls_q = None, ls_psize = 0, ls_qsize = 0, ls_store = s1\<rparr>"
    let ?ys = "merge_pass ?f k ys"
    have "pass_inv s ?st [] ys"
      using ys(1,2) path_distinct by (auto simp: pass_inv_def linked_def)
    from ls_pass_runs [OF ys(6) this, of 0] obtain st' where st': "ls_pass order_opts k (?st, 0) = Some (st', n_merges k (length ys))"
      "pass_inv s st' ?ys []" by auto
    note props = merge_pass_props [OF ys(6,5)]
    have "?ys \<noteq> []" using props(1) assms(2) ys(3) by auto
    then obtain s2 where s2: "set_next (ls_store st') (ls_tail st') None = Some s2" "path s2 (ls_head st') ?ys None"
      "same_nodes (ls_store st') s2"
      using linked_close [of "ls_store st'" "ls_head st'" "ls_tail st'" ?ys] st'(2) by (auto simp: pass_inv_def)
    have "ls_tail st' \<noteq> None" using \<open>?ys \<noteq> []\<close> st'(2) by (auto simp: pass_inv_def linked_def)
    then have run: "?body st = Some (ls_head st', s2, k * 2, 1 < n_merges k (length ys))"
      using st'(1) s2(1) ys(7) assms(3) by (simp add: split)
    have more: "1 < n_merges k (length ys) \<longleftrightarrow> 2 * k < length xs"
      using n_merges_le [OF ys(6), of "length ys"] len by linarith
    have "same_nodes s s2"
      using st'(2) s2(3) same_nodes_trans by (auto simp: pass_inv_def)
    then have "I (ls_head st', s2, k * 2, 1 < n_merges k (length ys))"
      using s2(2) props ys more unfolding I_def by (auto simp: mult.commute intro!: exI [of _ ?ys])
    moreover have "m (ls_head st', s2, k * 2, 1 < n_merges k (length ys)) < m st"
      using ys(6) more by (auto simp: m_def split)
    ultimately show "\<exists>s'. ?body st = Some s' \<and> I s' \<and> m s' < m st" using run by blast
  qed
  then obtain p' s' k where loop: "c_while (\<lambda>(list, s, insize, looping). looping) ?body (p, s, 1, True) = Some (p', s', k, False)"
    "I (p', s', k, False)" by auto
  then obtain ys where ys: "path s' p' ys None" "same_nodes s s'" "mset ys = mset xs"
    "\<And>c. filter (\<lambda>x. ?f x = c) ys = filter (\<lambda>x. ?f x = c) xs" "runs_sorted ?f k ys" "length xs \<le> k"
    by (auto simp: I_def)
  have "length ys = length xs" using ys(3) by (metis size_mset)
  then have "sorted (map ?f ys)" using runs_sorted_blocks(1) [OF ys(5)] ys(6) by simp
  then have "sort_key ?f xs = ys" using ys(3,4) by (intro sort_key_eqI)
  moreover have "p \<noteq> None" using assms(1,2) by (cases xs) auto
  ultimately show ?thesis using loop(1) ys(1,2) by (auto simp: ll_sort_def)
qed

section \<open>Adding the options to a message\<close>

text \<open>Adding one option to a message or a request, when memory suffices.\<close>

definition add_opt :: "bool \<Rightarrow> options \<Rightarrow> nat \<times> bytes \<Rightarrow> options" where
  "add_opt request os = (\<lambda>(k, v).
     if k = last_number 0 os \<and> \<not> coap_option_check_repeatable (word_of_nat k) then os
     else insert_opt k v (if takes_hop_limit request k os then insert_opt 16 [16] os else os))"

text \<open>An option with the Hop-Limit option that may come in front of it, and the insertion of several options in turn.\<close>

definition with_hop_limit :: "bool \<Rightarrow> nat \<times> bytes \<Rightarrow> options" where
  "with_hop_limit request o1 = (if request \<and> fst o1 \<in> {35, 39} then [(16, [16])] else []) @ [o1]"

definition insert_all :: "options \<Rightarrow> options \<Rightarrow> options" where
  "insert_all = foldl (\<lambda>os (k, v). insert_opt k v os)"

lemma insert_all_simps [simp]:
  "insert_all os [] = os" "insert_all os ((k, v) # zs) = insert_all (insert_opt k v os) zs"
  "insert_all os (ws @ zs) = insert_all (insert_all os ws) zs"
  by (simp_all add: insert_all_def)

lemma add_one:
  assumes rep: "represents pdu tok os pay" and k: "k < 65536" "length v < 65805"
    and fits: "used_size pdu + opt_room (COAP_PDU_IS_REQUEST pdu) (k, v) \<le> 2 ^ 31"
  shows "\<exists>n pdu' ws. coap_add_option_internal h pdu (word_of_nat k) (length v) (Some v) = Some (n, pdu') \<and>
    represents pdu' tok (insert_all os ws) pay \<and> subseq ws (with_hop_limit (COAP_PDU_IS_REQUEST pdu) (k, v)) \<and>
    (can_grow h pdu (used_size pdu + opt_room (COAP_PDU_IS_REQUEST pdu) (k, v)) \<longrightarrow>
       insert_all os ws = add_opt (COAP_PDU_IS_REQUEST pdu) os (k, v)) \<and>
    used_size pdu' \<le> used_size pdu + opt_room (COAP_PDU_IS_REQUEST pdu) (k, v) \<and>
    max_size pdu' = max_size pdu \<and> pdu_code pdu' = pdu_code pdu"
proof -
  let ?req = "COAP_PDU_IS_REQUEST pdu"
  obtain n pdu' os0 where add: "coap_add_option_internal h pdu (word_of_nat k) (length v) (Some v) = Some (n, pdu')"
    "represents pdu' tok (if n = 0 then os0 else insert_opt k v os0) pay"
    "os0 = os \<or> takes_hop_limit ?req k os \<and> os0 = insert_opt 16 [16] os"
    "can_grow h pdu (used_size pdu + opt_room ?req (k, v)) \<longrightarrow>
       (n = 0 \<longleftrightarrow> k = last_number 0 os \<and> \<not> coap_option_check_repeatable (word_of_nat k)) \<and>
       (takes_hop_limit ?req k os \<longrightarrow> os0 = insert_opt 16 [16] os)"
    "used_size pdu' \<le> used_size pdu + opt_room ?req (k, v)" "max_size pdu' = max_size pdu" "pdu_code pdu' = pdu_code pdu"
    using add_option_eq [OF rep k fits, of h] by blast
  have never: "\<not> takes_hop_limit ?req k os" if "k = last_number 0 os" using that by (simp add: takes_hop_limit_def)
  define ws where "ws = (if os0 = os then [] else [(16, [16])]) @ (if n = 0 then [] else [(k, v)])"
  have ws: "insert_all os ws = (if n = 0 then os0 else insert_opt k v os0)" using add(3) by (auto simp: ws_def)
  have "subseq ws (with_hop_limit ?req (k, v))"
    unfolding ws_def with_hop_limit_def using add(3) by (intro list_emb_append_mono) (auto simp: takes_hop_limit_def)
  moreover have "insert_all os ws = add_opt ?req os (k, v)" if "can_grow h pdu (used_size pdu + opt_room ?req (k, v))"
    unfolding ws using add(3,4) that never by (auto simp: add_opt_def)
  ultimately show ?thesis using add(1,2,5-7) ws by (intro exI [of _ n] exI [of _ pdu'] exI [of _ ws]) simp
qed

definition opt_at :: "optlist_store \<Rightarrow> nat \<Rightarrow> nat \<times> bytes" where
  "opt_at s x = (number_at s x, opt_data (the (s x)))"

definition node_ok :: "optlist_store \<Rightarrow> nat \<Rightarrow> bool" where
  "node_ok s x \<longleftrightarrow> opt_length (the (s x)) = length (opt_data (the (s x))) \<and> length (opt_data (the (s x))) < 65805"

definition opts_room :: "bool \<Rightarrow> optlist_store \<Rightarrow> nat list \<Rightarrow> nat" where
  "opts_room request s xs = sum_list (map (\<lambda>x. opt_room request (opt_at s x)) xs)"

lemma number_at_less: "number_at s x < 65536"
  using unsigned_less [of "opt_number (the (s x))", where ?'a = nat] by (simp add: number_at_def)

lemma add_optlist_represents:
  "path s p xs None \<Longrightarrow> list_all (node_ok s) xs \<Longrightarrow> represents pdu tok os pay \<Longrightarrow> COAP_PDU_IS_REQUEST pdu = request \<Longrightarrow>
    used_size pdu + opts_room request s xs \<le> 2 ^ 31 \<Longrightarrow>
    \<exists>pdu' ws. add_optlist h s (p, pdu) = Some (None, pdu') \<and> represents pdu' tok (insert_all os ws) pay \<and>
      subseq ws (concat (map (\<lambda>x. with_hop_limit request (opt_at s x)) xs)) \<and>
      (can_grow h pdu (used_size pdu + opts_room request s xs) \<longrightarrow>
         insert_all os ws = foldl (add_opt request) os (map (opt_at s) xs))"
proof (induction xs arbitrary: p pdu os)
  case Nil
  then show ?case by (auto simp: add_optlist_def intro: exI [of _ "[]"])
next
  case (Cons x xs)
  then obtain n where n: "p = Some x" "s x = Some n" "path s (next_opt n) xs None"
    and size: "opt_length n = length (opt_data n)" "length (opt_data n) < 65805"
    by (auto simp: node_ok_def)
  have k: "word_of_nat (number_at s x) = opt_number n" and at: "opt_at s x = (number_at s x, opt_data n)"
    using n(2) by (simp_all add: number_at_def opt_at_def)
  have total: "opts_room request s (x # xs) = opt_room request (number_at s x, opt_data n) + opts_room request s xs"
    by (simp add: opts_room_def at)
  have "used_size pdu + opt_room (COAP_PDU_IS_REQUEST pdu) (number_at s x, opt_data n) \<le> 2 ^ 31"
    using Cons.prems(4,5) total by simp
  from add_one [OF Cons.prems(3) number_at_less size(2) this, of h]
  obtain m pdu1 w1 where add: "coap_add_option_internal h pdu (opt_number n) (opt_length n) (Some (opt_data n)) = Some (m, pdu1)"
    "represents pdu1 tok (insert_all os w1) pay" "subseq w1 (with_hop_limit request (opt_at s x))"
    "can_grow h pdu (used_size pdu + opt_room request (opt_at s x)) \<longrightarrow> insert_all os w1 = add_opt request os (opt_at s x)"
    "used_size pdu1 \<le> used_size pdu + opt_room request (opt_at s x)" "max_size pdu1 = max_size pdu" "pdu_code pdu1 = pdu_code pdu"
    unfolding k size(1) Cons.prems(4) at by blast
  have req: "COAP_PDU_IS_REQUEST pdu1 = request" using Cons.prems(4) add(7) by (simp add: COAP_PDU_IS_REQUEST_def)
  have "used_size pdu1 + opts_room request s xs \<le> 2 ^ 31" using add(5) Cons.prems(5) total by (simp add: at)
  then obtain pdu' w2 where rest: "add_optlist h s (next_opt n, pdu1) = Some (None, pdu')"
    "represents pdu' tok (insert_all (insert_all os w1) w2) pay"
    "subseq w2 (concat (map (\<lambda>x. with_hop_limit request (opt_at s x)) xs))"
    "can_grow h pdu1 (used_size pdu1 + opts_room request s xs) \<longrightarrow>
      insert_all (insert_all os w1) w2 = foldl (add_opt request) (insert_all os w1) (map (opt_at s) xs)"
    using Cons.IH [OF n(3) _ add(2) req] Cons.prems(2) by auto
  have run: "add_optlist h s (p, pdu) = Some (None, pdu')"
    using rest(1) n(1,2) add(1) unfolding add_optlist_def by (simp add: c_while_True)
  have "insert_all (insert_all os w1) w2 = foldl (add_opt request) os (map (opt_at s) (x # xs))"
    if grow: "can_grow h pdu (used_size pdu + opts_room request s (x # xs))"
  proof -
    have "can_grow h pdu (used_size pdu + opt_room request (opt_at s x))"
      using grow by (rule can_grow_mono) (simp add: total at)
    moreover have "can_grow h pdu1 (used_size pdu1 + opts_room request s xs)"
      using grow add(5,6) by (auto simp: can_grow_def total at)
    ultimately show ?thesis using add(4) rest(4) by simp
  qed
  moreover have "subseq (w1 @ w2) (concat (map (\<lambda>x. with_hop_limit request (opt_at s x)) (x # xs)))"
    using list_emb_append_mono [OF add(3) rest(3)] by simp
  ultimately show ?case using run rest(2) by (intro exI [of _ pdu'] exI [of _ "w1 @ w2"]) simp
qed

lemma same_nodes_at:
  assumes "same_nodes s s'" "s x \<noteq> None"
  shows "opt_at s' x = opt_at s x" "node_ok s' x = node_ok s x" "opt_data (the (s' x)) = opt_data (the (s x))"
proof -
  obtain n' where "s' x = Some n'" using same_nodes_fields(1) [OF assms(1), of x] assms(2) by auto
  then show "opt_at s' x = opt_at s x" "node_ok s' x = node_ok s x" "opt_data (the (s' x)) = opt_data (the (s x))"
    using same_nodes_fields(2,3) [OF assms(1)] by (fastforce simp: opt_at_def node_ok_def)+
qed

lemma opts_room_sorted:
  assumes "same_nodes s s'" "\<forall>x \<in> set xs. s x \<noteq> None"
  shows "opts_room request s' (sort_key f xs) = opts_room request s xs"
proof -
  have "opts_room request s' (sort_key f xs) = opts_room request s (sort_key f xs)"
    unfolding opts_room_def using same_nodes_at(1) [OF assms(1)] assms(2) by (intro arg_cong [where f = sum_list] map_cong) auto
  also have "\<dots> = sum_mset (image_mset (\<lambda>x. opt_room request (opt_at s x)) (mset (sort_key f xs)))"
    unfolding opts_room_def by (simp only: mset_map [symmetric] sum_mset_sum_list)
  also have "\<dots> = opts_room request s xs"
    unfolding opts_room_def mset_sort by (simp only: mset_map [symmetric] sum_mset_sum_list)
  finally show ?thesis .
qed

section \<open>Properties\<close>


text \<open>Four options in the order 35, 12, 15, 12 at the addresses 1 to 4, for a GET request.\<close>

definition four_options :: optlist_store where
  "four_options = [1 \<mapsto> \<lparr>next_opt = Some 2, opt_number = 35, opt_length = 1, opt_data = [97]\<rparr>,
     2 \<mapsto> \<lparr>next_opt = Some 3, opt_number = 12, opt_length = 1, opt_data = [40]\<rparr>,
     3 \<mapsto> \<lparr>next_opt = Some 4, opt_number = 15, opt_length = 1, opt_data = [98]\<rparr>,
     4 \<mapsto> \<lparr>next_opt = None, opt_number = 12, opt_length = 1, opt_data = [50]\<rparr>]"


section \<open>Building and freeing a list\<close>

lemma last_node_path:
  "path s p xs None \<Longrightarrow> xs \<noteq> [] \<Longrightarrow> last_node s p = Some (Some (last xs))"
proof (induction xs arbitrary: p)
  case (Cons x xs)
  show ?case
  proof (cases "xs = []")
    case True
    then show ?thesis using Cons.prems by (auto simp: last_node_def next_of_def)
  next
    case False
    obtain n where n: "p = Some x" "s x = Some n" "path s (next_opt n) xs None" using Cons.prems(1) by auto
    have "next_opt n \<noteq> None" using n(3) False by (cases xs) auto
    then have "last_node s p = last_node s (next_opt n)"
      using n(1,2) by (simp add: last_node_def next_of_def c_while_True)
    then show ?thesis using Cons.IH [OF n(3) False] False by simp
  qed
qed simp

text \<open>A node that is not in the list becomes its last one.\<close>

lemma insert_optlist_path:
  assumes "path s head xs None" "s a = Some n" "a \<notin> set xs"
  shows "\<exists>head' s'. coap_insert_optlist head (Some a) s = Some (True, head', s') \<and> path s' head' (xs @ [a]) None \<and> same_nodes s s'"
proof -
  let ?s = "s(a \<mapsto> n\<lparr>next_opt := None\<rparr>)"
  have same: "same_nodes s ?s" using assms(2) by (rule same_nodes_link)
  show ?thesis
  proof (cases "xs = []")
    case True
    then show ?thesis using assms same by (auto simp: coap_insert_optlist_def set_next_def)
  next
    case False
    have p: "path ?s head xs None" using assms(1,3) by simp
    have "distinct xs" using path_distinct [OF assms(1)] .
    have split: "xs = butlast xs @ [last xs]" using False by simp
    then have pre: "path ?s head (butlast xs) (Some (last xs))"
      using p path_append [of ?s head "butlast xs" "[last xs]" None] by (simp only: split [symmetric]) auto
    have "?s (last xs) \<noteq> None" using path_live [OF p] False by auto
    then have "linked ?s head (Some (last xs)) xs" using False pre by (simp add: linked_def)
    moreover obtain m where m: "?s (last xs) = Some m" using \<open>?s (last xs) \<noteq> None\<close> by blast
    let ?s' = "?s(last xs \<mapsto> m\<lparr>next_opt := Some a\<rparr>)"
    have "last xs \<noteq> a" "last xs \<notin> set (butlast xs)"
      using assms(3) False last_in_set [OF False] \<open>distinct xs\<close> split by (auto, metis distinct_append not_distinct_conv_prefix)
    then have "path ?s' head (butlast xs @ [last xs]) (Some a)" "path ?s' (Some a) [a] None"
      using pre by (auto simp: path_append)
    then have "path ?s' head (xs @ [a]) None" using split by (metis path_append)
    moreover have "set_next ?s (Some (last xs)) (Some a) = Some ?s'" using m by (simp add: set_next_def)
    moreover have "same_nodes s ?s'" using m by (intro same_nodes_trans [OF same] same_nodes_link [of ?s "last xs" m "Some a"])
    moreover have "head \<noteq> None" using assms(1) False by (cases xs) auto
    moreover have "set_next s (Some a) None = Some ?s" using assms(2) by (simp add: set_next_def)
    ultimately have "coap_insert_optlist head (Some a) s = Some (True, head, ?s')"
      using last_node_path [OF p False] by (simp add: coap_insert_optlist_def)
    then show ?thesis
      using \<open>path ?s' head (xs @ [a]) None\<close> \<open>same_nodes s ?s'\<close> by blast
  qed
qed

text \<open>Freeing a list frees its nodes, once each, and nothing else.\<close>

lemma delete_optlist_frees:
  assumes "path s p xs None"
  shows "coap_delete_optlist p s = Some (\<lambda>x. if x \<in> set xs then None else s x)"
proof -
  let ?body = "\<lambda>(elt, s). do { tmp \<leftarrow> next_of s elt; s \<leftarrow> coap_internal_delete elt s; Some (tmp, s) }"
  have "c_while (\<lambda>(elt, s). elt \<noteq> None) ?body (p, s) = Some (None, \<lambda>x. if x \<in> set xs then None else s x)"
    using assms
  proof (induction xs arbitrary: p s)
    case (Cons x xs)
    then obtain n where n: "p = Some x" "s x = Some n" "path s (next_opt n) xs None" by auto
    have "x \<notin> set xs" using path_distinct [OF Cons.prems] by simp
    then have "path (s(x := None)) (next_opt n) xs None" using n(3) by simp
    note IH = Cons.IH [OF this]
    have "?body (p, s) = Some (next_opt n, s(x := None))"
      using n(1,2) by (simp add: next_of_def coap_internal_delete_def)
    then have "c_while (\<lambda>(elt, s). elt \<noteq> None) ?body (p, s) = c_while (\<lambda>(elt, s). elt \<noteq> None) ?body (next_opt n, s(x := None))"
      using n(1) by (intro c_while_True) auto
    also note IH
    also have "(\<lambda>y. if y \<in> set xs then None else (s(x := None)) y) = (\<lambda>y. if y \<in> set (x # xs) then None else s y)" by auto
    finally show ?case .
  qed simp
  then show ?thesis by (simp add: coap_delete_optlist_def)
qed

end
