(* ===== verification/Coap_Params.thy ===== *)
theory Coap_Params
  imports Coap_Pdu Fifo
begin

unbundle bit_operations_syntax

text \<open>
  The transmission parameters of a CoAP session (RFC 7252 section 4.8, RFC 9177 section 7.2):
  the fixed-point numbers, setters, getters and derived times of \<open>libcoap/src/coap_session.c\<close>
  and \<open>coap_session_internal.h\<close>, and the randomised initial timeout \<open>coap_calc_timeout\<close> of
  \<open>coap_net.c\<close>.

  \<open>COAP_Q_BLOCK_SUPPORT\<close> is a switch of the build; here it is the argument \<open>qb\<close>. Signed
  arithmetic that overflows, and a shift into the sign bit, have no result.
\<close>

section \<open>Fixed-point numbers\<close>

text \<open>A whole part and thousandths.\<close>

record coap_fixed_point =
  integer_part :: u16
  fractional_part :: u16

definition c_int :: "int \<Rightarrow> int option" where
  "c_int x = (if -(2 ^ 31) \<le> x \<and> x < 2 ^ 31 then Some x else None)"

text \<open>The operands of \<open>*\<close> are promoted to \<open>int\<close>; the sum with \<open>fr/1000\<close> is unsigned and is cut to 16 bits.\<close>

definition coap_multi_fixed_fixed :: "coap_fixed_point \<Rightarrow> coap_fixed_point \<Rightarrow> coap_fixed_point option" where
  "coap_multi_fixed_fixed fp1 fp2 = do {
     prod \<leftarrow> c_int (int (unat (fractional_part fp1)) * int (unat (fractional_part fp2)));
     let fr = (word_of_int prod :: u32);
     whole \<leftarrow> c_int (int (unat (integer_part fp1)) * int (unat (integer_part fp2)));
     Some \<lparr>integer_part = ucast (word_of_int whole + fr div 1000), fractional_part = ucast (fr mod 1000)\<rparr>
   }"

definition coap_multi_fixed_uint :: "coap_fixed_point \<Rightarrow> u32 \<Rightarrow> coap_fixed_point" where
  "coap_multi_fixed_uint fp1 u2 =
     (let fr = ucast (fractional_part fp1) * u2
      in \<lparr>integer_part = ucast (ucast (integer_part fp1) * u2 + fr div 1000), fractional_part = ucast (fr mod 1000)\<rparr>)"

definition coap_add_fixed_fixed :: "coap_fixed_point \<Rightarrow> coap_fixed_point \<Rightarrow> coap_fixed_point" where
  "coap_add_fixed_fixed fp1 fp2 =
     (let fr = (ucast (fractional_part fp1) + ucast (fractional_part fp2) :: u32)
      in \<lparr>integer_part = ucast (ucast (integer_part fp1) + ucast (integer_part fp2) + fr div 1000 :: u32),
          fractional_part = ucast (fr mod 1000)\<rparr>)"

definition coap_add_fixed_uint :: "coap_fixed_point \<Rightarrow> u32 \<Rightarrow> coap_fixed_point" where
  "coap_add_fixed_uint fp1 u2 = fp1\<lparr>integer_part := ucast (ucast (integer_part fp1) + u2)\<rparr>"

definition coap_sub_fixed_uint :: "coap_fixed_point \<Rightarrow> u32 \<Rightarrow> coap_fixed_point" where
  "coap_sub_fixed_uint fp1 u2 = fp1\<lparr>integer_part := ucast (ucast (integer_part fp1) - u2)\<rparr>"

definition coap_div_fixed_uint :: "coap_fixed_point \<Rightarrow> u32 \<Rightarrow> coap_fixed_point option" where
  "coap_div_fixed_uint fp1 u2 = do {
     c_assert (u2 \<noteq> 0);
     let num = (ucast (integer_part fp1) * 1000 + ucast (fractional_part fp1)) div u2;
     Some \<lparr>integer_part = ucast (num div 1000), fractional_part = ucast (num mod 1000)\<rparr>
   }"

section \<open>Parameters\<close>

text \<open>The fields of \<open>struct coap_session_t\<close> the parameters are kept in.\<close>

record coap_params =
  ack_timeout :: coap_fixed_point
  ack_random_factor :: coap_fixed_point
  max_retransmit :: u16
  nstart :: u16
  default_leisure :: coap_fixed_point
  probing_rate :: u32
  max_payloads :: u16
  non_max_retransmit :: u16
  non_timeout :: coap_fixed_point
  non_receive_timeout :: coap_fixed_point
  non_probing_wait_base :: coap_fixed_point
  non_partial_timeout :: coap_fixed_point

abbreviation fp :: "u16 \<Rightarrow> u16 \<Rightarrow> coap_fixed_point" where
  "fp i f \<equiv> \<lparr>integer_part = i, fractional_part = f\<rparr>"

definition COAP_DEFAULT_ACK_TIMEOUT :: coap_fixed_point where "COAP_DEFAULT_ACK_TIMEOUT = fp 2 0"
definition COAP_DEFAULT_ACK_RANDOM_FACTOR :: coap_fixed_point where "COAP_DEFAULT_ACK_RANDOM_FACTOR = fp 1 500"
definition COAP_DEFAULT_MAX_RETRANSMIT :: u16 where "COAP_DEFAULT_MAX_RETRANSMIT = 4"
definition COAP_DEFAULT_NSTART :: u16 where "COAP_DEFAULT_NSTART = 1"
definition COAP_DEFAULT_DEFAULT_LEISURE :: coap_fixed_point where "COAP_DEFAULT_DEFAULT_LEISURE = fp 5 0"
definition COAP_DEFAULT_PROBING_RATE :: u32 where "COAP_DEFAULT_PROBING_RATE = 1"
definition COAP_DEFAULT_MAX_PAYLOADS :: u16 where "COAP_DEFAULT_MAX_PAYLOADS = 10"
definition COAP_DEFAULT_NON_MAX_RETRANSMIT :: u16 where "COAP_DEFAULT_NON_MAX_RETRANSMIT = 4"
definition COAP_DEFAULT_NON_TIMEOUT :: coap_fixed_point where "COAP_DEFAULT_NON_TIMEOUT = fp 2 0"
definition COAP_DEFAULT_NON_RECEIVE_TIMEOUT :: coap_fixed_point where "COAP_DEFAULT_NON_RECEIVE_TIMEOUT = fp 4 0"
definition COAP_DEFAULT_MAX_LATENCY :: nat where "COAP_DEFAULT_MAX_LATENCY = 100"
definition COAP_TICKS_PER_SECOND :: u64 where "COAP_TICKS_PER_SECOND = 1000"

lemmas coap_default_defs = COAP_DEFAULT_ACK_TIMEOUT_def COAP_DEFAULT_ACK_RANDOM_FACTOR_def COAP_DEFAULT_MAX_RETRANSMIT_def
  COAP_DEFAULT_NSTART_def COAP_DEFAULT_DEFAULT_LEISURE_def COAP_DEFAULT_PROBING_RATE_def COAP_DEFAULT_MAX_PAYLOADS_def
  COAP_DEFAULT_NON_MAX_RETRANSMIT_def COAP_DEFAULT_NON_TIMEOUT_def COAP_DEFAULT_NON_RECEIVE_TIMEOUT_def
  COAP_DEFAULT_MAX_LATENCY_def COAP_TICKS_PER_SECOND_def

text \<open>\<open>(1 << n) - 1\<close> in \<open>int\<close>.\<close>

definition int_ones :: "nat \<Rightarrow> int option" where
  "int_ones n = (if n < 31 then Some (2 ^ n - 1) else None)"

definition coap_session_fix_non_probing_wait_base :: "coap_params \<Rightarrow> coap_params option" where
  "coap_session_fix_non_probing_wait_base s = do {
     n \<leftarrow> int_ones (unat (non_max_retransmit s) + 1);
     let res = coap_multi_fixed_uint (non_timeout s) (word_of_int n);
     res \<leftarrow> coap_multi_fixed_fixed res (ack_random_factor s);
     let res = coap_add_fixed_uint res (2 * word_of_nat COAP_DEFAULT_MAX_LATENCY);
     Some (s\<lparr>non_probing_wait_base := res\<rparr>)
   }"

definition coap_session_fix_non_partial_timeout :: "coap_params \<Rightarrow> coap_params option" where
  "coap_session_fix_non_partial_timeout s = do {
     n \<leftarrow> int_ones (unat (non_max_retransmit s) + 1);
     let res = coap_multi_fixed_uint (non_timeout s) (word_of_int n);
     res \<leftarrow> coap_multi_fixed_fixed res (ack_random_factor s);
     let res = coap_add_fixed_uint res (2 * word_of_nat COAP_DEFAULT_MAX_LATENCY);
     let res = coap_add_fixed_fixed res (non_timeout s);
     Some (s\<lparr>non_partial_timeout := res\<rparr>)
   }"

definition fix_both :: "coap_params \<Rightarrow> coap_params option" where
  "fix_both s = do {
     s \<leftarrow> coap_session_fix_non_probing_wait_base s;
     coap_session_fix_non_partial_timeout s
   }"

text \<open>What \<open>coap_make_session\<close> sets.\<close>

definition make_params :: "bool \<Rightarrow> coap_params option" where
  "make_params qb =
     (let s = \<lparr>ack_timeout = COAP_DEFAULT_ACK_TIMEOUT, ack_random_factor = COAP_DEFAULT_ACK_RANDOM_FACTOR,
               max_retransmit = COAP_DEFAULT_MAX_RETRANSMIT, nstart = COAP_DEFAULT_NSTART,
               default_leisure = COAP_DEFAULT_DEFAULT_LEISURE, probing_rate = COAP_DEFAULT_PROBING_RATE,
               max_payloads = 0, non_max_retransmit = 0, non_timeout = fp 0 0, non_receive_timeout = fp 0 0,
               non_probing_wait_base = fp 0 0, non_partial_timeout = fp 0 0\<rparr>
      in if qb then fix_both (s\<lparr>max_payloads := COAP_DEFAULT_MAX_PAYLOADS,
           non_max_retransmit := COAP_DEFAULT_NON_MAX_RETRANSMIT, non_timeout := COAP_DEFAULT_NON_TIMEOUT,
           non_receive_timeout := COAP_DEFAULT_NON_RECEIVE_TIMEOUT\<rparr>)
         else Some s)"

section \<open>Setters and getters\<close>

text \<open>The test of every setter of a fixed-point parameter.\<close>

definition fp_ok :: "coap_fixed_point \<Rightarrow> bool" where
  "fp_ok x \<longleftrightarrow> integer_part x > 0 \<and> fractional_part x < 1000"

definition coap_session_set_ack_timeout :: "coap_fixed_point \<Rightarrow> coap_params \<Rightarrow> coap_params" where
  "coap_session_set_ack_timeout x s = (if fp_ok x then s\<lparr>ack_timeout := x\<rparr> else s)"

definition coap_session_set_ack_random_factor :: "bool \<Rightarrow> coap_fixed_point \<Rightarrow> coap_params \<Rightarrow> coap_params option" where
  "coap_session_set_ack_random_factor qb x s =
     (if fp_ok x then
        (let s = s\<lparr>ack_random_factor := x\<rparr>
         in if qb then fix_both s else Some s)
      else Some s)"

definition coap_session_set_max_retransmit :: "u16 \<Rightarrow> coap_params \<Rightarrow> coap_params" where
  "coap_session_set_max_retransmit x s = (if x > 0 then s\<lparr>max_retransmit := x\<rparr> else s)"

definition coap_session_set_nstart :: "u16 \<Rightarrow> coap_params \<Rightarrow> coap_params" where
  "coap_session_set_nstart x s = (if x > 0 then s\<lparr>nstart := x\<rparr> else s)"

definition coap_session_set_default_leisure :: "coap_fixed_point \<Rightarrow> coap_params \<Rightarrow> coap_params" where
  "coap_session_set_default_leisure x s = (if fp_ok x then s\<lparr>default_leisure := x\<rparr> else s)"

definition coap_session_set_probing_rate :: "u32 \<Rightarrow> coap_params \<Rightarrow> coap_params" where
  "coap_session_set_probing_rate x s = (if x > 0 then s\<lparr>probing_rate := x\<rparr> else s)"

definition coap_session_set_max_payloads :: "bool \<Rightarrow> u16 \<Rightarrow> coap_params \<Rightarrow> coap_params option" where
  "coap_session_set_max_payloads qb x s =
     (if qb \<and> x > 0 then fix_both (s\<lparr>max_payloads := x\<rparr>) else Some s)"

definition coap_session_set_non_max_retransmit :: "bool \<Rightarrow> u16 \<Rightarrow> coap_params \<Rightarrow> coap_params option" where
  "coap_session_set_non_max_retransmit qb x s =
     (if qb \<and> x > 0 then fix_both (s\<lparr>non_max_retransmit := x\<rparr>) else Some s)"

definition coap_session_set_non_timeout :: "bool \<Rightarrow> coap_fixed_point \<Rightarrow> coap_params \<Rightarrow> coap_params option" where
  "coap_session_set_non_timeout qb x s =
     (if qb \<and> fp_ok x then fix_both (s\<lparr>non_timeout := x\<rparr>) else Some s)"

definition coap_session_set_non_receive_timeout :: "bool \<Rightarrow> coap_fixed_point \<Rightarrow> coap_params \<Rightarrow> coap_params" where
  "coap_session_set_non_receive_timeout qb x s = (if qb \<and> fp_ok x then s\<lparr>non_receive_timeout := x\<rparr> else s)"

definition coap_session_get_ack_timeout :: "coap_params \<Rightarrow> coap_fixed_point" where
  "coap_session_get_ack_timeout s = ack_timeout s"

definition coap_session_get_ack_random_factor :: "coap_params \<Rightarrow> coap_fixed_point" where
  "coap_session_get_ack_random_factor s = ack_random_factor s"

definition coap_session_get_max_retransmit :: "coap_params \<Rightarrow> u16" where
  "coap_session_get_max_retransmit s = max_retransmit s"

definition coap_session_get_nstart :: "coap_params \<Rightarrow> u16" where
  "coap_session_get_nstart s = nstart s"

definition coap_session_get_default_leisure :: "coap_params \<Rightarrow> coap_fixed_point" where
  "coap_session_get_default_leisure s = default_leisure s"

definition coap_session_get_probing_rate :: "coap_params \<Rightarrow> u32" where
  "coap_session_get_probing_rate s = probing_rate s"

definition coap_session_get_max_payloads :: "bool \<Rightarrow> coap_params \<Rightarrow> u16" where
  "coap_session_get_max_payloads qb s = (if qb then max_payloads s else COAP_DEFAULT_MAX_PAYLOADS)"

definition coap_session_get_non_max_retransmit :: "bool \<Rightarrow> coap_params \<Rightarrow> u16" where
  "coap_session_get_non_max_retransmit qb s = (if qb then non_max_retransmit s else COAP_DEFAULT_NON_MAX_RETRANSMIT)"

definition coap_session_get_non_timeout :: "bool \<Rightarrow> coap_params \<Rightarrow> coap_fixed_point" where
  "coap_session_get_non_timeout qb s = (if qb then non_timeout s else COAP_DEFAULT_NON_TIMEOUT)"

definition coap_session_get_non_receive_timeout :: "bool \<Rightarrow> coap_params \<Rightarrow> coap_fixed_point" where
  "coap_session_get_non_receive_timeout qb s = (if qb then non_receive_timeout s else COAP_DEFAULT_NON_RECEIVE_TIMEOUT)"

section \<open>Derived times\<close>

text \<open>The random byte \<open>r\<close> is what \<open>coap_prng\<close> delivers.\<close>

definition coap_get_non_timeout_random :: "u8 \<Rightarrow> coap_params \<Rightarrow> coap_fixed_point option" where
  "coap_get_non_timeout_random r s = do {
     let res = coap_sub_fixed_uint (ack_random_factor s) 1;
     let res = coap_multi_fixed_uint res (ucast r);
     res \<leftarrow> coap_div_fixed_uint res 0xff;
     Some (coap_add_fixed_fixed (non_timeout s) res)
   }"

definition fp_ticks :: "coap_fixed_point \<Rightarrow> u64" where
  "fp_ticks x = ucast (integer_part x) * COAP_TICKS_PER_SECOND + ucast (fractional_part x) * COAP_TICKS_PER_SECOND div 1000"

definition coap_get_non_timeout_random_ticks :: "u8 \<Rightarrow> coap_params \<Rightarrow> u64 option" where
  "coap_get_non_timeout_random_ticks r s = map_option fp_ticks (coap_get_non_timeout_random r s)"

definition milli :: "coap_fixed_point \<Rightarrow> int" where
  "milli x = 1000 * int (unat (integer_part x)) + int (unat (fractional_part x))"

text \<open>The products of the macros are products of \<open>int\<close>s, taken from the left.\<close>

definition transmit_time :: "nat \<Rightarrow> coap_params \<Rightarrow> int option" where
  "transmit_time n s = do {
     ones \<leftarrow> int_ones n;
     x \<leftarrow> c_int (milli (ack_timeout s) * ones);
     x \<leftarrow> c_int (x * milli (ack_random_factor s));
     Some (x div 1000000)
   }"

definition COAP_MAX_TRANSMIT_SPAN :: "coap_params \<Rightarrow> int option" where
  "COAP_MAX_TRANSMIT_SPAN s = transmit_time (unat (max_retransmit s)) s"

definition COAP_MAX_TRANSMIT_WAIT :: "coap_params \<Rightarrow> int option" where
  "COAP_MAX_TRANSMIT_WAIT s = transmit_time (unat (max_retransmit s) + 1) s"

definition COAP_PROCESSING_DELAY :: "coap_params \<Rightarrow> int" where
  "COAP_PROCESSING_DELAY s = (milli (ack_timeout s) + 500) div 1000"

text \<open>Sums with the unsigned \<open>COAP_DEFAULT_MAX_LATENCY\<close> are unsigned.\<close>

definition COAP_MAX_RTT :: "coap_params \<Rightarrow> u32" where
  "COAP_MAX_RTT s = 2 * word_of_nat COAP_DEFAULT_MAX_LATENCY + word_of_int (COAP_PROCESSING_DELAY s)"

definition COAP_EXCHANGE_LIFETIME :: "coap_params \<Rightarrow> u32 option" where
  "COAP_EXCHANGE_LIFETIME s = do {
     span \<leftarrow> COAP_MAX_TRANSMIT_SPAN s;
     Some (word_of_int span + 2 * word_of_nat COAP_DEFAULT_MAX_LATENCY + word_of_int (COAP_PROCESSING_DELAY s))
   }"

definition COAP_NON_LIFETIME :: "coap_params \<Rightarrow> u32 option" where
  "COAP_NON_LIFETIME s = do {
     span \<leftarrow> COAP_MAX_TRANSMIT_SPAN s;
     Some (word_of_int span + word_of_nat COAP_DEFAULT_MAX_LATENCY)
   }"

section \<open>The initial timeout of a confirmable message\<close>

text \<open>
  \<open>Q(FRAC_BITS, x)\<close> is cut to 16 bits. In \<open>coap_calc_timeout\<close> the difference is signed, its
  product with \<open>r\<close> too; shifting a negative value is left to the compiler, which shifts
  arithmetically (\<open>div\<close>). From \<open>result\<close> on the arithmetic is unsigned, with the ticks in 64 bits.
\<close>

definition Q :: "coap_fixed_point \<Rightarrow> u16" where
  "Q x = word_of_int (2 ^ 6 * int (unat (integer_part x)) + (2 ^ 6 * int (unat (fractional_part x)) + 500) div 1000)"

definition coap_calc_timeout :: "coap_params \<Rightarrow> u8 \<Rightarrow> u32" where
  "coap_calc_timeout s r =
     (let fp1 = Q (fp 1 0);
          result = (word_of_int ((((int (unat (Q (ack_random_factor s))) - int (unat fp1)) * int (unat r)) + 2 ^ 7) div 2 ^ 8) :: u32);
          result = drop_bit 6 ((result + ucast fp1) * ucast (Q (ack_timeout s)) + 2 ^ 5)
      in ucast (drop_bit 6 (COAP_TICKS_PER_SECOND * ucast result + 2 ^ 5)))"

section \<open>The fixed-point operations as numbers\<close>

lemma unat_u16_bound: "unat (x :: u16) < 65536"
  using unsigned_less [of x, where ?'a = nat] by simp

lemma unat_u16_u32 [simp]: "unat (ucast (x :: u16) :: u32) = unat x"
  using unat_u16_bound [of x] by (simp add: unsigned_ucast_eq take_bit_nat_eq_self)

lemma unat_cut: "n < 65536 \<Longrightarrow> unat (ucast (word_of_nat n :: u32) :: u16) = n"
  by (simp add: unsigned_ucast_eq unsigned_of_nat take_bit_nat_eq_self)

text \<open>The number of thousandths.\<close>

definition thousandths :: "coap_fixed_point \<Rightarrow> nat" where
  "thousandths x = 1000 * unat (integer_part x) + unat (fractional_part x)"

lemma thousandths_split:
  assumes "n < 65536000"
  shows "thousandths \<lparr>integer_part = ucast (word_of_nat (n div 1000) :: u32), fractional_part = ucast (word_of_nat (n mod 1000) :: u32)\<rparr> = n"
    "unat (ucast (word_of_nat (n mod 1000) :: u32) :: u16) = n mod 1000"
proof -
  have "n div 1000 < 65536" "n mod 1000 < 65536" using assms by (auto simp: less_mult_imp_div_less intro: less_trans [OF mod_less_divisor])
  then have "unat (ucast (word_of_nat (n div 1000) :: u32) :: u16) = n div 1000"
    "unat (ucast (word_of_nat (n mod 1000) :: u32) :: u16) = n mod 1000"
    by (simp_all add: unat_cut)
  then show "thousandths \<lparr>integer_part = ucast (word_of_nat (n div 1000) :: u32), fractional_part = ucast (word_of_nat (n mod 1000) :: u32)\<rparr> = n"
    "unat (ucast (word_of_nat (n mod 1000) :: u32) :: u16) = n mod 1000"
    by (simp_all add: thousandths_def)
qed

text \<open>A whole part and a number of thousandths that may exceed one, normalised.\<close>

lemma thousandths_carry:
  assumes "1000 * i + f < 65536000"
  shows "thousandths \<lparr>integer_part = ucast (word_of_nat (i + f div 1000) :: u32), fractional_part = ucast (word_of_nat (f mod 1000) :: u32)\<rparr> = 1000 * i + f"
proof -
  have "(1000 * i + f) div 1000 = i + f div 1000" "(1000 * i + f) mod 1000 = f mod 1000" by simp_all
  then show ?thesis using thousandths_split(1) [OF assms] by simp
qed

lemma multi_uint_thousandths:
  assumes "thousandths x * unat u < 65536000"
  shows "thousandths (coap_multi_fixed_uint x u) = thousandths x * unat u"
proof -
  let ?i = "unat (integer_part x)" and ?f = "unat (fractional_part x)" and ?u = "unat u"
  have bound: "1000 * (?i * ?u) + ?f * ?u < 65536000" using assms by (simp add: thousandths_def algebra_simps)
  have fr: "(ucast (fractional_part x) * u :: u32) = word_of_nat (?f * ?u)"
    by (rule word_unat_eq_iff [THEN iffD2]) (use bound in \<open>simp add: unat_word_ariths unat_of_nat\<close>)
  have small: "?f * ?u < 2 ^ 32" using bound by simp
  have "word_of_nat (?f * ?u) div (1000 :: u32) = word_of_nat (?f * ?u div 1000)" "word_of_nat (?f * ?u) mod (1000 :: u32) = word_of_nat (?f * ?u mod 1000)"
    using small unat_of_nat_small [of "?f * ?u", where ?'a = 32]
    by (simp_all add: word_unat_eq_iff unat_div_distrib unat_mod_distrib unat_of_nat_small del: of_nat_mult)
  moreover have "(ucast (integer_part x) * u + word_of_nat (?f * ?u div 1000) :: u32) = word_of_nat (?i * ?u + ?f * ?u div 1000)"
    by simp
  ultimately show ?thesis
    using thousandths_carry [OF bound] by (simp add: coap_multi_fixed_uint_def fr thousandths_def algebra_simps)
qed

lemma multi_fixed_thousandths:
  assumes "fractional_part x < 1000" "fractional_part y < 1000"
    and "1000 * (unat (integer_part x) * unat (integer_part y)) + unat (fractional_part x) * unat (fractional_part y) < 65536000"
  shows "\<exists>z. coap_multi_fixed_fixed x y = Some z \<and> thousandths z =
    1000 * (unat (integer_part x) * unat (integer_part y)) + unat (fractional_part x) * unat (fractional_part y)"
proof -
  let ?i = "unat (integer_part x) * unat (integer_part y)" and ?f = "unat (fractional_part x) * unat (fractional_part y)"
  have small: "?f < 2 ^ 31" "?i < 2 ^ 31" "?f < 2 ^ 32" using assms(3) by simp_all
  have "c_int (int ?f) = Some (int ?f)" "c_int (int ?i) = Some (int ?i)"
    using small by (simp_all add: c_int_def del: of_nat_mult)
  moreover have "word_of_nat ?f div (1000 :: u32) = word_of_nat (?f div 1000)" "word_of_nat ?f mod (1000 :: u32) = word_of_nat (?f mod 1000)"
    using small(3) unat_of_nat_small [of ?f, where ?'a = 32]
    by (simp_all add: word_unat_eq_iff unat_div_distrib unat_mod_distrib unat_of_nat_small del: of_nat_mult)
  ultimately have "coap_multi_fixed_fixed x y =
      Some \<lparr>integer_part = ucast (word_of_nat (?i + ?f div 1000) :: u32), fractional_part = ucast (word_of_nat (?f mod 1000) :: u32)\<rparr>"
    unfolding coap_multi_fixed_fixed_def of_nat_mult [where 'a = int, symmetric] by (simp del: of_nat_mult)
  then show ?thesis using thousandths_carry [OF assms(3)] by blast
qed

lemma add_thousandths:
  assumes "thousandths x + thousandths y < 65536000"
  shows "thousandths (coap_add_fixed_fixed x y) = thousandths x + thousandths y"
proof -
  let ?i = "unat (integer_part x) + unat (integer_part y)" and ?f = "unat (fractional_part x) + unat (fractional_part y)"
  have bound: "1000 * ?i + ?f < 65536000" using assms by (simp add: thousandths_def)
  have small: "?f < 2 ^ 32" using bound by simp
  have fr: "(ucast (fractional_part x) + ucast (fractional_part y) :: u32) = word_of_nat ?f"
    "(ucast (integer_part x) + ucast (integer_part y) :: u32) = word_of_nat ?i"
    by simp_all
  have "word_of_nat ?f div (1000 :: u32) = word_of_nat (?f div 1000)" "word_of_nat ?f mod (1000 :: u32) = word_of_nat (?f mod 1000)"
    using small unat_of_nat_small [of ?f, where ?'a = 32]
    by (simp_all add: word_unat_eq_iff unat_div_distrib unat_mod_distrib unat_of_nat_small del: of_nat_add)
  then have "coap_add_fixed_fixed x y =
      \<lparr>integer_part = ucast (word_of_nat (?i + ?f div 1000) :: u32), fractional_part = ucast (word_of_nat (?f mod 1000) :: u32)\<rparr>"
    unfolding coap_add_fixed_fixed_def fr by simp
  then show ?thesis using thousandths_carry [OF bound] by (simp add: thousandths_def)
qed

lemma div_thousandths:
  assumes "fractional_part x < 1000" "0 < u"
  shows "\<exists>z. coap_div_fixed_uint x u = Some z \<and> thousandths z = thousandths x div unat u"
proof -
  let ?n = "thousandths x" and ?q = "thousandths x div unat u"
  have "unat (fractional_part x) < 1000" using assms(1) by (simp add: word_less_nat_alt)
  then have n: "?n < 65536000" using unat_u16_bound [of "integer_part x"] by (simp add: thousandths_def)
  have q: "?q < 65536000" using n div_le_dividend [of ?n "unat u"] by linarith
  have nonzero: "(u \<noteq> 0) = True" using assms(2) by auto
  have num: "(ucast (integer_part x) * 1000 + ucast (fractional_part x) :: u32) = word_of_nat ?n"
    by (simp add: thousandths_def mult.commute)
  have "word_of_nat ?n div u = word_of_nat ?q"
    using n q by (simp add: word_unat_eq_iff unat_div_distrib unat_of_nat_small)
  moreover have "word_of_nat ?q div (1000 :: u32) = word_of_nat (?q div 1000)" "word_of_nat ?q mod (1000 :: u32) = word_of_nat (?q mod 1000)"
    using q by (simp_all add: word_unat_eq_iff unat_div_distrib unat_mod_distrib unat_of_nat_small)
  ultimately have "coap_div_fixed_uint x u =
      Some \<lparr>integer_part = ucast (word_of_nat (?q div 1000) :: u32), fractional_part = ucast (word_of_nat (?q mod 1000) :: u32)\<rparr>"
    unfolding coap_div_fixed_uint_def num nonzero by (simp add: Let_def)
  then show ?thesis using thousandths_split(1) [OF q] by blast
qed

section \<open>Well-formed parameters\<close>

definition params_ok :: "bool \<Rightarrow> coap_params \<Rightarrow> bool" where
  "params_ok qb s \<longleftrightarrow> fp_ok (ack_timeout s) \<and> fp_ok (ack_random_factor s) \<and> 0 < max_retransmit s \<and> 0 < nstart s \<and>
     fp_ok (default_leisure s) \<and> 0 < probing_rate s \<and>
     (qb \<longrightarrow> 0 < max_payloads s \<and> 0 < non_max_retransmit s \<and> fp_ok (non_timeout s) \<and> fp_ok (non_receive_timeout s) \<and>
        fractional_part (non_probing_wait_base s) < 1000 \<and> fractional_part (non_partial_timeout s) < 1000)"

datatype param_cmd =
    Set_ack_timeout coap_fixed_point | Set_ack_random_factor coap_fixed_point | Set_max_retransmit u16 | Set_nstart u16
  | Set_default_leisure coap_fixed_point | Set_probing_rate u32 | Set_max_payloads u16 | Set_non_max_retransmit u16
  | Set_non_timeout coap_fixed_point | Set_non_receive_timeout coap_fixed_point

fun set_param :: "bool \<Rightarrow> coap_params \<Rightarrow> param_cmd \<Rightarrow> coap_params option" where
  "set_param qb s (Set_ack_timeout x) = Some (coap_session_set_ack_timeout x s)"
| "set_param qb s (Set_ack_random_factor x) = coap_session_set_ack_random_factor qb x s"
| "set_param qb s (Set_max_retransmit n) = Some (coap_session_set_max_retransmit n s)"
| "set_param qb s (Set_nstart n) = Some (coap_session_set_nstart n s)"
| "set_param qb s (Set_default_leisure x) = Some (coap_session_set_default_leisure x s)"
| "set_param qb s (Set_probing_rate n) = Some (coap_session_set_probing_rate n s)"
| "set_param qb s (Set_max_payloads n) = coap_session_set_max_payloads qb n s"
| "set_param qb s (Set_non_max_retransmit n) = coap_session_set_non_max_retransmit qb n s"
| "set_param qb s (Set_non_timeout x) = coap_session_set_non_timeout qb x s"
| "set_param qb s (Set_non_receive_timeout x) = Some (coap_session_set_non_receive_timeout qb x s)"

lemmas setter_defs = coap_session_set_ack_timeout_def coap_session_set_ack_random_factor_def coap_session_set_max_retransmit_def
  coap_session_set_nstart_def coap_session_set_default_leisure_def coap_session_set_probing_rate_def
  coap_session_set_max_payloads_def coap_session_set_non_max_retransmit_def coap_session_set_non_timeout_def
  coap_session_set_non_receive_timeout_def

lemma fraction_mod: "(ucast (x mod 1000 :: u32) :: u16) < 1000"
proof -
  have "unat (x mod 1000) < 1000" by (simp add: unat_mod_distrib)
  then have "unat (ucast (x mod 1000) :: u16) < 1000"
    by (simp add: unsigned_ucast_eq take_bit_nat_eq_self)
  then show ?thesis by (simp add: word_less_nat_alt)
qed

lemma fix_both_ok:
  "fix_both s = Some s' \<Longrightarrow>
    s' = s\<lparr>non_probing_wait_base := non_probing_wait_base s', non_partial_timeout := non_partial_timeout s'\<rparr> \<and>
    fractional_part (non_probing_wait_base s') < 1000 \<and> fractional_part (non_partial_timeout s') < 1000"
  by (auto simp: fix_both_def coap_session_fix_non_probing_wait_base_def coap_session_fix_non_partial_timeout_def
      bind_eq_Some_conv Let_def coap_multi_fixed_fixed_def coap_add_fixed_uint_def coap_add_fixed_fixed_def fraction_mod)

lemma fix_both_params:
  assumes "fix_both s = Some s'" "params_ok False s"
    "0 < max_payloads s \<and> 0 < non_max_retransmit s \<and> fp_ok (non_timeout s) \<and> fp_ok (non_receive_timeout s)"
  shows "params_ok True s'"
proof -
  obtain a b where s': "s' = s\<lparr>non_probing_wait_base := a, non_partial_timeout := b\<rparr>"
    "fractional_part a < 1000" "fractional_part b < 1000"
    using fix_both_ok [OF assms(1)] by metis
  show ?thesis using assms(2,3) s'(2,3) unfolding s'(1) by (simp add: params_ok_def)
qed

lemma set_param_ok:
  assumes "set_param qb s cmd = Some s'" "params_ok qb s"
  shows "params_ok qb s'"
proof -
  have base: "params_ok False s" using assms(2) by (simp add: params_ok_def)
  show ?thesis
  proof (cases qb)
    case True
    then have q: "0 < max_payloads s \<and> 0 < non_max_retransmit s \<and> fp_ok (non_timeout s) \<and> fp_ok (non_receive_timeout s)"
      using assms(2) by (simp add: params_ok_def)
    have both: "fix_both t = Some s' \<Longrightarrow> params_ok False t \<Longrightarrow>
      0 < max_payloads t \<and> 0 < non_max_retransmit t \<and> fp_ok (non_timeout t) \<and> fp_ok (non_receive_timeout t) \<Longrightarrow> params_ok qb s'" for t
      using fix_both_params True by simp
    show ?thesis
    proof (cases cmd)
      case (Set_ack_random_factor x)
      then show ?thesis
        using assms base q True both [of "s\<lparr>ack_random_factor := x\<rparr>"]
        by (auto simp: coap_session_set_ack_random_factor_def params_ok_def split: if_splits)
    next
      case (Set_max_payloads n)
      then show ?thesis
        using assms base q True both [of "s\<lparr>max_payloads := n\<rparr>"]
        by (auto simp: coap_session_set_max_payloads_def params_ok_def split: if_splits)
    next
      case (Set_non_max_retransmit n)
      then show ?thesis
        using assms base q True both [of "s\<lparr>non_max_retransmit := n\<rparr>"]
        by (auto simp: coap_session_set_non_max_retransmit_def params_ok_def split: if_splits)
    next
      case (Set_non_timeout x)
      then show ?thesis
        using assms base q True both [of "s\<lparr>non_timeout := x\<rparr>"]
        by (auto simp: coap_session_set_non_timeout_def params_ok_def split: if_splits)
    qed (use assms True in \<open>auto simp: setter_defs params_ok_def split: if_splits\<close>)
  next
    case False
    then show ?thesis
      using assms by (cases cmd) (auto simp: setter_defs params_ok_def Let_def split: if_splits)
  qed
qed
section \<open>Properties\<close>

text \<open>C39: the transmission parameters of a session are well-formed from its creation on, whatever is passed
  to the setters: timeouts and factors are at least one with less than 1000 thousandths, counts are
  positive, the derived times are normalised. Without Q-Block every setter returns; with it, a
  \<open>non_max_retransmit\<close> of 30 or more makes the setter shift into the sign bit, which has no
  meaning.\<close>

theorem params_stay_valid:
  assumes "make_params qb = Some s0" "m_fold (set_param qb) s0 cmds = Some s"
  shows "params_ok qb s \<and> (\<forall>cmd. \<not> qb \<longrightarrow> set_param qb s cmd \<noteq> None) \<and>
    (\<forall>n. qb \<longrightarrow> 30 \<le> n \<longrightarrow> set_param qb s (Set_non_max_retransmit n) = None)"
proof -
  have "params_ok qb s0"
  proof (cases qb)
    case True
    then show ?thesis
      using assms(1) fix_both_params by (auto simp: make_params_def Let_def params_ok_def fp_ok_def coap_default_defs)
  next
    case False
    then show ?thesis
      using assms(1) by (auto simp: make_params_def Let_def params_ok_def fp_ok_def coap_default_defs)
  qed
  then have "params_ok qb s"
    using assms(2)
  proof (induction cmds arbitrary: s0)
    case (Cons cmd cmds)
    then obtain s1 where "set_param qb s0 cmd = Some s1" "m_fold (set_param qb) s1 cmds = Some s"
      by (auto simp: bind_eq_Some_conv)
    then show ?case using Cons.IH [of s1] set_param_ok Cons.prems(1) by blast
  qed simp
  moreover have "set_param False s cmd \<noteq> None" for cmd
    by (cases cmd) (simp_all add: setter_defs Let_def)
  moreover have "set_param True s (Set_non_max_retransmit n) = None" if "30 \<le> n" for n
  proof -
    have "30 \<le> unat n" "0 < n" using that by (simp_all add: word_le_nat_alt word_less_nat_alt)
    then show ?thesis
      by (simp add: coap_session_set_non_max_retransmit_def fix_both_def coap_session_fix_non_probing_wait_base_def int_ones_def)
  qed
  ultimately show ?thesis by simp
qed

theorem params_stay_valid_witness:
  "\<exists>s0 s. make_params False = Some s0 \<and>
    m_fold (set_param False) s0 [Set_ack_timeout (fp 0 500), Set_ack_timeout (fp 3 250), Set_nstart 0] = Some s \<and>
    params_ok False s \<and> ack_timeout s = fp 3 250 \<and> nstart s = 1"
proof -
  obtain s0 where s0: "make_params False = Some s0" "ack_timeout s0 = fp 2 0" "nstart s0 = 1"
    by (simp add: make_params_def coap_default_defs)
  let ?s = "s0\<lparr>ack_timeout := fp 3 250\<rparr>"
  have run: "m_fold (set_param False) s0 [Set_ack_timeout (fp 0 500), Set_ack_timeout (fp 3 250), Set_nstart 0] = Some ?s"
    by (simp add: setter_defs fp_ok_def)
  from params_stay_valid [OF s0(1) run] show ?thesis using s0 run by auto
qed

text \<open>Sums, quotients and products by an integer of the fixed-point numbers are exact to the
  thousandth, as long as they fit. The product of two of them is not: the thousandths are multiplied
  as if they were whole, and the mixed products are left out; 1.5 times 1.5 is 251.0.\<close>

theorem fixed_point_ops:
  assumes "fractional_part x < 1000" "fractional_part y < 1000" "0 < u"
  shows "(thousandths x + thousandths y < 65536000 \<longrightarrow> thousandths (coap_add_fixed_fixed x y) = thousandths x + thousandths y) \<and>
    (thousandths x * unat u < 65536000 \<longrightarrow> thousandths (coap_multi_fixed_uint x u) = thousandths x * unat u) \<and>
    map_option thousandths (coap_div_fixed_uint x u) = Some (thousandths x div unat u) \<and>
    (let w = unat (integer_part x) * unat (integer_part y); f = unat (fractional_part x) * unat (fractional_part y)
     in 1000 * w + f < 65536000 \<longrightarrow> map_option thousandths (coap_multi_fixed_fixed x y) = Some (1000 * w + f)) \<and>
    coap_multi_fixed_fixed (fp 1 500) (fp 1 500) = Some (fp 251 0)"
proof -
  have "coap_multi_fixed_fixed (fp 1 500) (fp 1 500) = Some (fp 251 0)"
    by (simp add: coap_multi_fixed_fixed_def c_int_def)
  then show ?thesis
    using add_thousandths multi_uint_thousandths div_thousandths [OF assms(1,3)] multi_fixed_thousandths [OF assms(1,2)]
    by (auto simp: Let_def)
qed

theorem fixed_point_ops_witness:
  "thousandths (coap_add_fixed_fixed (fp 2 750) (fp 1 500)) = 4250 \<and>
   map_option thousandths (coap_div_fixed_uint (fp 2 750) 2) = Some 1375"
  using fixed_point_ops [of "fp 2 750" "fp 1 500" 2] by (simp add: thousandths_def)

text \<open>With the default parameters the derived times are those of RFC 7252, section 4.8.2: a span of 45 s
  and a wait of 93 s for all transmissions, a processing delay of 2 s, a round trip of 202 s, and
  lifetimes of 247 and 145 s. From an acknowledgement timeout of 96 s on the product for the span
  overflows \<open>int\<close>. The base of NON_PROBING_WAIT of RFC 9177 comes out as 262 s, where the
  formula in its comment gives 245 s.\<close>

theorem derived_times:
  "\<exists>s q. make_params False = Some s \<and> make_params True = Some q \<and>
    COAP_MAX_TRANSMIT_SPAN s = Some 45 \<and> COAP_MAX_TRANSMIT_WAIT s = Some 93 \<and> COAP_PROCESSING_DELAY s = 2 \<and>
    COAP_MAX_RTT s = 202 \<and> COAP_EXCHANGE_LIFETIME s = Some 247 \<and> COAP_NON_LIFETIME s = Some 145 \<and>
    COAP_MAX_TRANSMIT_SPAN (coap_session_set_ack_timeout (fp 96 0) s) = None \<and>
    non_probing_wait_base q = fp 262 0 \<and> non_partial_timeout q = fp 264 0"
  by (simp add: make_params_def coap_default_defs COAP_MAX_TRANSMIT_SPAN_def COAP_MAX_TRANSMIT_WAIT_def
      COAP_PROCESSING_DELAY_def COAP_MAX_RTT_def COAP_EXCHANGE_LIFETIME_def COAP_NON_LIFETIME_def transmit_time_def
      int_ones_def c_int_def milli_def coap_session_set_ack_timeout_def fp_ok_def fix_both_def
      coap_session_fix_non_probing_wait_base_def coap_session_fix_non_partial_timeout_def coap_multi_fixed_uint_def
      coap_multi_fixed_fixed_def coap_add_fixed_uint_def coap_add_fixed_fixed_def Let_def)

text \<open>The Q-format value without the cut to 16 bits: 1/64 of a second, rounded.\<close>

definition q_value :: "coap_fixed_point \<Rightarrow> nat" where
  "q_value x = 64 * unat (integer_part x) + (64 * unat (fractional_part x) + 500) div 1000"

lemma Q_of_nat: "Q x = word_of_nat (q_value x)"
proof -
  have "2 ^ 6 * int (unat (integer_part x)) + (2 ^ 6 * int (unat (fractional_part x)) + 500) div 1000 = int (q_value x)"
    unfolding q_value_def by (simp add: zdiv_int)
  then show ?thesis unfolding Q_def by (simp only: of_int_of_nat_eq)
qed

lemma unat_Q:
  assumes "fractional_part x < 1000" "integer_part x < 1023"
  shows "unat (Q x) = q_value x" "q_value x \<le> 65472"
proof -
  have "unat (fractional_part x) \<le> 999" "unat (integer_part x) \<le> 1022"
    using assms by (simp_all add: word_less_nat_alt)
  then show "q_value x \<le> 65472" by (simp add: q_value_def)
  then show "unat (Q x) = q_value x" by (simp add: Q_of_nat unat_of_nat_small)
qed

lemma unat_drop_6: "unat (drop_bit 6 (w :: u32)) = unat w div 64" "unat (drop_bit 6 (v :: u64)) = unat v div 64"
  by (simp_all add: drop_bit_eq_div unat_div_distrib)

lemma inner_term:
  assumes "64 \<le> (R :: nat)"
  shows "word_of_int (((int R - 64) * int r + 2 ^ 7) div 2 ^ 8) = (word_of_nat (((R - 64) * r + 128) div 256) :: u32)"
proof -
  have "(int R - 64) * int r + 2 ^ 7 = int ((R - 64) * r + 128)"
    using assms by (simp add: of_nat_diff)
  then have "((int R - 64) * int r + 2 ^ 7) div 2 ^ 8 = int (((R - 64) * r + 128) div 256)"
    by (simp only: zdiv_int) simp
  then show ?thesis by (simp only: of_int_of_nat_eq)
qed

lemma inner_bound:
  assumes "r \<le> 255"
  shows "(x * r + 128) div 256 \<le> (x :: nat)"
proof -
  have "x * r \<le> x * 255" by (rule mult_left_mono [OF assms]) simp
  moreover have "(x + 1) * 256 = x * 255 + (x + 256)" by simp
  ultimately have "x * r + 128 < (x + 1) * 256" by linarith
  then have "(x * r + 128) div 256 < x + 1" by (rule less_mult_imp_div_less)
  then show ?thesis by simp
qed

lemma middle_term:
  assumes "(k + 64) * A + 32 < 2 ^ 32"
  shows "(ucast (drop_bit 6 ((word_of_nat k + 64) * word_of_nat A + 2 ^ 5 :: u32)) :: u64) = word_of_nat (((k + 64) * A + 32) div 64)"
proof -
  have eq: "((word_of_nat k + 64) * word_of_nat A + 2 ^ 5 :: u32) = word_of_nat ((k + 64) * A + 32)" by simp
  have "unat (word_of_nat ((k + 64) * A + 32) :: u32) = (k + 64) * A + 32"
    using assms by (intro unat_of_nat_small) simp
  then have "unat (drop_bit 6 ((word_of_nat k + 64) * word_of_nat A + 2 ^ 5 :: u32)) = ((k + 64) * A + 32) div 64"
    unfolding unat_drop_6 eq by simp
  then show ?thesis by (metis of_nat_unat)
qed

lemma outer_term:
  assumes "y < 2 ^ 27"
  shows "unat (ucast (drop_bit 6 (COAP_TICKS_PER_SECOND * word_of_nat y + 2 ^ 5 :: u64)) :: u32) = (1000 * y + 32) div 64"
proof -
  have eq: "(COAP_TICKS_PER_SECOND * word_of_nat y + 2 ^ 5 :: u64) = word_of_nat (1000 * y + 32)"
    by (simp add: COAP_TICKS_PER_SECOND_def)
  have "unat (word_of_nat (1000 * y + 32) :: u64) = 1000 * y + 32"
    using assms by (intro unat_of_nat_small) simp
  then have "unat (drop_bit 6 (COAP_TICKS_PER_SECOND * word_of_nat y + 2 ^ 5 :: u64)) = (1000 * y + 32) div 64"
    unfolding unat_drop_6 eq by simp
  moreover have "(1000 * y + 32) div 64 < 2 ^ 32" using assms by simp
  ultimately show ?thesis by (simp add: unsigned_ucast_eq take_bit_nat_eq_self)
qed

lemma calc_timeout_eq:
  assumes "fractional_part (ack_timeout s) < 1000" "integer_part (ack_timeout s) < 1023"
    and "fractional_part (ack_random_factor s) < 1000" "integer_part (ack_random_factor s) < 1023" "0 < integer_part (ack_random_factor s)"
  shows "\<exists>k. unat (coap_calc_timeout s r) = (1000 * (((k + 64) * q_value (ack_timeout s) + 32) div 64) + 32) div 64 \<and>
    k = ((q_value (ack_random_factor s) - 64) * unat r + 128) div 256 \<and> k + 64 \<le> q_value (ack_random_factor s)"
proof -
  let ?A = "q_value (ack_timeout s)" and ?R = "q_value (ack_random_factor s)"
  define k where "k = ((?R - 64) * unat r + 128) div 256"
  note A = unat_Q [OF assms(1,2)] and R = unat_Q [OF assms(3,4)]
  have one: "Q (fp 1 0) = 64" by (simp add: Q_of_nat q_value_def)
  have "64 \<le> ?R" using assms(5) by (simp add: q_value_def word_less_nat_alt)
  have "unat r \<le> 255" using unsigned_less [of r, where ?'a = nat] by simp
  then have k: "k + 64 \<le> ?R" using inner_bound [of "unat r" "?R - 64"] \<open>64 \<le> ?R\<close> unfolding k_def by linarith
  have inner: "word_of_int ((((int (unat (Q (ack_random_factor s))) - int (unat (Q (fp 1 0)))) * int (unat r)) + 2 ^ 7) div 2 ^ 8) = (word_of_nat k :: u32)"
    using inner_term [OF \<open>64 \<le> ?R\<close>, of "unat r"] unfolding R(1) one k_def by simp
  have "k + 64 \<le> 65472" using k R(2) by simp
  then have "(k + 64) * ?A \<le> 65472 * 65472" using A(2) by (rule mult_le_mono)
  then have small: "(k + 64) * ?A + 32 < 2 ^ 32" by simp
  have casts: "ucast (Q (ack_timeout s)) = (word_of_nat ?A :: u32)" "ucast (Q (fp 1 0)) = (64 :: u32)"
    by (metis A(1) of_nat_unat) (simp add: one)
  have "((k + 64) * ?A + 32) div 64 < 2 ^ 27" using small by simp
  then have "unat (coap_calc_timeout s r) = (1000 * (((k + 64) * ?A + 32) div 64) + 32) div 64"
    unfolding coap_calc_timeout_def Let_def inner casts middle_term [OF small] by (rule outer_term)
  then show ?thesis using k k_def by blast
qed

text \<open>C40: the randomised initial timeout of a confirmable message, in ticks of a millisecond, lies between
  ACK_TIMEOUT and ACK_TIMEOUT times ACK_RANDOM_FACTOR, both taken in steps of 1/64, and the random
  byte 0 gives the lower end. That holds below 1023 s: the Q format has 16 bits, so that at 1024 s,
  which the setter accepts, the timeout is 0 and a message is sent again at once.\<close>

theorem calc_timeout_range:
  assumes "fractional_part (ack_timeout s) < 1000" "integer_part (ack_timeout s) < 1023"
    and "fractional_part (ack_random_factor s) < 1000" "integer_part (ack_random_factor s) < 1023" "0 < integer_part (ack_random_factor s)"
  shows "(1000 * q_value (ack_timeout s) + 32) div 64 \<le> unat (coap_calc_timeout s r) \<and>
    unat (coap_calc_timeout s r) \<le>
      (1000 * ((q_value (ack_random_factor s) * q_value (ack_timeout s) + 32) div 64) + 32) div 64 \<and>
    unat (coap_calc_timeout s 0) = (1000 * q_value (ack_timeout s) + 32) div 64 \<and>
    ack_timeout (coap_session_set_ack_timeout (fp 1024 0) s) = fp 1024 0 \<and>
    coap_calc_timeout (coap_session_set_ack_timeout (fp 1024 0) s) r = 0"
proof -
  let ?A = "q_value (ack_timeout s)" and ?R = "q_value (ack_random_factor s)"
  obtain k where k: "unat (coap_calc_timeout s r) = (1000 * (((k + 64) * ?A + 32) div 64) + 32) div 64" "k + 64 \<le> ?R"
    using calc_timeout_eq [OF assms, of r] by blast
  have low: "((0 + 64) * ?A + 32) div 64 = ?A" by simp
  have "((0 + 64) * ?A + 32) div 64 \<le> ((k + 64) * ?A + 32) div 64" by (intro div_le_mono add_right_mono mult_right_mono) simp_all
  then have 1: "?A \<le> ((k + 64) * ?A + 32) div 64" unfolding low .
  have 2: "((k + 64) * ?A + 32) div 64 \<le> (?R * ?A + 32) div 64"
    by (intro div_le_mono add_right_mono mult_right_mono k(2)) simp
  have "(1000 * ?A + 32) div 64 \<le> unat (coap_calc_timeout s r)"
    unfolding k(1) by (rule div_le_mono) (use 1 in linarith)
  moreover have "unat (coap_calc_timeout s r) \<le> (1000 * ((?R * ?A + 32) div 64) + 32) div 64"
    unfolding k(1) by (rule div_le_mono) (use 2 in linarith)
  moreover have "unat (coap_calc_timeout s 0) = (1000 * ?A + 32) div 64"
    using calc_timeout_eq [OF assms, of 0] low by auto
  moreover have "Q (fp 1024 0) = 0" by (simp add: Q_of_nat q_value_def)
  ultimately show ?thesis
    by (simp add: coap_session_set_ack_timeout_def fp_ok_def coap_calc_timeout_def)
qed

theorem calc_timeout_range_witness:
  "\<exists>s. make_params False = Some s \<and> 2000 \<le> unat (coap_calc_timeout s 255) \<and> unat (coap_calc_timeout s 255) \<le> 3000 \<and>
    unat (coap_calc_timeout s 0) = 2000"
proof -
  obtain s where s: "make_params False = Some s" "ack_timeout s = fp 2 0" "ack_random_factor s = fp 1 500"
    by (simp add: make_params_def coap_default_defs)
  then show ?thesis using calc_timeout_range [of s 255] by (simp add: q_value_def)
qed

end
