(* ===== verification/Coap_Queue.thy ===== *)
theory Coap_Queue
  imports Coap_Params
begin

text \<open>
  The queue of messages that wait for an acknowledgement or for their turn
  (\<open>libcoap/src/coap_net.c\<close>, \<open>struct coap_queue_t\<close>). A node holds the time to
  its deadline relative to the node in front, the first one relative to the base time of the
  queue; the lemmas are about the absolute deadlines these stand for.

  A queue is the list of its nodes; \<open>q_addr\<close> is the address that identifies a node.
\<close>

section \<open>Nodes\<close>

record coap_queue =
  q_addr :: nat
  q_t :: u64
  retransmit_cnt :: u8
  is_mcast :: bool
  q_timeout :: u32
  q_session :: "nat option"
  q_id :: int
  q_pdu :: "coap_pdu option"

text \<open>\<open>coap_new_node\<close>, on the address that \<open>coap_malloc_node\<close> returned.\<close>

definition coap_new_node :: "nat option \<Rightarrow> coap_queue option" where
  "coap_new_node block = map_option (\<lambda>a. \<lparr>q_addr = a, q_t = 0, retransmit_cnt = 0, is_mcast = False, q_timeout = 0,
     q_session = None, q_id = 0, q_pdu = None\<rparr>) block"

section \<open>Operations\<close>

text \<open>
  The \<open>do\<close> loop of \<open>coap_insert_node\<close> behind its first round: the time of the node is made
  relative to each node it passes. The node is not in a queue, so its link is null.
\<close>

fun insert_behind :: "coap_queue list \<Rightarrow> coap_queue \<Rightarrow> coap_queue list" where
  "insert_behind [] node = [node]"
| "insert_behind (q # qs) node =
     (if q_t q \<le> q_t node then q # insert_behind qs (node\<lparr>q_t := q_t node - q_t q\<rparr>)
      else node # q\<lparr>q_t := q_t q - q_t node\<rparr> # qs)"

definition coap_insert_node :: "coap_queue list \<Rightarrow> coap_queue \<Rightarrow> coap_queue list" where
  "coap_insert_node queue node =
     (case queue of
        [] \<Rightarrow> [node]
      | q # qs \<Rightarrow>
          if q_t node < q_t q then node # q\<lparr>q_t := q_t q - q_t node\<rparr> # qs
          else q # insert_behind qs (node\<lparr>q_t := q_t node - q_t q\<rparr>))"

definition coap_peek_next :: "coap_queue list \<Rightarrow> coap_queue option" where
  "coap_peek_next queue = (case queue of [] \<Rightarrow> None | q # _ \<Rightarrow> Some q)"

text \<open>The node behind a removed one takes over its time.\<close>

definition take_over :: "coap_queue \<Rightarrow> coap_queue list \<Rightarrow> coap_queue list" where
  "take_over q qs = (case qs of [] \<Rightarrow> [] | p # ps \<Rightarrow> p\<lparr>q_t := q_t p + q_t q\<rparr> # ps)"

definition coap_pop_next :: "coap_queue list \<Rightarrow> coap_queue option \<times> coap_queue list" where
  "coap_pop_next queue = (case queue of [] \<Rightarrow> (None, []) | q # qs \<Rightarrow> (Some q, take_over q qs))"

fun coap_remove_from_queue :: "coap_queue list \<Rightarrow> nat \<Rightarrow> int \<Rightarrow> coap_queue option \<times> coap_queue list" where
  "coap_remove_from_queue [] s mid = (None, [])"
| "coap_remove_from_queue (q # qs) s mid =
     (if q_session q = Some s \<and> q_id q = mid then (Some q, take_over q qs)
      else (let (r, qs) = coap_remove_from_queue qs s mid in (r, q # qs)))"

text \<open>
  \<open>coap_adjust_basetime\<close>: \<open>dt\<close>, the C variable \<open>delta\<close>, is signed. The nodes that have timed out are set to
  zero and counted; \<open>t\<close> is the sum of their times.
\<close>

fun expire_nodes :: "u64 \<Rightarrow> u64 \<Rightarrow> coap_queue list \<Rightarrow> u32 \<times> coap_queue list" where
  "expire_nodes dt t [] = (0, [])"
| "expire_nodes dt t (q # qs) =
     (if t + q_t q < dt then
        (let (n, qs) = expire_nodes dt (t + q_t q) qs in (n + 1, q\<lparr>q_t := 0\<rparr> # qs))
      else (0, q\<lparr>q_t := dt - t\<rparr> # qs))"

definition coap_adjust_basetime :: "u64 \<Rightarrow> coap_queue list \<Rightarrow> u64 \<Rightarrow> u32 \<times> coap_queue list \<times> u64" where
  "coap_adjust_basetime basetime queue now =
     (let dt = now - basetime;
          (n, queue) =
            (case queue of
               [] \<Rightarrow> (0, [])
             | q # qs \<Rightarrow> if sint dt \<le> 0 then (0, q\<lparr>q_t := q_t q - dt\<rparr> # qs) else expire_nodes dt 0 (q # qs))
      in (n, queue, basetime + dt))"

section \<open>Deadlines\<close>

text \<open>The nodes with their deadlines, counted from \<open>b\<close>.\<close>

fun due :: "nat \<Rightarrow> coap_queue list \<Rightarrow> (nat \<times> nat) list" where
  "due b [] = []"
| "due b (q # qs) = (q_addr q, b + unat (q_t q)) # due (b + unat (q_t q)) qs"

definition span :: "coap_queue list \<Rightarrow> nat" where
  "span qs = sum_list (map (\<lambda>q. unat (q_t q)) qs)"

lemma span_simps [simp]: "span [] = 0" "span (q # qs) = unat (q_t q) + span qs"
  by (simp_all add: span_def)

lemma due_append: "due b (ps @ qs) = due b ps @ due (b + span ps) qs"
  by (induction ps arbitrary: b) (simp_all add: add.assoc)

lemma due_addrs: "map fst (due b qs) = map q_addr qs"
  by (induction qs arbitrary: b) auto

lemma due_from: "(a, d) \<in> set (due b qs) \<Longrightarrow> b \<le> d"
  by (induction qs arbitrary: b) fastforce+

lemma sorted_due: "sorted (map snd (due b qs))"
  by (induction qs arbitrary: b) (auto dest: due_from)

text \<open>Insertion into a list of deadlines, behind those that are not later.\<close>

definition due_insert :: "nat \<times> nat \<Rightarrow> (nat \<times> nat) list \<Rightarrow> (nat \<times> nat) list" where
  "due_insert x xs = takeWhile (\<lambda>y. snd y \<le> snd x) xs @ x # dropWhile (\<lambda>y. snd y \<le> snd x) xs"

lemma due_insert_simps [simp]:
  "due_insert x [] = [x]"
  "due_insert x (y # ys) = (if snd y \<le> snd x then y # due_insert x ys else x # y # ys)"
  by (auto simp: due_insert_def)

lemma unat_minus: "(v :: u64) \<le> w \<Longrightarrow> unat (w - v) = unat w - unat v \<and> unat v \<le> unat w"
  by (simp add: unat_sub word_le_nat_alt)

lemma insert_behind_due:
  "due b (insert_behind qs n) = due_insert (q_addr n, b + unat (q_t n)) (due b qs)"
proof (induction qs arbitrary: b n)
  case (Cons q qs)
  show ?case
  proof (cases "q_t q \<le> q_t n")
    case True
    then have "unat (q_t n - q_t q) = unat (q_t n) - unat (q_t q)" "unat (q_t q) \<le> unat (q_t n)"
      using unat_minus by blast+
    then show ?thesis using True Cons.IH [of "b + unat (q_t q)" "n\<lparr>q_t := q_t n - q_t q\<rparr>"] by simp
  next
    case False
    then have "unat (q_t q - q_t n) = unat (q_t q) - unat (q_t n)" "unat (q_t n) < unat (q_t q)"
      using unat_minus [of "q_t n" "q_t q"] by (auto simp: not_le word_less_nat_alt word_le_nat_alt)
    then show ?thesis using False by simp
  qed
qed simp

lemma insert_is_behind: "coap_insert_node qs q = insert_behind qs q"
  by (cases qs) (auto simp: coap_insert_node_def)

lemma insert_node_due: "due 0 (coap_insert_node qs n) = due_insert (q_addr n, unat (q_t n)) (due 0 qs)"
  using insert_behind_due [of 0 qs n] by (simp add: insert_is_behind)

lemma take_over_due:
  assumes "span (q # qs) < 2 ^ 64"
  shows "due b (take_over q qs) = due (b + unat (q_t q)) qs" "span (take_over q qs) \<le> span (q # qs)"
proof -
  have "unat (q_t p + q_t q) = unat (q_t p) + unat (q_t q)" if "qs = p # ps" for p ps
    using assms that by (simp add: unat_word_ariths)
  then show "due b (take_over q qs) = due (b + unat (q_t q)) qs" "span (take_over q qs) \<le> span (q # qs)"
    by (cases qs; simp add: take_over_def add.commute add.left_commute)+
qed

text \<open>A removed node does not change the deadlines of the others.\<close>

lemma remove_from_queue_due:
  assumes "span qs < 2 ^ 64"
  shows "case coap_remove_from_queue qs s mid of
      (None, qs') \<Rightarrow> qs' = qs \<and> (\<forall>q \<in> set qs. q_session q \<noteq> Some s \<or> q_id q \<noteq> mid)
    | (Some r, qs') \<Rightarrow> r \<in> set qs \<and> q_session r = Some s \<and> q_id r = mid \<and> span qs' \<le> span qs \<and>
        (\<exists>ps rs. qs = ps @ r # rs \<and> (\<forall>q \<in> set ps. q_session q \<noteq> Some s \<or> q_id q \<noteq> mid) \<and>
          (\<forall>b. due b qs' = due b ps @ due (b + span ps + unat (q_t r)) rs))"
  using assms
proof (induction qs)
  case (Cons q qs)
  show ?case
  proof (cases "q_session q = Some s \<and> q_id q = mid")
    case True
    have "\<exists>ps rs. q # qs = ps @ q # rs \<and> (\<forall>p \<in> set ps. q_session p \<noteq> Some s \<or> q_id p \<noteq> mid) \<and>
        (\<forall>b. due b (take_over q qs) = due b ps @ due (b + span ps + unat (q_t q)) rs)"
      by (rule exI [of _ "[]"], rule exI [of _ qs]) (simp add: take_over_due [OF Cons.prems])
    then show ?thesis
      using True take_over_due(2) [OF Cons.prems] by simp
  next
    case False
    obtain r qs' where rec: "coap_remove_from_queue qs s mid = (r, qs')" by fastforce
    have "span qs < 2 ^ 64" using Cons.prems by simp
    note IH = Cons.IH [OF this, unfolded rec prod.case]
    show ?thesis
    proof (cases r)
      case None
      then show ?thesis using IH False rec by auto
    next
      case (Some r')
      with IH obtain ps rs where s: "r' \<in> set qs" "q_session r' = Some s" "q_id r' = mid" "span qs' \<le> span qs" "qs = ps @ r' # rs"
        "\<forall>q \<in> set ps. q_session q \<noteq> Some s \<or> q_id q \<noteq> mid" "\<And>b. due b qs' = due b ps @ due (b + span ps + unat (q_t r')) rs"
        by auto
      have "\<exists>ps' rs'. q # qs = ps' @ r' # rs' \<and> (\<forall>p \<in> set ps'. q_session p \<noteq> Some s \<or> q_id p \<noteq> mid) \<and>
          (\<forall>b. due b (q # qs') = due b ps' @ due (b + span ps' + unat (q_t r')) rs')"
        by (rule exI [of _ "q # ps"], rule exI [of _ rs]) (use s(5,6,7) False in \<open>simp add: add.assoc\<close>)
      moreover have "coap_remove_from_queue (q # qs) s mid = (Some r', q # qs')" using rec Some False by auto
      ultimately show ?thesis using s(1-4) by simp
    qed
  qed
qed simp

lemma expire_nodes_all:
  "t \<le> dt \<Longrightarrow> span es < unat dt - unat t \<or> es = [] \<Longrightarrow> length es < 2 ^ 32 \<Longrightarrow> span es + unat t < 2 ^ 64 \<Longrightarrow>
    expire_nodes dt t (es @ qs) =
      (word_of_nat (length es) + fst (expire_nodes dt (t + word_of_nat (span es)) qs),
       map (\<lambda>q. q\<lparr>q_t := 0\<rparr>) es @ snd (expire_nodes dt (t + word_of_nat (span es)) qs))"
proof (induction es arbitrary: t)
  case (Cons e es)
  have sum: "unat (t + q_t e) = unat t + unat (q_t e)" using Cons.prems(4) by (simp add: unat_word_ariths)
  have less: "t + q_t e < dt" using Cons.prems(2) sum by (simp add: word_less_nat_alt)
  have "expire_nodes dt (t + q_t e) (es @ qs) =
      (word_of_nat (length es) + fst (expire_nodes dt (t + q_t e + word_of_nat (span es)) qs),
       map (\<lambda>q. q\<lparr>q_t := 0\<rparr>) es @ snd (expire_nodes dt (t + q_t e + word_of_nat (span es)) qs))"
    by (rule Cons.IH) (use Cons.prems less sum in \<open>auto simp: word_le_nat_alt\<close>)
  moreover have "t + q_t e + word_of_nat (span es) = t + word_of_nat (span (e # es))" by simp
  ultimately show ?case using less by (simp add: add.commute add.left_commute split: prod.split)
qed simp

section \<open>Properties\<close>

text \<open>C38: the queue keeps the deadlines, as long as the times in it add up to less than 2^64: \<open>coap_insert_node\<close> puts
  a node behind all that are due no later, without moving any other deadline, \<open>coap_pop_next\<close> takes the first, and
  \<open>coap_remove_from_queue\<close> takes the first node of the session and message id (no node in front
  of it is one), and leaves the nodes in front and the deadlines of all others; they are sorted throughout.\<close>

theorem queue_keeps_deadlines:
  assumes "span qs < 2 ^ 64"
  shows "due 0 (coap_insert_node qs n) = due_insert (q_addr n, unat (q_t n)) (due 0 qs) \<and>
    sorted (map snd (due 0 (coap_insert_node qs n))) \<and>
    coap_peek_next qs = fst (coap_pop_next qs) \<and> due 0 (snd (coap_pop_next qs)) = tl (due 0 qs) \<and>
    (case coap_remove_from_queue qs s mid of
       (None, qs') \<Rightarrow> qs' = qs \<and> (\<forall>q \<in> set qs. q_session q \<noteq> Some s \<or> q_id q \<noteq> mid)
     | (Some r, qs') \<Rightarrow> q_session r = Some s \<and> q_id r = mid \<and>
         (\<exists>ps rs d. qs = ps @ r # rs \<and> (\<forall>q \<in> set ps. q_session q \<noteq> Some s \<or> q_id q \<noteq> mid) \<and>
           due 0 qs = due 0 ps @ (q_addr r, d) # due d rs \<and> due 0 qs' = due 0 ps @ due d rs))"
proof -
  have pop: "due 0 (snd (coap_pop_next qs)) = tl (due 0 qs)"
  proof (cases qs)
    case (Cons q ps)
    then show ?thesis using take_over_due(1) [of q ps 0] assms by (simp add: coap_pop_next_def)
  qed (simp add: coap_pop_next_def)
  have remove: "case coap_remove_from_queue qs s mid of
       (None, qs') \<Rightarrow> qs' = qs \<and> (\<forall>q \<in> set qs. q_session q \<noteq> Some s \<or> q_id q \<noteq> mid)
     | (Some r, qs') \<Rightarrow> q_session r = Some s \<and> q_id r = mid \<and>
         (\<exists>ps rs d. qs = ps @ r # rs \<and> (\<forall>q \<in> set ps. q_session q \<noteq> Some s \<or> q_id q \<noteq> mid) \<and>
           due 0 qs = due 0 ps @ (q_addr r, d) # due d rs \<and> due 0 qs' = due 0 ps @ due d rs)"
  proof -
    obtain r qs' where rec: "coap_remove_from_queue qs s mid = (r, qs')" by fastforce
    note R = remove_from_queue_due [OF assms, of s mid, unfolded rec prod.case]
    show ?thesis
    proof (cases r)
      case (Some r')
      with R obtain ps rs where d: "q_session r' = Some s" "q_id r' = mid" "qs = ps @ r' # rs"
        "\<forall>q \<in> set ps. q_session q \<noteq> Some s \<or> q_id q \<noteq> mid"
        "due 0 qs' = due 0 ps @ due (0 + span ps + unat (q_t r')) rs" by auto
      have "due 0 qs = due 0 ps @ (q_addr r', span ps + unat (q_t r')) # due (span ps + unat (q_t r')) rs"
        by (simp add: d(3) due_append)
      then have "\<exists>ps rs d. qs = ps @ r' # rs \<and> (\<forall>q \<in> set ps. q_session q \<noteq> Some s \<or> q_id q \<noteq> mid) \<and>
           due 0 qs = due 0 ps @ (q_addr r', d) # due d rs \<and> due 0 qs' = due 0 ps @ due d rs"
        using d(3-5) by (intro exI [of _ ps] exI [of _ rs] exI [of _ "span ps + unat (q_t r')"]) simp
      then show ?thesis using d(1,2) rec Some by simp
    qed (use R rec in simp)
  qed
  have peek: "coap_peek_next qs = fst (coap_pop_next qs)"
    by (cases qs) (simp_all add: coap_peek_next_def coap_pop_next_def)
  show ?thesis
    using insert_node_due [of qs n] sorted_due [of 0 "coap_insert_node qs n"] pop remove peek by simp
qed

text \<open>Two nodes, due at 50 and 120, of session 9.\<close>

definition two_nodes :: "coap_queue list" where
  "two_nodes = [\<lparr>q_addr = 1, q_t = 50, retransmit_cnt = 0, is_mcast = False, q_timeout = 0, q_session = Some 9, q_id = 11, q_pdu = None\<rparr>,
     \<lparr>q_addr = 2, q_t = 70, retransmit_cnt = 0, is_mcast = False, q_timeout = 0, q_session = Some 9, q_id = 12, q_pdu = None\<rparr>]"

theorem queue_keeps_deadlines_witness:
  "due 0 (coap_insert_node two_nodes ((hd two_nodes)\<lparr>q_addr := 3, q_t := 100\<rparr>)) = [(1, 50), (3, 100), (2, 120)]"
proof -
  have "span two_nodes < 2 ^ 64" by (simp add: two_nodes_def)
  from queue_keeps_deadlines [OF this, of "(hd two_nodes)\<lparr>q_addr := 3, q_t := 100\<rparr>"] show ?thesis
    by (simp add: two_nodes_def)
qed

text \<open>\<open>coap_adjust_basetime\<close> with a time after the base: exactly the nodes whose deadlines have passed are
  counted and set to zero, but the first node that has not expired gets the time since its
  predecessor's deadline instead of the time left until its own, which is right only when these
  happen to be equal; all later deadlines move with it.\<close>

theorem adjust_basetime_deadline:
  assumes "sint (now - base) > 0" "span es < unat (now - base) \<or> es = []" "unat (now - base) \<le> span es + unat (q_t q)"
    and "span (es @ q # qs) < 2 ^ 64" "length es < 2 ^ 32"
  shows "\<exists>q'. coap_adjust_basetime base (es @ q # qs) now = (word_of_nat (length es), map (\<lambda>e. e\<lparr>q_t := 0\<rparr>) es @ q' # qs, now) \<and>
    unat (q_t q') = unat (now - base) - span es \<and>
    (unat (q_t q') = span es + unat (q_t q) - unat (now - base) \<longleftrightarrow> 2 * (unat (now - base) - span es) = unat (q_t q))"
proof -
  let ?d = "now - base"
  have small: "span es + unat (q_t q) < 2 ^ 64" using assms(4) by (simp add: span_def)
  then have es: "unat (word_of_nat (span es) :: u64) = span es" by (intro unat_of_nat_small) simp
  have pos: "0 < unat ?d"
  proof (rule ccontr)
    assume "\<not> 0 < unat ?d"
    then have "?d = 0" by (simp add: unat_eq_0)
    then show False using assms(1) by simp
  qed
  have le: "span es \<le> unat ?d" using assms(2) by (cases "es = []") auto
  have "unat (word_of_nat (span es) + q_t q) = span es + unat (q_t q)"
    using small es by (simp add: unat_word_ariths)
  then have stop: "\<not> word_of_nat (span es) + q_t q < ?d"
    using assms(3) by (simp add: word_less_nat_alt)
  have "expire_nodes ?d 0 (es @ q # qs) = (word_of_nat (length es), map (\<lambda>e. e\<lparr>q_t := 0\<rparr>) es @ q\<lparr>q_t := ?d - word_of_nat (span es)\<rparr> # qs)"
    using expire_nodes_all [of 0 ?d es "q # qs"] assms(2,5) small stop by simp
  moreover have "\<not> sint ?d \<le> 0" using assms(1) by simp
  ultimately have run: "coap_adjust_basetime base (es @ q # qs) now =
      (word_of_nat (length es), map (\<lambda>e. e\<lparr>q_t := 0\<rparr>) es @ q\<lparr>q_t := ?d - word_of_nat (span es)\<rparr> # qs, now)"
    by (cases es) (simp_all add: coap_adjust_basetime_def Let_def)
  have "unat (?d - word_of_nat (span es)) = unat ?d - span es"
    using le es unat_minus [of "word_of_nat (span es)" ?d] by (simp add: word_le_nat_alt)
  then show ?thesis using run assms(3) le by auto
qed

theorem adjust_basetime_deadline_witness:
  "\<exists>q'. coap_adjust_basetime 1000 two_nodes 1060 = (1, [(hd two_nodes)\<lparr>q_t := 0\<rparr>, q'], 1060) \<and> unat (q_t q') = 10 \<and> 50 + 70 - 60 \<noteq> unat (q_t q')"
proof -
  obtain e q where nodes: "two_nodes = [e] @ q # []" "unat (q_t e) = 50" "unat (q_t q) = 70" "hd two_nodes = e"
    by (simp add: two_nodes_def)
  moreover have "span two_nodes < 2 ^ 64" by (simp add: two_nodes_def)
  ultimately show ?thesis using adjust_basetime_deadline [of 1060 1000 "[e]" q "[]"] by auto
qed

end
