(* ===== verification/Coap_Transmit.thy ===== *)
theory Coap_Transmit
  imports Coap_Queue Coap_Roundtrip
begin

text \<open>
  Confirmable messages: sending, delaying, retransmission and acknowledgement
  (\<open>libcoap/src/coap_net.c\<close>, \<open>libcoap/src/coap_session.c\<close>).

  The state \<open>net\<close> is the context with its send queue and its sessions, which are
  identified by numbers; a freed session is absent, so that using it is a fault. A node in a queue is
  a value with an address; the number of the call that allocated it serves as its address.
  What lies outside the library is the environment \<open>net_env\<close>: the clock, random numbers, the
  allocator and the transport. Each of its calls gets a number of its own, so that the answers are arbitrary.
  The logs record what the transport and the application get to see.

  Sessions with block-wise transfers are not modelled: without them \<open>coap_check_update_token\<close>
  changes nothing.
\<close>

section \<open>State\<close>

datatype coap_session_state =
  COAP_SESSION_STATE_NONE | COAP_SESSION_STATE_CONNECTING | COAP_SESSION_STATE_HANDSHAKE |
  COAP_SESSION_STATE_CSM | COAP_SESSION_STATE_ESTABLISHED

datatype coap_nack_reason =
  COAP_NACK_TOO_MANY_RETRIES | COAP_NACK_NOT_DELIVERABLE | COAP_NACK_RST | COAP_NACK_TLS_FAILED |
  COAP_NACK_ICMP_ISSUE | COAP_NACK_BAD_RESPONSE | COAP_NACK_TLS_LAYER_FAILED | COAP_NACK_WS_LAYER_FAILED |
  COAP_NACK_WS_FAILED

text \<open>The events of \<open>coap_handle_event\<close> that occur here.\<close>

datatype coap_event =
  COAP_EVENT_TCP_CLOSED | COAP_EVENT_TCP_FAILED |
  COAP_EVENT_SESSION_CONNECTED | COAP_EVENT_SESSION_CLOSED | COAP_EVENT_SESSION_FAILED |
  COAP_EVENT_MSG_RETRANSMITTED

definition COAP_INVALID_MID :: int where "COAP_INVALID_MID = -1"
definition COAP_PDU_DELAYED :: int where "COAP_PDU_DELAYED = -3"
definition COAP_MESSAGE_CON :: u8 where "COAP_MESSAGE_CON = 0"
definition COAP_SOCKET_EMPTY :: u16 where "COAP_SOCKET_EMPTY = 0"
definition COAP_SOCKET_CONNECTED :: u16 where "COAP_SOCKET_CONNECTED = 4"
definition COAP_SOCKET_NOT_EMPTY :: u16 where "COAP_SOCKET_NOT_EMPTY = 1"
definition COAP_SOCKET_WANT_WRITE :: u16 where "COAP_SOCKET_WANT_WRITE = 0x20"
definition COAP_SOCKET_MULTICAST :: u16 where "COAP_SOCKET_MULTICAST = 0x1000"
definition COAP_OPTION_ECHO :: u16 where "COAP_OPTION_ECHO = 252"

lemmas transmit_consts = COAP_INVALID_MID_def COAP_PDU_DELAYED_def COAP_MESSAGE_CON_def COAP_SOCKET_EMPTY_def COAP_SOCKET_NOT_EMPTY_def
  COAP_SOCKET_WANT_WRITE_def COAP_SOCKET_MULTICAST_def COAP_OPTION_ECHO_def

text \<open>
  \<open>is_client\<close> is the test for \<open>COAP_SESSION_TYPE_CLIENT\<close>; \<open>tx_params\<close> holds the transmission
  parameters. The count of references is bounded by the memory, hence a natural number.
\<close>

record net_session = coap_session +
  is_client :: bool
  session_state :: coap_session_state
  ref :: nat
  sock_flags :: u16
  con_active :: u8
  delayqueue :: "coap_queue list"
  partial_write :: nat
  tx_params :: coap_params
  echo :: "bytes option"

record net =
  sendqueue :: "coap_queue list"
  sendqueue_basetime :: u64
  sessions :: "nat \<rightharpoonup> net_session"
  nack_handler :: bool
  ping_timeout :: u32
  calls :: nat
  sent_log :: "(nat \<times> bytes \<times> int) list"
  nack_log :: "(nat \<times> coap_pdu option \<times> coap_nack_reason \<times> int) list"
  event_log :: "(coap_event \<times> nat) list"
  freed_nodes :: "nat list"

text \<open>The clock, the random bytes, whether a node can be allocated, the transport, and what DTLS adds to a datagram.\<close>

record net_env =
  e_ticks :: "nat \<Rightarrow> u64"
  e_prng :: "nat \<Rightarrow> u8"
  e_node :: "nat \<Rightarrow> bool"
  e_write :: "nat \<Rightarrow> nat \<Rightarrow> bytes \<Rightarrow> int"
  e_overhead :: "nat \<Rightarrow> nat"

section \<open>Environment and sessions\<close>

definition env_call :: "(nat \<Rightarrow> 'a) \<Rightarrow> net \<Rightarrow> 'a \<times> net" where
  "env_call f n = (f (calls n), n\<lparr>calls := calls n + 1\<rparr>)"

definition put_session :: "nat \<Rightarrow> net_session \<Rightarrow> net \<Rightarrow> net" where
  "put_session sid s n = n\<lparr>sessions := (sessions n)(sid \<mapsto> s)\<rparr>"

definition coap_session_reference :: "nat \<Rightarrow> net \<Rightarrow> net option" where
  "coap_session_reference sid n = do {
     s \<leftarrow> sessions n sid;
     Some (put_session sid (s\<lparr>ref := ref s + 1\<rparr>) n)
   }"

definition handle_event :: "coap_event \<Rightarrow> nat \<Rightarrow> net \<Rightarrow> net" where
  "handle_event ev sid n = n\<lparr>event_log := event_log n @ [(ev, sid)]\<rparr>"

text \<open>
  \<open>context->nack_handler\<close>; the program's handlers are not modelled, only that they are called, with
  the message of a node or with no message.
\<close>

definition call_nack_handler :: "nat \<Rightarrow> coap_pdu option \<Rightarrow> coap_nack_reason \<Rightarrow> int \<Rightarrow> net \<Rightarrow> net" where
  "call_nack_handler sid pdu reason mid n =
     (if nack_handler n then n\<lparr>nack_log := nack_log n @ [(sid, pdu, reason, mid)]\<rparr> else n)"

definition nack :: "nat \<Rightarrow> coap_nack_reason \<Rightarrow> coap_queue \<Rightarrow> net \<Rightarrow> net option" where
  "nack sid reason q n = do {
     pdu \<leftarrow> q_pdu q;
     Some (if pdu_type pdu = COAP_MESSAGE_CON then call_nack_handler sid (Some pdu) reason (q_id q) n else n)
   }"

text \<open>
  The delayed messages of a session that goes away: each is reported, and its node freed. A node in the delay
  queue belongs to no session, so that freeing it releases none.
\<close>

fun free_delayed :: "nat \<Rightarrow> coap_nack_reason \<Rightarrow> coap_queue list \<Rightarrow> net \<Rightarrow> net option" where
  "free_delayed sid reason [] n = Some n"
| "free_delayed sid reason (q # qs) n = do {
     n \<leftarrow> nack sid reason q n;
     c_assert (q_session q = None);
     free_delayed sid reason qs (n\<lparr>freed_nodes := freed_nodes n @ [q_addr q]\<rparr>)
   }"

text \<open>Of the socket, the keys and the caches that \<open>coap_session_mfree\<close> also frees nothing is modelled.\<close>

definition coap_session_free :: "nat \<Rightarrow> net \<Rightarrow> net option" where
  "coap_session_free sid n = do {
     s \<leftarrow> sessions n sid;
     c_assert (ref s = 0);
     n \<leftarrow> free_delayed sid (if proto s = COAP_PROTO_DTLS then COAP_NACK_TLS_FAILED else COAP_NACK_NOT_DELIVERABLE) (delayqueue s) n;
     Some (n\<lparr>sessions := (sessions n)(sid := None)\<rparr>)
   }"

definition coap_session_release :: "nat \<Rightarrow> net \<Rightarrow> net option" where
  "coap_session_release sid n = do {
     s \<leftarrow> sessions n sid;
     c_assert (0 < ref s);
     let s = s\<lparr>ref := ref s - 1\<rparr>;
     if ref s = 0 \<and> is_client s then coap_session_free sid (put_session sid s n) else Some (put_session sid s n)
   }"

definition coap_session_set_mtu :: "net_session \<Rightarrow> nat \<Rightarrow> net_session" where
  "coap_session_set_mtu s m =
     (let s = s\<lparr>mtu := max m 64\<rparr> in if tls_overhead s \<ge> mtu s then s\<lparr>tls_overhead := mtu s\<rparr> else s)"

text \<open>\<open>coap_malloc_node\<close>, with the address it returns.\<close>

definition coap_malloc_node :: "net_env \<Rightarrow> net \<Rightarrow> nat option \<times> net" where
  "coap_malloc_node e n = env_call (\<lambda>k. if e_node e k then Some k else None) n"

section \<open>Nodes\<close>

text \<open>\<open>LL_DELETE\<close>: the node with that address is taken out; the times of the others stay.\<close>

fun ll_delete :: "nat \<Rightarrow> coap_queue list \<Rightarrow> coap_queue list" where
  "ll_delete a [] = []"
| "ll_delete a (q # qs) = (if q_addr q = a then qs else q # ll_delete a qs)"

definition coap_delete_node :: "coap_queue \<Rightarrow> net \<Rightarrow> net option" where
  "coap_delete_node node n = do {
     n \<leftarrow> (case q_session node of
            None \<Rightarrow> Some n
          | Some sid \<Rightarrow> do {
              _ \<leftarrow> sessions n sid;
              coap_session_release sid (n\<lparr>sendqueue := ll_delete (q_addr node) (sendqueue n)\<rparr>)
            });
     Some (n\<lparr>freed_nodes := freed_nodes n @ [q_addr node]\<rparr>)
   }"

fun coap_delete_all :: "coap_queue list \<Rightarrow> net \<Rightarrow> net option" where
  "coap_delete_all [] n = Some n"
| "coap_delete_all (q # qs) n = do {
     n \<leftarrow> coap_delete_all qs n;
     coap_delete_node q n
   }"

section \<open>Sending\<close>

text \<open>The bytes from \<open>token - hdr_size\<close> on must lie in the message's block.\<close>

definition sendable :: "coap_pdu \<Rightarrow> bool" where
  "sendable pdu \<longleftrightarrow> 0 < hdr_size pdu \<and> hdr_size pdu \<le> max_hdr_size pdu \<and> max_hdr_size pdu = length (hdr pdu) \<and>
     used_size pdu \<le> length (mem pdu)"

definition coap_session_send_pdu :: "net_env \<Rightarrow> nat \<Rightarrow> coap_pdu \<Rightarrow> net \<Rightarrow> (int \<times> net) option" where
  "coap_session_send_pdu e sid pdu n = do {
     c_assert (sendable pdu);
     _ \<leftarrow> sessions n sid;
     let (bytes_written, n) = env_call (\<lambda>k. e_write e k sid (wire pdu)) n;
     Some (bytes_written, n\<lparr>sent_log := sent_log n @ [(sid, wire pdu, bytes_written)]\<rparr>)
   }"

definition is_con :: "net_session \<Rightarrow> coap_pdu \<Rightarrow> bool" where
  "is_con s pdu \<longleftrightarrow> pdu_type pdu = COAP_MESSAGE_CON \<and> COAP_PROTO_NOT_RELIABLE (proto s)"

text \<open>The end of \<open>coap_session_delay_pdu\<close>.\<close>

definition delay_append :: "nat \<Rightarrow> coap_queue \<Rightarrow> net \<Rightarrow> (int \<times> net) option" where
  "delay_append sid node n = do {
     s \<leftarrow> sessions n sid;
     Some (COAP_PDU_DELAYED, put_session sid (s\<lparr>delayqueue := delayqueue s @ [node]\<rparr>) n)
   }"

definition coap_session_delay_pdu ::
  "net_env \<Rightarrow> nat \<Rightarrow> coap_pdu \<Rightarrow> coap_queue option \<Rightarrow> net \<Rightarrow> (int \<times> net) option" where
  "coap_session_delay_pdu e sid pdu nodep n = do {
     s \<leftarrow> sessions n sid;
     case nodep of
       Some node \<Rightarrow> do {
         let (removed, queue) = coap_remove_from_queue (sendqueue n) sid (q_id node);
         r \<leftarrow> removed;
         c_assert (q_addr r = q_addr node);
         n \<leftarrow> coap_session_release sid (n\<lparr>sendqueue := queue\<rparr>);
         delay_append sid (r\<lparr>q_session := None, q_t := 0\<rparr>) n
       }
     | None \<Rightarrow>
         if COAP_PROTO_NOT_RELIABLE (proto s) \<and> list_ex (\<lambda>q. q_id q = uint (pdu_mid pdu)) (delayqueue s)
         then Some (COAP_INVALID_MID, n)
         else (let (block, n) = coap_malloc_node e n in
           case coap_new_node block of
             None \<Rightarrow> Some (COAP_INVALID_MID, n)
           | Some node \<Rightarrow>
               (let node = node\<lparr>q_id := uint (pdu_mid pdu), q_pdu := Some pdu\<rparr> in
                if is_con s pdu
                then (let (r, n) = env_call (e_prng e) n in
                      delay_append sid (node\<lparr>q_timeout := coap_calc_timeout (tx_params s) r\<rparr>) n)
                else delay_append sid node n))
   }"

definition flag_set :: "net_session \<Rightarrow> u16 \<Rightarrow> bool" where
  "flag_set s f \<longleftrightarrow> sock_flags s AND f \<noteq> 0"

definition coap_send_pdu :: "net_env \<Rightarrow> nat \<Rightarrow> coap_pdu \<Rightarrow> coap_queue option \<Rightarrow> net \<Rightarrow> (int \<times> net) option" where
  "coap_send_pdu e sid pdu node n = do {
     s \<leftarrow> sessions n sid;
     if session_state s = COAP_SESSION_STATE_NONE \<and> \<not> is_client s then Some (-1, n)
     else if pdu_type pdu = COAP_MESSAGE_CON \<and> flag_set s COAP_SOCKET_NOT_EMPTY \<and> flag_set s COAP_SOCKET_MULTICAST
     then Some (-1, n)
     else if session_state s \<noteq> COAP_SESSION_STATE_ESTABLISHED \<or>
       (pdu_type pdu = COAP_MESSAGE_CON \<and> unat (con_active s) \<ge> unat (nstart (tx_params s)))
     then coap_session_delay_pdu e sid pdu node n
     else if flag_set s COAP_SOCKET_NOT_EMPTY \<and> flag_set s COAP_SOCKET_WANT_WRITE
     then coap_session_delay_pdu e sid pdu node n
     else do {
       (bytes_written, n) \<leftarrow> coap_session_send_pdu e sid pdu n;
       s \<leftarrow> sessions n sid;
       Some (bytes_written, if bytes_written \<ge> 0 \<and> is_con s pdu then put_session sid (s\<lparr>con_active := con_active s + 1\<rparr>) n else n)
     }
   }"

text \<open>
  A node goes into the queue at the time \<open>now\<close>, to be due \<open>d\<close> later; an empty queue starts
  at that time. \<open>coap_wait_ack\<close> and \<open>coap_retransmit\<close> both do this.
\<close>

definition base_at :: "u64 \<Rightarrow> net \<Rightarrow> u64" where
  "base_at now n = (if sendqueue n = [] then now else sendqueue_basetime n)"

definition enqueue :: "u64 \<Rightarrow> u64 \<Rightarrow> coap_queue \<Rightarrow> net \<Rightarrow> net" where
  "enqueue now d node n =
     (let base = base_at now n; t = (if sendqueue n = [] then d else (now - base) + d)
      in n\<lparr>sendqueue_basetime := base, sendqueue := coap_insert_node (sendqueue n) (node\<lparr>q_t := t\<rparr>)\<rparr>)"

text \<open>The shift of the \<open>unsigned int\<close> timeout; shifting by 32 and more has no meaning.\<close>

definition coap_wait_ack :: "net_env \<Rightarrow> nat \<Rightarrow> coap_queue \<Rightarrow> net \<Rightarrow> (int \<times> net) option" where
  "coap_wait_ack e sid node n = do {
     n \<leftarrow> coap_session_reference sid n;
     let node = node\<lparr>q_session := Some sid\<rparr>;
     let (now, n) = env_call (e_ticks e) n;
     c_assert (unat (retransmit_cnt node) < 32);
     let wait = push_bit (unat (retransmit_cnt node)) (q_timeout node);
     Some (q_id node, enqueue now (ucast wait) node n)
   }"

section \<open>Flushing the delayed messages\<close>

text \<open>One round of the loop of \<open>coap_session_connected\<close>; the first component says whether it goes on.\<close>

definition connected_step :: "net_env \<Rightarrow> nat \<Rightarrow> bool \<times> net \<Rightarrow> (bool \<times> net) option" where
  "connected_step e sid = (\<lambda>(_, n). do {
     s \<leftarrow> sessions n sid;
     case delayqueue s of
       [] \<Rightarrow> None
     | q # qs \<Rightarrow> do {
         pdu \<leftarrow> q_pdu q;
         if is_con s pdu \<and> unat (con_active s) \<ge> unat (nstart (tx_params s)) then Some (False, n)
         else do {
           let s = (if is_con s pdu then s\<lparr>con_active := con_active s + 1\<rparr> else s)\<lparr>delayqueue := qs\<rparr>;
           (bytes_written, n) \<leftarrow> coap_session_send_pdu e sid pdu (put_session sid s n);
           (kept, n) \<leftarrow>
             (if is_con s pdu then do {
                (mid, n) \<leftarrow> coap_wait_ack e sid q n;
                Some (if mid \<ge> 0 then None else Some (q\<lparr>q_session := Some sid\<rparr>), n)
              }
              else Some (Some q, n));
           if COAP_PROTO_NOT_RELIABLE (proto s) then do {
             n \<leftarrow> (case kept of None \<Rightarrow> Some n | Some q \<Rightarrow> coap_delete_node q n);
             Some (bytes_written \<ge> 0, n)
           }
           else if bytes_written \<le> 0 \<or> nat bytes_written < used_size pdu + hdr_size pdu then do {
             s \<leftarrow> sessions n sid;
             let s = s\<lparr>delayqueue := q # delayqueue s\<rparr>;
             Some (False, put_session sid (if bytes_written > 0 then s\<lparr>partial_write := nat bytes_written\<rparr> else s) n)
           }
           else do {
             n \<leftarrow> coap_delete_node q n;
             Some (True, n)
           }
         }
       }
   })"

definition more_delayed :: "nat \<Rightarrow> bool \<times> net \<Rightarrow> bool" where
  "more_delayed sid = (\<lambda>(go_on, n). go_on \<and>
     (case sessions n sid of None \<Rightarrow> True | Some s \<Rightarrow> delayqueue s \<noteq> [] \<and> session_state s = COAP_SESSION_STATE_ESTABLISHED))"

definition coap_session_connected :: "net_env \<Rightarrow> nat \<Rightarrow> net \<Rightarrow> net option" where
  "coap_session_connected e sid n = do {
     s \<leftarrow> sessions n sid;
     let csm = (session_state s = COAP_SESSION_STATE_CSM);
     let n = (if csm then handle_event COAP_EVENT_SESSION_CONNECTED sid n else n);
     let s = (if csm then s\<lparr>doing_first := False\<rparr> else s);
     let s = s\<lparr>session_state := COAP_SESSION_STATE_ESTABLISHED, partial_write := 0\<rparr>;
     let (s, n) = (if proto s = COAP_PROTO_DTLS
       then (let (k, n) = env_call (e_overhead e) n in (s\<lparr>tls_overhead := min k (mtu s)\<rparr>, n)) else (s, n));
     (_, n) \<leftarrow> c_while (more_delayed sid) (connected_step e sid) (True, put_session sid s n);
     Some n
   }"

text \<open>\<open>if (session->con_active) session->con_active--;\<close> and, in an established session, the flush.\<close>

definition con_done :: "net_env \<Rightarrow> nat \<Rightarrow> net \<Rightarrow> net option" where
  "con_done e sid n = do {
     s \<leftarrow> sessions n sid;
     if con_active s \<noteq> 0 then do {
       let n = put_session sid (s\<lparr>con_active := con_active s - 1\<rparr>) n;
       if session_state s = COAP_SESSION_STATE_ESTABLISHED then coap_session_connected e sid n else Some n
     }
     else Some n
   }"

section \<open>Entry points\<close>

text \<open>
  \<open>coap_send_internal\<close> of a message other than a 5.08 response, which only proxies send, in a
  session without OSCORE; the Echo option of the server is inserted into the next message.
\<close>

definition coap_send_internal :: "net_env \<Rightarrow> heap \<Rightarrow> nat \<Rightarrow> coap_pdu \<Rightarrow> net \<Rightarrow> (int \<times> net) option" where
  "coap_send_internal e h sid pdu n = do {
     let pdu = pdu\<lparr>session := Some sid\<rparr>;
     c_assert (pdu_code pdu \<noteq> COAP_RESPONSE_CODE 508);
     s \<leftarrow> sessions n sid;
     (ok, pdu, n) \<leftarrow>
       (case echo s of
          None \<Rightarrow> Some (True, pdu, n)
        | Some v \<Rightarrow> do {
            (k, pdu) \<leftarrow> coap_insert_option h pdu COAP_OPTION_ECHO (length v) (Some v);
            Some (k \<noteq> 0, pdu, if k \<noteq> 0 then put_session sid (s\<lparr>echo := None\<rparr>) n else n)
          });
     if \<not> ok then Some (COAP_INVALID_MID, n)
     else do {
       (k, pdu) \<leftarrow> coap_pdu_encode_header pdu (proto s);
       if k = 0 then Some (COAP_INVALID_MID, n)
       else do {
         (bytes_written, n) \<leftarrow> coap_send_pdu e sid pdu None n;
         if bytes_written = COAP_PDU_DELAYED then Some (uint (pdu_mid pdu), n)
         else if bytes_written < 0 then Some (COAP_INVALID_MID, n)
         else if COAP_PROTO_RELIABLE (proto s) \<and> nat bytes_written < used_size pdu + hdr_size pdu then do {
           (r, n) \<leftarrow> coap_session_delay_pdu e sid pdu None n;
           if r = COAP_PDU_DELAYED then do {
             s \<leftarrow> sessions n sid;
             Some (uint (pdu_mid pdu), put_session sid (s\<lparr>partial_write := nat bytes_written\<rparr>) n)
           }
           else Some (COAP_INVALID_MID, n)
         }
         else if pdu_type pdu \<noteq> COAP_MESSAGE_CON \<or> COAP_PROTO_RELIABLE (proto s) then Some (uint (pdu_mid pdu), n)
         else (let (block, n) = coap_malloc_node e n in
           case coap_new_node block of
             None \<Rightarrow> Some (COAP_INVALID_MID, n)
           | Some node \<Rightarrow> do {
               s \<leftarrow> sessions n sid;
               let (r, n) = env_call (e_prng e) n;
               coap_wait_ack e sid (node\<lparr>q_id := uint (pdu_mid pdu), q_pdu := Some pdu, q_timeout := coap_calc_timeout (tx_params s) r\<rparr>) n
             })
       }
     }
   }"

text \<open>The delay until the next retransmission, cut to the ping timeout when one is set.\<close>

definition next_delay :: "net_env \<Rightarrow> coap_queue \<Rightarrow> net \<Rightarrow> (u64 \<times> net) option" where
  "next_delay e node n = do {
     c_assert (unat (retransmit_cnt node) < 64);
     let delay = push_bit (unat (retransmit_cnt node)) (ucast (q_timeout node) :: u64);
     let ping = ucast (ping_timeout n) * COAP_TICKS_PER_SECOND;
     Some (if ping_timeout n \<noteq> 0 \<and> ping < delay
           then (let (byte, n) = env_call (e_prng e) n in (ping - 255 + ucast byte, n)) else (delay, n))
   }"

text \<open>
  \<open>coap_retransmit\<close> of a node that has been taken from the queue. A notification, whose code is 64 or
  more, also cancels its subscription when it is given up; that is not modelled.
\<close>

definition coap_retransmit :: "net_env \<Rightarrow> coap_queue \<Rightarrow> net \<Rightarrow> (int \<times> net) option" where
  "coap_retransmit e node n = do {
     sid \<leftarrow> q_session node;
     s \<leftarrow> sessions n sid;
     pdu \<leftarrow> q_pdu node;
     if unat (retransmit_cnt node) < unat (max_retransmit (tx_params s)) then do {
       let node = node\<lparr>retransmit_cnt := retransmit_cnt node + 1\<rparr>;
       let n = handle_event COAP_EVENT_MSG_RETRANSMITTED sid n;
       (delay, n) \<leftarrow> next_delay e node n;
       let (now, n) = env_call (e_ticks e) n;
       let n = enqueue now delay node n;
       let n = (if con_active s \<noteq> 0 then put_session sid (s\<lparr>con_active := con_active s - 1\<rparr>) n else n);
       (bytes_written, n) \<leftarrow> coap_send_pdu e sid pdu (Some node) n;
       if is_mcast node then do {
         n \<leftarrow> coap_session_connected e sid n;
         c_assert (q_addr node \<notin> set (freed_nodes n));
         n \<leftarrow> coap_delete_node (if bytes_written = COAP_PDU_DELAYED then node\<lparr>q_session := None\<rparr> else node) n;
         Some (COAP_INVALID_MID, n)
       }
       else if bytes_written = COAP_PDU_DELAYED then Some (q_id node, n)
       else if bytes_written < 0 then Some (bytes_written, n)
       else Some (q_id node, n)
     }
     else do {
       c_assert (pdu_code pdu < 64);
       n \<leftarrow> con_done e sid n;
       n \<leftarrow> nack sid COAP_NACK_TOO_MANY_RETRIES node n;
       n \<leftarrow> coap_delete_node node n;
       Some (COAP_INVALID_MID, n)
     }
   }"

text \<open>The loop at the start of \<open>coap_io_prepare_io\<close>: what is due at \<open>now\<close> is retransmitted.\<close>

definition node_due :: "u64 \<Rightarrow> net \<Rightarrow> bool" where
  "node_due now n = (case coap_peek_next (sendqueue n) of None \<Rightarrow> False
     | Some q \<Rightarrow> sendqueue_basetime n \<le> now \<and> q_t q \<le> now - sendqueue_basetime n)"

definition retransmit_first :: "net_env \<Rightarrow> net \<Rightarrow> net option" where
  "retransmit_first e n = do {
     let (node, queue) = coap_pop_next (sendqueue n);
     q \<leftarrow> node;
     (_, n) \<leftarrow> coap_retransmit e q (n\<lparr>sendqueue := queue\<rparr>);
     Some n
   }"

definition retransmit_due :: "net_env \<Rightarrow> u64 \<Rightarrow> net \<Rightarrow> net option" where
  "retransmit_due e now = c_while (node_due now) (retransmit_first e)"

text \<open>
  \<open>coap_io_prepare_io\<close> of a client that has neither DTLS nor block-wise transfers nor keep-alive pings:
  it returns after how many milliseconds it wants to be called again, and 0 when nothing waits.
\<close>

definition prepare_io :: "net_env \<Rightarrow> u64 \<Rightarrow> net \<Rightarrow> (u32 \<times> net) option" where
  "prepare_io e now n = do {
     n \<leftarrow> retransmit_due e now n;
     let timeout = (case coap_peek_next (sendqueue n) of None \<Rightarrow> 0 | Some q \<Rightarrow> q_t q - (now - sendqueue_basetime n));
     Some (ucast ((timeout * 1000 + COAP_TICKS_PER_SECOND - 1) div COAP_TICKS_PER_SECOND), n)
   }"

text \<open>What \<open>coap_dispatch\<close> does for an acknowledgement that needs no further handling.\<close>

definition dispatch_ack :: "net_env \<Rightarrow> nat \<Rightarrow> u16 \<Rightarrow> net \<Rightarrow> net option" where
  "dispatch_ack e sid mid n =
     (case coap_remove_from_queue (sendqueue n) sid (uint mid) of
        (None, queue) \<Rightarrow> Some (n\<lparr>sendqueue := queue\<rparr>)
      | (Some node, queue) \<Rightarrow> do {
          n \<leftarrow> con_done e sid (n\<lparr>sendqueue := queue\<rparr>);
          coap_delete_node node n
        })"

section \<open>Cancelling\<close>

definition cancel_node :: "nat \<Rightarrow> coap_nack_reason \<Rightarrow> coap_queue \<Rightarrow> net \<Rightarrow> net option" where
  "cancel_node sid reason q n = do { n \<leftarrow> nack sid reason q n; coap_delete_node q n }"

definition cancel_heads :: "nat \<Rightarrow> coap_nack_reason \<Rightarrow> net \<Rightarrow> net option" where
  "cancel_heads sid reason = c_while (\<lambda>n. case sendqueue n of [] \<Rightarrow> False | q # _ \<Rightarrow> q_session q = Some sid)
     (\<lambda>n. case sendqueue n of [] \<Rightarrow> None | q # qs \<Rightarrow> cancel_node sid reason q (n\<lparr>sendqueue := qs\<rparr>))"

text \<open>The second loop: \<open>ps\<close> ends with the node \<open>p\<close> of the code.\<close>

fun cancel_behind :: "nat \<Rightarrow> coap_nack_reason \<Rightarrow> coap_queue list \<Rightarrow> coap_queue list \<Rightarrow> net \<Rightarrow> net option" where
  "cancel_behind sid reason ps [] n = Some n"
| "cancel_behind sid reason ps (q # qs) n =
     (if q_session q = Some sid then do {
        n \<leftarrow> cancel_node sid reason q (n\<lparr>sendqueue := ps @ qs\<rparr>);
        cancel_behind sid reason ps qs n
      }
      else cancel_behind sid reason (ps @ [q]) qs n)"

definition coap_cancel_session_messages :: "nat \<Rightarrow> coap_nack_reason \<Rightarrow> net \<Rightarrow> net option" where
  "coap_cancel_session_messages sid reason n = do {
     n \<leftarrow> cancel_heads sid reason n;
     case sendqueue n of
       [] \<Rightarrow> Some n
     | p # qs \<Rightarrow> cancel_behind sid reason [p] qs n
   }"

text \<open>
  \<open>coap_cancel_all_messages\<close>: the messages of the session with that token. The pointer \<open>p\<close> of the code is the
  link behind the node \<open>prev\<close>, or the head of the queue; the flush may put nodes into the queue while it is held.
\<close>

fun behind :: "nat option \<Rightarrow> coap_queue list \<Rightarrow> coap_queue list option" where
  "behind None qs = Some qs"
| "behind (Some a) [] = None"
| "behind (Some a) (q # qs) = (if q_addr q = a then Some qs else behind (Some a) qs)"

definition cancel_token_step :: "net_env \<Rightarrow> nat \<Rightarrow> bytes \<Rightarrow> nat option \<times> net \<Rightarrow> (nat option \<times> net) option" where
  "cancel_token_step e sid token = (\<lambda>(prev, n). do {
     qs \<leftarrow> behind prev (sendqueue n);
     case qs of
       [] \<Rightarrow> None
     | q # _ \<Rightarrow>
         if q_session q \<noteq> Some sid then Some (Some (q_addr q), n)
         else do {
           pdu \<leftarrow> q_pdu q;
           t \<leftarrow> coap_pdu_get_token pdu;
           if t = token then do {
             let n = n\<lparr>sendqueue := ll_delete (q_addr q) (sendqueue n)\<rparr>;
             n \<leftarrow> (if pdu_type pdu = COAP_MESSAGE_CON then con_done e sid n else Some n);
             n \<leftarrow> coap_delete_node q n;
             Some (prev, n)
           }
           else Some (Some (q_addr q), n)
         }
   })"

definition coap_cancel_all_messages :: "net_env \<Rightarrow> nat \<Rightarrow> bytes \<Rightarrow> net \<Rightarrow> net option" where
  "coap_cancel_all_messages e sid token n = do {
     (_, n) \<leftarrow> c_while (\<lambda>(prev, n). behind prev (sendqueue n) \<noteq> Some []) (cancel_token_step e sid token) (None, n);
     Some n
   }"

text \<open>
  What \<open>coap_dispatch\<close> does for a reset, of a client without resources, that answers neither a ping nor a
  test of the token length.
\<close>

definition dispatch_rst :: "net_env \<Rightarrow> nat \<Rightarrow> u16 \<Rightarrow> net \<Rightarrow> net option" where
  "dispatch_rst e sid mid n = do {
     n \<leftarrow> con_done e sid n;
     case coap_remove_from_queue (sendqueue n) sid (uint mid) of
       (None, queue) \<Rightarrow> Some (call_nack_handler sid None COAP_NACK_RST (uint mid) (n\<lparr>sendqueue := queue\<rparr>))
     | (Some node, queue) \<Rightarrow> cancel_node sid COAP_NACK_RST node (n\<lparr>sendqueue := queue\<rparr>)
   }"

section \<open>Disconnecting\<close>

text \<open>An error that is reported for the socket: the first message under way is taken for its cause.\<close>

definition icmp_issue :: "nat \<Rightarrow> net \<Rightarrow> net option" where
  "icmp_issue sid n =
     (if nack_handler n then
        (case find (\<lambda>q. q_session q = Some sid) (sendqueue n) of
           Some q \<Rightarrow> do { pdu \<leftarrow> q_pdu q; Some (call_nack_handler sid (Some pdu) COAP_NACK_ICMP_ISSUE (q_id q) n) }
         | None \<Rightarrow> Some (call_nack_handler sid None COAP_NACK_ICMP_ISSUE 0 n))
      else Some n)"

text \<open>The events of a session over a stream that was in the state \<open>state\<close>.\<close>

definition stream_closed :: "coap_session_state \<Rightarrow> nat \<Rightarrow> net \<Rightarrow> net option" where
  "stream_closed state sid n = do {
     s \<leftarrow> sessions n sid;
     let n = (if sock_flags s \<noteq> COAP_SOCKET_EMPTY
       then handle_event (if state = COAP_SESSION_STATE_CONNECTING then COAP_EVENT_TCP_FAILED else COAP_EVENT_TCP_CLOSED) sid n else n);
     let n = (if state \<noteq> COAP_SESSION_STATE_NONE
       then handle_event (if state = COAP_SESSION_STATE_ESTABLISHED then COAP_EVENT_SESSION_CLOSED else COAP_EVENT_SESSION_FAILED) sid n else n);
     Some (put_session sid (s\<lparr>doing_first := False\<rparr>) n)
   }"

text \<open>\<open>coap_session_disconnected\<close> of a session without observers; of the socket that is closed at the end, its flags.\<close>

definition coap_session_disconnected :: "nat \<Rightarrow> coap_nack_reason \<Rightarrow> net \<Rightarrow> net option" where
  "coap_session_disconnected sid reason n = do {
     s \<leftarrow> sessions n sid;
     if reason = COAP_NACK_ICMP_ISSUE then icmp_issue sid n
     else do {
       let state = session_state s;
       let reliable = COAP_PROTO_RELIABLE (proto s);
       let s' = s\<lparr>session_state := if proto s = COAP_PROTO_UDP then COAP_SESSION_STATE_ESTABLISHED else COAP_SESSION_STATE_NONE,
         con_active := 0, delayqueue := []\<rparr>;
       n \<leftarrow> free_delayed sid reason (delayqueue s) (put_session sid s' n);
       n \<leftarrow> coap_cancel_session_messages sid reason n;
       n \<leftarrow> (if reliable then stream_closed state sid n else Some n);
       s \<leftarrow> sessions n sid;
       Some (put_session sid (s\<lparr>sock_flags := COAP_SOCKET_EMPTY\<rparr>) n)
     }
   }"

section \<open>Writing to a stream\<close>

text \<open>One round of the loop of \<open>coap_write_session\<close>; the first component says whether it goes on.\<close>

definition write_session_step :: "net_env \<Rightarrow> nat \<Rightarrow> bool \<times> net \<Rightarrow> (bool \<times> net) option" where
  "write_session_step e sid = (\<lambda>(_, n). do {
     s \<leftarrow> sessions n sid;
     case delayqueue s of
       [] \<Rightarrow> None
     | q # qs \<Rightarrow> do {
         pdu \<leftarrow> q_pdu q;
         c_assert (sendable pdu);
         c_assert (partial_write s < used_size pdu + hdr_size pdu);
         let rest = drop (partial_write s) (wire pdu);
         let (bytes_written, n) = env_call (\<lambda>k. e_write e k sid rest) n;
         let n = n\<lparr>sent_log := sent_log n @ [(sid, rest, bytes_written)]\<rparr>;
         if bytes_written \<le> 0 \<or> nat bytes_written < used_size pdu + hdr_size pdu - partial_write s
         then Some (False, if bytes_written > 0 then put_session sid (s\<lparr>partial_write := partial_write s + nat bytes_written\<rparr>) n else n)
         else do {
           n \<leftarrow> coap_delete_node q (put_session sid (s\<lparr>delayqueue := qs, partial_write := 0\<rparr>) n);
           Some (True, n)
         }
       }
   })"

definition coap_write_session :: "net_env \<Rightarrow> nat \<Rightarrow> net \<Rightarrow> net option" where
  "coap_write_session e sid n = do {
     s \<leftarrow> sessions n sid;
     c_assert (flag_set s COAP_SOCKET_CONNECTED);
     (_, n) \<leftarrow> c_while (\<lambda>(go_on, n). go_on \<and> (case sessions n sid of None \<Rightarrow> True | Some s \<Rightarrow> delayqueue s \<noteq> []))
       (write_session_step e sid) (True, n);
     Some n
   }"

end
