(* ===== verification/Coap_Active.thy ===== *)
theory Coap_Active
  imports Coap_Transmit "HOL-Library.Multiset"
begin

text \<open>
  Confirmable messages under way (\<open>Coap_Transmit\<close>). The invariant \<open>net_inv\<close> ties the counters of a
  session to the send queue; sending, acknowledging and retransmitting keep it and do not fault, in an
  environment where writes and allocations succeed.
\<close>

section \<open>The nodes of a queue, without their times\<close>

text \<open>Inserting and removing a node changes the times of others, and nothing else of them.\<close>

definition core :: "coap_queue \<Rightarrow> coap_queue" where
  "core q = q\<lparr>q_t := 0\<rparr>"

lemma core_simps [simp]:
  "q_addr (core q) = q_addr q" "retransmit_cnt (core q) = retransmit_cnt q" "is_mcast (core q) = is_mcast q"
  "q_timeout (core q) = q_timeout q" "q_session (core q) = q_session q" "q_id (core q) = q_id q" "q_pdu (core q) = q_pdu q"
  "core (q\<lparr>q_t := t\<rparr>) = core q" "core (core q) = core q"
  by (simp_all add: core_def)

definition cores :: "coap_queue list \<Rightarrow> coap_queue multiset" where
  "cores qs = mset (map core qs)"

lemma cores_simps [simp]:
  "cores [] = {#}" "cores (q # qs) = add_mset (core q) (cores qs)" "cores (ps @ qs) = cores ps + cores qs"
  by (simp_all add: cores_def)

lemma cores_insert_behind [simp]: "cores (insert_behind qs q) = add_mset (core q) (cores qs)"
  by (induction qs arbitrary: q) (simp_all add: add_mset_commute)

lemma cores_insert [simp]: "cores (coap_insert_node qs q) = add_mset (core q) (cores qs)"
  by (cases qs) (simp_all add: coap_insert_node_def add_mset_commute)

lemma cores_take_over [simp]: "cores (take_over q qs) = cores qs"
  by (cases qs) (simp_all add: take_over_def)

lemma cores_remove:
  "coap_remove_from_queue qs sid mid = (Some r, qs') \<Longrightarrow>
    cores qs = add_mset (core r) (cores qs') \<and> q_session r = Some sid \<and> q_id r = mid"
proof (induction qs arbitrary: qs')
  case (Cons q qs)
  show ?case
  proof (cases "q_session q = Some sid \<and> q_id q = mid")
    case True
    then have "q = r" "qs' = take_over q qs" using Cons.prems by auto
    then show ?thesis using True by simp
  next
    case False
    then obtain ps where "coap_remove_from_queue qs sid mid = (Some r, ps)" "qs' = q # ps"
      using Cons.prems by (auto simp: Let_def split: prod.splits)
    then show ?thesis using Cons.IH [of ps] by (simp add: add_mset_commute)
  qed
qed simp

lemma remove_none: "coap_remove_from_queue qs sid mid = (None, qs') \<Longrightarrow> qs' = qs"
  by (induction qs arbitrary: qs') (auto simp: Let_def split: prod.splits if_splits)

text \<open>What only looks at the nodes without their times.\<close>

lemma cores_addrs: "mset (map q_addr qs) = image_mset q_addr (cores qs)"
  by (induction qs) simp_all

lemma cores_ball: "(\<And>q. P (core q) = P q) \<Longrightarrow> (\<forall>q \<in># cores qs. P q) \<longleftrightarrow> (\<forall>q \<in> set qs. P q)"
  by (induction qs) auto

definition outstanding :: "nat \<Rightarrow> coap_queue list \<Rightarrow> nat" where
  "outstanding sid qs = length (filter (\<lambda>q. q_session q = Some sid) qs)"

lemma outstanding_simps [simp]:
  "outstanding sid [] = 0"
  "outstanding sid (q # qs) = (if q_session q = Some sid then 1 else 0) + outstanding sid qs"
  "outstanding sid (ps @ qs) = outstanding sid ps + outstanding sid qs"
  by (simp_all add: outstanding_def)

lemma outstanding_cores: "outstanding sid qs = size (filter_mset (\<lambda>q. q_session q = Some sid) (cores qs))"
  by (induction qs) simp_all

lemma ll_delete_absent: "a \<notin> q_addr ` set qs \<Longrightarrow> ll_delete a qs = qs"
  by (induction qs) auto

section \<open>A calm environment\<close>

text \<open>Writes do not fail and nodes can be allocated.\<close>

definition calm :: "net_env \<Rightarrow> bool" where
  "calm e \<longleftrightarrow> (\<forall>k. e_node e k) \<and> (\<forall>k sid bs. 0 \<le> e_write e k sid bs)"

text \<open>Confirmable requests, and nodes that hold one.\<close>

definition message_ok :: "coap_pdu \<Rightarrow> bool" where
  "message_ok pdu \<longleftrightarrow> sendable pdu \<and> token_s pdu + token_length pdu \<le> length (mem pdu) \<and> pdu_type pdu = COAP_MESSAGE_CON \<and> pdu_code pdu < 64"

definition node_ok :: "coap_queue \<Rightarrow> bool" where
  "node_ok q \<longleftrightarrow> (\<exists>pdu. q_pdu q = Some pdu \<and> message_ok pdu \<and> q_id q = uint (pdu_mid pdu)) \<and> \<not> is_mcast q \<and> q_timeout q \<noteq> 0"

lemma node_ok_core [simp]: "node_ok (core q) = node_ok q"
  by (simp add: node_ok_def)

text \<open>A session over UDP that is not busy with other things.\<close>

definition session_fit :: "net_session \<Rightarrow> bool" where
  "session_fit s \<longleftrightarrow> proto s = COAP_PROTO_UDP \<and> session_state s = COAP_SESSION_STATE_ESTABLISHED \<and> echo s = None \<and>
     \<not> (flag_set s COAP_SOCKET_NOT_EMPTY \<and> (flag_set s COAP_SOCKET_WANT_WRITE \<or> flag_set s COAP_SOCKET_MULTICAST)) \<and>
     0 < unat (nstart (tx_params s)) \<and> unat (nstart (tx_params s)) < 256 \<and> unat (max_retransmit (tx_params s)) < 32 \<and>
     (\<forall>r. coap_calc_timeout (tx_params s) r \<noteq> 0)"

lemma fit_con: "proto s = COAP_PROTO_UDP \<Longrightarrow> message_ok pdu \<Longrightarrow> is_con s pdu"
  by (simp add: is_con_def message_ok_def COAP_PROTO_NOT_RELIABLE_def)

lemma is_con_upd [simp]:
  "is_con (s\<lparr>con_active := c\<rparr>) pdu = is_con s pdu" "is_con (s\<lparr>delayqueue := d\<rparr>) pdu = is_con s pdu"
  "is_con (s\<lparr>ref := r\<rparr>) pdu = is_con s pdu"
  by (simp_all add: is_con_def)

section \<open>What the calls do in a calm environment\<close>

lemma send_pdu_calm:
  assumes "calm e" "sessions n sid = Some s" "message_ok pdu"
  obtains w where "0 \<le> w" "coap_session_send_pdu e sid pdu n =
    Some (w, n\<lparr>calls := calls n + 1, sent_log := sent_log n @ [(sid, wire pdu, w)]\<rparr>)"
  using assms that [of "e_write e (calls n) sid (wire pdu)"]
  by (simp add: coap_session_send_pdu_def message_ok_def env_call_def calm_def)

lemma enqueue_eq: "enqueue now d node n = n\<lparr>sendqueue_basetime := base_at now n,
    sendqueue := coap_insert_node (sendqueue n) (node\<lparr>q_t := (now - base_at now n) + d\<rparr>)\<rparr>"
  by (simp add: enqueue_def base_at_def)

lemma enqueue_simps [simp]:
  "cores (sendqueue (enqueue now d node n)) = add_mset (core node) (cores (sendqueue n))"
  "sessions (enqueue now d node n) = sessions n" "calls (enqueue now d node n) = calls n"
  "sent_log (enqueue now d node n) = sent_log n" "nack_log (enqueue now d node n) = nack_log n"
  "event_log (enqueue now d node n) = event_log n" "freed_nodes (enqueue now d node n) = freed_nodes n"
  "nack_handler (enqueue now d node n) = nack_handler n" "ping_timeout (enqueue now d node n) = ping_timeout n"
  by (simp_all add: enqueue_eq)

lemma wait_ack_eq:
  assumes "sessions n sid = Some s" "unat (retransmit_cnt q) < 32"
  shows "coap_wait_ack e sid q n = Some (q_id q,
    enqueue (e_ticks e (calls n)) (ucast (push_bit (unat (retransmit_cnt q)) (q_timeout q))) (q\<lparr>q_session := Some sid\<rparr>)
      (put_session sid (s\<lparr>ref := ref s + 1\<rparr>) n\<lparr>calls := calls n + 1\<rparr>))"
  using assms
  by (simp add: coap_wait_ack_def coap_session_reference_def put_session_def env_call_def)

lemma connected_step_send:
  assumes "calm e" "sessions n sid = Some s" "proto s = COAP_PROTO_UDP" "delayqueue s = q # qs" "node_ok q"
    and "retransmit_cnt q = 0" "unat (con_active s) < unat (nstart (tx_params s))"
  obtains w where "0 \<le> w" "connected_step e sid (b, n) = Some (True,
    enqueue (e_ticks e (calls n + 1)) (ucast (q_timeout q)) (q\<lparr>q_session := Some sid\<rparr>)
      (put_session sid (s\<lparr>con_active := con_active s + 1, delayqueue := qs, ref := ref s + 1\<rparr>)
        (n\<lparr>sent_log := sent_log n @ [(sid, wire (the (q_pdu q)), w)]\<rparr>)\<lparr>calls := calls n + 2\<rparr>))"
proof -
  obtain pdu where pdu: "q_pdu q = Some pdu" "message_ok pdu" "q_id q = uint (pdu_mid pdu)"
    using assms(5) by (auto simp: node_ok_def)
  have con: "is_con s pdu" using fit_con assms(3) pdu(2) by blast
  let ?s = "s\<lparr>con_active := con_active s + 1, delayqueue := qs\<rparr>"
  obtain w where w: "0 \<le> w" "coap_session_send_pdu e sid pdu (put_session sid ?s n) =
      Some (w, put_session sid ?s n\<lparr>calls := calls n + 1, sent_log := sent_log n @ [(sid, wire pdu, w)]\<rparr>)"
    using send_pdu_calm [OF assms(1) _ pdu(2), of "put_session sid ?s n" sid ?s] by (auto simp: put_session_def)
  let ?n = "put_session sid ?s n\<lparr>calls := calls n + 1, sent_log := sent_log n @ [(sid, wire pdu, w)]\<rparr>"
  have ack: "coap_wait_ack e sid q ?n = Some (q_id q,
      enqueue (e_ticks e (calls ?n)) (ucast (push_bit (unat (retransmit_cnt q)) (q_timeout q))) (q\<lparr>q_session := Some sid\<rparr>)
        (put_session sid (?s\<lparr>ref := ref ?s + 1\<rparr>) ?n\<lparr>calls := calls ?n + 1\<rparr>))"
    by (rule wait_ack_eq) (simp_all add: put_session_def assms(6))
  have "connected_step e sid (b, n) = Some (True,
      enqueue (e_ticks e (calls ?n)) (ucast (push_bit (unat (retransmit_cnt q)) (q_timeout q))) (q\<lparr>q_session := Some sid\<rparr>)
        (put_session sid (?s\<lparr>ref := ref ?s + 1\<rparr>) ?n\<lparr>calls := calls ?n + 1\<rparr>))"
    unfolding connected_step_def using assms(2-4,7) pdu con w ack by (simp add: COAP_PROTO_NOT_RELIABLE_def Let_def)
  then show thesis
    using that [OF w(1)] assms(6) pdu(1) by (simp add: put_session_def)
qed

section \<open>Invariant\<close>

definition out :: "nat \<Rightarrow> coap_queue multiset \<Rightarrow> nat" where
  "out sid M = size (filter_mset (\<lambda>q. q_session q = Some sid) M)"

lemma out_simps [simp]:
  "out sid {#} = 0" "out sid (add_mset q M) = (if q_session q = Some sid then 1 else 0) + out sid M"
  "out sid (M + N) = out sid M + out sid N"
  by (simp_all add: out_def)

lemma out_cores: "out sid (cores qs) = outstanding sid qs"
  by (simp add: out_def outstanding_cores)

definition uniq :: "nat multiset \<Rightarrow> bool" where
  "uniq A \<longleftrightarrow> (\<forall>a. count A a \<le> 1)"

lemma uniq_empty [simp]: "uniq {#}"
  by (simp add: uniq_def)

lemma uniq_add [simp]: "uniq (add_mset a A) \<longleftrightarrow> a \<notin># A \<and> uniq A"
proof
  assume u: "uniq (add_mset a A)"
  have "count A b \<le> 1" for b using u [unfolded uniq_def, rule_format, of b] by (cases "b = a") auto
  moreover have "count A a = 0" using u [unfolded uniq_def, rule_format, of a] by simp
  ultimately show "a \<notin># A \<and> uniq A" by (simp add: uniq_def not_in_iff)
next
  assume "a \<notin># A \<and> uniq A"
  then show "uniq (add_mset a A)" by (auto simp: uniq_def not_in_iff)
qed

lemma uniq_disjoint: "uniq (A + B) \<Longrightarrow> a \<in># A \<Longrightarrow> a \<notin># B"
proof
  assume "uniq (A + B)" "a \<in># A" "a \<in># B"
  then have "0 < count A a" "0 < count B a" by simp_all
  moreover have "count A a + count B a \<le> 1" using \<open>uniq (A + B)\<close> by (simp add: uniq_def)
  ultimately show False by linarith
qed

text \<open>
  \<open>H\<close> are the nodes a function holds that are no longer, or not yet, in the queue, but
  still count as references to their sessions.
\<close>

definition queued_ok :: "coap_queue multiset \<Rightarrow> (nat \<rightharpoonup> net_session) \<Rightarrow> nat \<Rightarrow> bool" where
  "queued_ok M S k \<longleftrightarrow> (\<forall>q \<in># M. node_ok q \<and> q_addr q < k \<and>
     (\<exists>sid s. q_session q = Some sid \<and> S sid = Some s \<and> unat (retransmit_cnt q) \<le> unat (max_retransmit (tx_params s))))"

definition delayed_ok :: "nat \<Rightarrow> coap_queue \<Rightarrow> bool" where
  "delayed_ok k q \<longleftrightarrow> node_ok q \<and> retransmit_cnt q = 0 \<and> q_session q = None \<and> q_addr q < k"

definition session_inv :: "coap_queue multiset \<Rightarrow> coap_queue multiset \<Rightarrow> nat \<Rightarrow> nat \<Rightarrow> net_session \<Rightarrow> bool" where
  "session_inv H M k sid s \<longleftrightarrow> session_fit s \<and> unat (con_active s) = out sid M \<and> out sid M \<le> unat (nstart (tx_params s)) \<and>
     out sid (H + M) < ref s \<and> list_all (delayed_ok k) (delayqueue s) \<and>
     uniq (image_mset q_addr (H + M) + mset (map q_addr (delayqueue s)))"

definition apart :: "(nat \<rightharpoonup> net_session) \<Rightarrow> bool" where
  "apart S \<longleftrightarrow> (\<forall>i j s t. S i = Some s \<longrightarrow> S j = Some t \<longrightarrow> i \<noteq> j \<longrightarrow> q_addr ` set (delayqueue s) \<inter> q_addr ` set (delayqueue t) = {})"

definition net_inv :: "coap_queue multiset \<Rightarrow> net \<Rightarrow> bool" where
  "net_inv H n \<longleftrightarrow> queued_ok (H + cores (sendqueue n)) (sessions n) (calls n) \<and>
     (\<forall>sid s. sessions n sid = Some s \<longrightarrow> session_inv H (cores (sendqueue n)) (calls n) sid s) \<and> apart (sessions n)"

text \<open>A message only waits while the window of its session is full.\<close>

definition full_window :: "nat \<Rightarrow> net \<Rightarrow> bool" where
  "full_window sid n \<longleftrightarrow> (\<forall>s. sessions n sid = Some s \<longrightarrow> delayqueue s \<noteq> [] \<longrightarrow>
     unat (con_active s) = unat (nstart (tx_params s)))"

lemma net_inv_session: "net_inv H n \<Longrightarrow> sessions n sid = Some s \<Longrightarrow> session_inv H (cores (sendqueue n)) (calls n) sid s"
  by (simp add: net_inv_def)

lemma delayed_ok_mono: "k \<le> k' \<Longrightarrow> list_all (delayed_ok k) qs \<Longrightarrow> list_all (delayed_ok k') qs"
  by (auto simp: list_all_iff delayed_ok_def)

lemma queued_ok_mono:
  assumes "queued_ok M S k" "k \<le> k'" "S sid = Some s" "tx_params s' = tx_params s"
  shows "queued_ok M (S(sid \<mapsto> s')) k'"
  unfolding queued_ok_def
proof
  fix q assume "q \<in># M"
  then obtain i t where q: "node_ok q" "q_addr q < k" "q_session q = Some i" "S i = Some t"
      "unat (retransmit_cnt q) \<le> unat (max_retransmit (tx_params t))"
    using assms(1) unfolding queued_ok_def by blast
  have "\<exists>u. (S(sid \<mapsto> s')) i = Some u \<and> tx_params u = tx_params t"
    using q(4) assms(3,4) by (cases "i = sid") simp_all
  then show "node_ok q \<and> q_addr q < k' \<and> (\<exists>i t. q_session q = Some i \<and> (S(sid \<mapsto> s')) i = Some t \<and>
      unat (retransmit_cnt q) \<le> unat (max_retransmit (tx_params t)))"
    using q assms(2) by (metis less_le_trans)
qed

text \<open>One session changes, and with it at most its own delayed messages.\<close>

lemma net_inv_upd:
  assumes inv: "net_inv H n" and s: "sessions n sid = Some s" and n': "sessions n' = (sessions n)(sid \<mapsto> s')"
    and k: "calls n \<le> calls n'" and par: "tx_params s' = tx_params s"
    and q: "queued_ok (H' + cores (sendqueue n')) (sessions n') (calls n')"
    and own: "session_inv H' (cores (sendqueue n')) (calls n') sid s'"
    and del: "q_addr ` set (delayqueue s') \<subseteq> q_addr ` set (delayqueue s) \<union> {calls n..}"
    and others: "\<And>j t. j \<noteq> sid \<Longrightarrow> sessions n j = Some t \<Longrightarrow>
      out j (cores (sendqueue n')) = out j (cores (sendqueue n)) \<and> out j (H' + cores (sendqueue n')) = out j (H + cores (sendqueue n)) \<and>
      uniq (image_mset q_addr (H' + cores (sendqueue n')) + mset (map q_addr (delayqueue t)))"
  shows "net_inv H' n'"
proof -
  have other: "session_inv H' (cores (sendqueue n')) (calls n') j t" if j: "j \<noteq> sid" "sessions n j = Some t" for j t
    using net_inv_session [OF inv j(2)] others [OF j] delayed_ok_mono [OF k, of "delayqueue t"] unfolding session_inv_def by auto
  have disj: "q_addr ` set (delayqueue s') \<inter> q_addr ` set (delayqueue t) = {}" if j: "j \<noteq> sid" "sessions n j = Some t" for j t
  proof -
    have "q_addr ` set (delayqueue s) \<inter> q_addr ` set (delayqueue t) = {}"
      using inv s j unfolding net_inv_def apart_def by blast
    moreover have "\<forall>q \<in> set (delayqueue t). q_addr q < calls n"
      using net_inv_session [OF inv j(2)] by (auto simp: session_inv_def list_all_iff delayed_ok_def)
    ultimately show ?thesis using del by fastforce
  qed
  have "apart (sessions n')"
    unfolding apart_def
  proof (intro allI impI)
    fix i j x y
    assume xy: "sessions n' i = Some x" "sessions n' j = Some y" "i \<noteq> j"
    consider "i = sid" "j \<noteq> sid" | "i \<noteq> sid" "j = sid" | "i \<noteq> sid" "j \<noteq> sid" using xy(3) by blast
    then show "q_addr ` set (delayqueue x) \<inter> q_addr ` set (delayqueue y) = {}"
    proof cases
      case 1
      then show ?thesis using xy disj [of j y] by (simp add: n')
    next
      case 2
      then show ?thesis using xy disj [of i x] by (simp add: n' Int_commute)
    next
      case 3
      then show ?thesis using xy inv unfolding net_inv_def apart_def n' by (metis fun_upd_apply)
    qed
  qed
  moreover have "session_inv H' (cores (sendqueue n')) (calls n') j t" if "sessions n' j = Some t" for j t
    using that own other [of j t] by (cases "j = sid") (simp_all add: n')
  ultimately show ?thesis unfolding net_inv_def using q by blast
qed

section \<open>The operations keep the invariant\<close>

lemma unat_succ8: "unat (c :: u8) < k \<Longrightarrow> k < 256 \<Longrightarrow> unat (c + 1) = unat c + 1"
  by (simp add: unat_word_ariths)

lemma unat_pred8: "(c :: u8) \<noteq> 0 \<Longrightarrow> unat (c - 1) = unat c - 1"
  by (simp add: unat_minus_one)

lemma inv_flush_one:
  assumes inv: "net_inv H n" and s: "sessions n sid = Some s" and q: "delayqueue s = q # qs"
    and room: "unat (con_active s) < unat (nstart (tx_params s))"
    and n': "cores (sendqueue n') = add_mset (core (q\<lparr>q_session := Some sid\<rparr>)) (cores (sendqueue n))"
      "sessions n' = (sessions n)(sid \<mapsto> s\<lparr>con_active := con_active s + 1, delayqueue := qs, ref := ref s + 1\<rparr>)"
      "calls n \<le> calls n'"
  shows "net_inv H n'"
proof -
  let ?M = "cores (sendqueue n)" and ?s = "s\<lparr>con_active := con_active s + 1, delayqueue := qs, ref := ref s + 1\<rparr>"
  have own: "session_inv H ?M (calls n) sid s" by (rule net_inv_session [OF inv s])
  then have node: "node_ok q" "retransmit_cnt q = 0" "q_addr q < calls n" and rest: "list_all (delayed_ok (calls n)) qs"
    and small: "unat (nstart (tx_params s)) < 256"
    by (simp_all add: session_inv_def q delayed_ok_def session_fit_def)
  have "node_ok (core (q\<lparr>q_session := Some sid\<rparr>))" using node(1) by (simp add: node_ok_def)
  then have new: "queued_ok {#core (q\<lparr>q_session := Some sid\<rparr>)#} (sessions n') (calls n')"
    using node n'(2,3) by (simp add: queued_ok_def)
  have old: "queued_ok (H + ?M) (sessions n') (calls n')"
    unfolding n'(2) by (rule queued_ok_mono [where k = "calls n" and s = s]) (use inv s n'(3) in \<open>simp_all add: net_inv_def\<close>)
  show ?thesis
  proof (rule net_inv_upd [OF inv s n'(2,3)])
    show "queued_ok (H + cores (sendqueue n')) (sessions n') (calls n')"
      using new old by (simp add: queued_ok_def n'(1))
    show "session_inv H (cores (sendqueue n')) (calls n') sid ?s"
      using own room delayed_ok_mono [OF n'(3) rest] unat_succ8 [OF room small]
      by (simp add: session_inv_def session_fit_def flag_set_def n'(1) q)
  next
    fix j t assume j: "j \<noteq> sid" "sessions n j = Some t"
    have "q_addr q \<notin> q_addr ` set (delayqueue t)"
      using inv s j q unfolding net_inv_def apart_def by fastforce
    then show "out j (cores (sendqueue n')) = out j ?M \<and> out j (H + cores (sendqueue n')) = out j (H + ?M) \<and>
        uniq (image_mset q_addr (H + cores (sendqueue n')) + mset (map q_addr (delayqueue t)))"
      using net_inv_session [OF inv j(2)] own j(1) unfolding n'(1) by (auto simp: session_inv_def q)
  qed (auto simp: q)
qed

text \<open>A node is taken from the queue, and its message no longer counts as active.\<close>

lemma inv_take_out:
  assumes inv: "net_inv {#} n" and s: "sessions n sid = Some s" and r: "q_session r = Some sid"
    and n: "cores (sendqueue n) = add_mset r (cores (sendqueue n'))"
      "sessions n' = (sessions n)(sid \<mapsto> s\<lparr>con_active := con_active s - 1\<rparr>)" "calls n' = calls n"
  shows "con_active s \<noteq> 0" "net_inv {#r#} n'"
proof -
  let ?M = "cores (sendqueue n')"
  have own: "session_inv {#} (cores (sendqueue n)) (calls n) sid s" by (rule net_inv_session [OF inv s])
  then have "unat (con_active s) = 1 + out sid ?M" by (simp add: session_inv_def n(1) r)
  then show nz: "con_active s \<noteq> 0" by auto
  have queued: "queued_ok (add_mset r ?M) (sessions n') (calls n')"
    unfolding n(2,3) by (rule queued_ok_mono [where k = "calls n" and s = s]) (use inv n(1) s in \<open>simp_all add: net_inv_def\<close>)
  show "net_inv {#r#} n'"
  proof (rule net_inv_upd [OF inv s n(2)])
    show "session_inv {#r#} ?M (calls n') sid (s\<lparr>con_active := con_active s - 1\<rparr>)"
      using own unat_pred8 [OF nz] by (simp add: session_inv_def session_fit_def flag_set_def n(1,3) r)
  next
    fix j t assume j: "j \<noteq> sid" "sessions n j = Some t"
    show "out j ?M = out j (cores (sendqueue n)) \<and> out j ({#r#} + ?M) = out j ({#} + cores (sendqueue n)) \<and>
        uniq (image_mset q_addr ({#r#} + ?M) + mset (map q_addr (delayqueue t)))"
      using net_inv_session [OF inv j(2)] j(1) r by (simp add: session_inv_def n(1))
  qed (use queued n(3) in auto)
qed

text \<open>The node at hand is deleted; its session loses a reference but stays.\<close>

lemma inv_delete_node:
  assumes inv: "net_inv {#core node#} n"
  obtains sid s where "q_session node = Some sid" "sessions n sid = Some s"
    "coap_delete_node node n = Some (put_session sid (s\<lparr>ref := ref s - 1\<rparr>) n\<lparr>freed_nodes := freed_nodes n @ [q_addr node]\<rparr>)"
    "net_inv {#} (put_session sid (s\<lparr>ref := ref s - 1\<rparr>) n\<lparr>freed_nodes := freed_nodes n @ [q_addr node]\<rparr>)"
proof -
  let ?M = "cores (sendqueue n)"
  obtain sid s where s: "q_session node = Some sid" "sessions n sid = Some s"
    using inv by (auto simp: net_inv_def queued_ok_def)
  have own: "session_inv {#core node#} ?M (calls n) sid s" by (rule net_inv_session [OF inv s(2)])
  then have ref: "1 < ref s" by (simp add: session_inv_def s(1))
  let ?n = "put_session sid (s\<lparr>ref := ref s - 1\<rparr>) n\<lparr>freed_nodes := freed_nodes n @ [q_addr node]\<rparr>"
  have "q_addr node \<notin># image_mset q_addr ?M" using own by (auto simp: session_inv_def)
  then have "q_addr node \<notin> q_addr ` set (sendqueue n)" unfolding cores_addrs [symmetric] by simp
  then have "coap_delete_node node n = Some ?n"
    using s ref by (simp add: coap_delete_node_def ll_delete_absent coap_session_release_def put_session_def Let_def)
  moreover have "net_inv {#} ?n"
  proof (rule net_inv_upd [OF inv s(2)])
    show "sessions ?n = (sessions n)(sid \<mapsto> s\<lparr>ref := ref s - 1\<rparr>)" by (simp add: put_session_def)
    have "queued_ok ?M ((sessions n)(sid \<mapsto> s\<lparr>ref := ref s - 1\<rparr>)) (calls n)"
      by (rule queued_ok_mono [where k = "calls n" and s = s]) (use inv s(2) in \<open>simp_all add: net_inv_def queued_ok_def\<close>)
    then show "queued_ok ({#} + cores (sendqueue ?n)) (sessions ?n) (calls ?n)" by (simp add: put_session_def)
    show "session_inv {#} (cores (sendqueue ?n)) (calls ?n) sid (s\<lparr>ref := ref s - 1\<rparr>)"
      using own ref s(1) by (auto simp: session_inv_def session_fit_def flag_set_def put_session_def)
  next
    fix j t assume j: "j \<noteq> sid" "sessions n j = Some t"
    show "out j (cores (sendqueue ?n)) = out j ?M \<and> out j ({#} + cores (sendqueue ?n)) = out j ({#core node#} + ?M) \<and>
        uniq (image_mset q_addr ({#} + cores (sendqueue ?n)) + mset (map q_addr (delayqueue t)))"
      using net_inv_session [OF inv j(2)] j(1) s(1) by (simp add: session_inv_def put_session_def)
  qed (simp_all add: put_session_def)
  ultimately show thesis using that s by blast
qed

section \<open>Flushing\<close>

text \<open>What was handed to the transport.\<close>

definition sends :: "net \<Rightarrow> (nat \<times> bytes) list" where
  "sends n = map (\<lambda>(sid, bs, _). (sid, bs)) (sent_log n)"

definition node_bytes :: "coap_queue \<Rightarrow> bytes" where
  "node_bytes q = wire (the (q_pdu q))"

text \<open>What flushing does not touch.\<close>

definition kept :: "net \<Rightarrow> (nat \<times> coap_pdu option \<times> coap_nack_reason \<times> int) list \<times> nat list \<times> bool \<times> u32" where
  "kept n = (nack_log n, freed_nodes n, nack_handler n, ping_timeout n)"

text \<open>The queue and its base time, and what inserting a node does to them.\<close>

definition timeline :: "net \<Rightarrow> coap_queue list \<times> u64" where
  "timeline n = (sendqueue n, sendqueue_basetime n)"

fun timeline_put :: "u64 \<Rightarrow> u64 \<Rightarrow> coap_queue \<Rightarrow> coap_queue list \<times> u64 \<Rightarrow> coap_queue list \<times> u64" where
  "timeline_put now d q (qs, b) =
     (let b = (if qs = [] then now else b) in (coap_insert_node qs (q\<lparr>q_t := (now - b) + d\<rparr>), b))"

lemma timeline_enqueue: "timeline (enqueue now d q n) = timeline_put now d q (timeline n)"
  by (simp add: timeline_def enqueue_eq base_at_def Let_def)

text \<open>Delayed messages, each with the time it is sent at, go into the queue.\<close>

definition put_delayed :: "nat \<Rightarrow> coap_queue list \<times> u64 \<Rightarrow> coap_queue \<times> u64 \<Rightarrow> coap_queue list \<times> u64" where
  "put_delayed sid qb = (\<lambda>(q, t). timeline_put t (ucast (q_timeout q)) (q\<lparr>q_session := Some sid\<rparr>) qb)"

text \<open>From \<open>n\<close> to \<open>n'\<close> the first delayed messages of the session, and nothing else, were sent, in order.\<close>

definition flushed :: "net_env \<Rightarrow> nat \<Rightarrow> net \<Rightarrow> net \<Rightarrow> bool" where
  "flushed e sid n n' \<longleftrightarrow> (\<forall>j. j \<noteq> sid \<longrightarrow> sessions n' j = sessions n j) \<and> kept n' = kept n \<and> calls n \<le> calls n' \<and>
     (\<exists>s s' qts. sessions n sid = Some s \<and> sessions n' sid = Some s' \<and> tx_params s' = tx_params s \<and>
        delayqueue s = map fst qts @ delayqueue s' \<and> sends n' = sends n @ map (\<lambda>(q, _). (sid, node_bytes q)) qts \<and>
        snd ` set qts \<subseteq> range (e_ticks e) \<and> timeline n' = foldl (put_delayed sid) (timeline n) qts)"

lemma flushedE:
  assumes "flushed e sid n n'"
  obtains s s' qts where "sessions n sid = Some s" "sessions n' sid = Some s'" "tx_params s' = tx_params s"
    "delayqueue s = map fst qts @ delayqueue s'" "sends n' = sends n @ map (\<lambda>(q, _). (sid, node_bytes q)) qts"
    "snd ` set qts \<subseteq> range (e_ticks e)" "timeline n' = foldl (put_delayed sid) (timeline n) qts"
  using assms unfolding flushed_def by (elim conjE exE) (rule that)

lemma flushed_step:
  assumes "flushed e sid n n1" "sessions n1 sid = Some s" "delayqueue s = q # qs"
    and "sessions n2 = (sessions n1)(sid \<mapsto> s')" "tx_params s' = tx_params s" "delayqueue s' = qs"
    and "sends n2 = sends n1 @ [(sid, node_bytes q)]" "kept n2 = kept n1" "calls n1 \<le> calls n2"
    and "timeline n2 = put_delayed sid (timeline n1) (q, e_ticks e k)"
  shows "flushed e sid n n2"
proof -
  obtain s0 qts where s0: "sessions n sid = Some s0" "tx_params s = tx_params s0" "delayqueue s0 = map fst qts @ q # qs"
      "sends n1 = sends n @ map (\<lambda>(q, _). (sid, node_bytes q)) qts" "snd ` set qts \<subseteq> range (e_ticks e)"
      "timeline n1 = foldl (put_delayed sid) (timeline n) qts"
    using assms(1-3) by (auto simp: flushed_def)
  have "\<exists>s s' qts. sessions n sid = Some s \<and> sessions n2 sid = Some s' \<and> tx_params s' = tx_params s \<and>
      delayqueue s = map fst qts @ delayqueue s' \<and> sends n2 = sends n @ map (\<lambda>(q, _). (sid, node_bytes q)) qts \<and>
      snd ` set qts \<subseteq> range (e_ticks e) \<and> timeline n2 = foldl (put_delayed sid) (timeline n) qts"
    by (rule exI [of _ s0], rule exI [of _ s'], rule exI [of _ "qts @ [(q, e_ticks e k)]"]) (use s0 assms(4-7,10) in simp)
  moreover have "\<forall>j. j \<noteq> sid \<longrightarrow> sessions n2 j = sessions n j" using assms(1,4) by (simp add: flushed_def)
  moreover have "kept n2 = kept n" "calls n \<le> calls n2" using assms(1,8,9) by (simp_all add: flushed_def)
  ultimately show ?thesis unfolding flushed_def by blast
qed

lemma connected_loop:
  assumes e: "calm e" and inv: "net_inv H n" and s: "sessions n sid = Some s"
  shows "\<exists>b n'. c_while (more_delayed sid) (connected_step e sid) (True, n) = Some (b, n') \<and>
    net_inv H n' \<and> full_window sid n' \<and> flushed e sid n n'"
proof -
  let ?I = "\<lambda>(b, n'). net_inv H n' \<and> flushed e sid n n' \<and> (\<not> b \<longrightarrow> full_window sid n')"
  let ?m = "\<lambda>(b, n'). length (delayqueue (the (sessions n' sid))) + (if b then 1 else 0)"
  have "\<exists>t. c_while (more_delayed sid) (connected_step e sid) (True, n) = Some t \<and> ?I t \<and> \<not> more_delayed sid t"
  proof (rule c_while_rule [where m = ?m])
    show "?I (True, n)" using inv s by (auto simp: flushed_def intro: exI [of _ "[]"])
  next
    fix st assume I: "?I st" and more: "more_delayed sid st"
    obtain n1 where st: "st = (True, n1)" using more by (cases st) (auto simp: more_delayed_def)
    have I1: "net_inv H n1" "flushed e sid n n1" using I st by simp_all
    then obtain s1 where s1: "sessions n1 sid = Some s1" by (auto simp: flushed_def)
    then obtain q qs where q: "delayqueue s1 = q # qs"
      using more st by (auto simp: more_delayed_def neq_Nil_conv)
    have own: "session_inv H (cores (sendqueue n1)) (calls n1) sid s1" by (rule net_inv_session [OF I1(1) s1])
    then have ok: "proto s1 = COAP_PROTO_UDP" "node_ok q" "retransmit_cnt q = 0" "unat (con_active s1) \<le> unat (nstart (tx_params s1))"
      by (simp_all add: session_inv_def session_fit_def q delayed_ok_def)
    show "\<exists>st'. connected_step e sid st = Some st' \<and> ?I st' \<and> ?m st' < ?m st"
    proof (cases "unat (con_active s1) < unat (nstart (tx_params s1))")
      case True
      let ?n2 = "\<lambda>w. enqueue (e_ticks e (calls n1 + 1)) (ucast (q_timeout q)) (q\<lparr>q_session := Some sid\<rparr>)
          (put_session sid (s1\<lparr>con_active := con_active s1 + 1, delayqueue := qs, ref := ref s1 + 1\<rparr>)
            (n1\<lparr>sent_log := sent_log n1 @ [(sid, wire (the (q_pdu q)), w)]\<rparr>)\<lparr>calls := calls n1 + 2\<rparr>)"
      obtain w where w: "connected_step e sid (True, n1) = Some (True, ?n2 w)"
        by (rule connected_step_send [OF e s1 ok(1) q ok(2,3) True])
      define n2 where n2: "n2 = ?n2 w"
      have new: "sessions n2 = (sessions n1)(sid \<mapsto> s1\<lparr>con_active := con_active s1 + 1, delayqueue := qs, ref := ref s1 + 1\<rparr>)"
        by (simp add: n2 put_session_def)
      have "net_inv H n2"
        by (rule inv_flush_one [OF I1(1) s1 q True _ new]) (simp_all add: n2 put_session_def)
      moreover have "flushed e sid n n2"
        by (rule flushed_step [OF I1(2) s1 q new, of "calls n1 + 1"])
          (simp_all add: n2 put_session_def sends_def node_bytes_def kept_def put_delayed_def timeline_def enqueue_eq base_at_def Let_def)
      moreover have "connected_step e sid st = Some (True, n2)" using w st n2 by simp
      moreover have "?m (True, n2) < ?m st" using st s1 q by (simp add: new)
      ultimately show ?thesis by (intro exI [of _ "(True, n2)"]) simp
    next
      case False
      obtain pdu where pdu: "q_pdu q = Some pdu" "is_con s1 pdu" using ok(1,2) fit_con by (auto simp: node_ok_def)
      have "connected_step e sid (True, n1) = Some (False, n1)"
        using s1 q pdu False by (simp add: connected_step_def)
      moreover have "full_window sid n1" using s1 ok(4) False by (simp add: full_window_def)
      ultimately show ?thesis using st I1 by (intro exI [of _ "(False, n1)"]) simp
    qed
  qed
  then obtain st where "c_while (more_delayed sid) (connected_step e sid) (True, n) = Some st" "?I st" "\<not> more_delayed sid st" by blast
  moreover obtain b n' where "st = (b, n')" by (cases st)
  ultimately have w: "c_while (more_delayed sid) (connected_step e sid) (True, n) = Some (b, n')"
    "net_inv H n'" "flushed e sid n n'" "\<not> b \<longrightarrow> full_window sid n'" "\<not> more_delayed sid (b, n')" by simp_all
  have "full_window sid n'"
  proof (cases b)
    case True
    have "delayqueue s' = []" if s': "sessions n' sid = Some s'" for s'
      using w(5) True s' net_inv_session [OF w(2) s'] by (simp add: more_delayed_def session_inv_def session_fit_def)
    then show ?thesis by (simp add: full_window_def)
  qed (use w(4) in simp)
  then show ?thesis using w(1-3) by blast
qed

text \<open>The start of \<open>coap_session_connected\<close> changes nothing that matters in an established UDP session.\<close>

lemma connected_calm:
  assumes e: "calm e" and inv: "net_inv H n" and s: "sessions n sid = Some s"
  obtains n' where "coap_session_connected e sid n = Some n'" "net_inv H n'" "full_window sid n'" "flushed e sid n n'"
proof -
  have fit: "proto s = COAP_PROTO_UDP" "session_state s = COAP_SESSION_STATE_ESTABLISHED"
    using net_inv_session [OF inv s] by (simp_all add: session_inv_def session_fit_def)
  let ?s = "s\<lparr>session_state := COAP_SESSION_STATE_ESTABLISHED, partial_write := 0\<rparr>" and ?M = "cores (sendqueue n)"
  let ?n = "put_session sid ?s n"
  have "net_inv H ?n"
  proof (rule net_inv_upd [OF inv s])
    show "sessions ?n = (sessions n)(sid \<mapsto> ?s)" by (simp add: put_session_def)
    have "queued_ok (H + ?M) ((sessions n)(sid \<mapsto> ?s)) (calls n)"
      by (rule queued_ok_mono [where k = "calls n" and s = s]) (use inv s in \<open>simp_all add: net_inv_def\<close>)
    then show "queued_ok (H + cores (sendqueue ?n)) (sessions ?n) (calls ?n)" by (simp add: put_session_def)
    show "session_inv H (cores (sendqueue ?n)) (calls ?n) sid ?s"
      using net_inv_session [OF inv s] by (simp add: session_inv_def session_fit_def flag_set_def put_session_def)
  next
    fix j t assume "j \<noteq> sid" "sessions n j = Some t"
    then show "out j (cores (sendqueue ?n)) = out j ?M \<and> out j (H + cores (sendqueue ?n)) = out j (H + ?M) \<and>
        uniq (image_mset q_addr (H + cores (sendqueue ?n)) + mset (map q_addr (delayqueue t)))"
      using net_inv_session [OF inv, of j t] by (simp add: session_inv_def put_session_def)
  qed (simp_all add: put_session_def)
  from connected_loop [OF e this, of sid ?s] obtain b n' where
    "c_while (more_delayed sid) (connected_step e sid) (True, ?n) = Some (b, n')" "net_inv H n'" "full_window sid n'" "flushed e sid ?n n'"
    by (auto simp: put_session_def)
  moreover have "flushed e sid n n'"
    using \<open>flushed e sid ?n n'\<close> s by (auto simp: flushed_def put_session_def sends_def kept_def timeline_def)
  ultimately show thesis
    using that s fit by (simp add: coap_session_connected_def Let_def)
qed

section \<open>Acknowledgement, retransmission and sending\<close>

lemma full_window_cong: "sessions n' sid = sessions n sid \<Longrightarrow> full_window sid n' = full_window sid n"
  by (simp add: full_window_def)

text \<open>A message is finished: its slot goes to the delayed messages. The node stays at hand.\<close>

lemma finish_one:
  assumes e: "calm e" and inv: "net_inv {#} n" and r: "q_session r = Some sid"
    and out: "cores (sendqueue n) = add_mset (core r) (cores queue)"
  obtains n' where "con_done e sid (n\<lparr>sendqueue := queue\<rparr>) = Some n'" "net_inv {#core r#} n'" "full_window sid n'"
    "flushed e sid (n\<lparr>sendqueue := queue\<rparr>) n'"
proof -
  have "\<exists>s. sessions n sid = Some s"
    using inv out r by (auto simp: net_inv_def queued_ok_def)
  then obtain s where s: "sessions n sid = Some s" ..
  let ?n = "put_session sid (s\<lparr>con_active := con_active s - 1\<rparr>) (n\<lparr>sendqueue := queue\<rparr>)"
  have taken: "con_active s \<noteq> 0" "net_inv {#core r#} ?n"
    using inv_take_out [OF inv s, of "core r" ?n] r out by (simp_all add: put_session_def)
  have est: "session_state s = COAP_SESSION_STATE_ESTABLISHED"
    using net_inv_session [OF inv s] by (simp add: session_inv_def session_fit_def)
  obtain n' where n': "coap_session_connected e sid ?n = Some n'" "net_inv {#core r#} n'" "full_window sid n'" "flushed e sid ?n n'"
    by (rule connected_calm [OF e taken(2), of sid "s\<lparr>con_active := con_active s - 1\<rparr>"]) (simp add: put_session_def)
  have "con_done e sid (n\<lparr>sendqueue := queue\<rparr>) = Some n'"
    using s taken(1) est n'(1) by (simp add: con_done_def)
  moreover have "flushed e sid (n\<lparr>sendqueue := queue\<rparr>) n'"
    using n'(4) s by (auto simp: flushed_def put_session_def sends_def kept_def timeline_def)
  ultimately show thesis using that n'(2,3) by blast
qed

text \<open>What the end of a message does: its node is freed, and nothing of the other sessions changes.\<close>

lemma finish_delete:
  assumes inv: "net_inv {#core r#} n1" and full: "full_window sid n1" and r: "q_session r = Some sid" and fl: "flushed e sid n n1"
  obtains n' where "coap_delete_node r n1 = Some n'" "net_inv {#} n'" "\<forall>j. full_window j n \<or> j = sid \<longrightarrow> full_window j n'"
    "\<forall>j. j \<noteq> sid \<longrightarrow> sessions n' j = sessions n j" "nack_log n' = nack_log n1" "sends n' = sends n1" "timeline n' = timeline n1"
    "\<exists>s. sessions n1 sid = Some s \<and> sessions n' sid = Some (s\<lparr>ref := ref s - 1\<rparr>)"
proof -
  obtain i s where d: "q_session r = Some i" "sessions n1 i = Some s"
    "coap_delete_node r n1 = Some (put_session i (s\<lparr>ref := ref s - 1\<rparr>) n1\<lparr>freed_nodes := freed_nodes n1 @ [q_addr r]\<rparr>)"
    "net_inv {#} (put_session i (s\<lparr>ref := ref s - 1\<rparr>) n1\<lparr>freed_nodes := freed_nodes n1 @ [q_addr r]\<rparr>)"
    by (rule inv_delete_node [OF inv])
  let ?n = "put_session i (s\<lparr>ref := ref s - 1\<rparr>) n1\<lparr>freed_nodes := freed_nodes n1 @ [q_addr r]\<rparr>"
  have i: "i = sid" using d(1) r by simp
  have other: "sessions ?n j = sessions n j" if "j \<noteq> sid" for j
    using that fl i by (simp add: put_session_def flushed_def)
  have "full_window j ?n" if "full_window j n \<or> j = sid" for j
  proof (cases "j = sid")
    case True
    then show ?thesis using full d(2) i by (simp add: full_window_def put_session_def)
  qed (use that full_window_cong [OF other] in blast)
  then show thesis
    using that [OF d(3,4)] other d(2) i by (simp add: put_session_def sends_def timeline_def)
qed

lemma dispatch_ack_calm:
  assumes e: "calm e" and inv: "net_inv {#} n"
  obtains n' where "dispatch_ack e sid mid n = Some n'" "net_inv {#} n'" "\<And>j. full_window j n \<Longrightarrow> full_window j n'"
proof -
  obtain ro queue where ro: "coap_remove_from_queue (sendqueue n) sid (uint mid) = (ro, queue)" by fastforce
  show thesis
  proof (cases ro)
    case None
    then have "dispatch_ack e sid mid n = Some n" using ro remove_none [of "sendqueue n" sid "uint mid" queue] by (simp add: dispatch_ack_def)
    then show thesis using that inv by blast
  next
    case (Some r)
    then have out: "cores (sendqueue n) = add_mset (core r) (cores queue)" and r: "q_session r = Some sid"
      using cores_remove ro by blast+
    obtain n1 where n1: "con_done e sid (n\<lparr>sendqueue := queue\<rparr>) = Some n1" "net_inv {#core r#} n1" "full_window sid n1"
        "flushed e sid (n\<lparr>sendqueue := queue\<rparr>) n1"
      by (rule finish_one [OF e inv r out])
    obtain n' where "coap_delete_node r n1 = Some n'" "net_inv {#} n'" "\<forall>j. full_window j (n\<lparr>sendqueue := queue\<rparr>) \<or> j = sid \<longrightarrow> full_window j n'"
        "\<forall>j. j \<noteq> sid \<longrightarrow> sessions n' j = sessions (n\<lparr>sendqueue := queue\<rparr>) j" "nack_log n' = nack_log n1" "sends n' = sends n1" "timeline n' = timeline n1"
        "\<exists>s. sessions n1 sid = Some s \<and> sessions n' sid = Some (s\<lparr>ref := ref s - 1\<rparr>)"
      by (rule finish_delete [OF n1(2,3) r n1(4)])
    then show thesis using that ro Some n1(1) by (simp add: dispatch_ack_def full_window_def)
  qed
qed

text \<open>A delay that the ping timeout cuts is positive and not above it.\<close>

lemma ping_delay:
  fixes p :: u32 and c :: u8
  assumes "p \<noteq> 0"
  shows "ucast p * COAP_TICKS_PER_SECOND - 255 + ucast c \<noteq> (0 :: u64) \<and>
    ucast p * COAP_TICKS_PER_SECOND - 255 + ucast c \<le> (ucast p * COAP_TICKS_PER_SECOND :: u64)"
proof -
  have p: "0 < unat p" "unat p < 2 ^ 32" using assms unsigned_less [of p, where ?'a = nat] by (simp_all add: unat_gt_0)
  have c: "unat c \<le> 255" using unsigned_less [of c, where ?'a = nat] by simp
  have up: "unat (ucast p :: u64) = unat p" "unat (ucast c :: u64) = unat c" using p(2) c
    by (simp_all add: unsigned_ucast_eq take_bit_nat_eq_self)
  have ping: "unat (ucast p * COAP_TICKS_PER_SECOND :: u64) = unat p * 1000"
    using p up by (simp add: COAP_TICKS_PER_SECOND_def unat_word_ariths)
  have "(255 :: u64) \<le> ucast p * COAP_TICKS_PER_SECOND" using p ping by (simp add: word_le_nat_alt)
  then have "unat (ucast p * COAP_TICKS_PER_SECOND - 255 :: u64) = unat p * 1000 - 255"
    using ping unat_minus [of 255 "ucast p * COAP_TICKS_PER_SECOND"] by simp
  then have sum: "unat (ucast p * COAP_TICKS_PER_SECOND - 255 + ucast c :: u64) = unat p * 1000 - 255 + unat c"
    using p c up by (simp add: unat_word_ariths)
  then have "0 < unat (ucast p * COAP_TICKS_PER_SECOND - 255 + ucast c :: u64)" using p by simp
  then have "ucast p * COAP_TICKS_PER_SECOND - 255 + ucast c \<noteq> (0 :: u64)" by (metis unat_0 less_irrefl)
  moreover have "unat p * 1000 - 255 + unat c \<le> unat p * 1000" using p c by linarith
  ultimately show ?thesis unfolding word_le_nat_alt sum ping by blast
qed

text \<open>
  A retransmission: the session is left as it was, the message is sent once more, and the node
  goes back into the queue, to be due after twice the delay unless the ping timeout cuts it.
\<close>

lemma retransmit_again:
  assumes e: "calm e" and q: "q_session q = Some sid" "node_ok q" and s: "sessions n sid = Some s" "session_fit s"
    and cnt: "unat (retransmit_cnt q) < unat (max_retransmit (tx_params s))"
    and act: "con_active s \<noteq> 0" "unat (con_active s) \<le> unat (nstart (tx_params s))"
  obtains n' delay m where "coap_retransmit e q n = Some (q_id q, n')"
    "sendqueue n' = sendqueue (enqueue (e_ticks e m) delay (q\<lparr>retransmit_cnt := retransmit_cnt q + 1\<rparr>) n)"
    "sendqueue_basetime n' = base_at (e_ticks e m) n"
    "sessions n' = sessions n" "sends n' = sends n @ [(sid, node_bytes q)]" "kept n' = kept n" "calls n \<le> calls n'"
    "ping_timeout n = 0 \<Longrightarrow> delay = push_bit (unat (retransmit_cnt q) + 1) (ucast (q_timeout q)) \<and> m = calls n"
    "push_bit (unat (retransmit_cnt q) + 1) (ucast (q_timeout q) :: u64) \<noteq> 0 \<Longrightarrow>
      delay \<noteq> 0 \<and> delay \<le> push_bit (unat (retransmit_cnt q) + 1) (ucast (q_timeout q))"
proof -
  obtain pdu where pdu: "q_pdu q = Some pdu" "message_ok pdu" using q(2) by (auto simp: node_ok_def)
  have con: "is_con s pdu" using fit_con pdu(2) s(2) by (simp add: session_fit_def)
  have small: "unat (retransmit_cnt q) + 1 < 32" using cnt s(2) by (simp add: session_fit_def)
  then have cnt1: "unat (retransmit_cnt q + 1) = unat (retransmit_cnt q) + 1" by (simp add: unat_word_ariths)
  define q1 where "q1 = q\<lparr>retransmit_cnt := retransmit_cnt q + 1\<rparr>"
  define n1 where "n1 = n\<lparr>event_log := event_log n @ [(COAP_EVENT_MSG_RETRANSMITTED, sid)]\<rparr>"
  let ?ping = "ucast (ping_timeout n1) * COAP_TICKS_PER_SECOND :: u64" and ?double = "push_bit (unat (retransmit_cnt q) + 1) (ucast (q_timeout q)) :: u64"
  let ?cut = "ping_timeout n1 \<noteq> 0 \<and> ?ping < ?double"
  obtain delay k where delay: "next_delay e q1 n1 = Some (delay, n1\<lparr>calls := k\<rparr>)" "calls n1 \<le> k"
      "ping_timeout n1 = 0 \<Longrightarrow> delay = ?double \<and> k = calls n1" "?double \<noteq> 0 \<Longrightarrow> delay \<noteq> 0 \<and> delay \<le> ?double"
  proof (cases ?cut)
    case True
    have "?ping - 255 + ucast (e_prng e (calls n1)) \<noteq> 0 \<and> ?ping - 255 + ucast (e_prng e (calls n1)) \<le> ?ping"
      by (rule ping_delay) (use True in blast)
    then have cut: "?ping - 255 + ucast (e_prng e (calls n1)) \<noteq> 0 \<and> ?ping - 255 + ucast (e_prng e (calls n1)) \<le> ?double"
      using True by auto
    have "next_delay e q1 n1 = Some (?ping - 255 + ucast (e_prng e (calls n1)), n1\<lparr>calls := calls n1 + 1\<rparr>)"
      using True small cnt1 by (simp add: next_delay_def q1_def env_call_def Let_def)
    then show ?thesis by (rule that) (use True cut in simp_all)
  next
    case False
    have "n1\<lparr>calls := calls n1\<rparr> = n1" by (cases n1) simp
    then have "next_delay e q1 n1 = Some (?double, n1\<lparr>calls := calls n1\<rparr>)"
      using small cnt1 False by (auto simp: next_delay_def q1_def Let_def)
    then show ?thesis by (rule that) simp_all
  qed
  define n3 where "n3 = enqueue (e_ticks e k) delay q1 (n1\<lparr>calls := k + 1\<rparr>)"
  define s1 where "s1 = s\<lparr>con_active := con_active s - 1\<rparr>"
  define n4 where "n4 = put_session sid s1 n3"
  have n4: "sessions n4 sid = Some s1" "sessions n4 = (sessions n)(sid \<mapsto> s1)" by (simp_all add: n4_def n3_def n1_def put_session_def)
  have "\<not> is_mcast q" using q(2) by (simp add: node_ok_def)
  then have enter: "coap_retransmit e q n = do {
      (bytes_written, n) \<leftarrow> coap_send_pdu e sid pdu (Some q1) n4;
      if bytes_written = COAP_PDU_DELAYED then Some (q_id q, n) else if bytes_written < 0 then Some (bytes_written, n) else Some (q_id q, n)
    }"
    using delay(1) q(1) s(1) pdu(1) cnt act(1)
    by (simp add: coap_retransmit_def handle_event_def Let_def env_call_def n4_def n3_def n1_def q1_def s1_def cong: if_cong)
  obtain w where w: "0 \<le> w" "coap_session_send_pdu e sid pdu n4 =
      Some (w, n4\<lparr>calls := calls n4 + 1, sent_log := sent_log n4 @ [(sid, wire pdu, w)]\<rparr>)"
    by (rule send_pdu_calm [OF e n4(1) pdu(2)])
  let ?n5 = "n4\<lparr>calls := calls n4 + 1, sent_log := sent_log n4 @ [(sid, wire pdu, w)]\<rparr>"
  have room: "\<not> unat (nstart (tx_params s1)) \<le> unat (con_active s1)"
    using act(2) unat_pred8 [OF act(1)] unat_gt_0 [of "con_active s"] act(1) by (simp add: s1_def)
  have "coap_send_pdu e sid pdu qo n4 = Some (w, put_session sid (s1\<lparr>con_active := con_active s1 + 1\<rparr>) ?n5)" for qo
    using s(2) n4(1) w con room pdu(2)
    by (auto simp: coap_send_pdu_def s1_def session_fit_def flag_set_def message_ok_def)
  then have run: "coap_retransmit e q n = Some (q_id q, put_session sid (s1\<lparr>con_active := con_active s1 + 1\<rparr>) ?n5)"
    using w(1) enter by simp
  have same: "s1\<lparr>con_active := con_active s1 + 1\<rparr> = s" by (cases s) (simp add: s1_def)
  show thesis
  proof (rule that [OF run, of k delay])
    show "sessions (put_session sid (s1\<lparr>con_active := con_active s1 + 1\<rparr>) ?n5) = sessions n"
      unfolding same using s(1) n4(2) by (auto simp: put_session_def)
  qed (use delay pdu(1) in \<open>auto simp: n4_def n3_def n1_def q1_def put_session_def enqueue_eq base_at_def sends_def node_bytes_def kept_def\<close>)
qed

text \<open>The other end: the message is given up, with one report to the application.\<close>

lemma retransmit_give_up:
  assumes e: "calm e" and inv: "net_inv {#} n" and q: "q_session q = Some sid" and s: "sessions n sid = Some s"
    and out: "cores (sendqueue n) = add_mset (core q) (cores queue)"
    and cnt: "\<not> unat (retransmit_cnt q) < unat (max_retransmit (tx_params s))"
  obtains n1 n' where "coap_retransmit e q (n\<lparr>sendqueue := queue\<rparr>) = Some (COAP_INVALID_MID, n')" "net_inv {#} n'"
    "\<forall>j. full_window j n \<or> j = sid \<longrightarrow> full_window j n'" "flushed e sid (n\<lparr>sendqueue := queue\<rparr>) n1"
    "timeline n' = timeline n1" "sends n' = sends n1"
    "nack_log n' = nack_log n @ (if nack_handler n then [(sid, q_pdu q, COAP_NACK_TOO_MANY_RETRIES, q_id q)] else [])"
    "ping_timeout n' = ping_timeout n"
proof -
  let ?n = "n\<lparr>sendqueue := queue\<rparr>"
  have "node_ok q" using inv out by (simp add: net_inv_def queued_ok_def)
  then obtain pdu where pdu: "q_pdu q = Some pdu" "message_ok pdu" by (auto simp: node_ok_def)
  obtain n1 where n1: "con_done e sid ?n = Some n1" "net_inv {#core q#} n1" "full_window sid n1" "flushed e sid ?n n1"
    by (rule finish_one [OF e inv q out])
  let ?n2 = "if nack_handler n1 then n1\<lparr>nack_log := nack_log n1 @ [(sid, Some pdu, COAP_NACK_TOO_MANY_RETRIES, q_id q)]\<rparr> else n1"
  have nack: "nack sid COAP_NACK_TOO_MANY_RETRIES q n1 = Some ?n2"
    using pdu by (simp add: nack_def message_ok_def call_nack_handler_def)
  have n2: "net_inv {#core q#} ?n2" "full_window sid ?n2" "sends ?n2 = sends n1" "sendqueue ?n2 = sendqueue n1" "sessions ?n2 = sessions n1"
    using n1(2,3) by (simp_all add: net_inv_def full_window_def sends_def)
  obtain i u where d: "q_session q = Some i" "sessions ?n2 i = Some u"
    "coap_delete_node q ?n2 = Some (put_session i (u\<lparr>ref := ref u - 1\<rparr>) ?n2\<lparr>freed_nodes := freed_nodes ?n2 @ [q_addr q]\<rparr>)"
    "net_inv {#} (put_session i (u\<lparr>ref := ref u - 1\<rparr>) ?n2\<lparr>freed_nodes := freed_nodes ?n2 @ [q_addr q]\<rparr>)"
    by (rule inv_delete_node [OF n2(1)])
  let ?n3 = "put_session i (u\<lparr>ref := ref u - 1\<rparr>) ?n2\<lparr>freed_nodes := freed_nodes ?n2 @ [q_addr q]\<rparr>"
  have i: "i = sid" using d(1) q by simp
  have "sessions ?n sid = Some s" using s by simp
  then have run: "coap_retransmit e q ?n = Some (COAP_INVALID_MID, ?n3)"
    using q pdu cnt n1(1) nack d(3) by (simp add: coap_retransmit_def message_ok_def)
  have kept: "kept n1 = kept ?n" using n1(4) by (simp add: flushed_def)
  have "full_window j ?n3" if "full_window j n \<or> j = sid" for j
  proof (cases "j = sid")
    case True
    then show ?thesis using n2(2) d(2) i by (simp add: full_window_def put_session_def)
  next
    case False
    then have "sessions ?n3 j = sessions n j" using n1(4) i n2(5) by (simp add: put_session_def flushed_def)
    then show ?thesis using that False full_window_cong by blast
  qed
  then show thesis
    by (intro that [OF run d(4) _ n1(4)]) (use pdu(1) kept in \<open>auto simp: put_session_def sends_def kept_def timeline_def\<close>)
qed

lemma retransmit_first_calm:
  assumes e: "calm e" and inv: "net_inv {#} n" and ne: "sendqueue n \<noteq> []"
  obtains n' where "retransmit_first e n = Some n'" "net_inv {#} n'" "\<forall>j. full_window j n \<longrightarrow> full_window j n'"
proof -
  obtain q qs where q: "sendqueue n = q # qs" using ne by (cases "sendqueue n") auto
  have pop: "coap_pop_next (sendqueue n) = (Some q, take_over q qs)" by (simp add: coap_pop_next_def q)
  have out: "cores (sendqueue n) = add_mset (core q) (cores (take_over q qs))" by (simp add: q)
  obtain sid s where s: "q_session q = Some sid" "sessions n sid = Some s" "node_ok q" "q_addr q < calls n"
      "unat (retransmit_cnt q) \<le> unat (max_retransmit (tx_params s))"
    using inv q by (auto simp: net_inv_def queued_ok_def)
  have own: "session_inv {#} (cores (sendqueue n)) (calls n) sid s" by (rule net_inv_session [OF inv s(2)])
  show thesis
  proof (cases "unat (retransmit_cnt q) < unat (max_retransmit (tx_params s))")
    case True
    let ?n = "n\<lparr>sendqueue := take_over q qs\<rparr>" and ?q = "q\<lparr>retransmit_cnt := retransmit_cnt q + 1\<rparr>"
    have fit: "session_fit s" "con_active s \<noteq> 0" "unat (con_active s) \<le> unat (nstart (tx_params s))" "sessions ?n sid = Some s"
      using own s(1,2) by (auto simp: session_inv_def q)
    obtain n' delay m where run: "coap_retransmit e q ?n = Some (q_id q, n')"
      and queue: "sendqueue n' = sendqueue (enqueue (e_ticks e m) delay ?q ?n)" and n': "sessions n' = sessions ?n" "calls ?n \<le> calls n'"
      using retransmit_again [OF e s(1,3) fit(4,1) True fit(2,3)] by metis
    have cores: "cores (sendqueue n') = add_mset (core ?q) (cores qs)" by (simp add: queue)
    have "unat (retransmit_cnt q) + 1 < 32" using True fit(1) by (simp add: session_fit_def)
    then have cnt1: "unat (retransmit_cnt q + 1) = unat (retransmit_cnt q) + 1" by (simp add: unat_word_ariths)
    have upd: "sessions n' = (sessions n)(sid \<mapsto> s)" using n'(1) s(2) by (simp add: fun_upd_idem)
    have "net_inv {#} n'"
    proof (rule net_inv_upd [OF inv s(2) upd])
      have "queued_ok (cores (sendqueue n)) ((sessions n)(sid \<mapsto> s)) (calls n')"
        by (rule queued_ok_mono [where k = "calls n" and s = s]) (use inv s(2) n'(2) in \<open>simp_all add: net_inv_def\<close>)
      moreover have "node_ok (core ?q)" using s(3) by (simp add: node_ok_def)
      ultimately show "queued_ok ({#} + cores (sendqueue n')) (sessions n') (calls n')"
        unfolding upd cores using s n'(2) True cnt1 by (simp add: queued_ok_def q)
      show "session_inv {#} (cores (sendqueue n')) (calls n') sid s"
        using own delayed_ok_mono [OF n'(2), of "delayqueue s"] unfolding cores by (simp add: session_inv_def q)
    next
      fix j t assume "j \<noteq> sid" "sessions n j = Some t"
      then show "out j (cores (sendqueue n')) = out j (cores (sendqueue n)) \<and>
          out j ({#} + cores (sendqueue n')) = out j ({#} + cores (sendqueue n)) \<and>
          uniq (image_mset q_addr ({#} + cores (sendqueue n')) + mset (map q_addr (delayqueue t)))"
        using net_inv_session [OF inv, of j t] unfolding cores by (simp add: session_inv_def q)
    qed (use n'(2) in auto)
    moreover have "full_window j n' = full_window j n" for j using n'(1) by (simp add: full_window_def)
    ultimately show thesis using that pop run by (simp add: retransmit_first_def)
  next
    case False
    obtain n1 n' where "coap_retransmit e q (n\<lparr>sendqueue := take_over q qs\<rparr>) = Some (COAP_INVALID_MID, n')" "net_inv {#} n'"
      "\<forall>j. full_window j n \<or> j = sid \<longrightarrow> full_window j n'" "flushed e sid (n\<lparr>sendqueue := take_over q qs\<rparr>) n1"
      "timeline n' = timeline n1" "sends n' = sends n1"
      "nack_log n' = nack_log n @ (if nack_handler n then [(sid, q_pdu q, COAP_NACK_TOO_MANY_RETRIES, q_id q)] else [])" "ping_timeout n' = ping_timeout n"
      by (rule retransmit_give_up [OF e inv s(1,2) out False])
    then show thesis using that pop by (simp add: retransmit_first_def)
  qed
qed

text \<open>A request as the application hands it over, and what the header encoder makes of it.\<close>

definition request_ok :: "coap_pdu \<Rightarrow> bool" where
  "request_ok pdu \<longleftrightarrow> pdu_type pdu = COAP_MESSAGE_CON \<and> pdu_code pdu < 64 \<and> token_length pdu \<le> COAP_TOKEN_EXT_MAX \<and>
     length (hdr pdu) = 6 \<and> max_hdr_size pdu = 6 \<and> used_size pdu \<le> length (mem pdu) \<and> token_s pdu + token_length pdu \<le> length (mem pdu)"

definition datagram :: "coap_pdu \<Rightarrow> bytes" where
  "datagram pdu = [first_byte pdu, pdu_code pdu, ucast (drop_bit 8 (pdu_mid pdu)), ucast (pdu_mid pdu)] @ take (used_size pdu) (mem pdu)"

lemma encode_request:
  assumes "request_ok pdu"
  obtains p where "coap_pdu_encode_header (pdu\<lparr>session := x\<rparr>) COAP_PROTO_UDP = Some (4, p)" "message_ok p"
    "pdu_mid p = pdu_mid pdu" "wire p = datagram pdu"
proof -
  obtain a b c d e f where hdr: "hdr pdu = [a, b, c, d, e, f]"
    using assms by (auto simp: request_ok_def length_Suc_conv numeral_eq_Suc)
  have tkl: "tkl_field (pdu\<lparr>session := x\<rparr>) = Accepted (word_of_nat (ext_nibble (token_length pdu)))"
    using assms by (simp add: request_ok_def tkl_field_def ext_nibble_def coap_const_defs)
  let ?p = "pdu\<lparr>session := x, hdr := [a, b, first_byte pdu, pdu_code pdu, ucast (drop_bit 8 (pdu_mid pdu)), ucast (pdu_mid pdu)], hdr_size := 4\<rparr>"
  have "coap_pdu_encode_header (pdu\<lparr>session := x\<rparr>) COAP_PROTO_UDP = Some (4, ?p)"
    using tkl assms hdr
    by (simp add: coap_pdu_encode_header_def COAP_PROTO_NOT_RELIABLE_def hdr_store_def c_store_def first_byte_def request_ok_def)
  then show thesis
    by (rule that) (use assms in \<open>simp_all add: request_ok_def message_ok_def sendable_def wire_def datagram_def\<close>)
qed

text \<open>What \<open>coap_send_internal\<close> does with a request that may be sent at once, and with one that has to wait.\<close>

lemma send_at_once:
  assumes e: "calm e" and s: "sessions n sid = Some s" "session_fit s" and pdu: "request_ok pdu"
    and room: "unat (con_active s) < unat (nstart (tx_params s))"
  obtains n' p where "coap_send_internal e h sid pdu n = Some (uint (pdu_mid pdu), n')" "message_ok p" "pdu_mid p = pdu_mid pdu"
    "wire p = datagram pdu"
    "sendqueue n' = sendqueue (enqueue (e_ticks e (calls n + 3)) (ucast (coap_calc_timeout (tx_params s) (e_prng e (calls n + 2))))
      \<lparr>q_addr = calls n + 1, q_t = 0, retransmit_cnt = 0, is_mcast = False,
        q_timeout = coap_calc_timeout (tx_params s) (e_prng e (calls n + 2)), q_session = Some sid, q_id = uint (pdu_mid pdu), q_pdu = Some p\<rparr> n)"
    "sendqueue_basetime n' = base_at (e_ticks e (calls n + 3)) n"
    "sessions n' = (sessions n)(sid \<mapsto> s\<lparr>con_active := con_active s + 1, ref := ref s + 1\<rparr>)"
    "sends n' = sends n @ [(sid, datagram pdu)]" "kept n' = kept n" "calls n' = calls n + 4"
proof -
  obtain p where p: "coap_pdu_encode_header (pdu\<lparr>session := Some sid\<rparr>) COAP_PROTO_UDP = Some (4, p)" "message_ok p"
      "pdu_mid p = pdu_mid pdu" "wire p = datagram pdu"
    by (rule encode_request [OF pdu])
  have con: "is_con s p" "pdu_type p = COAP_MESSAGE_CON" using fit_con p(2) s(2) by (auto simp: session_fit_def message_ok_def)
  obtain w where w: "0 \<le> w" "coap_session_send_pdu e sid p n =
      Some (w, n\<lparr>calls := calls n + 1, sent_log := sent_log n @ [(sid, wire p, w)]\<rparr>)"
    by (rule send_pdu_calm [OF e s(1) p(2)])
  let ?s = "s\<lparr>con_active := con_active s + 1\<rparr>"
  let ?n1 = "put_session sid ?s (n\<lparr>calls := calls n + 1, sent_log := sent_log n @ [(sid, wire p, w)]\<rparr>)"
  have send: "coap_send_pdu e sid p None n = Some (w, ?n1)"
    using s w con room by (auto simp: coap_send_pdu_def session_fit_def)
  let ?t = "coap_calc_timeout (tx_params s) (e_prng e (calls n + 2))"
  let ?q = "\<lparr>q_addr = calls n + 1, q_t = 0, retransmit_cnt = 0, is_mcast = False, q_timeout = ?t,
      q_session = None, q_id = uint (pdu_mid pdu), q_pdu = Some p\<rparr>"
  let ?n2 = "?n1\<lparr>calls := calls n + 3\<rparr>"
  have ack: "coap_wait_ack e sid ?q ?n2 = Some (uint (pdu_mid pdu), enqueue (e_ticks e (calls n + 3)) (ucast ?t) (?q\<lparr>q_session := Some sid\<rparr>)
      (put_session sid (?s\<lparr>ref := ref s + 1\<rparr>) ?n2\<lparr>calls := calls n + 4\<rparr>))"
    using wait_ack_eq [of ?n2 sid ?s ?q e] by (simp add: put_session_def add.commute [of 4])
  have code: "pdu_code pdu \<noteq> COAP_RESPONSE_CODE 508" using pdu by (auto simp: request_ok_def COAP_RESPONSE_CODE_def)
  have "e_node e (calls n + 1)" using e by (simp add: calm_def)
  then have "coap_send_internal e h sid pdu n = Some (uint (pdu_mid pdu), enqueue (e_ticks e (calls n + 3)) (ucast ?t) (?q\<lparr>q_session := Some sid\<rparr>)
      (put_session sid (?s\<lparr>ref := ref s + 1\<rparr>) ?n2\<lparr>calls := calls n + 4\<rparr>))"
    using s code p(1,3) send con(2) w(1) ack
    by (simp add: coap_send_internal_def session_fit_def Let_def coap_malloc_node_def coap_new_node_def env_call_def put_session_def
        COAP_PDU_DELAYED_def COAP_PROTO_RELIABLE_def Suc3_eq_add_3 add.commute [of 3])
  then show thesis
    by (rule that [OF _ p(2-4)]) (simp_all add: put_session_def enqueue_eq base_at_def sends_def kept_def p(4))
qed

lemma send_delayed:
  assumes e: "calm e" and s: "sessions n sid = Some s" "session_fit s" and pdu: "request_ok pdu"
    and room: "\<not> unat (con_active s) < unat (nstart (tx_params s))"
  obtains (twice) "list_ex (\<lambda>q. q_id q = uint (pdu_mid pdu)) (delayqueue s)" "coap_send_internal e h sid pdu n = Some (COAP_INVALID_MID, n)"
  | (waits) p where "message_ok p" "pdu_mid p = pdu_mid pdu" "wire p = datagram pdu"
    "coap_send_internal e h sid pdu n = Some (uint (pdu_mid pdu), put_session sid (s\<lparr>delayqueue := delayqueue s @
      [\<lparr>q_addr = calls n, q_t = 0, retransmit_cnt = 0, is_mcast = False, q_timeout = coap_calc_timeout (tx_params s) (e_prng e (calls n + 1)),
        q_session = None, q_id = uint (pdu_mid pdu), q_pdu = Some p\<rparr>]\<rparr>) (n\<lparr>calls := calls n + 2\<rparr>))"
proof -
  obtain p where p: "coap_pdu_encode_header (pdu\<lparr>session := Some sid\<rparr>) COAP_PROTO_UDP = Some (4, p)" "message_ok p"
      "pdu_mid p = pdu_mid pdu" "wire p = datagram pdu"
    by (rule encode_request [OF pdu])
  have con: "is_con s p" "pdu_type p = COAP_MESSAGE_CON" using fit_con p(2) s(2) by (auto simp: session_fit_def message_ok_def)
  have code: "pdu_code pdu \<noteq> COAP_RESPONSE_CODE 508" using pdu by (auto simp: request_ok_def COAP_RESPONSE_CODE_def)
  have delay: "coap_send_pdu e sid p None n = coap_session_delay_pdu e sid p None n"
    using s con room by (auto simp: coap_send_pdu_def session_fit_def)
  show thesis
  proof (cases "list_ex (\<lambda>q. q_id q = uint (pdu_mid pdu)) (delayqueue s)")
    case True
    then have "coap_session_delay_pdu e sid p None n = Some (COAP_INVALID_MID, n)"
      using s p(3) by (simp add: coap_session_delay_pdu_def session_fit_def COAP_PROTO_NOT_RELIABLE_def)
    then have "coap_send_internal e h sid pdu n = Some (COAP_INVALID_MID, n)"
      using s code p(1,3) delay by (simp add: coap_send_internal_def session_fit_def Let_def transmit_consts)
    then show thesis using twice True by blast
  next
    case False
    have "e_node e (calls n)" using e by (simp add: calm_def)
    then have "coap_session_delay_pdu e sid p None n = Some (COAP_PDU_DELAYED, put_session sid (s\<lparr>delayqueue := delayqueue s @
      [\<lparr>q_addr = calls n, q_t = 0, retransmit_cnt = 0, is_mcast = False, q_timeout = coap_calc_timeout (tx_params s) (e_prng e (calls n + 1)),
        q_session = None, q_id = uint (pdu_mid pdu), q_pdu = Some p\<rparr>]\<rparr>) (n\<lparr>calls := calls n + 2\<rparr>))"
      using s p(3) con False by (auto simp: coap_session_delay_pdu_def coap_malloc_node_def coap_new_node_def env_call_def delay_append_def Let_def)
    then show thesis
      by (intro waits [OF p(2-4)])
        (use s code p(1,3) delay in \<open>simp add: coap_send_internal_def session_fit_def Let_def\<close>)
  qed
qed

lemma send_calm:
  assumes e: "calm e" and inv: "net_inv {#} n" and s: "sessions n sid = Some s" and pdu: "request_ok pdu"
  obtains r n' where "coap_send_internal e h sid pdu n = Some (r, n')" "net_inv {#} n'" "\<forall>j. full_window j n \<longrightarrow> full_window j n'"
proof -
  let ?M = "cores (sendqueue n)"
  have own: "session_inv {#} ?M (calls n) sid s" by (rule net_inv_session [OF inv s])
  then have fit: "session_fit s" and small: "unat (nstart (tx_params s)) < 256"
    and timeout: "\<And>r. coap_calc_timeout (tx_params s) r \<noteq> 0" by (simp_all add: session_inv_def session_fit_def)
  have old: "queued_ok ?M ((sessions n)(sid \<mapsto> s')) k" if "tx_params s' = tx_params s" "calls n \<le> k" for s' k
    by (rule queued_ok_mono [where k = "calls n" and s = s]) (use inv s that in \<open>simp_all add: net_inv_def\<close>)
  have fresh: "k \<notin> q_addr ` set_mset ?M \<and> (\<forall>j t. sessions n j = Some t \<longrightarrow> k \<notin> q_addr ` set (delayqueue t))" if "calls n \<le> k" for k
  proof -
    have "\<forall>q \<in># ?M. q_addr q < calls n" using inv by (simp add: net_inv_def queued_ok_def)
    moreover have "q_addr q < calls n" if "sessions n j = Some t" "q \<in> set (delayqueue t)" for j t q
      using net_inv_session [OF inv that(1)] that(2) by (auto simp: session_inv_def list_all_iff delayed_ok_def)
    ultimately show ?thesis using that by fastforce
  qed
  show thesis
  proof (cases "unat (con_active s) < unat (nstart (tx_params s))")
    case True
    obtain n' p where n': "coap_send_internal e h sid pdu n = Some (uint (pdu_mid pdu), n')" "message_ok p" "pdu_mid p = pdu_mid pdu"
      "wire p = datagram pdu"
      "sendqueue n' = sendqueue (enqueue (e_ticks e (calls n + 3)) (ucast (coap_calc_timeout (tx_params s) (e_prng e (calls n + 2))))
        \<lparr>q_addr = calls n + 1, q_t = 0, retransmit_cnt = 0, is_mcast = False,
          q_timeout = coap_calc_timeout (tx_params s) (e_prng e (calls n + 2)), q_session = Some sid, q_id = uint (pdu_mid pdu), q_pdu = Some p\<rparr> n)"
      "sendqueue_basetime n' = base_at (e_ticks e (calls n + 3)) n"
      "sessions n' = (sessions n)(sid \<mapsto> s\<lparr>con_active := con_active s + 1, ref := ref s + 1\<rparr>)"
      "sends n' = sends n @ [(sid, datagram pdu)]" "kept n' = kept n" "calls n' = calls n + 4"
      by (rule send_at_once [OF e s fit pdu True])
    define q where "q = \<lparr>q_addr = calls n + 1, q_t = 0, retransmit_cnt = 0, is_mcast = False,
          q_timeout = coap_calc_timeout (tx_params s) (e_prng e (calls n + 2)), q_session = Some sid, q_id = uint (pdu_mid pdu), q_pdu = Some p\<rparr>"
    have cores: "cores (sendqueue n') = add_mset (core q) ?M" by (simp add: n'(5) q_def)
    have q: "node_ok (core q)" "q_addr q = calls n + 1" "q_session q = Some sid" "retransmit_cnt q = 0"
      using n'(2,3) timeout by (simp_all add: q_def node_ok_def)
    let ?s = "s\<lparr>con_active := con_active s + 1, ref := ref s + 1\<rparr>"
    have "net_inv {#} n'"
    proof (rule net_inv_upd [OF inv s n'(7)])
      show "queued_ok ({#} + cores (sendqueue n')) (sessions n') (calls n')"
        using old [of ?s "calls n'"] q n'(10) unfolding cores by (simp add: queued_ok_def n'(7))
      show "session_inv {#} (cores (sendqueue n')) (calls n') sid ?s"
        using own True unat_succ8 [OF True small] delayed_ok_mono [of "calls n" "calls n'" "delayqueue s"] fresh [of "calls n + 1"] s n'(10) q
        unfolding cores by (auto simp: session_inv_def session_fit_def flag_set_def)
    next
      fix j t assume "j \<noteq> sid" "sessions n j = Some t"
      then show "out j (cores (sendqueue n')) = out j ?M \<and> out j ({#} + cores (sendqueue n')) = out j ({#} + ?M) \<and>
          uniq (image_mset q_addr ({#} + cores (sendqueue n')) + mset (map q_addr (delayqueue t)))"
        using net_inv_session [OF inv, of j t] fresh [of "calls n + 1"] q unfolding cores by (auto simp: session_inv_def)
    qed (use n'(10) in auto)
    moreover have "full_window j n'" if "full_window j n" for j
    proof (cases "j = sid")
      case j: True
      then have "delayqueue s = []" using that s True by (auto simp: full_window_def)
      then show ?thesis using j by (simp add: full_window_def n'(7))
    qed (use that in \<open>simp add: full_window_def n'(7)\<close>)
    ultimately show thesis using that n'(1) by blast
  next
    case False
    have le: "unat (con_active s) \<le> unat (nstart (tx_params s))" using own by (simp add: session_inv_def)
    show thesis
    proof (cases rule: send_delayed [OF e s fit pdu False, where h = h, case_names twice waits])
      case twice
      then show thesis using that inv by blast
    next
      case (waits p)
      define q where "q = \<lparr>q_addr = calls n, q_t = 0, retransmit_cnt = 0, is_mcast = False, q_timeout = coap_calc_timeout (tx_params s) (e_prng e (calls n + 1)),
        q_session = None, q_id = uint (pdu_mid pdu), q_pdu = Some p\<rparr>"
      let ?s = "s\<lparr>delayqueue := delayqueue s @ [q]\<rparr>"
      define n' where "n' = put_session sid ?s (n\<lparr>calls := calls n + 2\<rparr>)"
      have n': "sessions n' = (sessions n)(sid \<mapsto> ?s)" "sendqueue n' = sendqueue n" "calls n' = calls n + 2"
        by (simp_all add: n'_def put_session_def)
      have q: "delayed_ok (calls n') q" "q_addr q = calls n"
        using waits timeout by (simp_all add: q_def delayed_ok_def node_ok_def n'(3))
      have "net_inv {#} n'"
      proof (rule net_inv_upd [OF inv s n'(1)])
        show "queued_ok ({#} + cores (sendqueue n')) (sessions n') (calls n')"
          using old [of ?s "calls n'"] by (simp add: n')
        show "session_inv {#} (cores (sendqueue n')) (calls n') sid ?s"
          using own q delayed_ok_mono [of "calls n" "calls n'" "delayqueue s"] fresh [of "calls n"] s
          by (auto simp: session_inv_def session_fit_def flag_set_def n')
      next
        fix j t assume "j \<noteq> sid" "sessions n j = Some t"
        then show "out j (cores (sendqueue n')) = out j ?M \<and> out j ({#} + cores (sendqueue n')) = out j ({#} + ?M) \<and>
            uniq (image_mset q_addr ({#} + cores (sendqueue n')) + mset (map q_addr (delayqueue t)))"
          using net_inv_session [OF inv, of j t] by (simp add: session_inv_def n')
      qed (use q(2) in \<open>auto simp: n'\<close>)
      moreover have "full_window j n'" if "full_window j n" for j
        using that le False by (cases "j = sid") (simp_all add: full_window_def n'(1))
      ultimately show thesis using that waits(4) by (simp add: n'_def q_def)
    qed
  qed
qed

text \<open>What the invariant says of a node in the queue.\<close>

lemma inv_node:
  assumes "net_inv {#} n" "q \<in> set (sendqueue n)"
  obtains sid s where "q_session q = Some sid" "sessions n sid = Some s" "session_fit s" "node_ok q"
    "unat (retransmit_cnt q) \<le> unat (max_retransmit (tx_params s))" "con_active s \<noteq> 0"
    "unat (con_active s) \<le> unat (nstart (tx_params s))"
proof -
  have "core q \<in># cores (sendqueue n)" using assms(2) by (simp add: cores_def)
  then have "node_ok (core q) \<and> (\<exists>sid s. q_session (core q) = Some sid \<and> sessions n sid = Some s \<and>
      unat (retransmit_cnt (core q)) \<le> unat (max_retransmit (tx_params s)))"
    using assms(1) unfolding net_inv_def queued_ok_def by fastforce
  then obtain sid s where s: "node_ok q" "q_session q = Some sid" "sessions n sid = Some s"
      "unat (retransmit_cnt q) \<le> unat (max_retransmit (tx_params s))" by auto
  have own: "session_inv {#} (cores (sendqueue n)) (calls n) sid s" by (rule net_inv_session [OF assms(1) s(3)])
  have "0 < outstanding sid (sendqueue n)"
    using s(2) assms(2) by (auto simp: outstanding_def filter_empty_conv)
  then have "con_active s \<noteq> 0" "session_fit s" "unat (con_active s) \<le> unat (nstart (tx_params s))"
    using own by (auto simp: session_inv_def out_cores)
  then show thesis using that s by blast
qed

end
