(* ===== verification/Coap_Disconnect.thy ===== *)
theory Coap_Disconnect
  imports Coap_Active
begin

text \<open>
  Disconnecting a session (\<open>coap_session_disconnected\<close>, \<open>coap_cancel_session_messages\<close>): which messages
  are reported and freed, that the invariant \<open>net_inv\<close> holds again, and what becomes of the deadlines of the
  messages that stay.
\<close>

section \<open>Reports and freed nodes\<close>

text \<open>What the application is told of a list of messages.\<close>

definition reports :: "nat \<Rightarrow> coap_nack_reason \<Rightarrow> net \<Rightarrow> coap_queue list \<Rightarrow> (nat \<times> coap_pdu option \<times> coap_nack_reason \<times> int) list" where
  "reports sid reason n qs = (if nack_handler n then map (\<lambda>q. (sid, q_pdu q, reason, q_id q)) qs else [])"

lemma reports_simps [simp]:
  "reports sid reason n [] = []" "reports sid reason n (ps @ qs) = reports sid reason n ps @ reports sid reason n qs"
  "reports sid reason n (q # qs) = reports sid reason n [q] @ reports sid reason n qs"
  by (simp_all add: reports_def)

lemma reports_cong: "nack_handler n' = nack_handler n \<Longrightarrow> reports sid reason n' = reports sid reason n"
  by (simp add: reports_def fun_eq_iff)

lemma nack_node:
  assumes "node_ok q"
  shows "nack sid reason q n = Some (n\<lparr>nack_log := nack_log n @ reports sid reason n [q]\<rparr>)"
  using assms by (cases n) (auto simp: node_ok_def message_ok_def nack_def call_nack_handler_def reports_def)

lemma free_delayed_eq:
  assumes "\<forall>q \<in> set qs. node_ok q \<and> q_session q = None"
  shows "free_delayed sid reason qs n = Some (n\<lparr>nack_log := nack_log n @ reports sid reason n qs,
    freed_nodes := freed_nodes n @ map q_addr qs\<rparr>)"
  using assms
proof (induction qs arbitrary: n)
  case Nil
  then show ?case by (cases n) simp
next
  case (Cons q qs)
  then show ?case
    by (simp add: nack_node reports_def)
qed

section \<open>Cancelling the messages of a session\<close>

text \<open>The state when the nodes \<open>rs\<close> of the session \<open>s\<close> have been reported and freed, and \<open>qs\<close> is left of the queue.\<close>

definition cancelled :: "nat \<Rightarrow> coap_nack_reason \<Rightarrow> net_session \<Rightarrow> coap_queue list \<Rightarrow> coap_queue list \<Rightarrow> net \<Rightarrow> net" where
  "cancelled sid reason s rs qs n = n\<lparr>sendqueue := qs, sessions := (sessions n)(sid \<mapsto> s\<lparr>ref := ref s - length rs\<rparr>),
     nack_log := nack_log n @ reports sid reason n rs, freed_nodes := freed_nodes n @ map q_addr rs\<rparr>"

lemma cancelled_start: "sessions n sid = Some s \<Longrightarrow> cancelled sid reason s [] (sendqueue n) n = n"
  by (cases n) (simp add: cancelled_def reports_def fun_upd_idem)

lemma cancelled_simps [simp]:
  "sendqueue (cancelled sid reason s rs qs n) = qs"
  "cancelled sid reason s rs qs (n\<lparr>sendqueue := ps\<rparr>) = cancelled sid reason s rs qs n"
  "(cancelled sid reason s rs qs n)\<lparr>sendqueue := ps\<rparr> = cancelled sid reason s rs ps n"
  by (simp_all add: cancelled_def reports_def)

lemma cancel_node_eq:
  assumes "node_ok q" "q_session q = Some sid" "length rs + 1 < ref s" "q_addr q \<notin> q_addr ` set qs"
  shows "cancel_node sid reason q (cancelled sid reason s rs qs n) = Some (cancelled sid reason s (rs @ [q]) qs n)"
proof -
  have "\<not> ref s - length rs \<le> Suc 0" using assms(3) by simp
  then show ?thesis using assms
  by (simp add: cancel_node_def nack_node cancelled_def coap_delete_node_def coap_session_release_def ll_delete_absent put_session_def
      Let_def reports_def)
qed

text \<open>The other nodes of a queue.\<close>

abbreviation theirs :: "nat \<Rightarrow> coap_queue \<Rightarrow> bool" where
  "theirs sid q \<equiv> q_session q \<noteq> Some sid"

abbreviation mine :: "nat \<Rightarrow> coap_queue \<Rightarrow> bool" where
  "mine sid q \<equiv> q_session q = Some sid"

lemma cancel_behind_eq:
  assumes "\<forall>q \<in> set qs. node_ok q" "distinct (map q_addr (ps @ qs))" "length rs + outstanding sid qs < ref s"
  shows "cancel_behind sid reason ps qs (cancelled sid reason s rs (ps @ qs) n) =
    Some (cancelled sid reason s (rs @ filter (mine sid) qs) (ps @ filter (theirs sid) qs) n)"
  using assms
proof (induction qs arbitrary: ps rs)
  case (Cons q qs)
  show ?case
  proof (cases "q_session q = Some sid")
    case True
    have "q_addr q \<notin> q_addr ` set (ps @ qs)" using Cons.prems(2) by auto
    then have "cancel_node sid reason q (cancelled sid reason s rs (ps @ qs) n) = Some (cancelled sid reason s (rs @ [q]) (ps @ qs) n)"
      using Cons.prems(1,3) True by (intro cancel_node_eq) auto
    then show ?thesis using True Cons.IH [of ps "rs @ [q]"] Cons.prems by simp
  next
    case False
    then show ?thesis using Cons.IH [of "ps @ [q]" rs] Cons.prems by simp
  qed
qed simp

lemma cancel_heads_eq:
  assumes "\<forall>q \<in> set qs. node_ok q" "distinct (map q_addr qs)" "length rs + outstanding sid qs < ref s"
  shows "cancel_heads sid reason (cancelled sid reason s rs qs n) =
    Some (cancelled sid reason s (rs @ takeWhile (mine sid) qs) (dropWhile (mine sid) qs) n)"
  using assms
proof (induction qs arbitrary: rs)
  case Nil
  then show ?case by (simp add: cancel_heads_def)
next
  case (Cons q qs)
  show ?case
  proof (cases "q_session q = Some sid")
    case True
    have "cancel_node sid reason q (cancelled sid reason s rs qs n) = Some (cancelled sid reason s (rs @ [q]) qs n)"
      using Cons.prems True by (intro cancel_node_eq) auto
    then have "cancel_heads sid reason (cancelled sid reason s rs (q # qs) n) = cancel_heads sid reason (cancelled sid reason s (rs @ [q]) qs n)"
      unfolding cancel_heads_def using True by (subst c_while_True) simp_all
    then show ?thesis using True Cons.IH [of "rs @ [q]"] Cons.prems by simp
  next
    case False
    then show ?thesis by (simp add: cancel_heads_def)
  qed
qed

lemma cancel_session_eq:
  assumes "sessions n sid = Some s" "\<forall>q \<in> set (sendqueue n). node_ok q" "distinct (map q_addr (sendqueue n))"
    and "outstanding sid (sendqueue n) < ref s"
  shows "coap_cancel_session_messages sid reason n =
    Some (cancelled sid reason s (filter (mine sid) (sendqueue n)) (filter (theirs sid) (sendqueue n)) n)"
proof -
  let ?T = "takeWhile (mine sid) (sendqueue n)" and ?D = "dropWhile (mine sid) (sendqueue n)"
  have split: "sendqueue n = ?T @ ?D" by simp
  have T: "filter (mine sid) ?T = ?T" "filter (theirs sid) ?T = []"
    by (auto simp: filter_id_conv filter_empty_conv dest: set_takeWhileD)
  have heads: "cancel_heads sid reason n = Some (cancelled sid reason s ?T ?D n)"
    using cancel_heads_eq [OF assms(2,3), of "[]" sid s reason n] assms(1,4) by (simp add: cancelled_start)
  show ?thesis
  proof (cases ?D)
    case Nil
    then have "sendqueue n = ?T" using split by (metis append_Nil2)
    then show ?thesis using heads T Nil by (simp add: coap_cancel_session_messages_def)
  next
    case (Cons p qs)
    obtain T where eq: "T = ?T" by simp
    have all: "sendqueue n = T @ p # qs" using split Cons eq by simp
    have mine: "filter (mine sid) T = T" "filter (theirs sid) T = []" using T eq by simp_all
    have p: "\<not> mine sid p" using hd_dropWhile [of "mine sid" "sendqueue n"] Cons by simp
    have "cancel_behind sid reason [p] qs (cancelled sid reason s T ([p] @ qs) n) =
        Some (cancelled sid reason s (T @ filter (mine sid) qs) ([p] @ filter (theirs sid) qs) n)"
    proof (rule cancel_behind_eq)
      show "\<forall>q \<in> set qs. node_ok q" "distinct (map q_addr ([p] @ qs))" using assms(2,3) by (simp_all add: all)
      show "length T + outstanding sid qs < ref s" using assms(4) p mine(1) by (simp add: all outstanding_def)
    qed
    moreover have "cancel_heads sid reason n = Some (cancelled sid reason s T (p # qs) n)" using heads Cons eq by simp
    ultimately show ?thesis using p mine by (simp add: coap_cancel_session_messages_def all)
  qed
qed
section \<open>Disconnecting keeps the invariant\<close>

lemma uniq_distinct: "uniq (mset xs) \<longleftrightarrow> distinct xs"
proof -
  have "uniq (mset xs) \<longleftrightarrow> (\<forall>a. count (mset xs) a = (if a \<in> set xs then 1 else 0))"
    unfolding uniq_def by (metis One_nat_def count_mset_0_iff le_0_eq le_Suc_eq le_zero_eq order_refl zero_le)
  then show ?thesis by (simp add: distinct_count_atmost_1)
qed

lemma uniq_mono: "uniq A \<Longrightarrow> B \<subseteq># A \<Longrightarrow> uniq B"
  unfolding uniq_def by (meson mset_subset_eq_count order_trans)

lemma inv_distinct:
  assumes "net_inv H n" "sessions n sid = Some s"
  shows "distinct (map q_addr (sendqueue n))"
proof -
  have "uniq (image_mset q_addr (H + cores (sendqueue n)) + mset (map q_addr (delayqueue s)))"
    using net_inv_session [OF assms] by (simp add: session_inv_def)
  then have "uniq (image_mset q_addr (cores (sendqueue n)))" by (rule uniq_mono) simp
  then show ?thesis by (simp only: cores_addrs [symmetric] uniq_distinct)
qed

text \<open>The session behind \<open>coap_session_disconnected\<close>.\<close>

definition closed_session :: "net_session \<Rightarrow> nat \<Rightarrow> net_session" where
  "closed_session s k = s\<lparr>session_state := COAP_SESSION_STATE_ESTABLISHED, con_active := 0, delayqueue := [],
     ref := ref s - k, sock_flags := COAP_SOCKET_EMPTY\<rparr>"

lemma disconnected_eq:
  assumes inv: "net_inv {#} n" and s: "sessions n sid = Some s" and reason: "reason \<noteq> COAP_NACK_ICMP_ISSUE"
  shows "coap_session_disconnected sid reason n = Some (n\<lparr>sendqueue := filter (theirs sid) (sendqueue n),
    nack_log := nack_log n @ reports sid reason n (delayqueue s @ filter (mine sid) (sendqueue n)),
    freed_nodes := freed_nodes n @ map q_addr (delayqueue s @ filter (mine sid) (sendqueue n)),
    sessions := (sessions n)(sid \<mapsto> closed_session s (outstanding sid (sendqueue n)))\<rparr>)"
proof -
  have own: "session_inv {#} (cores (sendqueue n)) (calls n) sid s" by (rule net_inv_session [OF inv s])
  then have udp: "proto s = COAP_PROTO_UDP" and refs: "outstanding sid (sendqueue n) < ref s"
    and delayed: "\<forall>q \<in> set (delayqueue s). node_ok q \<and> q_session q = None"
    by (auto simp: session_inv_def session_fit_def out_cores list_all_iff delayed_ok_def)
  let ?s = "s\<lparr>session_state := COAP_SESSION_STATE_ESTABLISHED, con_active := 0, delayqueue := []\<rparr>"
  let ?n = "put_session sid ?s n\<lparr>nack_log := nack_log n @ reports sid reason n (delayqueue s),
    freed_nodes := freed_nodes n @ map q_addr (delayqueue s)\<rparr>"
  have nodes: "\<forall>q \<in> set (sendqueue n). node_ok q" using inv_node [OF inv] by blast
  have drop: "free_delayed sid reason (delayqueue s) (put_session sid ?s n) = Some ?n"
    using free_delayed_eq [OF delayed, of sid reason "put_session sid ?s n"] by (simp add: put_session_def reports_def)
  have cancel: "coap_cancel_session_messages sid reason ?n =
      Some (cancelled sid reason ?s (filter (mine sid) (sendqueue n)) (filter (theirs sid) (sendqueue n)) ?n)"
    using cancel_session_eq [of ?n sid ?s reason] nodes inv_distinct [OF inv s] refs by (simp add: put_session_def)
  show ?thesis
    using s reason udp drop cancel
    by (simp add: coap_session_disconnected_def COAP_PROTO_RELIABLE_def Let_def cancelled_def put_session_def closed_session_def
        reports_def outstanding_def)
qed

lemma cores_filter: "(\<And>q. P (core q) = P q) \<Longrightarrow> cores (filter P qs) = filter_mset P (cores qs)"
  by (induction qs) simp_all

lemma out_filter: "out j (filter_mset (theirs sid) M) = (if j = sid then 0 else out j M)"
  by (induction M) auto

lemma queued_ok_sub: "queued_ok M S k \<Longrightarrow> N \<subseteq># M \<Longrightarrow> queued_ok N S k"
  unfolding queued_ok_def by (meson mset_subset_eqD)

text \<open>The events of the network, of the application and of the timers.\<close>

lemma disconnected_calm:
  assumes inv: "net_inv {#} n" and s: "sessions n sid = Some s"
  obtains n' where "coap_session_disconnected sid reason n = Some n'" "net_inv {#} n'" "\<forall>j. full_window j n \<longrightarrow> full_window j n'"
proof (cases "reason = COAP_NACK_ICMP_ISSUE")
  case True
  have "\<exists>n'. icmp_issue sid n = Some n' \<and> net_inv {#} n' \<and> (\<forall>j. full_window j n \<longrightarrow> full_window j n')"
  proof (cases "find (mine sid) (sendqueue n)")
    case None
    then show ?thesis using inv by (simp add: icmp_issue_def call_nack_handler_def net_inv_def full_window_def)
  next
    case (Some q)
    then have "q \<in> set (sendqueue n)" by (auto simp: find_Some_iff)
    then have "node_ok q" using inv_node [OF inv] by blast
    then obtain pdu where "q_pdu q = Some pdu" by (auto simp: node_ok_def)
    then show ?thesis using Some inv by (simp add: icmp_issue_def call_nack_handler_def net_inv_def full_window_def)
  qed
  then show thesis using that True s by (auto simp: coap_session_disconnected_def)
next
  case False
  let ?M = "cores (sendqueue n)" and ?N = "filter_mset (theirs sid) (cores (sendqueue n))"
  let ?s = "closed_session s (outstanding sid (sendqueue n))"
  obtain n' where n': "coap_session_disconnected sid reason n = Some n'" "cores (sendqueue n') = ?N"
      "sessions n' = (sessions n)(sid \<mapsto> ?s)" "calls n' = calls n"
    using disconnected_eq [OF inv s False] by (simp add: cores_filter)
  have own: "session_inv {#} ?M (calls n) sid s" by (rule net_inv_session [OF inv s])
  have sub: "?N \<subseteq># ?M" by simp
  have "net_inv {#} n'"
  proof (rule net_inv_upd [OF inv s n'(3)])
    have "queued_ok ?M ((sessions n)(sid \<mapsto> ?s)) (calls n)"
      by (rule queued_ok_mono [where k = "calls n" and s = s]) (use inv s in \<open>simp_all add: net_inv_def closed_session_def\<close>)
    from queued_ok_sub [OF this sub] show "queued_ok ({#} + cores (sendqueue n')) (sessions n') (calls n')"
      by (simp only: n'(2-4) add_0_left)
    have "uniq (image_mset q_addr ?M)" using own uniq_mono [of _ "image_mset q_addr ?M"] by (auto simp: session_inv_def)
    then have "uniq (image_mset q_addr ?N)" by (rule uniq_mono) (rule image_mset_subseteq_mono [OF sub])
    then show "session_inv {#} (cores (sendqueue n')) (calls n') sid ?s"
      using own unfolding n'(2)
      by (simp add: session_inv_def out_filter closed_session_def session_fit_def flag_set_def COAP_SOCKET_EMPTY_def out_cores)
  next
    fix j t assume j: "j \<noteq> sid" "sessions n j = Some t"
    have "uniq (image_mset q_addr ?M + mset (map q_addr (delayqueue t)))"
      using net_inv_session [OF inv j(2)] by (simp add: session_inv_def)
    then have "uniq (image_mset q_addr ?N + mset (map q_addr (delayqueue t)))"
      by (rule uniq_mono) (simp add: image_mset_subseteq_mono [OF sub])
    then show "out j (cores (sendqueue n')) = out j ?M \<and> out j ({#} + cores (sendqueue n')) = out j ({#} + ?M) \<and>
        uniq (image_mset q_addr ({#} + cores (sendqueue n')) + mset (map q_addr (delayqueue t)))"
      using j(1) by (simp add: n'(2) out_filter)
  qed (simp_all add: n'(4) closed_session_def)
  moreover have "full_window j n'" if "full_window j n" for j
    using that by (cases "j = sid") (simp_all add: full_window_def n'(3) closed_session_def)
  ultimately show thesis using that n'(1) by blast
qed

end
