(* ===== verification/Coap_Cancel.thy ===== *)
theory Coap_Cancel
  imports Coap_Disconnect
begin

text \<open>
  Cancelling the messages with a token (\<open>coap_cancel_all_messages\<close>). The loop holds a link into the send queue
  while flushing puts further nodes into it; it ends all the same, does not fault, and keeps the invariant \<open>net_inv\<close>.
\<close>

section \<open>The link the loop is at\<close>

lemma behind_next:
  "distinct (map q_addr qs) \<Longrightarrow> behind prev qs = Some (q # rs) \<Longrightarrow> behind (Some (q_addr q)) qs = Some rs \<and> q \<in> set qs"
  by (induction prev qs rule: behind.induct) (auto split: if_splits intro: behind.simps)

lemma behind_delete:
  "distinct (map q_addr qs) \<Longrightarrow> behind prev qs = Some (q # rs) \<Longrightarrow> behind prev (ll_delete (q_addr q) qs) = Some rs"
proof (induction prev qs rule: behind.induct)
  case (3 a p ps)
  show ?case
  proof (cases "q_addr p = a")
    case True
    then have "ps = q # rs" using "3.prems"(2) by simp
    then show ?thesis using True "3.prems"(1) by auto
  next
    case False
    then have b: "behind (Some a) ps = Some (q # rs)" using "3.prems"(2) by simp
    have "q_addr p \<noteq> q_addr q" using behind_next [OF _ b] "3.prems"(1) by auto
    then show ?thesis using False "3.IH" [OF False _ b] "3.prems"(1) by simp
  qed
qed auto

lemma cores_delete: "q \<in> set qs \<Longrightarrow> distinct (map q_addr qs) \<Longrightarrow> cores qs = add_mset (core q) (cores (ll_delete (q_addr q) qs))"
proof (induction qs)
  case (Cons p ps)
  show ?case
  proof (cases "p = q")
    case False
    then have "q_addr p \<noteq> q_addr q" using Cons.prems by auto
    then show ?thesis using Cons False by (simp add: add_mset_commute)
  qed simp
qed simp

lemma behind_insert:
  assumes "behind prev qs = Some rs" "prev \<noteq> Some (q_addr x)"
  shows "\<exists>ys. behind prev (insert_behind qs x) = Some ys \<and> length ys \<le> length rs + 1"
proof (cases prev)
  case None
  have "length (insert_behind qs x) = length qs + 1" by (induction qs arbitrary: x) auto
  then show ?thesis using assms(1) None by simp
next
  case (Some a)
  have "q_addr x \<noteq> a \<Longrightarrow> behind (Some a) qs = Some rs \<Longrightarrow> \<exists>ys. behind (Some a) (insert_behind qs x) = Some ys \<and> length ys \<le> length rs + 1" for x
  proof (induction qs arbitrary: x)
    case (Cons q qs)
    have len: "length (insert_behind qs y) = length qs + 1" for y by (induction qs arbitrary: y) auto
    show ?case
    proof (cases "q_addr q = a")
      case True
      then show ?thesis using Cons.prems len by auto
    next
      case False
      then show ?thesis using Cons.prems Cons.IH by auto
    qed
  qed simp
  then show ?thesis using assms Some by auto
qed

lemma behind_flush:
  assumes "behind prev (fst qb) = Some rs" "\<forall>(q, t) \<in> set qts. prev \<noteq> Some (q_addr q)"
  shows "\<exists>ys. behind prev (fst (foldl (put_delayed sid) qb qts)) = Some ys \<and> length ys \<le> length rs + length qts"
  using assms
proof (induction qts arbitrary: qb rs)
  case (Cons x qts)
  obtain q t where x: "x = (q, t)" by (cases x)
  obtain qs b where qb: "qb = (qs, b)" by (cases qb)
  have "fst (put_delayed sid qb x) = insert_behind qs (q\<lparr>q_session := Some sid, q_t := (t - (if qs = [] then t else b)) + ucast (q_timeout q)\<rparr>)"
    by (simp add: put_delayed_def x qb Let_def insert_is_behind)
  then obtain ys where ys: "behind prev (fst (put_delayed sid qb x)) = Some ys" "length ys \<le> length rs + 1"
    using behind_insert [of prev qs rs "q\<lparr>q_session := Some sid, q_t := (t - (if qs = [] then t else b)) + ucast (q_timeout q)\<rparr>"]
      Cons.prems x qb by auto
  obtain zs where "behind prev (fst (foldl (put_delayed sid) (put_delayed sid qb x) qts)) = Some zs" "length zs \<le> length ys + length qts"
    using Cons.IH [OF ys(1)] Cons.prems(2) by auto
  then show ?case using ys(2) by auto
qed simp

lemma behind_prev: "behind (Some a) qs = Some rs \<Longrightarrow> a \<in> q_addr ` set qs"
  by (induction "Some a" qs rule: behind.induct) (auto split: if_splits)

section \<open>One round and the loop\<close>

definition backlog :: "nat \<Rightarrow> net \<Rightarrow> nat" where
  "backlog sid n = length (delayqueue (the (sessions n sid)))"

lemma cancel_step_calm:
  assumes e: "calm e" and inv: "net_inv {#} n" and s: "sessions n sid = Some s" and at: "behind prev (sendqueue n) = Some (q # rs)"
  obtains prev' n' rs' where "cancel_token_step e sid token (prev, n) = Some (prev', n')" "net_inv {#} n'"
    "\<forall>j. full_window j n \<longrightarrow> full_window j n'" "behind prev' (sendqueue n') = Some rs'" "\<exists>s. sessions n' sid = Some s"
    "length rs' + backlog sid n' < length (q # rs) + backlog sid n"
proof -
  have dist: "distinct (map q_addr (sendqueue n))" by (rule inv_distinct [OF inv s])
  have q: "behind (Some (q_addr q)) (sendqueue n) = Some rs" "q \<in> set (sendqueue n)" using behind_next [OF dist at] by blast+
  have "node_ok q" using inv_node [OF inv q(2)] by blast
  then obtain pdu where pdu: "q_pdu q = Some pdu" "message_ok pdu" by (auto simp: node_ok_def)
  then obtain t where t: "coap_pdu_get_token pdu = Some t" by (simp add: coap_pdu_get_token_def message_ok_def mem_simps)
  show thesis
  proof (cases "q_session q = Some sid \<and> t = token")
    case False
    then have "cancel_token_step e sid token (prev, n) = Some (Some (q_addr q), n)"
      using at pdu(1) t by (auto simp: cancel_token_step_def)
    then show thesis using that inv q(1) s by simp
  next
    case True
    let ?qs = "ll_delete (q_addr q) (sendqueue n)"
    have out: "cores (sendqueue n) = add_mset (core q) (cores ?qs)" by (rule cores_delete [OF q(2) dist])
    have sid: "q_session q = Some sid" using True by simp
    obtain n1 where n1: "con_done e sid (n\<lparr>sendqueue := ?qs\<rparr>) = Some n1" "net_inv {#core q#} n1" "full_window sid n1"
        "flushed e sid (n\<lparr>sendqueue := ?qs\<rparr>) n1"
      by (rule finish_one [OF e inv sid out])
    obtain n' where n': "coap_delete_node q n1 = Some n'" "net_inv {#} n'" "\<forall>j. full_window j (n\<lparr>sendqueue := ?qs\<rparr>) \<or> j = sid \<longrightarrow> full_window j n'"
        "\<forall>j. j \<noteq> sid \<longrightarrow> sessions n' j = sessions (n\<lparr>sendqueue := ?qs\<rparr>) j" "nack_log n' = nack_log n1" "sends n' = sends n1" "timeline n' = timeline n1"
        "\<exists>s. sessions n1 sid = Some s \<and> sessions n' sid = Some (s\<lparr>ref := ref s - 1\<rparr>)"
      by (rule finish_delete [OF n1(2,3) sid n1(4)])
    obtain s0 s1 qts where f: "sessions (n\<lparr>sendqueue := ?qs\<rparr>) sid = Some s0" "sessions n1 sid = Some s1" "tx_params s1 = tx_params s0"
        "delayqueue s0 = map fst qts @ delayqueue s1" "sends n1 = sends (n\<lparr>sendqueue := ?qs\<rparr>) @ map (\<lambda>(q, _). (sid, node_bytes q)) qts"
        "snd ` set qts \<subseteq> range (e_ticks e)" "timeline n1 = foldl (put_delayed sid) (timeline (n\<lparr>sendqueue := ?qs\<rparr>)) qts"
      by (rule flushedE [OF n1(4)])
    have apart: "prev \<noteq> Some (q_addr p)" if "(p, u) \<in> set qts" for p u
    proof
      assume "prev = Some (q_addr p)"
      then have "q_addr p \<in> q_addr ` set (sendqueue n)" using behind_prev at by simp
      then have "q_addr p \<in># image_mset q_addr (cores (sendqueue n))" unfolding cores_addrs [symmetric] by simp
      moreover have "p \<in> set (delayqueue s)" using that f(1,4) s by force
      then have "q_addr p \<in># mset (map q_addr (delayqueue s))" by simp
      moreover have "uniq (image_mset q_addr (cores (sendqueue n)) + mset (map q_addr (delayqueue s)))"
        using net_inv_session [OF inv s] by (simp add: session_inv_def)
      ultimately show False using uniq_disjoint by blast
    qed
    have "behind prev (fst (timeline (n\<lparr>sendqueue := ?qs\<rparr>))) = Some rs" using behind_delete [OF dist at] by (simp add: timeline_def)
    moreover have "\<forall>(p, u) \<in> set qts. prev \<noteq> Some (q_addr p)" using apart by blast
    ultimately have "\<exists>ys. behind prev (fst (timeline n')) = Some ys \<and> length ys \<le> length rs + length qts"
      unfolding n'(7) f(7) by (rule behind_flush)
    then obtain ys where ys: "behind prev (sendqueue n') = Some ys" "length ys \<le> length rs + length qts" by (auto simp: timeline_def)
    have "backlog sid n = length qts + backlog sid n'" using f(1,2,4) n'(8) s by (auto simp: backlog_def)
    then have less: "length ys + backlog sid n' < length (q # rs) + backlog sid n" using ys(2) by simp
    have "cancel_token_step e sid token (prev, n) = Some (prev, n')"
      using at pdu True t n1(1) n'(1) by (simp add: cancel_token_step_def message_ok_def)
    moreover have "\<forall>j. full_window j n \<longrightarrow> full_window j n'" using n'(3) by (simp add: full_window_def)
    moreover have "\<exists>s. sessions n' sid = Some s" using n'(8) by blast
    ultimately show thesis using that n'(2) ys(1) less by blast
  qed
qed

text \<open>The loop ends: each round moves on or deletes a node, and a node that enters the queue was delayed before.\<close>

lemma cancel_all_calm:
  assumes e: "calm e" and inv: "net_inv {#} n" and s: "sessions n sid = Some s"
  obtains n' where "coap_cancel_all_messages e sid token n = Some n'" "net_inv {#} n'" "\<forall>j. full_window j n \<longrightarrow> full_window j n'"
proof -
  let ?I = "\<lambda>(prev, m). net_inv {#} m \<and> (\<forall>j. full_window j n \<longrightarrow> full_window j m) \<and> (\<exists>s. sessions m sid = Some s) \<and>
    (\<exists>rs. behind prev (sendqueue m) = Some rs)"
  let ?m = "\<lambda>(prev, m). length (the (behind prev (sendqueue m))) + backlog sid m"
  let ?more = "\<lambda>(prev, m). behind prev (sendqueue m) \<noteq> Some []"
  have "\<exists>st. c_while ?more (cancel_token_step e sid token) (None, n) = Some st \<and> ?I st \<and> \<not> ?more st"
  proof (rule c_while_rule [where m = ?m])
    show "?I (None, n)" using inv s by simp
  next
    fix st assume I: "?I st" and more: "?more st"
    obtain prev m where st: "st = (prev, m)" by (cases st)
    obtain t q rs where m: "net_inv {#} m" "\<forall>j. full_window j n \<longrightarrow> full_window j m" "sessions m sid = Some t" "behind prev (sendqueue m) = Some (q # rs)"
      using I more unfolding st prod.case by (metis neq_Nil_conv)
    obtain prev' m' rs' where r: "cancel_token_step e sid token (prev, m) = Some (prev', m')" "net_inv {#} m'"
      "\<forall>j. full_window j m \<longrightarrow> full_window j m'" "behind prev' (sendqueue m') = Some rs'" "\<exists>s. sessions m' sid = Some s"
      "length rs' + backlog sid m' < length (q # rs) + backlog sid m"
      by (rule cancel_step_calm [OF e m(1,3,4)])
    have "?I (prev', m')" using r(2-5) m(2) by simp
    moreover have "?m (prev', m') < ?m st" using r(4,6) m(4) st by simp
    ultimately show "\<exists>st'. cancel_token_step e sid token st = Some st' \<and> ?I st' \<and> ?m st' < ?m st"
      using r(1) st by blast
  qed
  then obtain st where "c_while ?more (cancel_token_step e sid token) (None, n) = Some st" "?I st" by blast
  moreover obtain p n' where "st = (p, n')" by (cases st)
  ultimately show thesis using that [of n'] by (simp add: coap_cancel_all_messages_def)
qed

end
