(* ===== verification/Coap_Window.thy ===== *)
theory Coap_Window
  imports Coap_Cancel
begin

text \<open>
  The states that sending, acknowledgements, timers, cancellations and disconnections can reach, in any
  order, and the window of confirmable messages: NSTART limits how many are under way.
\<close>

section \<open>Reachable states\<close>

text \<open>No message is under way yet.\<close>

definition net_start :: "net \<Rightarrow> bool" where
  "net_start n \<longleftrightarrow> sendqueue n = [] \<and>
     (\<forall>sid s. sessions n sid = Some s \<longrightarrow> session_fit s \<and> con_active s = 0 \<and> delayqueue s = [] \<and> 0 < ref s)"

text \<open>
  Requests are sent, acknowledgements arrive, the first timer of the queue expires, the messages with a token are
  cancelled and sessions are disconnected, in any order.
\<close>

inductive net_reach :: "heap \<Rightarrow> net \<Rightarrow> net \<Rightarrow> bool" for h n0 where
  start: "net_reach h n0 n0"
| send: "net_reach h n0 n \<Longrightarrow> calm e \<Longrightarrow> request_ok pdu \<Longrightarrow> coap_send_internal e h sid pdu n = Some (r, n') \<Longrightarrow> net_reach h n0 n'"
| ack: "net_reach h n0 n \<Longrightarrow> calm e \<Longrightarrow> dispatch_ack e sid mid n = Some n' \<Longrightarrow> net_reach h n0 n'"
| timer: "net_reach h n0 n \<Longrightarrow> calm e \<Longrightarrow> sendqueue n \<noteq> [] \<Longrightarrow> retransmit_first e n = Some n' \<Longrightarrow> net_reach h n0 n'"
| cancel: "net_reach h n0 n \<Longrightarrow> calm e \<Longrightarrow> coap_cancel_all_messages e sid token n = Some n' \<Longrightarrow> sessions n sid \<noteq> None \<Longrightarrow> net_reach h n0 n'"
| disconnect: "net_reach h n0 n \<Longrightarrow> coap_session_disconnected sid reason n = Some n' \<Longrightarrow> net_reach h n0 n'"

lemma net_start_inv:
  assumes "net_start n"
  shows "net_inv {#} n" "full_window sid n"
proof -
  have "session_inv {#} {#} (calls n) i s" if "sessions n i = Some s" for i s
    using assms that by (auto simp: net_start_def session_inv_def)
  then show "net_inv {#} n"
    using assms by (auto simp: net_inv_def net_start_def queued_ok_def apart_def)
  show "full_window sid n" using assms by (simp add: net_start_def full_window_def)
qed

lemma net_reach_inv:
  assumes "net_reach h n0 n" "net_start n0"
  shows "net_inv {#} n \<and> (\<forall>j. full_window j n)"
  using assms(1)
proof induction
  case start
  then show ?case using net_start_inv [OF assms(2)] by blast
next
  case (send n e pdu sid r n')
  obtain s where s: "sessions n sid = Some s" using send.hyps(4) by (auto simp: coap_send_internal_def bind_eq_Some_conv Let_def)
  obtain r1 n1 where "coap_send_internal e h sid pdu n = Some (r1, n1)" "net_inv {#} n1" "\<forall>j. full_window j n \<longrightarrow> full_window j n1"
    by (rule send_calm [OF send.hyps(2) _ s send.hyps(3), of h]) (use send.IH in blast)
  then show ?case using send by simp
next
  case (ack n e sid mid n')
  obtain n1 where "dispatch_ack e sid mid n = Some n1" "net_inv {#} n1" "\<And>j. full_window j n \<Longrightarrow> full_window j n1"
    using dispatch_ack_calm [OF ack.hyps(2), of n sid mid] ack.IH by metis
  then show ?case using ack by simp
next
  case (timer n e n')
  obtain n1 where "retransmit_first e n = Some n1" "net_inv {#} n1" "\<forall>j. full_window j n \<longrightarrow> full_window j n1"
    by (rule retransmit_first_calm [OF timer.hyps(2) _ timer.hyps(3)]) (use timer.IH in blast)
  then show ?case using timer by simp
next
  case (cancel n e sid token n')
  then obtain s where s: "sessions n sid = Some s" by blast
  obtain n1 where "coap_cancel_all_messages e sid token n = Some n1" "net_inv {#} n1" "\<forall>j. full_window j n \<longrightarrow> full_window j n1"
    by (rule cancel_all_calm [OF cancel.hyps(2) _ s]) (use cancel.IH in blast)
  then show ?case using cancel by simp
next
  case (disconnect n sid reason n')
  obtain s where s: "sessions n sid = Some s" using disconnect.hyps(2) by (auto simp: coap_session_disconnected_def bind_eq_Some_conv)
  obtain n1 where "coap_session_disconnected sid reason n = Some n1" "net_inv {#} n1" "\<forall>j. full_window j n \<longrightarrow> full_window j n1"
    by (rule disconnected_calm [OF _ s]) (use disconnect.IH in blast)
  then show ?case using disconnect by simp
qed

section \<open>A session at work\<close>

definition demo_params :: coap_params where
  "demo_params = the (make_params False)"

definition demo_session :: net_session where
  "demo_session = \<lparr>proto = COAP_PROTO_UDP, tx_mid = 0, mtu = 1152, tls_overhead = 0, doing_first = False, is_client = True,
     session_state = COAP_SESSION_STATE_ESTABLISHED, ref = 1, sock_flags = 0, con_active = 0, delayqueue = [], partial_write = 0,
     tx_params = demo_params, echo = None\<rparr>"

definition demo_net :: net where
  "demo_net = \<lparr>sendqueue = [], sendqueue_basetime = 0, sessions = [1 \<mapsto> demo_session], nack_handler = True, ping_timeout = 0,
     calls = 0, sent_log = [], nack_log = [], event_log = [], freed_nodes = []\<rparr>"

text \<open>The clock stands at \<open>now\<close>, the random bytes are zero and every write succeeds.\<close>

definition demo_env :: "u64 \<Rightarrow> net_env" where
  "demo_env now = \<lparr>e_ticks = \<lambda>_. now, e_prng = \<lambda>_. 0, e_node = \<lambda>_. True, e_write = \<lambda>_ _ bs. int (size bs), e_overhead = \<lambda>_. 0\<rparr>"

definition demo_request :: "u16 \<Rightarrow> coap_pdu" where
  "demo_request mid = (pdu_of [] [] [])\<lparr>pdu_code := 1, pdu_mid := mid\<rparr>"

lemma demo_params: "nstart demo_params = 1" "max_retransmit demo_params = 4"
  by (simp_all add: demo_params_def make_params_def coap_default_defs)

lemma demo_timeouts: "ack_timeout demo_params = fp 2 0" "ack_random_factor demo_params = fp 1 500"
  by (simp_all add: demo_params_def make_params_def coap_default_defs)

lemma demo_timeout: "coap_calc_timeout demo_params 0 = 2000" "coap_calc_timeout demo_params r \<noteq> 0"
proof -
  have eq: "\<exists>k. unat (coap_calc_timeout demo_params r) = (1000 * (((k + 64) * 128 + 32) div 64) + 32) div 64 \<and> (r = 0 \<longrightarrow> k = 0)" for r
    using calc_timeout_eq [of demo_params r] by (auto simp: q_value_def demo_timeouts)
  have "unat (coap_calc_timeout demo_params 0) = 2000" using eq [of 0] by auto
  then show "coap_calc_timeout demo_params 0 = 2000" by (simp add: word_unat_eq_iff)
  obtain k where k: "unat (coap_calc_timeout demo_params r) = (1000 * (((k + 64) * 128 + 32) div 64) + 32) div 64" using eq [of r] by blast
  have "1 \<le> (1000 * (((k + 64) * 128 + 32) div 64) + 32) div 64" by simp
  then show "coap_calc_timeout demo_params r \<noteq> 0" using k by (auto simp: unat_eq_0)
qed

lemma calm_demo: "calm (demo_env now)"
  by (simp add: calm_def demo_env_def)

lemma demo_fit: "session_fit demo_session"
  by (simp add: session_fit_def demo_session_def flag_set_def demo_params demo_timeout(2))

lemma demo_request_ok: "request_ok (demo_request mid)"
  by (simp add: request_ok_def demo_request_def pdu_of_def message_eval COAP_MESSAGE_CON_def COAP_TOKEN_EXT_MAX_def)

lemma demo_start: "net_start demo_net"
  using demo_fit by (auto simp: net_start_def demo_net_def demo_session_def split: if_splits)

section \<open>Property\<close>

text \<open>C23: the window of confirmable messages. While requests are sent, acknowledgements arrive, timers
  expire, messages are cancelled and sessions are disconnected in any order, in an environment where writes and allocations succeed, no call faults, and in
  every session \<open>con_active\<close> counts exactly the messages in the send queue, they are never more
  than NSTART, a message is only held back while there are NSTART, and every message in the queue
  holds a reference to its session beside the application's, so that the session outlives it.\<close>

theorem con_window:
  assumes "net_start n0" "net_reach h n0 n" "calm e"
  shows "(\<forall>sid s. sessions n sid = Some s \<longrightarrow>
      unat (con_active s) = outstanding sid (sendqueue n) \<and> outstanding sid (sendqueue n) \<le> unat (nstart (tx_params s)) \<and>
      (delayqueue s \<noteq> [] \<longrightarrow> outstanding sid (sendqueue n) = unat (nstart (tx_params s))) \<and> outstanding sid (sendqueue n) < ref s) \<and>
    (\<forall>sid pdu. sessions n sid \<noteq> None \<and> request_ok pdu \<longrightarrow> coap_send_internal e h sid pdu n \<noteq> None) \<and>
    (\<forall>sid mid. dispatch_ack e sid mid n \<noteq> None) \<and> (sendqueue n \<noteq> [] \<longrightarrow> retransmit_first e n \<noteq> None) \<and>
    (\<forall>sid token. sessions n sid \<noteq> None \<longrightarrow> coap_cancel_all_messages e sid token n \<noteq> None) \<and>
    (\<forall>sid reason. sessions n sid \<noteq> None \<longrightarrow> coap_session_disconnected sid reason n \<noteq> None)"
proof -
  have inv: "net_inv {#} n" and full: "\<And>j. full_window j n" using net_reach_inv [OF assms(2,1)] by blast+
  have "unat (con_active s) = outstanding sid (sendqueue n) \<and> outstanding sid (sendqueue n) \<le> unat (nstart (tx_params s)) \<and>
      (delayqueue s \<noteq> [] \<longrightarrow> outstanding sid (sendqueue n) = unat (nstart (tx_params s))) \<and> outstanding sid (sendqueue n) < ref s"
    if "sessions n sid = Some s" for sid s
    using net_inv_session [OF inv that] full [of sid] that by (auto simp: session_inv_def out_cores full_window_def)
  moreover have "coap_send_internal e h sid pdu n \<noteq> None" if "sessions n sid \<noteq> None" "request_ok pdu" for sid pdu
    using that send_calm [OF assms(3) inv _ that(2), of sid _ h] by fastforce
  moreover have "dispatch_ack e sid mid n \<noteq> None" for sid mid
    using dispatch_ack_calm [OF assms(3) inv, of sid mid] by (metis option.distinct(1))
  moreover have "retransmit_first e n \<noteq> None" if "sendqueue n \<noteq> []"
    using retransmit_first_calm [OF assms(3) inv that] by (metis option.distinct(1))
  moreover have "coap_cancel_all_messages e sid token n \<noteq> None" if "sessions n sid \<noteq> None" for sid token
    using that cancel_all_calm [OF assms(3) inv] by (metis not_None_eq)
  moreover have "coap_session_disconnected sid reason n \<noteq> None" if "sessions n sid \<noteq> None" for sid reason
    using that disconnected_calm [OF inv] by (metis not_None_eq)
  ultimately show ?thesis by blast
qed

theorem con_window_witness:
  "\<exists>n1 n2 s. coap_send_internal (demo_env 5) full_heap 1 (demo_request 7) demo_net = Some (7, n1) \<and>
    coap_send_internal (demo_env 6) full_heap 1 (demo_request 8) n1 = Some (8, n2) \<and>
    sessions n2 1 = Some s \<and> length (delayqueue s) = 1 \<and> outstanding 1 (sendqueue n2) = 1 \<and> unat (con_active s) = 1 \<and>
    dispatch_ack (demo_env 7) 1 7 n2 \<noteq> None"
proof -
  have s0: "sessions demo_net 1 = Some demo_session" by (simp add: demo_net_def)
  have room: "unat (con_active demo_session) < unat (nstart (tx_params demo_session))" by (simp add: demo_session_def demo_params)
  obtain n1 where n1: "coap_send_internal (demo_env 5) full_heap 1 (demo_request 7) demo_net = Some (uint (pdu_mid (demo_request 7)), n1)"
    "sessions n1 = (sessions demo_net)(1 \<mapsto> demo_session\<lparr>con_active := con_active demo_session + 1, ref := ref demo_session + 1\<rparr>)"
    by (rule send_at_once [OF calm_demo s0 demo_fit demo_request_ok room])
  let ?s = "demo_session\<lparr>con_active := con_active demo_session + 1, ref := ref demo_session + 1\<rparr>"
  have s1: "sessions n1 1 = Some ?s" "session_fit ?s" "\<not> unat (con_active ?s) < unat (nstart (tx_params ?s))"
    using n1(2) demo_fit by (simp_all add: session_fit_def flag_set_def demo_session_def demo_params)
  obtain n2 s where n2: "coap_send_internal (demo_env 6) full_heap 1 (demo_request 8) n1 = Some (uint (pdu_mid (demo_request 8)), n2)"
    and s: "sessions n2 1 = Some s" "length (delayqueue s) = 1" "tx_params s = demo_params"
    by (rule send_delayed [OF calm_demo [of 6] s1(1,2) demo_request_ok [of 8] s1(3), where h = full_heap]) (auto simp: demo_session_def put_session_def)
  have "net_reach full_heap demo_net n1"
    by (rule net_reach.send [OF net_reach.start calm_demo demo_request_ok n1(1)])
  then have "net_reach full_heap demo_net n2"
    by (rule net_reach.send [OF _ calm_demo demo_request_ok n2])
  note W = con_window [OF demo_start this calm_demo [of 7]]
  have "delayqueue s \<noteq> []" using s(2) by auto
  moreover have "unat (nstart (tx_params s)) = 1" by (simp add: s(3) demo_params)
  ultimately have "outstanding 1 (sendqueue n2) = 1" "unat (con_active s) = 1"
    using W [THEN conjunct1, rule_format, OF s(1)] by simp_all
  moreover have "dispatch_ack (demo_env 7) 1 7 n2 \<noteq> None" using W by blast
  ultimately show ?thesis using n1(1) n2 s by (simp add: demo_request_def)
qed

end
