(* ===== verification/Coap_Retransmit.thy ===== *)
theory Coap_Retransmit
  imports Coap_Window
begin

text \<open>
  Time in the transmission of confirmable messages (\<open>Coap_Transmit\<close>): the schedule of
  retransmissions of one message and its end, the end of the loop that serves the timers, and
  what happens to the timers and to the window of a session when messages are cancelled or a write
  fails.
\<close>

section \<open>One message alone\<close>

text \<open>Calls that see the clock stand still.\<close>

definition at_time :: "u64 \<Rightarrow> net_env \<Rightarrow> bool" where
  "at_time now e \<longleftrightarrow> calm e \<and> (\<forall>k. e_ticks e k = now)"

lemma unat_push:
  assumes "k < 32"
  shows "unat (push_bit k (ucast (t :: u32)) :: u64) = unat t * 2 ^ k"
proof -
  have "unat t < 2 ^ 32" using unsigned_less [of t, where ?'a = nat] by simp
  moreover have "(2 :: nat) ^ k \<le> 2 ^ 31" using assms by (intro power_increasing) auto
  ultimately have "unat t * 2 ^ k < 2 ^ 32 * 2 ^ 31" by (intro mult_less_le_imp_less) auto
  moreover have "unat (push_bit k (ucast t) :: u64) = take_bit 64 (push_bit k (take_bit 64 (unat t)))"
    by (simp add: unsigned_push_bit_eq unsigned_ucast_eq)
  ultimately show ?thesis
    using \<open>unat t < 2 ^ 32\<close> by (simp add: take_bit_nat_eq_self push_bit_eq_mult)
qed

lemma push_nonzero: "k < 32 \<Longrightarrow> (t :: u32) \<noteq> 0 \<Longrightarrow> (push_bit k (ucast t) :: u64) \<noteq> 0"
  using unat_push [of k t] by (auto simp: unat_eq_0)

lemma take_over_single [simp]: "take_over q [] = []"
  by (simp add: take_over_def)

lemma retransmit_due_step:
  "node_due now n \<Longrightarrow> retransmit_first e n = Some n' \<Longrightarrow> retransmit_due e now n = retransmit_due e now n'"
  by (simp add: retransmit_due_def c_while_True)

lemma retransmit_due_idle: "\<not> node_due now n \<Longrightarrow> retransmit_due e now n = Some n"
  by (simp add: retransmit_due_def)

lemma poll_again:
  assumes e: "at_time now e" and inv: "net_inv {#} n" and queue: "sendqueue n = [q]" and sid: "q_session q = Some sid"
    and s: "sessions n sid = Some s" and cnt: "unat (retransmit_cnt q) < unat (max_retransmit (tx_params s))"
    and ping: "ping_timeout n = 0" and late: "node_due now n"
  obtains n' where "retransmit_due e now n = Some n'" "net_inv {#} n'"
    "sendqueue n' = [q\<lparr>retransmit_cnt := retransmit_cnt q + 1, q_t := push_bit (unat (retransmit_cnt q) + 1) (ucast (q_timeout q))\<rparr>]"
    "sendqueue_basetime n' = now" "sessions n' = sessions n" "sends n' = sends n @ [(sid, node_bytes q)]" "kept n' = kept n"
proof -
  have calm: "calm e" "\<And>k. e_ticks e k = now" using e by (simp_all add: at_time_def)
  obtain i t where it: "q_session q = Some i" "sessions n i = Some t" "session_fit t" "node_ok q"
    "unat (retransmit_cnt q) \<le> unat (max_retransmit (tx_params t))" "con_active t \<noteq> 0"
    "unat (con_active t) \<le> unat (nstart (tx_params t))"
    by (rule inv_node [OF inv, of q]) (simp add: queue)
  have fit: "session_fit s" "node_ok q" "con_active s \<noteq> 0" "unat (con_active s) \<le> unat (nstart (tx_params s))"
    using it sid s by simp_all
  let ?n = "n\<lparr>sendqueue := []\<rparr>" and ?d = "push_bit (unat (retransmit_cnt q) + 1) (ucast (q_timeout q)) :: u64"
  have s': "sessions ?n sid = Some s" using s by simp
  obtain n' delay m where n': "coap_retransmit e q ?n = Some (q_id q, n')"
    "sendqueue n' = sendqueue (enqueue (e_ticks e m) delay (q\<lparr>retransmit_cnt := retransmit_cnt q + 1\<rparr>) ?n)"
    "sendqueue_basetime n' = base_at (e_ticks e m) ?n"
    "sessions n' = sessions ?n" "sends n' = sends ?n @ [(sid, node_bytes q)]" "kept n' = kept ?n" "calls ?n \<le> calls n'"
    "ping_timeout ?n = 0 \<Longrightarrow> delay = ?d \<and> m = calls ?n"
    by (rule retransmit_again [OF calm(1) sid fit(2) s' fit(1) cnt fit(3,4)]) blast
  have first: "retransmit_first e n = Some n'"
    using n'(1) by (simp add: retransmit_first_def coap_pop_next_def queue)
  have delay: "delay = ?d" using n'(8) ping by simp
  have qn': "sendqueue n' = [q\<lparr>retransmit_cnt := retransmit_cnt q + 1, q_t := ?d\<rparr>]" and base: "sendqueue_basetime n' = now"
    using n'(2,3) delay calm(2) by (simp_all add: enqueue_eq base_at_def coap_insert_node_def)
  have "unat (retransmit_cnt q) + 1 < 32" "q_timeout q \<noteq> 0" using cnt fit(1,2) by (simp_all add: session_fit_def node_ok_def)
  then have "?d \<noteq> 0" by (rule push_nonzero)
  then have "\<not> node_due now n'" by (simp add: node_due_def coap_peek_next_def qn' base)
  then have run: "retransmit_due e now n = Some n'"
    using retransmit_due_step [OF late first] by (simp add: retransmit_due_idle)
  obtain n2 where "retransmit_first e n = Some n2" "net_inv {#} n2"
    using retransmit_first_calm [OF calm(1) inv, of thesis] queue by auto
  then have "net_inv {#} n'" using first by simp
  then show thesis
    by (rule that [OF run _ qn' base]) (use n'(4-6) in \<open>simp_all add: sends_def kept_def\<close>)
qed

text \<open>Nothing waits behind the message: it is given up, and nothing else is sent.\<close>

lemma poll_last:
  assumes e: "calm e" and inv: "net_inv {#} n" and queue: "sendqueue n = [q]" and sid: "q_session q = Some sid"
    and s: "sessions n sid = Some s" "delayqueue s = []" and cnt: "\<not> unat (retransmit_cnt q) < unat (max_retransmit (tx_params s))"
    and late: "node_due now n"
  obtains n' where "retransmit_due e now n = Some n'" "net_inv {#} n'" "sendqueue n' = []" "sends n' = sends n"
    "nack_log n' = nack_log n @ (if nack_handler n then [(sid, q_pdu q, COAP_NACK_TOO_MANY_RETRIES, q_id q)] else [])"
proof -
  have out: "cores (sendqueue n) = add_mset (core q) (cores [])" by (simp add: queue)
  obtain n1 n' where n': "coap_retransmit e q (n\<lparr>sendqueue := []\<rparr>) = Some (COAP_INVALID_MID, n')" "net_inv {#} n'"
    "\<forall>j. full_window j n \<or> j = sid \<longrightarrow> full_window j n'" "flushed e sid (n\<lparr>sendqueue := []\<rparr>) n1"
    "timeline n' = timeline n1" "sends n' = sends n1"
    "nack_log n' = nack_log n @ (if nack_handler n then [(sid, q_pdu q, COAP_NACK_TOO_MANY_RETRIES, q_id q)] else [])" "ping_timeout n' = ping_timeout n"
    by (rule retransmit_give_up [OF e inv sid s(1) out cnt])
  have same: "sends n1 = sends n \<and> timeline n1 = timeline (n\<lparr>sendqueue := []\<rparr>)"
    using n'(4) s by (auto simp: flushed_def sends_def)
  then have empty: "sendqueue n' = []" using n'(5) by (simp add: timeline_def)
  have "retransmit_first e n = Some n'"
    using n'(1) by (simp add: retransmit_first_def coap_pop_next_def queue)
  then have "retransmit_due e now n = Some n'"
    using retransmit_due_step [OF late] empty by (simp add: retransmit_due_idle node_due_def coap_peek_next_def)
  then show thesis using that n'(2,6,7) same empty by simp
qed

text \<open>Polls of the queue, each at a time of its own.\<close>

fun polls :: "(u64 \<times> net_env) list \<Rightarrow> net \<Rightarrow> net option" where
  "polls [] n = Some n"
| "polls ((now, e) # es) n = do { n \<leftarrow> retransmit_due e now n; polls es n }"

text \<open>After \<open>k\<close> polls the next one is not earlier than \<open>T * 2 ^ k\<close> behind the last, which was at \<open>t\<close>.\<close>

fun on_time :: "u32 \<Rightarrow> nat \<Rightarrow> u64 \<Rightarrow> (u64 \<times> net_env) list \<Rightarrow> bool" where
  "on_time T k t [] = True"
| "on_time T k t ((now, e) # es) = (at_time now e \<and> unat t + unat T * 2 ^ k \<le> unat now \<and> on_time T (k + 1) now es)"

lemma on_time_take: "on_time T k t es \<Longrightarrow> on_time T k t (take m es)"
  by (induction T k t es arbitrary: m rule: on_time.induct) (auto simp: take_Cons split: nat.split)

lemma polls_append: "polls (es @ fs) n = do { n \<leftarrow> polls es n; polls fs n }"
  by (induction es arbitrary: n) (auto simp: Option.bind_assoc [symmetric] split: Option.bind_splits)

text \<open>A message that has been sent \<open>k + 1\<close> times, last at \<open>t\<close>, and nothing else.\<close>

definition in_flight :: "nat \<Rightarrow> net_session \<Rightarrow> coap_queue \<Rightarrow> nat \<Rightarrow> u64 \<Rightarrow> net \<Rightarrow> bool" where
  "in_flight sid s q k t n \<longleftrightarrow> net_inv {#} n \<and> sessions n sid = Some s \<and> q_session q = Some sid \<and> k \<le> unat (max_retransmit (tx_params s)) \<and>
     sendqueue_basetime n = t \<and> ping_timeout n = 0 \<and> nack_handler n \<and> delayqueue s = [] \<and>
     sendqueue n = [q\<lparr>retransmit_cnt := word_of_nat k, q_t := push_bit k (ucast (q_timeout q))\<rparr>]"

lemma in_flight_due:
  assumes "in_flight sid s q k t n"
  shows "node_due now n \<longleftrightarrow> unat t + unat (q_timeout q) * 2 ^ k \<le> unat now"
proof -
  have "session_fit s" "k \<le> unat (max_retransmit (tx_params s))"
    using net_inv_session [of "{#}" n sid s] assms by (simp_all add: in_flight_def session_inv_def)
  then have k: "k < 32" by (simp add: session_fit_def)
  show ?thesis
    using assms unat_push [OF k, of "q_timeout q"] unat_minus [of t now]
    by (auto simp: node_due_def coap_peek_next_def in_flight_def word_le_nat_alt)
qed

lemma in_flight_polls:
  assumes "in_flight sid s q k t n" "on_time (q_timeout q) k t es" "k + length es \<le> unat (max_retransmit (tx_params s))"
  shows "\<exists>n' t'. polls es n = Some n' \<and> in_flight sid s q (k + length es) t' n' \<and> t' = last (t # map fst es) \<and>
    sends n' = sends n @ replicate (length es) (sid, node_bytes q) \<and> nack_log n' = nack_log n \<and> sessions n' = sessions n"
  using assms
proof (induction es arbitrary: k t n)
  case (Cons x es)
  obtain now e where x: "x = (now, e)" by (cases x)
  have on: "at_time now e" "unat t + unat (q_timeout q) * 2 ^ k \<le> unat now" "on_time (q_timeout q) (k + 1) now es"
    using Cons.prems(2) x by simp_all
  have fit: "session_fit s"
    using net_inv_session [of "{#}" n sid s] Cons.prems(1) by (simp_all add: in_flight_def session_inv_def)
  then have k: "k + 1 < 32" "k < unat (max_retransmit (tx_params s))" using Cons.prems(3) by (simp_all add: session_fit_def)
  then have cnt: "unat (word_of_nat k :: u8) = k" "(word_of_nat k :: u8) + 1 = word_of_nat (k + 1)"
    by (simp_all add: unat_of_nat_small)
  note I = Cons.prems(1) [unfolded in_flight_def]
  let ?q = "q\<lparr>retransmit_cnt := word_of_nat k, q_t := push_bit k (ucast (q_timeout q))\<rparr>"
  have due: "node_due now n" using in_flight_due [OF Cons.prems(1)] on(2) by simp
  obtain n1 where n1: "retransmit_due e now n = Some n1" "net_inv {#} n1"
    "sendqueue n1 = [?q\<lparr>retransmit_cnt := retransmit_cnt ?q + 1, q_t := push_bit (unat (retransmit_cnt ?q) + 1) (ucast (q_timeout ?q))\<rparr>]"
    "sendqueue_basetime n1 = now" "sessions n1 = sessions n" "sends n1 = sends n @ [(sid, node_bytes ?q)]" "kept n1 = kept n"
    by (rule poll_again [OF on(1), of n ?q sid s]) (use I due k cnt in simp_all)
  have "in_flight sid s q (k + 1) now n1"
    unfolding in_flight_def using n1 I k cnt by (simp add: kept_def)
  from Cons.IH [OF this on(3)] Cons.prems(3) show ?case
    using n1 x by (auto simp: node_bytes_def kept_def)
qed auto
lemma on_time_last:
  "on_time T k t (fs @ [(now, e)]) \<Longrightarrow>
    at_time now e \<and> unat (last (t # map fst fs)) + unat T * 2 ^ (k + length fs) \<le> unat now"
  by (induction T k t fs rule: on_time.induct) auto

lemma ack_last:
  assumes e: "calm e" and I: "in_flight sid s q k t n" and mid: "q_id q = uint mid"
  obtains n' where "dispatch_ack e sid mid n = Some n'" "sendqueue n' = []" "sends n' = sends n" "nack_log n' = nack_log n"
proof -
  let ?q = "q\<lparr>retransmit_cnt := word_of_nat k, q_t := push_bit k (ucast (q_timeout q))\<rparr>"
  have q: "sendqueue n = [?q]" "q_session ?q = Some sid" "net_inv {#} n" "sessions n sid = Some s" "delayqueue s = []"
    using I by (simp_all add: in_flight_def)
  have out: "cores (sendqueue n) = add_mset (core ?q) (cores [])" by (simp add: q(1))
  obtain n1 where n1: "con_done e sid (n\<lparr>sendqueue := []\<rparr>) = Some n1" "net_inv {#core ?q#} n1" "full_window sid n1"
      "flushed e sid (n\<lparr>sendqueue := []\<rparr>) n1"
    by (rule finish_one [OF e q(3,2) out])
  have same: "sends n1 = sends n \<and> timeline n1 = timeline (n\<lparr>sendqueue := []\<rparr>) \<and> nack_log n1 = nack_log n"
    using n1(4) q(4,5) by (auto simp: flushed_def sends_def kept_def)
  obtain n' where n': "coap_delete_node ?q n1 = Some n'" "net_inv {#} n'" "\<forall>j. full_window j (n\<lparr>sendqueue := []\<rparr>) \<or> j = sid \<longrightarrow> full_window j n'"
      "\<forall>j. j \<noteq> sid \<longrightarrow> sessions n' j = sessions (n\<lparr>sendqueue := []\<rparr>) j" "nack_log n' = nack_log n1" "sends n' = sends n1" "timeline n' = timeline n1"
      "\<exists>s. sessions n1 sid = Some s \<and> sessions n' sid = Some (s\<lparr>ref := ref s - 1\<rparr>)"
    by (rule finish_delete [OF n1(2,3) q(2) n1(4)])
  have "coap_remove_from_queue (sendqueue n) sid (uint mid) = (Some ?q, [])"
    using I mid by (simp add: in_flight_def)
  then have "dispatch_ack e sid mid n = Some n'"
    using n1(1) n'(1) by (simp add: dispatch_ack_def)
  then show thesis using that n'(5-7) same by (simp add: timeline_def)
qed

text \<open>The start: the message is sent, and its node is the only one in the queue.\<close>

lemma send_in_flight:
  assumes e: "at_time t e" and start: "net_start n" and s: "sessions n sid = Some s" and pdu: "request_ok pdu"
    and app: "ping_timeout n = 0" "nack_handler n"
  obtains n1 s1 q p where "coap_send_internal e h sid pdu n = Some (uint (pdu_mid pdu), n1)" "in_flight sid s1 q 0 t n1"
    "sends n1 = sends n @ [(sid, datagram pdu)]" "nack_log n1 = nack_log n" "tx_params s1 = tx_params s"
    "q_timeout q = coap_calc_timeout (tx_params s) (e_prng e (calls n + 2))" "q_id q = uint (pdu_mid pdu)"
    "q_pdu q = Some p" "wire p = datagram pdu"
proof -
  have calm: "calm e" "\<And>k. e_ticks e k = t" using e by (simp_all add: at_time_def)
  have fit: "session_fit s" "con_active s = 0" "delayqueue s = []" and empty: "sendqueue n = []"
    using start s by (simp_all add: net_start_def)
  then have room: "unat (con_active s) < unat (nstart (tx_params s))" by (simp add: session_fit_def)
  let ?T = "coap_calc_timeout (tx_params s) (e_prng e (calls n + 2))"
  obtain n1 p where n1: "coap_send_internal e h sid pdu n = Some (uint (pdu_mid pdu), n1)" "message_ok p" "pdu_mid p = pdu_mid pdu"
    "wire p = datagram pdu"
    "sendqueue n1 = sendqueue (enqueue (e_ticks e (calls n + 3)) (ucast ?T) \<lparr>q_addr = calls n + 1, q_t = 0, retransmit_cnt = 0, is_mcast = False,
        q_timeout = ?T, q_session = Some sid, q_id = uint (pdu_mid pdu), q_pdu = Some p\<rparr> n)"
    "sendqueue_basetime n1 = base_at (e_ticks e (calls n + 3)) n"
    "sessions n1 = (sessions n)(sid \<mapsto> s\<lparr>con_active := con_active s + 1, ref := ref s + 1\<rparr>)"
    "sends n1 = sends n @ [(sid, datagram pdu)]" "kept n1 = kept n" "calls n1 = calls n + 4"
    by (rule send_at_once [OF calm(1) s fit(1) pdu room])
  define q where "q = \<lparr>q_addr = calls n + 1, q_t = ucast ?T, retransmit_cnt = 0, is_mcast = False,
        q_timeout = ?T, q_session = Some sid, q_id = uint (pdu_mid pdu), q_pdu = Some p\<rparr>"
  obtain r n2 where "coap_send_internal e h sid pdu n = Some (r, n2)" "net_inv {#} n2" "\<forall>j. full_window j n \<longrightarrow> full_window j n2"
    by (rule send_calm [OF calm(1) net_start_inv(1) [OF start] s pdu, of h])
  then have "net_inv {#} n1" using n1(1) by simp
  then have "in_flight sid (s\<lparr>con_active := con_active s + 1, ref := ref s + 1\<rparr>) q 0 t n1"
    using n1(5-7,9) app empty fit(3) calm(2) by (simp add: in_flight_def q_def enqueue_eq base_at_def coap_insert_node_def kept_def)
  then show thesis
    by (rule that [where p = p, OF n1(1) _ n1(8)]) (use n1(9) in \<open>simp_all add: q_def kept_def n1(4)\<close>)
qed

text \<open>C24: the life of a confirmable request when nothing else is under way. It is sent at once; \<open>T\<close> is its
  initial timeout. Before \<open>T * 2 ^ k\<close> has passed since the last of \<open>k + 1\<close> transmissions, polling
  the queue changes nothing; each poll from then on sends exactly one more copy of the same datagram, however late it
  comes, up to \<open>MAX_RETRANSMIT\<close>; the poll behind that sends nothing, tells the application once that there were
  too many retries, and leaves nothing in the queue. An acknowledgement at any time in between ends it without a report.\<close>

theorem request_lifetime:
  assumes "net_start n" "sessions n sid = Some s" "request_ok pdu" "ping_timeout n = 0" "nack_handler n" "at_time t e"
    and "T = coap_calc_timeout (tx_params s) (e_prng e (calls n + 2))" "on_time T 0 t es"
    and "length es = unat (max_retransmit (tx_params s)) + 1"
  shows "\<exists>n0 p. coap_send_internal e h sid pdu n = Some (uint (pdu_mid pdu), n0) \<and> wire p = datagram pdu \<and>
    (\<forall>k < length es. \<exists>nk. polls (take k es) n0 = Some nk \<and>
       sends nk = sends n @ replicate (k + 1) (sid, datagram pdu) \<and> nack_log nk = nack_log n \<and>
       (\<forall>now e. unat now < unat (last (t # map fst (take k es))) + unat T * 2 ^ k \<longrightarrow> retransmit_due e now nk = Some nk) \<and>
       (\<forall>e. calm e \<longrightarrow> (\<exists>na. dispatch_ack e sid (pdu_mid pdu) nk = Some na \<and> sendqueue na = [] \<and>
          sends na = sends nk \<and> nack_log na = nack_log n))) \<and>
    (\<exists>n'. polls es n0 = Some n' \<and> sends n' = sends n @ replicate (unat (max_retransmit (tx_params s)) + 1) (sid, datagram pdu) \<and>
       nack_log n' = nack_log n @ [(sid, Some p, COAP_NACK_TOO_MANY_RETRIES, uint (pdu_mid pdu))] \<and> sendqueue n' = [])"
proof -
  let ?N = "unat (max_retransmit (tx_params s))"
  obtain n0 s1 q p where send: "coap_send_internal e h sid pdu n = Some (uint (pdu_mid pdu), n0)" and I0: "in_flight sid s1 q 0 t n0"
    and n0: "sends n0 = sends n @ [(sid, datagram pdu)]" "nack_log n0 = nack_log n" "tx_params s1 = tx_params s"
      "q_timeout q = T" "q_id q = uint (pdu_mid pdu)" "q_pdu q = Some p" "wire p = datagram pdu"
    unfolding assms(7) by (rule send_in_flight [OF assms(6,1-5), of h]) 
  have bytes: "node_bytes q = datagram pdu" by (simp add: node_bytes_def n0)
  have run: "\<exists>nk. polls (take k es) n0 = Some nk \<and> in_flight sid s1 q k (last (t # map fst (take k es))) nk \<and>
      sends nk = sends n @ replicate (k + 1) (sid, datagram pdu) \<and> nack_log nk = nack_log n" if "k \<le> ?N" for k
    using in_flight_polls [OF I0, of "take k es"] on_time_take [OF assms(8), of k] n0 bytes that assms(9)
    by (auto simp: min_def)
  have "\<exists>nk. polls (take k es) n0 = Some nk \<and>
       sends nk = sends n @ replicate (k + 1) (sid, datagram pdu) \<and> nack_log nk = nack_log n \<and>
       (\<forall>now e. unat now < unat (last (t # map fst (take k es))) + unat T * 2 ^ k \<longrightarrow> retransmit_due e now nk = Some nk) \<and>
       (\<forall>e. calm e \<longrightarrow> (\<exists>na. dispatch_ack e sid (pdu_mid pdu) nk = Some na \<and> sendqueue na = [] \<and>
          sends na = sends nk \<and> nack_log na = nack_log n))" if "k < length es" for k
  proof -
    obtain nk where nk: "polls (take k es) n0 = Some nk" "in_flight sid s1 q k (last (t # map fst (take k es))) nk"
        "sends nk = sends n @ replicate (k + 1) (sid, datagram pdu)" "nack_log nk = nack_log n"
      using run [of k] \<open>k < length es\<close> [unfolded assms(9)] by (metis less_Suc_eq_le Suc_eq_plus1)
    have "retransmit_due e now nk = Some nk" if "unat now < unat (last (t # map fst (take k es))) + unat T * 2 ^ k" for now e
      using in_flight_due [OF nk(2), of now] that n0(4) by (simp add: retransmit_due_idle)
    moreover have "\<exists>na. dispatch_ack e sid (pdu_mid pdu) nk = Some na \<and> sendqueue na = [] \<and> sends na = sends nk \<and> nack_log na = nack_log n"
      if "calm e" for e
      by (rule ack_last [OF that nk(2) n0(5)]) (use nk(4) in simp)
    ultimately show ?thesis using nk by blast
  qed
  moreover have "\<exists>n'. polls es n0 = Some n' \<and> sends n' = sends n @ replicate (?N + 1) (sid, datagram pdu) \<and>
       nack_log n' = nack_log n @ [(sid, Some p, COAP_NACK_TOO_MANY_RETRIES, uint (pdu_mid pdu))] \<and> sendqueue n' = []"
  proof -
    obtain fs now e where es: "es = fs @ [(now, e)]" "length fs = ?N"
      using assms(9) by (cases es rule: rev_cases) auto
    then have take: "take ?N es = fs" by simp
    obtain nk where nk: "polls fs n0 = Some nk" "in_flight sid s1 q ?N (last (t # map fst fs)) nk"
        "sends nk = sends n @ replicate (?N + 1) (sid, datagram pdu)" "nack_log nk = nack_log n"
      using run [of ?N] take by auto
    have last: "at_time now e" "unat (last (t # map fst fs)) + unat T * 2 ^ ?N \<le> unat now"
      using on_time_last [OF assms(8) [unfolded es(1)]] es(2) by simp_all
    then have due: "node_due now nk" using in_flight_due [OF nk(2), of now] n0(4) by simp
    have "session_fit s" using assms(1,2) by (simp add: net_start_def)
    then have cnt: "unat (word_of_nat ?N :: u8) = ?N" by (intro unat_of_nat_small) (simp add: session_fit_def)
    have "calm e" using last(1) by (simp add: at_time_def)
    from poll_last [OF this, of nk "q\<lparr>retransmit_cnt := word_of_nat ?N, q_t := push_bit ?N (ucast (q_timeout q))\<rparr>" sid s1]
    obtain n' where "retransmit_due e now nk = Some n'" "sendqueue n' = []" "sends n' = sends nk"
        "nack_log n' = nack_log nk @ [(sid, Some p, COAP_NACK_TOO_MANY_RETRIES, uint (pdu_mid pdu))]"
      using nk(2) due cnt n0 by (auto simp: in_flight_def)
    then show ?thesis using nk es by (simp add: polls_append)
  qed
  ultimately show ?thesis using send n0(7) by blast
qed

text \<open>The default parameters, polled at the very deadlines: 2, 6, 14, 30 and 62 seconds behind the first copy.\<close>

definition demo_polls :: "(u64 \<times> net_env) list" where
  "demo_polls = map (\<lambda>now. (now, demo_env now)) [2000, 6000, 14000, 30000, 62000]"

lemma at_time_demo: "at_time now (demo_env now)"
  using calm_demo by (simp add: at_time_def demo_env_def)

theorem request_lifetime_witness:
  "\<exists>n0 n' p. coap_send_internal (demo_env 0) full_heap 1 (demo_request 7) demo_net = Some (7, n0) \<and>
    polls demo_polls n0 = Some n' \<and> sends n' = replicate 5 (1, datagram (demo_request 7)) \<and>
    nack_log n' = [(1, Some p, COAP_NACK_TOO_MANY_RETRIES, 7)] \<and> sendqueue n' = []"
proof -
  have T: "2000 = coap_calc_timeout (tx_params demo_session) (e_prng (demo_env 0) (calls demo_net + 2))"
    by (simp add: demo_session_def demo_env_def demo_timeout)
  have s: "sessions demo_net 1 = Some demo_session" "unat (max_retransmit (tx_params demo_session)) = 4"
    by (simp_all add: demo_net_def demo_session_def demo_params)
  have "on_time 2000 0 0 demo_polls" by (simp add: demo_polls_def at_time_demo)
  moreover have "length demo_polls = unat (max_retransmit (tx_params demo_session)) + 1" by (simp add: demo_polls_def s)
  moreover have "ping_timeout demo_net = 0" "nack_handler demo_net" "sends demo_net = []" "nack_log demo_net = []"
    by (simp_all add: demo_net_def sends_def)
  ultimately show ?thesis
    using request_lifetime [OF demo_start s(1) demo_request_ok [of 7] _ _ at_time_demo T, of demo_polls full_heap] s(2)
    by (auto simp: demo_request_def)
qed

section \<open>The loop over the timers ends\<close>

text \<open>How many nodes are due at \<open>now\<close>; none when the base of the queue lies in the future.\<close>

fun early :: "u64 \<Rightarrow> coap_queue list \<times> u64 \<Rightarrow> nat" where
  "early now (qs, b) = (if b \<le> now then length (filter (\<lambda>(_, d). d \<le> unat now) (due (unat b) qs)) else 0)"

text \<open>The deadlines fit into 64 bits.\<close>

fun in_range :: "u64 \<Rightarrow> coap_queue list \<times> u64 \<Rightarrow> bool" where
  "in_range now (qs, b) = (b \<le> now \<longrightarrow> unat b + span qs < 2 ^ 64)"

lemma span_insert: "span (insert_behind qs q) = max (span qs) (unat (q_t q))"
proof (induction qs arbitrary: q)
  case (Cons p ps)
  show ?case
  proof (cases "q_t p \<le> q_t q")
    case True
    then show ?thesis using Cons.IH unat_minus [OF True] by auto
  next
    case False
    then show ?thesis using unat_minus [of "q_t q" "q_t p"] by auto
  qed
qed simp

lemma filter_due_insert: "length (filter P (due_insert x xs)) = (if P x then 1 else 0) + length (filter P xs)"
  by (induction xs) auto

text \<open>A node that is put into the queue at or behind \<open>now\<close>, with a positive delay, is not due at \<open>now\<close>.\<close>

lemma put_not_early:
  assumes "in_range now qb" "now \<le> t" "d \<noteq> 0" "unat t + unat d < 2 ^ 64"
  shows "in_range now (timeline_put t d q qb) \<and> early now (timeline_put t d q qb) = early now qb"
proof -
  obtain qs b where qb: "qb = (qs, b)" by (cases qb)
  have d: "0 < unat d" using assms(3) by (simp add: unat_gt_0)
  have t: "unat now \<le> unat t" using assms(2) by (simp add: word_le_nat_alt)
  show ?thesis
  proof (cases "qs = []")
    case True
    then show ?thesis using qb d t assms(4) by (auto simp: coap_insert_node_def word_le_nat_alt)
  next
    case False
    show ?thesis
    proof (cases "b \<le> now")
      case b: True
      then have "b \<le> t" using assms(2) by simp
      then have w: "unat (t - b + d) = unat t - unat b + unat d" "unat b \<le> unat t"
        using unat_minus [of b t] assms(4) by (simp_all add: unat_word_ariths)
      show ?thesis
        using False qb w d t assms(1,4) b
        by (auto simp: insert_is_behind insert_behind_due filter_due_insert span_insert Let_def)
    qed (use False qb in \<open>simp add: Let_def\<close>)
  qed
qed
lemma delayed_not_early:
  assumes "in_range now qb" "\<forall>(q, t) \<in> set qts. q_timeout q \<noteq> 0 \<and> now \<le> t \<and> unat t < 2 ^ 62"
  shows "in_range now (foldl (put_delayed sid) qb qts) \<and> early now (foldl (put_delayed sid) qb qts) = early now qb"
  using assms
proof (induction qts arbitrary: qb)
  case (Cons x qts)
  obtain q t where x: "x = (q, t)" by (cases x)
  have d: "unat (ucast (q_timeout q) :: u64) = unat (q_timeout q)" using unat_push [of 0 "q_timeout q"] by simp
  have "unat (q_timeout q) < 2 ^ 32" using unsigned_less [of "q_timeout q", where ?'a = nat] by simp
  moreover have "(ucast (q_timeout q) :: u64) \<noteq> 0" using push_nonzero [of 0 "q_timeout q"] Cons.prems(2) x by simp
  ultimately have "in_range now (put_delayed sid qb x) \<and> early now (put_delayed sid qb x) = early now qb"
    unfolding x put_delayed_def prod.case using Cons.prems x d by (intro put_not_early) auto
  then show ?case using Cons.IH [of "put_delayed sid qb x"] Cons.prems(2) by simp
qed simp

text \<open>Taking the first node when it is due.\<close>

lemma pop_early:
  assumes "in_range now (q # qs, b)" "b \<le> now" "q_t q \<le> now - b"
  shows "in_range now (take_over q qs, b) \<and> early now (q # qs, b) = early now (take_over q qs, b) + 1"
proof -
  have "span (q # qs) < 2 ^ 64" using assms(1,2) by simp
  note T = take_over_due [OF this]
  have "unat b + unat (q_t q) \<le> unat now"
    using assms(2,3) unat_minus [OF assms(2)] by (auto simp: word_le_nat_alt)
  then show ?thesis using T(1) [of "unat b"] T(2) assms(1,2) by simp
qed

lemma retransmit_first_early:
  assumes e: "calm e" and clock: "\<forall>k. now \<le> e_ticks e k \<and> unat (e_ticks e k) < 2 ^ 62"
    and inv: "net_inv {#} n" and range: "in_range now (timeline n)" and late: "node_due now n"
  obtains n' where "retransmit_first e n = Some n'" "net_inv {#} n'" "ping_timeout n' = ping_timeout n" "in_range now (timeline n')"
    "early now (timeline n') < early now (timeline n)"
proof -
  obtain q qs where q: "sendqueue n = q # qs" "sendqueue_basetime n \<le> now" "q_t q \<le> now - sendqueue_basetime n"
    using late by (cases "sendqueue n") (auto simp: node_due_def coap_peek_next_def)
  let ?n = "n\<lparr>sendqueue := take_over q qs\<rparr>"
  have pop: "in_range now (timeline ?n)" "early now (timeline n) = early now (timeline ?n) + 1"
    using pop_early [of now q qs "sendqueue_basetime n"] range q by (simp_all add: timeline_def)
  have out: "cores (sendqueue n) = add_mset (core q) (cores (take_over q qs))" by (simp add: q(1))
  obtain sid s where s: "q_session q = Some sid" "sessions n sid = Some s" "session_fit s" "node_ok q"
    "unat (retransmit_cnt q) \<le> unat (max_retransmit (tx_params s))" "con_active s \<noteq> 0"
    "unat (con_active s) \<le> unat (nstart (tx_params s))"
    by (rule inv_node [OF inv, of q]) (simp add: q(1))
  obtain n0 where n0: "retransmit_first e n = Some n0" "net_inv {#} n0"
    using retransmit_first_calm [OF e inv, of thesis] q(1) by auto
  have "\<exists>r n'. coap_retransmit e q ?n = Some (r, n') \<and> ping_timeout n' = ping_timeout n \<and> in_range now (timeline n') \<and>
      early now (timeline n') = early now (timeline ?n)"
  proof (cases "unat (retransmit_cnt q) < unat (max_retransmit (tx_params s))")
    case True
    have s': "sessions ?n sid = Some s" using s(2) by simp
    let ?q = "q\<lparr>retransmit_cnt := retransmit_cnt q + 1\<rparr>" and ?d = "push_bit (unat (retransmit_cnt q) + 1) (ucast (q_timeout q)) :: u64"
    obtain n' delay m where n': "coap_retransmit e q ?n = Some (q_id q, n')"
      "sendqueue n' = sendqueue (enqueue (e_ticks e m) delay ?q ?n)" "sendqueue_basetime n' = base_at (e_ticks e m) ?n"
      "sessions n' = sessions ?n" "sends n' = sends ?n @ [(sid, node_bytes q)]" "kept n' = kept ?n" "calls ?n \<le> calls n'"
      "?d \<noteq> 0 \<Longrightarrow> delay \<noteq> 0 \<and> delay \<le> ?d"
      by (rule retransmit_again [OF e s(1,4) s' s(3) True s(6,7)]) blast
    have k: "unat (retransmit_cnt q) + 1 < 32" using True s(3) by (simp add: session_fit_def)
    have "unat (q_timeout q) < 2 ^ 32" using unsigned_less [of "q_timeout q", where ?'a = nat] by simp
    moreover have "(2 :: nat) ^ (unat (retransmit_cnt q) + 1) \<le> 2 ^ 31" using k by (intro power_increasing) auto
    ultimately have "unat ?d < 2 ^ 32 * 2 ^ 31" unfolding unat_push [OF k] by (intro mult_less_le_imp_less) auto
    then have fits: "unat (e_ticks e m) + unat ?d < 2 ^ 64" using clock [rule_format, of m] by simp
    have nz: "?d \<noteq> 0" using push_nonzero [OF k] s(4) by (simp add: node_ok_def)
    have short: "delay \<noteq> 0" "unat (e_ticks e m) + unat delay < 2 ^ 64"
      using n'(8) [OF nz] fits by (simp_all add: word_le_nat_alt)
    have "timeline n' = timeline_put (e_ticks e m) delay ?q (timeline ?n)"
      using n'(2,3) unfolding timeline_enqueue [symmetric] by (simp add: timeline_def enqueue_eq)
    then show ?thesis
      using n'(1,6) put_not_early [OF pop(1) _ short] clock by (simp add: kept_def)
  next
    case False
    obtain n1 n' where n': "coap_retransmit e q ?n = Some (COAP_INVALID_MID, n')" "net_inv {#} n'"
      "\<forall>j. full_window j n \<or> j = sid \<longrightarrow> full_window j n'" "flushed e sid ?n n1" "timeline n' = timeline n1" "sends n' = sends n1"
      "nack_log n' = nack_log n @ (if nack_handler n then [(sid, q_pdu q, COAP_NACK_TOO_MANY_RETRIES, q_id q)] else [])"
      "ping_timeout n' = ping_timeout n"
      by (rule retransmit_give_up [OF e inv s(1,2) out False])
    obtain x s' qts where x: "sessions ?n sid = Some x" "sessions n1 sid = Some s'" "tx_params s' = tx_params x" "delayqueue x = map fst qts @ delayqueue s'"
        "sends n1 = sends ?n @ map (\<lambda>(q, _). (sid, node_bytes q)) qts"
      and f: "snd ` set qts \<subseteq> range (e_ticks e)" "timeline n1 = foldl (put_delayed sid) (timeline ?n) qts"
      by (rule flushedE [OF n'(4)])
    have xs: "delayqueue s = map fst qts @ delayqueue s'" using x s(2) by simp
    have "list_all (delayed_ok (calls n)) (delayqueue s)" using net_inv_session [OF inv s(2)] by (simp add: session_inv_def)
    then have ok: "q_timeout x \<noteq> 0" if "x \<in> set (delayqueue s)" for x
      using that by (simp add: list_all_iff delayed_ok_def node_ok_def)
    have "q_timeout x \<noteq> 0 \<and> now \<le> t \<and> unat t < 2 ^ 62" if x: "(x, t) \<in> set qts" for x t
    proof -
      have "x \<in> set (map fst qts)" "t \<in> snd ` set qts" using x by force+
      then have "x \<in> set (delayqueue s)" "t \<in> range (e_ticks e)" using f(1) unfolding xs by (simp, blast)
      then show ?thesis using ok clock by blast
    qed
    then have "\<forall>(x, t) \<in> set qts. q_timeout x \<noteq> 0 \<and> now \<le> t \<and> unat t < 2 ^ 62" by blast
    then show ?thesis
      using delayed_not_early [OF pop(1), of qts sid] n'(1,5,8) f(2) by simp
  qed
  then obtain r n' where n': "coap_retransmit e q ?n = Some (r, n')" "ping_timeout n' = ping_timeout n" "in_range now (timeline n')"
      "early now (timeline n') = early now (timeline ?n)" by blast
  have "retransmit_first e n = Some n'" using n'(1) by (simp add: retransmit_first_def coap_pop_next_def q(1))
  then show thesis using that n' n0 pop(2) by simp
qed
text \<open>The milliseconds until a deadline, rounded up; a tick is a millisecond.\<close>

lemma ms_of_ticks:
  assumes "unat (x :: u64) < 2 ^ 32"
  shows "unat (ucast ((x * 1000 + COAP_TICKS_PER_SECOND - 1) div COAP_TICKS_PER_SECOND) :: u32) = unat x"
proof -
  have "x * 1000 + COAP_TICKS_PER_SECOND - 1 = x * 1000 + 999" by (simp add: COAP_TICKS_PER_SECOND_def)
  moreover have "unat (x * 1000 + 999) = unat x * 1000 + 999" using assms by (simp add: unat_word_ariths)
  ultimately have "unat ((x * 1000 + COAP_TICKS_PER_SECOND - 1) div COAP_TICKS_PER_SECOND) = unat x"
    by (simp add: unat_div_distrib COAP_TICKS_PER_SECOND_def add.commute [of 999])
  then show ?thesis using assms by (simp add: unsigned_ucast_eq take_bit_nat_eq_self)
qed

lemma wait_until:
  assumes "unat now \<le> unat b + unat t" "unat b + unat t < unat now + 2 ^ 32"
  shows "unat (ucast (((t - (now - b)) * 1000 + COAP_TICKS_PER_SECOND - 1) div COAP_TICKS_PER_SECOND :: u64) :: u32) = unat b + unat t - unat now"
proof -
  have "word_of_nat (unat b + unat t - unat now) = (b + t - now :: u64)" using of_nat_diff [OF assms(1), where ?'a = u64] by simp
  also have "\<dots> = t - (now - b)" by (simp add: algebra_simps)
  finally have x: "unat (t - (now - b)) = unat b + unat t - unat now"
    using assms(2) unat_of_nat_small [of "unat b + unat t - unat now", where ?'a = 64] by simp
  then have "unat (t - (now - b)) < 2 ^ 32" using assms(2) by simp
  from ms_of_ticks [OF this] show ?thesis unfolding x .
qed

text \<open>C25: the loop of \<open>coap_io_prepare_io\<close> that serves the timers ends, from every state that sessions over UDP
  reach and with any number of messages under way, with or without a ping timeout, when writes and allocations succeed, the clock does not
  run back behind \<open>now\<close> (and stays below 2^62) and the deadlines fit into 64 bits: every round either sends
  a message again, to be due later than \<open>now\<close>, or gives it up, and the messages that then leave the
  delay queue are due later than \<open>now\<close> as well. Behind the loop the state is a reachable one and every deadline lies
  behind \<open>now\<close>, also when the queue was emptied and has got a new base. For a context without keep-alive pings
  \<open>coap_io_prepare_io\<close> then returns exactly the time that is left until the first deadline (when that is less
  than 2^32 milliseconds), and 0 when nothing waits.\<close>

theorem retransmit_loop_ends:
  assumes "net_start n0" "net_reach h n0 n" "calm e" "\<forall>k. now \<le> e_ticks e k \<and> unat (e_ticks e k) < 2 ^ 62"
    and "unat (sendqueue_basetime n) + span (sendqueue n) < 2 ^ 64"
  shows "\<exists>n'. retransmit_due e now n = Some n' \<and> net_reach h n0 n' \<and> ping_timeout n' = ping_timeout n \<and>
    (\<forall>(a, d) \<in> set (due (unat (sendqueue_basetime n')) (sendqueue n')). unat now < d) \<and>
    (ping_timeout n = 0 \<longrightarrow> (\<exists>w. prepare_io e now n = Some (w, n') \<and>
      (sendqueue n' = [] \<longrightarrow> w = 0) \<and>
      (\<forall>a d ds. due (unat (sendqueue_basetime n')) (sendqueue n') = (a, d) # ds \<longrightarrow>
         d < unat now + 2 ^ 32 \<longrightarrow> unat w = d - unat now)))"
proof -
  let ?I = "\<lambda>m. net_reach h n0 m \<and> ping_timeout m = ping_timeout n \<and> in_range now (timeline m)"
  have "\<exists>n'. c_while (node_due now) (retransmit_first e) n = Some n' \<and> ?I n' \<and> \<not> node_due now n'"
  proof (rule c_while_rule [where m = "\<lambda>n. early now (timeline n)"])
    show "?I n" using assms(2,5) by (simp add: timeline_def)
  next
    fix m assume I: "?I m" and due: "node_due now m"
    have inv: "net_inv {#} m" using net_reach_inv [of h n0 m] I assms(1) by blast
    obtain m' where m': "retransmit_first e m = Some m'" "net_inv {#} m'" "ping_timeout m' = ping_timeout m" "in_range now (timeline m')"
        "early now (timeline m') < early now (timeline m)"
      by (rule retransmit_first_early [OF assms(3,4) inv _ due]) (use I in simp_all)
    have "sendqueue m \<noteq> []" using due by (auto simp: node_due_def coap_peek_next_def)
    then have "net_reach h n0 m'" using I net_reach.timer [OF _ assms(3) _ m'(1)] by blast
    then show "\<exists>m'. retransmit_first e m = Some m' \<and> ?I m' \<and> early now (timeline m') < early now (timeline m)"
      using m' I by auto
  qed
  then obtain n' where n': "retransmit_due e now n = Some n'" "net_reach h n0 n'" "ping_timeout n' = ping_timeout n" "\<not> node_due now n'"
    by (auto simp: retransmit_due_def)
  let ?b = "sendqueue_basetime n'"
  have first: "unat now < unat ?b + unat (q_t q)" if "sendqueue n' = q # qs" for q qs
  proof (cases "?b \<le> now")
    case True
    then have "now - ?b < q_t q" using n'(4) that by (simp add: node_due_def coap_peek_next_def)
    then show ?thesis using unat_minus [OF True] by (auto simp: word_less_nat_alt)
  next
    case False
    then show ?thesis by (simp add: word_le_nat_alt)
  qed
  have late: "unat now < d" if "(a, d) \<in> set (due (unat ?b) (sendqueue n'))" for a d
  proof (cases "sendqueue n'")
    case (Cons q qs)
    have "unat ?b + unat (q_t q) \<le> d" using that due_from by (fastforce simp: Cons)
    then show ?thesis using first [OF Cons] by simp
  qed (use that in simp)
  define w where "w = (ucast ((((case coap_peek_next (sendqueue n') of None \<Rightarrow> 0
      | Some q \<Rightarrow> q_t q - (now - ?b))) * 1000 + COAP_TICKS_PER_SECOND - 1) div COAP_TICKS_PER_SECOND) :: u32)"
  have "prepare_io e now n = Some (w, n')" using n'(1) by (simp add: prepare_io_def Let_def w_def)
  moreover have "w = 0" if "sendqueue n' = []"
    using that by (simp add: w_def coap_peek_next_def COAP_TICKS_PER_SECOND_def)
  moreover have "unat w = d - unat now" if "due (unat ?b) (sendqueue n') = (a, d) # ds" "d < unat now + 2 ^ 32" for a d ds
  proof (cases "sendqueue n'")
    case (Cons q qs)
    then have "d = unat ?b + unat (q_t q)" using that(1) by simp
    then show ?thesis using wait_until [of now ?b "q_t q"] first [OF Cons] that(2) Cons by (simp add: w_def coap_peek_next_def)
  qed (use that in simp)
  ultimately show ?thesis using n'(1-3) late by blast
qed

theorem retransmit_loop_ends_witness:
  "\<exists>n1 n2. coap_send_internal (demo_env 0) full_heap 1 (demo_request 7) demo_net = Some (7, n1) \<and>
    retransmit_due (demo_env 5000) 5000 n1 = Some n2 \<and> sendqueue n2 \<noteq> []"
proof -
  have s: "sessions demo_net 1 = Some demo_session" by (simp add: demo_net_def)
  obtain n1 s1 q p where n1: "coap_send_internal (demo_env 0) full_heap 1 (demo_request 7) demo_net = Some (uint (pdu_mid (demo_request 7)), n1)"
    "in_flight 1 s1 q 0 0 n1" "sends n1 = sends demo_net @ [(1, datagram (demo_request 7))]" "nack_log n1 = nack_log demo_net"
    "tx_params s1 = tx_params demo_session"
    "q_timeout q = coap_calc_timeout (tx_params demo_session) (e_prng (demo_env 0) (calls demo_net + 2))"
    "q_id q = uint (pdu_mid (demo_request 7))" "q_pdu q = Some p" "wire p = datagram (demo_request 7)"
    by (rule send_in_flight [OF at_time_demo demo_start s demo_request_ok [of 7], where h = full_heap]) (simp_all add: demo_net_def)
  have T: "unat (q_timeout q) = 2000" by (simp add: n1(6) demo_session_def demo_env_def demo_timeout)
  have reach: "net_reach full_heap demo_net n1"
    by (rule net_reach.send [OF net_reach.start calm_demo demo_request_ok n1(1)])
  have late: "\<forall>k. 5000 \<le> e_ticks (demo_env 5000) k \<and> unat (e_ticks (demo_env 5000) k) < 2 ^ 62" by (simp add: demo_env_def)
  have small: "unat (sendqueue_basetime n1) + span (sendqueue n1) < 2 ^ 64"
    using n1(2) T unat_push [of 0 "q_timeout q"] by (simp_all add: in_flight_def)
  obtain n2 where n2: "retransmit_due (demo_env 5000) 5000 n1 = Some n2"
    using retransmit_loop_ends [OF demo_start reach calm_demo late small] by blast
  have due: "node_due 5000 n1" using in_flight_due [OF n1(2), of 5000] T by simp
  have "unat (max_retransmit (tx_params s1)) = 4" by (simp add: n1(5) demo_session_def demo_params)
  then have "on_time (q_timeout q) 0 0 [(5000, demo_env 5000)]" "0 + length [(5000, demo_env 5000)] \<le> unat (max_retransmit (tx_params s1))"
    using T by (simp_all add: at_time_demo)
  from in_flight_polls [OF n1(2) this] have "sendqueue n2 \<noteq> []" using n2 by (simp add: in_flight_def)
  then show ?thesis using n1(1) n2 by (auto simp: demo_request_def)
qed

end
