(* ===== verification/Coap_Faults.thy ===== *)
theory Coap_Faults
  imports Coap_Retransmit
begin

text \<open>
  Where the bookkeeping of \<open>libcoap\<close> departs from what it promises: deadlines that move when another session is
  disconnected, and the two ways in which the window of a session grows beyond NSTART.
\<close>

section \<open>Concrete states\<close>

text \<open>A request is under way in the session 1, and the window, of one message, is full.\<close>

lemma demo_sent:
  obtains n1 q where "coap_send_internal (demo_env 5) full_heap 1 (demo_request 7) demo_net = Some (7, n1)"
    "net_reach full_heap demo_net n1" "sendqueue n1 = [q]" "q_session q = Some 1" "q_id q = 7" "retransmit_cnt q = 0"
    "sessions n1 1 = Some (demo_session\<lparr>con_active := 1, ref := 2\<rparr>)" "ping_timeout n1 = 0"
proof -
  have s0: "sessions demo_net 1 = Some demo_session" by (simp add: demo_net_def)
  have room: "unat (con_active demo_session) < unat (nstart (tx_params demo_session))" by (simp add: demo_session_def demo_params)
  obtain n1 p where n1: "coap_send_internal (demo_env 5) full_heap 1 (demo_request 7) demo_net = Some (uint (pdu_mid (demo_request 7)), n1)"
    "message_ok p" "pdu_mid p = pdu_mid (demo_request 7)" "wire p = datagram (demo_request 7)"
    "sendqueue n1 = sendqueue (enqueue (e_ticks (demo_env 5) (calls demo_net + 3))
        (ucast (coap_calc_timeout (tx_params demo_session) (e_prng (demo_env 5) (calls demo_net + 2))))
      \<lparr>q_addr = calls demo_net + 1, q_t = 0, retransmit_cnt = 0, is_mcast = False,
        q_timeout = coap_calc_timeout (tx_params demo_session) (e_prng (demo_env 5) (calls demo_net + 2)), q_session = Some 1,
        q_id = uint (pdu_mid (demo_request 7)), q_pdu = Some p\<rparr> demo_net)"
    "sendqueue_basetime n1 = base_at (e_ticks (demo_env 5) (calls demo_net + 3)) demo_net"
    "sessions n1 = (sessions demo_net)(1 \<mapsto> demo_session\<lparr>con_active := con_active demo_session + 1, ref := ref demo_session + 1\<rparr>)"
    "sends n1 = sends demo_net @ [(1, datagram (demo_request 7))]" "kept n1 = kept demo_net" "calls n1 = calls demo_net + 4"
    by (rule send_at_once [OF calm_demo s0 demo_fit demo_request_ok room])
  have send: "coap_send_internal (demo_env 5) full_heap 1 (demo_request 7) demo_net = Some (7, n1)"
    using n1(1) by (simp add: demo_request_def)
  have reach: "net_reach full_heap demo_net n1"
    by (rule net_reach.send [OF net_reach.start calm_demo demo_request_ok send])
  obtain q where "sendqueue n1 = [q]" "q_session q = Some 1" "q_id q = 7" "retransmit_cnt q = 0"
    using n1(5) by (simp add: enqueue_eq coap_insert_node_def demo_net_def demo_request_def)
  then show thesis
    by (rule that [OF send reach]) (use n1(7,9) in \<open>simp_all add: demo_session_def demo_net_def kept_def\<close>)
qed

lemma demo_busy:
  "session_fit (demo_session\<lparr>con_active := c, ref := r\<rparr>)"
  using demo_fit by (simp add: session_fit_def flag_set_def)

section \<open>Disconnecting one of several sessions\<close>

lemma filter_due:
  "P q \<Longrightarrow> (q_addr q, b + span (filter P ps) + unat (q_t q)) \<in> set (due b (filter P (ps @ q # qs)))"
  by (simp add: due_append)

text \<open>C27: \<open>coap_session_disconnected\<close> in any reachable state (and for any other reason than a report of the network
  stack): every delayed message of the session and then every message that waits for an
  acknowledgement is reported exactly once, in order, if there is a handler, and its node is freed exactly once in either case; the counters of the session are set back and it keeps exactly the
  references that do not come from messages; other sessions and their nodes are untouched. But the nodes that stay
  keep their relative times, so that the deadline of each moves back by the times of all cancelled nodes in front of it,
  unlike in \<open>coap_remove_from_queue\<close>.\<close>

theorem disconnect_reports_all:
  assumes "net_start n0" "net_reach h n0 n" "sessions n sid = Some s" "reason \<noteq> COAP_NACK_ICMP_ISSUE"
  shows "\<exists>n' s'. coap_session_disconnected sid reason n = Some n' \<and>
    sendqueue n' = filter (\<lambda>q. q_session q \<noteq> Some sid) (sendqueue n) \<and> sendqueue_basetime n' = sendqueue_basetime n \<and>
    nack_log n' = nack_log n @ (if nack_handler n
      then map (\<lambda>q. (sid, q_pdu q, reason, q_id q)) (delayqueue s @ filter (\<lambda>q. q_session q = Some sid) (sendqueue n)) else []) \<and>
    freed_nodes n' = freed_nodes n @ map q_addr (delayqueue s @ filter (\<lambda>q. q_session q = Some sid) (sendqueue n)) \<and>
    sent_log n' = sent_log n \<and> sessions n' sid = Some s' \<and> delayqueue s' = [] \<and> con_active s' = 0 \<and>
    ref s' + outstanding sid (sendqueue n) = ref s \<and> 0 < ref s' \<and> (\<forall>j. j \<noteq> sid \<longrightarrow> sessions n' j = sessions n j) \<and>
    (\<forall>b ps q qs. sendqueue n = ps @ q # qs \<and> q_session q \<noteq> Some sid \<longrightarrow>
       (q_addr q, b + span ps + unat (q_t q)) \<in> set (due b (sendqueue n)) \<and>
       (q_addr q, b + span (filter (\<lambda>q. q_session q \<noteq> Some sid) ps) + unat (q_t q)) \<in> set (due b (sendqueue n')))"
proof -
  have inv: "net_inv {#} n" using net_reach_inv [OF assms(2,1)] by blast
  have refs: "outstanding sid (sendqueue n) < ref s"
    using net_inv_session [OF inv assms(3)] by (simp add: session_inv_def out_cores)
  let ?n = "n\<lparr>sendqueue := filter (theirs sid) (sendqueue n),
    nack_log := nack_log n @ reports sid reason n (delayqueue s @ filter (mine sid) (sendqueue n)),
    freed_nodes := freed_nodes n @ map q_addr (delayqueue s @ filter (mine sid) (sendqueue n)),
    sessions := (sessions n)(sid \<mapsto> closed_session s (outstanding sid (sendqueue n)))\<rparr>"
  have run: "coap_session_disconnected sid reason n = Some ?n" by (rule disconnected_eq [OF inv assms(3,4)])
  have dues: "(q_addr q, b + span ps + unat (q_t q)) \<in> set (due b (sendqueue n)) \<and>
       (q_addr q, b + span (filter (theirs sid) ps) + unat (q_t q)) \<in> set (due b (sendqueue ?n))"
    if "sendqueue n = ps @ q # qs" "q_session q \<noteq> Some sid" for b ps q qs
    using filter_due [of "theirs sid" q b ps qs] that by (simp add: due_append)
  show ?thesis
    by (rule exI [of _ ?n], rule exI [of _ "closed_session s (outstanding sid (sendqueue n))"])
      (use run dues refs in \<open>simp add: reports_def closed_session_def\<close>)
qed

text \<open>Two sessions, each with a message under way: 7 of the first, due at 2005, and 8 of the second, due at 2006.\<close>

definition demo_two :: net where
  "demo_two = demo_net\<lparr>sessions := [1 \<mapsto> demo_session, 2 \<mapsto> demo_session]\<rparr>"

lemma demo_two_start: "net_start demo_two"
  using demo_fit by (auto simp: net_start_def demo_two_def demo_net_def demo_session_def split: if_splits)

theorem disconnect_reports_all_witness:
  "\<exists>n1 n2 n3 a b. coap_send_internal (demo_env 5) full_heap 1 (demo_request 7) demo_two = Some (7, n1) \<and>
    coap_send_internal (demo_env 6) full_heap 2 (demo_request 8) n1 = Some (8, n2) \<and>
    due 5 (sendqueue n2) = [(a, 2005), (b, 2006)] \<and>
    coap_session_disconnected 1 COAP_NACK_NOT_DELIVERABLE n2 = Some n3 \<and>
    sendqueue_basetime n3 = 5 \<and> due 5 (sendqueue n3) = [(b, 6)] \<and> length (nack_log n3) = 1 \<and> freed_nodes n3 = [a]"
proof -
  have s: "sessions demo_two 1 = Some demo_session" by (simp add: demo_two_def)
  have room: "unat (con_active demo_session) < unat (nstart (tx_params demo_session))" by (simp add: demo_session_def demo_params)
  have T: "coap_calc_timeout (tx_params demo_session) (e_prng (demo_env t) k) = 2000" for t k
    by (simp add: demo_session_def demo_env_def demo_timeout)
  have mid: "uint (pdu_mid (demo_request 7)) = 7" "uint (pdu_mid (demo_request 8)) = 8" by (simp_all add: demo_request_def)
  obtain n1 p where n1: "coap_send_internal (demo_env 5) full_heap 1 (demo_request 7) demo_two = Some (uint (pdu_mid (demo_request 7)), n1)"
    "message_ok p" "pdu_mid p = pdu_mid (demo_request 7)" "wire p = datagram (demo_request 7)"
    "sendqueue n1 = sendqueue (enqueue (e_ticks (demo_env 5) (calls demo_two + 3))
        (ucast (coap_calc_timeout (tx_params demo_session) (e_prng (demo_env 5) (calls demo_two + 2))))
      \<lparr>q_addr = calls demo_two + 1, q_t = 0, retransmit_cnt = 0, is_mcast = False,
        q_timeout = coap_calc_timeout (tx_params demo_session) (e_prng (demo_env 5) (calls demo_two + 2)), q_session = Some 1,
        q_id = uint (pdu_mid (demo_request 7)), q_pdu = Some p\<rparr> demo_two)"
    "sendqueue_basetime n1 = base_at (e_ticks (demo_env 5) (calls demo_two + 3)) demo_two"
    "sessions n1 = (sessions demo_two)(1 \<mapsto> demo_session\<lparr>con_active := con_active demo_session + 1, ref := ref demo_session + 1\<rparr>)"
    "sends n1 = sends demo_two @ [(1, datagram (demo_request 7))]" "kept n1 = kept demo_two" "calls n1 = calls demo_two + 4"
    by (rule send_at_once [OF calm_demo s demo_fit demo_request_ok room])
  obtain q1 where q1: "sendqueue n1 = [q1]" "q_t q1 = 2000" "q_session q1 = Some 1" "sendqueue_basetime n1 = 5"
    using n1(5,6) T by (simp add: enqueue_eq base_at_def coap_insert_node_def demo_two_def demo_net_def demo_env_def)
  have s2: "sessions n1 2 = Some demo_session" by (simp add: n1(7) demo_two_def)
  obtain n2 p' where n2: "coap_send_internal (demo_env 6) full_heap 2 (demo_request 8) n1 = Some (uint (pdu_mid (demo_request 8)), n2)"
    "message_ok p'" "pdu_mid p' = pdu_mid (demo_request 8)" "wire p' = datagram (demo_request 8)"
    "sendqueue n2 = sendqueue (enqueue (e_ticks (demo_env 6) (calls n1 + 3))
        (ucast (coap_calc_timeout (tx_params demo_session) (e_prng (demo_env 6) (calls n1 + 2))))
      \<lparr>q_addr = calls n1 + 1, q_t = 0, retransmit_cnt = 0, is_mcast = False,
        q_timeout = coap_calc_timeout (tx_params demo_session) (e_prng (demo_env 6) (calls n1 + 2)), q_session = Some 2,
        q_id = uint (pdu_mid (demo_request 8)), q_pdu = Some p'\<rparr> n1)"
    "sendqueue_basetime n2 = base_at (e_ticks (demo_env 6) (calls n1 + 3)) n1"
    "sessions n2 = (sessions n1)(2 \<mapsto> demo_session\<lparr>con_active := con_active demo_session + 1, ref := ref demo_session + 1\<rparr>)"
    "sends n2 = sends n1 @ [(2, datagram (demo_request 8))]" "kept n2 = kept n1" "calls n2 = calls n1 + 4"
    by (rule send_at_once [OF calm_demo s2 demo_fit demo_request_ok room])
  obtain q2 where q2: "sendqueue n2 = [q1, q2]" "q_t q2 = 1" "q_session q2 = Some 2" "sendqueue_basetime n2 = 5"
    using n2(5,6) T q1 by (simp add: enqueue_eq base_at_def coap_insert_node_def demo_env_def)
  have "net_reach full_heap demo_two n1" by (rule net_reach.send [OF net_reach.start calm_demo demo_request_ok n1(1)])
  then have reach: "net_reach full_heap demo_two n2" by (rule net_reach.send [OF _ calm_demo demo_request_ok n2(1)])
  have "sessions n2 1 = Some (demo_session\<lparr>con_active := 1, ref := 2\<rparr>)"
    using n1(7) n2(7) by (simp add: demo_session_def)
  from disconnect_reports_all [OF demo_two_start reach this, of COAP_NACK_NOT_DELIVERABLE] obtain n3 where
    "coap_session_disconnected 1 COAP_NACK_NOT_DELIVERABLE n2 = Some n3" "sendqueue n3 = [q2]" "sendqueue_basetime n3 = 5"
    "length (nack_log n3) = 1" "freed_nodes n3 = [q_addr q1]"
    using n1(9) n2(9) q1(3) q2 by (auto simp: kept_def demo_session_def demo_two_def demo_net_def)
  then show ?thesis using n1(1) n2(1) q1 q2 unfolding mid by auto
qed

section \<open>A reset for another message\<close>

text \<open>One slot is free, and there are delayed messages: the flush sends exactly the first.\<close>

lemma connected_one:
  assumes e: "calm e" and s: "sessions n sid = Some s" "session_fit s" "delayqueue s = q # qs" "unat (con_active s) + 1 = unat (nstart (tx_params s))"
    and ok: "\<forall>p \<in> set (q # qs). node_ok p \<and> retransmit_cnt p = 0"
  obtains n' s' where "coap_session_connected e sid n = Some n'" "sessions n' sid = Some s'" "tx_params s' = tx_params s"
    "con_active s' = con_active s + 1" "cores (sendqueue n') = add_mset (core (q\<lparr>q_session := Some sid\<rparr>)) (cores (sendqueue n))"
    "sends n' = sends n @ [(sid, node_bytes q)]" "delayqueue s' = qs"
proof -
  have fit: "proto s = COAP_PROTO_UDP" "session_state s = COAP_SESSION_STATE_ESTABLISHED" "unat (nstart (tx_params s)) < 256"
    using s(2) by (simp_all add: session_fit_def)
  let ?s = "s\<lparr>session_state := COAP_SESSION_STATE_ESTABLISHED, partial_write := 0\<rparr>"
  let ?n = "put_session sid ?s n"
  have n: "sessions ?n sid = Some ?s" by (simp add: put_session_def)
  have room: "unat (con_active ?s) < unat (nstart (tx_params ?s))" using s(4) by simp
  let ?n2 = "\<lambda>w. enqueue (e_ticks e (calls ?n + 1)) (ucast (q_timeout q)) (q\<lparr>q_session := Some sid\<rparr>)
      (put_session sid (?s\<lparr>con_active := con_active ?s + 1, delayqueue := qs, ref := ref ?s + 1\<rparr>)
        (?n\<lparr>sent_log := sent_log ?n @ [(sid, wire (the (q_pdu q)), w)]\<rparr>)\<lparr>calls := calls ?n + 2\<rparr>)"
  obtain w where w: "connected_step e sid (True, ?n) = Some (True, ?n2 w)"
    by (rule connected_step_send [OF e n _ _ _ _ room, of q qs True]) (use fit s(3) ok in simp_all)
  have more: "more_delayed sid (True, ?n)" using n s(3) by (simp add: more_delayed_def)
  define s2 where "s2 = ?s\<lparr>con_active := con_active ?s + 1, delayqueue := qs, ref := ref ?s + 1\<rparr>"
  define m where "m = ?n2 w"
  have n2: "sessions m sid = Some s2" by (simp add: m_def put_session_def s2_def)
  have full: "unat (con_active s2) = unat (nstart (tx_params s2))"
    using s(4) fit(3) unat_succ8 [of "con_active s" "unat (nstart (tx_params s))"] by (simp add: s2_def)
  have "\<exists>b. c_while (more_delayed sid) (connected_step e sid) (True, m) = Some (b, m)"
  proof (cases qs)
    case Nil
    then have "\<not> more_delayed sid (True, m)" using n2 by (simp add: more_delayed_def s2_def)
    then show ?thesis by (intro exI [of _ True]) simp
  next
    case (Cons p ps)
    then obtain pdu where pdu: "q_pdu p = Some pdu" "is_con s2 pdu"
      using ok fit(1) fit_con [of s2] by (auto simp: node_ok_def s2_def)
    have "connected_step e sid (True, m) = Some (False, m)"
      using n2 full pdu Cons by (simp add: connected_step_def s2_def)
    moreover have "more_delayed sid (True, m)" using n2 Cons by (simp add: more_delayed_def s2_def)
    ultimately show ?thesis by (intro exI [of _ False]) (simp add: c_while_True more_delayed_def)
  qed
  then have "\<exists>b. c_while (more_delayed sid) (connected_step e sid) (True, ?n) = Some (b, m)"
    using c_while_True [of "more_delayed sid" "(True, ?n)" "connected_step e sid", OF more w] by (simp add: m_def)
  then have run: "coap_session_connected e sid n = Some (m)"
    using s(1) fit by (auto simp: coap_session_connected_def Let_def)
  show thesis
    by (rule that [OF run n2]) (simp_all add: m_def s2_def put_session_def sends_def node_bytes_def)
qed

lemma remove_unknown:
  "\<forall>q \<in> set qs. q_session q = Some sid \<longrightarrow> q_id q \<noteq> mid \<Longrightarrow> coap_remove_from_queue qs sid mid = (None, qs)"
  by (induction qs) auto

lemma ball_cores: "(\<forall>q \<in> set qs. P (core q)) \<longleftrightarrow> (\<forall>q \<in># cores qs. P q)"
  by (induction qs) auto

text \<open>C28: a reset takes a slot of the window even when no message with its id waits for an
  acknowledgement, such as a reset for a non-confirmable or an unknown message: \<open>coap_dispatch\<close> decrements
  \<open>con_active\<close> before it looks for the message. In a reachable state with delayed messages the first of them is
  then sent although the window is full, so that NSTART + 1 messages are under way.\<close>

theorem reset_widens_window:
  assumes "net_start n0" "net_reach h n0 n" "calm e" "sessions n sid = Some s" "delayqueue s = q # qs"
    and "\<forall>p \<in> set (sendqueue n). q_session p = Some sid \<longrightarrow> q_id p \<noteq> uint mid" "q_id q \<noteq> uint mid"
  shows "\<exists>n' s'. dispatch_rst e sid mid n = Some n' \<and> sends n' = sends n @ [(sid, node_bytes q)] \<and>
    sessions n' sid = Some s' \<and> delayqueue s' = qs \<and> unat (con_active s') = unat (nstart (tx_params s)) \<and>
    outstanding sid (sendqueue n') = unat (nstart (tx_params s)) + 1"
proof -
  have inv: "net_inv {#} n" and full: "full_window sid n" using net_reach_inv [OF assms(2,1)] by blast+
  have own: "session_inv {#} (cores (sendqueue n)) (calls n) sid s" by (rule net_inv_session [OF inv assms(4)])
  then have fit: "session_fit s" and act: "unat (con_active s) = outstanding sid (sendqueue n)"
    and ok: "\<forall>p \<in> set (q # qs). node_ok p \<and> retransmit_cnt p = 0"
    using assms(5) by (auto simp: session_inv_def out_cores list_all_iff delayed_ok_def)
  have window: "unat (con_active s) = unat (nstart (tx_params s))" using full assms(4,5) by (simp add: full_window_def)
  moreover have "0 < unat (nstart (tx_params s))" using fit by (simp add: session_fit_def)
  ultimately have nz: "con_active s \<noteq> 0" by auto
  let ?s = "s\<lparr>con_active := con_active s - 1\<rparr>"
  have free: "unat (con_active ?s) + 1 = unat (nstart (tx_params ?s))"
    using window unat_pred8 [OF nz] \<open>0 < unat (nstart (tx_params s))\<close> by simp
  have n1: "sessions (put_session sid ?s n) sid = Some ?s" by (simp add: put_session_def)
  have fit1: "session_fit ?s" using fit by (simp add: session_fit_def flag_set_def)
  obtain n2 s2 where n2: "coap_session_connected e sid (put_session sid ?s n) = Some n2" "sessions n2 sid = Some s2" "tx_params s2 = tx_params ?s"
    "con_active s2 = con_active ?s + 1" "cores (sendqueue n2) = add_mset (core (q\<lparr>q_session := Some sid\<rparr>)) (cores (sendqueue (put_session sid ?s n)))"
    "sends n2 = sends (put_session sid ?s n) @ [(sid, node_bytes q)]" "delayqueue s2 = qs"
    by (rule connected_one [OF assms(3) n1 fit1 _ free ok]) (use assms(5) in simp_all)
  have taken: "con_done e sid n = Some n2"
    using assms(4) nz fit n2(1) by (simp add: con_done_def session_fit_def)
  have cores: "cores (sendqueue n2) = add_mset (core (q\<lparr>q_session := Some sid\<rparr>)) (cores (sendqueue n))"
    using n2(5) by (simp add: put_session_def)
  let ?P = "\<lambda>p. q_session p = Some sid \<longrightarrow> q_id p \<noteq> uint mid"
  have "\<forall>p \<in># cores (sendqueue n). ?P p" unfolding ball_cores [symmetric, of _ ?P] using assms(6) by simp
  then have "\<forall>p \<in># cores (sendqueue n2). ?P p" unfolding cores using assms(7) by simp
  then have "\<forall>p \<in> set (sendqueue n2). ?P p" using ball_cores [of "sendqueue n2" ?P] by simp
  then have "coap_remove_from_queue (sendqueue n2) sid (uint mid) = (None, sendqueue n2)"
    by (intro remove_unknown) simp
  then have run: "dispatch_rst e sid mid n = Some (call_nack_handler sid None COAP_NACK_RST (uint mid) (n2\<lparr>sendqueue := sendqueue n2\<rparr>))"
    using taken by (simp add: dispatch_rst_def)
  have "outstanding sid (sendqueue n2) = outstanding sid (sendqueue n) + 1"
    using cores by (simp add: out_cores [symmetric])
  moreover have "con_active s2 = con_active s" using n2(4) by simp
  ultimately show ?thesis
    using run n2(2,3,6,7) window act by (auto simp: call_nack_handler_def sends_def put_session_def)
qed

theorem reset_widens_window_witness:
  "\<exists>n1 n2 n3. coap_send_internal (demo_env 5) full_heap 1 (demo_request 7) demo_net = Some (7, n1) \<and>
    coap_send_internal (demo_env 6) full_heap 1 (demo_request 8) n1 = Some (8, n2) \<and>
    dispatch_rst (demo_env 7) 1 99 n2 = Some n3 \<and> nstart demo_params = 1 \<and> outstanding 1 (sendqueue n3) = 2"
proof -
  obtain n1 q where n1: "coap_send_internal (demo_env 5) full_heap 1 (demo_request 7) demo_net = Some (7, n1)"
    "net_reach full_heap demo_net n1" "sendqueue n1 = [q]" "q_session q = Some 1" "q_id q = 7" "retransmit_cnt q = 0"
    "sessions n1 1 = Some (demo_session\<lparr>con_active := 1, ref := 2\<rparr>)" "ping_timeout n1 = 0"
    by (rule demo_sent)
  let ?s = "demo_session\<lparr>con_active := 1, ref := 2\<rparr>"
  have room: "\<not> unat (con_active ?s) < unat (nstart (tx_params ?s))" by (simp add: demo_session_def demo_params)
  obtain n2 s where n2: "coap_send_internal (demo_env 6) full_heap 1 (demo_request 8) n1 = Some (8, n2)"
    "sendqueue n2 = [q]" "sessions n2 1 = Some s" "map q_id (delayqueue s) = [8]" "tx_params s = demo_params"
  proof (rule send_delayed [OF calm_demo [of 6] n1(7) demo_busy demo_request_ok [of 8] room, where h = full_heap])
    assume "list_ex (\<lambda>q. q_id q = uint (pdu_mid (demo_request 8))) (delayqueue ?s)"
    then show thesis by (simp add: demo_session_def)
  next
    fix p assume "message_ok p" and send: "coap_send_internal (demo_env 6) full_heap 1 (demo_request 8) n1 =
      Some (uint (pdu_mid (demo_request 8)), put_session 1 (?s\<lparr>delayqueue := delayqueue ?s @
      [\<lparr>q_addr = calls n1, q_t = 0, retransmit_cnt = 0, is_mcast = False, q_timeout = coap_calc_timeout (tx_params ?s) (e_prng (demo_env 6) (calls n1 + 1)),
        q_session = None, q_id = uint (pdu_mid (demo_request 8)), q_pdu = Some p\<rparr>]\<rparr>) (n1\<lparr>calls := calls n1 + 2\<rparr>))"
    have mid: "uint (pdu_mid (demo_request 8)) = 8" by (simp add: demo_request_def)
    show thesis by (rule that [OF send [unfolded mid]]) (simp_all add: n1(3) put_session_def demo_session_def)+
  qed
  then obtain r where r: "delayqueue s = [r]" "q_id r = 8" by auto
  have reach: "net_reach full_heap demo_net n2" by (rule net_reach.send [OF n1(2) calm_demo demo_request_ok n2(1)])
  have other: "\<forall>p \<in> set (sendqueue n2). q_session p = Some 1 \<longrightarrow> q_id p \<noteq> uint (99 :: u16)" "q_id r \<noteq> uint (99 :: u16)"
    using n2(2) r(2) n1(5) by simp_all
  show ?thesis
    using reset_widens_window [OF demo_start reach calm_demo [of 7] n2(3) r(1) other] n1(1) n2(1) by (auto simp: demo_params n2(5))
qed

section \<open>A retransmission that cannot be written\<close>

lemma retransmit_unwritten:
  assumes w: "\<And>k i bs. e_write e k i bs = -1" and q: "q_session q = Some sid" "node_ok q" and s: "sessions n sid = Some s" "session_fit s"
    and cnt: "unat (retransmit_cnt q) < unat (max_retransmit (tx_params s))" and ping: "ping_timeout n = 0"
    and act: "con_active s \<noteq> 0" "unat (con_active s) \<le> unat (nstart (tx_params s))"
  obtains n' where "coap_retransmit e q n = Some (-1, n')"
    "cores (sendqueue n') = add_mset (core (q\<lparr>retransmit_cnt := retransmit_cnt q + 1\<rparr>)) (cores (sendqueue n))"
    "sessions n' = (sessions n)(sid \<mapsto> s\<lparr>con_active := con_active s - 1\<rparr>)"
proof -
  obtain pdu where pdu: "q_pdu q = Some pdu" "message_ok pdu" using q(2) by (auto simp: node_ok_def)
  have small: "unat (retransmit_cnt q) + 1 < 32" using cnt s(2) by (simp add: session_fit_def)
  then have cnt1: "unat (retransmit_cnt q + 1) = unat (retransmit_cnt q) + 1" by (simp add: unat_word_ariths)
  let ?q = "q\<lparr>retransmit_cnt := retransmit_cnt q + 1\<rparr>" and ?s = "s\<lparr>con_active := con_active s - 1\<rparr>"
  let ?n1 = "handle_event COAP_EVENT_MSG_RETRANSMITTED sid n"
  have delay: "next_delay e ?q ?n1 = Some (push_bit (unat (retransmit_cnt q) + 1) (ucast (q_timeout q)), ?n1)"
    using small cnt1 ping by (simp add: next_delay_def handle_event_def Let_def)
  define m where "m = put_session sid ?s (enqueue (e_ticks e (calls n)) (push_bit (unat (retransmit_cnt q) + 1) (ucast (q_timeout q))) ?q (?n1\<lparr>calls := calls n + 1\<rparr>))"
  have m: "sessions m = (sessions n)(sid \<mapsto> ?s)" "cores (sendqueue m) = add_mset (core ?q) (cores (sendqueue n))"
    by (simp_all add: m_def put_session_def handle_event_def)
  have room: "\<not> unat (nstart (tx_params s)) \<le> unat (con_active s - 1)"
    using act(2) unat_pred8 [OF act(1)] unat_gt_0 [of "con_active s"] act(1) by simp
  let ?n' = "m\<lparr>calls := calls m + 1, sent_log := sent_log m @ [(sid, wire pdu, -1)]\<rparr>"
  have send: "coap_send_pdu e sid pdu qo m = Some (-1, ?n')" for qo
    using s(2) m(1) w room pdu(2)
    by (auto simp: coap_send_pdu_def coap_session_send_pdu_def env_call_def session_fit_def flag_set_def message_ok_def)
  have "\<not> is_mcast q" using q(2) by (simp add: node_ok_def)
  then have "coap_retransmit e q n = do {
      (bytes_written, n) \<leftarrow> coap_send_pdu e sid pdu (Some ?q) m;
      if bytes_written = COAP_PDU_DELAYED then Some (q_id q, n) else if bytes_written < 0 then Some (bytes_written, n) else Some (q_id q, n)
    }"
    using delay q(1) s(1) pdu(1) cnt act(1)
    by (simp add: coap_retransmit_def Let_def env_call_def m_def handle_event_def cong: if_cong)
  then have run: "coap_retransmit e q n = Some (-1, ?n')" using send by (simp add: COAP_PDU_DELAYED_def)
  show thesis by (rule that [OF run]) (simp_all add: m)
qed

text \<open>C29: when the write of a retransmission fails, the message stays in the send queue but its slot in the
  window is given back: \<open>coap_retransmit\<close> decrements \<open>con_active\<close>, and \<open>coap_send_pdu\<close>
  only increments it when the write succeeds. If the window was full, the next request is sent at once, and
  NSTART + 1 messages of the session are under way.\<close>

theorem failed_write_widens_window:
  assumes "net_start n0" "net_reach h n0 n" "sendqueue n = q # qs" "q_session q = Some sid" "sessions n sid = Some s"
    and "unat (retransmit_cnt q) < unat (max_retransmit (tx_params s))" "ping_timeout n = 0"
    and "\<forall>k i bs. e_write e k i bs = -1" "outstanding sid (sendqueue n) = unat (nstart (tx_params s))"
    and "calm e'" "request_ok pdu"
  shows "\<exists>n1 s1 n2. retransmit_first e n = Some n1 \<and> sessions n1 sid = Some s1 \<and>
    outstanding sid (sendqueue n1) = unat (nstart (tx_params s)) \<and> unat (con_active s1) + 1 = outstanding sid (sendqueue n1) \<and>
    coap_send_internal e' h' sid pdu n1 = Some (uint (pdu_mid pdu), n2) \<and>
    sends n2 = sends n1 @ [(sid, datagram pdu)] \<and> outstanding sid (sendqueue n2) = unat (nstart (tx_params s)) + 1"
proof -
  have inv: "net_inv {#} n" using net_reach_inv [OF assms(2,1)] by blast
  have own: "session_inv {#} (cores (sendqueue n)) (calls n) sid s" by (rule net_inv_session [OF inv assms(5)])
  then have fit: "session_fit s" and act: "unat (con_active s) = unat (nstart (tx_params s))"
    using assms(9) by (simp_all add: session_inv_def out_cores)
  have "0 < unat (nstart (tx_params s))" using fit by (simp add: session_fit_def)
  then have nz: "con_active s \<noteq> 0" using act by auto
  have node: "node_ok q" by (rule inv_node [OF inv, of q]) (simp_all add: assms(3))
  let ?n = "n\<lparr>sendqueue := take_over q qs\<rparr>" and ?s = "s\<lparr>con_active := con_active s - 1\<rparr>"
  have w: "e_write e k i bs = -1" for k i bs using assms(8) by blast
  have s: "sessions ?n sid = Some s" "ping_timeout ?n = 0" using assms(5,7) by simp_all
  obtain n1 where n1: "coap_retransmit e q ?n = Some (-1, n1)"
    "cores (sendqueue n1) = add_mset (core (q\<lparr>retransmit_cnt := retransmit_cnt q + 1\<rparr>)) (cores (sendqueue ?n))"
    "sessions n1 = (sessions ?n)(sid \<mapsto> ?s)"
    by (rule retransmit_unwritten [OF w assms(4) node s(1) fit assms(6) s(2) nz]) (use act in simp)
  have first: "retransmit_first e n = Some n1"
    using n1(1) by (simp add: retransmit_first_def coap_pop_next_def assms(3))
  have out1: "outstanding sid (sendqueue n1) = outstanding sid (sendqueue n)"
    using n1(2) assms(3,4) by (simp add: out_cores [symmetric])
  have s1: "sessions n1 sid = Some ?s" "session_fit ?s" using n1(3) fit by (simp_all add: session_fit_def flag_set_def)
  have act1: "unat (con_active ?s) + 1 = unat (nstart (tx_params s))"
    using unat_pred8 [OF nz] act \<open>0 < unat (nstart (tx_params s))\<close> by simp
  then have room: "unat (con_active ?s) < unat (nstart (tx_params ?s))" by simp
  obtain n2 p where n2: "coap_send_internal e' h' sid pdu n1 = Some (uint (pdu_mid pdu), n2)" "message_ok p" "pdu_mid p = pdu_mid pdu"
    "wire p = datagram pdu"
    "sendqueue n2 = sendqueue (enqueue (e_ticks e' (calls n1 + 3)) (ucast (coap_calc_timeout (tx_params ?s) (e_prng e' (calls n1 + 2))))
      \<lparr>q_addr = calls n1 + 1, q_t = 0, retransmit_cnt = 0, is_mcast = False,
        q_timeout = coap_calc_timeout (tx_params ?s) (e_prng e' (calls n1 + 2)), q_session = Some sid, q_id = uint (pdu_mid pdu), q_pdu = Some p\<rparr> n1)"
    "sendqueue_basetime n2 = base_at (e_ticks e' (calls n1 + 3)) n1"
    "sessions n2 = (sessions n1)(sid \<mapsto> ?s\<lparr>con_active := con_active ?s + 1, ref := ref ?s + 1\<rparr>)"
    "sends n2 = sends n1 @ [(sid, datagram pdu)]" "kept n2 = kept n1" "calls n2 = calls n1 + 4"
    by (rule send_at_once [OF assms(10) s1 assms(11) room])
  have "outstanding sid (sendqueue n2) = outstanding sid (sendqueue n1) + 1"
    by (simp add: out_cores [symmetric] n2(5))
  then show ?thesis
    using first s1(1) out1 assms(9) act1 n2(1,8) by auto
qed

theorem failed_write_widens_window_witness:
  "\<exists>n0 n1 n2. coap_send_internal (demo_env 5) full_heap 1 (demo_request 7) demo_net = Some (7, n0) \<and>
    retransmit_first ((demo_env 3000)\<lparr>e_write := \<lambda>_ _ _. -1\<rparr>) n0 = Some n1 \<and>
    coap_send_internal (demo_env 3001) full_heap 1 (demo_request 8) n1 = Some (8, n2) \<and>
    nstart demo_params = 1 \<and> outstanding 1 (sendqueue n2) = 2"
proof -
  obtain n0 q where n0: "coap_send_internal (demo_env 5) full_heap 1 (demo_request 7) demo_net = Some (7, n0)"
    "net_reach full_heap demo_net n0" "sendqueue n0 = [q]" "q_session q = Some 1" "q_id q = 7" "retransmit_cnt q = 0"
    "sessions n0 1 = Some (demo_session\<lparr>con_active := 1, ref := 2\<rparr>)" "ping_timeout n0 = 0"
    by (rule demo_sent)
  have more: "unat (retransmit_cnt q) < unat (max_retransmit (tx_params (demo_session\<lparr>con_active := 1, ref := 2\<rparr>)))"
    and full: "outstanding 1 (sendqueue n0) = unat (nstart (tx_params (demo_session\<lparr>con_active := 1, ref := 2\<rparr>)))"
    by (simp_all add: n0(3,4,6) demo_session_def demo_params)
  have w: "\<forall>k i bs. e_write ((demo_env 3000)\<lparr>e_write := \<lambda>_ _ _. -1\<rparr>) k i bs = -1" by simp
  show ?thesis
    using failed_write_widens_window [OF demo_start n0(2-4,7) more n0(8) w full calm_demo [of 3001] demo_request_ok [of 8], of full_heap] n0(1)
    by (auto simp: demo_request_def demo_session_def demo_params)
qed

end
