(* ===== verification/Coap_Stream.thy ===== *)
theory Coap_Stream
  imports Coap_Active
begin

text \<open>
  Sessions over a stream (\<open>coap_write_session\<close>): messages that could not be written at once, or
  not as a whole, wait in the delay queue, and \<open>partial_write\<close> says how much of the first has been written.
\<close>

section \<open>What has been written and what is still to be written\<close>

text \<open>The bytes of the session that the transport took, and the bytes that wait.\<close>

definition accepted :: "nat \<Rightarrow> net \<Rightarrow> bytes" where
  "accepted sid n = concat (map (\<lambda>(i, bs, w). if i = sid then take (nat w) bs else []) (sent_log n))"

definition pending :: "net_session \<Rightarrow> bytes" where
  "pending s = drop (partial_write s) (concat (map node_bytes (delayqueue s)))"

text \<open>The delay queue holds messages, and less than the first of them has been written.\<close>

definition stream_ok :: "net_session \<Rightarrow> bool" where
  "stream_ok s \<longleftrightarrow> (\<forall>q \<in> set (delayqueue s). q_session q = None \<and> (\<exists>pdu. q_pdu q = Some pdu \<and> sendable pdu)) \<and>
     (case delayqueue s of [] \<Rightarrow> partial_write s = 0 | q # _ \<Rightarrow> partial_write s < length (node_bytes q))"

lemma length_wire: "sendable pdu \<Longrightarrow> length (wire pdu) = hdr_size pdu + used_size pdu"
  by (simp add: sendable_def wire_def)

lemma node_bytes_pos: "q_pdu q = Some pdu \<Longrightarrow> sendable pdu \<Longrightarrow> 0 < length (node_bytes q)"
  by (simp add: node_bytes_def length_wire) (simp add: sendable_def)

lemma accepted_log: "accepted sid (n\<lparr>calls := k, sent_log := sent_log n @ [(sid, bs, w)]\<rparr>) = accepted sid n @ take (nat w) bs"
  by (simp add: accepted_def)

lemma accepted_cong: "sent_log n' = sent_log n \<Longrightarrow> accepted sid n' = accepted sid n"
  by (simp add: accepted_def)

text \<open>One round: a part of the bytes that wait goes over to the transport, from the front.\<close>

lemma write_step_stream:
  assumes s: "sessions n sid = Some s" "stream_ok s" "delayqueue s = q # qs" and w: "\<forall>k i bs. e_write e k i bs \<le> int (length bs)"
  obtains b n' s' ps where "write_session_step e sid (go_on, n) = Some (b, n')" "sessions n' = (sessions n)(sid \<mapsto> s')" "stream_ok s'"
    "accepted sid n' @ pending s' = accepted sid n @ pending s" "delayqueue s = ps @ delayqueue s'" "sock_flags s' = sock_flags s"
    "freed_nodes n' = freed_nodes n @ map q_addr ps" "sendqueue n' = sendqueue n"
    "if b then ps = [q] else ps = [] \<and> (\<exists>l bs v. sent_log n' = l @ [(sid, bs, v)] \<and> v < int (length bs))"
proof -
  obtain pdu where pdu: "q_pdu q = Some pdu" "sendable pdu" and none: "q_session q = None" using s(2,3) by (auto simp: stream_ok_def)
  let ?p = "partial_write s" and ?rest = "drop (partial_write s) (wire pdu)"
  have bytes: "node_bytes q = wire pdu" by (simp add: node_bytes_def pdu)
  have p: "?p < length (wire pdu)" using s(2,3) by (simp add: stream_ok_def bytes)
  have len: "used_size pdu + hdr_size pdu - ?p = length ?rest" "?p < used_size pdu + hdr_size pdu"
    using p by (simp_all add: length_wire [OF pdu(2)])
  define v where "v = e_write e (calls n) sid ?rest"
  have v: "v \<le> int (length ?rest)" using w by (simp only: v_def)
  let ?n = "n\<lparr>calls := calls n + 1, sent_log := sent_log n @ [(sid, ?rest, v)]\<rparr>"
  have pend: "pending s = ?rest @ concat (map node_bytes qs)" using p by (simp add: pending_def s(3) bytes)
  have tail: "stream_ok (s\<lparr>delayqueue := qs, partial_write := 0\<rparr>)"
    using s(2,3) node_bytes_pos by (auto simp: stream_ok_def split: list.splits)
  show thesis
  proof (cases "v < int (length ?rest)")
    case True
    let ?s = "if v > 0 then s\<lparr>partial_write := ?p + nat v\<rparr> else s"
    have short: "v \<le> 0 \<or> nat v < used_size pdu + hdr_size pdu - ?p" using True unfolding len(1) by auto
    have "?p + nat v < length (wire pdu)" using True p by auto
    then have ok: "stream_ok ?s" using s(2,3) by (auto simp: stream_ok_def bytes)
    have "pending ?s = drop (nat v) (pending s)" by (simp add: pending_def add.commute)
    then have "pending ?s = drop (nat v) ?rest @ concat (map node_bytes qs)" using True pend by simp
    then have all: "take (nat v) ?rest @ pending ?s = pending s"
      using pend append_take_drop_id [of "nat v" ?rest] by (simp del: drop_drop append_take_drop_id)
    have run: "write_session_step e sid (go_on, n) = Some (False, if v > 0 then put_session sid ?s ?n else ?n)"
      using s(1,3) pdu len(2) short by (simp add: write_session_step_def env_call_def Let_def v_def [symmetric])
    have n': "sessions (if v > 0 then put_session sid ?s ?n else ?n) = (sessions n)(sid \<mapsto> ?s)"
      using s(1) by (simp add: put_session_def fun_upd_idem)
    show thesis
      by (rule that [OF run n' ok, of "[]"])
        (use all accepted_log [of sid n ?rest v "calls n + 1"] True in \<open>auto simp: put_session_def accepted_def\<close>)
  next
    case False
    then have eq: "v = int (length ?rest)" using v by simp
    then have full: "\<not> (v \<le> 0 \<or> nat v < used_size pdu + hdr_size pdu - ?p)" using p unfolding len(1) by auto
    let ?s = "s\<lparr>delayqueue := qs, partial_write := 0\<rparr>"
    have run: "write_session_step e sid (go_on, n) = Some (True, put_session sid ?s ?n\<lparr>freed_nodes := freed_nodes n @ [q_addr q]\<rparr>)"
      using s(1,3) pdu len(2) full none
      by (simp add: write_session_step_def env_call_def Let_def v_def [symmetric] coap_delete_node_def put_session_def)
    have "take (nat v) ?rest @ pending ?s = pending s" using pend eq by (simp add: pending_def)
    then show thesis
      by (intro that [OF run _ tail, of "[q]"])
        (use accepted_log [of sid n ?rest v "calls n + 1"] s(3) in \<open>simp_all add: put_session_def accepted_def\<close>)
  qed
qed

section \<open>Property\<close>

text \<open>C26: the stream stays intact: when the socket of the session is connected (otherwise an assertion of \<open>coap_write_session\<close> fails),
  whatever parts of the bytes the transport takes, \<open>coap_write_session\<close> returns, with the socket still connected, and the bytes it took followed by those that still wait are the same as before the call, so that by any number of
  calls the delayed messages are written in order, each byte once. The messages that were written completely have left
  the delay queue and their nodes are freed; the call stops with messages left only when the transport
  took less than it was given.\<close>

theorem write_session_stream:
  assumes "sessions n sid = Some s" "stream_ok s" "\<forall>k i bs. e_write e k i bs \<le> int (length bs)"
  shows "(coap_write_session e sid n = None \<longleftrightarrow> \<not> flag_set s COAP_SOCKET_CONNECTED) \<and>
    (flag_set s COAP_SOCKET_CONNECTED \<longrightarrow> (\<exists>n' s' ps. coap_write_session e sid n = Some n' \<and>
    sessions n' = (sessions n)(sid \<mapsto> s') \<and> stream_ok s' \<and> sock_flags s' = sock_flags s \<and>
    accepted sid n' @ pending s' = accepted sid n @ pending s \<and>
    delayqueue s = ps @ delayqueue s' \<and> freed_nodes n' = freed_nodes n @ map q_addr ps \<and> sendqueue n' = sendqueue n \<and>
    (delayqueue s' = [] \<or> (\<exists>l bs w. sent_log n' = l @ [(sid, bs, w)] \<and> w < int (length bs)))))"
proof (cases "flag_set s COAP_SOCKET_CONNECTED")
  case connected: True
  let ?I = "\<lambda>(b, m). \<exists>t ps. sessions m = (sessions n)(sid \<mapsto> t) \<and> stream_ok t \<and> sock_flags t = sock_flags s \<and>
    accepted sid m @ pending t = accepted sid n @ pending s \<and> delayqueue s = ps @ delayqueue t \<and>
    freed_nodes m = freed_nodes n @ map q_addr ps \<and> sendqueue m = sendqueue n \<and>
    (b \<or> (\<exists>l bs w. sent_log m = l @ [(sid, bs, w)] \<and> w < int (length bs)))"
  let ?more = "\<lambda>(go_on, n). go_on \<and> (case sessions n sid of None \<Rightarrow> True | Some s \<Rightarrow> delayqueue s \<noteq> [])"
  let ?m = "\<lambda>(b, m). length (delayqueue (the (sessions m sid))) + (if b then 1 else 0)"
  have "\<exists>st. c_while ?more (write_session_step e sid) (True, n) = Some st \<and> ?I st \<and> \<not> ?more st"
  proof (rule c_while_rule [where m = ?m])
    show "?I (True, n)"
      unfolding prod.case by (rule exI [of _ s], rule exI [of _ "[]"]) (use assms(1,2) in \<open>simp add: fun_upd_idem\<close>)
  next
    fix st assume I: "?I st" and more: "?more st"
    obtain m where st: "st = (True, m)" using more by (cases st) auto
    then obtain t ps where t: "sessions m = (sessions n)(sid \<mapsto> t)" "stream_ok t" "accepted sid m @ pending t = accepted sid n @ pending s"
      "delayqueue s = ps @ delayqueue t" "sock_flags t = sock_flags s" "freed_nodes m = freed_nodes n @ map q_addr ps" "sendqueue m = sendqueue n"
      using I unfolding st prod.case by blast
    obtain q qs where q: "delayqueue t = q # qs" using more st t(1) by (auto simp: neq_Nil_conv)
    have tm: "sessions m sid = Some t" by (simp add: t(1))
    obtain b m' t' rs where run: "write_session_step e sid (True, m) = Some (b, m')" and m': "sessions m' = (sessions m)(sid \<mapsto> t')" "stream_ok t'"
      "accepted sid m' @ pending t' = accepted sid m @ pending t" "delayqueue t = rs @ delayqueue t'" "sock_flags t' = sock_flags t"
      "freed_nodes m' = freed_nodes m @ map q_addr rs" "sendqueue m' = sendqueue m"
      "if b then rs = [q] else rs = [] \<and> (\<exists>l bs v. sent_log m' = l @ [(sid, bs, v)] \<and> v < int (length bs))"
      by (rule write_step_stream [OF tm t(2) q assms(3), of True])
    have upd: "sessions m' = (sessions n)(sid \<mapsto> t')" using m'(1) t(1) by simp
    have stop: "b \<or> (\<exists>l bs w. sent_log m' = l @ [(sid, bs, w)] \<and> w < int (length bs))" using m'(8) by (cases b) simp_all
    have keep: "accepted sid m' @ pending t' = accepted sid n @ pending s" "delayqueue s = (ps @ rs) @ delayqueue t'"
      "sock_flags t' = sock_flags s" "freed_nodes m' = freed_nodes n @ map q_addr (ps @ rs)" "sendqueue m' = sendqueue n"
      using m'(3-7) t(3-7) by simp_all
    have "?I (b, m')"
      unfolding prod.case by (rule exI [of _ t'], rule exI [of _ "ps @ rs"]) (use upd m'(2) keep stop in blast)
    moreover have "length (delayqueue t') + (if b then 1 else 0) < length (delayqueue t) + 1"
      using m'(4,8) q by (cases b) simp_all
    then have "?m (b, m') < ?m st" using st tm m'(1) by simp
    ultimately show "\<exists>st'. write_session_step e sid st = Some st' \<and> ?I st' \<and> ?m st' < ?m st"
      using run st by blast
  qed
  then obtain st where st: "c_while ?more (write_session_step e sid) (True, n) = Some st \<and> ?I st \<and> \<not> ?more st" ..
  obtain b n' where eq: "st = (b, n')" by (cases st)
  note R = st [unfolded eq]
  have run: "c_while ?more (write_session_step e sid) (True, n) = Some (b, n')" by (rule R [THEN conjunct1])
  have I: "?I (b, n')" by (rule R [THEN conjunct2, THEN conjunct1])
  have stop: "\<not> ?more (b, n')" by (rule R [THEN conjunct2, THEN conjunct2])
  from I obtain t ps where t: "sessions n' = (sessions n)(sid \<mapsto> t)" "stream_ok t" "accepted sid n' @ pending t = accepted sid n @ pending s"
      "delayqueue s = ps @ delayqueue t" "sock_flags t = sock_flags s" "freed_nodes n' = freed_nodes n @ map q_addr ps" "sendqueue n' = sendqueue n"
      "b \<or> (\<exists>l bs w. sent_log n' = l @ [(sid, bs, w)] \<and> w < int (length bs))"
    unfolding prod.case by blast
  have "coap_write_session e sid n = Some n'" using run assms(1) connected by (simp add: coap_write_session_def)
  moreover have "delayqueue t = [] \<or> (\<exists>l bs w. sent_log n' = l @ [(sid, bs, w)] \<and> w < int (length bs))"
    using stop t(1,8) by (cases b) simp_all
  ultimately show ?thesis using t(1-7) connected by (intro conjI impI exI [of _ n'] exI [of _ t] exI [of _ ps]) simp_all
next
  case False
  then show ?thesis using assms(1) by (simp add: coap_write_session_def)
qed

text \<open>Two messages wait; 3 bytes of the first have gone, and the transport takes at most 4 bytes at a time.\<close>

definition demo_node :: "u16 \<Rightarrow> coap_queue" where
  "demo_node mid = \<lparr>q_addr = unat mid, q_t = 0, retransmit_cnt = 0, is_mcast = False, q_timeout = 0, q_session = None, q_id = uint mid,
     q_pdu = Some ((pdu_of [1, 2, 3] [] [])\<lparr>hdr := [0, 0, 0, 0, 3, 69], hdr_size := 2\<rparr>)\<rparr>"

definition demo_stream :: net_session where
  "demo_stream = \<lparr>proto = COAP_PROTO_TCP, tx_mid = 0, mtu = 1152, tls_overhead = 0, doing_first = False, is_client = True,
     session_state = COAP_SESSION_STATE_ESTABLISHED, ref = 1, sock_flags = 7, con_active = 0,
     delayqueue = [demo_node 1, demo_node 2], partial_write = 3, tx_params = the (make_params True), echo = None\<rparr>"

definition demo_stream_net :: net where
  "demo_stream_net = \<lparr>sendqueue = [], sendqueue_basetime = 0, sessions = [1 \<mapsto> demo_stream], nack_handler = True, ping_timeout = 0,
     calls = 0, sent_log = [], nack_log = [], event_log = [], freed_nodes = []\<rparr>"

definition demo_stream_env :: net_env where
  "demo_stream_env = \<lparr>e_ticks = \<lambda>_. 0, e_prng = \<lambda>_. 0, e_node = \<lambda>_. True, e_write = \<lambda>_ _ bs. min (int (size bs)) 4, e_overhead = \<lambda>_. 0\<rparr>"

theorem write_session_stream_witness:
  "\<exists>n' s'. coap_write_session demo_stream_env 1 demo_stream_net = Some n' \<and> sessions n' 1 = Some s' \<and>
    accepted 1 n' @ pending s' = [2, 3] @ [3, 69, 1, 2, 3]"
proof -
  have node: "node_bytes (demo_node mid) = [3, 69, 1, 2, 3]" "q_session (demo_node mid) = None"
    "\<exists>pdu. q_pdu (demo_node mid) = Some pdu \<and> sendable pdu" for mid
    by (simp_all add: demo_node_def node_bytes_def wire_def sendable_def pdu_of_def message_eval)
  have "stream_ok demo_stream" by (simp add: stream_ok_def demo_stream_def node)
  moreover have "pending demo_stream = [2, 3] @ [3, 69, 1, 2, 3]" "accepted 1 demo_stream_net = []" "sessions demo_stream_net 1 = Some demo_stream"
    by (simp_all add: pending_def demo_stream_def node accepted_def demo_stream_net_def)
  moreover have "flag_set demo_stream COAP_SOCKET_CONNECTED" by (simp add: flag_set_def demo_stream_def COAP_SOCKET_CONNECTED_def)
  moreover have "\<forall>k i bs. e_write demo_stream_env k i bs \<le> int (length bs)" by (simp add: demo_stream_env_def)
  ultimately show ?thesis
    using write_session_stream [of demo_stream_net 1 demo_stream demo_stream_env] by auto
qed

end
