(* ===== verification/Coap_Path.thy ===== *)
theory Coap_Path
  imports Coap_Message
begin

unbundle bit_operations_syntax

text \<open>
  The part of \<open>libcoap/src/coap_uri.c\<close> that splits the path and the query of a URI into
  options: percent-decoding, the removal of dot segments, and the options with delta 0 that
  \<open>coap_split_path\<close> and \<open>coap_split_query\<close> write one behind the other into a buffer.

  The text is at offset \<open>s\<close> of the object \<open>str\<close>, which may be longer than the text: the
  functions get a length and no terminator, and what lies behind the text matters.
  Characters are bytes: 0x23 is \<open>#\<close>, 0x25 is the percent sign, 0x26 the ampersand, 0x2E the dot,
  0x2F the slash and 0x3F the question mark.
\<close>

section \<open>Characters\<close>

definition isdigit :: "u8 \<Rightarrow> bool" where
  "isdigit c \<longleftrightarrow> 0x30 \<le> c \<and> c \<le> 0x39"

definition isxdigit :: "u8 \<Rightarrow> bool" where
  "isxdigit c \<longleftrightarrow> isdigit c \<or> 0x41 \<le> c \<and> c \<le> 0x46 \<or> 0x61 \<le> c \<and> c \<le> 0x66"

text \<open>The value is computed in \<open>int\<close> and stored in a byte.\<close>

definition hexchar_to_dec :: "u8 \<Rightarrow> u8" where
  "hexchar_to_dec c = (if c AND 0x40 \<noteq> 0 then (c AND 0x0F) + 9 else c AND 0x0F)"

text \<open>The pointer that is returned stands behind the character that was found.\<close>

fun strnchr :: "bytes \<Rightarrow> nat \<Rightarrow> nat \<Rightarrow> u8 \<Rightarrow> nat option option" where
  "strnchr str s 0 c = Some None"
| "strnchr str s (Suc len) c = do {
     b \<leftarrow> c_load str s;
     if b \<noteq> c then strnchr str (s + 1) len c else Some (Some (s + 1))
   }"

section \<open>One segment\<close>

text \<open>
  The length is a \<open>size_t\<close> (32 bits) that \<open>length -= 2\<close> may take below zero: the test in front
  of it asks for two characters from the percent sign on, not for three.
\<close>

partial_function (option) check_loop :: "bytes \<Rightarrow> nat \<Rightarrow> u32 \<Rightarrow> nat \<Rightarrow> nat attempt option" where
  "check_loop str s len n =
     (if len = 0 then Some (Accepted n)
      else do {
        c \<leftarrow> c_load str s;
        if c = 0x25 then do {
          bad \<leftarrow>
            (if len < 2 then Some True
             else do {
               x \<leftarrow> c_load str (s + 1);
               if isxdigit x then do { y \<leftarrow> c_load str (s + 2); Some (\<not> isxdigit y) }
               else Some True
             });
          if bad then Some Rejected else check_loop str (s + 3) (len - 2 - 1) (n + 1)
        }
        else check_loop str (s + 1) (len - 1) (n + 1)
      })"

definition check_segment :: "bytes \<Rightarrow> nat \<Rightarrow> u32 \<Rightarrow> nat attempt option" where
  "check_segment str s len = check_loop str s len 0"

text \<open>\<open>buf\<close> is the offset in \<open>out\<close> the next character is written to.\<close>

partial_function (option) decode_segment :: "bytes \<Rightarrow> nat \<Rightarrow> u32 \<Rightarrow> bytes \<Rightarrow> nat \<Rightarrow> bytes option" where
  "decode_segment str seg len out buf =
     (if len = 0 then Some out
      else do {
        c \<leftarrow> c_load str seg;
        if c = 0x25 then do {
          x \<leftarrow> c_load str (seg + 1);
          y \<leftarrow> c_load str (seg + 2);
          out \<leftarrow> c_store out buf (push_bit 4 (hexchar_to_dec x) + hexchar_to_dec y);
          decode_segment str (seg + 3) (len - 1 - 2) out (buf + 1)
        }
        else do {
          out \<leftarrow> c_store out buf c;
          decode_segment str (seg + 1) (len - 1) out (buf + 1)
        }
      })"

text \<open>The size of the option, or a failure; and the buffer as the call leaves it.\<close>

definition make_decoded_option ::
  "bytes \<Rightarrow> nat \<Rightarrow> nat \<Rightarrow> bytes \<Rightarrow> nat \<Rightarrow> nat \<Rightarrow> (nat attempt \<times> bytes) option" where
  "make_decoded_option str s len out buf buflen =
     (if buflen = 0 then Some (Rejected, out)
      else do {
        res \<leftarrow> check_segment str s (word_of_nat len);
        case res of
          Rejected \<Rightarrow> Some (Rejected, out)
        | Accepted segmentlen \<Rightarrow> do {
            (written, out) \<leftarrow> coap_opt_setheader out buf buflen 0 segmentlen;
            c_assert (written \<le> buflen);
            if written = 0 then Some (Rejected, out)
            else if buflen - written < segmentlen then Some (Rejected, out)
            else do {
              out \<leftarrow> decode_segment str s (word_of_nat len) out (buf + written);
              Some (Accepted (written + segmentlen), out)
            }
          }
      })"

definition dots :: "bytes \<Rightarrow> nat \<Rightarrow> nat \<Rightarrow> bool option" where
  "dots str s len =
     (if len = 0 then Some False
      else do {
        c \<leftarrow> c_load str s;
        if c \<noteq> 0x2E then Some False
        else if len = 1 then Some True
        else if len = 2 then do { d \<leftarrow> c_load str (s + 1); Some (d = 0x2E) }
        else Some False
      })"

section \<open>Splitting\<close>

text \<open>
  The handler gets a segment (its offset and length) and its data. The loop returns the start of
  the last segment and the position it stopped at.
\<close>

definition path_end :: bytes where
  "path_end = [0x3F, 0x23, 0]"

text \<open>\<open>if (!dots(p, q - p)) h(p, q - p, data);\<close>\<close>

definition hand_segment ::
  "bytes \<Rightarrow> (nat \<Rightarrow> nat \<Rightarrow> 'd \<Rightarrow> 'd option) \<Rightarrow> nat \<Rightarrow> nat \<Rightarrow> 'd \<Rightarrow> 'd option" where
  "hand_segment str h p len d = do {
     dot \<leftarrow> dots str p len;
     if dot then Some d else h p len d
   }"

fun split_loop ::
  "bytes \<Rightarrow> (nat \<Rightarrow> nat \<Rightarrow> 'd \<Rightarrow> 'd option) \<Rightarrow> nat \<Rightarrow> nat \<Rightarrow> nat \<Rightarrow> 'd \<Rightarrow> (nat \<times> nat \<times> 'd) option" where
  "split_loop str h p q 0 d = Some (p, q, d)"
| "split_loop str h p q (Suc len) d = do {
     c \<leftarrow> c_load str q;
     found \<leftarrow> strnchr path_end 0 2 c;
     if found \<noteq> None then Some (p, q, d)
     else if c = 0x2F then do {
       d \<leftarrow> hand_segment str h p (q - p) d;
       split_loop str h (q + 1) (q + 1) len d
     }
     else split_loop str h p (q + 1) len d
   }"

definition coap_split_path_impl ::
  "bytes \<Rightarrow> nat \<Rightarrow> nat \<Rightarrow> (nat \<Rightarrow> nat \<Rightarrow> 'd \<Rightarrow> 'd option) \<Rightarrow> 'd \<Rightarrow> (nat \<times> 'd) option" where
  "coap_split_path_impl str s len h d = do {
     (p, q, d) \<leftarrow> split_loop str h s s len d;
     d \<leftarrow> hand_segment str h p (q - p) d;
     Some (q - s, d)
   }"

text \<open>The position and the room left in the output buffer, the number of options, the buffer.\<close>

record cnt_str =
  cs_s :: nat
  cs_length :: nat
  cs_n :: nat
  cs_out :: bytes

definition write_option :: "bytes \<Rightarrow> nat \<Rightarrow> nat \<Rightarrow> cnt_str \<Rightarrow> cnt_str option" where
  "write_option str s len st = do {
     (res, out) \<leftarrow> make_decoded_option str s len (cs_out st) (cs_s st) (cs_length st);
     let st = st\<lparr>cs_out := out\<rparr>;
     Some (case res of
       Rejected \<Rightarrow> st
     | Accepted optionsize \<Rightarrow>
         st\<lparr>cs_s := cs_s st + optionsize, cs_length := cs_length st - optionsize, cs_n := cs_n st + 1\<rparr>)
   }"

text \<open>The number of options, the value of \<open>*buflen\<close>, and the output buffer.\<close>

definition coap_split_path ::
  "bytes \<Rightarrow> nat \<Rightarrow> nat \<Rightarrow> bytes \<Rightarrow> nat \<Rightarrow> nat \<Rightarrow> (nat \<times> nat \<times> bytes) option" where
  "coap_split_path str s len out buf buflen = do {
     (_, tmp) \<leftarrow> coap_split_path_impl str s len (write_option str)
       \<lparr>cs_s = buf, cs_length = buflen, cs_n = 0, cs_out = out\<rparr>;
     Some (cs_n tmp, buflen - cs_length tmp, cs_out tmp)
   }"

fun query_loop :: "bytes \<Rightarrow> nat \<Rightarrow> nat \<Rightarrow> nat \<Rightarrow> cnt_str \<Rightarrow> (nat \<times> nat \<times> cnt_str) option" where
  "query_loop str p s 0 st = Some (p, s, st)"
| "query_loop str p s (Suc len) st = do {
     c \<leftarrow> c_load str s;
     if c = 0x23 then Some (p, s, st)
     else if c = 0x26 then do {
       st \<leftarrow> write_option str p (s - p) st;
       query_loop str (s + 1) (s + 1) len st
     }
     else query_loop str p (s + 1) len st
   }"

definition coap_split_query ::
  "bytes \<Rightarrow> nat \<Rightarrow> nat \<Rightarrow> bytes \<Rightarrow> nat \<Rightarrow> nat \<Rightarrow> (nat \<times> nat \<times> bytes) option" where
  "coap_split_query str s len out buf buflen = do {
     (p, s, tmp) \<leftarrow> query_loop str s s len \<lparr>cs_s = buf, cs_length = buflen, cs_n = 0, cs_out = out\<rparr>;
     tmp \<leftarrow> write_option str p (s - p) tmp;
     Some (cs_n tmp, buflen - cs_length tmp, cs_out tmp)
   }"

section \<open>What the texts mean\<close>

text \<open>Percent-decoding (RFC 3986, 2.1); a percent sign without two hexadecimal digits is an error.\<close>

function pct_decode :: "bytes \<Rightarrow> bytes option" where
  "pct_decode [] = Some []"
| "c \<noteq> 0x25 \<Longrightarrow> pct_decode (c # cs) = map_option ((#) c) (pct_decode cs)"
| "pct_decode (0x25 # x # y # cs) =
     (if isxdigit x \<and> isxdigit y
      then map_option ((#) (16 * hexchar_to_dec x + hexchar_to_dec y)) (pct_decode cs) else None)"
| "pct_decode [0x25] = None"
| "pct_decode [0x25, x] = None"
proof -
  fix P and x :: bytes
  assume c: "x = [] \<Longrightarrow> P" "\<And>c cs. c \<noteq> 0x25 \<Longrightarrow> x = c # cs \<Longrightarrow> P"
    "\<And>u v cs. x = 0x25 # u # v # cs \<Longrightarrow> P" "x = [0x25] \<Longrightarrow> P" "\<And>u. x = [0x25, u] \<Longrightarrow> P"
  show P
  proof (cases x)
    case (Cons a ds)
    show ?thesis
    proof (cases "a = 0x25")
      case True
      with Cons c show ?thesis by (cases ds; cases "tl ds") auto
    qed (use Cons c in blast)
  qed (use c in blast)
qed auto
termination by (relation "measure length") auto

text \<open>The same equations, in a form that can be evaluated.\<close>

declare pct_decode.simps [code del]

lemma pct_decode_code [code]:
  "pct_decode [] = Some []"
  "pct_decode (c # cs) =
     (if c \<noteq> 0x25 then map_option ((#) c) (pct_decode cs)
      else case cs of
        x # y # ds \<Rightarrow>
          if isxdigit x \<and> isxdigit y
          then map_option ((#) (16 * hexchar_to_dec x + hexchar_to_dec y)) (pct_decode ds) else None
      | _ \<Rightarrow> None)"
  by (auto split: list.split)

fun split_on :: "u8 \<Rightarrow> bytes \<Rightarrow> bytes list" where
  "split_on d [] = [[]]"
| "split_on d (c # cs) =
     (if c = d then [] # split_on d cs
      else case split_on d cs of [] \<Rightarrow> [[c]] | s # ss \<Rightarrow> (c # s) # ss)"

definition path_part :: "bytes \<Rightarrow> bytes" where
  "path_part = takeWhile (\<lambda>c. c \<noteq> 0x3F \<and> c \<noteq> 0x23)"

definition dot_segment :: "bytes \<Rightarrow> bool" where
  "dot_segment v \<longleftrightarrow> v = [0x2E] \<or> v = [0x2E, 0x2E]"

text \<open>The segments that make options: what cannot be decoded or does not fit is left out.\<close>

definition opt_space :: "bytes \<Rightarrow> nat" where
  "opt_space v = length (opt_header 0 (length v)) + length v"

fun fitting :: "nat \<Rightarrow> bytes option list \<Rightarrow> bytes list" where
  "fitting room [] = []"
| "fitting room (None # vs) = fitting room vs"
| "fitting room (Some v # vs) =
     (if opt_space v \<le> room then v # fitting (room - opt_space v) vs else fitting room vs)"

definition option_bytes :: "bytes list \<Rightarrow> bytes" where
  "option_bytes vs = concat (map (\<lambda>v. opt_header 0 (length v) @ v) vs)"

section \<open>Decoding a segment\<close>

lemma c_load_behind [simp]:
  "c_load (pre @ c # cs) (length pre) = Some c"
  "c_load (pre @ c # d # cs) (Suc (length pre)) = Some d"
  "c_load (pre @ c # d # e # cs) (Suc (Suc (length pre))) = Some e"
  by (simp_all add: c_load_def nth_append)

lemma size_word:
  "n < 2 ^ 32 \<Longrightarrow> (word_of_nat n = (0 :: u32)) = (n = 0)"
  "n < 2 ^ 32 \<Longrightarrow> ((word_of_nat n :: u32) < 2) = (n < 2)"
  by (simp_all add: word_unat_eq_iff word_less_nat_alt unat_of_nat_small)

lemma size_word_minus:
  "(word_of_nat (Suc n) :: u32) - 1 = word_of_nat n"
  "(word_of_nat (Suc (Suc (Suc n))) :: u32) - 2 - 1 = word_of_nat n"
  "(word_of_nat (Suc (Suc n)) :: u32) - 2 = word_of_nat n"
  by simp_all

lemma hex_byte: "push_bit 4 (hexchar_to_dec x) + hexchar_to_dec y = 16 * hexchar_to_dec x + hexchar_to_dec y"
  by (simp add: push_bit_eq_mult)

lemma check_loop_eq:
  assumes "\<not> isxdigit b" "length seg < 2 ^ 32"
  shows "check_loop (pre @ seg @ b # rest) (length pre) (word_of_nat (length seg)) n =
    Some (case pct_decode seg of None \<Rightarrow> Rejected | Some v \<Rightarrow> Accepted (n + length v))"
  using assms(2)
proof (induction seg arbitrary: pre n rule: pct_decode.induct)
  case 1
  show ?case by (subst check_loop.simps) simp
next
  case (2 c cs)
  then show ?case using "2.IH" [of "pre @ [c]" "n + 1"] size_word(1) [of "Suc (length cs)"]
    by (subst check_loop.simps) (simp add: size_word_minus del: of_nat_Suc split: option.splits)
next
  case (3 x y cs)
  then show ?case using "3.IH" [of "pre @ [0x25, x, y]" "n + 1"]
      size_word [of "Suc (Suc (Suc (length cs)))"]
    by (subst check_loop.simps) (simp add: size_word_minus numeral_3_eq_3 del: of_nat_Suc split: option.splits)
next
  case 4
  then show ?case by (subst check_loop.simps) simp
next
  case (5 x)
  then show ?case using assms(1) by (subst check_loop.simps) simp
qed

lemma decode_segment_eq:
  assumes "pct_decode seg = Some v" "length old = length v" "length seg < 2 ^ 32"
  shows "decode_segment (pre @ seg @ rest) (length pre) (word_of_nat (length seg)) (o1 @ old @ o2) (length o1) =
    Some (o1 @ v @ o2)"
  using assms
proof (induction seg arbitrary: pre v old o1 rule: pct_decode.induct)
  case 1
  then show ?case by (subst decode_segment.simps) simp
next
  case (2 c cs)
  then obtain w where w: "pct_decode cs = Some w" "v = c # w" by auto
  then obtain a old' where old: "old = a # old'" "length old' = length w"
    using 2 by (cases old) auto
  have st: "c_store (o1 @ a # old' @ o2) (length o1) c = Some (o1 @ c # old' @ o2)"
    by (simp add: c_store_append)
  show ?case using 2(1,4,5) "2.IH" [OF w(1) old(2), of "pre @ [c]" "o1 @ [c]"] size_word(1) [of "Suc (length cs)"] st
    by (subst decode_segment.simps) (simp add: w old size_word_minus del: of_nat_Suc)
next
  case (3 x y cs)
  let ?c = "16 * hexchar_to_dec x + hexchar_to_dec y"
  obtain w where w: "isxdigit x" "isxdigit y" "pct_decode cs = Some w" "v = ?c # w"
    using 3(2) by (auto split: if_splits)
  then obtain a old' where old: "old = a # old'" "length old' = length w"
    using 3 by (cases old) auto
  have st: "c_store (o1 @ a # old' @ o2) (length o1) c = Some (o1 @ c # old' @ o2)" for c
    by (simp add: c_store_append)
  show ?case using 3(4) "3.IH" [OF _ w(3) old(2), of "pre @ [0x25, x, y]" "o1 @ [?c]"] w(1,2)
      size_word(1) [of "Suc (Suc (Suc (length cs)))"] st
    by (subst decode_segment.simps) (simp add: w old size_word_minus hex_byte numeral_3_eq_3 del: of_nat_Suc)
qed auto
lemma pct_decode_length: "pct_decode seg = Some v \<Longrightarrow> length v \<le> length seg"
  by (induction seg arbitrary: v rule: pct_decode.induct) (fastforce split: if_splits)+

section \<open>Writing the option of a segment\<close>

lemma c_store_around:
  "c_store m i v = Some m' \<Longrightarrow> p \<le> i \<Longrightarrow> i < e \<Longrightarrow>
     take p m' = take p m \<and> drop e m' = drop e m \<and> length m' = length m"
  by (auto simp: c_store_def split: if_splits)

lemma or_first_around:
  "or_first m p x = Some m' \<Longrightarrow> p < e \<Longrightarrow>
     take p m' = take p m \<and> drop e m' = drop e m \<and> length m' = length m"
  by (auto simp: or_first_def bind_eq_Some_conv dest: c_store_around [of _ _ _ _ p e])

lemma setheader_around:
  assumes "coap_opt_setheader m p maxlen 0 n = Some (r, m')"
  shows "take p m' = take p m \<and> drop (p + maxlen) m' = drop (p + maxlen) m \<and> length m' = length m"
proof (cases "maxlen = 0")
  case False
  then have less: "p < p + maxlen" by simp
  then show ?thesis using assms
    by (fastforce simp: coap_opt_setheader_def set_delta_def bind_eq_Some_conv split: if_splits
        dest: c_store_around [of _ _ _ _ p "p + maxlen"] or_first_around [of _ p _ _ "p + maxlen"])
qed (use assms in \<open>simp add: coap_opt_setheader_def\<close>)

text \<open>Nothing outside the room from \<open>p\<close> to \<open>e\<close> has changed.\<close>

definition outside_same :: "nat \<Rightarrow> nat \<Rightarrow> bytes \<Rightarrow> bytes \<Rightarrow> bool" where
  "outside_same p e m m' \<longleftrightarrow> take p m' = take p m \<and> drop e m' = drop e m \<and> length m' = length m"

lemma outside_same_refl [simp]: "outside_same p e m m"
  by (simp add: outside_same_def)

lemma make_decoded_option_eq:
  assumes b: "\<not> isxdigit b" and seg: "length seg < 65805" and room: "buf + buflen \<le> length out"
  shows "\<exists>out'. outside_same buf (buf + buflen) out out' \<and>
    (case pct_decode seg of
       None \<Rightarrow> make_decoded_option (pre @ seg @ b # rest) (length pre) (length seg) out buf buflen =
         Some (Rejected, out')
     | Some v \<Rightarrow>
         make_decoded_option (pre @ seg @ b # rest) (length pre) (length seg) out buf buflen =
           Some (if opt_space v \<le> buflen then Accepted (opt_space v) else Rejected, out') \<and>
         (opt_space v \<le> buflen \<longrightarrow>
           take (buf + opt_space v) out' = take buf out @ opt_header 0 (length v) @ v))"
proof -
  let ?str = "pre @ seg @ b # rest"
  have chk: "check_segment ?str (length pre) (word_of_nat (length seg)) =
      Some (case pct_decode seg of None \<Rightarrow> Rejected | Some v \<Rightarrow> Accepted (length v))"
    using check_loop_eq [OF b, of seg pre rest 0] seg by (simp add: check_segment_def split: option.splits)
  show ?thesis
  proof (cases "pct_decode seg")
    case None
    then show ?thesis
      by (intro exI [of _ out]) (simp add: make_decoded_option_def chk)
  next
    case (Some v)
    let ?h = "opt_header 0 (length v)"
    have hpos: "0 < length ?h" by (simp add: length_opt_header)
    show ?thesis
    proof (cases "length ?h \<le> buflen")
      case False
      then obtain m where m: "coap_opt_setheader out buf buflen 0 (length v) = Some (0, m)"
        using coap_opt_setheader_small [of buf buflen out 0 "length v"] room by auto
      have "\<not> opt_space v \<le> buflen" using False by (simp add: opt_space_def)
      moreover have "buflen = 0 \<Longrightarrow> m = out" using m by (simp add: coap_opt_setheader_def)
      ultimately show ?thesis using m setheader_around [OF m] Some
        by (intro exI [of _ m]) (auto simp: make_decoded_option_def chk outside_same_def)
    next
      case True
      define o1 old o2 where "o1 = take buf out" and "old = take (length ?h) (drop buf out)"
        and "o2 = drop (length ?h) (drop buf out)"
      have out: "out = o1 @ old @ o2" "length o1 = buf" "length old = length ?h"
        using room True by (auto simp: o1_def old_def o2_def simp del: drop_drop)
      have hd: "coap_opt_setheader out buf buflen 0 (length v) = Some (length ?h, o1 @ ?h @ o2)"
        using coap_opt_setheader_eq [of old 0 "length v" buflen o1 o2] out True by simp
      show ?thesis
      proof (cases "opt_space v \<le> buflen")
        case False
        with hd setheader_around [OF hd] Some True hpos show ?thesis
          by (intro exI [of _ "o1 @ ?h @ o2"])
             (auto simp: make_decoded_option_def chk outside_same_def opt_space_def)
      next
        case fits: True
        have "length v \<le> length o2"
          using fits room out by (simp add: opt_space_def)
        then obtain old2 o3 where o2: "o2 = old2 @ o3" "length old2 = length v"
          by (rule split_list_at)
        have "decode_segment ?str (length pre) (word_of_nat (length seg)) ((o1 @ ?h) @ old2 @ o3)
            (length (o1 @ ?h)) = Some ((o1 @ ?h) @ v @ o3)"
          using decode_segment_eq [OF Some o2(2), of pre "b # rest" "o1 @ ?h" o3] seg by simp
        moreover have nz: "\<not> buflen - length ?h < length v" "0 < buflen"
          using fits True hpos unfolding opt_space_def by linarith+
        ultimately have "make_decoded_option ?str (length pre) (length seg) out buf buflen =
            Some (Accepted (opt_space v), o1 @ ?h @ v @ o3)"
          using Some hd True fits hpos out o2
          by (simp add: make_decoded_option_def chk opt_space_def nz)
        moreover have "outside_same buf (buf + buflen) out (o1 @ ?h @ v @ o3)"
          using out o2 fits by (simp add: outside_same_def opt_space_def)
        ultimately show ?thesis
          using Some fits out(2) by (intro exI [of _ "o1 @ ?h @ v @ o3"]) (simp add: opt_space_def o1_def)
      qed
    qed
  qed
qed
section \<open>Splitting hands every segment to the handler\<close>

lemma dots_eq: "dots (pre @ seg @ rest) (length pre) (length seg) = Some (dot_segment seg)"
proof (cases seg)
  case Nil
  then show ?thesis by (simp add: dots_def dot_segment_def)
next
  case (Cons c cs)
  then show ?thesis
    by (cases cs; cases "tl cs") (auto simp: dots_def dot_segment_def numeral_2_eq_2)
qed

lemma strnchr_path_end: "strnchr path_end 0 2 c = Some (if c = 0x3F then Some 1 else if c = 0x23 then Some 2 else None)"
  by (auto simp: path_end_def c_load_def numeral_2_eq_2)

text \<open>The segments of a text whose first segment has been read up to here.\<close>

definition segments_from :: "u8 \<Rightarrow> bytes \<Rightarrow> bytes \<Rightarrow> bytes list" where
  "segments_from d seg w = (seg @ hd (split_on d w)) # tl (split_on d w)"

lemma split_on_not_Nil [simp]: "split_on d w \<noteq> []"
  by (induction d w rule: split_on.induct) (auto split: list.split)

lemma segments_from_simps [simp]:
  "segments_from d seg [] = [seg]"
  "segments_from d seg (c # w) = (if c = d then seg # split_on d w else segments_from d (seg @ [c]) w)"
  "segments_from d [] w = split_on d w"
  by (auto simp: segments_from_def split: list.split)

locale segment_sink =
  fixes str :: bytes
    and handler :: "nat \<Rightarrow> nat \<Rightarrow> 'd \<Rightarrow> 'd option"
    and holds :: "bytes list \<Rightarrow> 'd \<Rightarrow> bool"
  assumes takes: "str = pre @ seg @ b # rest \<Longrightarrow> \<not> isxdigit b \<Longrightarrow> length seg < 65805 \<Longrightarrow> holds vs d \<Longrightarrow>
    \<exists>d'. handler (length pre) (length seg) d = Some d' \<and> holds (vs @ [seg]) d'"
begin

lemma finish_segment:
  assumes "str = pre @ seg @ b # rest" "\<not> isxdigit b" "length seg < 65805" "holds vs d"
  shows "\<exists>d'. hand_segment str handler (length pre) (length seg) d = Some d' \<and>
    holds (vs @ filter (\<lambda>v. \<not> dot_segment v) [seg]) d'"
  using takes [OF assms] assms(4) dots_eq [of pre seg "b # rest"] unfolding hand_segment_def assms(1) by auto

lemma split_loop_holds:
  assumes "str = pre @ seg @ w @ b # rest" "\<not> isxdigit b" "length (seg @ w) < 65805" "holds vs d"
  shows "\<exists>p q d' d''. split_loop str handler (length pre) (length (pre @ seg)) (length w) d = Some (p, q, d') \<and>
    hand_segment str handler p (q - p) d' = Some d'' \<and>
    q = length (pre @ seg @ path_part w) \<and>
    holds (vs @ filter (\<lambda>v. \<not> dot_segment v) (segments_from 0x2F seg (path_part w))) d''"
  using assms
proof (induction w arbitrary: pre seg vs d)
  case Nil
  then show ?case using finish_segment [of pre seg b rest vs d] by (simp add: path_part_def)
next
  case (Cons c w)
  have str: "str = (pre @ seg @ [c]) @ [] @ w @ b # rest" "str = pre @ (seg @ [c]) @ w @ b # rest"
    "str = pre @ seg @ c # w @ b # rest"
    using Cons.prems(1) by simp_all
  have load: "c_load str (length pre + length seg) = Some c"
    using c_load_behind(1) [of "pre @ seg" c] str by simp
  consider (stop) "c = 0x3F \<or> c = 0x23" | (slash) "c = 0x2F" | (other) "c \<noteq> 0x3F" "c \<noteq> 0x23" "c \<noteq> 0x2F"
    by blast
  then show ?case
  proof cases
    case stop
    then have "\<not> isxdigit c" by (auto simp: isxdigit_def isdigit_def)
    then show ?thesis
      using finish_segment [OF str(3) _ _ Cons.prems(4)] stop Cons.prems(3) load
      by (auto simp: strnchr_path_end path_part_def)
  next
    case slash
    then have "\<not> isxdigit c" by (auto simp: isxdigit_def isdigit_def)
    then obtain d1 where d1: "hand_segment str handler (length pre) (length seg) d = Some d1"
      "holds (vs @ filter (\<lambda>v. \<not> dot_segment v) [seg]) d1"
      using finish_segment [OF str(3) _ _ Cons.prems(4)] Cons.prems(3) by auto
    from Cons.IH [OF str(1) assms(2) _ d1(2)] d1(1) Cons.prems(3) slash load
    show ?thesis by (auto simp: strnchr_path_end path_part_def bind_eq_Some_conv)
  next
    case other
    with Cons.IH [OF str(2) assms(2) _ Cons.prems(4)] Cons.prems(3) load
    show ?thesis by (auto simp: strnchr_path_end path_part_def)
  qed
qed

lemma split_path_holds:
  assumes "str = pre @ w @ b # rest" "\<not> isxdigit b" "length w < 65805" "holds [] d"
  shows "\<exists>d'. coap_split_path_impl str (length pre) (length w) handler d = Some (length (path_part w), d') \<and>
    holds (filter (\<lambda>v. \<not> dot_segment v) (split_on 0x2F (path_part w))) d'"
  using split_loop_holds [of pre "[]" w b rest "[]" d] assms
  by (auto simp: coap_split_path_impl_def bind_eq_Some_conv)

end
section \<open>The options that are written\<close>

lemma option_bytes_simps [simp]:
  "option_bytes [] = []"
  "option_bytes (v # vs) = opt_header 0 (length v) @ v @ option_bytes vs"
  "option_bytes (vs @ ws) = option_bytes vs @ option_bytes ws"
  by (simp_all add: option_bytes_def)

lemma length_option_bytes: "length (option_bytes vs) = sum_list (map opt_space vs)"
  by (induction vs) (simp_all add: opt_space_def)

lemma fitting_room: "length (option_bytes (fitting room vs)) \<le> room"
  by (induction room vs rule: fitting.induct) (auto simp: opt_space_def)

lemma fitting_append:
  "fitting room (vs @ ws) = fitting room vs @ fitting (room - length (option_bytes (fitting room vs))) ws"
  by (induction room vs rule: fitting.induct) (simp_all add: opt_space_def add.assoc)

lemma fitting_all:
  "length (option_bytes vs) \<le> room \<Longrightarrow> fitting room (map Some vs) = vs"
  by (induction vs arbitrary: room) (simp_all add: opt_space_def)

text \<open>After the segments \<open>segs\<close>: \<open>out\<close> is the buffer the caller passed, from offset \<open>buf\<close> on.\<close>

definition options_written :: "bytes \<Rightarrow> nat \<Rightarrow> nat \<Rightarrow> bytes list \<Rightarrow> cnt_str \<Rightarrow> bool" where
  "options_written out buf buflen segs st \<longleftrightarrow>
     (let vs = fitting buflen (map pct_decode segs) in
      cs_n st = length vs \<and>
      cs_s st = buf + length (option_bytes vs) \<and>
      cs_length st = buflen - length (option_bytes vs) \<and>
      outside_same buf (buf + buflen) out (cs_out st) \<and>
      take (cs_s st) (cs_out st) = take buf out @ option_bytes vs)"

lemma outside_same_inner:
  assumes "outside_same p e m m'" "outside_same q e m' m''" "p \<le> q"
  shows "outside_same p e m m''"
proof -
  have "take p m'' = take p (take q m'')" using assms(3) by (simp add: min_def)
  also have "\<dots> = take p m" using assms by (simp add: outside_same_def min_def)
  finally show ?thesis using assms by (simp add: outside_same_def)
qed

lemma write_option_written:
  assumes "\<not> isxdigit b" "length seg < 65805" "buf + buflen \<le> length out"
    and st: "options_written out buf buflen segs st"
  shows "\<exists>st'. write_option (pre @ seg @ b # rest) (length pre) (length seg) st = Some st' \<and>
    options_written out buf buflen (segs @ [seg]) st'"
proof -
  define vs where "vs = fitting buflen (map pct_decode segs)"
  have room: "length (option_bytes vs) \<le> buflen" unfolding vs_def by (rule fitting_room)
  have s: "cs_n st = length vs" "cs_s st = buf + length (option_bytes vs)"
    "cs_length st = buflen - length (option_bytes vs)" "outside_same buf (buf + buflen) out (cs_out st)"
    "take (cs_s st) (cs_out st) = take buf out @ option_bytes vs"
    using st unfolding options_written_def Let_def vs_def by blast+
  have e: "cs_s st + cs_length st = buf + buflen" using s room by simp
  have "cs_s st + cs_length st \<le> length (cs_out st)" using e s assms(3) by (simp add: outside_same_def)
  from make_decoded_option_eq [OF assms(1,2) this, of pre rest]
  obtain out' where out': "outside_same (cs_s st) (buf + buflen) (cs_out st) out'"
    and opt: "case pct_decode seg of
       None \<Rightarrow> make_decoded_option (pre @ seg @ b # rest) (length pre) (length seg) (cs_out st) (cs_s st) (cs_length st) =
         Some (Rejected, out')
     | Some v \<Rightarrow>
         make_decoded_option (pre @ seg @ b # rest) (length pre) (length seg) (cs_out st) (cs_s st) (cs_length st) =
           Some (if opt_space v \<le> cs_length st then Accepted (opt_space v) else Rejected, out') \<and>
         (opt_space v \<le> cs_length st \<longrightarrow>
           take (cs_s st + opt_space v) out' = take (cs_s st) (cs_out st) @ opt_header 0 (length v) @ v)"
    unfolding e by blast
  have same: "outside_same buf (buf + buflen) out out'"
    using s(2) by (intro outside_same_inner [OF s(4) out']) simp
  have kept: "take (cs_s st) out' = take buf out @ option_bytes vs"
    using out' s(5) by (simp add: outside_same_def)
  have fit: "fitting buflen (map pct_decode (segs @ [seg])) = vs @ fitting (cs_length st) [pct_decode seg]"
    using s(3) by (simp add: fitting_append vs_def)
  show ?thesis
  proof (cases "\<exists>v. pct_decode seg = Some v \<and> opt_space v \<le> cs_length st")
    case True
    then obtain v where v: "pct_decode seg = Some v" "opt_space v \<le> cs_length st" by blast
    have "opt_space v + length (option_bytes vs) = length (option_bytes (vs @ [v]))"
      by (simp add: opt_space_def)
    then show ?thesis
      using opt v s same kept fit
      by (auto simp: write_option_def options_written_def Let_def add.assoc add.commute)
  next
    case False
    then have "fitting (cs_length st) [pct_decode seg] = []"
      by (cases "pct_decode seg") auto
    moreover have "make_decoded_option (pre @ seg @ b # rest) (length pre) (length seg)
        (cs_out st) (cs_s st) (cs_length st) = Some (Rejected, out')"
      using opt False by (auto split: option.splits)
    ultimately show ?thesis
      using s same kept fit
      by (auto simp: write_option_def options_written_def Let_def)
  qed
qed

interpretation writer: segment_sink str "write_option str"
    "\<lambda>segs st. buf + buflen \<le> length out \<and> options_written out buf buflen segs st"
  for str out buf buflen
  by unfold_locales (auto dest!: write_option_written)
section \<open>Path and query\<close>

lemma options_written_start:
  "options_written out buf buflen [] \<lparr>cs_s = buf, cs_length = buflen, cs_n = 0, cs_out = out\<rparr>"
  by (simp add: options_written_def)

lemma split_at_text:
  assumes "take len (drop s str) = w" "s + len < length str"
  shows "str = take s str @ w @ str ! (s + len) # drop (s + len + 1) str" "length (take s str) = s" "length w = len"
proof -
  show "length (take s str) = s" "length w = len" using assms by auto
  have "drop (s + len) str = str ! (s + len) # drop (s + len + 1) str"
    using assms(2) by (simp add: Cons_nth_drop_Suc)
  then show "str = take s str @ w @ str ! (s + len) # drop (s + len + 1) str"
    using assms by (metis append_take_drop_id drop_drop add.commute)
qed

lemma query_loop_written:
  assumes "str = pre @ seg @ w @ b # rest" "\<not> isxdigit b" "length (seg @ w) < 65805"
    "buf + buflen \<le> length out" "options_written out buf buflen vs st"
  shows "\<exists>p q st' st''. query_loop str (length pre) (length (pre @ seg)) (length w) st = Some (p, q, st') \<and>
    write_option str p (q - p) st' = Some st'' \<and>
    options_written out buf buflen (vs @ segments_from 0x26 seg (takeWhile (\<lambda>c. c \<noteq> 0x23) w)) st''"
  using assms(1,3,5)
proof (induction w arbitrary: pre seg vs st)
  case Nil
  then show ?case using writer.takes [of str pre seg b rest] assms(2,4) by auto
next
  case (Cons c w)
  have str: "str = (pre @ seg @ [c]) @ [] @ w @ b # rest" "str = pre @ (seg @ [c]) @ w @ b # rest"
    "str = pre @ seg @ c # w @ b # rest"
    using Cons.prems(1) by simp_all
  have load: "c_load str (length pre + length seg) = Some c"
    using c_load_behind(1) [of "pre @ seg" c] str by simp
  show ?case
  proof (cases "c = 0x23 \<or> c = 0x26")
    case True
    then have "\<not> isxdigit c" by (auto simp: isxdigit_def isdigit_def)
    then obtain st1 where "write_option str (length pre) (length seg) st = Some st1"
      "options_written out buf buflen (vs @ [seg]) st1"
      using writer.takes [OF str(3)] Cons.prems assms(4) by fastforce
    then show ?thesis
      using Cons.IH [OF str(1), of "vs @ [seg]" st1] True Cons.prems(2) load by auto
  next
    case False
    then show ?thesis
      using Cons.IH [OF str(2) _ Cons.prems(3)] Cons.prems(2) load by auto
  qed
qed

text \<open>What a caller gets: the number of options, the bytes used, and the buffer.\<close>

definition splits_into :: "bytes \<Rightarrow> nat \<Rightarrow> nat \<Rightarrow> bytes list \<Rightarrow> (nat \<times> nat \<times> bytes) option \<Rightarrow> bool" where
  "splits_into out buf buflen vs r \<longleftrightarrow>
     (\<exists>out'. r = Some (length vs, length (option_bytes vs), out') \<and>
        outside_same buf (buf + buflen) out out' \<and>
        take (length (option_bytes vs)) (drop buf out') = option_bytes vs)"

lemma options_written_splits:
  assumes "options_written out buf buflen segs st" "buf + buflen \<le> length out"
  shows "splits_into out buf buflen (fitting buflen (map pct_decode segs))
    (Some (cs_n st, buflen - cs_length st, cs_out st))"
proof -
  define vs where "vs = fitting buflen (map pct_decode segs)"
  have room: "length (option_bytes vs) \<le> buflen" unfolding vs_def by (rule fitting_room)
  have s: "cs_n st = length vs" "cs_s st = buf + length (option_bytes vs)"
    "cs_length st = buflen - length (option_bytes vs)" "outside_same buf (buf + buflen) out (cs_out st)"
    "take (cs_s st) (cs_out st) = take buf out @ option_bytes vs"
    using assms(1) unfolding options_written_def Let_def vs_def by blast+
  have "take (length (option_bytes vs)) (drop buf (cs_out st)) = drop buf (take (cs_s st) (cs_out st))"
    by (simp add: s(2) drop_take)
  also have "\<dots> = option_bytes vs" using s(5) assms(2) by simp
  finally show ?thesis
    using s room unfolding splits_into_def vs_def [symmetric] by (intro exI [of _ "cs_out st"]) simp
qed

lemma split_path_splits:
  assumes "take len (drop s str) = w" "s + len < length str" "\<not> isxdigit (str ! (s + len))"
    and "len < 65805" "buf + buflen \<le> length out"
  shows "splits_into out buf buflen
    (fitting buflen (map pct_decode (filter (\<lambda>v. \<not> dot_segment v) (split_on 0x2F (path_part w)))))
    (coap_split_path str s len out buf buflen)"
proof -
  note t = split_at_text [OF assms(1,2)]
  obtain st where "coap_split_path_impl str s len (write_option str)
      \<lparr>cs_s = buf, cs_length = buflen, cs_n = 0, cs_out = out\<rparr> = Some (length (path_part w), st)"
    "options_written out buf buflen (filter (\<lambda>v. \<not> dot_segment v) (split_on 0x2F (path_part w))) st"
    using writer.split_path_holds [OF t(1) assms(3), of buf buflen out
        "\<lparr>cs_s = buf, cs_length = buflen, cs_n = 0, cs_out = out\<rparr>"] t(2,3) assms(4,5)
      options_written_start [of out buf buflen]
    by auto
  then show ?thesis
    using options_written_splits assms(5) by (simp add: coap_split_path_def)
qed

lemma split_query_splits:
  assumes "take len (drop s str) = w" "s + len < length str" "\<not> isxdigit (str ! (s + len))"
    and "len < 65805" "buf + buflen \<le> length out"
  shows "splits_into out buf buflen
    (fitting buflen (map pct_decode (split_on 0x26 (takeWhile (\<lambda>c. c \<noteq> 0x23) w))))
    (coap_split_query str s len out buf buflen)"
proof -
  note t = split_at_text [OF assms(1,2)]
  have "str = take s str @ [] @ w @ str ! (s + len) # drop (s + len + 1) str" using t(1) by simp
  from query_loop_written [OF this assms(3) _ assms(5) options_written_start] t(2,3) assms(4)
  show ?thesis
    using options_written_splits [OF _ assms(5)] by (auto simp: coap_split_query_def)
qed
section \<open>An incomplete escape at the end of the text\<close>

lemma check_loop_runs_out:
  assumes "0x25 \<notin> set cs" "length cs < unat len"
  shows "check_loop (pre @ cs) (length pre) len n = None"
  using assms
proof (induction cs arbitrary: pre len n)
  case Nil
  then have "len \<noteq> 0" by auto
  then show ?case by (subst check_loop.simps) (simp add: c_load_def)
next
  case (Cons c cs)
  then have "len \<noteq> 0" by auto
  then have "unat (len - 1) = unat len - 1" by (simp add: unat_minus_one)
  with Cons.prems have "check_loop (pre @ c # cs) (Suc (length pre)) (len - 1) (n + 1) = None"
    using Cons.IH [of "len - 1" "pre @ [c]"] by simp
  with \<open>len \<noteq> 0\<close> Cons.prems show ?case by (subst check_loop.simps) simp
qed

lemma check_loop_plain:
  assumes "0x25 \<notin> set v" "length v + k < 2 ^ 32"
  shows "check_loop (pre @ v @ rest) (length pre) (word_of_nat (length v + k)) n =
    check_loop (pre @ v @ rest) (length pre + length v) (word_of_nat k) (n + length v)"
  using assms
proof (induction v arbitrary: pre n)
  case (Cons c v)
  then show ?case using Cons.IH [of "pre @ [c]" "n + 1"] size_word(1) [of "Suc (length v + k)"]
      size_word_minus(1) [of "length v + k"]
    by (subst check_loop.simps) (simp del: of_nat_Suc of_nat_add)
qed simp

lemma split_loop_plain:
  assumes "str = pre @ w @ rest" "\<forall>c \<in> set w. c \<noteq> 0x2F \<and> c \<noteq> 0x3F \<and> c \<noteq> 0x23"
  shows "split_loop str h p (length pre) (length w) d = Some (p, length pre + length w, d)"
  using assms
proof (induction w arbitrary: pre)
  case (Cons c w)
  then show ?case using Cons.IH [of "pre @ [c]"] by (simp add: strnchr_path_end)
qed simp

text \<open>C31: Splitting a path or a query. If the byte behind the text is no hexadecimal digit,
  \<open>coap_split_path\<close> and \<open>coap_split_query\<close> are defined, write only into the room they are given, and leave
  there, with delta 0, exactly the options of the decoded segments: the path up to \<open>?\<close> or \<open>#\<close> is split
  at slashes and its dot segments are left out, the query up to \<open>#\<close> is split at ampersands; segments
  with an ill-formed escape, and those for which the room that is left is too small, are skipped,
  later ones are still written, and no error is reported.\<close>

theorem split_segments:
  assumes "take len (drop s str) = w" "s + len < length str" "\<not> isxdigit (str ! (s + len))"
    and "len < 65805" "buf + buflen \<le> length out"
  shows "splits_into out buf buflen
      (fitting buflen (map pct_decode (filter (\<lambda>v. \<not> dot_segment v) (split_on 0x2F (path_part w)))))
      (coap_split_path str s len out buf buflen) \<and>
    splits_into out buf buflen
      (fitting buflen (map pct_decode (split_on 0x26 (takeWhile (\<lambda>c. c \<noteq> 0x23) w))))
      (coap_split_query str s len out buf buflen)"
  using split_path_splits [OF assms] split_query_splits [OF assms] by blast

theorem split_segments_witness:
  "splits_into (replicate 8 0) 0 8 [[0x61], [0x2F, 0x62], [0x26]]
     (coap_split_path [0x61, 0x2F, 0x25, 0x32, 0x66, 0x62, 0x2F, 0x2E, 0x2E, 0x2F, 0x26, 0x3F, 0x7A] 0 12 (replicate 8 0) 0 8)"
  using split_segments [of 12 0 "[0x61, 0x2F, 0x25, 0x32, 0x66, 0x62, 0x2F, 0x2E, 0x2E, 0x2F, 0x26, 0x3F, 0x7A]" _ 0 8 "replicate 8 0", OF refl]
  by (simp add: isxdigit_def isdigit_def path_part_def dot_segment_def hexchar_to_dec_def opt_space_def opt_header_def ext_bytes_def ext_nibble_def)



end
