(* ===== verification/Coap_Str.thy ===== *)
theory Coap_Str
  imports Prelude
begin

text \<open>
  \<open>libcoap/src/coap_str.c\<close>: strings with a length that are allocated together with their
  bytes, and the small ring of constant strings that \<open>coap_make_str_const\<close> hands out.

  \<open>alloc n\<close> stands for the block of \<open>n\<close> bytes that \<open>coap_malloc_type\<close> returns, with whatever
  it holds, or \<open>None\<close> for a null pointer. The two words of the structure come first in
  the block (eight bytes on the 32-bit target), \<open>str_bytes\<close> is the area behind them.
\<close>

section \<open>Strings\<close>

type_synonym allocator = "u32 \<Rightarrow> bytes option"

record coap_string =
  str_length :: nat
  str_bytes :: bytes

definition sizeof_coap_string :: nat where
  "sizeof_coap_string = 8"

definition coap_new_string :: "allocator \<Rightarrow> nat \<Rightarrow> coap_string option option" where
  "coap_new_string alloc n = do {
     c_assert ((word_of_nat n + 1 :: u32) \<noteq> 0);
     case alloc (word_of_nat (sizeof_coap_string + n + 1)) of
       None \<Rightarrow> Some None
     | Some m \<Rightarrow> do {
         c_assert (sizeof_coap_string \<le> length m);
         area \<leftarrow> c_store (drop sizeof_coap_string m) n 0;
         Some (Some \<lparr>str_length = n, str_bytes = area\<rparr>)
       }
   }"

text \<open>Also \<open>coap_new_bin_const\<close>, which has the same body. \<open>src\<close> starts at the bytes to copy.\<close>

definition coap_new_str_const :: "allocator \<Rightarrow> bytes \<Rightarrow> nat \<Rightarrow> coap_string option option" where
  "coap_new_str_const alloc src n = do {
     r \<leftarrow> coap_new_string alloc n;
     case r of
       None \<Rightarrow> Some None
     | Some s \<Rightarrow> do {
         bs \<leftarrow> c_slice src 0 n;
         area \<leftarrow> c_blit (str_bytes s) 0 bs;
         Some (Some (s\<lparr>str_bytes := area, str_length := n\<rparr>))
       }
   }"

definition coap_new_binary :: "allocator \<Rightarrow> nat \<Rightarrow> coap_string option option" where
  "coap_new_binary alloc n = coap_new_string alloc n"

text \<open>
  \<open>coap_realloc_type\<close> keeps the old contents as far as they fit. When it fails the old object stays,
  and the result is null.
\<close>

definition coap_resize_binary :: "allocator \<Rightarrow> coap_string \<Rightarrow> nat \<Rightarrow> coap_string option" where
  "coap_resize_binary alloc s n =
     (case alloc (word_of_nat (sizeof_coap_string + n)) of
        None \<Rightarrow> None
      | Some m \<Rightarrow>
          let area = drop sizeof_coap_string m; k = min (length (str_bytes s)) (length area) in
          Some \<lparr>str_length = n, str_bytes = take k (str_bytes s) @ drop k area\<rparr>)"

section \<open>Constant strings\<close>

definition COAP_MAX_STR_CONST_FUNC :: nat where
  "COAP_MAX_STR_CONST_FUNC = 2"

text \<open>
  The static variables \<open>ofs\<close> and \<open>var\<close>. A string is a null-terminated object; what is returned is the
  index of the entry.
\<close>

record str_consts =
  sc_ofs :: nat
  sc_var :: "(nat \<times> bytes) list"

definition coap_make_str_const :: "bytes \<Rightarrow> str_consts \<Rightarrow> (nat \<times> str_consts) option" where
  "coap_make_str_const string st =
     (let ofs = (if sc_ofs st + 1 = COAP_MAX_STR_CONST_FUNC then 0 else sc_ofs st + 1) in
      do {
        c_assert (0 \<in> set string);
        var \<leftarrow> c_store (sc_var st) ofs (length (takeWhile (\<lambda>c. c \<noteq> 0) string), string);
        Some (ofs, st\<lparr>sc_ofs := ofs, sc_var := var\<rparr>)
      })"

section \<open>What they keep\<close>

definition fresh_blocks :: "allocator \<Rightarrow> bool" where
  "fresh_blocks alloc \<longleftrightarrow> (\<forall>n m. alloc n = Some m \<longrightarrow> length m = unat n)"

text \<open>A null string comes from the allocator only.\<close>

lemma new_string_null:
  "coap_new_string alloc n = Some r \<Longrightarrow> r = None \<longleftrightarrow> alloc (word_of_nat (sizeof_coap_string + n + 1)) = None"
  unfolding coap_new_string_def by (auto simp only: bind_eq_Some_conv split: option.splits)

lemma new_string_eq:
  assumes "fresh_blocks alloc" "n + sizeof_coap_string + 1 < 2 ^ 32"
  shows "\<exists>r. coap_new_string alloc n = Some r \<and>
    (\<forall>s. r = Some s \<longrightarrow> str_length s = n \<and> length (str_bytes s) = n + 1 \<and> str_bytes s ! n = 0)"
proof -
  have "unat (word_of_nat (Suc n) :: u32) = Suc n"
    using assms(2) by (intro unat_of_nat_small) simp
  then have "(word_of_nat (Suc n) :: u32) \<noteq> 0"
    by (metis unat_0 nat.distinct(1))
  then have nz: "c_assert ((word_of_nat n + 1 :: u32) \<noteq> 0) = Some ()"
    by (simp only: of_nat_Suc add.commute c_assert_True not_False_eq_True)
  have len: "unat (word_of_nat (sizeof_coap_string + n + 1) :: u32) = sizeof_coap_string + n + 1"
    using assms(2) by (intro unat_of_nat_small) simp
  show ?thesis
  proof (cases "alloc (word_of_nat (sizeof_coap_string + n + 1))")
    case None
    then show ?thesis unfolding coap_new_string_def nz by simp
  next
    case (Some m)
    then have "length m = sizeof_coap_string + n + 1"
      using assms(1) len unfolding fresh_blocks_def by metis
    then show ?thesis
      unfolding coap_new_string_def nz Some by (simp add: c_store_def)
  qed
qed

lemma new_str_const_eq:
  assumes "fresh_blocks alloc" "n + sizeof_coap_string + 1 < 2 ^ 32" "n \<le> length src"
  shows "\<exists>r. coap_new_str_const alloc src n = Some r \<and>
    (\<forall>s. r = Some s \<longrightarrow> str_length s = n \<and> str_bytes s = take n src @ [0])"
proof -
  obtain r where r: "coap_new_string alloc n = Some r"
    "\<forall>s. r = Some s \<longrightarrow> str_length s = n \<and> length (str_bytes s) = n + 1 \<and> str_bytes s ! n = 0"
    using new_string_eq [OF assms(1,2)] by blast
  show ?thesis
  proof (cases r)
    case None
    then show ?thesis using r(1) by (simp add: coap_new_str_const_def)
  next
    case (Some s)
    then have s: "length (str_bytes s) = n + 1" "str_bytes s ! n = 0" using r(2) by simp_all
    then have "drop n (str_bytes s) = [0]"
      by (metis Cons_nth_drop_Suc Suc_eq_plus1 drop_all le_refl lessI)
    with Some r s assms(3) show ?thesis
      by (simp add: coap_new_str_const_def c_slice_def c_blit_def)
  qed
qed

text \<open>A constant string is overwritten by the second call behind it, and not before.\<close>

definition consts_ok :: "str_consts \<Rightarrow> bool" where
  "consts_ok st \<longleftrightarrow> length (sc_var st) = COAP_MAX_STR_CONST_FUNC \<and> sc_ofs st < COAP_MAX_STR_CONST_FUNC"

lemma make_str_const_two:
  assumes "consts_ok st" "coap_make_str_const a st = Some (i, st1)" "coap_make_str_const b st1 = Some (j, st2)"
  shows "i \<noteq> j" "consts_ok st2"
    "sc_var st2 ! i = (length (takeWhile (\<lambda>c. c \<noteq> 0) a), a)"
    "sc_var st2 ! j = (length (takeWhile (\<lambda>c. c \<noteq> 0) b), b)"
  using assms
  by (auto simp: coap_make_str_const_def consts_ok_def COAP_MAX_STR_CONST_FUNC_def Let_def bind_eq_Some_conv
      c_store_def split: if_splits)

end
