(* ===== verification/Coap_Uri.thy ===== *)
theory Coap_Uri
  imports Coap_Path Coap_Str
begin

unbundle bit_operations_syntax

text \<open>
  The parser of \<open>libcoap/src/coap_uri.c\<close>: \<open>coap_split_uri\<close> and \<open>coap_split_proxy_uri\<close> find scheme,
  host, port, path and query of a URI, \<open>coap_new_uri\<close> and \<open>coap_clone_uri\<close> keep a copy.

  A component of a URI is a length and a pointer into the object the text is in (an offset, or
  the null pointer). Which schemes the library was built with is an argument.
\<close>

section \<open>Data\<close>

record coap_str_const =
  sc_length :: nat
  sc_s :: "nat option"

datatype coap_uri_scheme_t =
    COAP_URI_SCHEME_COAP | COAP_URI_SCHEME_COAPS | COAP_URI_SCHEME_COAP_TCP | COAP_URI_SCHEME_COAPS_TCP
  | COAP_URI_SCHEME_HTTP | COAP_URI_SCHEME_HTTPS | COAP_URI_SCHEME_COAP_WS | COAP_URI_SCHEME_COAPS_WS

record coap_uri =
  uri_host :: coap_str_const
  uri_port :: u16
  uri_path :: coap_str_const
  uri_query :: coap_str_const
  uri_scheme :: coap_uri_scheme_t

record coap_uri_info =
  info_name :: bytes
  info_port :: u16
  proxy_only :: bool
  info_scheme :: coap_uri_scheme_t

record uri_support =
  dtls_is_supported :: bool
  tcp_is_supported :: bool
  ws_is_supported :: bool
  wss_is_supported :: bool

datatype coap_uri_check = COAP_URI_CHECK_URI | COAP_URI_CHECK_PROXY

definition COAP_DEFAULT_PORT :: u16 where
  "COAP_DEFAULT_PORT = 5683"

definition COAPS_DEFAULT_PORT :: u16 where
  "COAPS_DEFAULT_PORT = 5684"

definition ascii :: "string \<Rightarrow> bytes" where
  "ascii = map of_char"

text \<open>The table \<open>coap_uri_scheme\<close>.\<close>

definition uri_schemes :: "coap_uri_info list" where
  "uri_schemes =
     [\<lparr>info_name = ascii ''coap'', info_port = COAP_DEFAULT_PORT, proxy_only = False, info_scheme = COAP_URI_SCHEME_COAP\<rparr>,
      \<lparr>info_name = ascii ''coaps'', info_port = COAPS_DEFAULT_PORT, proxy_only = False, info_scheme = COAP_URI_SCHEME_COAPS\<rparr>,
      \<lparr>info_name = ascii ''coap+tcp'', info_port = COAP_DEFAULT_PORT, proxy_only = False, info_scheme = COAP_URI_SCHEME_COAP_TCP\<rparr>,
      \<lparr>info_name = ascii ''coaps+tcp'', info_port = COAPS_DEFAULT_PORT, proxy_only = False, info_scheme = COAP_URI_SCHEME_COAPS_TCP\<rparr>,
      \<lparr>info_name = ascii ''http'', info_port = 80, proxy_only = True, info_scheme = COAP_URI_SCHEME_HTTP\<rparr>,
      \<lparr>info_name = ascii ''https'', info_port = 443, proxy_only = True, info_scheme = COAP_URI_SCHEME_HTTPS\<rparr>,
      \<lparr>info_name = ascii ''coap+ws'', info_port = 80, proxy_only = False, info_scheme = COAP_URI_SCHEME_COAP_WS\<rparr>,
      \<lparr>info_name = ascii ''coaps+ws'', info_port = 443, proxy_only = False, info_scheme = COAP_URI_SCHEME_COAPS_WS\<rparr>]"

definition null_str :: coap_str_const where
  "null_str = \<lparr>sc_length = 0, sc_s = None\<rparr>"

section \<open>Scanning\<close>

text \<open>A condition \<open>p[0] == c0 && p[1] == c1 && ...\<close>, evaluated from the left.\<close>

fun prefix_at :: "bytes \<Rightarrow> nat \<Rightarrow> bytes \<Rightarrow> bool option" where
  "prefix_at str p [] = Some True"
| "prefix_at str p (c # cs) = do { b \<leftarrow> c_load str p; if b = c then prefix_at str (p + 1) cs else Some False }"

text \<open>\<open>%2F\<close> or \<open>%2f\<close>, the mark of a Unix domain socket.\<close>

definition escaped_slash :: "bytes \<Rightarrow> nat \<Rightarrow> bool option" where
  "escaped_slash str p = do {
     two \<leftarrow> prefix_at str p [0x25, 0x32];
     if two then do { c \<leftarrow> c_load str (p + 2); Some (c = 0x46 \<or> c = 0x66) } else Some False
   }"

text \<open>The loops \<open>while (len && P(*q)) { ++q; --len; }\<close>: where they stop and the length that is left.\<close>

fun skip_while :: "bytes \<Rightarrow> (u8 \<Rightarrow> bool) \<Rightarrow> nat \<Rightarrow> nat \<Rightarrow> (nat \<times> nat) option" where
  "skip_while str P q 0 = Some (q, 0)"
| "skip_while str P q (Suc len) = do {
     c \<leftarrow> c_load str q;
     if P c then skip_while str P (q + 1) len else Some (q, Suc len)
   }"

text \<open>Find the terminating \<open>://\<close>.\<close>

function find_separator :: "bytes \<Rightarrow> nat \<Rightarrow> nat \<Rightarrow> (nat \<times> nat) option" where
  "find_separator str p len =
     (if len < 3 then Some (p, len)
      else do {
        sep \<leftarrow> prefix_at str p [0x3A, 0x2F, 0x2F];
        if sep then Some (p, len) else find_separator str (p + 1) (len - 1)
      })"
  by pat_completeness auto
termination by (relation "measure (\<lambda>(str, p, len). len)") auto

declare find_separator.simps [simp del]

text \<open>The loop over the table compares the length first, then the \<open>n\<close> characters.\<close>

fun find_scheme :: "bytes \<Rightarrow> nat \<Rightarrow> nat \<Rightarrow> coap_uri_info list \<Rightarrow> coap_uri_info option option" where
  "find_scheme str s n [] = Some None"
| "find_scheme str s n (e # es) =
     (if n = length (info_name e) then do {
        name \<leftarrow> c_slice str s n;
        if name = info_name e then Some (Some e) else find_scheme str s n es
      }
      else find_scheme str s n es)"

text \<open>The \<open>switch (uri->scheme)\<close>.\<close>

definition scheme_enabled :: "uri_support \<Rightarrow> coap_uri_scheme_t \<Rightarrow> bool" where
  "scheme_enabled cfg scheme = (case scheme of
     COAP_URI_SCHEME_COAP \<Rightarrow> True
   | COAP_URI_SCHEME_COAPS \<Rightarrow> dtls_is_supported cfg
   | COAP_URI_SCHEME_COAP_TCP \<Rightarrow> tcp_is_supported cfg
   | COAP_URI_SCHEME_COAPS_TCP \<Rightarrow> tcp_is_supported cfg
   | COAP_URI_SCHEME_COAP_WS \<Rightarrow> ws_is_supported cfg
   | COAP_URI_SCHEME_COAPS_WS \<Rightarrow> wss_is_supported cfg
   | _ \<Rightarrow> False)"

text \<open>
  \<open>while ((p < q) && (uri_port <= UINT16_MAX)) uri_port = uri_port * 10 + (*p++ - '0');\<close>
  over the \<open>n\<close> digits at \<open>p\<close>.
\<close>

fun port_value :: "bytes \<Rightarrow> nat \<Rightarrow> nat \<Rightarrow> int \<Rightarrow> int option" where
  "port_value str p 0 v = Some v"
| "port_value str p (Suc n) v =
     (if v \<le> 65535 then do {
        c \<leftarrow> c_load str p;
        port_value str (p + 1) n (v * 10 + (uint c - 0x30))
      }
      else Some v)"

section \<open>The parser\<close>

text \<open>The results: an error code with \<open>*uri\<close> as it is then, or the values to go on with.\<close>

datatype 'a scan = Stop int coap_uri | Go 'a

definition scan_next :: "'a scan \<Rightarrow> ('a \<Rightarrow> (int \<times> coap_uri) option) \<Rightarrow> (int \<times> coap_uri) option" where
  "scan_next r f = (case r of Stop e uri \<Rightarrow> Some (e, uri) | Go x \<Rightarrow> f x)"

text \<open>The scheme: returns the position behind \<open>://\<close> and the length left.\<close>

definition split_scheme ::
  "uri_support \<Rightarrow> coap_uri_check \<Rightarrow> bytes \<Rightarrow> nat \<Rightarrow> nat \<Rightarrow> coap_uri \<Rightarrow> (nat \<times> nat \<times> coap_uri) scan option" where
  "split_scheme cfg chk str s len uri = do {
     (p, len) \<leftarrow> find_separator str s len;
     if len < 3 then Some (Stop (-2) uri)
     else do {
       e \<leftarrow> find_scheme str s (p - s) uri_schemes;
       case e of
         None \<Rightarrow> Some (Stop (-1) uri)
       | Some e \<Rightarrow>
           if chk \<noteq> COAP_URI_CHECK_PROXY \<and> proxy_only e then Some (Stop (-1) uri)
           else
             let uri = uri\<lparr>uri_scheme := info_scheme e, uri_port := info_port e\<rparr> in
             Some (if scheme_enabled cfg (uri_scheme uri) then Go (p + 3, len - 3, uri) else Stop (-1) uri)
     }
   }"

text \<open>
  The host at \<open>p\<close>: returns \<open>p\<close> and \<open>q\<close>, the length left, and whether this is a Unix domain socket.
\<close>

definition split_host ::
  "bytes \<Rightarrow> nat \<Rightarrow> nat \<Rightarrow> coap_uri \<Rightarrow> (nat \<times> nat \<times> nat \<times> bool \<times> coap_uri) scan option" where
  "split_host str p len uri = do {
     bracket \<leftarrow> (if 0 < len then prefix_at str p [0x5B] else Some False);
     if bracket then do {
       let q = p;
       let p = p + 1;
       (q, len) \<leftarrow> skip_while str (\<lambda>c. c \<noteq> 0x5D) q len;
       if len = 0 then Some (Stop (-3) uri)
       else do {
         c \<leftarrow> c_load str q;
         if c \<noteq> 0x5D \<or> p = q then Some (Stop (-3) uri)
         else Some (Go (p, q + 1, len - 1, False, uri\<lparr>uri_host := \<lparr>sc_length = q - p, sc_s = Some p\<rparr>\<rparr>))
       }
     }
     else do {
       unix \<leftarrow> (if 3 \<le> len then escaped_slash str p else Some False);
       let uri = (if unix then uri\<lparr>uri_port := 0\<rparr> else uri);
       (q, len) \<leftarrow> skip_while str (\<lambda>c. c \<noteq> 0x3A \<and> c \<noteq> 0x2F \<and> c \<noteq> 0x3F) p len;
       if p = q then Some (Stop (-3) uri)
       else Some (Go (p, q, len, unix, uri\<lparr>uri_host := \<lparr>sc_length = q - p, sc_s = Some p\<rparr>\<rparr>))
     }
   }"

definition split_port ::
  "bytes \<Rightarrow> nat \<Rightarrow> nat \<Rightarrow> nat \<Rightarrow> bool \<Rightarrow> coap_uri \<Rightarrow> (nat \<times> nat \<times> nat \<times> coap_uri) scan option" where
  "split_port str p q len unix uri = do {
     colon \<leftarrow> (if 0 < len then prefix_at str q [0x3A] else Some False);
     if \<not> colon then Some (Go (p, q, len, uri))
     else if unix then Some (Stop (-5) uri)
     else do {
       let p = q + 1;
       (q, len) \<leftarrow> skip_while str isdigit p (len - 1);
       if p < q then do {
         v \<leftarrow> port_value str p (q - p) 0;
         if 65535 < v then Some (Stop (-4) uri)
         else Some (Go (q, q, len, uri\<lparr>uri_port := word_of_int v\<rparr>))
       }
       else Some (Go (p, q, len, uri))
     }
   }"

text \<open>From the label \<open>path\<close> on.\<close>

definition split_rest :: "bytes \<Rightarrow> nat \<Rightarrow> nat \<Rightarrow> nat \<Rightarrow> coap_uri \<Rightarrow> (int \<times> coap_uri) option" where
  "split_rest str p q len uri =
     (if len = 0 then Some (0, uri)
      else do {
        slash \<leftarrow> prefix_at str q [0x2F];
        (p, q, len, uri) \<leftarrow>
          (if slash then do {
             let p = q + 1;
             (q, len) \<leftarrow> skip_while str (\<lambda>c. c \<noteq> 0x3F) p (len - 1);
             Some (if p < q then (q, q, len, uri\<lparr>uri_path := \<lparr>sc_length = q - p, sc_s = Some p\<rparr>\<rparr>)
                   else (p, q, len, uri))
           }
           else Some (p, q, len, uri));
        mark \<leftarrow> (if 0 < len then prefix_at str p [0x3F] else Some False);
        let (len, uri) = (if mark then (0, uri\<lparr>uri_query := \<lparr>sc_length = len - 1, sc_s = Some (p + 1)\<rparr>\<rparr>) else (len, uri));
        Some (if 0 < len then -1 else 0, uri)
      })"

text \<open>\<open>memset(uri, 0, ...)\<close> and the default port.\<close>

definition blank_uri :: coap_uri where
  "blank_uri = \<lparr>uri_host = null_str, uri_port = COAP_DEFAULT_PORT, uri_path = null_str, uri_query = null_str,
     uri_scheme = COAP_URI_SCHEME_COAP\<rparr>"

text \<open>\<open>str_var\<close> is \<open>None\<close> for the null pointer; \<open>uri0\<close> is the caller's object before the call.\<close>

definition coap_split_uri_sub ::
  "uri_support \<Rightarrow> coap_uri_check \<Rightarrow> bytes \<Rightarrow> nat option \<Rightarrow> nat \<Rightarrow> coap_uri \<Rightarrow> (int \<times> coap_uri) option" where
  "coap_split_uri_sub cfg chk str str_var len uri0 =
     (case str_var of
        None \<Rightarrow> Some (-1, uri0)
      | Some s \<Rightarrow>
          if len = 0 then Some (-1, uri0)
          else do {
            let uri = blank_uri;
            slash \<leftarrow> prefix_at str s [0x2F];
            if slash then
              (if chk = COAP_URI_CHECK_PROXY then Some (-1, uri) else split_rest str s s len uri)
            else do {
              r \<leftarrow> split_scheme cfg chk str s len uri;
              scan_next r (\<lambda>(p, len, uri). do {
                r \<leftarrow> split_host str p len uri;
                scan_next r (\<lambda>(p, q, len, unix, uri). do {
                  r \<leftarrow> split_port str p q len unix uri;
                  scan_next r (\<lambda>(p, q, len, uri). split_rest str p q len uri)
                })
              })
            }
          })"

definition coap_split_uri :: "uri_support \<Rightarrow> bytes \<Rightarrow> nat option \<Rightarrow> nat \<Rightarrow> coap_uri \<Rightarrow> (int \<times> coap_uri) option" where
  "coap_split_uri cfg str str_var len uri0 = coap_split_uri_sub cfg COAP_URI_CHECK_URI str str_var len uri0"

definition coap_split_proxy_uri ::
  "uri_support \<Rightarrow> bytes \<Rightarrow> nat option \<Rightarrow> nat \<Rightarrow> coap_uri \<Rightarrow> (int \<times> coap_uri) option" where
  "coap_split_proxy_uri cfg str str_var len uri0 = coap_split_uri_sub cfg COAP_URI_CHECK_PROXY str str_var len uri0"

definition coap_host_is_unix_domain :: "bytes \<Rightarrow> coap_str_const \<Rightarrow> bool option" where
  "coap_host_is_unix_domain str host = do {
     a \<leftarrow> (if 3 \<le> sc_length host then do { p \<leftarrow> sc_s host; escaped_slash str p } else Some False);
     if a then Some True
     else if 1 \<le> sc_length host then do { p \<leftarrow> sc_s host; prefix_at str p [0x2F] }
     else Some False
   }"

definition scheme_value :: "coap_uri_scheme_t \<Rightarrow> nat" where
  "scheme_value scheme = (case scheme of
     COAP_URI_SCHEME_COAP \<Rightarrow> 0 | COAP_URI_SCHEME_COAPS \<Rightarrow> 1 | COAP_URI_SCHEME_COAP_TCP \<Rightarrow> 2
   | COAP_URI_SCHEME_COAPS_TCP \<Rightarrow> 3 | COAP_URI_SCHEME_HTTP \<Rightarrow> 4 | COAP_URI_SCHEME_HTTPS \<Rightarrow> 5
   | COAP_URI_SCHEME_COAP_WS \<Rightarrow> 6 | COAP_URI_SCHEME_COAPS_WS \<Rightarrow> 7)"

definition coap_uri_scheme_is_secure :: "coap_uri \<Rightarrow> bool" where
  "coap_uri_scheme_is_secure uri \<longleftrightarrow> scheme_value (uri_scheme uri) AND 1 \<noteq> 0"

end
