(* ===== verification/Coap_Uri_Parse.thy ===== *)
theory Coap_Uri_Parse
  imports Coap_Uri
begin

text \<open>
  What the parser of \<open>Coap_Uri\<close> does: it is total and stays inside the text, and it takes a
  composed URI apart into the parts it was made of; two kinds of URI it should accept are refused.
\<close>

section \<open>Every text is parsed inside its bounds\<close>

lemma prefix_at_total: "p + length cs \<le> length str \<Longrightarrow> \<exists>b. prefix_at str p cs = Some b"
  by (induction str p cs rule: prefix_at.induct) (auto simp: c_load_def)

lemma prefix_at_one: "p < length str \<Longrightarrow> prefix_at str p [c] = Some (str ! p = c)"
  by (simp add: c_load_def)

lemma skip_while_total:
  assumes "q + len \<le> length str"
  shows "\<exists>q' len'. skip_while str P q len = Some (q', len') \<and> q \<le> q' \<and> q' + len' = q + len \<and>
    (0 < len' \<longrightarrow> \<not> P (str ! q')) \<and> (\<forall>i. q \<le> i \<and> i < q' \<longrightarrow> P (str ! i))"
  using assms
proof (induction len arbitrary: q)
  case (Suc len)
  show ?case
  proof (cases "P (str ! q)")
    case True
    from Suc.IH [of "q + 1"] Suc.prems obtain q' len' where r: "skip_while str P (q + 1) len = Some (q', len')"
      "q + 1 \<le> q'" "q' + len' = q + 1 + len" "0 < len' \<longrightarrow> \<not> P (str ! q')" "\<forall>i. q + 1 \<le> i \<and> i < q' \<longrightarrow> P (str ! i)"
      by auto
    have "\<forall>i. q \<le> i \<and> i < q' \<longrightarrow> P (str ! i)"
      using r(5) True by (metis Suc_eq_plus1 Suc_leI le_neq_implies_less)
    with r True Suc.prems show ?thesis by (simp add: c_load_def)
  next
    case False
    then show ?thesis using Suc.prems by (auto simp: c_load_def)
  qed
qed auto

lemma find_separator_total:
  assumes "p + len \<le> length str"
  shows "\<exists>p' len'. find_separator str p len = Some (p', len') \<and> p \<le> p' \<and> p' + len' = p + len"
  using assms
proof (induction len arbitrary: p)
  case 0
  then show ?case by (subst find_separator.simps) simp
next
  case (Suc len)
  show ?case
  proof (cases "Suc len < 3")
    case True
    then show ?thesis by (subst find_separator.simps) simp
  next
    case False
    then obtain b where "prefix_at str p [0x3A, 0x2F, 0x2F] = Some b"
      using prefix_at_total [of p "[0x3A, 0x2F, 0x2F]" str] Suc.prems by auto
    with Suc.IH [of "p + 1"] Suc.prems False show ?thesis
      by (subst find_separator.simps) (cases b; fastforce)
  qed
qed

lemma find_scheme_total:
  assumes "s + n \<le> length str"
  shows "\<exists>e. find_scheme str s n es = Some e"
  using assms by (induction str s n es rule: find_scheme.induct) (auto simp: c_slice_def)

lemma escaped_slash_total: "p + 3 \<le> length str \<Longrightarrow> \<exists>b. escaped_slash str p = Some b"
  using prefix_at_total [of p "[0x25, 0x32]" str] by (auto simp: escaped_slash_def c_load_def)

lemma port_value_total:
  assumes "p + n \<le> length str"
  shows "\<exists>v. port_value str p n w = Some v"
  using assms by (induction str p n w rule: port_value.induct) (auto simp: c_load_def)

text \<open>A component lies in the text from \<open>s\<close> to \<open>e\<close>, or is the null pointer with length 0.\<close>

definition lies_in :: "nat \<Rightarrow> nat \<Rightarrow> coap_str_const \<Rightarrow> bool" where
  "lies_in s e c \<longleftrightarrow> (case sc_s c of None \<Rightarrow> sc_length c = 0 | Some p \<Rightarrow> s \<le> p \<and> p + sc_length c \<le> e)"

definition uri_in :: "nat \<Rightarrow> nat \<Rightarrow> coap_uri \<Rightarrow> bool" where
  "uri_in s e uri \<longleftrightarrow> lies_in s e (uri_host uri) \<and> lies_in s e (uri_path uri) \<and> lies_in s e (uri_query uri)"

lemma uri_in_simps [simp]:
  "uri_in s e blank_uri"
  "uri_in s e (uri\<lparr>uri_port := x\<rparr>) = uri_in s e uri"
  "uri_in s e (uri\<lparr>uri_scheme := y\<rparr>) = uri_in s e uri"
  "uri_in s e uri \<Longrightarrow> uri_in s e (uri\<lparr>uri_host := c\<rparr>) = lies_in s e c"
  "uri_in s e uri \<Longrightarrow> uri_in s e (uri\<lparr>uri_path := c\<rparr>) = lies_in s e c"
  "uri_in s e uri \<Longrightarrow> uri_in s e (uri\<lparr>uri_query := c\<rparr>) = lies_in s e c"
  by (auto simp: uri_in_def lies_in_def blank_uri_def null_str_def)

lemma lies_in_span [simp]: "lies_in s e \<lparr>sc_length = n, sc_s = Some p\<rparr> \<longleftrightarrow> s \<le> p \<and> p + n \<le> e"
  by (simp add: lies_in_def)

lemma split_rest_total:
  assumes "q + len = e" "e \<le> length str" "s \<le> p" "p \<le> q" "uri_in s e uri"
  shows "\<exists>r uri'. split_rest str p q len uri = Some (r, uri') \<and> r \<in> {-1, 0} \<and> uri_in s e uri'"
proof (cases "len = 0")
  case True
  then show ?thesis using assms by (simp add: split_rest_def)
next
  case False
  then have q: "q < length str" using assms by simp
  have tail: "\<exists>r uri''. do {
        mark \<leftarrow> (if 0 < len' then prefix_at str p' [0x3F] else Some False);
        let (len, uri) = (if mark then (0, uri'\<lparr>uri_query := \<lparr>sc_length = len' - 1, sc_s = Some (p' + 1)\<rparr>\<rparr>) else (len', uri'));
        Some (if 0 < len then -1 else (0 :: int), uri)
      } = Some (r, uri'') \<and> r \<in> {-1, 0} \<and> uri_in s e uri''"
    if "p' + len' \<le> e" "s \<le> p'" "uri_in s e uri'" for p' len' uri'
    using that assms(2) by (auto simp: prefix_at_one simp del: prefix_at.simps)
  show ?thesis
  proof (cases "str ! q = 0x2F")
    case True
    obtain q' len' where r: "skip_while str (\<lambda>c. c \<noteq> 0x3F) (q + 1) (len - 1) = Some (q', len')"
      "q + 1 \<le> q'" "q' + len' = q + 1 + (len - 1)"
      using skip_while_total [of "q + 1" "len - 1" str "\<lambda>c. c \<noteq> 0x3F"] False assms by auto
    show ?thesis
    proof (cases "q + 1 < q'")
      case True
      with tail [of q' len' "uri\<lparr>uri_path := \<lparr>sc_length = q' - (q + 1), sc_s = Some (q + 1)\<rparr>\<rparr>"] \<open>str ! q = 0x2F\<close> r q False assms
      show ?thesis by (simp add: split_rest_def prefix_at_one Let_def del: prefix_at.simps)
    next
      case no: False
      with tail [of "q + 1" len' uri] \<open>str ! q = 0x2F\<close> r q False assms
      show ?thesis by (simp add: split_rest_def prefix_at_one Let_def del: prefix_at.simps)
    qed
  next
    case no: False
    with tail [of p len uri] q False assms show ?thesis
      by (simp add: split_rest_def prefix_at_one del: prefix_at.simps)
  qed
qed
lemma split_port_total:
  assumes "q + len = e" "e \<le> length str" "s \<le> p" "p \<le> q" "uri_in s e uri"
  shows "\<exists>r. split_port str p q len unix uri = Some r \<and>
    (case r of Stop c uri' \<Rightarrow> c \<in> {-5, -4} \<and> uri_in s e uri'
     | Go (p', q', len', uri') \<Rightarrow> q' + len' = e \<and> s \<le> p' \<and> p' \<le> q' \<and> uri_in s e uri')"
proof (cases "0 < len \<and> str ! q = 0x3A")
  case True
  obtain q' len' where r: "skip_while str isdigit (q + 1) (len - 1) = Some (q', len')"
    "q + 1 \<le> q'" "q' + len' = q + 1 + (len - 1)"
    using skip_while_total [of "q + 1" "len - 1" str isdigit] True assms by auto
  obtain v where "port_value str (q + 1) (q' - (q + 1)) 0 = Some v"
    using port_value_total [of "q + 1" "q' - (q + 1)" str 0] r True assms by auto
  with r True assms show ?thesis
    by (auto simp: split_port_def prefix_at_one Let_def simp del: prefix_at.simps)
next
  case False
  with assms show ?thesis
    by (cases "len = 0") (auto simp: split_port_def prefix_at_one simp del: prefix_at.simps)
qed

lemma split_host_total:
  assumes "p + len = e" "e \<le> length str" "s \<le> p" "uri_in s e uri"
  shows "\<exists>r. split_host str p len uri = Some r \<and>
    (case r of Stop c uri' \<Rightarrow> c = -3 \<and> uri_in s e uri'
     | Go (p', q', len', unix, uri') \<Rightarrow> q' + len' = e \<and> s \<le> p' \<and> p' \<le> q' \<and> uri_in s e uri')"
proof (cases "0 < len \<and> str ! p = 0x5B")
  case True
  obtain q' len' where r: "skip_while str (\<lambda>c. c \<noteq> 0x5D) p len = Some (q', len')"
    "p \<le> q'" "q' + len' = p + len" "0 < len' \<longrightarrow> str ! q' = 0x5D"
    using skip_while_total [of p len str "\<lambda>c. c \<noteq> 0x5D"] True assms by auto
  have "p + 1 \<le> q'" if "0 < len'" using r(2,4) True that by (cases "p = q'") auto
  with r True assms show ?thesis
    by (cases "len' = 0") (auto simp: split_host_def prefix_at_one c_load_def simp del: prefix_at.simps)
next
  case False
  obtain q' len' where r: "skip_while str (\<lambda>c. c \<noteq> 0x3A \<and> c \<noteq> 0x2F \<and> c \<noteq> 0x3F) p len = Some (q', len')"
    "p \<le> q'" "q' + len' = p + len"
    using skip_while_total [of p len str "\<lambda>c. c \<noteq> 0x3A \<and> c \<noteq> 0x2F \<and> c \<noteq> 0x3F"] assms by auto
  have start: "(if 0 < len then prefix_at str p [0x5B] else Some False) = Some False"
    using False assms by (auto simp: prefix_at_one simp del: prefix_at.simps)
  obtain b where "(if 3 \<le> len then escaped_slash str p else Some False) = Some b"
    using escaped_slash_total [of p str] assms by (cases "3 \<le> len") auto
  with r start assms show ?thesis by (auto simp: split_host_def Let_def)
qed

lemma split_scheme_total:
  assumes "s + len \<le> length str" "uri_in s (s + len) uri"
  shows "\<exists>r. split_scheme cfg chk str s len uri = Some r \<and>
    (case r of Stop c uri' \<Rightarrow> c \<in> {-2, -1} \<and> uri_in s (s + len) uri'
     | Go (p', len', uri') \<Rightarrow> p' + len' = s + len \<and> s \<le> p' \<and> uri_in s (s + len) uri')"
proof -
  obtain p len1 where p: "find_separator str s len = Some (p, len1)" "s \<le> p" "p + len1 = s + len"
    using find_separator_total [OF assms(1)] by blast
  obtain e where "find_scheme str s (p - s) uri_schemes = Some e"
    using find_scheme_total [of s "p - s" str uri_schemes] p assms by auto
  with p assms show ?thesis by (cases e) (auto simp: split_scheme_def Let_def)
qed

lemma scan_next_ok:
  assumes "\<And>c u. r = Stop c u \<Longrightarrow> Q c u" "\<And>x. r = Go x \<Longrightarrow> \<exists>c u. f x = Some (c, u) \<and> Q c u"
  shows "\<exists>c u. scan_next r f = Some (c, u) \<and> Q c u"
  using assms by (cases r) (auto simp: scan_next_def)

text \<open>What the stages after the scheme deliver together.\<close>

definition parsed :: "nat \<Rightarrow> nat \<Rightarrow> int \<Rightarrow> coap_uri \<Rightarrow> bool" where
  "parsed s e r uri \<longleftrightarrow> r \<in> {-5, -4, -3, -2, -1, 0} \<and> uri_in s e uri"

lemma after_port_total:
  assumes "q + len = e" "e \<le> length str" "s \<le> p" "p \<le> q" "uri_in s e uri"
  shows "\<exists>r uri'. do { r \<leftarrow> split_port str p q len unix uri;
      scan_next r (\<lambda>(p, q, len, uri). split_rest str p q len uri) } = Some (r, uri') \<and> parsed s e r uri'"
proof -
  obtain r where r: "split_port str p q len unix uri = Some r"
    "case r of Stop c uri' \<Rightarrow> c \<in> {-5, -4} \<and> uri_in s e uri'
     | Go (p', q', len', uri') \<Rightarrow> q' + len' = e \<and> s \<le> p' \<and> p' \<le> q' \<and> uri_in s e uri'"
    using split_port_total [OF assms] by blast
  have "\<exists>c u. scan_next r (\<lambda>(p, q, len, uri). split_rest str p q len uri) = Some (c, u) \<and> parsed s e c u"
  proof (rule scan_next_ok)
    show "parsed s e c u" if "r = Stop c u" for c u using r(2) that by (auto simp: parsed_def)
    show "\<exists>c u. (\<lambda>(p, q, len, uri). split_rest str p q len uri) x = Some (c, u) \<and> parsed s e c u"
      if "r = Go x" for x
      using r(2) that split_rest_total [OF _ assms(2)] by (cases x) (fastforce simp: parsed_def)
  qed
  with r(1) show ?thesis by simp
qed

lemma after_scheme_total:
  assumes "p + len = e" "e \<le> length str" "s \<le> p" "uri_in s e uri"
  shows "\<exists>r uri'. do { r \<leftarrow> split_host str p len uri;
      scan_next r (\<lambda>(p, q, len, unix, uri). do { r \<leftarrow> split_port str p q len unix uri;
        scan_next r (\<lambda>(p, q, len, uri). split_rest str p q len uri) }) } = Some (r, uri') \<and> parsed s e r uri'"
proof -
  obtain r where r: "split_host str p len uri = Some r"
    "case r of Stop c uri' \<Rightarrow> c = -3 \<and> uri_in s e uri'
     | Go (p', q', len', unix, uri') \<Rightarrow> q' + len' = e \<and> s \<le> p' \<and> p' \<le> q' \<and> uri_in s e uri'"
    using split_host_total [OF assms] by blast
  have "\<exists>c u. scan_next r (\<lambda>(p, q, len, unix, uri). do { r \<leftarrow> split_port str p q len unix uri;
      scan_next r (\<lambda>(p, q, len, uri). split_rest str p q len uri) }) = Some (c, u) \<and> parsed s e c u"
  proof (rule scan_next_ok)
    show "parsed s e c u" if "r = Stop c u" for c u using r(2) that by (auto simp: parsed_def)
    show "\<exists>c u. (\<lambda>(p, q, len, unix, uri). do { r \<leftarrow> split_port str p q len unix uri;
        scan_next r (\<lambda>(p, q, len, uri). split_rest str p q len uri) }) x = Some (c, u) \<and> parsed s e c u"
      if "r = Go x" for x
      using r(2) that after_port_total [OF _ assms(2)] by (cases x) simp
  qed
  with r(1) show ?thesis by simp
qed

lemma split_uri_total:
  assumes "s + len \<le> length str" "0 < len"
  shows "\<exists>r uri. coap_split_uri_sub cfg chk str (Some s) len uri0 = Some (r, uri) \<and>
    r \<in> {-5, -4, -3, -2, -1, 0} \<and> uri_in s (s + len) uri"
proof (cases "str ! s = 0x2F")
  case True
  show ?thesis
  proof (cases "chk = COAP_URI_CHECK_PROXY")
    case False
    with True split_rest_total [of s len "s + len" str s s blank_uri] assms show ?thesis
      by (auto simp: coap_split_uri_sub_def prefix_at_one simp del: prefix_at.simps)
  qed (use True assms in \<open>simp add: coap_split_uri_sub_def prefix_at_one del: prefix_at.simps\<close>)
next
  case False
  let ?e = "s + len"
  have slash: "prefix_at str s [0x2F] = Some False" using False assms by (simp add: c_load_def)
  let ?f = "\<lambda>(p, len, uri). do { r \<leftarrow> split_host str p len uri;
    scan_next r (\<lambda>(p, q, len, unix, uri). do { r \<leftarrow> split_port str p q len unix uri;
      scan_next r (\<lambda>(p, q, len, uri). split_rest str p q len uri) }) }"
  obtain r where r: "split_scheme cfg chk str s len blank_uri = Some r"
    "case r of Stop c uri' \<Rightarrow> c \<in> {-2, -1} \<and> uri_in s ?e uri'
     | Go (p', len', uri') \<Rightarrow> p' + len' = ?e \<and> s \<le> p' \<and> uri_in s ?e uri'"
    using split_scheme_total [OF assms(1) uri_in_simps(1)] by blast
  have "\<exists>c u. scan_next r ?f = Some (c, u) \<and> parsed s ?e c u"
  proof (rule scan_next_ok)
    show "parsed s ?e c u" if "r = Stop c u" for c u using r(2) that by (auto simp: parsed_def)
    show "\<exists>c u. ?f x = Some (c, u) \<and> parsed s ?e c u" if "r = Go x" for x
      using r(2) that after_scheme_total [OF _ assms(1)] by (cases x) simp
  qed
  with r(1) slash assms(2) show ?thesis by (simp add: coap_split_uri_sub_def parsed_def)
qed

text \<open>C33: \<open>coap_split_uri\<close> and \<open>coap_split_proxy_uri\<close> return for every text, whatever its bytes
  are and with any set of supported schemes: they read only inside the text, the result is 0 or one of the
  error codes -1 to -5, and host, path and query of the result are parts of the text (or the null pointer).\<close>

theorem split_uri_safe:
  assumes "s + len \<le> length str" "0 < len"
  shows "\<exists>r uri. coap_split_uri_sub cfg chk str (Some s) len uri0 = Some (r, uri) \<and>
    r \<in> {-5, -4, -3, -2, -1, 0} \<and> uri_in s (s + len) uri"
  by (rule split_uri_total [OF assms])

theorem split_uri_safe_witness:
  "\<exists>r uri. coap_split_uri_sub \<lparr>dtls_is_supported = False, tcp_is_supported = False, ws_is_supported = False, wss_is_supported = False\<rparr>
      COAP_URI_CHECK_URI (ascii ''coap://[::1]:70000/x'') (Some 0) 20 blank_uri = Some (r, uri) \<and>
    r \<in> {-5, -4, -3, -2, -1, 0} \<and> uri_in 0 20 uri"
  using split_uri_safe [of 0 20 "ascii ''coap://[::1]:70000/x''"] by (simp add: ascii_def)
section \<open>A composed text is taken apart again\<close>

text \<open>The bytes of a component.\<close>

definition text_of :: "bytes \<Rightarrow> coap_str_const \<Rightarrow> bytes" where
  "text_of str c = (case sc_s c of None \<Rightarrow> [] | Some p \<Rightarrow> take (sc_length c) (drop p str))"

lemma text_of_simps [simp]:
  "text_of str null_str = []"
  "text_of (pre @ w @ rest) \<lparr>sc_length = length w, sc_s = Some (length pre)\<rparr> = w"
  by (simp_all add: text_of_def null_str_def)

text \<open>A port, a path and a query as they stand in a URI; each may be missing.\<close>

definition port_text :: "bytes option \<Rightarrow> bytes" where
  "port_text ds = (case ds of None \<Rightarrow> [] | Some d \<Rightarrow> 0x3A # d)"

definition path_text :: "bytes option \<Rightarrow> bytes" where
  "path_text w = (case w of None \<Rightarrow> [] | Some v \<Rightarrow> 0x2F # v)"

definition query_text :: "bytes option \<Rightarrow> bytes" where
  "query_text w = (case w of None \<Rightarrow> [] | Some v \<Rightarrow> 0x3F # v)"

definition uri_text :: "bytes \<Rightarrow> bytes \<Rightarrow> bytes option \<Rightarrow> bytes option \<Rightarrow> bytes option \<Rightarrow> bytes" where
  "uri_text scheme host port path query =
     scheme @ [0x3A, 0x2F, 0x2F] @ host @ port_text port @ path_text path @ query_text query"

definition dec_value :: "bytes \<Rightarrow> int" where
  "dec_value = foldl (\<lambda>v c. v * 10 + (uint c - 0x30)) 0"

text \<open>A host that is neither an IPv6 address in brackets nor the escaped path of a Unix domain socket.\<close>

definition plain_host :: "bytes \<Rightarrow> bool" where
  "plain_host h \<longleftrightarrow> h \<noteq> [] \<and> hd h \<noteq> 0x5B \<and> hd h \<noteq> 0x25 \<and> (\<forall>c \<in> set h. c \<noteq> 0x3A \<and> c \<noteq> 0x2F \<and> c \<noteq> 0x3F)"

lemma skip_while_to:
  assumes "\<forall>c \<in> set w. P c" "n = 0 \<or> rest \<noteq> [] \<and> \<not> P (hd rest)"
  shows "skip_while (pre @ w @ rest) P (length pre) (length w + n) = Some (length pre + length w, n)"
  using assms
proof (induction w arbitrary: pre)
  case Nil
  then show ?case by (cases n; cases rest) auto
next
  case (Cons c w)
  then show ?case using Cons.IH [of "pre @ [c]"] by simp
qed

lemma find_separator_to:
  assumes "0x3A \<notin> set w"
  shows "find_separator (pre @ w @ [0x3A, 0x2F, 0x2F] @ rest) (length pre) (length w + 3 + n) =
    Some (length pre + length w, 3 + n)"
  using assms
proof (induction w arbitrary: pre)
  case Nil
  show ?case by (subst find_separator.simps) simp
next
  case (Cons c w)
  have "prefix_at (pre @ (c # w) @ [0x3A, 0x2F, 0x2F] @ rest) (length pre) [0x3A, 0x2F, 0x2F] = Some False"
    using Cons.prems by simp
  then show ?case using Cons.IH [of "pre @ [c]"] Cons.prems
    by (subst find_separator.simps) (simp add: ac_simps)
qed

lemma find_scheme_find:
  assumes "c_slice str s n = Some name" "length name = n"
  shows "find_scheme str s n es = Some (find (\<lambda>e. info_name e = name) es)"
  using assms by (induction es) auto

lemma ascii_names:
  "ascii ''coap'' = [0x63, 0x6F, 0x61, 0x70]"
  "ascii ''coaps'' = [0x63, 0x6F, 0x61, 0x70, 0x73]"
  "ascii ''coap+tcp'' = [0x63, 0x6F, 0x61, 0x70, 0x2B, 0x74, 0x63, 0x70]"
  "ascii ''coaps+tcp'' = [0x63, 0x6F, 0x61, 0x70, 0x73, 0x2B, 0x74, 0x63, 0x70]"
  "ascii ''http'' = [0x68, 0x74, 0x74, 0x70]"
  "ascii ''https'' = [0x68, 0x74, 0x74, 0x70, 0x73]"
  "ascii ''coap+ws'' = [0x63, 0x6F, 0x61, 0x70, 0x2B, 0x77, 0x73]"
  "ascii ''coaps+ws'' = [0x63, 0x6F, 0x61, 0x70, 0x73, 0x2B, 0x77, 0x73]"
  by (simp_all add: ascii_def)

lemma scheme_names_all:
  "\<forall>e \<in> set uri_schemes. find (\<lambda>e'. info_name e' = info_name e) uri_schemes = Some e"
  "\<forall>e \<in> set uri_schemes. 0x3A \<notin> set (info_name e) \<and> info_name e \<noteq> [] \<and> hd (info_name e) \<noteq> 0x2F"
  unfolding uri_schemes_def ascii_names by simp_all

lemma scheme_names:
  assumes "e \<in> set uri_schemes"
  shows "find (\<lambda>e'. info_name e' = info_name e) uri_schemes = Some e" "0x3A \<notin> set (info_name e)"
    "info_name e \<noteq> []" "hd (info_name e) \<noteq> 0x2F"
  using scheme_names_all assms by blast+

lemma split_scheme_to:
  assumes "e \<in> set uri_schemes" "scheme_enabled cfg (info_scheme e)" "chk = COAP_URI_CHECK_PROXY \<or> \<not> proxy_only e"
  shows "split_scheme cfg chk (pre @ info_name e @ [0x3A, 0x2F, 0x2F] @ rest) (length pre) (length (info_name e) + 3 + n) uri =
    Some (Go (length pre + length (info_name e) + 3, n, uri\<lparr>uri_scheme := info_scheme e, uri_port := info_port e\<rparr>))"
proof -
  let ?str = "pre @ info_name e @ [0x3A, 0x2F, 0x2F] @ rest"
  have "find_scheme ?str (length pre) (length (info_name e)) uri_schemes = Some (Some e)"
    using find_scheme_find [of ?str "length pre" "length (info_name e)" "info_name e" uri_schemes] scheme_names(1) [OF assms(1)]
    by (simp add: c_slice_def)
  then show ?thesis
    using find_separator_to [OF scheme_names(2) [OF assms(1)], of pre rest n] assms(2,3)
    by (auto simp: split_scheme_def)
qed

lemma split_host_to:
  assumes "plain_host h" "n = 0 \<or> rest \<noteq> [] \<and> hd rest \<in> {0x3A, 0x2F, 0x3F}"
  shows "split_host (pre @ h @ rest) (length pre) (length h + n) uri =
    Some (Go (length pre, length pre + length h, n, False,
      uri\<lparr>uri_host := \<lparr>sc_length = length h, sc_s = Some (length pre)\<rparr>\<rparr>))"
proof -
  obtain c h' where h: "h = c # h'" "c \<noteq> 0x5B" "c \<noteq> 0x25"
    using assms(1) by (cases h) (auto simp: plain_host_def)
  have "skip_while (pre @ h @ rest) (\<lambda>c. c \<noteq> 0x3A \<and> c \<noteq> 0x2F \<and> c \<noteq> 0x3F) (length pre) (length h + n) =
      Some (length pre + length h, n)"
    using assms by (intro skip_while_to) (auto simp: plain_host_def)
  moreover have "prefix_at (pre @ h @ rest) (length pre) [0x5B] = Some False" "escaped_slash (pre @ h @ rest) (length pre) = Some False"
    using h by (simp_all add: escaped_slash_def)
  ultimately show ?thesis using h(1) by (simp add: split_host_def del: prefix_at.simps skip_while.simps)
qed

lemma digit_value: "isdigit c \<Longrightarrow> 0 \<le> uint c - 0x30 \<and> uint c - 0x30 \<le> 9"
  by (simp add: isdigit_def word_le_def)

lemma dec_grows:
  assumes "\<forall>c \<in> set ds. isdigit c" "0 \<le> v"
  shows "v \<le> foldl (\<lambda>v c. v * 10 + (uint c - 0x30)) v ds"
  using assms
proof (induction ds arbitrary: v)
  case (Cons c ds)
  then have "v \<le> v * 10 + (uint c - 0x30)" using digit_value [of c] by simp
  also have "\<dots> \<le> foldl (\<lambda>v c. v * 10 + (uint c - 0x30)) (v * 10 + (uint c - 0x30)) ds"
    using Cons.prems digit_value [of c] by (intro Cons.IH) auto
  finally show ?case by simp
qed simp

lemma port_value_to:
  assumes "\<forall>c \<in> set ds. isdigit c" "0 \<le> v"
  shows "\<exists>x. port_value (pre @ ds @ rest) (length pre) (length ds) v = Some x \<and>
    (x \<le> 65535 \<longleftrightarrow> foldl (\<lambda>v c. v * 10 + (uint c - 0x30)) v ds \<le> 65535) \<and>
    (x \<le> 65535 \<longrightarrow> x = foldl (\<lambda>v c. v * 10 + (uint c - 0x30)) v ds)"
  using assms
proof (induction ds arbitrary: pre v)
  case (Cons c ds)
  show ?case
  proof (cases "v \<le> 65535")
    case True
    then show ?thesis
      using Cons.IH [of "v * 10 + (uint c - 0x30)" "pre @ [c]"] Cons.prems digit_value [of c] by simp
  next
    case False
    have "v \<le> foldl (\<lambda>v c. v * 10 + (uint c - 0x30)) v (c # ds)"
      using Cons.prems by (rule dec_grows)
    with False show ?thesis by auto
  qed
qed simp
lemma split_port_none:
  assumes "n = 0 \<or> rest \<noteq> [] \<and> hd rest \<noteq> 0x3A"
  shows "split_port (pre @ rest) p (length pre) n unix uri = Some (Go (p, length pre, n, uri))"
  using assms by (cases n; cases rest) (auto simp: split_port_def)

lemma split_port_digits:
  assumes ds: "\<forall>c \<in> set ds. isdigit c" and n: "n = 0 \<or> rest \<noteq> [] \<and> \<not> isdigit (hd rest)"
  shows "split_port (pre @ 0x3A # ds @ rest) p (length pre) (1 + length ds + n) False uri =
    Some (if 65535 < dec_value ds then Stop (-4) uri
      else Go (length pre + 1 + length ds, length pre + 1 + length ds, n,
        if ds = [] then uri else uri\<lparr>uri_port := word_of_int (dec_value ds)\<rparr>))"
proof -
  let ?str = "(pre @ [0x3A]) @ ds @ rest"
  have scan: "skip_while ?str isdigit (length pre + 1) (length ds + n) = Some (length pre + 1 + length ds, n)"
    using skip_while_to [OF ds n, of "pre @ [0x3A]"] by simp
  obtain x where x: "port_value ?str (length pre + 1) (length ds) 0 = Some x"
    "x \<le> 65535 \<longleftrightarrow> dec_value ds \<le> 65535" "x \<le> 65535 \<longrightarrow> x = dec_value ds"
    using port_value_to [OF ds order_refl, of "pre @ [0x3A]" rest] unfolding dec_value_def by auto
  show ?thesis
  proof (cases "ds = []")
    case True
    with scan show ?thesis by (simp add: split_port_def dec_value_def)
  next
    case False
    have "65535 < x \<longleftrightarrow> 65535 < dec_value ds" using x(2) by linarith
    with scan x False show ?thesis by (auto simp: split_port_def Let_def)
  qed
qed

definition set_port :: "bytes option \<Rightarrow> coap_uri \<Rightarrow> coap_uri" where
  "set_port port uri = (case port of
     None \<Rightarrow> uri | Some ds \<Rightarrow> if ds = [] then uri else uri\<lparr>uri_port := word_of_int (dec_value ds)\<rparr>)"

definition set_path :: "nat \<Rightarrow> bytes option \<Rightarrow> coap_uri \<Rightarrow> coap_uri" where
  "set_path q path uri = (case path of
     None \<Rightarrow> uri | Some w \<Rightarrow> if w = [] then uri else uri\<lparr>uri_path := \<lparr>sc_length = length w, sc_s = Some (q + 1)\<rparr>\<rparr>)"

definition set_query :: "nat \<Rightarrow> bytes option \<Rightarrow> coap_uri \<Rightarrow> coap_uri" where
  "set_query q query uri = (case query of
     None \<Rightarrow> uri | Some w \<Rightarrow> uri\<lparr>uri_query := \<lparr>sc_length = length w, sc_s = Some (q + 1)\<rparr>\<rparr>)"

lemma split_port_to:
  assumes "\<forall>ds. port = Some ds \<longrightarrow> (\<forall>c \<in> set ds. isdigit c)" "n = 0 \<or> rest \<noteq> [] \<and> hd rest \<in> {0x2F, 0x3F}"
  shows "split_port (pre @ port_text port @ rest) p (length pre) (length (port_text port) + n) False uri =
    Some (if port \<noteq> None \<and> 65535 < dec_value (the port) then Stop (-4) uri
      else Go (if port = None then p else length (pre @ port_text port), length (pre @ port_text port), n, set_port port uri))"
proof (cases port)
  case None
  then show ?thesis
    using split_port_none [of n rest pre p False uri] assms(2) by (auto simp: port_text_def set_port_def)
next
  case (Some ds)
  have "n = 0 \<or> rest \<noteq> [] \<and> \<not> isdigit (hd rest)" using assms(2) by (auto simp: isdigit_def)
  then show ?thesis
    using split_port_digits [of ds n rest pre p uri] assms(1) Some by (simp add: port_text_def set_port_def)
qed

lemma split_rest_query:
  "prefix_at (pre @ query_text query @ post) (length pre) [0x3F] = Some True" if "query \<noteq> None"
  using that by (auto simp: query_text_def)

lemma split_rest_none:
  assumes "query = None \<or> p = length pre"
  shows "split_rest (pre @ query_text query @ post) p (length pre) (length (query_text query)) uri =
    Some (0, set_query (length pre) query uri)"
  using assms by (cases query) (simp_all add: split_rest_def query_text_def set_query_def)

lemma split_rest_path:
  assumes "\<forall>c \<in> set w. c \<noteq> 0x3F"
  shows "split_rest (pre @ 0x2F # w @ query_text query @ post) p (length pre) (1 + length w + length (query_text query)) uri =
    Some (0, set_query (length pre + 1 + length w) query (set_path (length pre) (Some w) uri))"
proof -
  have q: "length (query_text query) = 0 \<or> query_text query @ post \<noteq> [] \<and> \<not> hd (query_text query @ post) \<noteq> 0x3F"
    by (cases query) (simp_all add: query_text_def)
  define str where "str = pre @ 0x2F # w @ query_text query @ post"
  have scan: "skip_while str (\<lambda>c. c \<noteq> 0x3F) (Suc (length pre)) (length w + length (query_text query)) =
      Some (Suc (length pre) + length w, length (query_text query))"
    using skip_while_to [of w "\<lambda>c. c \<noteq> 0x3F", OF assms q, of "pre @ [0x2F]"] by (simp add: str_def)
  have slash: "prefix_at str (length pre) [0x2F] = Some True" by (simp add: str_def)
  have mark: "prefix_at str (Suc (length pre) + length w) [0x3F] = Some True" if "query = Some v" for v
    using c_load_behind(1) [of "pre @ 0x2F # w" "0x3F" "v @ post"] that by (simp add: str_def query_text_def)
  show ?thesis unfolding str_def [symmetric]
  proof (cases query)
    case None
    with scan slash show "split_rest str p (length pre) (1 + length w + length (query_text query)) uri =
        Some (0, set_query (length pre + 1 + length w) query (set_path (length pre) (Some w) uri))"
      by (cases "w = []") (simp_all add: split_rest_def query_text_def set_query_def set_path_def Let_def
          del: prefix_at.simps skip_while.simps)
  next
    case (Some v)
    have "length (query_text query) = Suc (length v)" using Some by (simp add: query_text_def)
    with scan slash mark [OF Some] Some show "split_rest str p (length pre) (1 + length w + length (query_text query)) uri =
        Some (0, set_query (length pre + 1 + length w) query (set_path (length pre) (Some w) uri))"
      by (cases "w = []") (simp_all add: split_rest_def set_query_def set_path_def Let_def
          del: prefix_at.simps skip_while.simps)
  qed
qed

lemma split_rest_to:
  assumes "\<forall>w. path = Some w \<longrightarrow> (\<forall>c \<in> set w. c \<noteq> 0x3F)" "path \<noteq> None \<or> query = None \<or> p = length pre"
  shows "split_rest (pre @ path_text path @ query_text query @ post) p (length pre) (length (path_text path @ query_text query)) uri =
    Some (0, set_query (length pre + length (path_text path)) query (set_path (length pre) path uri))"
proof (cases path)
  case None
  then show ?thesis
    using split_rest_none [of query p pre post uri] assms(2) by (simp add: path_text_def set_path_def)
next
  case (Some w)
  then show ?thesis
    using split_rest_path [of w pre query post p uri] assms(1) by (simp add: path_text_def)
qed
lemma uri_text_scheme: "uri_text scheme host port path query =
    scheme @ [0x3A, 0x2F, 0x2F] @ host @ port_text port @ path_text path @ query_text query"
  by (simp add: uri_text_def)

text \<open>The requirements on the parts; a query needs a path or a port in front of it.\<close>

definition parts_ok :: "bytes \<Rightarrow> bytes option \<Rightarrow> bytes option \<Rightarrow> bool" where
  "parts_ok host port path \<longleftrightarrow> plain_host host \<and>
     (\<forall>ds. port = Some ds \<longrightarrow> (\<forall>c \<in> set ds. isdigit c)) \<and>
     (\<forall>w. path = Some w \<longrightarrow> (\<forall>c \<in> set w. c \<noteq> 0x3F))"

definition bad_port :: "bytes option \<Rightarrow> bool" where
  "bad_port port \<longleftrightarrow> port \<noteq> None \<and> 65535 < dec_value (the port)"

text \<open>Up to the label \<open>path\<close>.\<close>

lemma split_uri_stages:
  fixes pre host post :: bytes
  assumes e: "e \<in> set uri_schemes" "scheme_enabled cfg (info_scheme e)" "chk = COAP_URI_CHECK_PROXY \<or> \<not> proxy_only e"
    and parts: "parts_ok host port path"
    and str: "str = pre @ uri_text (info_name e) host port path query @ post"
    and head: "head = pre @ info_name e @ [0x3A, 0x2F, 0x2F]"
    and uri: "uri = blank_uri\<lparr>uri_scheme := info_scheme e, uri_port := info_port e,
      uri_host := \<lparr>sc_length = length host, sc_s = Some (length head)\<rparr>\<rparr>"
    and q: "q = length (head @ host @ port_text port)"
  shows "coap_split_uri_sub cfg chk str (Some (length pre)) (length (uri_text (info_name e) host port path query)) old =
    (if bad_port port then Some (-4, uri)
     else split_rest str (if port = None then length head else q) q (length (path_text path @ query_text query)) (set_port port uri))"
proof -
  note names = scheme_names [OF e(1)]
  obtain c cs where name: "info_name e = c # cs" "c \<noteq> 0x2F" using names(3,4) by (cases "info_name e") auto
  define tl1 where "tl1 = port_text port @ path_text path @ query_text query"
  define tl2 where "tl2 = path_text path @ query_text query"
  have str1: "str = pre @ info_name e @ [0x3A, 0x2F, 0x2F] @ host @ tl1 @ post"
    and str2: "str = head @ host @ tl1 @ post"
    and str3: "str = (head @ host) @ port_text port @ tl2 @ post"
    by (simp_all add: str uri_text_def head tl1_def tl2_def)
  have len: "length (uri_text (info_name e) host port path query) = length (info_name e) + 3 + length (host @ tl1)"
    by (simp add: uri_text_def tl1_def)
  have slash: "prefix_at str (length pre) [0x2F] = Some False"
    unfolding str1 name(1) using name(2) by simp
  have s1: "split_scheme cfg chk str (length pre) (length (info_name e) + 3 + length (host @ tl1)) blank_uri =
      Some (Go (length head, length (host @ tl1), blank_uri\<lparr>uri_scheme := info_scheme e, uri_port := info_port e\<rparr>))"
    unfolding str1 using split_scheme_to [OF e, of pre "host @ tl1 @ post" "length (host @ tl1)" blank_uri] by (simp add: head)
  have tl2: "length tl2 = 0 \<or> tl2 @ post \<noteq> [] \<and> hd (tl2 @ post) \<in> {0x2F, 0x3F}"
    by (cases path; cases query) (auto simp: tl2_def path_text_def query_text_def)
  then have "length tl1 = 0 \<or> tl1 @ post \<noteq> [] \<and> hd (tl1 @ post) \<in> {0x3A, 0x2F, 0x3F}"
    by (cases port) (auto simp: tl1_def tl2_def port_text_def)
  then have s2: "split_host str (length head) (length (host @ tl1)) (blank_uri\<lparr>uri_scheme := info_scheme e, uri_port := info_port e\<rparr>) =
      Some (Go (length head, length head + length host, length tl1, False, uri))"
    unfolding str2 using split_host_to [of host "length tl1" "tl1 @ post" head] parts by (simp add: parts_ok_def uri)
  have s3: "split_port str (length head) (length head + length host) (length tl1) False uri =
    Some (if bad_port port then Stop (-4) uri
      else Go (if port = None then length head else q, q, length tl2, set_port port uri))"
    unfolding str3 using split_port_to [of port "length tl2" "tl2 @ post" "head @ host" "length head" uri] tl2 parts
    by (simp add: parts_ok_def bad_port_def q tl1_def tl2_def add.assoc)
  have "uri_text (info_name e) host port path query \<noteq> []" by (simp add: uri_text_def)
  then show ?thesis
    using slash s1 s2 s3 unfolding len tl2_def [symmetric]
    by (simp add: coap_split_uri_sub_def scan_next_def)
qed
lemma set_uri_fields [simp]:
  "uri_host (set_port port uri) = uri_host uri" "uri_path (set_port port uri) = uri_path uri"
  "uri_query (set_port port uri) = uri_query uri" "uri_scheme (set_port port uri) = uri_scheme uri"
  "uri_host (set_path q path uri) = uri_host uri" "uri_port (set_path q path uri) = uri_port uri"
  "uri_query (set_path q path uri) = uri_query uri" "uri_scheme (set_path q path uri) = uri_scheme uri"
  "uri_host (set_query q query uri) = uri_host uri" "uri_port (set_query q query uri) = uri_port uri"
  "uri_path (set_query q query uri) = uri_path uri" "uri_scheme (set_query q query uri) = uri_scheme uri"
  by (simp_all add: set_port_def set_path_def set_query_def split: option.splits)

lemma text_of_at:
  assumes "str = a @ w @ b" "p = length a" "n = length w"
  shows "text_of str \<lparr>sc_length = n, sc_s = Some p\<rparr> = w"
  using assms by (simp add: text_of_def)

lemma text_set_path:
  assumes "str = a @ path_text path @ b" "q = length a" "text_of str (uri_path uri) = []"
  shows "text_of str (uri_path (set_path q path uri)) = (case path of None \<Rightarrow> [] | Some w \<Rightarrow> w)"
  using assms text_of_at [of str "a @ [0x2F]"]
  by (auto simp: set_path_def path_text_def split: option.splits)

lemma text_set_query:
  assumes "str = a @ query_text query @ b" "q = length a" "text_of str (uri_query uri) = []"
  shows "text_of str (uri_query (set_query q query uri)) = (case query of None \<Rightarrow> [] | Some w \<Rightarrow> w)"
  using assms text_of_at [of str "a @ [0x3F]"]
  by (auto simp: set_query_def query_text_def split: option.splits)

text \<open>C34: \<open>coap_split_uri\<close> inverts the composition of a URI. A text made of the name of a scheme that
  is enabled and not for proxies only, \<open>://\<close>, a host (no IPv6 address, no Unix domain socket), and optionally
  a colon with digits, a slash with a path and a question mark with a query, whatever follows it in memory, is taken apart into just
  these parts: the port is the decimal value of the digits, or the default of the scheme if there are none; a port
  above 65535 is the error -4. A query without a path must have a port in front of it.\<close>

theorem split_composed_uri:
  assumes "e \<in> set uri_schemes" "scheme_enabled cfg (info_scheme e)" "\<not> proxy_only e"
    and "parts_ok host port path" "query = None \<or> path \<noteq> None \<or> port \<noteq> None"
    and str: "str = pre @ uri_text (info_name e) host port path query @ post"
  shows "\<exists>uri. coap_split_uri cfg str (Some (length pre)) (length (uri_text (info_name e) host port path query)) uri0 =
      Some (if bad_port port then -4 else 0, uri) \<and>
    (\<not> bad_port port \<longrightarrow>
      uri_scheme uri = info_scheme e \<and> text_of str (uri_host uri) = host \<and>
      uri_port uri = (case port of None \<Rightarrow> info_port e | Some ds \<Rightarrow> if ds = [] then info_port e else word_of_int (dec_value ds)) \<and>
      text_of str (uri_path uri) = (case path of None \<Rightarrow> [] | Some w \<Rightarrow> w) \<and>
      text_of str (uri_query uri) = (case query of None \<Rightarrow> [] | Some w \<Rightarrow> w))"
proof -
  let ?head = "pre @ info_name e @ [0x3A, 0x2F, 0x2F]"
  let ?uri = "blank_uri\<lparr>uri_scheme := info_scheme e, uri_port := info_port e,
      uri_host := \<lparr>sc_length = length host, sc_s = Some (length ?head)\<rparr>\<rparr>"
  define front where "front = ?head @ host @ port_text port"
  let ?p = "if port = None then length ?head else length front"
  have str1: "str = front @ path_text path @ query_text query @ post"
    and str2: "str = (front @ path_text path) @ query_text query @ post"
    and str3: "str = ?head @ host @ (port_text port @ path_text path @ query_text query @ post)"
    by (simp_all add: str front_def uri_text_def)
  have stages: "coap_split_uri cfg str (Some (length pre)) (length (uri_text (info_name e) host port path query)) uri0 =
      (if bad_port port then Some (-4, ?uri)
       else split_rest str ?p (length front) (length (path_text path @ query_text query)) (set_port port ?uri))"
    using split_uri_stages [OF assms(1,2) disjI2 [OF assms(3)] assms(4) str refl refl refl, where chk = COAP_URI_CHECK_URI and old = uri0]
    unfolding front_def coap_split_uri_def by simp
  show ?thesis
  proof (cases "bad_port port")
    case True
    with stages show ?thesis by simp
  next
    case False
    let ?res = "set_query (length front + length (path_text path)) query (set_path (length front) path (set_port port ?uri))"
    have "split_rest str ?p (length front) (length (path_text path @ query_text query)) (set_port port ?uri) = Some (0, ?res)"
      unfolding str1 using assms(4,5) by (intro split_rest_to) (auto simp: parts_ok_def)
    moreover have "text_of str (uri_host ?res) = host"
      using text_of_at [OF str3 refl refl] by simp
    moreover have "text_of str (uri_path ?res) = (case path of None \<Rightarrow> [] | Some w \<Rightarrow> w)"
      using text_set_path [OF str1 refl, of "set_port port ?uri"] by (simp add: blank_uri_def)
    moreover have "text_of str (uri_query ?res) = (case query of None \<Rightarrow> [] | Some w \<Rightarrow> w)"
      using text_set_query [OF str2 _, of _ "set_path (length front) path (set_port port ?uri)"] by (simp add: blank_uri_def)
    moreover have "uri_port ?res = (case port of None \<Rightarrow> info_port e | Some ds \<Rightarrow> if ds = [] then info_port e else word_of_int (dec_value ds))"
      by (simp add: set_port_def split: option.splits)
    ultimately show ?thesis using stages False by simp
  qed
qed

definition no_tls :: uri_support where
  "no_tls = \<lparr>dtls_is_supported = False, tcp_is_supported = True, ws_is_supported = False, wss_is_supported = False\<rparr>"

theorem split_composed_uri_witness:
  "\<exists>uri. coap_split_uri no_tls (ascii ''coap://a.b:61616/x/y?q=1'') (Some 0) (length (ascii ''coap://a.b:61616/x/y?q=1'')) blank_uri =
      Some (0, uri) \<and>
    text_of (ascii ''coap://a.b:61616/x/y?q=1'') (uri_host uri) = ascii ''a.b'' \<and> uri_port uri = 61616 \<and>
    text_of (ascii ''coap://a.b:61616/x/y?q=1'') (uri_path uri) = ascii ''x/y'' \<and>
    text_of (ascii ''coap://a.b:61616/x/y?q=1'') (uri_query uri) = ascii ''q=1''"
  using split_composed_uri [of "hd uri_schemes" no_tls "ascii ''a.b''" "Some (ascii ''61616'')" "Some (ascii ''x/y'')"
      "Some (ascii ''q=1'')" _ "[]" "[]" blank_uri, OF _ _ _ _ _ refl]
  by (simp add: no_tls_def uri_schemes_def scheme_enabled_def parts_ok_def plain_host_def bad_port_def dec_value_def isdigit_def
      uri_text_def port_text_def path_text_def query_text_def ascii_def) blast

text \<open>A URI with a query directly behind the host, such as \<open>coap://host?x=1\<close>, which RFC 3986
  allows, is refused with -1: without a path or a port the parser looks for the question mark at the start of the host.\<close>

theorem query_needs_path:
  assumes "e \<in> set uri_schemes" "scheme_enabled cfg (info_scheme e)" "\<not> proxy_only e" "plain_host host"
    and str: "str = pre @ uri_text (info_name e) host None None (Some query) @ post"
  shows "\<exists>uri. coap_split_uri cfg str (Some (length pre)) (length (uri_text (info_name e) host None None (Some query))) uri0 =
    Some (-1, uri)"
proof -
  let ?head = "pre @ info_name e @ [0x3A, 0x2F, 0x2F]"
  obtain c h where h: "host = c # h" "c \<noteq> 0x3F"
    using assms(4) by (cases host) (auto simp: plain_host_def)
  have str1: "str = (?head @ host) @ 0x3F # query @ post"
    by (simp add: str uri_text_def port_text_def path_text_def query_text_def)
  have parts: "parts_ok host None None" using assms(4) by (simp add: parts_ok_def)
  have "c_load str (length (?head @ host)) = Some 0x3F" unfolding str1 by (rule c_load_behind(1))
  then have "prefix_at str (length (?head @ host)) [0x2F] = Some False"
    by (simp del: length_append)
  moreover have "prefix_at str (length ?head) [0x3F] = Some False"
  proof -
    have "str = ?head @ c # h @ 0x3F # query @ post" unfolding str1 h(1) by simp
    then have "c_load str (length ?head) = Some c" using c_load_behind(1) by metis
    with h(2) show ?thesis by (simp del: length_append)
  qed
  ultimately have "split_rest str (length ?head) (length (?head @ host)) (length (query_text (Some query))) uri = Some (-1, uri)"
    for uri by (simp add: split_rest_def query_text_def del: prefix_at.simps)
  with split_uri_stages [OF assms(1,2) disjI2 [OF assms(3)] parts str refl refl refl, where chk = COAP_URI_CHECK_URI and old = uri0] show ?thesis
    unfolding coap_split_uri_def by (simp add: bad_port_def port_text_def path_text_def)
qed

theorem query_needs_path_witness:
  "\<exists>uri. coap_split_uri no_tls (ascii ''coap://a?x'') (Some 0) (length (ascii ''coap://a?x'')) blank_uri = Some (-1, uri)"
  using query_needs_path [of "hd uri_schemes" no_tls "ascii ''a''" _ "[]" "ascii ''x''" "[]" blank_uri, OF _ _ _ _ refl]
  by (simp add: uri_schemes_def scheme_enabled_def plain_host_def uri_text_def port_text_def path_text_def query_text_def ascii_def)

text \<open>The proxy functions do not accept the schemes that exist for proxies: a URI that starts with
  \<open>http://\<close> or \<open>https://\<close> is refused with -1 by \<open>coap_split_uri\<close> and by
  \<open>coap_split_proxy_uri\<close>, in every build, although the table of schemes lists both.\<close>

theorem proxy_refuses_http:
  assumes "e \<in> set uri_schemes" "info_scheme e \<in> {COAP_URI_SCHEME_HTTP, COAP_URI_SCHEME_HTTPS}"
    and str: "str = pre @ info_name e @ [0x3A, 0x2F, 0x2F] @ rest"
  shows "\<exists>uri. coap_split_uri_sub cfg chk str (Some (length pre)) (length (info_name e) + 3 + n) uri0 = Some (-1, uri)"
proof -
  note names = scheme_names [OF assms(1)]
  obtain c cs where name: "info_name e = c # cs" "c \<noteq> 0x2F" using names(3,4) by (cases "info_name e") auto
  have slash: "prefix_at str (length pre) [0x2F] = Some False"
    unfolding str name(1) using name(2) by simp
  have "find_scheme str (length pre) (length (info_name e)) uri_schemes = Some (Some e)"
    using find_scheme_find [of str "length pre" "length (info_name e)" "info_name e" uri_schemes] names(1)
    by (simp add: str c_slice_def)
  moreover have "\<not> scheme_enabled cfg (info_scheme e)" using assms(2) by (auto simp: scheme_enabled_def)
  ultimately have "\<exists>uri. split_scheme cfg chk str (length pre) (length (info_name e) + 3 + n) blank_uri = Some (Stop (-1) uri)"
    using find_separator_to [OF names(2), of pre rest n] by (auto simp: split_scheme_def str Let_def)
  with slash show ?thesis by (auto simp: coap_split_uri_sub_def scan_next_def)
qed

theorem proxy_refuses_http_witness:
  "\<exists>uri. coap_split_uri_sub no_tls COAP_URI_CHECK_PROXY (ascii ''http://a/b'') (Some 0) 10 blank_uri = Some (-1, uri)"
  using proxy_refuses_http [of "uri_schemes ! 4" _ "[]" "ascii ''a/b''" no_tls COAP_URI_CHECK_PROXY 3 blank_uri, OF _ _ refl]
  by (simp add: uri_schemes_def ascii_def)

end
