(* ===== verification/Coap_Uri_Get.thy ===== *)
theory Coap_Uri_Get
  imports Coap_Uri_Parse
begin

unbundle bit_operations_syntax

text \<open>
  Back from options to text, in \<open>libcoap/src/coap_uri.c\<close>: \<open>coap_get_uri_path\<close> and
  \<open>coap_get_query\<close> walk twice through the options of a message, first to compute the length of the escaped text,
  then to write it into a new string.
\<close>

section \<open>Escaping\<close>

definition COAP_OPTION_URI_HOST :: u16 where "COAP_OPTION_URI_HOST = 3"
definition COAP_OPTION_URI_PORT :: u16 where "COAP_OPTION_URI_PORT = 7"
definition COAP_OPTION_URI_PATH :: u16 where "COAP_OPTION_URI_PATH = 11"
definition COAP_OPTION_URI_QUERY :: u16 where "COAP_OPTION_URI_QUERY = 15"

definition is_unescaped_in_path :: "u8 \<Rightarrow> bool" where
  "is_unescaped_in_path c \<longleftrightarrow>
     0x41 \<le> c \<and> c \<le> 0x5A \<or> 0x61 \<le> c \<and> c \<le> 0x7A \<or> 0x30 \<le> c \<and> c \<le> 0x39 \<or>
     c \<in> set (ascii ''-._~!$'') \<or> c = 0x27 \<or> c \<in> set (ascii ''()*+,;=:@&'')"

definition is_unescaped_in_query :: "u8 \<Rightarrow> bool" where
  "is_unescaped_in_query c \<longleftrightarrow> is_unescaped_in_path c \<or> c = 0x2F \<or> c = 0x3F"

definition hex :: bytes where
  "hex = ascii ''0123456789ABCDEF''"

text \<open>The loops over the \<open>n\<close> bytes of an option value; \<open>plain\<close> is one of the two tests above.\<close>

fun escaped_length :: "(u8 \<Rightarrow> bool) \<Rightarrow> bytes \<Rightarrow> nat \<Rightarrow> nat \<Rightarrow> nat \<Rightarrow> nat option" where
  "escaped_length plain m seg 0 len = Some len"
| "escaped_length plain m seg (Suc n) len = do {
     c \<leftarrow> c_load m seg;
     escaped_length plain m (seg + 1) n (if plain c then len + 1 else len + 3)
   }"

fun put_escaped :: "(u8 \<Rightarrow> bool) \<Rightarrow> bytes \<Rightarrow> nat \<Rightarrow> nat \<Rightarrow> bytes \<times> nat \<Rightarrow> (bytes \<times> nat) option" where
  "put_escaped plain m seg 0 st = Some st"
| "put_escaped plain m seg (Suc n) (out, s) = do {
     c \<leftarrow> c_load m seg;
     if plain c then do {
       out \<leftarrow> c_store out s c;
       put_escaped plain m (seg + 1) n (out, s + 1)
     }
     else do {
       out \<leftarrow> c_store out s 0x25;
       h \<leftarrow> c_load hex (unat (drop_bit 4 c));
       out \<leftarrow> c_store out (s + 1) h;
       l \<leftarrow> c_load hex (unat (c AND 0x0F));
       out \<leftarrow> c_store out (s + 2) l;
       put_escaped plain m (seg + 1) n (out, s + 3)
     }
   }"

section \<open>The two passes\<close>

text \<open>\<open>while ((q = coap_option_next(&opt_iter)))\<close>\<close>

partial_function (option) each_option ::
  "bytes \<Rightarrow> (nat \<Rightarrow> 'd \<Rightarrow> 'd option) \<Rightarrow> coap_opt_iterator \<Rightarrow> 'd \<Rightarrow> 'd option" where
  "each_option m f oi d = do {
     (q, oi) \<leftarrow> coap_option_next m oi;
     case q of None \<Rightarrow> Some d | Some p \<Rightarrow> do { d \<leftarrow> f p d; each_option m f oi d }
   }"

text \<open>
  \<open>seg_len\<close> is an \<open>uint16_t\<close>. The value of the option may be the null pointer, which must not be read.
\<close>

definition option_segment :: "bytes \<Rightarrow> nat \<Rightarrow> (nat \<times> nat) option" where
  "option_segment m q = do {
     l \<leftarrow> coap_opt_length m q;
     v \<leftarrow> coap_opt_value m q;
     let seg_len = unat (word_of_nat l :: u16);
     case v of
       Accepted seg \<Rightarrow> Some (seg, seg_len)
     | Rejected \<Rightarrow> if seg_len = 0 then Some (0, 0) else None
   }"

definition add_length :: "(u8 \<Rightarrow> bool) \<Rightarrow> bytes \<Rightarrow> nat \<Rightarrow> nat \<Rightarrow> nat option" where
  "add_length plain m q len = do {
     (seg, seg_len) \<leftarrow> option_segment m q;
     len \<leftarrow> escaped_length plain m seg seg_len len;
     Some (len + 1)
   }"

text \<open>The iterator over the options with one number, as both passes set it up.\<close>

definition number_iterator :: "coap_pdu \<Rightarrow> u16 \<Rightarrow> coap_opt_iterator option" where
  "number_iterator pdu number = do {
     (_, f) \<leftarrow> coap_option_filter_set coap_option_filter_clear number;
     Some (snd (coap_option_iterator_init pdu (Some f)))
   }"

text \<open>In the path a slash goes in front of every segment but the first (\<open>n\<close> counts them).\<close>

definition put_path_segment :: "bytes \<Rightarrow> nat \<Rightarrow> bytes \<times> nat \<times> nat \<Rightarrow> (bytes \<times> nat \<times> nat) option" where
  "put_path_segment m q = (\<lambda>(out, s, n). do {
     (out, s) \<leftarrow> (if n \<noteq> 0 then do { out \<leftarrow> c_store out s 0x2F; Some (out, s + 1) } else Some (out, s));
     (seg, seg_len) \<leftarrow> option_segment m q;
     (out, s) \<leftarrow> put_escaped is_unescaped_in_path m seg seg_len (out, s);
     Some (out, s, n + 1)
   })"

text \<open>In the query the ampersand is written when something has been written before.\<close>

definition put_query_segment :: "bytes \<Rightarrow> nat \<Rightarrow> bytes \<times> nat \<Rightarrow> (bytes \<times> nat) option" where
  "put_query_segment m q = (\<lambda>(out, s). do {
     (out, s) \<leftarrow> (if s \<noteq> 0 then do { out \<leftarrow> c_store out s 0x26; Some (out, s + 1) } else Some (out, s));
     (seg, seg_len) \<leftarrow> option_segment m q;
     put_escaped is_unescaped_in_query m seg seg_len (out, s)
   })"

text \<open>The result is \<open>None\<close> for the null pointer.\<close>

definition coap_get_query :: "allocator \<Rightarrow> coap_pdu \<Rightarrow> coap_string option option" where
  "coap_get_query alloc request = do {
     oi \<leftarrow> number_iterator request COAP_OPTION_URI_QUERY;
     len \<leftarrow> each_option (mem request) (add_length is_unescaped_in_query (mem request)) oi 0;
     let len = (if 0 < len then len - 1 else len);
     if 0 < len then do {
       query \<leftarrow> coap_new_string alloc len;
       case query of
         None \<Rightarrow> Some None
       | Some str \<Rightarrow> do {
           (out, _) \<leftarrow> each_option (mem request) (put_query_segment (mem request)) oi (str_bytes str, 0);
           Some (Some (str\<lparr>str_length := len, str_bytes := out\<rparr>))
         }
     }
     else Some None
   }"

definition path_of_proxy_uri :: "uri_support \<Rightarrow> allocator \<Rightarrow> bytes \<Rightarrow> nat \<Rightarrow> coap_string option option" where
  "path_of_proxy_uri cfg alloc m q = do {
     v \<leftarrow> coap_opt_value m q;
     l \<leftarrow> coap_opt_length m q;
     (r, uri) \<leftarrow> coap_split_proxy_uri cfg m (case v of Rejected \<Rightarrow> None | Accepted p \<Rightarrow> Some p) l blank_uri;
     if r < 0 then Some None
     else do {
       path \<leftarrow> coap_new_string alloc (sc_length (uri_path uri));
       case path of
         None \<Rightarrow> Some None
       | Some str \<Rightarrow> do {
           bs \<leftarrow> (case sc_s (uri_path uri) of None \<Rightarrow> Some [] | Some p \<Rightarrow> c_slice m p (sc_length (uri_path uri)));
           out \<leftarrow> c_blit (str_bytes str) 0 bs;
           Some (Some (str\<lparr>str_bytes := out\<rparr>))
         }
     }
   }"

definition coap_get_uri_path :: "uri_support \<Rightarrow> allocator \<Rightarrow> coap_pdu \<Rightarrow> coap_string option option" where
  "coap_get_uri_path cfg alloc request = do {
     (q, _) \<leftarrow> coap_check_option request COAP_OPTION_PROXY_URI;
     case q of
       Some p \<Rightarrow> path_of_proxy_uri cfg alloc (mem request) p
     | None \<Rightarrow> do {
         oi \<leftarrow> number_iterator request COAP_OPTION_URI_PATH;
         len \<leftarrow> each_option (mem request) (add_length is_unescaped_in_path (mem request)) oi 0;
         let len = (if 0 < len then len - 1 else len);
         path \<leftarrow> coap_new_string alloc len;
         case path of
           None \<Rightarrow> Some None
         | Some str \<Rightarrow> do {
             (out, _) \<leftarrow> each_option (mem request) (put_path_segment (mem request)) oi (str_bytes str, 0, 0);
             Some (Some (str\<lparr>str_length := len, str_bytes := out\<rparr>))
           }
       }
   }"

end
