(* ===== verification/Coap_Uri_Roundtrip.thy ===== *)
theory Coap_Uri_Roundtrip
  imports Coap_Uri_Get Coap_Revise
begin

unbundle bit_operations_syntax

text \<open>
  What the getters of \<open>Coap_Uri_Get\<close> return. A pass over the options with one number is an instance of the locale
  \<open>option_sink\<close>: each value is handed to an operation that keeps a relation between its state and
  the values so far. With the three instances the string of a path and of a query is computed; splitting the
  path gives the options back, and a query with empty elements at its front is shown to be wrong.
\<close>

section \<open>Reading an option of a message\<close>

lemma high_nibble_push: "(b :: u8) AND 0xF0 = push_bit 4 (drop_bit 4 (b AND 0xF0))"
  by (rule word_eqI_bits) (simp add: bit_positions bit_simps)

lemma high_nibble_cases:
  assumes "unat (drop_bit 4 ((b :: u8) AND 0xF0)) = ext_nibble d"
  shows "b AND 0xF0 \<noteq> 0xF0" "b AND 0xF0 = 0xE0 \<longleftrightarrow> 269 \<le> d" "b AND 0xF0 = 0xD0 \<longleftrightarrow> 13 \<le> d \<and> d < 269"
proof -
  have w: "drop_bit 4 (b AND 0xF0) = word_of_nat (ext_nibble d)" using assms by (metis of_nat_unat_ucast ucast_id)
  have "b AND 0xF0 = push_bit 4 (word_of_nat (ext_nibble d))"
    using high_nibble_push [of b] unfolding w .
  then have "unat (b AND 0xF0) = 16 * ext_nibble d"
    using ext_nibble_less [of d] by (simp add: push_bit_eq_mult unat_word_ariths unat_of_nat_small)
  then show "b AND 0xF0 \<noteq> 0xF0" "b AND 0xF0 = 0xE0 \<longleftrightarrow> 269 \<le> d" "b AND 0xF0 = 0xD0 \<longleftrightarrow> 13 \<le> d \<and> d < 269"
    by (auto simp: word_unat_eq_iff ext_nibble_def split: if_splits)
qed

lemma low_nibble_cases:
  assumes "unat ((b :: u8) AND 0x0F) = ext_nibble n"
  shows "b AND 0x0F \<noteq> 0x0F" "b AND 0x0F = 0x0E \<longleftrightarrow> 269 \<le> n" "b AND 0x0F = 0x0D \<longleftrightarrow> 13 \<le> n \<and> n < 269"
  using assms by (auto simp: word_unat_eq_iff ext_nibble_def split: if_splits)

lemma c_load_next:
  assumes "m = a @ b @ c" "p = length a" "i < length b"
  shows "c_load m (p + i) = Some (b ! i)"
  using assms by (simp add: c_load_def nth_append)

lemma accessors_header:
  assumes "n < 65805" and m: "m = pre @ opt_header d n @ rest"
  shows "coap_opt_length m (length pre) = Some n"
    and "coap_opt_value m (length pre) = Some (Accepted (length pre + length (opt_header d n)))"
proof -
  define b :: u8 where b: "b = word_of_nat (16 * ext_nibble d + ext_nibble n)"
  note hi = high_nibble_cases [OF header_byte_nibbles(1) [OF b]]
  note lo = low_nibble_cases [OF header_byte_nibbles(2) [OF b]]
  have m': "m = pre @ b # ext_bytes d @ ext_bytes n @ rest" by (simp add: m opt_header_def b)
  have first: "c_load m (length pre) = Some b" unfolding m' by simp
  show "coap_opt_value m (length pre) = Some (Accepted (length pre + length (opt_header d n)))"
    using first hi lo by (simp add: coap_opt_value_def Let_def length_opt_header length_ext_bytes)
  define o1 where "o1 = length pre + 1 + length (ext_bytes d)"
  have o1: "(if b AND 0xF0 = 0xE0 then length pre + 3 else if b AND 0xF0 = 0xD0 then length pre + 2 else length pre + 1) = o1"
    using hi by (simp add: o1_def length_ext_bytes)
  have split: "m = (pre @ b # ext_bytes d) @ ext_bytes n @ rest" "o1 = length (pre @ b # ext_bytes d)"
    by (simp_all add: m' o1_def)
  note load = c_load_next [OF split]
  consider "n < 13" | "13 \<le> n" "n < 269" | "269 \<le> n" by linarith
  then show "coap_opt_length m (length pre) = Some n"
  proof cases
    case 1
    then show ?thesis
      using first hi o1 header_byte_nibbles(2) [OF b] by (simp add: coap_opt_length_def Let_def ext_nibble_def)
  next
    case 2
    then show ?thesis
      using first hi o1 header_byte_nibbles(2) [OF b] load [of 0]
      by (simp add: coap_opt_length_def Let_def ext_nibble_def ext_bytes_def unat_of_nat_small del: of_nat_diff)
  next
    case 3
    let ?q = "(n - 269) div 256"
    have q: "?q < 256" "(n - 269) mod 256 + 256 * ?q = n - 269"
      using 3 assms(1) by auto
    have "unat (word_of_nat ?q :: u8) * 256 + 269 + unat (word_of_nat (n - 269) :: u8) = n"
      using q 3 by (simp add: unsigned_of_nat take_bit_eq_mod del: of_nat_diff)
    then show ?thesis
      using 3 first hi o1 header_byte_nibbles(2) [OF b] load [of 0] load [of 1]
      by (simp add: coap_opt_length_def Let_def ext_nibble_def ext_bytes_def del: of_nat_diff)
  qed
qed

text \<open>The value \<open>v\<close> of the option at \<open>p\<close>, as the accessors find it.\<close>

definition value_at :: "bytes \<Rightarrow> nat \<Rightarrow> bytes \<Rightarrow> bool" where
  "value_at m p v \<longleftrightarrow> (\<exists>q. coap_opt_length m p = Some (length v) \<and> coap_opt_value m p = Some (Accepted q) \<and>
     (\<exists>a b. m = a @ v @ b \<and> length a = q))"

lemma iter_at_value:
  assumes "iter_at m oi p prev ((k, v) # os) tail"
  shows "value_at m p v"
proof -
  obtain pre slack where m: "m = pre @ opt_header (k - prev) (length v) @ (v @ encode_opts k os @ tail @ slack)"
    and p: "length pre = p"
    using assms by (auto simp: iter_at_def)
  have "length v < 65805" using assms by (simp add: iter_at_def)
  note acc = accessors_header [OF this m, unfolded p]
  have "m = (pre @ opt_header (k - prev) (length v)) @ v @ encode_opts k os @ tail @ slack"
    "length (pre @ opt_header (k - prev) (length v)) = p + length (opt_header (k - prev) (length v))"
    using m p by simp_all
  with acc show ?thesis unfolding value_at_def by blast
qed

section \<open>A pass over the options with one number\<close>

lemma next_loop_here:
  assumes "iter_at m oi p prev ((j, u) # os) tail" "it_filtered oi" "key < 65536"
    "\<And>j. coap_option_filter_get (it_filter oi) j = Some (j = word_of_nat key, it_filter oi)"
  shows "next_loop m oi = (if j = key then Some (Some p, step_iter oi prev (j, u)) else next_loop m (step_iter oi prev (j, u)))"
proof -
  have j: "it_next oi = p" "it_number oi = word_of_nat prev" "prev \<le> j" "j < 65536"
    using assms(1) by (auto simp: iter_at_def)
  have same: "word_of_nat j = (word_of_nat key :: u16) \<longleftrightarrow> j = key"
    using number_eq_iff [OF j(4) assms(3)] .
  show ?thesis
    using iter_at_parse(1,2) [OF assms(1)] j assms(2,4) next_number [of prev j] same
    by (subst next_loop.simps) (simp add: Let_def step_iter_def)
qed

lemma next_loop_end:
  assumes "iter_at m oi p prev [] tail"
  shows "\<exists>oi'. next_loop m oi = Some (None, oi')"
proof -
  have "coap_opt_parse m p (it_length oi) = Some Rejected"
  proof (cases tail)
    case Nil
    with assms show ?thesis by (simp add: iter_at_def coap_opt_parse_def)
  next
    case (Cons b bs)
    then have "c_load m p = Some COAP_PAYLOAD_START"
      using assms by (auto simp: iter_at_def c_load_def nth_append)
    then show ?thesis by (rule coap_opt_parse_marker)
  qed
  then show ?thesis using assms by (subst next_loop.simps) (simp add: iter_at_def)
qed

text \<open>The rest of a pass, once the iterator has been asked for the next option.\<close>

definition resume_pass :: "bytes \<Rightarrow> (nat \<Rightarrow> 'd \<Rightarrow> 'd option) \<Rightarrow> (nat option \<times> coap_opt_iterator) option \<Rightarrow> 'd \<Rightarrow> 'd option" where
  "resume_pass m step r d = do { (q, oi) \<leftarrow> r; case q of None \<Rightarrow> Some d | Some p \<Rightarrow> do { d \<leftarrow> step p d; each_option m step oi d } }"

lemma each_option_pass: "each_option m step oi d = resume_pass m step (coap_option_next m oi) d"
  by (subst each_option.simps) (simp add: resume_pass_def)

definition values_of :: "nat \<Rightarrow> options \<Rightarrow> bytes list" where
  "values_of key os = map snd (filter (\<lambda>o1. fst o1 = key) os)"

lemma values_of_simps [simp]:
  "values_of key [] = []"
  "values_of key ((k, v) # os) = (if k = key then v # values_of key os else values_of key os)"
  by (simp_all add: values_of_def)

locale option_sink =
  fixes m :: bytes
    and step :: "nat \<Rightarrow> 'd \<Rightarrow> 'd option"
    and holds :: "bytes list \<Rightarrow> 'd \<Rightarrow> bool"
    and fits :: "bytes list \<Rightarrow> bool"
  assumes takes: "value_at m p v \<Longrightarrow> fits (vs @ [v]) \<Longrightarrow> holds vs d \<Longrightarrow> \<exists>d'. step p d = Some d' \<and> holds (vs @ [v]) d'"
    and fits_prefix: "fits (vs @ ws) \<Longrightarrow> fits vs"
begin

lemma resume_holds:
  assumes "iter_at m oi p prev os tail" "it_filtered oi" "key < 65536"
    "\<And>j. coap_option_filter_get (it_filter oi) j = Some (j = word_of_nat key, it_filter oi)"
    "fits (vs @ values_of key os)" "holds vs d"
  shows "\<exists>d'. resume_pass m step (next_loop m oi) d = Some d' \<and> holds (vs @ values_of key os) d'"
  using assms
proof (induction os arbitrary: oi p prev vs d)
  case Nil
  then show ?case using next_loop_end [OF Nil.prems(1)] by (auto simp: resume_pass_def)
next
  case (Cons y os)
  obtain j u where y: "y = (j, u)" by (cases y)
  have at: "iter_at m oi p prev ((j, u) # os) tail" using Cons.prems(1) y by simp
  let ?oi = "step_iter oi prev (j, u)"
  note here = next_loop_here [OF at Cons.prems(2-4)]
  note at' = iter_at_step [OF at]
  have flt: "it_filtered ?oi" "it_filter ?oi = it_filter oi" using Cons.prems(2) by (simp_all add: step_iter_def)
  note IH = Cons.IH [OF at' flt(1) Cons.prems(3), unfolded flt(2), OF Cons.prems(4)]
  show ?case
  proof (cases "j = key")
    case False
    with here IH [OF _ Cons.prems(6)] Cons.prems(5) y show ?thesis by simp
  next
    case True
    then have "fits (vs @ [u])" using fits_prefix [of "vs @ [u]" "values_of key os"] Cons.prems(5) y by simp
    then obtain d1 where d1: "step p d = Some d1" "holds (vs @ [u]) d1"
      using takes [OF iter_at_value [OF at] _ Cons.prems(6)] by auto
    have eq: "resume_pass m step (next_loop m oi) d = resume_pass m step (coap_option_next m ?oi) d1"
      using here True d1(1) by (simp add: resume_pass_def each_option_pass)
    show ?thesis
    proof (cases os)
      case Nil
      with at' have "coap_option_next m ?oi = Some (None, ?oi\<lparr>it_bad := True\<rparr>)"
        using iter_at_finished by blast
      with eq d1 True y Nil show ?thesis by (simp add: resume_pass_def)
    next
      case (Cons z zs)
      obtain k w where "z = (k, w)" by (cases z)
      with at' Cons have "opt_finished m ?oi = Some (False, ?oi)" using iter_at_not_finished by blast
      then have "coap_option_next m ?oi = next_loop m ?oi" by (simp add: coap_option_next_def)
      with eq IH [OF _ d1(2)] Cons.prems(5) True y show ?thesis by simp
    qed
  qed
qed

lemma pass_holds:
  assumes "represents pdu tok os pay" "m = mem pdu" "key < 65536" "fits (values_of key os)" "holds [] d"
  shows "\<exists>oi d'. number_iterator pdu (word_of_nat key) = Some oi \<and> each_option m step oi d = Some d' \<and>
    holds (values_of key os) d'"
proof -
  obtain f where f: "coap_option_filter_set coap_option_filter_clear (word_of_nat key) = Some (True, f)"
    "\<forall>j. coap_option_filter_get f j = Some (j = word_of_nat key, f)"
    using filter.singleton by blast
  let ?oi = "snd (coap_option_iterator_init pdu (Some f))"
  have it: "number_iterator pdu (word_of_nat key) = Some ?oi" using f(1) by (simp add: number_iterator_def)
  show ?thesis
  proof (cases "os = []")
    case True
    have "\<exists>oi'. coap_option_next m ?oi = Some (None, oi')"
    proof (cases "pay = []")
      case True
      with \<open>os = []\<close> iterator_init_bad assms(1) show ?thesis by blast
    next
      case False
      then have "iter_at m ?oi (length (token_bytes tok)) 0 [] (payload_bytes pay)"
        using iterator_init_at(2) [OF assms(1)] True assms(2) by simp
      from iter_at_finished [OF this] show ?thesis by blast
    qed
    with it True assms(5) show ?thesis by (auto simp: each_option_pass resume_pass_def)
  next
    case False
    then obtain k v os' where os: "os = (k, v) # os'" by (cases os) auto
    note init = iterator_init_at [OF assms(1), of "Some f", folded assms(2)]
    have at: "iter_at m ?oi (length (token_bytes tok)) 0 os (payload_bytes pay)" using init(2) False by simp
    then have "opt_finished m ?oi = Some (False, ?oi)" unfolding os by (rule iter_at_not_finished)
    then have "coap_option_next m ?oi = next_loop m ?oi" by (simp add: coap_option_next_def)
    moreover have "\<exists>d'. resume_pass m step (next_loop m ?oi) d = Some d' \<and> holds ([] @ values_of key os) d'"
      using init(3,4) False f(2) assms(3-5) by (intro resume_holds [OF at]) auto
    ultimately show ?thesis using it by (simp add: each_option_pass)
  qed
qed

end
section \<open>The escaped text\<close>

definition hex_char :: "u8 \<Rightarrow> u8" where
  "hex_char x = hex ! unat x"

definition escape_char :: "(u8 \<Rightarrow> bool) \<Rightarrow> u8 \<Rightarrow> bytes" where
  "escape_char plain c = (if plain c then [c] else [0x25, hex_char (drop_bit 4 c), hex_char (c AND 0x0F)])"

definition escape :: "(u8 \<Rightarrow> bool) \<Rightarrow> bytes \<Rightarrow> bytes" where
  "escape plain v = concat (map (escape_char plain) v)"

lemma escape_simps [simp]:
  "escape plain [] = []" "escape plain (c # v) = escape_char plain c @ escape plain v"
  by (simp_all add: escape_def)

lemma length_hex [simp]: "length hex = 16"
  by (simp add: hex_def ascii_def)

lemma nibbles_less: "unat (drop_bit 4 (c :: u8)) < 16" "unat ((c :: u8) AND 0x0F) < 16"
  using unsigned_less [of c, where ?'a = nat] by (simp_all add: unat_drop_bit unat_low_nibble)

lemma hex_load [simp]:
  "c_load hex (unat (drop_bit 4 (c :: u8))) = Some (hex_char (drop_bit 4 c))"
  "c_load hex (unat ((c :: u8) AND 0x0F)) = Some (hex_char (c AND 0x0F))"
  using nibbles_less [of c] by (simp_all add: c_load_def hex_char_def)

lemma escaped_length_eq:
  "escaped_length plain (a @ v @ b) (length a) (length v) len = Some (len + length (escape plain v))"
proof (induction v arbitrary: a len)
  case (Cons c v)
  then show ?case using Cons.IH [of "a @ [c]"] by (simp add: escape_char_def)
qed simp

lemma c_store_behind [simp]:
  "c_store (pre @ c # cs) (length pre) x = Some (pre @ x # cs)"
  "c_store (pre @ c # d # cs) (Suc (length pre)) x = Some (pre @ c # x # cs)"
  "c_store (pre @ c # d # e # cs) (Suc (Suc (length pre))) x = Some (pre @ c # d # x # cs)"
  by (simp_all add: c_store_def list_update_append)

lemma put_escaped_eq:
  assumes "length old = length (escape plain v)"
  shows "put_escaped plain (a @ v @ b) (length a) (length v) (o1 @ old @ o2, length o1) =
    Some (o1 @ escape plain v @ o2, length (o1 @ escape plain v))"
  using assms
proof (induction v arbitrary: a o1 old)
  case (Cons c v)
  show ?case
  proof (cases "plain c")
    case True
    then obtain x old' where "old = x # old'" using Cons.prems by (cases old) (auto simp: escape_char_def)
    then show ?thesis
      using Cons.IH [of old' "a @ [c]" "o1 @ [c]"] Cons.prems True by (simp add: escape_char_def)
  next
    case False
    let ?h = "hex_char (drop_bit 4 c)" and ?l = "hex_char (c AND 0x0F)"
    have "3 \<le> length old" using Cons.prems False by (simp add: escape_char_def)
    then obtain x y z old' where "old = x # y # z # old'"
      by (cases old; cases "tl old"; cases "tl (tl old)") auto
    then show ?thesis
      using Cons.IH [of old' "a @ [c]" "o1 @ [0x25, ?h, ?l]"] Cons.prems False
      by (simp add: escape_char_def numeral_2_eq_2 numeral_3_eq_3)
  qed
qed simp

lemma option_segment_at:
  assumes "value_at m p v" "length v < 65536"
  shows "\<exists>a b. m = a @ v @ b \<and> option_segment m p = Some (length a, length v)"
proof -
  obtain q a b where "coap_opt_length m p = Some (length v)" "coap_opt_value m p = Some (Accepted q)"
    "m = a @ v @ b" "length a = q"
    using assms(1) unfolding value_at_def by blast
  then show ?thesis using assms(2) by (intro exI [of _ a] exI [of _ b]) (simp add: option_segment_def)
qed

section \<open>The passes of the getters\<close>

definition short :: "bytes list \<Rightarrow> bool" where
  "short vs \<longleftrightarrow> (\<forall>v \<in> set vs. length v < 65536)"

text \<open>The value of \<open>length\<close> behind the first pass, before one is subtracted.\<close>

definition needed :: "(u8 \<Rightarrow> bool) \<Rightarrow> bytes list \<Rightarrow> nat" where
  "needed plain vs = sum_list (map (\<lambda>v. length (escape plain v) + 1) vs)"

lemma needed_simps [simp]:
  "needed plain [] = 0" "needed plain (v # vs) = length (escape plain v) + 1 + needed plain vs"
  "needed plain (vs @ ws) = needed plain vs + needed plain ws"
  by (simp_all add: needed_def)

interpretation measuring: option_sink m "add_length plain m" "\<lambda>vs len. len = needed plain vs" short
  for m plain
proof unfold_locales
  fix p v vs len
  assume "value_at m p v" "short (vs @ [v])" "len = needed plain vs"
  then show "\<exists>d'. add_length plain m p len = Some d' \<and> d' = needed plain (vs @ [v])"
    using option_segment_at [of m p v] by (auto simp: add_length_def short_def escaped_length_eq)
qed (auto simp: short_def)

text \<open>The segments with a separator between them.\<close>

fun join :: "u8 \<Rightarrow> bytes list \<Rightarrow> bytes" where
  "join d [] = []"
| "join d [v] = v"
| "join d (v # vs) = v @ d # join d vs"

lemma join_snoc: "join d (vs @ [v]) = (if vs = [] then v else join d vs @ d # v)"
  by (induction d vs rule: join.induct) simp_all

lemma length_join: "vs \<noteq> [] \<Longrightarrow> Suc (length (join d (map (escape plain) vs))) = needed plain vs"
  by (induction vs rule: join.induct) simp_all

definition path_part_written :: "bytes \<Rightarrow> bytes list \<Rightarrow> bytes \<times> nat \<times> nat \<Rightarrow> bool" where
  "path_part_written out0 vs = (\<lambda>(out, s, n). n = length vs \<and>
     (let w = join 0x2F (map (escape is_unescaped_in_path) vs) in s = length w \<and> out = w @ drop s out0 \<and> s \<le> length out0))"

lemma put_path_segment_written:
  assumes "value_at m p v" "short (vs @ [v])" "needed is_unescaped_in_path (vs @ [v]) \<le> length out0" "path_part_written out0 vs d"
  shows "\<exists>d'. put_path_segment m p d = Some d' \<and> path_part_written out0 (vs @ [v]) d'"
proof -
  obtain out s n where d: "d = (out, s, n)" by (cases d) auto
  define w where "w = join 0x2F (map (escape is_unescaped_in_path) vs)"
  let ?e = "escape is_unescaped_in_path v"
  have w: "n = length vs" "s = length w" "out = w @ drop s out0" "s \<le> length out0"
    using assms(4) unfolding d path_part_written_def Let_def w_def prod.case by blast+
  have len: "vs \<noteq> [] \<Longrightarrow> Suc (length w) = needed is_unescaped_in_path vs" "vs = [] \<Longrightarrow> w = []"
    using length_join [of vs "0x2F" is_unescaped_in_path] by (simp_all add: w_def)
  obtain a b where seg: "m = a @ v @ b" "option_segment m p = Some (length a, length v)"
    using option_segment_at [OF assms(1)] assms(2) by (auto simp: short_def)
  define o1 where "o1 = (if vs = [] then [] else w @ [0x2F])"
  have o1: "length o1 + length ?e \<le> length out0" "join 0x2F (map (escape is_unescaped_in_path) (vs @ [v])) = o1 @ ?e"
    using assms(3) len by (auto simp: o1_def join_snoc simp flip: w_def)
  have out1: "(if n \<noteq> 0 then do { out \<leftarrow> c_store out s 0x2F; Some (out, s + 1) } else Some (out, s)) =
      Some (o1 @ drop (length o1) out0, length o1)"
  proof (cases "vs = []")
    case True
    with w len show ?thesis by (simp add: o1_def)
  next
    case False
    then have "s < length out0" using o1(1) w(2) by (simp add: o1_def)
    then have "drop s out0 = out0 ! s # drop (Suc s) out0" by (simp add: Cons_nth_drop_Suc)
    with False w(1) show ?thesis unfolding w(3) by (simp add: o1_def w(2))
  qed
  have "length ?e \<le> length (drop (length o1) out0)" using o1(1) by simp
  then obtain old o2 where o2: "drop (length o1) out0 = old @ o2" "length old = length ?e"
    by (rule split_list_at)
  then have rest: "o2 = drop (length (o1 @ ?e)) out0"
    by (metis append_eq_conv_conj drop_drop length_append add.commute)
  have "put_escaped is_unescaped_in_path m (length a) (length v) (o1 @ drop (length o1) out0, length o1) =
      Some (o1 @ ?e @ o2, length (o1 @ ?e))"
    unfolding o2(1) seg(1) by (rule put_escaped_eq [OF o2(2)])
  then have "put_path_segment m p d = Some (o1 @ ?e @ o2, length (o1 @ ?e), n + 1)"
    using out1 seg(2) by (simp add: d put_path_segment_def)
  then show ?thesis
    using w(1) o1 rest by (simp add: path_part_written_def Let_def)
qed

interpretation path_writing: option_sink m "put_path_segment m" "path_part_written out0"
    "\<lambda>vs. short vs \<and> needed is_unescaped_in_path vs \<le> length out0"
  for m out0
  by unfold_locales (use put_path_segment_written in \<open>auto simp: short_def\<close>)
section \<open>The path of a message\<close>

lemma get_uri_path_text:
  assumes "represents pdu tok os pay" "35 \<notin> fst ` set os" "short (values_of 11 os)"
    and "fresh_blocks alloc" "needed is_unescaped_in_path (values_of 11 os) + sizeof_coap_string + 1 < 2 ^ 32"
    and w: "w = join 0x2F (map (escape is_unescaped_in_path) (values_of 11 os))"
  shows "coap_get_uri_path cfg alloc pdu = Some (if alloc (word_of_nat (sizeof_coap_string + length w + 1)) = None then None
    else Some \<lparr>str_length = length w, str_bytes = w @ [0]\<rparr>)"
proof -
  define vs where "vs = values_of 11 os"
  have w_def: "w = join 0x2F (map (escape is_unescaped_in_path) vs)" using w by (simp add: vs_def)
  have check: "\<exists>oi. coap_check_option pdu COAP_OPTION_PROXY_URI = Some (None, oi)"
    using coap_check_option_finds [OF assms(1), of 35] assms(2) by (simp add: COAP_OPTION_PROXY_URI_def)
  obtain oi len where len: "number_iterator pdu COAP_OPTION_URI_PATH = Some oi"
    "each_option (mem pdu) (add_length is_unescaped_in_path (mem pdu)) oi 0 = Some len" "len = needed is_unescaped_in_path vs"
    using measuring.pass_holds [OF assms(1) refl, of 11 0, where plain = is_unescaped_in_path] assms(3) by (auto simp: vs_def COAP_OPTION_URI_PATH_def)
  have total: "(if 0 < len then len - 1 else len) = length w"
    using len(3) length_join [of vs "0x2F" is_unescaped_in_path] by (cases "vs = []") (auto simp: w_def)
  have bound: "length w + sizeof_coap_string + 1 < 2 ^ 32"
    using assms(5) len(3) total by (auto simp: vs_def split: if_splits)
  obtain r where r: "coap_new_string alloc (length w) = Some r"
    "\<forall>s. r = Some s \<longrightarrow> str_length s = length w \<and> length (str_bytes s) = length w + 1 \<and> str_bytes s ! length w = 0"
    using new_string_eq [OF assms(4) bound] by blast
  note null = new_string_null [OF r(1)]
  have front: "coap_get_uri_path cfg alloc pdu = (case r of None \<Rightarrow> Some None | Some str \<Rightarrow> do {
      (out, _) \<leftarrow> each_option (mem pdu) (put_path_segment (mem pdu)) oi (str_bytes str, 0, 0);
      Some (Some (str\<lparr>str_length := length w, str_bytes := out\<rparr>)) })"
    using check len(1,2) r(1) total by (auto simp: coap_get_uri_path_def)
  show ?thesis
  proof (cases r)
    case None
    with front null show ?thesis by simp
  next
    case (Some str)
    have size: "length (str_bytes str) = length w + 1" "str_bytes str ! length w = 0" using r(2) Some by simp_all
    have room: "needed is_unescaped_in_path vs \<le> length w + 1"
      using length_join [of vs "0x2F" is_unescaped_in_path] by (cases "vs = []") (auto simp: w_def)
    have zero: "drop (length w) (str_bytes str) = [0]"
      using size by (metis Cons_nth_drop_Suc Suc_eq_plus1 drop_all le_refl lessI)
    obtain n where out: "each_option (mem pdu) (put_path_segment (mem pdu)) oi (str_bytes str, 0, 0) =
        Some (w @ drop (length w) (str_bytes str), length w, n)"
      using path_writing.pass_holds [OF assms(1) refl, of 11 "str_bytes str" "(str_bytes str, 0, 0)"] len(1) assms(3) room size(1)
      by (auto simp: path_part_written_def w_def vs_def COAP_OPTION_URI_PATH_def Let_def)
    have "alloc (word_of_nat (sizeof_coap_string + length w + 1)) \<noteq> None" using null Some by simp
    then show ?thesis using front Some out zero by (simp add: vs_def)
  qed
qed

section \<open>The query of a message\<close>

text \<open>Empty elements at the front write nothing, not even a separator.\<close>

definition query_written :: "bytes list \<Rightarrow> bytes" where
  "query_written vs = join 0x26 (map (escape is_unescaped_in_query) (dropWhile (\<lambda>v. v = []) vs))"

lemma escape_empty [simp]: "escape plain v = [] \<longleftrightarrow> v = []"
  by (cases v) (simp_all add: escape_char_def)

lemma join_empty: "join d vs = [] \<longleftrightarrow> vs = [] \<or> vs = [[]]"
  by (induction d vs rule: join.induct) simp_all

lemma query_written_empty: "query_written vs = [] \<longleftrightarrow> (\<forall>v \<in> set vs. v = [])"
proof -
  have "hd (dropWhile (\<lambda>v. v = []) vs) \<noteq> []" "hd (dropWhile (\<lambda>v. v = []) vs) \<in> set vs"
    if "dropWhile (\<lambda>v. v = []) vs \<noteq> []"
    using hd_dropWhile [OF that] hd_in_set [OF that] by (auto dest: set_dropWhileD)
  then show ?thesis
    by (cases "dropWhile (\<lambda>v. v = []) vs") (auto simp: query_written_def join_empty dropWhile_eq_Nil_conv)
qed

lemma query_written_snoc:
  "query_written (vs @ [v]) = (if query_written vs = [] then escape is_unescaped_in_query v
     else query_written vs @ 0x26 # escape is_unescaped_in_query v)"
proof (cases "\<forall>u \<in> set vs. u = []")
  case True
  then have "query_written vs = []" by (simp add: query_written_empty)
  moreover have "dropWhile (\<lambda>v. v = []) (vs @ [v]) = dropWhile (\<lambda>v. v = []) [v]"
    using True by (simp add: dropWhile_append2)
  ultimately show ?thesis by (simp add: query_written_def)
next
  case False
  then have "query_written vs \<noteq> []" by (simp add: query_written_empty)
  moreover obtain u where "u \<in> set vs" "u \<noteq> []" using False by blast
  then have "dropWhile (\<lambda>v. v = []) (vs @ [v]) = dropWhile (\<lambda>v. v = []) vs @ [v]"
    by (rule dropWhile_append1)
  moreover have "dropWhile (\<lambda>v. v = []) vs \<noteq> []" using False by (simp add: dropWhile_eq_Nil_conv)
  ultimately show ?thesis by (simp add: query_written_def join_snoc)
qed

lemma query_written_length: "query_written vs \<noteq> [] \<Longrightarrow> Suc (length (query_written vs)) \<le> needed is_unescaped_in_query vs"
proof (induction vs rule: rev_induct)
  case (snoc v vs)
  then show ?case by (auto simp: query_written_snoc split: if_splits)
qed (simp add: query_written_def)

definition query_part_written :: "bytes \<Rightarrow> bytes list \<Rightarrow> bytes \<times> nat \<Rightarrow> bool" where
  "query_part_written out0 vs = (\<lambda>(out, s). s = length (query_written vs) \<and> s \<le> length out0 \<and>
     out = query_written vs @ drop s out0)"

lemma put_query_segment_written:
  assumes "value_at m p v" "short (vs @ [v])" "needed is_unescaped_in_query (vs @ [v]) \<le> length out0" "query_part_written out0 vs d"
  shows "\<exists>d'. put_query_segment m p d = Some d' \<and> query_part_written out0 (vs @ [v]) d'"
proof -
  obtain out s where d: "d = (out, s)" by (cases d) auto
  define w where "w = query_written vs"
  let ?e = "escape is_unescaped_in_query v"
  have w: "s = length w" "out = w @ drop s out0" "s \<le> length out0"
    using assms(4) unfolding d query_part_written_def w_def prod.case by blast+
  have len: "w \<noteq> [] \<Longrightarrow> Suc (length w) \<le> needed is_unescaped_in_query vs"
    using query_written_length [of vs] by (simp add: w_def)
  obtain a b where seg: "m = a @ v @ b" "option_segment m p = Some (length a, length v)"
    using option_segment_at [OF assms(1)] assms(2) by (auto simp: short_def)
  define o1 where "o1 = (if w = [] then [] else w @ [0x26])"
  have o1: "length o1 + length ?e \<le> length out0" "query_written (vs @ [v]) = o1 @ ?e"
    using assms(3) len by (auto simp: o1_def query_written_snoc simp flip: w_def)
  have out1: "(if s \<noteq> 0 then do { out \<leftarrow> c_store out s 0x26; Some (out, s + 1) } else Some (out, s)) =
      Some (o1 @ drop (length o1) out0, length o1)"
  proof (cases "w = []")
    case True
    with w show ?thesis by (simp add: o1_def)
  next
    case False
    then have "s < length out0" using o1(1) w(1) by (simp add: o1_def)
    then have "drop s out0 = out0 ! s # drop (Suc s) out0" by (simp add: Cons_nth_drop_Suc)
    with False show ?thesis unfolding w(2) by (simp add: o1_def w(1))
  qed
  have "length ?e \<le> length (drop (length o1) out0)" using o1(1) by simp
  then obtain old o2 where o2: "drop (length o1) out0 = old @ o2" "length old = length ?e"
    by (rule split_list_at)
  then have rest: "o2 = drop (length (o1 @ ?e)) out0"
    by (metis append_eq_conv_conj drop_drop length_append add.commute)
  have "put_escaped is_unescaped_in_query m (length a) (length v) (o1 @ drop (length o1) out0, length o1) =
      Some (o1 @ ?e @ o2, length (o1 @ ?e))"
    unfolding o2(1) seg(1) by (rule put_escaped_eq [OF o2(2)])
  then have "put_query_segment m p d = Some (o1 @ ?e @ o2, length (o1 @ ?e))"
    using out1 seg(2) by (simp add: d put_query_segment_def)
  then show ?thesis
    using o1 rest by (simp add: query_part_written_def)
qed

interpretation query_writing: option_sink m "put_query_segment m" "query_part_written out0"
    "\<lambda>vs. short vs \<and> needed is_unescaped_in_query vs \<le> length out0"
  for m out0
  by unfold_locales (use put_query_segment_written in \<open>auto simp: short_def\<close>)

text \<open>The block the string is put in, with the terminating zero.\<close>

definition string_area :: "bytes \<Rightarrow> nat \<Rightarrow> bytes" where
  "string_area block n = take n (drop sizeof_coap_string block) @ [0]"

lemma new_string_area:
  assumes "fresh_blocks alloc" "n + sizeof_coap_string + 1 < 2 ^ 32"
    and "alloc (word_of_nat (sizeof_coap_string + n + 1)) = Some block"
  shows "coap_new_string alloc n = Some (Some \<lparr>str_length = n, str_bytes = string_area block n\<rparr>)"
proof -
  obtain r where r: "coap_new_string alloc n = Some r"
    "\<forall>s. r = Some s \<longrightarrow> str_length s = n \<and> length (str_bytes s) = n + 1 \<and> str_bytes s ! n = 0"
    using new_string_eq [OF assms(1,2)] by blast
  have "length block = unat (word_of_nat (sizeof_coap_string + n + 1) :: u32)"
    using assms(1,3) by (simp only: fresh_blocks_def)
  also have "\<dots> = sizeof_coap_string + n + 1"
    using assms(2) by (intro unat_of_nat_small) simp
  finally have len: "length (drop sizeof_coap_string block) = n + 1" "sizeof_coap_string \<le> length block" by simp_all
  obtain u where "c_assert ((word_of_nat n + 1 :: u32) \<noteq> 0) = Some u"
    using r(1) unfolding coap_new_string_def bind_eq_Some_conv by blast
  then have "coap_new_string alloc n = Some (Some \<lparr>str_length = n, str_bytes = (drop sizeof_coap_string block)[n := 0]\<rparr>)"
    using assms(3) len unfolding coap_new_string_def by (simp add: c_store_def)
  also have "(drop sizeof_coap_string block)[n := 0] = string_area block n"
    using len by (simp add: string_area_def list_eq_iff_nth_eq nth_append nth_list_update less_Suc_eq)
  finally show ?thesis .
qed
lemma get_query_text:
  assumes "represents pdu tok os pay" "short (values_of 15 os)"
    and "fresh_blocks alloc" "needed is_unescaped_in_query (values_of 15 os) + sizeof_coap_string + 1 < 2 ^ 32"
  shows "coap_get_query alloc pdu = Some (let vs = values_of 15 os; len = needed is_unescaped_in_query vs - 1 in
    if len = 0 then None
    else case alloc (word_of_nat (sizeof_coap_string + len + 1)) of
      None \<Rightarrow> None
    | Some block \<Rightarrow> Some \<lparr>str_length = len,
        str_bytes = query_written vs @ drop (length (query_written vs)) (string_area block len)\<rparr>)"
proof -
  define vs where "vs = values_of 15 os"
  define len where "len = needed is_unescaped_in_query vs - 1"
  obtain oi len0 where len0: "number_iterator pdu COAP_OPTION_URI_QUERY = Some oi"
    "each_option (mem pdu) (add_length is_unescaped_in_query (mem pdu)) oi 0 = Some len0" "len0 = needed is_unescaped_in_query vs"
    using measuring.pass_holds [OF assms(1) refl, of 15 0, where plain = is_unescaped_in_query] assms(2)
    by (auto simp: vs_def COAP_OPTION_URI_QUERY_def)
  have total: "(if 0 < len0 then len0 - 1 else len0) = len" using len0(3) by (simp add: len_def)
  have front: "coap_get_query alloc pdu = (if 0 < len then do {
      query \<leftarrow> coap_new_string alloc len;
      case query of None \<Rightarrow> Some None | Some str \<Rightarrow> do {
        (out, _) \<leftarrow> each_option (mem pdu) (put_query_segment (mem pdu)) oi (str_bytes str, 0);
        Some (Some (str\<lparr>str_length := len, str_bytes := out\<rparr>)) } } else Some None)"
    using len0(1,2) total by (simp add: coap_get_query_def Let_def)
  show ?thesis unfolding Let_def vs_def [symmetric] len_def [symmetric]
  proof (cases "len = 0")
    case True
    with front show "coap_get_query alloc pdu = Some (if len = 0 then None
      else case alloc (word_of_nat (sizeof_coap_string + len + 1)) of None \<Rightarrow> None
        | Some block \<Rightarrow> Some \<lparr>str_length = len, str_bytes = query_written vs @ drop (length (query_written vs)) (string_area block len)\<rparr>)"
      by simp
  next
    case False
    have bound: "len + sizeof_coap_string + 1 < 2 ^ 32"
      using assms(4) unfolding len_def vs_def by linarith
    show "coap_get_query alloc pdu = Some (if len = 0 then None
      else case alloc (word_of_nat (sizeof_coap_string + len + 1)) of None \<Rightarrow> None
        | Some block \<Rightarrow> Some \<lparr>str_length = len, str_bytes = query_written vs @ drop (length (query_written vs)) (string_area block len)\<rparr>)"
    proof (cases "alloc (word_of_nat (sizeof_coap_string + len + 1))")
      case None
      obtain r where r: "coap_new_string alloc len = Some r"
        using new_string_eq [OF assms(3) bound] by blast
      then have "r = None" using None unfolding coap_new_string_def bind_eq_Some_conv None by auto
      with front False r None show ?thesis by (simp del: of_nat_add)
    next
      case (Some block)
      have room: "needed is_unescaped_in_query vs \<le> length (string_area block len)"
      proof -
        have "length block = unat (word_of_nat (sizeof_coap_string + len + 1) :: u32)"
          using assms(3) Some by (simp only: fresh_blocks_def)
        also have "\<dots> = sizeof_coap_string + len + 1"
          using bound by (intro unat_of_nat_small) simp
        finally show ?thesis by (simp add: string_area_def len_def)
      qed
      obtain s where "each_option (mem pdu) (put_query_segment (mem pdu)) oi (string_area block len, 0) =
          Some (query_written vs @ drop (length (query_written vs)) (string_area block len), s)"
        using query_writing.pass_holds [OF assms(1) refl, of 15 "string_area block len" "(string_area block len, 0)"] len0(1) assms(2) room
        by (auto simp: query_part_written_def vs_def COAP_OPTION_URI_QUERY_def query_written_empty query_written_def)
      with front False new_string_area [OF assms(3) bound Some] Some show ?thesis by (simp del: of_nat_add)
    qed
  qed
qed
section \<open>Splitting undoes escaping\<close>

lemma hex_digits:
  "\<forall>n \<in> set [0..<16]. isxdigit (hex ! n) \<and> hexchar_to_dec (hex ! n) = word_of_nat n \<and> hex ! n \<notin> {0x23, 0x25, 0x26, 0x2F, 0x3F}"
  by code_simp

lemma hex_char_props:
  assumes "unat x < 16"
  shows "isxdigit (hex_char x)" "hexchar_to_dec (hex_char x) = x" "hex_char x \<notin> {0x23, 0x25, 0x26, 0x2F, 0x3F}"
proof -
  have "unat x \<in> set [0..<16]" using assms by simp
  from bspec [OF hex_digits this]
  show "isxdigit (hex_char x)" "hexchar_to_dec (hex_char x) = x" "hex_char x \<notin> {0x23, 0x25, 0x26, 0x2F, 0x3F}"
    by (simp_all add: hex_char_def)
qed

lemma nibbles_join: "16 * drop_bit 4 c + (c AND 0x0F) = (c :: u8)"
proof -
  have "unat (16 * drop_bit 4 c + (c AND 0x0F)) = unat c"
    using unsigned_less [of c, where ?'a = nat]
    by (simp add: unat_word_ariths unat_drop_bit unat_low_nibble)
  then show ?thesis by (simp add: word_unat_eq_iff)
qed

text \<open>A test that never lets the percent sign through makes the escaping unambiguous.\<close>

lemma pct_decode_escape:
  assumes "\<not> plain 0x25"
  shows "pct_decode (escape plain v @ w) = map_option (\<lambda>u. v @ u) (pct_decode w)"
proof (induction v)
  case Nil
  show ?case by (cases "pct_decode w") simp_all
next
  case (Cons c v)
  show ?case
  proof (cases "plain c")
    case True
    then have "c \<noteq> 0x25" using assms by auto
    then show ?thesis using Cons True by (cases "pct_decode w") (simp_all add: escape_char_def)
  next
    case False
    then show ?thesis
      using Cons hex_char_props [OF nibbles_less(1) [of c]] hex_char_props [OF nibbles_less(2) [of c]] nibbles_join [of c]
      by (cases "pct_decode w") (simp_all add: escape_char_def)
  qed
qed

lemma escape_avoids:
  assumes "d \<in> {0x23, 0x26, 0x2F, 0x3F}" "\<not> plain d \<or> d \<notin> set v"
  shows "d \<notin> set (escape plain v)"
  using assms hex_char_props(3) [OF nibbles_less(1)] hex_char_props(3) [OF nibbles_less(2)]
  by (induction v) (auto simp: escape_char_def split: if_splits)

lemma split_on_last: "d \<notin> set v \<Longrightarrow> split_on d v = [v]"
  by (induction v) auto

lemma split_on_first: "d \<notin> set v \<Longrightarrow> split_on d (v @ d # w) = v # split_on d w"
  by (induction v) auto

lemma split_on_join: "vs \<noteq> [] \<Longrightarrow> \<forall>v \<in> set vs. d \<notin> set v \<Longrightarrow> split_on d (join d vs) = vs"
  by (induction d vs rule: join.induct) (simp_all add: split_on_last split_on_first)

lemma set_join: "set (join d vs) \<subseteq> insert d (\<Union>v \<in> set vs. set v)"
  by (induction d vs rule: join.induct) auto

lemma plain_in_path:
  "\<not> is_unescaped_in_path 0x23" "\<not> is_unescaped_in_path 0x25" "\<not> is_unescaped_in_path 0x2F" "\<not> is_unescaped_in_path 0x3F"
  "is_unescaped_in_path 0x2E" "\<not> is_unescaped_in_query 0x23" "\<not> is_unescaped_in_query 0x25"
  by (simp_all add: is_unescaped_in_path_def is_unescaped_in_query_def ascii_def)

lemma pct_decode_escaped: "\<not> plain 0x25 \<Longrightarrow> pct_decode (escape plain v) = Some v"
  using pct_decode_escape [of plain v "[]"] by simp

lemma dot_segment_escape: "dot_segment (escape is_unescaped_in_path v) = dot_segment v"
proof
  assume "dot_segment (escape is_unescaped_in_path v)"
  then consider "escape is_unescaped_in_path v = [0x2E]" | "escape is_unescaped_in_path v = [0x2E, 0x2E]"
    by (auto simp: dot_segment_def)
  then show "dot_segment v"
    using pct_decode_escaped [where plain = is_unescaped_in_path, OF plain_in_path(2), of v] by cases (auto simp: dot_segment_def)
qed (use plain_in_path(5) in \<open>auto simp: dot_segment_def escape_char_def\<close>)

lemma split_escaped_path:
  assumes "vs \<noteq> []" "\<forall>v \<in> set vs. \<not> dot_segment v"
  shows "map pct_decode (filter (\<lambda>v. \<not> dot_segment v) (split_on 0x2F (path_part (join 0x2F (map (escape is_unescaped_in_path) vs))))) =
    map Some vs"
proof -
  let ?ws = "map (escape is_unescaped_in_path) vs"
  have "0x3F \<notin> set (join 0x2F ?ws)" "0x23 \<notin> set (join 0x2F ?ws)"
    using set_join [of "0x2F" ?ws] escape_avoids [of "0x3F" is_unescaped_in_path] escape_avoids [of "0x23" is_unescaped_in_path] plain_in_path
    by auto
  then have "path_part (join 0x2F ?ws) = join 0x2F ?ws" by (auto simp: path_part_def takeWhile_eq_all_conv)
  moreover have "split_on 0x2F (join 0x2F ?ws) = ?ws"
    using assms(1) escape_avoids [of "0x2F" is_unescaped_in_path] plain_in_path(3) by (intro split_on_join) auto
  moreover have "filter (\<lambda>v. \<not> dot_segment v) ?ws = ?ws"
    using assms(2) by (simp add: filter_id_conv dot_segment_escape)
  ultimately show ?thesis by (simp add: pct_decode_escaped plain_in_path(2))
qed

lemma length_escape: "length v \<le> length (escape plain v)"
  by (induction v) (simp_all add: escape_char_def)

lemma needed_ge: "v \<in> set vs \<Longrightarrow> length v < needed plain vs"
proof (induction vs)
  case (Cons u vs)
  then show ?case using length_escape [of u plain] by auto
qed simp

text \<open>C35: From options to a path and back. \<open>coap_get_uri_path\<close> joins the Uri-Path options of a message (that has no
  Proxy-Uri) to an escaped path, which it returns whenever the block for it can be allocated, and null only
  otherwise; \<open>coap_split_path\<close> on this string gives exactly the values of the options again,
  whatever bytes they hold, provided there is at least one, none is a dot segment, the path has less than 65536 bytes,
  and the buffer is large enough.\<close>

theorem path_roundtrip:
  assumes "represents pdu tok os pay" "35 \<notin> fst ` set os"
    and vs: "values_of 11 os = vs" "vs \<noteq> []" "\<forall>v \<in> set vs. \<not> dot_segment v"
    and "fresh_blocks alloc" "needed is_unescaped_in_path vs \<le> 65536"
    and "buf + buflen \<le> length out" "length (option_bytes vs) \<le> buflen"
    and w: "w = join 0x2F (map (escape is_unescaped_in_path) vs)"
  shows "coap_get_uri_path cfg alloc pdu = Some (if alloc (word_of_nat (sizeof_coap_string + length w + 1)) = None then None
      else Some \<lparr>str_length = length w, str_bytes = w @ [0]\<rparr>) \<and>
    splits_into out buf buflen vs (coap_split_path (w @ [0]) 0 (length w) out buf buflen)"
proof -
  have "length v < 65536" if "v \<in> set vs" for v
    using needed_ge [OF that, of is_unescaped_in_path] assms(7) by simp
  then have short: "short vs" by (simp add: short_def)
  have len: "length w < 65805" using length_join [OF vs(2), of "0x2F" is_unescaped_in_path] assms(7) by (simp add: w)
  have "needed is_unescaped_in_path vs + sizeof_coap_string + 1 < 2 ^ 32"
    using assms(7) by (simp add: sizeof_coap_string_def)
  then have "coap_get_uri_path cfg alloc pdu = Some (if alloc (word_of_nat (sizeof_coap_string + length w + 1)) = None then None
      else Some \<lparr>str_length = length w, str_bytes = w @ [0]\<rparr>)"
    using get_uri_path_text [OF assms(1,2) _ assms(6), of w] short w unfolding vs(1) by blast
  moreover have "splits_into out buf buflen vs (coap_split_path (w @ [0]) 0 (length w) out buf buflen)"
    using split_path_splits [of "length w" 0 "w @ [0]" w buf buflen out] len assms(8) fitting_all [OF assms(9)]
      split_escaped_path [OF vs(2,3)]
    by (simp add: w isxdigit_def isdigit_def)
  ultimately show ?thesis by blast
qed

definition two_segments :: options where
  "two_segments = [(3, [0x68]), (11, [0x61, 0x2F]), (11, [0xFF]), (15, [0x71])]"

definition plain_alloc :: allocator where
  "plain_alloc n = Some (replicate (unat n) 0xA5)"

lemma fresh_plain [simp]: "fresh_blocks plain_alloc"
  by (simp add: fresh_blocks_def plain_alloc_def)

theorem path_roundtrip_witness:
  "coap_get_uri_path no_tls plain_alloc (pdu_of [7] two_segments [1]) =
      Some (Some \<lparr>str_length = 8, str_bytes = ascii ''a%2F/%FF'' @ [0]\<rparr>) \<and>
    splits_into (replicate 9 0) 2 6 [[0x61, 0x2F], [0xFF]] (coap_split_path (ascii ''a%2F/%FF'' @ [0]) 0 8 (replicate 9 0) 2 6)"
proof -
  define w where "w = ascii ''a%2F/%FF''"
  have w: "w = join 0x2F (map (escape is_unescaped_in_path) [[0x61, 0x2F], [0xFF]])" "length w = 8"
    unfolding w_def by (code_simp, simp add: ascii_def)
  have "represents (pdu_of [7] two_segments [1]) [7] two_segments [1]"
    by (rule represents_pdu_of) (simp_all add: two_segments_def COAP_TOKEN_EXT_MAX_def)
  moreover have "needed is_unescaped_in_path [[0x61, 0x2F], [0xFF]] \<le> 65536" "length (option_bytes [[0x61, 0x2F], [0xFF]]) \<le> 6"
    by (simp_all add: ascii_def escape_char_def is_unescaped_in_path_def option_bytes_def opt_header_def ext_bytes_def ext_nibble_def)
  moreover have "35 \<notin> fst ` set two_segments" "values_of 11 two_segments = [[0x61, 0x2F], [0xFF]]"
    "\<forall>v \<in> set [[0x61, 0x2F], [0xFF]]. \<not> dot_segment v"
    by (simp_all add: two_segments_def dot_segment_def ascii_def)
  moreover have "[[0x61, 0x2F], [0xFF :: u8]] \<noteq> []" "2 + 6 \<le> length (replicate 9 (0 :: u8))" by simp_all
  ultimately have "coap_get_uri_path no_tls plain_alloc (pdu_of [7] two_segments [1]) =
      Some (if plain_alloc (word_of_nat (sizeof_coap_string + length w + 1)) = None then None
        else Some \<lparr>str_length = length w, str_bytes = w @ [0]\<rparr>) \<and>
      splits_into (replicate 9 0) 2 6 [[0x61, 0x2F], [0xFF]] (coap_split_path (w @ [0]) 0 (length w) (replicate 9 0) 2 6)"
    by (intro path_roundtrip fresh_plain w(1))
  then show ?thesis unfolding w(2) unfolding w_def by (simp add: plain_alloc_def del: of_nat_add)
qed

text \<open>C37: \<open>coap_get_query\<close> and empty elements. When the first \<open>k\<close> Uri-Query options of a message are empty and
  another one is not, the first pass counts a separator for each of them, and the second pass writes none (it
  tests whether anything has been written): the string it returns has the right length for the separators, but
  the text is shifted to its front, and its last \<open>k\<close> bytes are whatever the allocated block held before.\<close>

theorem query_leaks_memory:
  assumes "represents pdu tok os pay" "short (values_of 15 os)" "fresh_blocks alloc"
    and vs: "values_of 15 os = replicate k [] @ v # vs" "v \<noteq> []"
    and W: "W = join 0x26 (map (escape is_unescaped_in_query) (v # vs))" "length W + k + sizeof_coap_string + 2 < 2 ^ 32"
    and block: "alloc (word_of_nat (sizeof_coap_string + (length W + k) + 1)) = Some block"
  shows "coap_get_query alloc pdu = Some (Some \<lparr>str_length = length W + k,
    str_bytes = W @ take k (drop (length W) (drop sizeof_coap_string block)) @ [0]\<rparr>)"
proof -
  have written: "query_written (values_of 15 os) = W"
    using vs(2) unfolding vs(1) query_written_def W(1) by (simp add: dropWhile_append3)
  have "needed is_unescaped_in_query (replicate k []) = k" by (induction k) simp_all
  then have needed: "needed is_unescaped_in_query (values_of 15 os) = length W + k + 1"
    using length_join [of "v # vs" "0x26" is_unescaped_in_query] unfolding vs(1) W(1) by simp
  have "length W + k \<noteq> 0" using vs(2) by (cases vs) (simp_all add: W(1))
  have "length block = unat (word_of_nat (sizeof_coap_string + (length W + k) + 1) :: u32)"
    using assms(3) block by (simp only: fresh_blocks_def)
  also have "\<dots> = sizeof_coap_string + (length W + k) + 1"
    using W(2) by (intro unat_of_nat_small) simp
  finally have len: "length block = sizeof_coap_string + (length W + k) + 1" .
  have tail: "drop (length W) (string_area block (length W + k)) =
      take k (drop (length W) (drop sizeof_coap_string block)) @ [0]"
    using len by (simp add: string_area_def drop_take)
  have "needed is_unescaped_in_query (values_of 15 os) + sizeof_coap_string + 1 < 2 ^ 32"
    using W(2) unfolding needed by simp
  from get_query_text [OF assms(1,2,3) this] show ?thesis
    unfolding Let_def needed written using \<open>length W + k \<noteq> 0\<close> block tail by (simp del: of_nat_add)
qed

theorem query_leaks_memory_witness:
  "coap_get_query plain_alloc (pdu_of [] [(15, []), (15, [0x78])] []) =
    Some (Some \<lparr>str_length = 2, str_bytes = [0x78, 0xA5, 0]\<rparr>)"
  using query_leaks_memory [of "pdu_of [] [(15, []), (15, [0x78])] []" "[]" "[(15, []), (15, [0x78])]" "[]" plain_alloc 1 "[0x78]" "[]"
      "[0x78]" "replicate 11 0xA5"] represents_pdu_of [of "[]" "[(15, []), (15, [0x78])]" "[]"]
  by (simp add: short_def escape_char_def is_unescaped_in_query_def is_unescaped_in_path_def plain_alloc_def sizeof_coap_string_def ascii_def COAP_TOKEN_EXT_MAX_def)

end
