(* ===== verification/Coap_Uri_Options.thy ===== *)
theory Coap_Uri_Options
  imports Coap_Uri_Roundtrip Coap_Optlist
begin

unbundle bit_operations_syntax

text \<open>
  \<open>coap_uri_into_options\<close> of \<open>libcoap/src/coap_uri.c\<close>, which turns a parsed URI into a list of options, and
  the copies that \<open>coap_new_uri\<close> and \<open>coap_clone_uri\<close> make of a URI.

  What \<open>coap_print_ip_addr\<close> makes of the destination is an argument: \<open>None\<close> if there is no
  destination, \<open>Some None\<close> if printing fails, else the characters in front of the terminating zero. \<open>new_node\<close>
  stands for the allocator of option nodes, \<open>alloc\<close> for that of strings.
\<close>

section \<open>Copies\<close>

text \<open>A URI object is followed by its text in the same block; its pointers are offsets into that text.\<close>

definition sizeof_coap_uri :: nat where
  "sizeof_coap_uri = 32"

definition uri_area :: "allocator \<Rightarrow> nat \<Rightarrow> bytes option option" where
  "uri_area alloc n =
     (case alloc (word_of_nat n) of
        None \<Rightarrow> Some None
      | Some m \<Rightarrow> do { c_assert (sizeof_coap_uri \<le> length m); Some (Some (drop sizeof_coap_uri m)) })"

definition coap_new_uri :: "uri_support \<Rightarrow> allocator \<Rightarrow> bytes \<Rightarrow> nat \<Rightarrow> (coap_uri \<times> bytes) option option" where
  "coap_new_uri cfg alloc uri n = do {
     result \<leftarrow> uri_area alloc (n + 1 + sizeof_coap_uri);
     case result of
       None \<Rightarrow> Some None
     | Some area \<Rightarrow> do {
         bs \<leftarrow> c_slice uri 0 n;
         area \<leftarrow> c_blit area 0 bs;
         area \<leftarrow> c_store area n 0;
         (r, u) \<leftarrow> coap_split_uri cfg area (Some 0) n blank_uri;
         Some (if r < 0 then None else Some (u, area))
       }
   }"

text \<open>Copy one component to offset \<open>p\<close> of the new object's text.\<close>

definition clone_part :: "bytes \<Rightarrow> coap_str_const \<Rightarrow> nat \<Rightarrow> bytes \<Rightarrow> (coap_str_const \<times> bytes) option" where
  "clone_part str c p area =
     (if sc_length c \<noteq> 0 then do {
        q \<leftarrow> sc_s c;
        bs \<leftarrow> c_slice str q (sc_length c);
        area \<leftarrow> c_blit area p bs;
        Some (\<lparr>sc_length = sc_length c, sc_s = Some p\<rparr>, area)
      }
      else Some (null_str, area))"

definition coap_clone_uri :: "allocator \<Rightarrow> bytes \<Rightarrow> coap_uri option \<Rightarrow> (coap_uri \<times> bytes) option option" where
  "coap_clone_uri alloc str source =
     (case source of
        None \<Rightarrow> Some None
      | Some uri \<Rightarrow> do {
          result \<leftarrow> uri_area alloc (sc_length (uri_query uri) + sc_length (uri_host uri) + sc_length (uri_path uri) + sizeof_coap_uri + 1);
          case result of
            None \<Rightarrow> Some None
          | Some area \<Rightarrow> do {
              let res = blank_uri\<lparr>uri_port := uri_port uri\<rparr>;
              (host, area) \<leftarrow> clone_part str (uri_host uri) 0 area;
              (pth, area) \<leftarrow> clone_part str (uri_path uri) (sc_length (uri_host uri)) area;
              (qry, area) \<leftarrow> clone_part str (uri_query uri) (sc_length (uri_host uri) + sc_length (uri_path uri)) area;
              Some (Some (res\<lparr>uri_host := host, uri_path := pth, uri_query := qry\<rparr>, area))
            }
        })"

section \<open>Options of a URI\<close>

type_synonym node_allocator = "optlist_store \<Rightarrow> pointer"

text \<open>\<open>coap_insert_optlist(optlist_chain, coap_new_optlist(number, len, val))\<close>\<close>

definition append_optlist ::
  "node_allocator \<Rightarrow> u16 \<Rightarrow> nat \<Rightarrow> bytes \<Rightarrow> pointer \<times> optlist_store \<Rightarrow> (pointer \<times> optlist_store) option" where
  "append_optlist new_node number len val = (\<lambda>(chain, s). do {
     (node, s) \<leftarrow> coap_new_optlist (new_node s) number len val s;
     (_, chain, s) \<leftarrow> coap_insert_optlist chain node s;
     Some (chain, s)
   })"

text \<open>\<open>while (res--)\<close> over the options in the buffer at \<open>buf\<close>.\<close>

fun options_loop ::
  "node_allocator \<Rightarrow> u16 \<Rightarrow> bytes \<Rightarrow> nat \<Rightarrow> nat \<Rightarrow> pointer \<times> optlist_store \<Rightarrow> (pointer \<times> optlist_store) option" where
  "options_loop new_node number out buf 0 st = Some st"
| "options_loop new_node number out buf (Suc res) st = do {
     len \<leftarrow> coap_opt_length out buf;
     v \<leftarrow> coap_opt_value out buf;
     val \<leftarrow> (case v of Accepted p \<Rightarrow> Some (drop p out) | Rejected \<Rightarrow> if len = 0 then Some [] else None);
     st \<leftarrow> append_optlist new_node number len val st;
     n \<leftarrow> coap_opt_size out buf;
     options_loop new_node number out (buf + n) res st
   }"

definition default_port :: "coap_uri \<Rightarrow> u16" where
  "default_port uri = (case uri_scheme uri of
     COAP_URI_SCHEME_HTTP \<Rightarrow> 80
   | COAP_URI_SCHEME_COAP_WS \<Rightarrow> 80
   | COAP_URI_SCHEME_HTTPS \<Rightarrow> 443
   | COAP_URI_SCHEME_COAPS_WS \<Rightarrow> 443
   | _ \<Rightarrow> if coap_uri_scheme_is_secure uri then COAPS_DEFAULT_PORT else COAP_DEFAULT_PORT)"

definition add_uri_host ::
  "node_allocator \<Rightarrow> bytes \<Rightarrow> coap_uri \<Rightarrow> bytes option option \<Rightarrow> pointer \<times> optlist_store \<Rightarrow> (pointer \<times> optlist_store) option" where
  "add_uri_host new_node str uri dst st =
     (if dst \<noteq> None \<and> sc_length (uri_host uri) \<noteq> 0 then do {
        p \<leftarrow> sc_s (uri_host uri);
        (q, _) \<leftarrow> skip_while str (\<lambda>c. c \<noteq> 0x25) p (sc_length (uri_host uri));
        differs \<leftarrow> (case the dst of
           None \<Rightarrow> Some False
         | Some addr \<Rightarrow>
             if length addr \<noteq> q - p then Some True
             else do { bs \<leftarrow> c_slice str p (q - p); Some (addr \<noteq> bs) });
        if differs then append_optlist new_node COAP_OPTION_URI_HOST (sc_length (uri_host uri)) (drop p str) st
        else Some st
      }
      else Some st)"

text \<open>The scratch buffer is \<open>out\<close>; the next three return the list and the buffer.\<close>

definition add_uri_port ::
  "node_allocator \<Rightarrow> coap_uri \<Rightarrow> bytes \<Rightarrow> pointer \<times> optlist_store \<Rightarrow> ((pointer \<times> optlist_store) \<times> bytes) option" where
  "add_uri_port new_node uri out st =
     (if uri_port uri \<noteq> default_port uri then do {
        (n, out) \<leftarrow> coap_encode_var_safe out 4 (ucast (uri_port uri) AND 0xffff);
        st \<leftarrow> append_optlist new_node COAP_OPTION_URI_PORT n out st;
        Some (st, out)
      }
      else Some (st, out))"

definition add_uri_path ::
  "node_allocator \<Rightarrow> bytes \<Rightarrow> coap_uri \<Rightarrow> nat \<Rightarrow> bytes \<Rightarrow> pointer \<times> optlist_store \<Rightarrow>
    ((pointer \<times> optlist_store) \<times> bytes) option" where
  "add_uri_path new_node str uri buflen out st =
     (if sc_length (uri_path uri) \<noteq> 0 then do {
        p \<leftarrow> sc_s (uri_path uri);
        (res, _, out) \<leftarrow> coap_split_path str p (sc_length (uri_path uri)) out 0 buflen;
        st \<leftarrow> options_loop new_node COAP_OPTION_URI_PATH out 0 res st;
        Some (st, out)
      }
      else Some (st, out))"

definition add_uri_query ::
  "node_allocator \<Rightarrow> bytes \<Rightarrow> coap_uri \<Rightarrow> nat \<Rightarrow> bytes \<Rightarrow> pointer \<times> optlist_store \<Rightarrow>
    ((pointer \<times> optlist_store) \<times> bytes) option" where
  "add_uri_query new_node str uri buflen out st =
     (if sc_length (uri_query uri) \<noteq> 0 then do {
        p \<leftarrow> sc_s (uri_query uri);
        (res, _, out) \<leftarrow> coap_split_query str p (sc_length (uri_query uri)) out 0 buflen;
        st \<leftarrow> options_loop new_node COAP_OPTION_URI_QUERY out 0 res st;
        Some (st, out)
      }
      else Some (st, out))"

text \<open>The result of the function, the list and the buffer.\<close>

definition coap_uri_into_options ::
  "node_allocator \<Rightarrow> bytes \<Rightarrow> coap_uri \<Rightarrow> bytes option option \<Rightarrow> bool \<Rightarrow> bytes \<Rightarrow> nat \<Rightarrow>
    pointer \<times> optlist_store \<Rightarrow> (int \<times> (pointer \<times> optlist_store) \<times> bytes) option" where
  "coap_uri_into_options new_node str uri dst create_port_host_opt out buflen st = do {
     unix \<leftarrow> (if create_port_host_opt then coap_host_is_unix_domain str (uri_host uri) else Some False);
     (st, out) \<leftarrow>
       (if create_port_host_opt \<and> \<not> unix then do {
          st \<leftarrow> add_uri_host new_node str uri dst st;
          add_uri_port new_node uri out st
        }
        else Some (st, out));
     (st, out) \<leftarrow> add_uri_path new_node str uri buflen out st;
     (st, out) \<leftarrow> add_uri_query new_node str uri buflen out st;
     Some (0, st, out)
   }"

section \<open>Lists that grow at their end\<close>

text \<open>The options of a chain, in its order; the store has room for further nodes.\<close>

definition chain_of :: "pointer \<times> optlist_store \<Rightarrow> options \<Rightarrow> bool" where
  "chain_of st L \<longleftrightarrow> finite (dom (snd st)) \<and>
     (\<exists>xs. path (snd st) (fst st) xs None \<and> map (opt_at (snd st)) xs = L)"

definition gives_nodes :: "node_allocator \<Rightarrow> bool" where
  "gives_nodes new_node \<longleftrightarrow> (\<forall>s. finite (dom s) \<longrightarrow> (\<exists>a. new_node s = Some a \<and> s a = None))"

lemma append_optlist_chain:
  assumes "chain_of st L" "gives_nodes new_node" "length v = len"
  shows "\<exists>st'. append_optlist new_node number len (v @ rest) st = Some st' \<and> chain_of st' (L @ [(unat number, v)])"
proof -
  obtain chain s where st: "st = (chain, s)" by (cases st)
  obtain xs where xs: "finite (dom s)" "path s chain xs None" "map (opt_at s) xs = L"
    using assms(1) by (auto simp: chain_of_def st)
  obtain a where a: "new_node s = Some a" "s a = None" using assms(2) xs(1) by (auto simp: gives_nodes_def)
  let ?node = "\<lparr>next_opt = None, opt_number = number, opt_length = len, opt_data = v\<rparr>"
  let ?s = "s(a \<mapsto> ?node)"
  have "a \<notin> set xs" using path_live [OF xs(2)] a(2) by blast
  then have "path ?s chain xs None" using xs(2) by simp
  then obtain chain' s' where ins: "coap_insert_optlist chain (Some a) ?s = Some (True, chain', s')"
    "path s' chain' (xs @ [a]) None" "same_nodes ?s s'"
    using insert_optlist_path [of ?s chain xs a ?node] \<open>a \<notin> set xs\<close> by auto
  have "opt_at s' x = opt_at ?s x" if "x \<in> set (xs @ [a])" for x
    using same_nodes_at(1) [OF ins(3)] path_live [OF xs(2), of x] that by auto
  moreover have "opt_at ?s x = opt_at s x" if "x \<in> set xs" for x
    using that \<open>a \<notin> set xs\<close> by (auto simp: opt_at_def number_at_def)
  moreover have "opt_at ?s a = (unat number, v)" by (simp add: opt_at_def number_at_def)
  ultimately have "map (opt_at s') (xs @ [a]) = L @ [(unat number, v)]" using xs(3) by auto
  moreover have "dom s' = dom ?s"
    using same_nodes_fields(1) [OF ins(3)] by (auto simp: dom_def)
  moreover have "append_optlist new_node number len (v @ rest) st = Some (chain', s')"
    using a(1) ins(1) assms(3) by (simp add: append_optlist_def st coap_new_optlist_def c_slice_def)
  ultimately show ?thesis using ins(2) xs(1) unfolding chain_of_def by auto
qed

lemma options_loop_chain:
  assumes "chain_of st L" "gives_nodes new_node" "\<forall>v \<in> set vs. length v < 65805" "length (o1 @ option_bytes vs) < 2 ^ 32"
  shows "\<exists>st'. options_loop new_node number (o1 @ option_bytes vs @ o2) (length o1) (length vs) st = Some st' \<and>
    chain_of st' (L @ map (\<lambda>v. (unat number, v)) vs)"
  using assms(1,3,4)
proof (induction vs arbitrary: o1 st L)
  case (Cons v vs)
  define h where "h = opt_header 0 (length v)"
  let ?out = "o1 @ option_bytes (v # vs) @ o2"
  have out: "?out = o1 @ opt_header 0 (length v) @ (v @ option_bytes vs @ o2)"
    "?out = (o1 @ h @ v) @ option_bytes vs @ o2" "drop (length o1 + length h) ?out = v @ option_bytes vs @ o2"
    by (simp_all add: h_def)
  have n: "length v < 65805" using Cons.prems(2) by simp
  have "length h + length v \<le> 2 ^ 32 - 1" using Cons.prems(3) by (simp add: h_def)
  then have "coap_opt_parse ?out (length o1) (2 ^ 32 - 1) = Some (Accepted (length h + length v,
      \<lparr>delta = word_of_nat 0, opt_len = length v, opt_val = length o1 + length h\<rparr>))"
    using coap_opt_parse_header [of 0 "length v" "v @ option_bytes vs @ o2" "2 ^ 32 - 1" o1] n unfolding out(1) h_def by simp
  then have size: "coap_opt_size ?out (length o1) = Some (length h + length v)"
    by (simp add: coap_opt_size_def)
  note acc = accessors_header [OF n out(1)]
  obtain st1 where st1: "append_optlist new_node number (length v) (v @ option_bytes vs @ o2) st = Some st1"
    "chain_of st1 (L @ [(unat number, v)])"
    using append_optlist_chain [OF Cons.prems(1) assms(2) refl] by blast
  have rest: "\<exists>st'. options_loop new_node number ((o1 @ h @ v) @ option_bytes vs @ o2) (length (o1 @ h @ v)) (length vs) st1 = Some st' \<and>
      chain_of st' ((L @ [(unat number, v)]) @ map (\<lambda>v. (unat number, v)) vs)"
    using Cons.prems(2,3) by (intro Cons.IH [OF st1(2)]) (simp_all add: h_def)
  have "options_loop new_node number ?out (length o1) (length (v # vs)) st =
      options_loop new_node number ?out (length (o1 @ h @ v)) (length vs) st1"
    using acc size st1(1) out(3) unfolding h_def [symmetric] by (simp add: add.assoc)
  with rest show ?case unfolding out(2) by simp
qed simp

text \<open>The way of the path and of the query: split into the buffer, then append what is found there.\<close>

lemma options_of_split:
  assumes split: "splits_into out 0 buflen vs (Some (n, k, out'))"
    and "chain_of st L" "gives_nodes new_node" "\<forall>v \<in> set vs. length v < 65805" "length out < 2 ^ 32"
  shows "\<exists>st'. options_loop new_node number out' 0 n st = Some st' \<and> chain_of st' (L @ map (\<lambda>v. (unat number, v)) vs)"
    and "length out' = length out"
proof -
  have s: "n = length vs" "take (length (option_bytes vs)) out' = option_bytes vs" "length out' = length out"
    using split by (auto simp: splits_into_def outside_same_def)
  then have out': "out' = option_bytes vs @ drop (length (option_bytes vs)) out'" by (metis append_take_drop_id)
  have "length (option_bytes vs) \<le> length out'" using s(2) by (metis length_take min.cobounded1)
  then have "length ([] @ option_bytes vs) < 2 ^ 32" using assms(5) s(3) by simp
  from options_loop_chain [OF assms(2-4) this, of number "drop (length (option_bytes vs)) out'"]
  show "\<exists>st'. options_loop new_node number out' 0 n st = Some st' \<and> chain_of st' (L @ map (\<lambda>v. (unat number, v)) vs)"
    using s(1) out' by simp
  show "length out' = length out" by (rule s(3))
qed
section \<open>The options of a URI\<close>

text \<open>A component of a URI that lies in the text and is followed by a byte that is no hexadecimal digit.\<close>

definition component_ok :: "bytes \<Rightarrow> coap_str_const \<Rightarrow> bool" where
  "component_ok str c \<longleftrightarrow> sc_length c = 0 \<or>
     (\<exists>p. sc_s c = Some p \<and> p + sc_length c < length str \<and> \<not> isxdigit (str ! (p + sc_length c)) \<and> sc_length c < 65805)"

definition path_values :: "nat \<Rightarrow> bytes \<Rightarrow> coap_str_const \<Rightarrow> bytes list" where
  "path_values room str c = (if sc_length c = 0 then []
     else fitting room (map pct_decode (filter (\<lambda>v. \<not> dot_segment v) (split_on 0x2F (path_part (text_of str c))))))"

definition query_values :: "nat \<Rightarrow> bytes \<Rightarrow> coap_str_const \<Rightarrow> bytes list" where
  "query_values room str c = (if sc_length c = 0 then []
     else fitting room (map pct_decode (split_on 0x26 (takeWhile (\<lambda>c. c \<noteq> 0x23) (text_of str c)))))"

text \<open>Host and port are named when they differ from those of the destination.\<close>

definition unix_host :: "bytes \<Rightarrow> bool" where
  "unix_host h \<longleftrightarrow> take 3 h = [0x25, 0x32, 0x46] \<or> take 3 h = [0x25, 0x32, 0x66] \<or> take 1 h = [0x2F]"

definition host_options :: "bytes \<Rightarrow> coap_uri \<Rightarrow> bytes option option \<Rightarrow> options" where
  "host_options str uri dst = (case dst of
     Some (Some addr) \<Rightarrow>
       if sc_length (uri_host uri) \<noteq> 0 \<and> addr \<noteq> takeWhile (\<lambda>c. c \<noteq> 0x25) (text_of str (uri_host uri))
       then [(3, text_of str (uri_host uri))] else []
   | _ \<Rightarrow> [])"

definition port_options :: "coap_uri \<Rightarrow> options" where
  "port_options uri = (if uri_port uri = default_port uri then []
     else let p = (ucast (uri_port uri) :: u32) in [(7, be_bytes (var_size 4 p 0) p)])"

lemma fitting_elements: "v \<in> set (fitting room vs) \<Longrightarrow> Some v \<in> set vs"
  by (induction room vs rule: fitting.induct) (auto split: if_splits)

lemma split_on_length: "v \<in> set (split_on d w) \<Longrightarrow> length v \<le> length w"
proof (induction d w arbitrary: v rule: split_on.induct)
  case (2 d c cs)
  obtain s ss where s: "split_on d cs = s # ss" using split_on_not_Nil by (cases "split_on d cs") auto
  show ?case
  proof (cases "c = d")
    case True
    with 2 show ?thesis by fastforce
  next
    case False
    with 2 s have "v = c # s \<or> v \<in> set ss" by auto
    then show ?thesis using "2.IH"(2) [OF False, of s] "2.IH"(2) [OF False, of v] s by auto
  qed
qed simp

lemma values_length:
  assumes "v \<in> set (fitting room (map pct_decode vs))" "set vs \<subseteq> set (split_on d w)"
  shows "length v \<le> length w"
proof -
  obtain u where "u \<in> set vs" "pct_decode u = Some v" using fitting_elements [OF assms(1)] by force
  then show ?thesis using pct_decode_length [of u v] split_on_length [of u d w] assms(2) by force
qed

lemma path_values_length:
  assumes "v \<in> set (path_values room str c)" "length (text_of str c) < 65805"
  shows "length v < 65805"
proof -
  have "length v \<le> length (path_part (text_of str c))"
    using assms(1) values_length [of v room _ "0x2F" "path_part (text_of str c)"]
    by (auto simp: path_values_def split: if_splits)
  also have "\<dots> \<le> length (text_of str c)" by (simp add: path_part_def length_takeWhile_le)
  finally show ?thesis using assms(2) by simp
qed

lemma query_values_length:
  assumes "v \<in> set (query_values room str c)" "length (text_of str c) < 65805"
  shows "length v < 65805"
proof -
  have "length v \<le> length (takeWhile (\<lambda>c. c \<noteq> 0x23) (text_of str c))"
    using assms(1) values_length [of v room _ "0x26" "takeWhile (\<lambda>c. c \<noteq> 0x23) (text_of str c)"]
    by (auto simp: query_values_def split: if_splits)
  also have "\<dots> \<le> length (text_of str c)" by (rule length_takeWhile_le)
  finally show ?thesis using assms(2) by simp
qed

lemma path_stage:
  assumes "component_ok str (uri_path uri)" "buflen \<le> length out" "length out < 2 ^ 32" "chain_of st L" "gives_nodes new_node"
  shows "\<exists>st' out'. add_uri_path new_node str uri buflen out st = Some (st', out') \<and> length out' = length out \<and>
      chain_of st' (L @ map (\<lambda>v. (11, v)) (path_values buflen str (uri_path uri)))"
proof (cases "sc_length (uri_path uri) = 0")
  case False
  let ?c = "uri_path uri"
  obtain p where p: "sc_s ?c = Some p" "p + sc_length ?c < length str" "\<not> isxdigit (str ! (p + sc_length ?c))" "sc_length ?c < 65805"
    using assms(1) False by (auto simp: component_ok_def)
  have tx: "take (sc_length ?c) (drop p str) = text_of str ?c" using p(1) by (simp add: text_of_def)
  have "splits_into out 0 buflen (path_values buflen str ?c) (coap_split_path str p (sc_length ?c) out 0 buflen)"
    using split_path_splits [OF tx p(2-4), of 0 buflen out] assms(2) False by (simp add: path_values_def)
  moreover obtain n k out' where r: "coap_split_path str p (sc_length ?c) out 0 buflen = Some (n, k, out')"
    using calculation by (auto simp: splits_into_def)
  ultimately have s: "splits_into out 0 buflen (path_values buflen str ?c) (Some (n, k, out'))" by simp
  have "length (text_of str ?c) < 65805" using tx p(4) by (metis length_take min.strict_coboundedI2)
  then have "\<forall>v \<in> set (path_values buflen str ?c). length v < 65805" using path_values_length by blast
  from options_of_split(1) [OF s assms(4,5) this assms(3), of COAP_OPTION_URI_PATH]
    options_of_split(2) [OF s assms(4,5) this assms(3)] r p(1) False show ?thesis
    by (auto simp: add_uri_path_def COAP_OPTION_URI_PATH_def)
qed (use assms(4) in \<open>simp add: path_values_def add_uri_path_def\<close>)

lemma query_stage:
  assumes "component_ok str (uri_query uri)" "buflen \<le> length out" "length out < 2 ^ 32" "chain_of st L" "gives_nodes new_node"
  shows "\<exists>st' out'. add_uri_query new_node str uri buflen out st = Some (st', out') \<and>
      chain_of st' (L @ map (\<lambda>v. (15, v)) (query_values buflen str (uri_query uri)))"
proof (cases "sc_length (uri_query uri) = 0")
  case False
  let ?c = "uri_query uri"
  obtain p where p: "sc_s ?c = Some p" "p + sc_length ?c < length str" "\<not> isxdigit (str ! (p + sc_length ?c))" "sc_length ?c < 65805"
    using assms(1) False by (auto simp: component_ok_def)
  have tx: "take (sc_length ?c) (drop p str) = text_of str ?c" using p(1) by (simp add: text_of_def)
  have "splits_into out 0 buflen (query_values buflen str ?c) (coap_split_query str p (sc_length ?c) out 0 buflen)"
    using split_query_splits [OF tx p(2-4), of 0 buflen out] assms(2) False by (simp add: query_values_def)
  moreover obtain n k out' where r: "coap_split_query str p (sc_length ?c) out 0 buflen = Some (n, k, out')"
    using calculation by (auto simp: splits_into_def)
  ultimately have s: "splits_into out 0 buflen (query_values buflen str ?c) (Some (n, k, out'))" by simp
  have "length (text_of str ?c) < 65805" using tx p(4) by (metis length_take min.strict_coboundedI2)
  then have "\<forall>v \<in> set (query_values buflen str ?c). length v < 65805" using query_values_length by blast
  from options_of_split(1) [OF s assms(4,5) this assms(3), of COAP_OPTION_URI_QUERY]
    options_of_split(2) [OF s assms(4,5) this assms(3)] r p(1) False show ?thesis
    by (auto simp: add_uri_query_def COAP_OPTION_URI_QUERY_def)
qed (use assms(4) in \<open>simp add: query_values_def add_uri_query_def\<close>)

lemma skip_while_text:
  assumes "take n (drop p str) = w" "p + n \<le> length str"
  shows "\<exists>k. skip_while str P p n = Some (p + length (takeWhile P w), k)"
proof -
  let ?u = "takeWhile P w" and ?v = "dropWhile P w"
  have n: "length w = n" using assms by auto
  have str: "str = take p str @ ?u @ (?v @ drop (p + n) str)"
    using assms by (metis append_assoc append_take_drop_id drop_drop takeWhile_dropWhile_id add.commute)
  have stop: "length ?v = 0 \<or> ?v @ drop (p + n) str \<noteq> [] \<and> \<not> P (hd (?v @ drop (p + n) str))"
    using hd_dropWhile [of P w] by (cases ?v) auto
  have "length ?u + length ?v = n" using n by (metis length_append takeWhile_dropWhile_id)
  moreover have "length (take p str) = p" using assms(2) by simp
  moreover have "\<forall>c \<in> set ?u. P c" by (auto dest: set_takeWhileD)
  ultimately show ?thesis
    using skip_while_to [of ?u P, OF _ stop, of "take p str"] str by (metis)
qed

lemma host_stage:
  assumes "lies_in 0 (length str) (uri_host uri)" "chain_of st L" "gives_nodes new_node"
  shows "\<exists>st'. add_uri_host new_node str uri dst st = Some st' \<and> chain_of st' (L @ host_options str uri dst)"
proof (cases "dst \<noteq> None \<and> sc_length (uri_host uri) \<noteq> 0")
  case False
  then show ?thesis using assms(2)
    by (intro exI [of _ st]) (auto simp: add_uri_host_def host_options_def split: option.splits)
next
  case True
  let ?c = "uri_host uri"
  obtain p where p: "sc_s ?c = Some p" "p + sc_length ?c \<le> length str"
    using assms(1) True by (auto simp: lies_in_def split: option.splits)
  define h where "h = text_of str ?c"
  have h: "take (sc_length ?c) (drop p str) = h" "length h = sc_length ?c" "drop p str = h @ drop (p + sc_length ?c) str"
    using p by (auto simp: h_def text_of_def add.commute) (metis append_take_drop_id drop_drop add.commute)
  define w where "w = takeWhile (\<lambda>c. c \<noteq> 0x25) h"
  obtain k where k: "skip_while str (\<lambda>c. c \<noteq> 0x25) p (sc_length ?c) = Some (p + length w, k)"
    using skip_while_text [OF h(1) p(2)] unfolding w_def by blast
  have "length w \<le> length h" by (simp add: w_def length_takeWhile_le)
  moreover have "take (length w) h = w" unfolding w_def by (rule takeWhile_eq_take [symmetric])
  ultimately have slice: "c_slice str p (length w) = Some w"
    using p(2) h(2,3) by (simp add: c_slice_def)
  obtain st1 where st1: "append_optlist new_node COAP_OPTION_URI_HOST (sc_length ?c) (drop p str) st = Some st1" "chain_of st1 (L @ [(3, h)])"
    using append_optlist_chain [OF assms(2,3) h(2), of COAP_OPTION_URI_HOST "drop (p + sc_length ?c) str"]
    unfolding h(3) [symmetric] by (auto simp: COAP_OPTION_URI_HOST_def)
  define differs where "differs \<longleftrightarrow> (case the dst of None \<Rightarrow> False | Some addr \<Rightarrow> addr \<noteq> w)"
  have "(case the dst of None \<Rightarrow> Some False
      | Some addr \<Rightarrow> if length addr \<noteq> p + length w - p then Some True
          else do { bs \<leftarrow> c_slice str p (p + length w - p); Some (addr \<noteq> bs) }) = Some differs"
    using slice by (auto simp: differs_def split: option.split)
  then have add: "add_uri_host new_node str uri dst st =
      (if differs then append_optlist new_node COAP_OPTION_URI_HOST (sc_length ?c) (drop p str) st else Some st)"
    using True p(1) k by (simp add: add_uri_host_def)
  have ho: "host_options str uri dst = (if differs then [(3, h)] else [])"
    using True by (auto simp: host_options_def differs_def h_def w_def split: option.splits)
  show ?thesis
  proof (cases differs)
    case True
    with add ho st1 show ?thesis by (intro exI [of _ st1]) simp
  next
    case False
    with add ho assms(2) show ?thesis by (intro exI [of _ st]) simp
  qed
qed
lemma unix_domain_text:
  assumes "lies_in 0 (length str) c"
  shows "coap_host_is_unix_domain str c = Some (unix_host (text_of str c))"
proof (cases "sc_length c = 0")
  case True
  then show ?thesis using assms by (simp add: coap_host_is_unix_domain_def unix_host_def text_of_def split: option.splits)
next
  case False
  obtain p where p: "sc_s c = Some p" "p + sc_length c \<le> length str"
    using assms False by (auto simp: lies_in_def split: option.splits)
  define h where "h = text_of str c"
  have h: "length h = sc_length c" "str = take p str @ h @ drop (p + sc_length c) str"
    using p by (auto simp: h_def text_of_def) (metis append_take_drop_id drop_drop add.commute)
  define pre where "pre = take p str"
  define rest where "rest = drop (p + sc_length c) str"
  have str: "str = pre @ h @ rest" "length pre = p" using h p(2) by (simp_all add: pre_def rest_def)
  consider (one) x where "h = [x]" | (two) x y where "h = [x, y]" | (more) x y z ws where "h = x # y # z # ws"
    using False h(1) by (cases h; cases "tl h"; cases "tl (tl h)") auto
  then have "coap_host_is_unix_domain str c = Some (unix_host h)"
  proof cases
    case one
    then show ?thesis using h(1) p(1) str
      by (auto simp: coap_host_is_unix_domain_def unix_host_def)
  next
    case two
    then show ?thesis using h(1) p(1) str
      by (auto simp: coap_host_is_unix_domain_def unix_host_def)
  next
    case more
    then show ?thesis using h(1) p(1) str
      by (auto simp: coap_host_is_unix_domain_def escaped_slash_def unix_host_def numeral_2_eq_2 numeral_3_eq_3)
  qed
  then show ?thesis by (simp add: h_def)
qed

lemma and_16_bits: "(ucast (x :: u16) :: u32) AND 0xffff = ucast x"
proof -
  have eq: "(0xffff :: u32) = mask 16" by (simp add: mask_eq_exp_minus_1)
  show ?thesis unfolding eq by (rule bit_word_eqI) (auto simp: bit_simps dest: bit_imp_le_length)
qed
lemma port_stage:
  assumes "4 \<le> length out" "chain_of st L" "gives_nodes new_node"
  shows "\<exists>st' out'. add_uri_port new_node uri out st = Some (st', out') \<and> length out' = length out \<and> chain_of st' (L @ port_options uri)"
proof (cases "uri_port uri = default_port uri")
  case True
  then show ?thesis using assms(2) by (intro exI [of _ st] exI [of _ out]) (simp add: add_uri_port_def port_options_def)
next
  case False
  define v where "v = (ucast (uri_port uri) :: u32)"
  obtain k where k: "var_size 4 v 0 = k" "k \<le> 4" by (rule var_size_u32)
  have enc: "coap_encode_var_safe out 4 v = Some (k, be_bytes k v @ drop k out)"
    using encode_var_safe_eq [of 4 out v] k assms(1) by simp
  obtain st' where st': "append_optlist new_node COAP_OPTION_URI_PORT k (be_bytes k v @ drop k out) st = Some st'"
    "chain_of st' (L @ [(unat COAP_OPTION_URI_PORT, be_bytes k v)])"
    using append_optlist_chain [OF assms(2,3), of "be_bytes k v" k COAP_OPTION_URI_PORT "drop k out"] by auto
  have "port_options uri = [(unat COAP_OPTION_URI_PORT, be_bytes k v)]"
    using False k(1) by (simp add: port_options_def Let_def v_def COAP_OPTION_URI_PORT_def)
  moreover have "length (be_bytes k v @ drop k out) = length out" using k(2) assms(1) by simp
  ultimately show ?thesis
    using False enc st' and_16_bits [of "uri_port uri"]
    by (intro exI [of _ st'] exI [of _ "be_bytes k v @ drop k out"]) (simp add: add_uri_port_def flip: v_def)
qed

text \<open>C36: \<open>coap_uri_into_options\<close> appends to the list, behind the options that are there, and in this order:
  Uri-Host if asked for and the host without its interface is not the printed address of the destination, Uri-Port if asked
  for and the port is not the default of the scheme (neither for a host that is the path of a UNIX socket), one Uri-Path option for
  each segment of the path that is no dot segment, can be decoded and fits into the rest of the scratch buffer, and one Uri-Query
  option for each such element of the query. It always returns 0, also when it left out segments. This holds
  when allocations succeed, when the path and the query have less than 65805 bytes and are each followed by a byte that is not a
  hexadecimal digit, and for a scratch buffer of at least 4 bytes: the port is encoded with this limit,
  whatever length the caller has passed.\<close>

theorem uri_into_options:
  assumes "component_ok str (uri_path uri)" "component_ok str (uri_query uri)" "lies_in 0 (length str) (uri_host uri)"
    and "buflen \<le> length out" "4 \<le> length out" "length out < 2 ^ 32" "chain_of st L" "gives_nodes new_node"
  shows "\<exists>st' out'. coap_uri_into_options new_node str uri dst create out buflen st = Some (0, st', out') \<and>
    chain_of st' (L @
      (if create \<and> \<not> unix_host (text_of str (uri_host uri)) then host_options str uri dst @ port_options uri else []) @
      map (\<lambda>v. (11, v)) (path_values buflen str (uri_path uri)) @
      map (\<lambda>v. (15, v)) (query_values buflen str (uri_query uri)))"
proof -
  define both where "both \<longleftrightarrow> create \<and> \<not> unix_host (text_of str (uri_host uri))"
  let ?hp = "if both then host_options str uri dst @ port_options uri else []"
  let ?pv = "map (\<lambda>v. (11, v)) (path_values buflen str (uri_path uri))"
  have unix: "(if create then coap_host_is_unix_domain str (uri_host uri) else Some False) =
      Some (create \<and> unix_host (text_of str (uri_host uri)))"
    using unix_domain_text [OF assms(3)] by simp
  obtain st0 where st0: "add_uri_host new_node str uri dst st = Some st0" "chain_of st0 (L @ host_options str uri dst)"
    using host_stage [OF assms(3,7,8)] by blast
  obtain st1 out1 where port: "add_uri_port new_node uri out st0 = Some (st1, out1)" "length out1 = length out"
    "chain_of st1 ((L @ host_options str uri dst) @ port_options uri)"
    using port_stage [OF assms(5) st0(2) assms(8)] by blast
  define st2 where "st2 = (if both then st1 else st)"
  define out2 where "out2 = (if both then out1 else out)"
  have s2: "chain_of st2 (L @ ?hp)" "length out2 = length out" "buflen \<le> length out2" "length out2 < 2 ^ 32"
    using port(2,3) assms(4,6,7) by (simp_all add: st2_def out2_def)
  obtain st3 out3 where s3: "add_uri_path new_node str uri buflen out2 st2 = Some (st3, out3)" "length out3 = length out2"
    "chain_of st3 ((L @ ?hp) @ ?pv)"
    using path_stage [OF assms(1) s2(3,4,1) assms(8)] by blast
  have len3: "buflen \<le> length out3" "length out3 < 2 ^ 32" using s3(2) s2(3,4) by simp_all
  obtain st4 out4 where s4: "add_uri_query new_node str uri buflen out3 st3 = Some (st4, out4)"
    "chain_of st4 (((L @ ?hp) @ ?pv) @ map (\<lambda>v. (15, v)) (query_values buflen str (uri_query uri)))"
    using query_stage [OF assms(2) len3 s3(3) assms(8)] by blast
  have "coap_uri_into_options new_node str uri dst create out buflen st = Some (0, st4, out4)"
    unfolding coap_uri_into_options_def unix
    using st0(1) port(1) s3(1) s4(1) by (cases both) (auto simp: both_def st2_def out2_def)
  with s4(2) show ?thesis unfolding both_def by (intro exI [of _ st4] exI [of _ out4]) simp
qed

text \<open>The next free address.\<close>

definition fresh_node :: node_allocator where
  "fresh_node s = Some (Suc (Max (insert 0 (dom s))))"

lemma fresh_node_gives [simp]: "gives_nodes fresh_node"
proof -
  have "s (Suc (Max (insert 0 (dom s)))) = None" if "finite (dom s)" for s :: optlist_store
  proof (rule ccontr)
    assume "s (Suc (Max (insert 0 (dom s)))) \<noteq> None"
    then have "Suc (Max (insert 0 (dom s))) \<le> Max (insert 0 (dom s))"
      using that by (intro Max_ge) auto
    then show False by simp
  qed
  then show ?thesis by (simp add: gives_nodes_def fresh_node_def)
qed

definition sample_text :: bytes where
  "sample_text = ascii ''host%eth0/a/%2F/../b?x&y'' @ [0]"

definition sample_uri :: coap_uri where
  "sample_uri = \<lparr>uri_host = \<lparr>sc_length = 9, sc_s = Some 0\<rparr>, uri_port = 61616, uri_path = \<lparr>sc_length = 10, sc_s = Some 10\<rparr>,
     uri_query = \<lparr>sc_length = 3, sc_s = Some 21\<rparr>, uri_scheme = COAP_URI_SCHEME_COAP\<rparr>"

lemma sample_values:
  "host_options sample_text sample_uri (Some (Some [0x31])) = [(3, ascii ''host%eth0'')]"
  "port_options sample_uri = [(7, [0xF0, 0xB0])]"
  "path_values 20 sample_text (uri_path sample_uri) = [[0x61], [0x2F], [0x62]]"
  "query_values 20 sample_text (uri_query sample_uri) = [[0x78], [0x79]]"
  "\<not> unix_host (text_of sample_text (uri_host sample_uri))"
  by code_simp+

theorem uri_into_options_witness:
  "\<exists>st' out'. coap_uri_into_options fresh_node sample_text sample_uri (Some (Some [0x31])) True (replicate 20 0) 20 (None, Map.empty) =
      Some (0, st', out') \<and>
    chain_of st' [(3, ascii ''host%eth0''), (7, [0xF0, 0xB0]), (11, [0x61]), (11, [0x2F]), (11, [0x62]), (15, [0x78]), (15, [0x79])]"
  using uri_into_options [of sample_text sample_uri 20 "replicate 20 0" "(None, Map.empty)" "[]" fresh_node "Some (Some [0x31])" True]
    sample_values
  by (simp add: component_ok_def chain_of_def sample_uri_def sample_text_def isxdigit_def isdigit_def ascii_def)

section \<open>Copies of a URI\<close>

lemma clone_part_eq:
  assumes "lies_in 0 (length str) c" "area = a @ old @ b" "length a = p" "length old = sc_length c"
  shows "\<exists>d. clone_part str c p area = Some (d, a @ text_of str c @ b) \<and> sc_length d = sc_length c \<and>
    (sc_length c \<noteq> 0 \<longrightarrow> sc_s d = Some p) \<and> (sc_length c = 0 \<longrightarrow> d = null_str) \<and> length (text_of str c) = sc_length c"
proof (cases "sc_length c = 0")
  case True
  then show ?thesis using assms by (simp add: clone_part_def text_of_def null_str_def split: option.splits)
next
  case False
  obtain q where q: "sc_s c = Some q" "q + sc_length c \<le> length str"
    using assms(1) False by (auto simp: lies_in_def split: option.splits)
  then show ?thesis
    using False assms(2-4) by (simp add: clone_part_def c_slice_def c_blit_def text_of_def)
qed

lemma text_of_clone:
  assumes "length w = sc_length d" "sc_length d \<noteq> 0 \<longrightarrow> sc_s d = Some (length a)" "sc_length d = 0 \<longrightarrow> d = null_str"
  shows "text_of (a @ w @ b) d = w"
proof (cases "w = []")
  case True
  with assms show ?thesis by simp
next
  case False
  then have "sc_length d \<noteq> 0" unfolding assms(1) [symmetric] by simp
  with assms(1,2) show ?thesis by (simp add: text_of_def)
qed

lemma uri_area_size:
  assumes "fresh_blocks alloc" "sizeof_coap_uri + n < 2 ^ 32" "k = n + sizeof_coap_uri"
  shows "\<exists>r. uri_area alloc k = Some r \<and> (\<forall>area. r = Some area \<longrightarrow> length area = n)"
proof (cases "alloc (word_of_nat k)")
  case None
  then show ?thesis by (simp add: uri_area_def)
next
  case (Some m)
  have "length m = unat (word_of_nat k :: u32)" using assms(1) Some by (simp only: fresh_blocks_def)
  also have "\<dots> = k" using assms(2,3) by (intro unat_of_nat_small) simp
  finally show ?thesis using Some assms(3) by (simp add: uri_area_def)
qed

text \<open>A copy keeps the port and the texts of host, path and query, which it holds itself, but not the
  scheme: whatever it was, the copy is a plain \<open>coap\<close> URI.\<close>

theorem clone_loses_scheme:
  assumes "lies_in 0 (length str) (uri_host uri)" "lies_in 0 (length str) (uri_path uri)" "lies_in 0 (length str) (uri_query uri)"
    and "fresh_blocks alloc"
    and "sc_length (uri_host uri) + sc_length (uri_path uri) + sc_length (uri_query uri) + sizeof_coap_uri + 1 < 2 ^ 32"
  shows "\<exists>r. coap_clone_uri alloc str (Some uri) = Some r \<and> (\<forall>u area. r = Some (u, area) \<longrightarrow>
    uri_port u = uri_port uri \<and> text_of area (uri_host u) = text_of str (uri_host uri) \<and>
    text_of area (uri_path u) = text_of str (uri_path uri) \<and> text_of area (uri_query u) = text_of str (uri_query uri) \<and>
    uri_scheme u = COAP_URI_SCHEME_COAP)"
proof -
  let ?h = "uri_host uri" and ?p = "uri_path uri" and ?q = "uri_query uri"
  let ?th = "text_of str ?h" and ?tp = "text_of str ?p" and ?tq = "text_of str ?q"
  let ?n = "sc_length ?q + sc_length ?h + sc_length ?p + 1"
  obtain r where r: "uri_area alloc (sc_length ?q + sc_length ?h + sc_length ?p + sizeof_coap_uri + 1) = Some r"
    "\<forall>area. r = Some area \<longrightarrow> length area = ?n"
    using uri_area_size [OF assms(4), of ?n] assms(5) by fastforce
  show ?thesis
  proof (cases r)
    case None
    then show ?thesis using r(1) by (simp add: coap_clone_uri_def)
  next
    case (Some area)
    then have "sc_length ?h \<le> length area" using r(2) by simp
    then obtain x1 y1 where a1: "area = x1 @ y1" "length x1 = sc_length ?h" by (rule split_list_at)
    then have "sc_length ?p \<le> length y1" using r(2) Some by simp
    then obtain x2 y2 where a2: "y1 = x2 @ y2" "length x2 = sc_length ?p" by (rule split_list_at)
    then have "sc_length ?q \<le> length y2" using r(2) Some a1 by simp
    then obtain x3 y3 where a3: "y2 = x3 @ y3" "length x3 = sc_length ?q" by (rule split_list_at)
    obtain dh where dh: "clone_part str ?h 0 area = Some (dh, ?th @ x2 @ x3 @ y3)" "sc_length dh = sc_length ?h"
      "sc_length ?h \<noteq> 0 \<longrightarrow> sc_s dh = Some 0" "sc_length ?h = 0 \<longrightarrow> dh = null_str" "length ?th = sc_length ?h"
      using clone_part_eq [OF assms(1), of area "[]" x1 "x2 @ x3 @ y3" 0] a1 a2 a3 by auto
    obtain dp where dp: "clone_part str ?p (sc_length ?h) (?th @ x2 @ x3 @ y3) = Some (dp, ?th @ ?tp @ x3 @ y3)" "sc_length dp = sc_length ?p"
      "sc_length ?p \<noteq> 0 \<longrightarrow> sc_s dp = Some (sc_length ?h)" "sc_length ?p = 0 \<longrightarrow> dp = null_str" "length ?tp = sc_length ?p"
      using clone_part_eq [OF assms(2) refl dh(5) a2(2), of "x3 @ y3"] by auto
    have lp: "length (?th @ ?tp) = sc_length ?h + sc_length ?p" using dh(5) dp(5) by simp
    obtain dq where dq: "clone_part str ?q (sc_length ?h + sc_length ?p) (?th @ ?tp @ x3 @ y3) = Some (dq, ?th @ ?tp @ ?tq @ y3)"
      "sc_length dq = sc_length ?q"
      "sc_length ?q \<noteq> 0 \<longrightarrow> sc_s dq = Some (sc_length ?h + sc_length ?p)" "sc_length ?q = 0 \<longrightarrow> dq = null_str" "length ?tq = sc_length ?q"
      using clone_part_eq [OF assms(3) refl lp a3(2), of y3] by auto
    let ?area = "?th @ ?tp @ ?tq @ y3"
    let ?u = "blank_uri\<lparr>uri_port := uri_port uri, uri_host := dh, uri_path := dp, uri_query := dq\<rparr>"
    have "coap_clone_uri alloc str (Some uri) = Some (Some (?u, ?area))"
      using r(1) Some dh(1) dp(1) dq(1) by (simp add: coap_clone_uri_def)
    moreover have "text_of ?area dh = ?th"
      using text_of_clone [of ?th dh "[]" "?tp @ ?tq @ y3"] dh(2-5) by simp
    moreover have "text_of ?area dp = ?tp"
      using text_of_clone [of ?tp dp ?th "?tq @ y3"] dp(2-5) dh(5) by simp
    moreover have "text_of ?area dq = ?tq"
      using text_of_clone [of ?tq dq "?th @ ?tp" y3] dq(2-5) lp by simp
    ultimately show ?thesis by (simp add: blank_uri_def)
  qed
qed

text \<open>A new URI is the result of splitting its own copy of the text, which ends in a zero.\<close>

lemma new_uri_splits_copy:
  assumes "fresh_blocks alloc" "n + 1 + sizeof_coap_uri < 2 ^ 32" "n \<le> length src" "0 < n"
  shows "\<exists>r c u. coap_new_uri cfg alloc src n = Some r \<and>
    coap_split_uri cfg (take n src @ [0]) (Some 0) n blank_uri = Some (c, u) \<and> uri_in 0 n u \<and>
    (\<forall>x. r = Some x \<longrightarrow> c = 0 \<and> x = (u, take n src @ [0]))"
proof -
  obtain r where r: "uri_area alloc (n + 1 + sizeof_coap_uri) = Some r" "\<forall>area. r = Some area \<longrightarrow> length area = n + 1"
    using uri_area_size [OF assms(1), of "n + 1" "n + 1 + sizeof_coap_uri"] assms(2) by auto
  obtain c u where u: "coap_split_uri cfg (take n src @ [0]) (Some 0) n blank_uri = Some (c, u)"
    "c \<in> {-5, -4, -3, -2, -1, 0}" "uri_in 0 n u"
    using split_uri_total [of 0 n "take n src @ [0]" cfg COAP_URI_CHECK_URI blank_uri] assms(3,4)
    unfolding coap_split_uri_def by auto
  show ?thesis
  proof (cases r)
    case None
    then show ?thesis using r(1) u by (auto simp: coap_new_uri_def)
  next
    case (Some area)
    then have len: "length area = n + 1" using r(2) by simp
    then have last: "drop n area = [area ! n]" by (metis Cons_nth_drop_Suc Suc_eq_plus1 drop_all le_refl lessI)
    have "c_blit area 0 (take n src) = Some (take n src @ [area ! n])"
      using len last assms(3) by (simp add: c_blit_def)
    moreover have "c_store (take n src @ [area ! n]) n 0 = Some (take n src @ [0])"
      using assms(3) by (simp add: c_store_def list_update_append)
    moreover have "c_slice src 0 n = Some (take n src)" using assms(3) by (simp add: c_slice_def)
    ultimately show ?thesis using r(1) Some u by (auto simp: coap_new_uri_def split: if_splits)
  qed
qed

end
