(* ===== verification/Spec2Isabelle.thy ===== *)
theory Spec2Isabelle
  imports App Coap_Sender Http_Client Coap_Optlist Coap_Faults Coap_Stream Coap_Uri_Options
begin

text \<open>
  A verification of the ESP32-S3 sound measurement firmware: the application in \<open>src/main/\<close>
  and those parts of the two vendored components it depends on, libcoap (in
  \<open>src/managed_components/espressif__coap/libcoap/\<close>) and the LED strip driver (in
  \<open>src/managed_components/espressif__led_strip/\<close>).

  \<^bold>\<open>The program.\<close> A timer interrupt (\<open>write_task\<close>) takes a sample on every alarm and
  appends it to one of two ring buffers, which it owns through a mutex until the buffer is full. A
  task (\<open>send_task_udp\<close>, or \<open>send_task_coap\<close> in the other build) takes the buffers in
  turn, drains the full ones into an array and sends it. \<open>app_main\<close> sets all of this up: LED,
  WiFi, buffers, mutexes, timers, the registration with the server and the clock. Interrupt and task share
  the buffers, the mutexes and the variables that say whose turn it is, and nothing else.

  \<^bold>\<open>How C is read.\<close> A function that can fault is a function into \<open>option\<close>: \<open>None\<close>
  is a null dereference, an access out of bounds, a failed \<open>assert\<close>, a division by zero or an
  overflow of \<open>int\<close>. That a function returns \<open>Some\<close> is hence a statement of memory safety.
  Integers keep their width (\<open>u8\<close> to \<open>u64\<close>) where the code relies on it; \<open>size_t\<close> has 32
  bits and is a natural number where it cannot wrap. Heap blocks are lists, pointers into a block are
  positions; the option lists of libcoap, whose links are changed while they are sorted, live in an explicit
  store. Calls into FreeRTOS, ESP-IDF, the allocator and the network are parameters; what is relied
  on is stated by locales, each of them interpreted on a concrete instance or on the model's own
  definitions. A loop that might not end is an iteration (\<open>c_while\<close> of \<open>Prelude\<close>) whose value is
  \<open>None\<close> when it does not, so that no fuel is needed and a result \<open>Some\<close> includes
  termination.

  \<^bold>\<open>Theories, application.\<close>
    \<^item> \<open>Prelude\<close>: the monad, memory access, loops. \<open>Rtos\<close>: mutexes, with the contract
      \<open>mutex_contract\<close>. \<open>Esp_Idf\<close>: socket addresses and result codes.
    \<^item> \<open>Fifo\<close>: the interface \<open>latched_fifo\<close> between the ring buffer and its users, with the
      fill and drain loops proved once; \<open>Ringbuffer\<close>: \<open>ringbuffer.c\<close>, which implements it.
    \<^item> \<open>Timing\<close>: \<open>get_timediff_us\<close>. \<open>Sampler\<close>: the interrupt. \<open>Sender\<close>: the UDP task, as
      atomic steps and as one pass. \<open>Pipeline\<close>: both of them interleaved in any order, with the
      invariant \<open>sys_inv\<close> from which safety, mutual exclusion, block integrity and bounded waiting follow.
    \<^item> \<open>Coap_Sender\<close>: the CoAP task over the model of libcoap. \<open>Http_Client\<close>: the HTTP client.
    \<^item> \<open>Wifi\<close>: the connection's state machine. \<open>App\<close>: \<open>app_main\<close> and what it calls; its
      result is a start state of \<open>Pipeline\<close>.

  \<^bold>\<open>Theories, LED strip.\<close> \<open>Led_Encoder\<close> (the frame encoder with its resumptions), \<open>Led_Strip\<close>
  (the API, the interface \<open>led_backend\<close> and the RMT back end), \<open>Led_Spi\<close> (the SPI back end,
  equivalent to the other one through the API), \<open>Led_Board\<close> (resources of the RMT driver and the
  LED of the board, \<open>led_setting.c\<close>).

  \<^bold>\<open>Theories, libcoap.\<close>
    \<^item> \<open>Coap_Encode\<close>, \<open>Coap_Option\<close>, \<open>Coap_Filter\<close>: numbers, single options, and the option
      filter as a bounded set (\<open>coap_encode.c\<close>, \<open>coap_option.c\<close>).
    \<^item> \<open>Coap_Pdu\<close>, \<open>Coap_Iterator\<close>, \<open>Coap_Edit\<close>, \<open>Coap_Wire\<close>: the message object, its
      iterator, its editing functions and its form on the wire (\<open>coap_pdu.c\<close>).
    \<^item> \<open>Coap_Message\<close>, \<open>Coap_Build\<close>, \<open>Coap_Add\<close>, \<open>Coap_Revise\<close>, \<open>Coap_Roundtrip\<close>: the abstract message
      (token, ordered options, payload), the relation \<open>represents\<close> between it and the bytes, and the
      proofs that every editing function refines an operation on lists of options (with the Hop-Limit option that a
      proxy option brings into a request) and that parsing inverts sending.
    \<^item> \<open>Coap_Optlist\<close>: option lists as linked nodes, down to the merge sort of the
      \<open>LL_SORT\<close> macro, and their way into a message.
    \<^item> \<open>Coap_Params\<close>: fixed-point numbers, transmission parameters and derived times
      (\<open>coap_session.c\<close>). \<open>Coap_Queue\<close>: the queue of messages with relative times
      (\<open>coap_net.c\<close>), as a queue of absolute deadlines.
    \<^item> \<open>Coap_Transmit\<close>: messages under way (\<open>coap_net.c\<close>, \<open>coap_session.c\<close>, \<open>coap_io.c\<close>): sending,
      delaying, retransmission, acknowledgement, reset, cancelling, disconnecting and writing to a
      stream, with the reference counts of sessions, over an environment of clock, random bytes, allocator and transport
      whose answers are arbitrary. \<open>Coap_Active\<close>, \<open>Coap_Disconnect\<close>, \<open>Coap_Cancel\<close>: each operation keeps the
      invariant \<open>net_inv\<close> when writes and allocations succeed. \<open>Coap_Window\<close>: reachable states, absence of faults and the
      window NSTART. \<open>Coap_Retransmit\<close>: the schedule of retransmissions and the end of the loop over the timers.
      \<open>Coap_Faults\<close>: deadlines that move and windows that widen. \<open>Coap_Stream\<close>: no byte of a stream is lost or repeated.
    \<^item> \<open>Coap_Str\<close>: strings (\<open>coap_str.c\<close>). \<open>Coap_Path\<close>: paths and queries cut into options, against a
      specification of splitting and percent decoding. \<open>Coap_Uri\<close>, \<open>Coap_Uri_Parse\<close>: the parser of URIs, its safety, and
      the parts it finds in a composed URI. \<open>Coap_Uri_Get\<close>, \<open>Coap_Uri_Roundtrip\<close>: the path and the query of a
      message as strings, with the two passes over the options stated once in the locale \<open>option_sink\<close>.
      \<open>Coap_Uri_Options\<close>: a URI as an option list, and copies of URIs (\<open>coap_uri.c\<close>).

  \<^bold>\<open>Bounds.\<close> The ring buffers are proved for every size of at least one; \<open>RINGBUFFER_SIZE\<close> is
  1250. Messages are limited by the 16 bits of an option's number and length and by the sizes in the
  message object; the theorems name these limits as hypotheses. Times are 64 bits wide; the end of the loop over the timers is proved for clocks below \<open>2 ^ 62\<close>.

  \<^bold>\<open>Not modelled.\<close> Of libcoap: sockets, the event loop around \<open>coap_io_prepare_io\<close>, the creation of
  sessions and endpoints, receiving (beyond parsing a message, and what an acknowledgement or a reset does to the send queue),
  multicast requests, keep-alive pings, the server side, block-wise transfer, DTLS, TLS and OSCORE, of which the program
  uses at most what a client over UDP needs; printing. A failing \<open>xSemaphoreCreateMutex\<close> is not modelled either. Of the application: the endless loop at the end of
  \<open>app_main\<close>, which only sleeps. The LED driver for ESP-IDF 4 is not compiled. Log output is left
  out everywhere. Of the time in the sampling pipeline, only the order of ticks and task steps is modelled, and what the
  clock returns is arbitrary.
\<close>

end
